(* ===== verification/Prelude.thy ===== *)
theory Prelude
  imports Main "HOL-Library.Word"
begin

unbundle bit_operations_syntax

text \<open>
  Shared ground of the development: the results of C code that may be stuck, a
  weakest-precondition reading of them, byte buffers with checked accesses, the C
  string functions the sources use, and wrap-around arithmetic.

  Bytes are values of type \<open>char\<close> (eight bits, \<open>CHR 0x00\<close> is NUL), a memory block is
  a \<open>string\<close>, and unsigned C integers that the sources add and subtract are natural
  numbers with the reduction modulo the width written out.
\<close>

named_theorems wp_intros \<open>specifications of operations, as introduction rules for wp\<close>
named_theorems wrap_simps \<open>wrap-around arithmetic that does not wrap\<close>

type_synonym byte = char
type_synonym u8 = "8 word"
type_synonym u16 = "16 word"
type_synonym u32 = "32 word"
type_synonym u64 = "64 word"

abbreviation NUL :: byte where
  "NUL \<equiv> CHR 0x00"

section \<open>Results of code that can get stuck\<close>

text \<open>
  \<open>Fault\<close> is undefined behaviour (an access outside an object, a null dereference);
  \<open>Abort\<close> is a call of \<open>abort\<close>, \<open>exit\<close> or a failed \<open>assert\<close>.
\<close>

datatype cerr = Fault | Abort

datatype 'a cres = Ok 'a | Err cerr

fun res_bind :: "'a cres \<Rightarrow> ('a \<Rightarrow> 'b cres) \<Rightarrow> 'b cres" where
  "res_bind (Ok x) f = f x"
| "res_bind (Err e) f = Err e"

definition assert_that :: "bool \<Rightarrow> unit cres" where
  "assert_that b = (if b then Ok () else Err Abort)"

definition no_ub :: "bool \<Rightarrow> unit cres" where
  "no_ub b = (if b then Ok () else Err Fault)"

lemma res_bind_Ok_iff: "res_bind r f = Ok y \<longleftrightarrow> (\<exists>x. r = Ok x \<and> f x = Ok y)"
  by (cases r) auto

lemma res_bind_Err_iff:
  "res_bind r f = Err e \<longleftrightarrow> r = Err e \<or> (\<exists>x. r = Ok x \<and> f x = Err e)"
  by (cases r) auto

lemma res_bind_cong [fundef_cong]:
  "r = r' \<Longrightarrow> (\<And>x. r' = Ok x \<Longrightarrow> f x = g x) \<Longrightarrow> res_bind r f = res_bind r' g"
  by (cases r') auto

lemma res_bind_assoc: "res_bind (res_bind r f) g = res_bind r (\<lambda>x. res_bind (f x) g)"
  by (cases r) simp_all

lemma assert_that_simps [simp]:
  "assert_that True = Ok ()" "assert_that False = Err Abort"
  by (simp_all add: assert_that_def)

lemma no_ub_simps [simp]: "no_ub True = Ok ()" "no_ub False = Err Fault"
  by (simp_all add: no_ub_def)

text \<open>
  \<open>wp a r Q\<close>: the code does not fault, it ends in a value that satisfies \<open>Q\<close>, or it
  aborts, which is allowed only when \<open>a\<close> holds. With \<open>a = False\<close> it is total
  correctness.
\<close>

fun wp :: "bool \<Rightarrow> 'a cres \<Rightarrow> ('a \<Rightarrow> bool) \<Rightarrow> bool" where
  "wp a (Ok x) Q = Q x"
| "wp a (Err Abort) Q = a"
| "wp a (Err Fault) Q = False"

lemma wp_Err [simp]: "wp a (Err e) Q \<longleftrightarrow> e = Abort \<and> a"
  by (cases e) simp_all

lemma wp_bind: "wp a (res_bind r f) Q = wp a r (\<lambda>x. wp a (f x) Q)"
  by (cases r) simp_all

lemma wp_weaken: "wp a r P \<Longrightarrow> (a \<Longrightarrow> b) \<Longrightarrow> (\<And>x. P x \<Longrightarrow> Q x) \<Longrightarrow> wp b r Q"
  by (cases "(a, r, P)" rule: wp.cases) auto

lemma wp_bindI:
  "wp a r P \<Longrightarrow> (a \<Longrightarrow> b) \<Longrightarrow> (\<And>x. P x \<Longrightarrow> wp b (f x) Q) \<Longrightarrow> wp b (res_bind r f) Q"
  by (simp add: wp_bind) (rule wp_weaken)

lemma wp_Ok: "wp a r Q \<Longrightarrow> r = Ok x \<Longrightarrow> Q x"
  by simp

lemma wp_total: "wp False r Q \<longleftrightarrow> (\<exists>x. r = Ok x \<and> Q x)"
  by (cases "(False, r, Q)" rule: wp.cases) auto

lemma wp_no_fault: "wp a r Q \<Longrightarrow> r \<noteq> Err Fault"
  by auto

lemma wp_conj: "wp a r P \<Longrightarrow> wp a r Q \<Longrightarrow> wp a r (\<lambda>x. P x \<and> Q x)"
  by (cases "(a, r, P)" rule: wp.cases) auto

lemma wp_assert [simp]: "wp a (assert_that b) Q \<longleftrightarrow> (if b then Q () else a)"
  by (simp add: assert_that_def)

lemma wp_no_ub [simp]: "wp a (no_ub b) Q \<longleftrightarrow> b \<and> Q ()"
  by (simp add: no_ub_def)

text \<open>Partial correctness, for facts that hold of whatever is returned.\<close>

definition on_ok :: "'a cres \<Rightarrow> ('a \<Rightarrow> bool) \<Rightarrow> bool" where
  "on_ok r Q \<longleftrightarrow> (\<forall>x. r = Ok x \<longrightarrow> Q x)"

lemma on_ok_simps [simp]: "on_ok (Ok x) Q = Q x" "on_ok (Err e) Q"
  by (simp_all add: on_ok_def)

lemma on_ok_bind: "on_ok (res_bind r f) Q \<longleftrightarrow> (\<forall>x. r = Ok x \<longrightarrow> on_ok (f x) Q)"
  by (cases r) auto

lemma on_ok_weaken: "on_ok r P \<Longrightarrow> (\<And>x. P x \<Longrightarrow> Q x) \<Longrightarrow> on_ok r Q"
  by (auto simp: on_ok_def)

section \<open>Wrap-around arithmetic\<close>

definition w32 :: "nat \<Rightarrow> nat" where
  "w32 n = n mod 2 ^ 32"

definition w64 :: "nat \<Rightarrow> nat" where
  "w64 n = n mod 2 ^ 64"

text \<open>Unsigned subtraction, and the conversions of a signed value to and from a width.\<close>

definition sub32 :: "nat \<Rightarrow> nat \<Rightarrow> nat" where
  "sub32 a b = nat ((int a - int b) mod 2 ^ 32)"

definition sub64 :: "nat \<Rightarrow> nat \<Rightarrow> nat" where
  "sub64 a b = nat ((int a - int b) mod 2 ^ 64)"

definition to_u32 :: "int \<Rightarrow> nat" where
  "to_u32 i = nat (i mod 2 ^ 32)"

definition to_u64 :: "int \<Rightarrow> nat" where
  "to_u64 i = nat (i mod 2 ^ 64)"

definition to_s32 :: "int \<Rightarrow> int" where
  "to_s32 i = (i + 2 ^ 31) mod 2 ^ 32 - 2 ^ 31"

definition to_s64 :: "int \<Rightarrow> int" where
  "to_s64 i = (i + 2 ^ 63) mod 2 ^ 64 - 2 ^ 63"

text \<open>Division and remainder of C, by a positive number.\<close>

definition cdiv :: "int \<Rightarrow> int \<Rightarrow> int" where
  "cdiv a b = (if 0 \<le> a then a div b else - (- a div b))"

definition cmod :: "int \<Rightarrow> int \<Rightarrow> int" where
  "cmod a b = a - b * cdiv a b"

lemma nat_int_Suc [simp]: "nat (1 + int n) = Suc n" "nat (int n + 1) = Suc n"
  by simp_all

lemma w32_id [wrap_simps]: "n < 4294967296 \<Longrightarrow> w32 n = n"
  by (simp add: w32_def)

lemma w64_id [wrap_simps]: "n < 18446744073709551616 \<Longrightarrow> w64 n = n"
  by (simp add: w64_def)

lemma w32_bound [simp]: "w32 n < 4294967296"
  by (simp add: w32_def)

lemma w64_bound [simp]: "w64 n < 18446744073709551616"
  by (simp add: w64_def)

lemma sub32_id [wrap_simps]: "b \<le> a \<Longrightarrow> a < 4294967296 \<Longrightarrow> sub32 a b = a - b"
  by (simp add: sub32_def flip: of_nat_diff)

lemma sub64_id [wrap_simps]: "b \<le> a \<Longrightarrow> a < 18446744073709551616 \<Longrightarrow> sub64 a b = a - b"
  by (simp add: sub64_def flip: of_nat_diff)

lemma to_u32_id [wrap_simps]: "0 \<le> i \<Longrightarrow> i < 4294967296 \<Longrightarrow> to_u32 i = nat i"
  by (simp add: to_u32_def)

lemma to_u64_id [wrap_simps]: "0 \<le> i \<Longrightarrow> i < 18446744073709551616 \<Longrightarrow> to_u64 i = nat i"
  by (simp add: to_u64_def)

lemma to_s32_id [wrap_simps]: "- 2147483648 \<le> i \<Longrightarrow> i < 2147483648 \<Longrightarrow> to_s32 i = i"
  by (simp add: to_s32_def)

lemma to_s64_id [wrap_simps]:
  "- 9223372036854775808 \<le> i \<Longrightarrow> i < 9223372036854775808 \<Longrightarrow> to_s64 i = i"
  by (simp add: to_s64_def)

end
