(* ===== verification/CMem.thy ===== *)
theory CMem
  imports Prelude
begin

text \<open>
  Memory of the C programs: a block is a list of bytes, every access is checked and an
  access outside the block is a \<open>Fault\<close>. The C library functions the sources use on
  memory and on characters are here, and the allocator: its successes and failures are
  read off a script in the \<open>world\<close>, and the bytes of fresh memory are arbitrary.
\<close>

section \<open>Checked accesses\<close>

definition load :: "'a list \<Rightarrow> nat \<Rightarrow> 'a cres" where
  "load b i = (if i < length b then Ok (b ! i) else Err Fault)"

definition store :: "'a list \<Rightarrow> nat \<Rightarrow> 'a \<Rightarrow> 'a list cres" where
  "store b i c = (if i < length b then Ok (b[i := c]) else Err Fault)"

definition overwrite :: "'a list \<Rightarrow> nat \<Rightarrow> 'a list \<Rightarrow> 'a list" where
  "overwrite b d xs = take d b @ xs @ drop (d + length xs) b"

text \<open>\<open>memcpy dst d src n\<close> copies the first \<open>n\<close> bytes of \<open>src\<close> to offset \<open>d\<close> of \<open>dst\<close>.\<close>

definition memcpy :: "'a list \<Rightarrow> nat \<Rightarrow> 'a list \<Rightarrow> nat \<Rightarrow> 'a list cres" where
  "memcpy dst d src n =
     (if d + n \<le> length dst \<and> n \<le> length src then Ok (overwrite dst d (take n src)) else Err Fault)"

text \<open>\<open>memmove b d s n\<close> moves \<open>n\<close> bytes from offset \<open>s\<close> to offset \<open>d\<close> of the same block.\<close>

definition memmove :: "string \<Rightarrow> nat \<Rightarrow> nat \<Rightarrow> nat \<Rightarrow> string cres" where
  "memmove b d s n =
     (if d + n \<le> length b \<and> s + n \<le> length b
      then Ok (overwrite b d (take n (drop s b))) else Err Fault)"

definition memset :: "'a list \<Rightarrow> nat \<Rightarrow> 'a \<Rightarrow> nat \<Rightarrow> 'a list cres" where
  "memset b d c n = (if d + n \<le> length b then Ok (overwrite b d (replicate n c)) else Err Fault)"

lemma memcpy_whole: "d + length x \<le> length b \<Longrightarrow> memcpy b d x (length x) = Ok (overwrite b d x)"
  by (simp add: memcpy_def)

lemma wp_load [simp]: "wp a (load b i) Q \<longleftrightarrow> i < length b \<and> Q (b ! i)"
  by (auto simp: load_def)

lemma wp_store [simp]: "wp a (store b i c) Q \<longleftrightarrow> i < length b \<and> Q (b[i := c])"
  by (auto simp: store_def)

lemma wp_memcpy [simp]:
  "wp a (memcpy dst d src n) Q \<longleftrightarrow>
     d + n \<le> length dst \<and> n \<le> length src \<and> Q (overwrite dst d (take n src))"
  by (auto simp: memcpy_def)

lemma wp_memmove [simp]:
  "wp a (memmove b d s n) Q \<longleftrightarrow>
     d + n \<le> length b \<and> s + n \<le> length b \<and> Q (overwrite b d (take n (drop s b)))"
  by (auto simp: memmove_def)

lemma wp_memset [simp]:
  "wp a (memset b d c n) Q \<longleftrightarrow> d + n \<le> length b \<and> Q (overwrite b d (replicate n c))"
  by (auto simp: memset_def)

lemma length_overwrite [simp]:
  "d + length xs \<le> length b \<Longrightarrow> length (overwrite b d xs) = length b"
  by (simp add: overwrite_def)

lemma take_overwrite_before [simp]:
  "n \<le> d \<Longrightarrow> d \<le> length b \<Longrightarrow> take n (overwrite b d xs) = take n b"
  by (simp add: overwrite_def min_absorb1)

lemma take_overwrite_end:
  "d \<le> length b \<Longrightarrow> n = d + length xs \<Longrightarrow> take n (overwrite b d xs) = take d b @ xs"
  by (simp add: overwrite_def)

lemma overwrite_Nil [simp]: "overwrite b d [] = b"
  by (simp add: overwrite_def)

lemma overwrite_0: "overwrite b 0 xs = xs @ drop (length xs) b"
  by (simp add: overwrite_def)

lemma take_overwrite_0 [simp]: "n = length xs \<Longrightarrow> take n (overwrite b 0 xs) = xs"
  by (simp add: overwrite_def)

lemma nth_overwrite:
  "d + length xs \<le> length b \<Longrightarrow> i < length b \<Longrightarrow>
   overwrite b d xs ! i = (if i < d then b ! i else if i < d + length xs then xs ! (i - d) else b ! i)"
  by (auto simp: overwrite_def nth_append)

lemma take_list_update_beyond [simp]: "n \<le> i \<Longrightarrow> take n (b[i := c]) = take n b"
  by (rule take_update_cancel)

lemma last_take_nth: "0 < n \<Longrightarrow> n \<le> length b \<Longrightarrow> last (take n b) = b ! (n - 1)"
  by (subst last_conv_nth) (auto simp: min_absorb2)

section \<open>C strings\<close>

text \<open>
  A pointer to a C string is given by the memory that is readable from it; its value
  ends before the first NUL.
\<close>

definition cstring :: "string \<Rightarrow> string" where
  "cstring m = takeWhile (\<lambda>c. c \<noteq> NUL) m"

definition strlen :: "string \<Rightarrow> nat cres" where
  "strlen m = (if NUL \<in> set m then Ok (length (cstring m)) else Err Fault)"

text \<open>\<open>strchr\<close> as a test; the terminating NUL belongs to the string it searches.\<close>

definition strchr :: "string \<Rightarrow> byte \<Rightarrow> bool cres" where
  "strchr m c = (if NUL \<in> set m then Ok (c \<in> set (cstring m) \<or> c = NUL) else Err Fault)"

definition byte_val :: "byte \<Rightarrow> nat" where
  "byte_val c = of_char c"

text \<open>The difference of the first bytes that differ, as unsigned characters.\<close>

fun cmp_bytes :: "string \<Rightarrow> string \<Rightarrow> int" where
  "cmp_bytes (x # xs) (y # ys) =
     (if x = y then cmp_bytes xs ys else int (byte_val x) - int (byte_val y))"
| "cmp_bytes _ _ = 0"

definition memcmp :: "string \<Rightarrow> string \<Rightarrow> nat \<Rightarrow> int cres" where
  "memcmp a b n =
     (if n \<le> length a \<and> n \<le> length b then Ok (cmp_bytes (take n a) (take n b)) else Err Fault)"

lemma wp_strlen [simp]: "wp a (strlen m) Q \<longleftrightarrow> NUL \<in> set m \<and> Q (length (cstring m))"
  by (auto simp: strlen_def)

lemma wp_strchr [simp]:
  "wp a (strchr m c) Q \<longleftrightarrow> NUL \<in> set m \<and> Q (c \<in> set (cstring m) \<or> c = NUL)"
  by (auto simp: strchr_def)

lemma wp_memcmp [simp]:
  "wp a (memcmp x y n) Q \<longleftrightarrow> n \<le> length x \<and> n \<le> length y \<and> Q (cmp_bytes (take n x) (take n y))"
  by (auto simp: memcmp_def)

lemma cstring_append_NUL [simp]: "cstring (t @ NUL # r) = cstring t"
  by (induction t) (auto simp: cstring_def)

lemma cstring_id [simp]: "NUL \<notin> set t \<Longrightarrow> cstring t = t"
  by (induction t) (auto simp: cstring_def)

lemma cstring_eval: "cstring [] = []" "cstring (c # m) = (if c = NUL then [] else c # cstring m)"
  by (simp_all add: cstring_def)

lemma NUL_notin_cstring [simp]: "NUL \<notin> set (cstring m)"
  by (auto simp: cstring_def dest: set_takeWhileD)

lemma length_cstring_le: "length (cstring m) \<le> length m"
  by (simp add: cstring_def length_takeWhile_le)

lemma length_cstring_less: "NUL \<in> set m \<Longrightarrow> length (cstring m) < length m"
  unfolding cstring_def by (induction m) auto

lemma take_length_cstring [simp]: "take (length (cstring m)) m = cstring m"
  unfolding cstring_def by (rule takeWhile_eq_take [symmetric])

lemma nth_length_cstring: "NUL \<in> set m \<Longrightarrow> m ! length (cstring m) = NUL"
  unfolding cstring_def by (induction m) auto

lemma byte_val_bound [simp]: "byte_val c < 256"
  by (simp add: byte_val_def)

lemma char_of_byte_val [simp]: "char_of (byte_val c) = c"
  by (simp add: byte_val_def)

lemma byte_val_inj [simp]: "byte_val c = byte_val d \<longleftrightarrow> c = d"
  by (simp add: byte_val_def)

lemma cmp_bytes_eq_0_iff:
  "length xs = length ys \<Longrightarrow> cmp_bytes xs ys = 0 \<longleftrightarrow> xs = ys"
  by (induction xs ys rule: cmp_bytes.induct) auto

lemma cmp_bytes_antisym: "cmp_bytes ys xs = - cmp_bytes xs ys"
  by (induction xs ys rule: cmp_bytes.induct) auto

lemma cmp_bytes_bound: "\<bar>cmp_bytes xs ys\<bar> < 256"
proof (induction xs ys rule: cmp_bytes.induct)
  case (1 x xs y ys)
  have "int (byte_val x) < 256" "int (byte_val y) < 256"
    using byte_val_bound [of x] byte_val_bound [of y] by linarith+
  then have "\<bar>int (byte_val x) - int (byte_val y)\<bar> < 256" by linarith
  with 1 show ?case by (cases "x = y") simp_all
qed simp_all

section \<open>Characters, in the C locale\<close>

definition isspace :: "byte \<Rightarrow> bool" where
  "isspace c \<longleftrightarrow> byte_val c = 32 \<or> (9 \<le> byte_val c \<and> byte_val c \<le> 13)"

definition isprint :: "byte \<Rightarrow> bool" where
  "isprint c \<longleftrightarrow> 32 \<le> byte_val c \<and> byte_val c \<le> 126"

definition tolower :: "byte \<Rightarrow> byte" where
  "tolower c = (if 65 \<le> byte_val c \<and> byte_val c \<le> 90 then char_of (byte_val c + 32) else c)"

definition toupper :: "byte \<Rightarrow> byte" where
  "toupper c = (if 97 \<le> byte_val c \<and> byte_val c \<le> 122 then char_of (byte_val c - 32) else c)"

definition digit_char :: "nat \<Rightarrow> byte" where
  "digit_char d = char_of (48 + d)"

text \<open>The digits \<open>printf\<close> writes for one hexadecimal or octal digit.\<close>

definition hex_char :: "nat \<Rightarrow> byte" where
  "hex_char d = (if d < 10 then char_of (48 + d) else char_of (87 + d))"

lemma byte_val_char_of [simp]: "byte_val (char_of n) = n mod 256"
  by (simp add: byte_val_def of_char_of)

lemma NUL_not_isspace [simp]: "\<not> isspace NUL"
  by (simp add: isspace_def byte_val_def)

section \<open>Formatted output\<close>

text \<open>
  \<open>out\<close> is the text that \<open>vsnprintf\<close> renders from the format and its arguments; given
  \<open>n\<close> bytes at offset \<open>d\<close> of a block it stores at most the first \<open>n - 1\<close> and a NUL.
\<close>

definition vsnprintf :: "string \<Rightarrow> nat \<Rightarrow> nat \<Rightarrow> string \<Rightarrow> string cres" where
  "vsnprintf b d n out =
     (if n = 0 then Ok b
      else memcpy b d (take (n - 1) out @ [NUL]) (length (take (n - 1) out @ [NUL])))"

lemma vsnprintf_eq:
  "0 < n \<Longrightarrow> d + n \<le> length b \<Longrightarrow> vsnprintf b d n out = Ok (overwrite b d (take (n - 1) out @ [NUL]))"
proof -
  assume n: "0 < n" "d + n \<le> length b"
  define t where "t = take (n - 1) out @ [NUL]"
  have "length t \<le> n" using n by (auto simp: t_def)
  then show ?thesis
    using n unfolding vsnprintf_def t_def [symmetric] by (simp add: memcpy_def)
qed

section \<open>The allocator\<close>

record world =
  oom_script :: "bool list"
  junk :: "nat \<Rightarrow> byte"

text \<open>
  Each request consumes one entry of the script, \<open>True\<close> for a failure; after the
  script every request succeeds. The contents come from \<open>fresh\<close>, or from \<open>resize\<close>
  for \<open>realloc\<close>, which keeps the common prefix.
\<close>

definition malloc :: "'a world_scheme \<Rightarrow> bool \<times> 'a world_scheme" where
  "malloc w = (case oom_script w of [] \<Rightarrow> (True, w) | b # bs \<Rightarrow> (\<not> b, w\<lparr>oom_script := bs\<rparr>))"

definition fresh :: "'a world_scheme \<Rightarrow> nat \<Rightarrow> string" where
  "fresh w n = map (junk w) [0..<n]"

definition zeroed :: "nat \<Rightarrow> string" where
  "zeroed n = replicate n NUL"

definition resize :: "'a world_scheme \<Rightarrow> string \<Rightarrow> nat \<Rightarrow> string" where
  "resize w b n = take n b @ map (junk w) [length b..<n]"

definition may_oom :: "'a world_scheme \<Rightarrow> bool" where
  "may_oom w \<longleftrightarrow> True \<in> set (oom_script w)"

text \<open>A world that never refuses memory.\<close>

definition quiet :: world where
  "quiet = \<lparr>oom_script = [], junk = \<lambda>_. NUL\<rparr>"

lemma quiet_simps [simp]: "\<not> may_oom quiet" "oom_script quiet = []"
  by (simp_all add: quiet_def may_oom_def)

lemma length_fresh [simp]: "length (fresh w n) = n"
  by (simp add: fresh_def)

lemma fresh_Nil_iff [simp]: "fresh w n = [] \<longleftrightarrow> n = 0"
  by (simp add: fresh_def)

lemma length_zeroed [simp]: "length (zeroed n) = n"
  by (simp add: zeroed_def)

lemma nth_zeroed [simp]: "i < n \<Longrightarrow> zeroed n ! i = NUL"
  by (simp add: zeroed_def)

lemma zeroed_update [simp]: "(zeroed n)[i := NUL] = zeroed n"
  by (cases "i < n") (simp_all add: list_update_same_conv list_update_beyond)

lemma take_zeroed [simp]: "take k (zeroed n) = zeroed (min k n)"
  by (simp add: zeroed_def)

lemma length_resize [simp]: "length (resize w b n) = n"
  by (simp add: resize_def)

lemma take_resize [simp]: "k \<le> length b \<Longrightarrow> k \<le> n \<Longrightarrow> take k (resize w b n) = take k b"
  by (simp add: resize_def min_def)

lemma nth_resize [simp]: "i < length b \<Longrightarrow> i < n \<Longrightarrow> resize w b n ! i = b ! i"
  by (simp add: resize_def nth_append)

lemma malloc_fst: "\<not> fst (malloc w) \<Longrightarrow> may_oom w"
  by (cases "oom_script w") (auto simp: malloc_def may_oom_def)

lemma malloc_snd: "may_oom (snd (malloc w)) \<Longrightarrow> may_oom w"
  by (cases "oom_script w") (auto simp: malloc_def may_oom_def)

lemma malloc_junk [simp]: "junk (snd (malloc w)) = junk w"
  by (cases "oom_script w") (auto simp: malloc_def)

end
