(* ===== verification/Zmalloc.thy ===== *)
theory Zmalloc
  imports CMem "HOL-Library.Multiset"
begin

text \<open>
  The counting allocator of src/Clang/string/redis/zmalloc.c. Its static variables are
  the fields of \<open>zworld\<close>. A block is named by the size it was requested with, which is
  what the code keeps in the prefix of the block. \<open>usable = Some us\<close> is the build with
  HAVE_MALLOC_SIZE, where \<open>us n\<close> is what the allocator reports as the usable size of a
  block of \<open>n\<close> bytes (0 for NULL); \<open>usable = None\<close> is the build with the size prefix.
\<close>

section \<open>State\<close>

datatype oom_handler = Zmalloc_default_oom | Returning_handler

record zworld = world +
  used_memory :: u64
  zmalloc_thread_safe :: bool
  zmalloc_oom_handler :: oom_handler
  usable :: "(nat \<Rightarrow> nat) option"

definition call_oom_handler :: "zworld \<Rightarrow> unit cres" where
  "call_oom_handler w =
     (case zmalloc_oom_handler w of Zmalloc_default_oom \<Rightarrow> Err Abort | Returning_handler \<Rightarrow> Ok ())"

section \<open>Operations\<close>

definition PREFIX_SIZE :: nat where
  "PREFIX_SIZE = 8"

definition update_zmalloc_stat_add :: "nat \<Rightarrow> zworld \<Rightarrow> zworld" where
  "update_zmalloc_stat_add n w = w\<lparr>used_memory := used_memory w + of_nat n\<rparr>"

definition update_zmalloc_stat_sub :: "nat \<Rightarrow> zworld \<Rightarrow> zworld" where
  "update_zmalloc_stat_sub n w = w\<lparr>used_memory := used_memory w - of_nat n\<rparr>"

definition round_long :: "nat \<Rightarrow> nat" where
  "round_long n = (if n mod 8 \<noteq> 0 then w64 (n + (8 - n mod 8)) else n)"

definition update_zmalloc_stat_alloc :: "nat \<Rightarrow> zworld \<Rightarrow> zworld" where
  "update_zmalloc_stat_alloc n w =
     (if zmalloc_thread_safe w then update_zmalloc_stat_add (round_long n) w
      else w\<lparr>used_memory := used_memory w + of_nat (round_long n)\<rparr>)"

definition update_zmalloc_stat_free :: "nat \<Rightarrow> zworld \<Rightarrow> zworld" where
  "update_zmalloc_stat_free n w =
     (if zmalloc_thread_safe w then update_zmalloc_stat_sub (round_long n) w
      else w\<lparr>used_memory := used_memory w - of_nat (round_long n)\<rparr>)"

text \<open>
  \<open>zmalloc\<close> returns the block (its size) or NULL. With the prefix, the size is written
  to the start of the block: a fault when \<open>malloc\<close> failed and the handler returned, or
  when the request wrapped to fewer than eight bytes.
\<close>

definition zmalloc :: "nat \<Rightarrow> zworld \<Rightarrow> (nat option \<times> zworld) cres" where
  "zmalloc n w =
     (let (ok, w) = malloc w in
      res_bind (if ok then Ok () else call_oom_handler w) (\<lambda>_.
      case usable w of
        Some us \<Rightarrow>
          if ok then Ok (Some n, update_zmalloc_stat_alloc (us n) w)
          else Ok (None, update_zmalloc_stat_alloc 0 w)
      | None \<Rightarrow>
          if ok \<and> PREFIX_SIZE \<le> w64 (n + PREFIX_SIZE)
          then Ok (Some n, update_zmalloc_stat_alloc (w64 (n + PREFIX_SIZE)) w)
          else Err Fault))"

text \<open>\<open>zcalloc\<close> differs in the contents of the block only, which its callers take as zero.\<close>

definition zcalloc :: "nat \<Rightarrow> zworld \<Rightarrow> (nat option \<times> zworld) cres" where
  "zcalloc n w =
     (let (ok, w) = malloc w in
      res_bind (if ok then Ok () else call_oom_handler w) (\<lambda>_.
      case usable w of
        Some us \<Rightarrow>
          if ok then Ok (Some n, update_zmalloc_stat_alloc (us n) w)
          else Ok (None, update_zmalloc_stat_alloc 0 w)
      | None \<Rightarrow>
          if ok \<and> PREFIX_SIZE \<le> w64 (n + PREFIX_SIZE)
          then Ok (Some n, update_zmalloc_stat_alloc (w64 (n + PREFIX_SIZE)) w)
          else Err Fault))"

definition zrealloc :: "nat option \<Rightarrow> nat \<Rightarrow> zworld \<Rightarrow> (nat option \<times> zworld) cres" where
  "zrealloc p n w =
     (case p of None \<Rightarrow> zmalloc n w
      | Some old \<Rightarrow>
        let (ok, w) = malloc w in
        res_bind (if ok then Ok () else call_oom_handler w) (\<lambda>_.
        case usable w of
          Some us \<Rightarrow>
            Ok (if ok then Some n else None,
                update_zmalloc_stat_alloc (if ok then us n else 0)
                  (update_zmalloc_stat_free (us old) w))
        | None \<Rightarrow>
            if ok \<and> PREFIX_SIZE \<le> w64 (n + PREFIX_SIZE)
            then Ok (Some n, update_zmalloc_stat_alloc n (update_zmalloc_stat_free old w))
            else Err Fault))"

definition zmalloc_size :: "nat \<Rightarrow> nat" where
  "zmalloc_size n = w64 (round_long n + PREFIX_SIZE)"

definition zfree :: "nat option \<Rightarrow> zworld \<Rightarrow> zworld" where
  "zfree p w =
     (case p of None \<Rightarrow> w
      | Some old \<Rightarrow>
        (case usable w of
           Some us \<Rightarrow> update_zmalloc_stat_free (us old) w
         | None \<Rightarrow> update_zmalloc_stat_free (w64 (old + PREFIX_SIZE)) w))"

text \<open>\<open>zstrdup\<close> copies into the block without checking it: NULL is a fault.\<close>

definition zstrdup :: "string \<Rightarrow> zworld \<Rightarrow> (string \<times> zworld) cres" where
  "zstrdup s w =
     res_bind (strlen s) (\<lambda>n.
     res_bind (zmalloc (n + 1) w) (\<lambda>(p, w').
     case p of None \<Rightarrow> Err Fault
     | Some k \<Rightarrow> res_bind (memcpy (fresh w' k) 0 s (n + 1)) (\<lambda>b. Ok (b, w'))))"

definition zmalloc_used_memory :: "zworld \<Rightarrow> u64" where
  "zmalloc_used_memory w =
     (if zmalloc_thread_safe w then used_memory (update_zmalloc_stat_add 0 w) else used_memory w)"

definition zmalloc_enable_thread_safeness :: "zworld \<Rightarrow> zworld" where
  "zmalloc_enable_thread_safeness w = w\<lparr>zmalloc_thread_safe := True\<rparr>"

definition zmalloc_set_oom_handler :: "oom_handler \<Rightarrow> zworld \<Rightarrow> zworld" where
  "zmalloc_set_oom_handler h w = w\<lparr>zmalloc_oom_handler := h\<rparr>"

section \<open>Accounting\<close>

text \<open>What a live block of \<open>n\<close> bytes contributes to \<open>used_memory\<close>.\<close>

definition cost :: "zworld \<Rightarrow> nat \<Rightarrow> u64" where
  "cost w n = of_nat (round_long (case usable w of Some us \<Rightarrow> us n | None \<Rightarrow> w64 (n + PREFIX_SIZE)))"

text \<open>
  A configuration in which no allocation can fault: the default handler aborts, and
  with HAVE_MALLOC_SIZE a handler may return.
\<close>

definition zok :: "zworld \<Rightarrow> bool" where
  "zok w \<longleftrightarrow> zmalloc_oom_handler w = Zmalloc_default_oom \<or> usable w \<noteq> None"

text \<open>When an allocation can return NULL to its caller.\<close>

definition null_possible :: "zworld \<Rightarrow> bool" where
  "null_possible w \<longleftrightarrow> may_oom w \<and> zmalloc_oom_handler w = Returning_handler"

text \<open>\<open>zext w w'\<close>: \<open>w'\<close> is a later state of the same configuration.\<close>

definition zext :: "zworld \<Rightarrow> zworld \<Rightarrow> bool" where
  "zext w w' \<longleftrightarrow> usable w' = usable w \<and> zmalloc_oom_handler w' = zmalloc_oom_handler w
     \<and> junk w' = junk w \<and> (may_oom w' \<longrightarrow> may_oom w)"

lemma zext_refl [simp]: "zext w w"
  by (simp add: zext_def)

lemma zext_trans [trans]: "zext u v \<Longrightarrow> zext v w \<Longrightarrow> zext u w"
  by (auto simp: zext_def)

lemma zext_zok: "zext w w' \<Longrightarrow> zok w' = zok w"
  by (auto simp: zext_def zok_def)

lemma zext_cost: "zext w w' \<Longrightarrow> cost w' = cost w"
  by (auto simp: zext_def cost_def fun_eq_iff)

lemma zext_may_oom: "zext w w' \<Longrightarrow> may_oom w' \<Longrightarrow> may_oom w"
  by (auto simp: zext_def)

lemma zext_null_possible: "zext w w' \<Longrightarrow> null_possible w' \<Longrightarrow> null_possible w"
  by (auto simp: zext_def null_possible_def)

lemma of_nat_w64 [simp]: "(of_nat (w64 n) :: u64) = of_nat n"
  by (simp add: word_of_nat_eq_iff w64_def take_bit_eq_mod)

lemma of_nat_round_long_prefix:
  "(of_nat (round_long (w64 (n + PREFIX_SIZE))) :: u64) = of_nat (round_long n) + 8"
proof -
  have "w64 (n + 8) mod 8 = n mod 8"
    unfolding w64_def by (simp add: mod_mod_cancel)
  then show ?thesis
    by (simp add: round_long_def PREFIX_SIZE_def)
qed

lemma stat_simps [simp]:
  "update_zmalloc_stat_alloc n w = w\<lparr>used_memory := used_memory w + of_nat (round_long n)\<rparr>"
  "update_zmalloc_stat_free n w = w\<lparr>used_memory := used_memory w - of_nat (round_long n)\<rparr>"
  by (simp_all add: update_zmalloc_stat_alloc_def update_zmalloc_stat_add_def
      update_zmalloc_stat_free_def update_zmalloc_stat_sub_def)

lemma round_long_0 [simp]: "round_long 0 = 0"
  by (simp add: round_long_def)

lemma malloc_cases:
  obtains (succ) w' where "malloc w = (True, w')" "zext w w'" "used_memory w' = used_memory w"
  | (fail) w' where "malloc w = (False, w')" "zext w w'" "used_memory w' = used_memory w" "may_oom w"
proof (cases "oom_script w")
  case Nil
  then show ?thesis by (intro succ) (auto simp: malloc_def)
next
  case (Cons b bs)
  then have "malloc w = (\<not> b, w\<lparr>oom_script := bs\<rparr>)" "zext w (w\<lparr>oom_script := bs\<rparr>)"
    by (auto simp: malloc_def zext_def may_oom_def)
  with Cons show ?thesis
    by (cases b) (auto intro: succ fail simp: may_oom_def)
qed

lemma zext_used [simp]: "zext w (w'\<lparr>used_memory := u\<rparr>) = zext w w'"
  by (simp add: zext_def may_oom_def)

lemma zext_simps:
  "zext w w' \<Longrightarrow> usable w' = usable w"
  "zext w w' \<Longrightarrow> zmalloc_oom_handler w' = zmalloc_oom_handler w"
  by (simp_all add: zext_def)

lemma zmalloc_wp:
  assumes "zok w" "n + 8 < 18446744073709551616"
  shows "wp (may_oom w) (zmalloc n w) (\<lambda>(p, w'). zext w w' \<and>
           (case p of None \<Rightarrow> null_possible w \<and> used_memory w' = used_memory w
            | Some k \<Rightarrow> k = n \<and> used_memory w' = used_memory w + cost w n))"
proof (cases w rule: malloc_cases)
  case (succ w')
  with assms show ?thesis
    by (cases "usable w") (auto simp: zmalloc_def zext_simps cost_def PREFIX_SIZE_def w64_id)
next
  case (fail w')
  with assms show ?thesis
    by (cases "zmalloc_oom_handler w")
      (auto simp: zmalloc_def zext_simps call_oom_handler_def zok_def null_possible_def)
qed

lemma zcalloc_zmalloc: "zcalloc n w = zmalloc n w"
  by (simp add: zcalloc_def zmalloc_def)

lemma zrealloc_wp:
  assumes "zok w" "n + 8 < 18446744073709551616"
  shows "wp (may_oom w) (zrealloc (Some old) n w) (\<lambda>(p, w'). zext w w' \<and>
           (case p of None \<Rightarrow> null_possible w \<and> used_memory w' = used_memory w - cost w old
            | Some k \<Rightarrow> k = n \<and> used_memory w' = used_memory w - cost w old + cost w n))"
proof (cases w rule: malloc_cases)
  case (succ w')
  with assms show ?thesis
    by (cases "usable w")
      (auto simp: zrealloc_def zext_simps cost_def of_nat_round_long_prefix, simp_all add: PREFIX_SIZE_def w64_id)
next
  case (fail w')
  with assms show ?thesis
    by (cases "zmalloc_oom_handler w")
      (auto simp: zrealloc_def zext_simps call_oom_handler_def zok_def cost_def null_possible_def)
qed

text \<open>The two rules that step over an allocation.\<close>

lemma zmalloc_bind:
  assumes "zok w" "n + 8 < 18446744073709551616" "may_oom w \<Longrightarrow> a"
    and "\<And>w'. zext w w' \<Longrightarrow> null_possible w \<Longrightarrow> used_memory w' = used_memory w \<Longrightarrow> wp a (f (None, w')) Q"
    and "\<And>w'. zext w w' \<Longrightarrow> used_memory w' = used_memory w + cost w n \<Longrightarrow> wp a (f (Some n, w')) Q"
  shows "wp a (res_bind (zmalloc n w) f) Q"
proof (rule wp_bindI [OF zmalloc_wp [OF assms(1,2)] assms(3)], assumption)
  fix x
  assume x: "case x of (p, w') \<Rightarrow> zext w w' \<and> (case p of
      None \<Rightarrow> null_possible w \<and> used_memory w' = used_memory w
    | Some k \<Rightarrow> k = n \<and> used_memory w' = used_memory w + cost w n)"
  obtain p w' where "x = (p, w')" by force
  with x show "wp a (f x) Q"
    by (cases p) (simp_all add: assms(4,5))
qed

lemma zrealloc_bind:
  assumes "zok w" "n + 8 < 18446744073709551616" "may_oom w \<Longrightarrow> a"
    and "\<And>w'. zext w w' \<Longrightarrow> null_possible w \<Longrightarrow> used_memory w' = used_memory w - cost w old \<Longrightarrow>
      wp a (f (None, w')) Q"
    and "\<And>w'. zext w w' \<Longrightarrow> used_memory w' = used_memory w - cost w old + cost w n \<Longrightarrow>
      wp a (f (Some n, w')) Q"
  shows "wp a (res_bind (zrealloc (Some old) n w) f) Q"
proof (rule wp_bindI [OF zrealloc_wp [OF assms(1,2)] assms(3)], assumption)
  fix x
  assume x: "case x of (p, w') \<Rightarrow> zext w w' \<and> (case p of
      None \<Rightarrow> null_possible w \<and> used_memory w' = used_memory w - cost w old
    | Some k \<Rightarrow> k = n \<and> used_memory w' = used_memory w - cost w old + cost w n)"
  obtain p w' where "x = (p, w')" by force
  with x show "wp a (f x) Q"
    by (cases p) (simp_all add: assms(4,5))
qed

text \<open>A result that is NULL or satisfies \<open>P\<close>, seen from an earlier state.\<close>

lemma wp_later:
  assumes "wp (may_oom w') r (\<lambda>(p, w''). zext w' w'' \<and>
      (case p of None \<Rightarrow> null_possible w' | Some y \<Rightarrow> P y (used_memory w'')))"
    and z: "zext w w'"
  shows "wp (may_oom w) r (\<lambda>(p, w''). zext w w'' \<and>
      (case p of None \<Rightarrow> null_possible w | Some y \<Rightarrow> P y (used_memory w'')))"
  using assms(1)
proof (rule wp_weaken)
  fix x
  assume "case x of (p, w'') \<Rightarrow> zext w' w'' \<and>
      (case p of None \<Rightarrow> null_possible w' | Some y \<Rightarrow> P y (used_memory w''))"
  then show "case x of (p, w'') \<Rightarrow> zext w w'' \<and>
      (case p of None \<Rightarrow> null_possible w | Some y \<Rightarrow> P y (used_memory w''))"
    using z by (cases x; cases "fst x") (auto intro: zext_trans zext_null_possible)
qed (rule zext_may_oom [OF z])

lemma zfree_simps [simp]:
  "zfree None w = w"
  "zfree (Some n) w = w\<lparr>used_memory := used_memory w - cost w n\<rparr>"
  by (auto simp: zfree_def cost_def split: option.splits)

text \<open>
  Runs of the allocator with two ghosts: the multiset \<open>L\<close> of live blocks, for a block is freed or
  resized only while it is live, and the multiset \<open>U\<close> of the sizes of the blocks whose \<open>zrealloc\<close>
  returned NULL. Such a block stays live, but is no longer counted (\<open>zrealloc_NULL_uncounts_old\<close>).
\<close>

type_synonym zheap = "zworld \<times> nat multiset \<times> nat multiset"

inductive zheap_step :: "zheap \<Rightarrow> zheap \<Rightarrow> bool" where
  zs_malloc: "zmalloc n w = Ok (Some k, w') \<Longrightarrow> zheap_step (w, L, U) (w', add_mset k L, U)"
| zs_malloc_null: "zmalloc n w = Ok (None, w') \<Longrightarrow> zheap_step (w, L, U) (w', L, U)"
| zs_calloc: "zcalloc n w = Ok (Some k, w') \<Longrightarrow> zheap_step (w, L, U) (w', add_mset k L, U)"
| zs_calloc_null: "zcalloc n w = Ok (None, w') \<Longrightarrow> zheap_step (w, L, U) (w', L, U)"
| zs_realloc_new: "zrealloc None n w = Ok (Some k, w') \<Longrightarrow> zheap_step (w, L, U) (w', add_mset k L, U)"
| zs_realloc_new_null: "zrealloc None n w = Ok (None, w') \<Longrightarrow> zheap_step (w, L, U) (w', L, U)"
| zs_realloc: "old \<in># L \<Longrightarrow> zrealloc (Some old) n w = Ok (Some k, w') \<Longrightarrow>
    zheap_step (w, L, U) (w', add_mset k (L - {#old#}), U)"
| zs_realloc_null: "old \<in># L \<Longrightarrow> zrealloc (Some old) n w = Ok (None, w') \<Longrightarrow>
    zheap_step (w, L, U) (w', L, add_mset old U)"
| zs_strdup: "zstrdup s w = Ok (b, w') \<Longrightarrow> zheap_step (w, L, U) (w', add_mset (length b) L, U)"
| zs_free: "old \<in># L \<Longrightarrow> zheap_step (w, L, U) (zfree (Some old) w, L - {#old#}, U)"
| zs_free_null: "zheap_step (w, L, U) (zfree None w, L, U)"
| zs_thread: "zheap_step (w, L, U) (zmalloc_enable_thread_safeness w, L, U)"
| zs_handler: "zheap_step (w, L, U) (zmalloc_set_oom_handler h w, L, U)"

inductive zheap_reachable :: "zheap \<Rightarrow> bool" where
  zr_start: "used_memory w = 0 \<Longrightarrow> zheap_reachable (w, {#}, {#})"
| zr_step: "zheap_reachable s \<Longrightarrow> zheap_step s t \<Longrightarrow> zheap_reachable t"

definition accounted :: "zheap \<Rightarrow> bool" where
  "accounted = (\<lambda>(w, L, U). used_memory w = (\<Sum>k\<in>#L. cost w k) - (\<Sum>k\<in>#U. cost w k) \<and> (usable w = None \<longrightarrow> U = {#}))"

text \<open>Without side conditions on the sizes or on the handler, from the equations of the operations.\<close>

lemma zmalloc_Ok:
  assumes "zmalloc n w = Ok (p, w')"
  shows "cost w' = cost w \<and> usable w' = usable w \<and>
    used_memory w' = used_memory w + (case p of None \<Rightarrow> 0 | Some k \<Rightarrow> cost w k) \<and> (case p of None \<Rightarrow> True | Some k \<Rightarrow> k = n)"
  using assms
  by (cases w rule: malloc_cases)
    (auto simp: zmalloc_def cost_def zext_simps fun_eq_iff res_bind_Ok_iff split: option.splits if_splits)

lemma zrealloc_Ok:
  assumes "zrealloc (Some old) n w = Ok (p, w')"
  shows "cost w' = cost w \<and> usable w' = usable w \<and>
    used_memory w' = used_memory w - cost w old + (case p of None \<Rightarrow> 0 | Some k \<Rightarrow> cost w k) \<and> (p = None \<longrightarrow> usable w \<noteq> None)"
  using assms
  by (cases w rule: malloc_cases)
    (auto simp: zrealloc_def cost_def zext_simps fun_eq_iff res_bind_Ok_iff of_nat_round_long_prefix
      split: option.splits if_splits)

lemma zstrdup_Ok:
  assumes "zstrdup s w = Ok (b, w')"
  shows "\<exists>n. zmalloc n w = Ok (Some n, w') \<and> length b = n"
proof -
  obtain n x where n: "zmalloc (n + 1) w = Ok x"
      "(case x of (p, w1) \<Rightarrow> case p of None \<Rightarrow> Err Fault | Some k \<Rightarrow> res_bind (memcpy (fresh w1 k) 0 s (n + 1)) (\<lambda>b. Ok (b, w1))) = Ok (b, w')"
    using assms unfolding zstrdup_def res_bind_Ok_iff by blast
  obtain p w1 where x: "x = (p, w1)" by (cases x)
  obtain k where p: "p = Some k" using n(2) unfolding x by (cases p) simp_all
  have "res_bind (memcpy (fresh w1 k) 0 s (n + 1)) (\<lambda>b. Ok (b, w1)) = Ok (b, w')" using n(2) unfolding x p by simp
  then have k: "p = Some k" "memcpy (fresh w1 k) 0 s (n + 1) = Ok b" "w' = w1"
    unfolding res_bind_Ok_iff p by auto
  have "k = n + 1" using zmalloc_Ok [OF n(1) [unfolded x]] k(1) by simp
  moreover have "length b = k" using k(2) by (auto simp: memcpy_def store_def fresh_def split: if_splits)
  ultimately show ?thesis using n(1) x k(1,3) by auto
qed

lemma zheap_step_accounted: "zheap_step s t \<Longrightarrow> accounted s \<Longrightarrow> accounted t"
proof (induction rule: zheap_step.induct)
  case (zs_realloc old L n w k w' U)
  obtain A where "L = add_mset old A" using zs_realloc(1) by (blast dest: multi_member_split)
  then show ?case
    using zrealloc_Ok [OF zs_realloc(2)] zs_realloc(3) by (simp add: accounted_def)
next
  case (zs_realloc_null old L n w w' U)
  then show ?case
    using zrealloc_Ok [OF zs_realloc_null(2)] by (simp add: accounted_def)
next
  case (zs_free old L w U)
  have "cost (zfree (Some old) w) = cost w"
    by (simp add: cost_def fun_eq_iff)
  moreover obtain A where "L = add_mset old A" using zs_free(1) by (blast dest: multi_member_split)
  ultimately show ?case using zs_free(2) by (simp add: accounted_def)
next
  case (zs_strdup s w b w' L U)
  from zstrdup_Ok [OF this(1)] obtain n where "zmalloc n w = Ok (Some n, w')" "length b = n" by blast
  from zmalloc_Ok [OF this(1)] this(2) zs_strdup(2) show ?case by (simp add: accounted_def)
next
  case (zs_thread w L U)
  then show ?case
    by (simp add: accounted_def zmalloc_enable_thread_safeness_def cost_def)
next
  case (zs_handler w L U h)
  then show ?case
    by (simp add: accounted_def zmalloc_set_oom_handler_def cost_def)
qed (simp_all add: accounted_def zcalloc_zmalloc zrealloc_def zmalloc_Ok)

lemma zheap_reachable_accounted: "zheap_reachable s \<Longrightarrow> accounted s"
proof (induction rule: zheap_reachable.induct)
  case (zr_start w)
  then show ?case by (simp add: accounted_def)
next
  case (zr_step s t)
  then show ?case by (blast intro: zheap_step_accounted)
qed

text \<open>A program that starts with nothing allocated and is never refused memory.\<close>

definition calm :: zworld where
  "calm = \<lparr>oom_script = [], junk = \<lambda>_. NUL, used_memory = 0, zmalloc_thread_safe = False,
     zmalloc_oom_handler = Zmalloc_default_oom, usable = None\<rparr>"

lemma calm_simps [simp]: "zok calm" "\<not> may_oom calm" "\<not> null_possible calm" "used_memory calm = 0"
  by (simp_all add: calm_def zok_def may_oom_def null_possible_def)

section \<open>Properties\<close>

text \<open>With HAVE_MALLOC_SIZE and a handler that returns, a failed \<open>zrealloc\<close> leaves the
  old block live but no longer counted.\<close>

theorem zrealloc_NULL_uncounts_old:
  assumes "zrealloc (Some old) n w = Ok (None, w')"
  shows "used_memory w' = used_memory w - cost w old"
  using assms
  by (cases w rule: malloc_cases)
    (auto simp: zrealloc_def cost_def zext_simps res_bind_Ok_iff split: option.splits if_splits)

theorem zrealloc_NULL_uncounts_old_witness:
  "\<exists>w'. zrealloc (Some 8) 16 (calm\<lparr>oom_script := [True], zmalloc_oom_handler := Returning_handler,
      usable := Some (\<lambda>n. n), used_memory := 8\<rparr>) = Ok (None, w') \<and> used_memory w' = 0"
proof -
  let ?w = "calm\<lparr>oom_script := [True], zmalloc_oom_handler := Returning_handler,
      usable := Some (\<lambda>n. n), used_memory := 8\<rparr>"
  have "\<exists>w'. zrealloc (Some 8) 16 ?w = Ok (None, w')"
    by (simp add: zrealloc_def malloc_def call_oom_handler_def)
  then obtain w' where w': "zrealloc (Some 8) 16 ?w = Ok (None, w')" by blast
  moreover have "used_memory ?w - cost ?w 8 = 0"
    by (simp add: cost_def round_long_def)
  ultimately show ?thesis
    using zrealloc_NULL_uncounts_old [OF w'] by simp
qed

text \<open>C10. In every state that calls of the allocator reach, whatever the build, the sizes, the order of calls and
  the handler of refused requests, \<open>used_memory\<close> is the sum over the live blocks of what each is counted for, less
  the sum over the calls of \<open>zrealloc\<close> that returned NULL of what their block was counted for, modulo the width of
  the counter. With the size prefix no such call returns, so the counter is exact there.\<close>

theorem used_memory_accounts_live_blocks:
  assumes "zheap_reachable (w, L, U)"
  shows "zmalloc_used_memory w = (\<Sum>k\<in>#L. cost w k) - (\<Sum>k\<in>#U. cost w k) \<and> (usable w = None \<longrightarrow> U = {#})"
  using zheap_reachable_accounted [OF assms]
  by (simp add: accounted_def zmalloc_used_memory_def update_zmalloc_stat_add_def)

text \<open>A block is allocated with the prefix, another without it and then fails to grow.\<close>

definition returning :: "bool list \<Rightarrow> nat \<Rightarrow> zworld" where
  "returning bs m = calm\<lparr>oom_script := bs, zmalloc_oom_handler := Returning_handler, usable := Some (\<lambda>n. n),
     used_memory := of_nat m\<rparr>"

theorem used_memory_accounts_live_blocks_witness:
  "zmalloc_used_memory (calm\<lparr>used_memory := 24\<rparr>) = (\<Sum>k\<in>#{#10#}. cost (calm\<lparr>used_memory := 24\<rparr>) k)
   \<and> zmalloc_used_memory (returning [] 0) = (\<Sum>k\<in>#{#8#}. cost (returning [] 0) k) - (\<Sum>k\<in>#{#8#}. cost (returning [] 0) k)"
proof -
  have "zheap_step (calm, {#}, {#}) (calm\<lparr>used_memory := 24\<rparr>, {#10#}, {#})"
    using zs_malloc [of 10 calm 10 "calm\<lparr>used_memory := 24\<rparr>" "{#}" "{#}"]
    by (simp add: zmalloc_def malloc_def calm_def PREFIX_SIZE_def w64_def round_long_def)
  then have 1: "zheap_reachable (calm\<lparr>used_memory := 24\<rparr>, {#10#}, {#})"
    using zr_start [of calm] by (auto intro: zr_step)
  have "zheap_step (returning [False, True] 0, {#}, {#}) (returning [True] 8, {#8#}, {#})"
    using zs_malloc [of 8 "returning [False, True] 0" 8 "returning [True] 8" "{#}" "{#}"]
    by (simp add: zmalloc_def malloc_def calm_def returning_def round_long_def)
  moreover have "zheap_step (returning [True] 8, {#8#}, {#}) (returning [] 0, {#8#}, {#8#})"
    using zs_realloc_null [of 8 "{#8#}" 16 "returning [True] 8" "returning [] 0" "{#}"]
    by (simp add: zrealloc_def malloc_def call_oom_handler_def calm_def returning_def round_long_def)
  moreover have "used_memory (returning [False, True] 0) = 0" by (simp add: returning_def)
  ultimately have 2: "zheap_reachable (returning [] 0, {#8#}, {#8#})" by (blast intro: zr_start zr_step)
  from used_memory_accounts_live_blocks [OF 1] used_memory_accounts_live_blocks [OF 2] show ?thesis by simp
qed

end
