(* ===== verification/Sds.thy ===== *)
theory Sds
  imports Zmalloc
begin

text \<open>
  The dynamic strings of src/Clang/string/redis/sds.c: the header, the operations that
  create, grow, append to, cut and compare a string. An \<open>sdshdr\<close> is the block the C
  pointer stands in: the two header fields and the bytes of \<open>buf\<close> up to the end of the
  allocation. NULL results are \<open>None\<close>.
\<close>

section \<open>State\<close>

record sdshdr =
  sds_len :: nat
  sds_free :: nat
  sds_buf :: string

definition SDS_HDR :: nat where
  "SDS_HDR = 8"

definition SDS_MAX_PREALLOC :: nat where
  "SDS_MAX_PREALLOC = 1024 * 1024"

text \<open>The size of the block an \<open>sdshdr\<close> lives in, as \<open>zfree\<close> and \<open>zrealloc\<close> see it.\<close>

definition sds_block :: "sdshdr \<Rightarrow> nat" where
  "sds_block s = SDS_HDR + length (sds_buf s)"

definition sdslen :: "sdshdr \<Rightarrow> nat" where
  "sdslen s = sds_len s"

definition sdsavail :: "sdshdr \<Rightarrow> nat" where
  "sdsavail s = sds_free s"

type_synonym sds_result = "(sdshdr option \<times> zworld) cres"

text \<open>Continue with the string, or return NULL.\<close>

definition or_null :: "sds_result \<Rightarrow> (sdshdr \<Rightarrow> zworld \<Rightarrow> sds_result) \<Rightarrow> sds_result" where
  "or_null r f = res_bind r (\<lambda>(p, w). case p of None \<Rightarrow> Ok (None, w) | Some s \<Rightarrow> f s w)"

text \<open>Continue with the string; code that does not check for NULL faults on it.\<close>

definition or_fault :: "sds_result \<Rightarrow> (sdshdr \<Rightarrow> zworld \<Rightarrow> 'a cres) \<Rightarrow> 'a cres" where
  "or_fault r f = res_bind r (\<lambda>(p, w). case p of None \<Rightarrow> Err Fault | Some s \<Rightarrow> f s w)"

lemma or_fault_cong [fundef_cong]:
  assumes "r = r'" "\<And>s w. r' = Ok (Some s, w) \<Longrightarrow> f s w = g s w"
  shows "or_fault r f = or_fault r' g"
  using assms by (cases r') (auto simp: or_fault_def split: option.splits)

section \<open>Creation and release\<close>

definition sdsnewlen :: "string option \<Rightarrow> nat \<Rightarrow> zworld \<Rightarrow> sds_result" where
  "sdsnewlen init initlen w =
     res_bind (case init of
         Some _ \<Rightarrow> zmalloc (w64 (SDS_HDR + initlen + 1)) w
       | None \<Rightarrow> zcalloc (w64 (SDS_HDR + initlen + 1)) w) (\<lambda>(p, w).
     case p of None \<Rightarrow> Ok (None, w)
     | Some k \<Rightarrow>
       res_bind (no_ub (SDS_HDR \<le> k)) (\<lambda>_.
       res_bind (case init of
           Some m \<Rightarrow> if initlen \<noteq> 0 then memcpy (fresh w (k - SDS_HDR)) 0 m initlen
                     else Ok (fresh w (k - SDS_HDR))
         | None \<Rightarrow> Ok (zeroed (k - SDS_HDR))) (\<lambda>b.
       res_bind (store b initlen NUL) (\<lambda>b.
       Ok (Some \<lparr>sds_len = w32 initlen, sds_free = 0, sds_buf = b\<rparr>, w)))))"

definition sdsempty :: "zworld \<Rightarrow> sds_result" where
  "sdsempty w = sdsnewlen (Some [NUL]) 0 w"

definition sdsnew :: "string option \<Rightarrow> zworld \<Rightarrow> sds_result" where
  "sdsnew init w =
     res_bind (case init of None \<Rightarrow> Ok 0 | Some m \<Rightarrow> strlen m) (\<lambda>initlen. sdsnewlen init initlen w)"

definition sdsdup :: "sdshdr \<Rightarrow> zworld \<Rightarrow> sds_result" where
  "sdsdup s w = sdsnewlen (Some (sds_buf s)) (sdslen s) w"

definition sdsfree :: "sdshdr option \<Rightarrow> zworld \<Rightarrow> zworld" where
  "sdsfree p w = (case p of None \<Rightarrow> w | Some s \<Rightarrow> zfree (Some (sds_block s)) w)"

section \<open>Lengths and room\<close>

definition sdsupdatelen :: "sdshdr \<Rightarrow> sdshdr cres" where
  "sdsupdatelen s =
     res_bind (strlen (sds_buf s)) (\<lambda>n.
     let reallen = to_s32 (int n) in
     Ok (s\<lparr>sds_free := w32 (sds_free s + sub32 (sds_len s) (to_u32 reallen)),
           sds_len := to_u32 reallen\<rparr>))"

definition sdsclear :: "sdshdr \<Rightarrow> sdshdr cres" where
  "sdsclear s =
     res_bind (store (sds_buf s) 0 NUL) (\<lambda>b.
     Ok \<lparr>sds_len = 0, sds_free = w32 (sds_free s + sds_len s), sds_buf = b\<rparr>)"

definition sdsMakeRoomFor :: "sdshdr \<Rightarrow> nat \<Rightarrow> zworld \<Rightarrow> sds_result" where
  "sdsMakeRoomFor s addlen w =
     (if addlen \<le> sdsavail s then Ok (Some s, w)
      else
        let len = sdslen s;
            newlen = w64 (len + addlen);
            newlen = (if newlen < SDS_MAX_PREALLOC then w64 (newlen * 2)
                      else w64 (newlen + SDS_MAX_PREALLOC)) in
        res_bind (zrealloc (Some (sds_block s)) (w64 (SDS_HDR + newlen + 1)) w) (\<lambda>(p, w).
        case p of None \<Rightarrow> Ok (None, w)
        | Some k \<Rightarrow>
          res_bind (no_ub (SDS_HDR \<le> k)) (\<lambda>_.
          Ok (Some (s\<lparr>sds_free := w32 (sub64 newlen len),
                      sds_buf := resize w (sds_buf s) (k - SDS_HDR)\<rparr>), w))))"

text \<open>\<open>sdsRemoveFreeSpace\<close> writes through the result of \<open>zrealloc\<close> without checking it.\<close>

definition sdsRemoveFreeSpace :: "sdshdr \<Rightarrow> zworld \<Rightarrow> sds_result" where
  "sdsRemoveFreeSpace s w =
     res_bind (zrealloc (Some (sds_block s)) (w64 (SDS_HDR + sds_len s + 1)) w) (\<lambda>(p, w).
     case p of None \<Rightarrow> Err Fault
     | Some k \<Rightarrow>
       res_bind (no_ub (SDS_HDR \<le> k)) (\<lambda>_.
       Ok (Some (s\<lparr>sds_free := 0, sds_buf := resize w (sds_buf s) (k - SDS_HDR)\<rparr>), w)))"

definition sdsAllocSize :: "sdshdr \<Rightarrow> nat" where
  "sdsAllocSize s = w64 (SDS_HDR + sds_len s + sds_free s + 1)"

definition sdsIncrLen :: "sdshdr \<Rightarrow> int \<Rightarrow> sdshdr cres" where
  "sdsIncrLen s incr =
     res_bind (if 0 \<le> incr then assert_that (to_u32 incr \<le> sds_free s)
               else res_bind (no_ub (incr \<noteq> - (2 ^ 31))) (\<lambda>_.
                    assert_that (to_u32 (- incr) \<le> sds_len s))) (\<lambda>_.
     let len = to_u32 (int (sds_len s) + incr) in
     res_bind (store (sds_buf s) len NUL) (\<lambda>b.
     Ok \<lparr>sds_len = len, sds_free = to_u32 (int (sds_free s) - incr), sds_buf = b\<rparr>))"

definition sdsgrowzero :: "sdshdr \<Rightarrow> nat \<Rightarrow> zworld \<Rightarrow> sds_result" where
  "sdsgrowzero s len w =
     (let curlen = sds_len s in
      if len \<le> curlen then Ok (Some s, w)
      else or_null (sdsMakeRoomFor s (sub64 len curlen) w) (\<lambda>s w.
        res_bind (memset (sds_buf s) curlen NUL (w64 (sub64 len curlen + 1))) (\<lambda>b.
        let totlen = w32 (sds_len s + sds_free s) in
        Ok (Some \<lparr>sds_len = w32 len, sds_free = w32 (sub64 totlen (w32 len)), sds_buf = b\<rparr>, w))))"

section \<open>Appending and copying\<close>

definition sdscatlen :: "sdshdr \<Rightarrow> string \<Rightarrow> nat \<Rightarrow> zworld \<Rightarrow> sds_result" where
  "sdscatlen s t len w =
     (let curlen = sdslen s in
      or_null (sdsMakeRoomFor s len w) (\<lambda>s w.
        res_bind (memcpy (sds_buf s) curlen t len) (\<lambda>b.
        res_bind (store b (w64 (curlen + len)) NUL) (\<lambda>b.
        Ok (Some \<lparr>sds_len = w32 (curlen + len), sds_free = w32 (sub64 (sds_free s) len),
                  sds_buf = b\<rparr>, w)))))"

definition sdscat :: "sdshdr \<Rightarrow> string \<Rightarrow> zworld \<Rightarrow> sds_result" where
  "sdscat s t w = res_bind (strlen t) (\<lambda>n. sdscatlen s t n w)"

definition sdscatsds :: "sdshdr \<Rightarrow> sdshdr \<Rightarrow> zworld \<Rightarrow> sds_result" where
  "sdscatsds s t w = sdscatlen s (sds_buf t) (sdslen t) w"

definition sdscpylen :: "sdshdr \<Rightarrow> string \<Rightarrow> nat \<Rightarrow> zworld \<Rightarrow> sds_result" where
  "sdscpylen s t len w =
     (let totlen = w32 (sds_free s + sds_len s) in
      or_null (if totlen < len then sdsMakeRoomFor s (sub64 len (sds_len s)) w
               else Ok (Some s, w)) (\<lambda>s w.
        let totlen = w32 (sds_free s + sds_len s) in
        res_bind (memcpy (sds_buf s) 0 t len) (\<lambda>b.
        res_bind (store b len NUL) (\<lambda>b.
        Ok (Some \<lparr>sds_len = w32 len, sds_free = w32 (sub64 totlen len), sds_buf = b\<rparr>, w)))))"

definition sdscpy :: "sdshdr \<Rightarrow> string \<Rightarrow> zworld \<Rightarrow> sds_result" where
  "sdscpy s t w = res_bind (strlen t) (\<lambda>n. sdscpylen s t n w)"

fun sdsjoin_loop :: "sdshdr \<Rightarrow> string list \<Rightarrow> string \<Rightarrow> zworld \<Rightarrow> sds_result" where
  "sdsjoin_loop join [] sep w = Ok (Some join, w)"
| "sdsjoin_loop join (a # argv) sep w =
     (if argv = [] then sdscat join a w
      else or_fault (sdscat join a w) (\<lambda>join w.
           or_fault (sdscat join sep w) (\<lambda>join w. sdsjoin_loop join argv sep w)))"

text \<open>
  With no argument the loop does not run and the result of \<open>sdsempty\<close> is returned as it
  is; otherwise it is dereferenced unchecked, as the results of the appending are, except the last one,
  which is returned.
\<close>

definition sdsjoin :: "string list \<Rightarrow> string \<Rightarrow> zworld \<Rightarrow> sds_result" where
  "sdsjoin argv sep w =
     (if argv = [] then sdsempty w
      else or_fault (sdsempty w) (\<lambda>join w. sdsjoin_loop join argv sep w))"

section \<open>Well-formed strings and what each operation does to the value\<close>

definition sds_val :: "sdshdr \<Rightarrow> string" where
  "sds_val s = take (sds_len s) (sds_buf s)"

definition sds_inv :: "sdshdr \<Rightarrow> bool" where
  "sds_inv s \<longleftrightarrow> length (sds_buf s) = sds_len s + sds_free s + 1
     \<and> sds_buf s ! sds_len s = NUL \<and> sds_len s + sds_free s < 4294967296"

definition sds_cost :: "zworld \<Rightarrow> sdshdr \<Rightarrow> u64" where
  "sds_cost w s = cost w (sds_block s)"

text \<open>What holds while a string is being written and not yet terminated.\<close>

definition sds_shape :: "sdshdr \<Rightarrow> bool" where
  "sds_shape s \<longleftrightarrow> length (sds_buf s) = sds_len s + sds_free s + 1 \<and> sds_len s + sds_free s < 4294967296"

text \<open>
  Specification of a result: no fault; NULL or an abort only when allocation can fail;
  otherwise a well-formed string with \<open>P\<close>, and \<open>used_memory\<close> moved from \<open>c\<close> (the block
  the operation consumed) to the block of the result.
\<close>

definition sds_spec :: "zworld \<Rightarrow> u64 \<Rightarrow> sds_result \<Rightarrow> (sdshdr \<Rightarrow> bool) \<Rightarrow> bool" where
  "sds_spec w c r P = wp (may_oom w) r (\<lambda>(p, w'). zext w w' \<and>
     (case p of None \<Rightarrow> null_possible w
      | Some s \<Rightarrow> sds_inv s \<and> P s \<and> used_memory w' = used_memory w - c + sds_cost w s))"

lemma length_sds_val [simp]: "sds_inv s \<Longrightarrow> length (sds_val s) = sds_len s"
  by (simp add: sds_inv_def sds_val_def)

lemma sds_inv_bounds:
  "sds_inv s \<Longrightarrow> sds_len s \<le> length (sds_buf s)" "sds_inv s \<Longrightarrow> sds_len s < 4294967296"
  by (simp_all add: sds_inv_def)

lemma sds_cost_zext: "zext w w' \<Longrightarrow> sds_cost w' = sds_cost w"
  by (simp add: sds_cost_def zext_cost fun_eq_iff)

lemma sds_spec_Ok [simp]: "sds_spec w (sds_cost w s) (Ok (Some s, w)) P \<longleftrightarrow> sds_inv s \<and> P s"
  by (simp add: sds_spec_def)

lemma sds_spec_weaken: "sds_spec w c r P \<Longrightarrow> (\<And>s. sds_inv s \<Longrightarrow> P s \<Longrightarrow> Q s) \<Longrightarrow> sds_spec w c r Q"
  unfolding sds_spec_def by (erule wp_weaken) (auto split: option.splits)

lemma sds_spec_or_null:
  assumes r: "sds_spec w c r P" and
    f: "\<And>s w'. zext w w' \<Longrightarrow> sds_inv s \<Longrightarrow> P s \<Longrightarrow> sds_spec w' (sds_cost w' s) (f s w') Q"
  shows "sds_spec w c (or_null r f) Q"
  unfolding sds_spec_def or_null_def
proof (rule wp_bindI [OF r [unfolded sds_spec_def]])
  fix x
  assume x: "case x of (p, w') \<Rightarrow> zext w w' \<and> (case p of None \<Rightarrow> null_possible w
      | Some s \<Rightarrow> sds_inv s \<and> P s \<and> used_memory w' = used_memory w - c + sds_cost w s)"
  obtain p w' where [simp]: "x = (p, w')" by force
  show "wp (may_oom w) (case x of (p, w) \<Rightarrow> case p of None \<Rightarrow> Ok (None, w) | Some s \<Rightarrow> f s w)
     (\<lambda>(p, w'). zext w w' \<and> (case p of None \<Rightarrow> null_possible w
      | Some s \<Rightarrow> sds_inv s \<and> Q s \<and> used_memory w' = used_memory w - c + sds_cost w s))"
  proof (cases p)
    case None
    with x show ?thesis by simp
  next
    case (Some s)
    with x have z: "zext w w'" and u: "used_memory w' = used_memory w - c + sds_cost w s"
      and "sds_spec w' (sds_cost w' s) (f s w') Q"
      by (auto intro: f)
    from this(3) show ?thesis
      unfolding sds_spec_def using Some z u
      by (auto elim!: wp_weaken intro: zext_trans zext_may_oom zext_null_possible
          simp: sds_cost_zext [OF z] split: option.splits)
  qed
qed simp

text \<open>With the default handler NULL never arises, so unchecked uses are safe too.\<close>

lemma sds_spec_or_fault:
  assumes r: "sds_spec w c r P" and d: "\<not> null_possible w" and
    f: "\<And>s w'. zext w w' \<Longrightarrow> sds_inv s \<Longrightarrow> P s \<Longrightarrow> sds_spec w' (sds_cost w' s) (f s w') Q"
  shows "sds_spec w c (or_fault r f) Q"
proof -
  have "\<forall>w'. r \<noteq> Ok (None, w')"
    using r d by (auto simp: sds_spec_def)
  then have "or_fault r f = or_null r f"
    by (cases r) (auto simp: or_null_def or_fault_def split: option.splits)
  with r f show ?thesis by (simp add: sds_spec_or_null)
qed

section \<open>Specifications\<close>

lemma sdsnewlen_spec:
  assumes w: "zok w" and n: "initlen < 4294967296" and
    init: "case init of None \<Rightarrow> True | Some m \<Rightarrow> initlen \<le> length m"
  shows "sds_spec w 0 (sdsnewlen init initlen w) (\<lambda>s. sds_len s = initlen \<and>
           sds_val s = (case init of None \<Rightarrow> zeroed initlen | Some m \<Rightarrow> take initlen m))"
proof -
  have sz: "w64 (SDS_HDR + initlen + 1) = initlen + 9"
    using n by (simp add: SDS_HDR_def w64_id)
  note defs = sds_spec_def sdsnewlen_def sz zcalloc_zmalloc
  note simps = SDS_HDR_def sds_inv_def sds_val_def sds_cost_def sds_block_def w32_id min_def add.commute
  show ?thesis
  proof (cases init)
    case None
    then show ?thesis using w n
      unfolding defs by (simp, intro zmalloc_bind) (simp_all add: simps wp_bind)
  next
    case (Some m)
    then show ?thesis using w n init
      unfolding defs by (simp, intro zmalloc_bind) (simp_all add: simps wp_bind take_overwrite_end)
  qed
qed

lemma sdsfree_used [simp]: "used_memory (sdsfree (Some s) w) = used_memory w - sds_cost w s"
  by (simp add: sdsfree_def sds_cost_def)

lemma sdsMakeRoomFor_wp:
  assumes w: "zok w" and s: "sds_shape s" and n: "sds_len s + addlen < 2147483648"
  shows "wp (may_oom w) (sdsMakeRoomFor s addlen w) (\<lambda>(p, w'). zext w w' \<and> (case p of None \<Rightarrow> null_possible w
      | Some s' \<Rightarrow> sds_shape s' \<and> sds_len s' = sds_len s \<and> sds_val s' = sds_val s \<and> addlen \<le> sds_free s' \<and>
          sds_buf s' ! sds_len s = sds_buf s ! sds_len s \<and>
          used_memory w' = used_memory w - sds_cost w s + sds_cost w s'))"
proof (cases "addlen \<le> sds_free s")
  case True
  with s show ?thesis by (simp add: sdsMakeRoomFor_def sdsavail_def)
next
  case False
  define newlen where "newlen = (if sds_len s + addlen < SDS_MAX_PREALLOC
      then (sds_len s + addlen) * 2 else sds_len s + addlen + SDS_MAX_PREALLOC)"
  have b: "newlen < 4294967296" "sds_len s + addlen \<le> newlen"
    using n by (auto simp: newlen_def SDS_MAX_PREALLOC_def)
  have eq: "w64 (sds_len s + addlen) = sds_len s + addlen"
    "(if sds_len s + addlen < SDS_MAX_PREALLOC then w64 ((sds_len s + addlen) * 2)
       else w64 (sds_len s + addlen + SDS_MAX_PREALLOC)) = newlen"
    "w64 (SDS_HDR + newlen + 1) = newlen + 9"
    using n b by (auto simp: newlen_def w64_id SDS_MAX_PREALLOC_def SDS_HDR_def)
  have l: "sds_len s < length (sds_buf s)" "w32 (sub64 newlen (sds_len s)) = newlen - sds_len s"
    using s b by (simp_all add: sds_shape_def w32_id sub64_id)
  show ?thesis
    unfolding sdsMakeRoomFor_def sdsavail_def sdslen_def Let_def eq if_not_P [OF False]
  proof (rule zrealloc_bind [OF w], goal_cases)
    case (4 w')
    then show ?case
      using b l by (simp add: wp_bind SDS_HDR_def sds_shape_def sds_val_def sds_cost_def sds_block_def
          le_diff_conv2 add.commute)
  qed (use b in simp_all)
qed

lemma sdsMakeRoomFor_spec:
  assumes w: "zok w" and s: "sds_inv s" and n: "sds_len s + addlen < 2147483648"
  shows "sds_spec w (sds_cost w s) (sdsMakeRoomFor s addlen w) (\<lambda>s'. sds_len s' = sds_len s \<and>
           sds_val s' = sds_val s \<and> addlen \<le> sds_free s')"
proof -
  have sh: "sds_shape s" and nul: "sds_buf s ! sds_len s = NUL"
    using s by (simp_all add: sds_inv_def sds_shape_def)
  have inv: "sds_inv s'" if "sds_shape s'" "sds_len s' = sds_len s" "sds_buf s' ! sds_len s = sds_buf s ! sds_len s" for s'
    using that nul by (simp add: sds_inv_def sds_shape_def)
  show ?thesis
    unfolding sds_spec_def
    by (rule wp_weaken [OF sdsMakeRoomFor_wp [OF w sh n]]) (auto simp: inv split: option.splits)
qed

lemma sdsempty_spec: "zok w \<Longrightarrow> sds_spec w 0 (sdsempty w) (\<lambda>s. sds_val s = [] \<and> sds_len s = 0)"
  unfolding sdsempty_def by (rule sds_spec_weaken [OF sdsnewlen_spec]) auto

lemma sdsnew_spec:
  assumes "zok w" "NUL \<in> set m" "length (cstring m) < 4294967296"
  shows "sds_spec w 0 (sdsnew (Some m) w) (\<lambda>s. sds_val s = cstring m)"
  using assms length_cstring_le [of m] unfolding sdsnew_def strlen_def
  by (simp, intro sds_spec_weaken [OF sdsnewlen_spec]) simp_all

lemma sdsdup_spec:
  assumes "zok w" "sds_inv s"
  shows "sds_spec w 0 (sdsdup s w) (\<lambda>s'. sds_val s' = sds_val s)"
  using assms unfolding sdsdup_def sdslen_def
  by (intro sds_spec_weaken [OF sdsnewlen_spec]) (simp_all add: sds_inv_bounds sds_val_def [of s])

lemma sdscatlen_spec:
  assumes w: "zok w" and s: "sds_inv s" and n: "sds_len s + len < 2147483648" "len \<le> length t"
  shows "sds_spec w (sds_cost w s) (sdscatlen s t len w)
     (\<lambda>s'. sds_val s' = sds_val s @ take len t \<and> sds_len s' = sds_len s + len)"
  unfolding sdscatlen_def Let_def
proof (rule sds_spec_or_null [OF sdsMakeRoomFor_spec [OF w s n(1)]])
  fix s' w'
  assume a: "sds_inv s'" "sds_len s' = sds_len s \<and> sds_val s' = sds_val s \<and> len \<le> sds_free s'"
  then have "length (sds_buf s') = sds_len s + sds_free s' + 1" "sds_len s + sds_free s' < 4294967296"
    "take (sds_len s) (sds_buf s') = take (sds_len s) (sds_buf s)" "len \<le> sds_free s'"
    by (auto simp: sds_inv_def sds_val_def)
  with n show "sds_spec w' (sds_cost w' s') (res_bind (memcpy (sds_buf s') (sdslen s) t len) (\<lambda>b.
      res_bind (store b (w64 (sdslen s + len)) NUL) (\<lambda>b. Ok (Some \<lparr>sds_len = w32 (sdslen s + len),
        sds_free = w32 (sub64 (sds_free s') len), sds_buf = b\<rparr>, w'))))
      (\<lambda>s'. sds_val s' = sds_val s @ take len t \<and> sds_len s' = sds_len s + len)"
    by (simp add: sds_spec_def wp_bind sdslen_def w64_id w32_id sub64_id sds_inv_def sds_val_def
        sds_cost_def sds_block_def take_overwrite_end)
qed

lemma sdscat_spec:
  assumes "zok w" "sds_inv s" "sds_len s + length (cstring t) < 2147483648" "NUL \<in> set t"
  shows "sds_spec w (sds_cost w s) (sdscat s t w)
     (\<lambda>s'. sds_val s' = sds_val s @ cstring t \<and> sds_len s' = sds_len s + length (cstring t))"
  using assms length_cstring_le [of t] unfolding sdscat_def strlen_def
  by (simp, intro sds_spec_weaken [OF sdscatlen_spec]) simp_all

lemma sdscatsds_spec:
  assumes "zok w" "sds_inv s" "sds_inv t" "sds_len s + sds_len t < 2147483648"
  shows "sds_spec w (sds_cost w s) (sdscatsds s t w) (\<lambda>s'. sds_val s' = sds_val s @ sds_val t)"
  using assms unfolding sdscatsds_def sdslen_def
  by (intro sds_spec_weaken [OF sdscatlen_spec]) (simp_all add: sds_inv_bounds sds_val_def [of t])

lemma sdscpylen_spec:
  assumes w: "zok w" and s: "sds_inv s" and n: "len < 2147483648" "len \<le> length t"
  shows "sds_spec w (sds_cost w s) (sdscpylen s t len w) (\<lambda>s'. sds_val s' = take len t)"
  unfolding sdscpylen_def Let_def
proof (rule sds_spec_or_null)
  have tot: "w32 (sds_free s + sds_len s) = sds_free s + sds_len s"
    using s by (simp add: sds_inv_def w32_id)
  show "sds_spec w (sds_cost w s) (if w32 (sds_free s + sds_len s) < len
      then sdsMakeRoomFor s (sub64 len (sds_len s)) w else Ok (Some s, w))
      (\<lambda>s'. len \<le> sds_len s' + sds_free s')"
    unfolding tot using s n w
    by (auto simp: sub64_id intro!: sds_spec_weaken [OF sdsMakeRoomFor_spec])
next
  fix s' w'
  assume a: "sds_inv s'" "len \<le> sds_len s' + sds_free s'"
  then have "length (sds_buf s') = sds_len s' + sds_free s' + 1" "sds_len s' + sds_free s' < 4294967296"
    by (simp_all add: sds_inv_def)
  with a n show "sds_spec w' (sds_cost w' s') (res_bind (memcpy (sds_buf s') 0 t len) (\<lambda>b.
      res_bind (store b len NUL) (\<lambda>b. Ok (Some \<lparr>sds_len = w32 len,
        sds_free = w32 (sub64 (w32 (sds_free s' + sds_len s')) len), sds_buf = b\<rparr>, w'))))
      (\<lambda>s'. sds_val s' = take len t)"
    by (simp add: sds_spec_def wp_bind w32_id sub64_id sds_inv_def sds_val_def sds_cost_def
        sds_block_def)
qed

lemma sdscpy_spec:
  assumes "zok w" "sds_inv s" "length (cstring t) < 2147483648" "NUL \<in> set t"
  shows "sds_spec w (sds_cost w s) (sdscpy s t w) (\<lambda>s'. sds_val s' = cstring t)"
  using assms length_cstring_le [of t] unfolding sdscpy_def strlen_def
  by (simp, intro sds_spec_weaken [OF sdscpylen_spec]) simp_all

lemma sdsgrowzero_spec:
  assumes w: "zok w" and s: "sds_inv s" and n: "len < 2147483648"
  shows "sds_spec w (sds_cost w s) (sdsgrowzero s len w)
     (\<lambda>s'. sds_val s' = sds_val s @ zeroed (len - sds_len s))"
proof (cases "len \<le> sds_len s")
  case True
  with s show ?thesis by (simp add: sdsgrowzero_def zeroed_def)
next
  case False
  then have sub: "sub64 len (sds_len s) = len - sds_len s" "w64 (len - sds_len s + 1) = len - sds_len s + 1"
    using n by (simp_all add: sub64_id w64_id)
  have room: "sds_len s + (len - sds_len s) < 2147483648"
    using False n by simp
  show ?thesis
    unfolding sdsgrowzero_def Let_def sub if_not_P [OF False]
  proof (rule sds_spec_or_null [OF sdsMakeRoomFor_spec [OF w s room]])
    fix s' w'
    assume a: "sds_inv s'" "sds_len s' = sds_len s \<and> sds_val s' = sds_val s \<and> len - sds_len s \<le> sds_free s'"
    then have b: "length (sds_buf s') = sds_len s + sds_free s' + 1" "sds_len s + sds_free s' < 4294967296"
      "sds_len s' = sds_len s" "len \<le> sds_len s + sds_free s'"
      by (auto simp: sds_inv_def)
    have "replicate (len - sds_len s + 1) NUL = zeroed (len - sds_len s) @ [NUL]"
      by (simp add: zeroed_def replicate_append_same)
    with a b n False sds_inv_bounds(1) [OF s] show "sds_spec w' (sds_cost w' s') (res_bind
        (memset (sds_buf s') (sds_len s) NUL (len - sds_len s + 1)) (\<lambda>b.
        Ok (Some \<lparr>sds_len = w32 len, sds_free = w32 (sub64 (w32 (sds_len s' + sds_free s')) (w32 len)),
          sds_buf = b\<rparr>, w'))) (\<lambda>s'. sds_val s' = sds_val s @ zeroed (len - sds_len s))"
      by (simp add: sds_spec_def wp_bind w32_id sub64_id sds_inv_def sds_val_def sds_cost_def
          sds_block_def overwrite_def nth_append)
  qed
qed

lemma sdsRemoveFreeSpace_spec:
  assumes w: "zok w" "\<not> null_possible w" and s: "sds_inv s"
  shows "sds_spec w (sds_cost w s) (sdsRemoveFreeSpace s w)
     (\<lambda>s'. sds_val s' = sds_val s \<and> sds_free s' = 0)"
proof -
  from s have len: "sds_len s < 4294967296" and
    b: "sds_len s < length (sds_buf s)" "sds_buf s ! sds_len s = NUL"
    by (simp_all add: sds_inv_def)
  have sz: "w64 (SDS_HDR + sds_len s + 1) = sds_len s + 9"
    using len by (simp add: SDS_HDR_def w64_id)
  show ?thesis using w b len
    unfolding sds_spec_def sdsRemoveFreeSpace_def sz
    by (intro zrealloc_bind)
      (simp_all add: wp_bind SDS_HDR_def sds_inv_def sds_val_def sds_cost_def sds_block_def add.commute)
qed

text \<open>The operations that stay inside the block do not touch the allocator.\<close>

lemma sdsclear_spec:
  assumes "sds_inv s"
  shows "\<exists>s'. sdsclear s = Ok s' \<and> sds_inv s' \<and> sds_val s' = [] \<and> sds_block s' = sds_block s"
  using assms
  by (simp add: sdsclear_def store_def sds_inv_def sds_val_def sds_block_def w32_id add.commute)

lemma sdsupdatelen_spec:
  assumes "sds_inv s" "sds_len s < 2147483648"
  shows "\<exists>s'. sdsupdatelen s = Ok s' \<and> sds_inv s' \<and> sds_val s' = cstring (sds_val s)
    \<and> sds_block s' = sds_block s"
proof -
  let ?b = "sds_buf s"
  from assms have b: "length ?b = sds_len s + sds_free s + 1" "?b ! sds_len s = NUL"
    "sds_len s + sds_free s < 4294967296"
    by (simp_all add: sds_inv_def)
  have nul: "NUL \<in> set ?b"
    using b by (metis add.commute in_set_conv_nth less_add_Suc1 plus_1_eq_Suc add_Suc)
  have drop: "drop (sds_len s) ?b = NUL # drop (Suc (sds_len s)) ?b"
    using b by (metis Cons_nth_drop_Suc add.commute less_add_Suc1 plus_1_eq_Suc add_Suc)
  have "?b = sds_val s @ NUL # drop (Suc (sds_len s)) ?b"
    unfolding sds_val_def drop [symmetric] by simp
  then have cs: "cstring ?b = cstring (sds_val s)"
    by (metis cstring_append_NUL)
  then have le: "length (cstring ?b) \<le> sds_len s"
    using length_cstring_le [of "sds_val s"] assms by simp
  show ?thesis
    using le assms b nul
    by (simp add: sdsupdatelen_def strlen_def to_s32_id to_u32_id sub32_id w32_id sds_inv_def
        sds_block_def nth_length_cstring cs [symmetric])
      (simp add: sds_val_def nth_length_cstring)
qed

lemma sdsIncrLen_spec:
  assumes "sds_inv s" "- int (sds_len s) \<le> incr" "incr \<le> int (sds_free s)"
    "- 2147483648 < incr" "incr < 2147483648"
  shows "\<exists>s'. sdsIncrLen s incr = Ok s' \<and> sds_inv s' \<and> int (sds_len s') = int (sds_len s) + incr
    \<and> sds_val s' = take (nat (int (sds_len s) + incr)) (sds_buf s) \<and> sds_block s' = sds_block s"
proof -
  let ?n = "nat (int (sds_len s) + incr)"
  from assms have b: "length (sds_buf s) = sds_len s + sds_free s + 1" "sds_len s + sds_free s < 4294967296"
    by (simp_all add: sds_inv_def)
  have "to_u32 (int (sds_len s) + incr) = ?n"
    "to_u32 (int (sds_free s) - incr) = nat (int (sds_free s) - incr)"
    using assms b by (auto simp: to_u32_id)
  moreover have "?n < length (sds_buf s)" "?n + nat (int (sds_free s) - incr) = sds_len s + sds_free s"
    using assms b by auto
  moreover have "0 \<le> incr \<Longrightarrow> to_u32 incr \<le> sds_free s" "incr < 0 \<Longrightarrow> to_u32 (- incr) \<le> sds_len s"
    using assms by (auto simp: to_u32_id)
  ultimately show ?thesis
    using assms b
    by (auto simp: sdsIncrLen_def store_def sds_inv_def sds_val_def sds_block_def Let_def)
qed

text \<open>The guard: an increment outside the free space, or below zero length, aborts.\<close>

lemma sdsIncrLen_abort:
  assumes "sds_inv s" "- 2147483648 < incr" "incr < 2147483648"
    "incr < - int (sds_len s) \<or> int (sds_free s) < incr"
  shows "sdsIncrLen s incr = Err Abort"
proof (cases "0 \<le> incr")
  case True
  with assms have "\<not> nat incr \<le> sds_free s" by linarith
  with True assms show ?thesis by (simp add: sdsIncrLen_def to_u32_id)
next
  case False
  with assms have "\<not> nat (- incr) \<le> sds_len s" by linarith
  with False assms show ?thesis by (simp add: sdsIncrLen_def to_u32_id)
qed

lemma sdsAllocSize_block: "sds_inv s \<Longrightarrow> sdsAllocSize s = sds_block s"
  by (simp add: sdsAllocSize_def sds_block_def sds_inv_def SDS_HDR_def w64_id)

text \<open>Joining: the pieces with the separator between them.\<close>

fun join_val :: "string list \<Rightarrow> string \<Rightarrow> string" where
  "join_val [] sep = []"
| "join_val [a] sep = a"
| "join_val (a # b # as) sep = a @ sep @ join_val (b # as) sep"

lemma sdsjoin_loop_spec:
  assumes "zok w" "\<not> null_possible w" "sds_inv s" "NUL \<in> set sep" "\<forall>a\<in>set argv. NUL \<in> set a"
    "sds_len s + length (join_val (map cstring argv) (cstring sep)) < 2147483648"
  shows "sds_spec w (sds_cost w s) (sdsjoin_loop s argv sep w)
     (\<lambda>s'. sds_val s' = sds_val s @ join_val (map cstring argv) (cstring sep))"
  using assms
proof (induction argv arbitrary: s w)
  case Nil
  then show ?case by simp
next
  case (Cons a argv)
  note zx = zext_zok zext_null_possible
  show ?case
  proof (cases argv)
    case Nil
    with Cons.prems show ?thesis
      by (auto intro!: sds_spec_weaken [OF sdscat_spec])
  next
    case (Cons b argv')
    note IH = Cons.IH and prems = Cons.prems
    have len: "sds_len s + length (cstring a) + length (cstring sep) +
        length (join_val (map cstring argv) (cstring sep)) < 2147483648"
      using prems Cons by simp
    have "sds_spec w (sds_cost w s) (or_fault (sdscat s a w) (\<lambda>s w.
        or_fault (sdscat s sep w) (\<lambda>s w. sdsjoin_loop s argv sep w)))
      (\<lambda>s'. sds_val s' = sds_val s @ cstring a @ cstring sep @ join_val (map cstring argv) (cstring sep))"
      using prems len
      by (intro sds_spec_or_fault [OF sdscat_spec])
        (auto intro!: sds_spec_or_fault [OF sdscat_spec] sds_spec_weaken [OF IH]
          simp: zext_zok dest: zext_null_possible)
    moreover have "sdsjoin_loop s (a # argv) sep w = or_fault (sdscat s a w) (\<lambda>s w.
        or_fault (sdscat s sep w) (\<lambda>s w. sdsjoin_loop s argv sep w))"
      using Cons by (subst sdsjoin_loop.simps(2)) (simp del: sdsjoin_loop.simps)
    ultimately show ?thesis
      using Cons by simp
  qed
qed

lemma sdsjoin_spec:
  assumes "zok w" "\<not> null_possible w" "NUL \<in> set sep" "\<forall>a\<in>set argv. NUL \<in> set a"
    "length (join_val (map cstring argv) (cstring sep)) < 2147483648"
  shows "sds_spec w 0 (sdsjoin argv sep w)
     (\<lambda>s. sds_val s = join_val (map cstring argv) (cstring sep))"
proof (cases "argv = []")
  case True
  with assms show ?thesis
    by (simp add: sdsjoin_def) (rule sds_spec_weaken [OF sdsempty_spec], simp_all)
next
  case False
  with assms show ?thesis
    by (auto simp: sdsjoin_def zext_zok dest: zext_null_possible
        intro!: sds_spec_or_fault [OF sdsempty_spec] sds_spec_weaken [OF sdsjoin_loop_spec])
qed

text \<open>The example the witnesses evaluate on: the string \<open>ab\<close> in a block with no room left.\<close>

definition ab :: sdshdr where
  "ab = \<lparr>sds_len = 2, sds_free = 0, sds_buf = [CHR ''a'', CHR ''b'', NUL]\<rparr>"

lemma ab_simps [simp]: "sds_inv ab" "sds_val ab = ''ab''" "sds_len ab = 2"
  by (simp_all add: ab_def sds_inv_def sds_val_def)

end
