(* ===== verification/Decimal.thy ===== *)
theory Decimal
  imports CMem
begin

text \<open>
  The decimal text of integers, as the conversions \<open>d\<close> and \<open>u\<close> of the \<open>printf\<close> family write it.
\<close>

section \<open>Decimal representation\<close>

fun dec :: "nat \<Rightarrow> string" where
  "dec n = (if n < 10 then [digit_char n] else dec (n div 10) @ [digit_char (n mod 10)])"

declare dec.simps [simp del]

definition show_int :: "int \<Rightarrow> string" where
  "show_int i = (if i < 0 then CHR ''-'' # dec (nat (- i)) else dec (nat i))"

text \<open>Reading the digits back.\<close>

definition read_dec :: "string \<Rightarrow> nat" where
  "read_dec xs = foldl (\<lambda>a c. 10 * a + (byte_val c - 48)) 0 xs"

lemma byte_val_digit [simp]: "d < 10 \<Longrightarrow> byte_val (digit_char d) = 48 + d"
  by (simp add: digit_char_def)

lemma dec_not_Nil [simp]: "dec n \<noteq> []"
  by (subst dec.simps) simp

lemma read_dec_dec: "read_dec (dec n) = n"
proof (induction n rule: dec.induct)
  case (1 n)
  then show ?case
    by (subst dec.simps) (auto simp: read_dec_def)
qed

lemma length_dec_le: "0 < k \<Longrightarrow> n < 10 ^ k \<Longrightarrow> length (dec n) \<le> k"
proof (induction k arbitrary: n)
  case (Suc k)
  show ?case
  proof (cases "n < 10")
    case True
    then show ?thesis by (subst dec.simps) simp
  next
    case False
    then have "k \<noteq> 0" using Suc.prems by (cases k) auto
    moreover have "n div 10 < 10 ^ k" using Suc.prems by (simp add: div_less_iff_less_mult mult.commute)
    ultimately have "length (dec (n div 10)) \<le> k" using Suc.IH by simp
    with False show ?thesis by (subst dec.simps) simp
  qed
qed simp

lemma digit_not_NUL: "d < 10 \<Longrightarrow> digit_char d \<noteq> NUL"
  by (auto simp flip: byte_val_inj) (simp add: byte_val_def)

lemma NUL_notin_dec [simp]: "NUL \<notin> set (dec n)"
proof (induction n rule: dec.induct)
  case (1 n)
  then show ?case
    using digit_not_NUL [of n] digit_not_NUL [of "n mod 10"]
    by (subst dec.simps) auto
qed

end
