(* ===== verification/SdsNum.thy ===== *)
theory SdsNum
  imports Sds Decimal
begin

text \<open>
  Numbers and formatted text of src/Clang/string/redis/sds.c: \<open>sdsll2str\<close>,
  \<open>sdsull2str\<close>, \<open>sdsfromlonglong\<close>, \<open>sdscatvprintf\<close> and \<open>sdscatprintf\<close>.
\<close>

section \<open>Numbers to strings\<close>

definition SDS_LLSTR_SIZE :: nat where
  "SDS_LLSTR_SIZE = 21"

text \<open>The do-while loop that writes the digits, least significant first.\<close>

function digit_loop :: "string \<Rightarrow> nat \<Rightarrow> nat \<Rightarrow> (string \<times> nat) cres" where
  "digit_loop b p v =
     res_bind (store b p (digit_char (v mod 10))) (\<lambda>b.
     if v div 10 \<noteq> 0 then digit_loop b (p + 1) (v div 10) else Ok (b, p + 1))"
  by pat_completeness auto
termination
  by (relation "measure (\<lambda>(b, p, v). v)") auto

text \<open>The loop that reverses the bytes between \<open>s\<close> and \<open>p\<close>.\<close>

function reverse_loop :: "string \<Rightarrow> nat \<Rightarrow> int \<Rightarrow> string cres" where
  "reverse_loop b s p =
     (if int s < p then
        res_bind (load b s) (\<lambda>aux.
        res_bind (load b (nat p)) (\<lambda>c.
        res_bind (store b s c) (\<lambda>b.
        res_bind (store b (nat p) aux) (\<lambda>b. reverse_loop b (s + 1) (p - 1)))))
      else Ok b)"
  by pat_completeness auto
termination
  by (relation "measure (\<lambda>(b, s, p). nat (p - int s))") auto

declare digit_loop.simps [simp del] reverse_loop.simps [simp del]

definition sdsll2str :: "string \<Rightarrow> int \<Rightarrow> (string \<times> nat) cres" where
  "sdsll2str s value =
     res_bind (no_ub (value \<noteq> - (2 ^ 63))) (\<lambda>_.
     let v = to_u64 (if value < 0 then - value else value) in
     res_bind (digit_loop s 0 v) (\<lambda>(s, p).
     res_bind (if value < 0 then res_bind (store s p (CHR ''-'')) (\<lambda>s. Ok (s, p + 1)) else Ok (s, p)) (\<lambda>(s, p).
     res_bind (store s p NUL) (\<lambda>s.
     res_bind (reverse_loop s 0 (int p - 1)) (\<lambda>s. Ok (s, p))))))"

definition sdsull2str :: "string \<Rightarrow> nat \<Rightarrow> (string \<times> nat) cres" where
  "sdsull2str s v =
     res_bind (digit_loop s 0 v) (\<lambda>(s, p).
     res_bind (store s p NUL) (\<lambda>s.
     res_bind (reverse_loop s 0 (int p - 1)) (\<lambda>s. Ok (s, p))))"

definition sdsfromlonglong :: "int \<Rightarrow> zworld \<Rightarrow> sds_result" where
  "sdsfromlonglong value w =
     res_bind (sdsll2str (fresh w SDS_LLSTR_SIZE) value) (\<lambda>(buf, len). sdsnewlen (Some buf) len w)"

section \<open>Formatted output through vsnprintf\<close>

text \<open>
  The loop doubles the buffer until the byte before the last stays NUL. \<open>heap\<close> tells
  whether \<open>buf\<close> is a block (of \<open>buflen\<close> bytes) or the array on the stack.
\<close>

function vprintf_loop :: "string \<Rightarrow> string \<Rightarrow> nat \<Rightarrow> bool \<Rightarrow> zworld \<Rightarrow> ((string \<times> nat \<times> bool) option \<times> zworld) cres" where
  "vprintf_loop out buf buflen heap w =
     (if 2 \<le> buflen \<and> length out < 2 ^ 31 \<and> buflen < 2 ^ 63 then
        res_bind (store buf (buflen - 2) NUL) (\<lambda>buf.
        res_bind (vsnprintf buf 0 buflen out) (\<lambda>buf.
        res_bind (load buf (buflen - 2)) (\<lambda>c.
        if c \<noteq> NUL then
          res_bind (zmalloc (buflen * 2) (if heap then zfree (Some buflen) w else w)) (\<lambda>(p, w).
          case p of None \<Rightarrow> Ok (None, w)
          | Some k \<Rightarrow> vprintf_loop out (fresh w k) (buflen * 2) True w)
        else Ok (Some (buf, buflen, heap), w))))
      else Err Fault)"
  by pat_completeness auto
termination
  by (relation "measure (\<lambda>(out, buf, buflen, heap, w). 2 ^ 64 - buflen)") auto

declare vprintf_loop.simps [simp del]

definition sdscatvprintf :: "sdshdr \<Rightarrow> string \<Rightarrow> string \<Rightarrow> zworld \<Rightarrow> sds_result" where
  "sdscatvprintf s fmt out w =
     res_bind (strlen fmt) (\<lambda>n.
     let buflen = w64 (n * 2) in
     res_bind (if buflen > 1024 then
         res_bind (zmalloc buflen w) (\<lambda>(p, w). Ok (case p of None \<Rightarrow> None
           | Some k \<Rightarrow> Some (fresh w k, buflen, True), w))
       else Ok (Some (fresh w 1024, 1024, False), w)) (\<lambda>(r, w).
     case r of None \<Rightarrow> Ok (None, w)
     | Some (buf, buflen, heap) \<Rightarrow>
       res_bind (vprintf_loop out buf buflen heap w) (\<lambda>(r, w).
       case r of None \<Rightarrow> Ok (None, w)
       | Some (buf, buflen, heap) \<Rightarrow>
         res_bind (sdscat s buf w) (\<lambda>(t, w). Ok (t, if heap then zfree (Some buflen) w else w)))))"

definition sdscatprintf :: "sdshdr \<Rightarrow> string \<Rightarrow> string \<Rightarrow> zworld \<Rightarrow> sds_result" where
  "sdscatprintf s fmt out w = sdscatvprintf s fmt out w"

section \<open>Specifications\<close>

lemma digit_loop_eq:
  "p + length (dec v) \<le> length b \<Longrightarrow>
   digit_loop b p v = Ok (overwrite b p (rev (dec v)), p + length (dec v))"
proof (induction b p v rule: digit_loop.induct)
  case (1 b p v)
  show ?case
  proof (cases "v < 10")
    case True
    with 1(2) show ?thesis
      by (simp add: digit_loop.simps [of b p v] dec.simps [of v] store_def overwrite_def upd_conv_take_nth_drop)
  next
    case False
    have d: "dec v = dec (v div 10) @ [digit_char (v mod 10)]"
      using False by (subst dec.simps) simp
    let ?b = "b[p := digit_char (v mod 10)]"
    have p: "p < length b" using 1(2) d by simp
    have "digit_loop ?b (p + 1) (v div 10) =
        Ok (overwrite ?b (p + 1) (rev (dec (v div 10))), p + 1 + length (dec (v div 10)))"
      using 1(2) False d p by (intro 1(1)) (simp_all add: store_def)
    moreover have "overwrite ?b (p + 1) (rev (dec (v div 10))) = overwrite b p (rev (dec v))"
      using p by (simp add: d overwrite_def take_Suc_conv_app_nth)
    ultimately show ?thesis
      using False p by (simp add: digit_loop.simps [of b p v] store_def d)
  qed
qed

lemma reverse_loop_ex:
  assumes "i \<le> j" "j \<le> length b"
  shows "\<exists>r. reverse_loop b i (int j - 1) = Ok r \<and> length r = length b \<and>
    (\<forall>k<length b. r ! k = (if i \<le> k \<and> k < j then b ! (i + j - 1 - k) else b ! k))"
  using assms
proof (induction "j - i" arbitrary: i j b rule: less_induct)
  case less
  show ?case
  proof (cases "j \<le> i + 1")
    case True
    then have "reverse_loop b i (int j - 1) = Ok b"
      by (subst reverse_loop.simps) simp
    moreover have "i \<le> k \<and> k < j \<Longrightarrow> i + j - 1 - k = k" for k
      using True by auto
    ultimately show ?thesis by auto
  next
    case False
    let ?b = "b[i := b ! (j - 1), j - 1 := b ! i]"
    have ij: "i + 1 \<le> j - 1" "j - 1 \<le> length ?b" "j - 1 - (i + 1) < j - i"
      using False less.prems by simp_all
    have eq: "reverse_loop b i (int j - 1) = reverse_loop ?b (i + 1) (int (j - 1) - 1)"
    proof -
      have "j - 1 < length b" "i < length b" "nat (int j - 1) = j - 1" "int i < int j - 1"
        "int (j - 1) - 1 = int j - 1 - 1"
        using False less.prems by auto
      then show ?thesis
        by (subst reverse_loop.simps) (simp add: load_def store_def)
    qed
    obtain r where r: "reverse_loop ?b (i + 1) (int (j - 1) - 1) = Ok r" "length r = length ?b"
      "\<forall>k<length ?b. r ! k = (if i + 1 \<le> k \<and> k < j - 1 then ?b ! (i + 1 + (j - 1) - 1 - k) else ?b ! k)"
      using less.hyps [OF ij(3) ij(1,2)] by blast
    have "r ! k = (if i \<le> k \<and> k < j then b ! (i + j - 1 - k) else b ! k)" if "k < length b" for k
    proof -
      consider "k < i" | "k = i" | "i + 1 \<le> k" "k < j - 1" | "k = j - 1" | "j \<le> k"
        by linarith
      then show ?thesis
        using r(3) that False less.prems by cases (auto simp: nth_list_update)
    qed
    with r eq show ?thesis by auto
  qed
qed

lemma reverse_loop_eq:
  assumes "j \<le> length b"
  shows "reverse_loop b 0 (int j - 1) = Ok (rev (take j b) @ drop j b)"
proof -
  obtain r where r: "reverse_loop b 0 (int j - 1) = Ok r" "length r = length b"
    "\<forall>k<length b. r ! k = (if k < j then b ! (j - 1 - k) else b ! k)"
    using reverse_loop_ex [of 0 j b] assms by auto
  have "r = rev (take j b) @ drop j b"
    using r assms by (intro nth_equalityI) (auto simp: nth_append rev_nth)
  with r show ?thesis by simp
qed

lemma digits_then_reverse:
  assumes "length (dec v) + length e < length b"
  defines "l \<equiv> length e + length (dec v)"
  defines "b' \<equiv> overwrite b 0 (e @ dec v)"
  shows "reverse_loop ((overwrite b 0 (rev (e @ dec v)))[l := NUL]) 0 (int l - 1) = Ok (b'[l := NUL])"
proof -
  have "reverse_loop ((overwrite b 0 (rev (e @ dec v)))[l := NUL]) 0 (int l - 1) =
      Ok (rev (take l ((overwrite b 0 (rev (e @ dec v)))[l := NUL])) @ drop l ((overwrite b 0 (rev (e @ dec v)))[l := NUL]))"
    using assms(1) by (intro reverse_loop_eq) (simp add: l_def)
  moreover have "take l ((overwrite b 0 (rev (e @ dec v)))[l := NUL]) = rev (e @ dec v)"
    by (simp add: l_def)
  moreover have "drop l ((overwrite b 0 (rev (e @ dec v)))[l := NUL]) = NUL # drop (Suc l) b"
    using assms(1) by (simp add: l_def drop_update_swap overwrite_0)
      (simp add: Cons_nth_drop_Suc [symmetric], metis add.commute)
  moreover have "b'[l := NUL] = e @ dec v @ NUL # drop (Suc l) b"
    using assms(1) by (simp add: b'_def l_def overwrite_0 list_update_append)
      (simp add: Cons_nth_drop_Suc [symmetric])
  ultimately show ?thesis by simp
qed

lemma sdsull2str_spec:
  assumes "v < 2 ^ 64" "21 \<le> length b"
  shows "sdsull2str b v = Ok ((overwrite b 0 (dec v))[length (dec v) := NUL], length (dec v))"
proof -
  have "length (dec v) \<le> 20" using assms(1) by (intro length_dec_le) simp_all
  then show ?thesis
    using digits_then_reverse [of v "[]" b] assms(2)
    by (simp add: sdsull2str_def digit_loop_eq store_def)
qed

lemma sdsll2str_spec:
  assumes "- (2 ^ 63) < i" "i < 2 ^ 63" "21 \<le> length b"
  shows "sdsll2str b i = Ok ((overwrite b 0 (show_int i))[length (show_int i) := NUL], length (show_int i))"
proof -
  let ?v = "nat \<bar>i\<bar>"
  have v: "to_u64 (if i < 0 then - i else i) = ?v"
    using assms by (auto simp: to_u64_id)
  have len: "length (dec ?v) \<le> 19" using assms by (intro length_dec_le) simp_all
  show ?thesis
  proof (cases "i < 0")
    case True
    have st: "(overwrite b 0 (rev (dec ?v)))[length (dec ?v) := CHR ''-''] = overwrite b 0 (rev (CHR ''-'' # dec ?v))"
      using len assms(3) by (simp add: overwrite_0 list_update_append) (simp add: Cons_nth_drop_Suc [symmetric])
    have "show_int i = CHR ''-'' # dec ?v" using True by (simp add: show_int_def)
    then show ?thesis
      using digits_then_reverse [of ?v "[CHR ''-'']" b] True assms len v st
      by (simp add: sdsll2str_def digit_loop_eq store_def)
  next
    case False
    then have "show_int i = dec ?v" by (simp add: show_int_def)
    then show ?thesis
      using digits_then_reverse [of ?v "[]" b] False assms len v
      by (simp add: sdsll2str_def digit_loop_eq store_def)
  qed
qed

lemma length_show_int: "- (2 ^ 63) < i \<Longrightarrow> i < 2 ^ 63 \<Longrightarrow> length (show_int i) \<le> 20"
  using length_dec_le [of 19 "nat (- i)"] length_dec_le [of 20 "nat i"]
  by (auto simp: show_int_def)

lemma sdsfromlonglong_spec:
  assumes w: "zok w" and i: "- (2 ^ 63) < i" "i < 2 ^ 63"
  shows "sds_spec w 0 (sdsfromlonglong i w) (\<lambda>s. sds_val s = show_int i)"
proof -
  have l: "length (show_int i) \<le> 20" using i by (rule length_show_int)
  then show ?thesis
    using i w by (simp add: sdsfromlonglong_def sdsll2str_spec SDS_LLSTR_SIZE_def)
      (rule sds_spec_weaken [OF sdsnewlen_spec], simp_all)
qed

section \<open>Formatted appends\<close>

lemma vprintf_loop_spec:
  assumes "zok w" "2 \<le> n" "n < 2 ^ 62" "length b = n" "NUL \<notin> set out" "length out < 2147483648"
  shows "wp (may_oom w) (vprintf_loop out b n heap w) (\<lambda>(r, w'). zext w w' \<and> (case r of
      None \<Rightarrow> null_possible w
    | Some (b', n', heap') \<Rightarrow> NUL \<in> set b' \<and> cstring b' = out \<and>
        used_memory w' = used_memory w - (if heap then cost w n else 0) + (if heap' then cost w n' else 0)))"
  using assms
proof (induction "length out + 2 - n" arbitrary: b n heap w rule: less_induct)
  case less
  note prems = less.prems
  define t where "t = take (n - 1) out @ [NUL]"
  define b' where "b' = overwrite (b[n - 2 := NUL]) 0 t"
  have len: "length t \<le> n" "length b' = n" using prems by (auto simp: t_def b'_def)
  have n: "n - 2 < n" and n1: "n - 2 < n - 1" using prems by simp_all
  have c: "b' ! (n - 2) = NUL \<longleftrightarrow> length out \<le> n - 2"
  proof (cases "n - 2 < length out")
    case True
    then have "b' ! (n - 2) = out ! (n - 2)"
      using prems len n1 by (simp add: b'_def nth_overwrite t_def nth_append)
    moreover have "out ! (n - 2) \<noteq> NUL" using True prems(5) by (metis nth_mem)
    ultimately show ?thesis using True by simp
  next
    case False
    then show ?thesis
      using prems len by (cases "length out = n - 2") (auto simp: b'_def nth_overwrite t_def nth_append)
  qed
  have unf: "vprintf_loop out b n heap w =
      (if b' ! (n - 2) \<noteq> NUL then
         res_bind (zmalloc (n * 2) (if heap then zfree (Some n) w else w)) (\<lambda>(p, w).
          case p of None \<Rightarrow> Ok (None, w) | Some k \<Rightarrow> vprintf_loop out (fresh w k) (n * 2) True w)
       else Ok (Some (b', n, heap), w))"
    using prems len n
    by (subst vprintf_loop.simps) (simp add: store_def vsnprintf_eq load_def t_def b'_def)
  show ?case
  proof (cases "length out \<le> n - 2")
    case True
    then have b: "b' = out @ NUL # drop (Suc (length out)) (b[n - 2 := NUL])"
      using prems by (simp add: b'_def t_def overwrite_0)
    have "NUL \<in> set b'" "cstring b' = out"
      unfolding b using prems by simp_all
    then show ?thesis
      unfolding unf using c True by simp
  next
    case False
    define v where "v = (if heap then zfree (Some n) w else w)"
    let ?P = "\<lambda>(b', n', heap') u. NUL \<in> set b' \<and> cstring b' = out \<and>
        u = used_memory w - (if heap then cost w n else 0) + (if heap' then cost w n' else 0)"
    let ?Q = "\<lambda>w (r, w'). zext w w' \<and> (case r of None \<Rightarrow> null_possible w | Some y \<Rightarrow> ?P y (used_memory w'))"
    have v: "zext w v" "used_memory v = used_memory w - (if heap then cost w n else 0)"
      by (simp_all add: v_def)
    have zok: "zok v" using prems(1) zext_zok [OF v(1)] by simp
    have "wp (may_oom v) (res_bind (zmalloc (n * 2) v) (\<lambda>(p, w).
          case p of None \<Rightarrow> Ok (None, w) | Some k \<Rightarrow> vprintf_loop out (fresh w k) (n * 2) True w)) (?Q v)"
    proof (rule zmalloc_bind [OF zok], goal_cases)
      case (4 w')
      have "zext w w'" using v 4 by (blast intro: zext_trans)
      moreover have "wp (may_oom w') (vprintf_loop out (fresh w' (n * 2)) (n * 2) True w')
        (\<lambda>(r, w''). zext w' w'' \<and> (case r of None \<Rightarrow> null_possible w'
          | Some (b', n', heap') \<Rightarrow> NUL \<in> set b' \<and> cstring b' = out \<and>
            used_memory w'' = used_memory w' - (if True then cost w' (n * 2) else 0) + (if heap' then cost w' n' else 0)))"
        using prems False zok 4 by (intro less.hyps) (auto simp: zext_zok)
      ultimately have "wp (may_oom w') (vprintf_loop out (fresh w' (n * 2)) (n * 2) True w') (?Q w')"
        using 4(2) v(2) by (auto elim!: wp_weaken simp: zext_cost [of w w'] zext_cost [OF v(1)] split: option.splits)
      then show ?case
        using wp_later [OF _ 4(1), of _ ?P] by simp
    qed (use prems in auto)
    then have "wp (may_oom w) (res_bind (zmalloc (n * 2) v) (\<lambda>(p, w).
          case p of None \<Rightarrow> Ok (None, w) | Some k \<Rightarrow> vprintf_loop out (fresh w k) (n * 2) True w)) (?Q w)"
      by (rule wp_later [OF _ v(1), of _ ?P])
    moreover have "vprintf_loop out b n heap w = res_bind (zmalloc (n * 2) v) (\<lambda>(p, w).
          case p of None \<Rightarrow> Ok (None, w) | Some k \<Rightarrow> vprintf_loop out (fresh w k) (n * 2) True w)"
      unfolding unf c v_def using False by (simp only: if_True simp_thms)
    ultimately show ?thesis
      by (simp only:) (erule wp_weaken, auto split: option.splits)
  qed
qed

lemma sdscatvprintf_spec:
  assumes w: "zok w" and s: "sds_inv s" and fmt: "NUL \<in> set fmt" "length (cstring fmt) < 2147483648"
    and out: "NUL \<notin> set out" "sds_len s + length out < 2147483648"
  shows "sds_spec w (sds_cost w s) (sdscatvprintf s fmt out w)
    (\<lambda>s'. sds_val s' = sds_val s @ out \<and> sds_len s' = sds_len s + length out)"
proof -
  let ?n = "length (cstring fmt) * 2"
  let ?Q = "\<lambda>(p, w'). zext w w' \<and> (case p of None \<Rightarrow> null_possible w
      | Some t \<Rightarrow> sds_inv t \<and> (sds_val t = sds_val s @ out \<and> sds_len t = sds_len s + length out) \<and>
          used_memory w' = used_memory w - sds_cost w s + sds_cost w t)"
  have tail: "wp (may_oom w) (res_bind (vprintf_loop out b n heap w') (\<lambda>(r, w).
       case r of None \<Rightarrow> Ok (None, w)
       | Some (buf, buflen, heap) \<Rightarrow>
         res_bind (sdscat s buf w) (\<lambda>(t, w). Ok (t, if heap then zfree (Some buflen) w else w)))) ?Q"
    if z: "zext w w'" and u: "used_memory w' = used_memory w + (if heap then cost w n else 0)"
      and n: "2 \<le> n" "n < 2 ^ 62" "length b = n" for b n heap w'
  proof (rule wp_bindI [OF vprintf_loop_spec [OF _ n out(1)]], goal_cases)
    case (4 x)
    obtain r w'' where x: "x = (r, w'')" by force
    show ?case
    proof (cases r)
      case None
      with 4 x z show ?thesis by (auto intro: zext_trans zext_null_possible)
    next
      case (Some y)
      obtain b' n' heap' where y: "y = (b', n', heap')" using prod_cases3 by blast
      have b': "NUL \<in> set b'" "cstring b' = out" "zext w' w''" "zext w w''"
        and u': "used_memory w'' = used_memory w + (if heap' then cost w n' else 0)"
        using 4 x Some y z u by (auto simp: zext_cost [OF z] intro: zext_trans)
      have "sds_spec w'' (sds_cost w'' s) (sdscat s b' w'')
          (\<lambda>s'. sds_val s' = sds_val s @ cstring b' \<and> sds_len s' = sds_len s + length (cstring b'))"
        using w b' s out by (intro sdscat_spec) (simp_all add: zext_zok [OF b'(4)])
      then have "wp (may_oom w) (res_bind (sdscat s b' w'')
          (\<lambda>(t, w). Ok (t, if heap' then zfree (Some n') w else w))) ?Q"
        unfolding sds_spec_def
      proof (rule wp_bindI, goal_cases)
        case (2 y)
        obtain t w3 where y: "y = (t, w3)" by force
        then have z: "zext w'' w3" using 2 by simp
        with b' have z3: "zext w w3" by (blast intro: zext_trans)
        with 2 y b' u' z show ?case
          by (cases t) (auto simp: zext_cost [OF z3] sds_cost_zext [OF b'(4)] dest: zext_null_possible)
      qed (use b' in \<open>auto intro: zext_may_oom\<close>)
      then show ?thesis using x Some y by simp
    qed
  qed (use w z out in \<open>auto simp: zext_zok intro: zext_may_oom\<close>)
  have nn: "w64 ?n = ?n" using fmt by (simp add: w64_id)
  show ?thesis
    unfolding sds_spec_def sdscatvprintf_def strlen_def if_P [OF fmt(1)] res_bind.simps Let_def nn
  proof (cases "1024 < ?n")
    case False
    then show "wp (may_oom w) (res_bind (if 1024 < ?n then
         res_bind (zmalloc ?n w) (\<lambda>(p, w). Ok (case p of None \<Rightarrow> None
           | Some k \<Rightarrow> Some (fresh w k, ?n, True), w))
       else Ok (Some (fresh w 1024, 1024, False), w)) (\<lambda>(r, w).
     case r of None \<Rightarrow> Ok (None, w)
     | Some (buf, buflen, heap) \<Rightarrow>
       res_bind (vprintf_loop out buf buflen heap w) (\<lambda>(r, w).
       case r of None \<Rightarrow> Ok (None, w)
       | Some (buf, buflen, heap) \<Rightarrow>
         res_bind (sdscat s buf w) (\<lambda>(t, w). Ok (t, if heap then zfree (Some buflen) w else w))))) ?Q"
      using tail [of w False 1024 "fresh w 1024"] by simp
  next
    case True
    show "wp (may_oom w) (res_bind (if 1024 < ?n then
         res_bind (zmalloc ?n w) (\<lambda>(p, w). Ok (case p of None \<Rightarrow> None
           | Some k \<Rightarrow> Some (fresh w k, ?n, True), w))
       else Ok (Some (fresh w 1024, 1024, False), w)) (\<lambda>(r, w).
     case r of None \<Rightarrow> Ok (None, w)
     | Some (buf, buflen, heap) \<Rightarrow>
       res_bind (vprintf_loop out buf buflen heap w) (\<lambda>(r, w).
       case r of None \<Rightarrow> Ok (None, w)
       | Some (buf, buflen, heap) \<Rightarrow>
         res_bind (sdscat s buf w) (\<lambda>(t, w). Ok (t, if heap then zfree (Some buflen) w else w))))) ?Q"
      unfolding if_P [OF True] res_bind_assoc
    proof (rule zmalloc_bind [OF w], goal_cases)
      case (4 w')
      then show ?case using tail [of w' True ?n "fresh w' ?n"] True fmt by simp
    qed (use fmt in auto)
  qed
qed

end
