(* ===== verification/SdsFmt.thy ===== *)
theory SdsFmt
  imports SdsNum
begin

text \<open>
  \<open>sdscatfmt\<close> of src/Clang/string/redis/sds.c: the text it appends, in terms of its own
  format language.
\<close>

section \<open>The directives and the loop\<close>

text \<open>What the caller passed; reading an argument at another type is undefined.\<close>

datatype fmt_arg =
    Arg_str string
  | Arg_sds sdshdr
  | Arg_int int
  | Arg_llong int
  | Arg_uint nat
  | Arg_ullong nat

type_synonym fmt_result = "((sdshdr \<times> int \<times> fmt_arg list) \<times> zworld) cres"

text \<open>Copy \<open>l\<close> bytes to the position \<open>i\<close>, an int, after making room for them.\<close>

definition fmt_copy :: "sdshdr \<Rightarrow> int \<Rightarrow> string \<Rightarrow> nat \<Rightarrow> fmt_arg list \<Rightarrow> zworld \<Rightarrow> fmt_result" where
  "fmt_copy s i t l args w =
     or_fault (if sds_free s < l then sdsMakeRoomFor s l w else Ok (Some s, w)) (\<lambda>s w.
     res_bind (no_ub (0 \<le> i)) (\<lambda>_.
     res_bind (memcpy (sds_buf s) (nat i) t l) (\<lambda>b.
     Ok ((\<lparr>sds_len = w32 (sds_len s + l), sds_free = sub32 (sds_free s) l, sds_buf = b\<rparr>,
          to_s32 (i + int l), args), w))))"

definition fmt_char :: "sdshdr \<Rightarrow> int \<Rightarrow> byte \<Rightarrow> fmt_arg list \<Rightarrow> zworld \<Rightarrow> fmt_result" where
  "fmt_char s i c args w =
     res_bind (no_ub (0 \<le> i \<and> i + 1 < 2 ^ 31)) (\<lambda>_.
     res_bind (store (sds_buf s) (nat i) c) (\<lambda>b.
     Ok ((\<lparr>sds_len = w32 (sds_len s + 1), sds_free = sub32 (sds_free s) 1, sds_buf = b\<rparr>,
          i + 1, args), w)))"

definition fmt_directive :: "byte \<Rightarrow> sdshdr \<Rightarrow> int \<Rightarrow> fmt_arg list \<Rightarrow> zworld \<Rightarrow> fmt_result" where
  "fmt_directive n s i args w =
     (if n = CHR ''s'' then
        (case args of Arg_str m # args \<Rightarrow>
           res_bind (strlen m) (\<lambda>l. fmt_copy s i m (w32 l) args w) | _ \<Rightarrow> Err Fault)
      else if n = CHR ''S'' then
        (case args of Arg_sds t # args \<Rightarrow> fmt_copy s i (sds_buf t) (w32 (sdslen t)) args w
         | _ \<Rightarrow> Err Fault)
      else if n = CHR ''i'' then
        (case args of Arg_int num # args \<Rightarrow>
           res_bind (sdsll2str (fresh w SDS_LLSTR_SIZE) num) (\<lambda>(b, l). fmt_copy s i b l args w)
         | _ \<Rightarrow> Err Fault)
      else if n = CHR ''I'' then
        (case args of Arg_llong num # args \<Rightarrow>
           res_bind (sdsll2str (fresh w SDS_LLSTR_SIZE) num) (\<lambda>(b, l). fmt_copy s i b l args w)
         | _ \<Rightarrow> Err Fault)
      else if n = CHR ''u'' then
        (case args of Arg_uint num # args \<Rightarrow>
           res_bind (sdsull2str (fresh w SDS_LLSTR_SIZE) num) (\<lambda>(b, l). fmt_copy s i b l args w)
         | _ \<Rightarrow> Err Fault)
      else if n = CHR ''U'' then
        (case args of Arg_ullong num # args \<Rightarrow>
           res_bind (sdsull2str (fresh w SDS_LLSTR_SIZE) num) (\<lambda>(b, l). fmt_copy s i b l args w)
         | _ \<Rightarrow> Err Fault)
      else fmt_char s i n args w)"

text \<open>
  The loop over the format, given by the memory readable from \<open>f\<close>. After a percent sign
  \<open>f\<close> moves on by two whatever follows, past the terminator when the format ends there.
\<close>

function fmt_loop :: "sdshdr \<Rightarrow> int \<Rightarrow> string \<Rightarrow> fmt_arg list \<Rightarrow> zworld \<Rightarrow> ((sdshdr \<times> int) \<times> zworld) cres" where
  "fmt_loop s i f args w =
     res_bind (load f 0) (\<lambda>c.
     if c = NUL then Ok ((s, i), w)
     else
       or_fault (if sds_free s = 0 then sdsMakeRoomFor s 1 w else Ok (Some s, w)) (\<lambda>s w.
       if c = CHR ''%'' then
         res_bind (load f 1) (\<lambda>n.
         res_bind (fmt_directive n s i args w) (\<lambda>((s, i, args), w). fmt_loop s i (drop 2 f) args w))
       else
         res_bind (fmt_char s i c args w) (\<lambda>((s, i, args), w). fmt_loop s i (drop 1 f) args w)))"
  by pat_completeness auto
termination
  by (relation "measure (\<lambda>(s, i, f, args, w). length f)") (auto simp: load_def split: if_splits)

declare fmt_loop.simps [simp del]

definition sdscatfmt :: "sdshdr \<Rightarrow> string \<Rightarrow> fmt_arg list \<Rightarrow> zworld \<Rightarrow> sds_result" where
  "sdscatfmt s fmt args w =
     res_bind (fmt_loop s (to_s32 (int (sdslen s))) fmt args w) (\<lambda>((s, i), w).
     res_bind (no_ub (0 \<le> i)) (\<lambda>_.
     res_bind (store (sds_buf s) (nat i) NUL) (\<lambda>b. Ok (Some (s\<lparr>sds_buf := b\<rparr>), w))))"

section \<open>The text a format stands for\<close>

fun directive_val :: "byte \<Rightarrow> fmt_arg list \<Rightarrow> (string \<times> fmt_arg list) option" where
  "directive_val n args =
     (if n = CHR ''s'' then (case args of Arg_str m # as \<Rightarrow> Some (cstring m, as) | _ \<Rightarrow> None)
      else if n = CHR ''S'' then (case args of Arg_sds t # as \<Rightarrow> Some (sds_val t, as) | _ \<Rightarrow> None)
      else if n = CHR ''i'' then (case args of Arg_int i # as \<Rightarrow> Some (show_int i, as) | _ \<Rightarrow> None)
      else if n = CHR ''I'' then (case args of Arg_llong i # as \<Rightarrow> Some (show_int i, as) | _ \<Rightarrow> None)
      else if n = CHR ''u'' then (case args of Arg_uint v # as \<Rightarrow> Some (dec v, as) | _ \<Rightarrow> None)
      else if n = CHR ''U'' then (case args of Arg_ullong v # as \<Rightarrow> Some (dec v, as) | _ \<Rightarrow> None)
      else Some ([n], args))"

declare directive_val.simps [simp del]

fun fmt_val :: "string \<Rightarrow> fmt_arg list \<Rightarrow> string option" where
  "fmt_val [] args = Some []"
| "fmt_val [c] args = (if c = CHR ''%'' then None else Some [c])"
| "fmt_val (c # n # f) args =
     (if c = CHR ''%'' then
        (case directive_val n args of None \<Rightarrow> None
         | Some (t, as) \<Rightarrow> map_option ((@) t) (fmt_val f as))
      else map_option ((#) c) (fmt_val (n # f) args))"

text \<open>Arguments a C caller can pass.\<close>

fun arg_ok :: "fmt_arg \<Rightarrow> bool" where
  "arg_ok (Arg_str m) \<longleftrightarrow> NUL \<in> set m"
| "arg_ok (Arg_sds t) \<longleftrightarrow> sds_inv t"
| "arg_ok (Arg_int i) \<longleftrightarrow> - (2 ^ 31) \<le> i \<and> i < 2 ^ 31"
| "arg_ok (Arg_llong i) \<longleftrightarrow> - (2 ^ 63) < i \<and> i < 2 ^ 63"
| "arg_ok (Arg_uint v) \<longleftrightarrow> v < 2 ^ 32"
| "arg_ok (Arg_ullong v) \<longleftrightarrow> v < 2 ^ 64"

definition fmt_spec :: "zworld \<Rightarrow> u64 \<Rightarrow> ((sdshdr \<times> 'a) \<times> zworld) cres \<Rightarrow> (sdshdr \<Rightarrow> 'a \<Rightarrow> bool) \<Rightarrow> bool" where
  "fmt_spec w c r P = wp (may_oom w) r (\<lambda>((s, x), w'). zext w w' \<and> sds_shape s \<and> P s x \<and>
     used_memory w' = used_memory w - c + sds_cost w s)"

lemma fmt_spec_bind:
  assumes "fmt_spec w c r P"
    and "\<And>s x w'. zext w w' \<Longrightarrow> sds_shape s \<Longrightarrow> P s x \<Longrightarrow> fmt_spec w' (sds_cost w' s) (f ((s, x), w')) Q"
  shows "fmt_spec w c (res_bind r f) Q"
  unfolding fmt_spec_def
proof (rule wp_bindI [OF assms(1) [unfolded fmt_spec_def]], goal_cases)
  case (2 y)
  obtain s x w' where y: "y = ((s, x), w')" by (cases y; cases "fst y") auto
  with 2 have z: "zext w w'" and sh: "sds_shape s" "P s x"
    and u: "used_memory w' = used_memory w - c + sds_cost w s" by auto
  show ?case
    using assms(2) [OF z sh] unfolding fmt_spec_def y
    by (rule wp_weaken) (use z u in \<open>auto intro: zext_trans zext_may_oom simp: sds_cost_zext [OF z]\<close>)
qed

text \<open>Growing a string that is not terminated, with unchecked results.\<close>

lemma room_shape:
  assumes w: "zok w" "\<not> null_possible w" and s: "sds_shape s" and n: "sds_len s + addlen < 2147483648"
    and f: "\<And>s' w'. zext w w' \<Longrightarrow> sds_shape s' \<Longrightarrow> sds_len s' = sds_len s \<Longrightarrow> sds_val s' = sds_val s \<Longrightarrow>
      addlen \<le> sds_free s' \<Longrightarrow> fmt_spec w' (sds_cost w' s') (f s' w') Q"
  shows "fmt_spec w (sds_cost w s) (or_fault (sdsMakeRoomFor s addlen w) f) Q"
proof -
  have "wp (may_oom w) (sdsMakeRoomFor s addlen w) (\<lambda>(p, w'). zext w w' \<and> (case p of None \<Rightarrow> null_possible w
      | Some s' \<Rightarrow> sds_shape s' \<and> sds_len s' = sds_len s \<and> sds_val s' = sds_val s \<and> addlen \<le> sds_free s' \<and>
          sds_buf s' ! sds_len s = sds_buf s ! sds_len s \<and>
          used_memory w' = used_memory w - sds_cost w s + sds_cost w s'))"
    by (rule sdsMakeRoomFor_wp [OF w(1) s n])
  then show ?thesis
    unfolding or_fault_def fmt_spec_def
  proof (rule wp_bindI, goal_cases)
    case (2 y)
    obtain p w' where y: "y = (p, w')" by force
    then obtain s' where p: "p = Some s'" using 2 w(2) by (cases p) auto
    with 2 y have z: "zext w w'" and u: "used_memory w' = used_memory w - sds_cost w s + sds_cost w s'"
      and "fmt_spec w' (sds_cost w' s') (f s' w') Q"
      by (auto intro: f)
    from this(3) show ?case
      unfolding fmt_spec_def y p prod.case option.case
      by (rule wp_weaken) (use z u in \<open>auto intro: zext_trans zext_may_oom simp: sds_cost_zext [OF z]\<close>)
  qed
qed

lemma room_if:
  assumes "zok w" "\<not> null_possible w" "sds_shape s" "sds_len s + n < 2147483648" "b \<longleftrightarrow> sds_free s < n"
    and f: "\<And>s' w'. zext w w' \<Longrightarrow> sds_shape s' \<Longrightarrow> sds_len s' = sds_len s \<Longrightarrow> sds_val s' = sds_val s \<Longrightarrow>
      n \<le> sds_free s' \<Longrightarrow> fmt_spec w' (sds_cost w' s') (f s' w') Q"
  shows "fmt_spec w (sds_cost w s) (or_fault (if b then sdsMakeRoomFor s n w else Ok (Some s, w)) f) Q"
proof (cases b)
  case True
  with assms show ?thesis by (auto intro: room_shape)
next
  case False
  with assms(3,5) f [of w s] show ?thesis by (simp add: or_fault_def)
qed

lemma fmt_copy_spec:
  assumes "zok w" "\<not> null_possible w" "sds_shape s" "sds_len s + l < 2147483648" "l \<le> length t"
    "i = int (sds_len s)"
  shows "fmt_spec w (sds_cost w s) (fmt_copy s i t l args w)
    (\<lambda>s' (i', as). i' = int (sds_len s') \<and> sds_val s' = sds_val s @ take l t \<and> sds_len s' = sds_len s + l \<and> as = args)"
  unfolding fmt_copy_def
proof (rule room_if [OF assms(1-4) refl])
  fix s' w'
  assume a: "zext w w'" "sds_shape s'" "sds_len s' = sds_len s" "sds_val s' = sds_val s" "l \<le> sds_free s'"
  then have b: "length (sds_buf s') = sds_len s + sds_free s' + 1" "sds_len s + sds_free s' < 4294967296"
    by (simp_all add: sds_shape_def)
  with a assms(4-6) show "fmt_spec w' (sds_cost w' s') (res_bind (no_ub (0 \<le> i)) (\<lambda>_.
     res_bind (memcpy (sds_buf s') (nat i) t l) (\<lambda>b.
     Ok ((\<lparr>sds_len = w32 (sds_len s' + l), sds_free = sub32 (sds_free s') l, sds_buf = b\<rparr>,
          to_s32 (i + int l), args), w'))))
    (\<lambda>s' (i', as). i' = int (sds_len s') \<and> sds_val s' = sds_val s @ take l t \<and> sds_len s' = sds_len s + l \<and> as = args)"
    by (simp add: fmt_spec_def wp_bind w32_id sub32_id to_s32_id sds_shape_def sds_cost_def sds_block_def
        take_overwrite_end sds_val_def)
qed

lemma fmt_char_spec:
  assumes "sds_shape s" "sds_len s + 1 < 2147483648" "1 \<le> sds_free s" "i = int (sds_len s)"
  shows "fmt_spec w (sds_cost w s) (fmt_char s i c args w)
    (\<lambda>s' (i', as). i' = int (sds_len s') \<and> sds_val s' = sds_val s @ [c] \<and> sds_len s' = sds_len s + 1 \<and> as = args)"
proof -
  have b: "length (sds_buf s) = sds_len s + sds_free s + 1" "sds_len s + sds_free s < 4294967296"
    using assms by (simp_all add: sds_shape_def)
  with assms show ?thesis
    by (simp add: fmt_char_def fmt_spec_def wp_bind w32_id sub32_id sds_shape_def sds_cost_def sds_block_def
        sds_val_def take_Suc_conv_app_nth)
qed

lemma directive_val_suffix: "directive_val n args = Some (t, as) \<Longrightarrow> set as \<subseteq> set args"
  by (auto simp: directive_val.simps split: if_splits list.splits fmt_arg.splits)

lemma fmt_directive_spec:
  assumes w: "zok w" "\<not> null_possible w" and s: "sds_shape s" "1 \<le> sds_free s" "i = int (sds_len s)"
    and ok: "\<forall>a\<in>set args. arg_ok a"
    and v: "directive_val n args = Some (t, as)" "sds_len s + length t < 2147483648"
  shows "fmt_spec w (sds_cost w s) (fmt_directive n s i args w)
    (\<lambda>s' (i', as'). i' = int (sds_len s') \<and> sds_val s' = sds_val s @ t \<and>
       sds_len s' = sds_len s + length t \<and> as' = as)"
proof -
  have copy: "fmt_spec w (sds_cost w s) (fmt_copy s i m l as w)
    (\<lambda>s' (i', as'). i' = int (sds_len s') \<and> sds_val s' = sds_val s @ t \<and>
       sds_len s' = sds_len s + length t \<and> as' = as)"
    if "take l m = t" "l = length t" "l \<le> length m" for m l
    using fmt_copy_spec [of w s l m i as] w s v(2) that by simp
  have num: "take (length x) ((overwrite b 0 x)[length x := NUL]) = x" for b x by simp
  have l21: "length (fresh w SDS_LLSTR_SIZE) = 21" by (simp add: SDS_LLSTR_SIZE_def)
  have dec: "length (dec k) \<le> 21" if "k < 2 ^ 64" for k
    using length_dec_le [of 21 k] that by simp
  have si: "length (show_int k) \<le> 21" if "- (2 ^ 63) < k" "k < 2 ^ 63" for k
    using length_show_int [OF that] by simp
  consider (str) m where "n = CHR ''s''" "args = Arg_str m # as" "t = cstring m"
    | (sds) u where "n = CHR ''S''" "args = Arg_sds u # as" "t = sds_val u"
    | (int) k where "n = CHR ''i''" "args = Arg_int k # as" "t = show_int k"
    | (llong) k where "n = CHR ''I''" "args = Arg_llong k # as" "t = show_int k"
    | (uint) k where "n = CHR ''u''" "args = Arg_uint k # as" "t = dec k"
    | (ullong) k where "n = CHR ''U''" "args = Arg_ullong k # as" "t = dec k"
    | (char) "n \<notin> {CHR ''s'', CHR ''S'', CHR ''i'', CHR ''I'', CHR ''u'', CHR ''U''}" "t = [n]" "as = args"
    using v(1) by (auto simp: directive_val.simps split: if_splits list.splits fmt_arg.splits)
  then show ?thesis
  proof cases
    case str
    have "fmt_directive n s i args w = fmt_copy s i m (length t) as w"
      using str ok v(2) by (simp add: fmt_directive_def strlen_def w32_id)
    with copy [of "length t" m] str length_cstring_le [of m] show ?thesis by simp
  next
    case sds
    then have "fmt_directive n s i args w = fmt_copy s i (sds_buf u) (length t) as w"
      using ok v(2) sds_inv_bounds [of u] by (simp add: fmt_directive_def sdslen_def w32_id)
    moreover have "take (length t) (sds_buf u) = t" "length t \<le> length (sds_buf u)"
      using sds ok sds_inv_bounds [of u] by (simp_all add: sds_val_def)
    ultimately show ?thesis using copy by simp
  next
    case int
    then have "fmt_directive n s i args w =
        fmt_copy s i ((overwrite (fresh w SDS_LLSTR_SIZE) 0 t)[length t := NUL]) (length t) as w"
      using ok l21 by (simp add: fmt_directive_def sdsll2str_spec)
    with copy num [of t] l21 si [of k] int ok show ?thesis by simp
  next
    case llong
    then have "fmt_directive n s i args w =
        fmt_copy s i ((overwrite (fresh w SDS_LLSTR_SIZE) 0 t)[length t := NUL]) (length t) as w"
      using ok l21 by (simp add: fmt_directive_def sdsll2str_spec)
    with copy num [of t] l21 si [of k] llong ok show ?thesis by simp
  next
    case uint
    then have "fmt_directive n s i args w =
        fmt_copy s i ((overwrite (fresh w SDS_LLSTR_SIZE) 0 t)[length t := NUL]) (length t) as w"
      using ok l21 by (simp add: fmt_directive_def sdsull2str_spec)
    with copy num [of t] l21 dec [of k] uint ok show ?thesis by simp
  next
    case ullong
    then have "fmt_directive n s i args w =
        fmt_copy s i ((overwrite (fresh w SDS_LLSTR_SIZE) 0 t)[length t := NUL]) (length t) as w"
      using ok l21 by (simp add: fmt_directive_def sdsull2str_spec)
    with copy num [of t] l21 dec [of k] ullong ok show ?thesis by simp
  next
    case char
    then show ?thesis
      using fmt_char_spec [of s i w n args] s v(2) by (simp add: fmt_directive_def)
  qed
qed

lemma fmt_loop_spec:
  assumes "zok w" "\<not> null_possible w" "sds_shape s" "i = int (sds_len s)" "NUL \<notin> set f"
    "\<forall>a\<in>set args. arg_ok a" "fmt_val f args = Some out" "sds_len s + length out < 2147483647"
  shows "fmt_spec w (sds_cost w s) (fmt_loop s i (f @ NUL # r) args w)
    (\<lambda>s' i'. i' = int (sds_len s') \<and> sds_val s' = sds_val s @ out \<and> sds_len s' = sds_len s + length out)"
  using assms
proof (induction f args arbitrary: s i w out rule: fmt_val.induct)
  case (1 args)
  then show ?case
    by (subst fmt_loop.simps) (simp add: load_def fmt_spec_def)
next
  case (2 c args)
  then have c: "c \<noteq> NUL" "c \<noteq> CHR ''%''" "out = [c]" by (auto split: if_splits)
  have "fmt_spec w (sds_cost w s)
      (or_fault (if sds_free s = 0 then sdsMakeRoomFor s 1 w else Ok (Some s, w)) (\<lambda>s w.
        res_bind (fmt_char s i c args w) (\<lambda>((s, i, args), w). fmt_loop s i (NUL # r) args w)))
      (\<lambda>s' i'. i' = int (sds_len s') \<and> sds_val s' = sds_val s @ out \<and> sds_len s' = sds_len s + length out)"
  proof (rule room_if, goal_cases)
    case (6 s' w')
    then show ?case using 2 c
      by (intro fmt_spec_bind [OF fmt_char_spec]) (auto simp: fmt_loop.simps [of _ _ "NUL # r"] load_def fmt_spec_def)
  qed (use 2 in auto)
  then show ?case
    using c by (subst fmt_loop.simps) (simp add: load_def)
next
  case (3 c n f args)
  note prems = "3.prems"
  have c: "c \<noteq> NUL" using prems by auto
  show ?case
  proof (cases "c = CHR ''%''")
    case True
    then obtain t as out' where v: "directive_val n args = Some (t, as)" "fmt_val f as = Some out'" "out = t @ out'"
      using prems(7) by (auto split: option.splits)
    note IH = "3.IH"(1) [OF True v(1) refl]
    have ok: "\<forall>a\<in>set as. arg_ok a"
      using directive_val_suffix [OF v(1)] prems(6) by auto
    have "fmt_spec w (sds_cost w s)
      (or_fault (if sds_free s = 0 then sdsMakeRoomFor s 1 w else Ok (Some s, w)) (\<lambda>s w.
        res_bind (fmt_directive n s i args w) (\<lambda>((s, i, args), w). fmt_loop s i (f @ NUL # r) args w)))
      (\<lambda>s' i'. i' = int (sds_len s') \<and> sds_val s' = sds_val s @ out \<and> sds_len s' = sds_len s + length out)"
    proof (rule room_if, goal_cases)
      case (6 s' w')
      have "fmt_spec w' (sds_cost w' s') (fmt_directive n s' i args w')
        (\<lambda>s'' (i', as'). i' = int (sds_len s'') \<and> sds_val s'' = sds_val s' @ t \<and>
           sds_len s'' = sds_len s' + length t \<and> as' = as)"
        using 6 prems v by (intro fmt_directive_spec) (auto simp: zext_zok dest: zext_null_possible)
      then show ?case
      proof (rule fmt_spec_bind, goal_cases)
        case (1 s'' x w'')
        then have x: "x = (int (sds_len s''), as)" by (cases x) simp
        have "fmt_spec w'' (sds_cost w'' s'') (fmt_loop s'' (int (sds_len s'')) (f @ NUL # r) as w'')
          (\<lambda>s3 i3. i3 = int (sds_len s3) \<and> sds_val s3 = sds_val s'' @ out' \<and> sds_len s3 = sds_len s'' + length out')"
          using 1 6 prems v ok x by (intro IH) (auto simp: zext_zok dest: zext_null_possible)
        with 1 6 v x show ?case by (simp add: add.assoc)
      qed
    qed (use prems in auto)
    then show ?thesis
      using c True by (subst fmt_loop.simps) (simp add: load_def numeral_2_eq_2)
  next
    case False
    then obtain out' where v: "fmt_val (n # f) args = Some out'" "out = c # out'"
      using prems(7) by auto
    note IH = "3.IH"(2) [OF False]
    have "fmt_spec w (sds_cost w s)
      (or_fault (if sds_free s = 0 then sdsMakeRoomFor s 1 w else Ok (Some s, w)) (\<lambda>s w.
        res_bind (fmt_char s i c args w) (\<lambda>((s, i, args), w). fmt_loop s i ((n # f) @ NUL # r) args w)))
      (\<lambda>s' i'. i' = int (sds_len s') \<and> sds_val s' = sds_val s @ out \<and> sds_len s' = sds_len s + length out)"
    proof (rule room_if, goal_cases)
      case (6 s' w')
      have "fmt_spec w' (sds_cost w' s') (fmt_char s' i c args w')
        (\<lambda>s'' (i', as'). i' = int (sds_len s'') \<and> sds_val s'' = sds_val s' @ [c] \<and>
           sds_len s'' = sds_len s' + 1 \<and> as' = args)"
        using 6 prems v by (intro fmt_char_spec) auto
      then show ?case
      proof (rule fmt_spec_bind, goal_cases)
        case (1 s'' x w'')
        then have x: "x = (int (sds_len s''), args)" by (cases x) simp
        have "fmt_spec w'' (sds_cost w'' s'') (fmt_loop s'' (int (sds_len s'')) ((n # f) @ NUL # r) args w'')
          (\<lambda>s3 i3. i3 = int (sds_len s3) \<and> sds_val s3 = sds_val s'' @ out' \<and> sds_len s3 = sds_len s'' + length out')"
          using 1 6 prems v x by (intro IH) (auto simp: zext_zok dest: zext_null_possible)
        with 1 6 v x show ?case by simp
      qed
    qed (use prems in auto)
    then show ?thesis
      using c False by (subst fmt_loop.simps) (simp add: load_def)
  qed
qed

lemma sdscatfmt_spec:
  assumes w: "zok w" "\<not> null_possible w" and s: "sds_inv s" and f: "NUL \<notin> set f"
    and args: "\<forall>a\<in>set args. arg_ok a"
    and v: "fmt_val f args = Some out" "sds_len s + length out < 2147483647"
  shows "sds_spec w (sds_cost w s) (sdscatfmt s (f @ NUL # r) args w) (\<lambda>s'. sds_val s' = sds_val s @ out)"
proof -
  have "sds_shape s" "to_s32 (int (sdslen s)) = int (sds_len s)"
    using s v by (simp_all add: sds_inv_def sds_shape_def sdslen_def to_s32_id)
  with fmt_loop_spec [OF w _ refl f args v, of r] show ?thesis
    unfolding sdscatfmt_def sds_spec_def fmt_spec_def
    apply simp
    apply (erule wp_bindI)
     apply simp
    apply (auto simp: wp_bind sds_shape_def sds_inv_def sds_val_def sds_cost_def sds_block_def nat_int_add)
    done
qed

end
