(* ===== verification/SdsArgs.thy ===== *)
theory SdsArgs
  imports SdsNum
begin

text \<open>
  Quoting and unquoting of src/Clang/string/redis/sds.c: \<open>sdscatrepr\<close>, the hexadecimal
  helpers and \<open>sdssplitargs\<close>, with the law that the second undoes the first.
\<close>

section \<open>sdscatrepr\<close>

definition BSL :: byte where
  "BSL = CHR 0x5C"

definition hex2 :: "byte \<Rightarrow> string" where
  "hex2 c = [hex_char (byte_val c div 16), hex_char (byte_val c mod 16)]"

text \<open>One byte of the source, with the text each \<open>sdscatprintf\<close> call renders.\<close>

definition repr_char :: "sdshdr \<Rightarrow> byte \<Rightarrow> zworld \<Rightarrow> sds_result" where
  "repr_char s c w =
     (if c = BSL \<or> c = CHR 0x22 then sdscatprintf s (BSL # ''%c'' @ [NUL]) [BSL, c] w
      else if c = CHR 0x0A then sdscatlen s [BSL, CHR ''n''] 2 w
      else if c = CHR 0x0D then sdscatlen s [BSL, CHR ''r''] 2 w
      else if c = CHR 0x09 then sdscatlen s [BSL, CHR ''t''] 2 w
      else if c = CHR 0x07 then sdscatlen s [BSL, CHR ''a''] 2 w
      else if c = CHR 0x08 then sdscatlen s [BSL, CHR ''b''] 2 w
      else if isprint c then sdscatprintf s (''%c'' @ [NUL]) [c] w
      else sdscatprintf s (BSL # ''x%02x'' @ [NUL]) (BSL # CHR ''x'' # hex2 c) w)"

fun repr_loop :: "sdshdr \<Rightarrow> string \<Rightarrow> nat \<Rightarrow> zworld \<Rightarrow> sds_result" where
  "repr_loop s p 0 w = sdscatlen s [CHR 0x22] 1 w"
| "repr_loop s p (Suc len) w =
     (case p of [] \<Rightarrow> Err Fault
      | c # p \<Rightarrow> or_fault (repr_char s c w) (\<lambda>s w. repr_loop s p len w))"

definition sdscatrepr :: "sdshdr \<Rightarrow> string \<Rightarrow> nat \<Rightarrow> zworld \<Rightarrow> sds_result" where
  "sdscatrepr s p len w = or_fault (sdscatlen s [CHR 0x22] 1 w) (\<lambda>s w. repr_loop s p len w)"

section \<open>sdssplitargs\<close>

definition is_hex_digit :: "byte \<Rightarrow> bool" where
  "is_hex_digit c \<longleftrightarrow> (48 \<le> byte_val c \<and> byte_val c \<le> 57) \<or> (97 \<le> byte_val c \<and> byte_val c \<le> 102)
     \<or> (65 \<le> byte_val c \<and> byte_val c \<le> 70)"

definition hex_digit_to_int :: "byte \<Rightarrow> nat" where
  "hex_digit_to_int c =
     (let v = byte_val c in
      if 48 \<le> v \<and> v \<le> 57 then v - 48
      else if 97 \<le> v \<and> v \<le> 102 then v - 87
      else if 65 \<le> v \<and> v \<le> 70 then v - 55
      else 0)"

definition unescape :: "byte \<Rightarrow> byte" where
  "unescape c =
     (if c = CHR ''n'' then CHR 0x0A
      else if c = CHR ''r'' then CHR 0x0D
      else if c = CHR ''t'' then CHR 0x09
      else if c = CHR ''b'' then CHR 0x08
      else if c = CHR ''a'' then CHR 0x07
      else c)"

text \<open>The two flags \<open>inq\<close> and \<open>insq\<close>, of which at most one is set.\<close>

datatype quoting = Plain | Inq | Insq

text \<open>A token, or the jump to \<open>err\<close>; with the pointer after the token and \<open>current\<close>.\<close>

datatype token_end = Token_done string "sdshdr option" | Token_err "sdshdr option"

definition cat1 :: "sdshdr option \<Rightarrow> byte \<Rightarrow> zworld \<Rightarrow> sds_result" where
  "cat1 current c w = (case current of None \<Rightarrow> Err Fault | Some s \<Rightarrow> sdscatlen s [c] 1 w)"

text \<open>The test for a hexadecimal escape, which reads on only while it can still match.\<close>

definition hex_escape :: "byte \<Rightarrow> string \<Rightarrow> byte option cres" where
  "hex_escape c p =
     (if c \<noteq> BSL then Ok None
      else res_bind (load p 0) (\<lambda>x.
        if x \<noteq> CHR ''x'' then Ok None
        else res_bind (load p 1) (\<lambda>h.
        if \<not> is_hex_digit h then Ok None
        else res_bind (load p 2) (\<lambda>l.
        if \<not> is_hex_digit l then Ok None
        else Ok (Some (char_of (hex_digit_to_int h * 16 + hex_digit_to_int l)))))))"

text \<open>A closing quote is followed by a blank or by the end.\<close>

definition closes :: "string \<Rightarrow> bool cres" where
  "closes p = res_bind (load p 0) (\<lambda>n. Ok (n = NUL \<or> isspace n))"

text \<open>
  The inner loop: the pointer is the memory readable from it, so that \<open>*p\<close> is the head
  and \<open>*(p + 1)\<close> the first byte of the tail.
\<close>

function token_loop :: "quoting \<Rightarrow> string \<Rightarrow> sdshdr option \<Rightarrow> zworld \<Rightarrow> (token_end \<times> zworld) cres" where
  "token_loop q [] current w = Err Fault"
| "token_loop Inq (c # p) current w =
     res_bind (hex_escape c p) (\<lambda>h.
     case h of
       Some byte \<Rightarrow> res_bind (cat1 current byte w) (\<lambda>(current, w). token_loop Inq (drop 3 p) current w)
     | None \<Rightarrow>
       res_bind (if c = BSL then res_bind (load p 0) (\<lambda>n. Ok (n \<noteq> NUL)) else Ok False) (\<lambda>esc.
       if esc then
         res_bind (load p 0) (\<lambda>n.
         res_bind (cat1 current (unescape n) w) (\<lambda>(current, w). token_loop Inq (drop 1 p) current w))
       else if c = CHR 0x22 then
         res_bind (closes p) (\<lambda>ok. Ok (if ok then Token_done p current else Token_err current, w))
       else if c = NUL then Ok (Token_err current, w)
       else res_bind (cat1 current c w) (\<lambda>(current, w). token_loop Inq p current w)))"
| "token_loop Insq (c # p) current w =
     res_bind (if c = BSL then res_bind (load p 0) (\<lambda>n. Ok (n = CHR 0x27)) else Ok False) (\<lambda>esc.
     if esc then
       res_bind (cat1 current (CHR 0x27) w) (\<lambda>(current, w). token_loop Insq (drop 1 p) current w)
     else if c = CHR 0x27 then
       res_bind (closes p) (\<lambda>ok. Ok (if ok then Token_done p current else Token_err current, w))
     else if c = NUL then Ok (Token_err current, w)
     else res_bind (cat1 current c w) (\<lambda>(current, w). token_loop Insq p current w))"
| "token_loop Plain (c # p) current w =
     (if c = CHR '' '' \<or> c = CHR 0x0A \<or> c = CHR 0x0D \<or> c = CHR 0x09 then Ok (Token_done p current, w)
      else if c = NUL then Ok (Token_done (c # p) current, w)
      else if c = CHR 0x22 then token_loop Inq p current w
      else if c = CHR 0x27 then token_loop Insq p current w
      else res_bind (cat1 current c w) (\<lambda>(current, w). token_loop Plain p current w))"
  by pat_completeness auto
termination
  by (relation "measure (\<lambda>(q, p, current, w). length p)") auto

fun skip_blanks :: "string \<Rightarrow> string cres" where
  "skip_blanks [] = Err Fault"
| "skip_blanks (c # p) = (if c \<noteq> NUL \<and> isspace c then skip_blanks p else Ok (c # p))"

type_synonym args_vector = "sdshdr option list \<times> nat"

text \<open>The vector: NULL while there is no token, then a block of one pointer per token.\<close>

definition vec_block :: "sdshdr option list \<Rightarrow> nat option" where
  "vec_block toks = (if toks = [] then None else Some (8 * length toks))"

lemma skip_blanks_head:
  "skip_blanks p = Ok (c # r) \<Longrightarrow> (c = NUL \<or> \<not> isspace c) \<and> length (c # r) \<le> length p"
  by (induction p) (auto split: if_splits)

definition ends_within :: "nat \<Rightarrow> token_end \<times> zworld \<Rightarrow> bool" where
  "ends_within n x = (case fst x of Token_done p' _ \<Rightarrow> length p' \<le> n | Token_err _ \<Rightarrow> True)"

lemma ends_within_simps [simp]:
  "ends_within n (Token_err cur, w)"
  "ends_within n (Token_done p' cur, w) \<longleftrightarrow> length p' \<le> n"
  by (simp_all add: ends_within_def)

lemma token_loop_within: "on_ok (token_loop q p current w) (ends_within (length p))"
proof (induction "length p" arbitrary: q p current w rule: less_induct)
  case less
  show ?case
  proof (cases p)
    case Nil
    then show ?thesis by simp
  next
    case (Cons c r)
    have IH: "on_ok (token_loop q' r' cur' w') (ends_within (Suc (length r)))" if "length r' \<le> length r" for q' r' cur' w'
      using less [of r' q' cur' w'] that Cons
      by (auto elim!: on_ok_weaken simp: ends_within_def split: token_end.splits)
    show ?thesis
      unfolding Cons
      by (cases q) (simp_all add: on_ok_bind IH split: option.split prod.split)
  qed
qed

lemma token_loop_length:
  "token_loop q p current w = Ok (Token_done p' current', w') \<Longrightarrow> length p' \<le> length p"
  using token_loop_within [of q p current w] by (simp add: ends_within_def)

lemma token_loop_shorter:
  assumes "token_loop Plain (c # p) current w = Ok (Token_done p' current', w')" "c \<noteq> NUL" "\<not> isspace c"
  shows "length p' < length (c # p)"
proof -
  have "c \<notin> {CHR '' '', CHR 0x0A, CHR 0x0D, CHR 0x09}"
    using assms(3) by (auto simp: isspace_def byte_val_def)
  with assms show ?thesis
    by (auto simp: res_bind_Ok_iff less_Suc_eq_le split: if_splits dest!: token_loop_length)
qed

text \<open>
  The outer loop. A failed \<open>zrealloc\<close> of the vector is a fault at the store that follows;
  on \<open>err\<close> every token, the vector and \<open>current\<close> are released.
\<close>

function args_loop :: "string \<Rightarrow> sdshdr option list \<Rightarrow> zworld \<Rightarrow> ((args_vector option \<times> nat) \<times> zworld) cres" where
  "args_loop p toks w =
     res_bind (skip_blanks p) (\<lambda>p.
     res_bind (load p 0) (\<lambda>c.
     if c \<noteq> NUL then
       res_bind (sdsempty w) (\<lambda>(current, w).
       res_bind (token_loop Plain p current w) (\<lambda>(r, w).
       case r of
         Token_done p current \<Rightarrow>
           res_bind (no_ub (length toks + 1 < 2 ^ 31)) (\<lambda>_.
           res_bind (zrealloc (vec_block toks) ((length toks + 1) * 8) w) (\<lambda>(v, w).
           case v of None \<Rightarrow> Err Fault | Some _ \<Rightarrow> args_loop p (toks @ [current]) w))
       | Token_err current \<Rightarrow>
           Ok ((None, 0), sdsfree current (zfree (vec_block toks) (fold sdsfree (rev toks) w)))))
     else if toks = [] then
       res_bind (zmalloc 8 w) (\<lambda>(v, w).
       Ok ((case v of None \<Rightarrow> None | Some k \<Rightarrow> Some ([], k), 0), w))
     else Ok ((Some (toks, 8 * length toks), length toks), w)))"
  by pat_completeness auto
termination
proof (relation "measure (\<lambda>(p, toks, w). length p)", goal_cases)
  case (2 p toks w p1 c x current w1 y r w2 p2 current2 u v s w3 k)
  then show ?case
    by (cases p1)
      (auto simp: load_def simp del: token_loop.simps dest!: skip_blanks_head dest: token_loop_shorter)
qed simp

declare token_loop.simps [simp del] args_loop.simps [simp del]

definition sdssplitargs :: "string \<Rightarrow> zworld \<Rightarrow> ((args_vector option \<times> nat) \<times> zworld) cres" where
  "sdssplitargs line w = args_loop line [] w"

section \<open>The quoted form, and what it stands for\<close>

definition repr1 :: "byte \<Rightarrow> string" where
  "repr1 c =
     (if c = BSL \<or> c = CHR 0x22 then [BSL, c]
      else if c = CHR 0x0A then [BSL, CHR ''n'']
      else if c = CHR 0x0D then [BSL, CHR ''r'']
      else if c = CHR 0x09 then [BSL, CHR ''t'']
      else if c = CHR 0x07 then [BSL, CHR ''a'']
      else if c = CHR 0x08 then [BSL, CHR ''b'']
      else if isprint c then [c]
      else BSL # CHR ''x'' # hex2 c)"

definition repr :: "string \<Rightarrow> string" where
  "repr v = CHR 0x22 # concat (map repr1 v) @ [CHR 0x22]"

definition hex_esc :: "byte \<Rightarrow> string \<Rightarrow> byte option" where
  "hex_esc c p =
     (case p of x # h # l # _ \<Rightarrow>
        if c = BSL \<and> x = CHR ''x'' \<and> is_hex_digit h \<and> is_hex_digit l
        then Some (char_of (hex_digit_to_int h * 16 + hex_digit_to_int l)) else None
      | _ \<Rightarrow> None)"

definition closing :: "string \<Rightarrow> bool" where
  "closing p \<longleftrightarrow> p = [] \<or> isspace (hd p)"

function token_val :: "quoting \<Rightarrow> string \<Rightarrow> string \<Rightarrow> (string \<times> string) option" where
  "token_val q [] acc = (if q = Plain then Some (acc, []) else None)"
| "token_val Inq (c # p) acc =
     (case hex_esc c p of
        Some b \<Rightarrow> token_val Inq (drop 3 p) (acc @ [b])
      | None \<Rightarrow>
        if c = BSL \<and> p \<noteq> [] then token_val Inq (drop 1 p) (acc @ [unescape (hd p)])
        else if c = CHR 0x22 then (if closing p then Some (acc, p) else None)
        else token_val Inq p (acc @ [c]))"
| "token_val Insq (c # p) acc =
     (if c = BSL \<and> p \<noteq> [] \<and> hd p = CHR 0x27 then token_val Insq (drop 1 p) (acc @ [CHR 0x27])
      else if c = CHR 0x27 then (if closing p then Some (acc, p) else None)
      else token_val Insq p (acc @ [c]))"
| "token_val Plain (c # p) acc =
     (if c = CHR '' '' \<or> c = CHR 0x0A \<or> c = CHR 0x0D \<or> c = CHR 0x09 then Some (acc, p)
      else if c = CHR 0x22 then token_val Inq p acc
      else if c = CHR 0x27 then token_val Insq p acc
      else token_val Plain p (acc @ [c]))"
  by pat_completeness auto
termination
  by (relation "measure (\<lambda>(q, p, acc). length p)") auto

lemma token_val_length: "token_val q p acc = Some (v, p') \<Longrightarrow> length p' \<le> length p"
proof (induction q p acc rule: token_val.induct)
  case (2 c p acc)
  then show ?case
    by (cases "hex_esc c p") (force split: if_splits)+
qed (force split: if_splits)+

lemma token_val_set: "token_val q p acc = Some (v, p') \<Longrightarrow> set p' \<subseteq> set p"
proof (induction q p acc rule: token_val.induct)
  case (2 c p acc)
  then show ?case
    by (cases "hex_esc c p") (fastforce split: if_splits dest: in_set_dropD)+
qed (fastforce split: if_splits dest: in_set_dropD)+

lemma token_val_shorter:
  assumes "token_val Plain (c # p) acc = Some (v, p')"
  shows "length p' < length (c # p)"
  using assms by (auto split: if_splits dest!: token_val_length)

function args_val :: "string \<Rightarrow> string list option" where
  "args_val t =
     (case dropWhile isspace t of
        [] \<Rightarrow> Some []
      | c # p \<Rightarrow>
        (case token_val Plain (c # p) [] of None \<Rightarrow> None
         | Some (v, t') \<Rightarrow> map_option ((#) v) (args_val t')))"
  by pat_completeness auto
termination
proof (relation "measure length", goal_cases)
  case (2 t c p x v t')
  have "length (dropWhile isspace t) \<le> length t" by (rule length_dropWhile_le)
  with 2 show ?case by (auto simp del: token_val.simps dest: token_val_shorter)
qed simp

declare token_val.simps [simp del] args_val.simps [simp del]

section \<open>The law: reading the quoted form gives the string back\<close>

lemma hex_digits:
  assumes "d < 16"
  shows "is_hex_digit (hex_char d)" "hex_digit_to_int (hex_char d) = d" "hex_char d \<noteq> NUL"
proof -
  have v: "byte_val (hex_char d) = (if d < 10 then 48 + d else 87 + d)"
    using assms by (simp add: hex_char_def)
  show "is_hex_digit (hex_char d)" "hex_digit_to_int (hex_char d) = d"
    using assms by (auto simp: is_hex_digit_def hex_digit_to_int_def v)
  show "hex_char d \<noteq> NUL"
    using v by (auto simp: byte_val_def split: if_splits)
qed

lemma token_val_repr1: "token_val Inq (repr1 c @ t) acc = token_val Inq t (acc @ [c])"
proof -
  have h: "byte_val c div 16 < 16" "byte_val c mod 16 < 16"
    using byte_val_bound [of c] by (auto intro!: less_mult_imp_div_less)
  note hx = hex_digits [OF h(1)] hex_digits [OF h(2)]
  have "c \<in> {BSL, CHR 0x22, CHR 0x0A, CHR 0x0D, CHR 0x09, CHR 0x07, CHR 0x08} \<or>
      c \<notin> {BSL, CHR 0x22} \<and> repr1 c = [c] \<or> repr1 c = BSL # CHR ''x'' # hex2 c"
    by (simp add: repr1_def)
  then consider "c = BSL" | "c = CHR 0x22" | "c = CHR 0x0A" | "c = CHR 0x0D" | "c = CHR 0x09" | "c = CHR 0x07"
    | "c = CHR 0x08" | "c \<notin> {BSL, CHR 0x22}" "repr1 c = [c]"
    | "repr1 c = BSL # CHR ''x'' # hex2 c"
    by blast
  then show ?thesis
  proof cases
    case 8
    then show ?thesis by (simp add: token_val.simps hex_esc_def split: list.split)
  next
    case 9
    then show ?thesis
      using hx by (simp add: token_val.simps hex_esc_def hex2_def numeral_3_eq_3)
  qed (simp_all add: repr1_def token_val.simps hex_esc_def unescape_def BSL_def split: list.split)
qed

lemma token_val_concat:
  "closing t \<Longrightarrow> token_val Inq (concat (map repr1 v) @ CHR 0x22 # t) acc = Some (acc @ v, t)"
proof (induction v arbitrary: acc)
  case Nil
  then show ?case by (simp add: token_val.simps hex_esc_def BSL_def split: list.split)
next
  case (Cons c v)
  then show ?case by (simp add: token_val_repr1)
qed

lemma args_val_repr: "args_val (repr v) = Some [v]"
proof -
  have "\<not> isspace (CHR 0x22)" by (simp add: isspace_def byte_val_def)
  moreover have "token_val Plain (repr v) [] = Some (v, [])"
    using token_val_concat [of "[]" v "[]"] by (simp add: repr_def token_val.simps closing_def)
  ultimately show ?thesis
    by (subst args_val.simps) (simp add: repr_def args_val.simps [of "[]"])
qed

section \<open>The code computes these values\<close>

lemma repr_NUL: "NUL \<notin> set (repr1 c)"
proof -
  have h: "byte_val c div 16 < 16" "byte_val c mod 16 < 16"
    using byte_val_bound [of c] by (auto intro!: less_mult_imp_div_less)
  have "\<not> isprint NUL" by (simp add: isprint_def byte_val_def)
  then show ?thesis
    using hex_digits(3) [OF h(1)] hex_digits(3) [OF h(2)]
    by (auto simp: repr1_def hex2_def BSL_def)
qed

lemma length_repr1: "length (repr1 c) \<le> 4"
  by (simp add: repr1_def hex2_def)

lemma repr_char_spec:
  assumes w: "zok w" and s: "sds_inv s" and n: "sds_len s + 4 < 2147483648"
  shows "sds_spec w (sds_cost w s) (repr_char s c w)
    (\<lambda>s'. sds_val s' = sds_val s @ repr1 c \<and> sds_len s' = sds_len s + length (repr1 c))"
proof -
  have cat: "sds_spec w (sds_cost w s) (sdscatlen s [x, y] 2 w)
    (\<lambda>s'. sds_val s' = sds_val s @ [x, y] \<and> sds_len s' = sds_len s + 2)" for x y
    using sdscatlen_spec [OF w s, of 2 "[x, y]"] n by simp
  have pr: "sds_spec w (sds_cost w s) (sdscatprintf s (fmt @ [NUL]) out w)
    (\<lambda>s'. sds_val s' = sds_val s @ out \<and> sds_len s' = sds_len s + length out)"
    if "length fmt \<le> 6" "NUL \<notin> set fmt" "NUL \<notin> set out" "length out \<le> 4" for fmt out
    using sdscatvprintf_spec [OF w s, of "fmt @ [NUL]" out] that n by (simp add: sdscatprintf_def)
  have nul: "NUL \<notin> set (repr1 c)" "length (repr1 c) \<le> 4"
    by (rule repr_NUL, rule length_repr1)
  have fmts: "BSL # ''%c'' @ [NUL] = (BSL # ''%c'') @ [NUL]" "BSL # ''x%02x'' @ [NUL] = (BSL # ''x%02x'') @ [NUL]"
    by simp_all
  show ?thesis
    unfolding repr_char_def fmts
    using nul cat pr [of "BSL # ''%c''" "[BSL, c]"] pr [of "''%c''" "[c]"] pr [of "BSL # ''x%02x''" "BSL # CHR ''x'' # hex2 c"]
    by (auto simp: repr1_def BSL_def hex2_def split: if_splits)
qed

lemma repr_loop_spec:
  assumes "zok w" "\<not> null_possible w" "sds_inv s" "n \<le> length p" "sds_len s + 4 * n + 4 < 2147483648"
  shows "sds_spec w (sds_cost w s) (repr_loop s p n w)
    (\<lambda>s'. sds_val s' = sds_val s @ concat (map repr1 (take n p)) @ [CHR 0x22])"
  using assms
proof (induction n arbitrary: s p w)
  case 0
  then show ?case
    by (auto intro!: sds_spec_weaken [OF sdscatlen_spec])
next
  case (Suc n)
  then obtain c p' where p: "p = c # p'" by (cases p) auto
  have "sds_spec w (sds_cost w s) (or_fault (repr_char s c w) (\<lambda>s w. repr_loop s p' n w))
    (\<lambda>s'. sds_val s' = sds_val s @ concat (map repr1 (take (Suc n) p)) @ [CHR 0x22])"
  proof (rule sds_spec_or_fault [OF repr_char_spec])
    fix s' w'
    assume a: "zext w w'" "sds_inv s'" "sds_val s' = sds_val s @ repr1 c \<and> sds_len s' = sds_len s + length (repr1 c)"
    have "sds_spec w' (sds_cost w' s') (repr_loop s' p' n w')
        (\<lambda>s''. sds_val s'' = sds_val s' @ concat (map repr1 (take n p')) @ [CHR 0x22])"
      using Suc.prems p a length_repr1 [of c] by (intro Suc.IH) (auto simp: zext_zok dest: zext_null_possible)
    with a p show "sds_spec w' (sds_cost w' s') (repr_loop s' p' n w')
        (\<lambda>s''. sds_val s'' = sds_val s @ concat (map repr1 (take (Suc n) p)) @ [CHR 0x22])"
      by simp
  qed (use Suc.prems in auto)
  with p show ?case by simp
qed

lemma sdscatrepr_spec:
  assumes w: "zok w" "\<not> null_possible w" and s: "sds_inv s" and n: "n \<le> length p" "sds_len s + 4 * n + 5 < 2147483648"
  shows "sds_spec w (sds_cost w s) (sdscatrepr s p n w) (\<lambda>s'. sds_val s' = sds_val s @ repr (take n p))"
  unfolding sdscatrepr_def
proof (rule sds_spec_or_fault)
  show "sds_spec w (sds_cost w s) (sdscatlen s [CHR 0x22] 1 w)
      (\<lambda>s'. sds_val s' = sds_val s @ [CHR 0x22] \<and> sds_len s' = sds_len s + 1)"
    using sdscatlen_spec [OF w(1) s, of 1 "[CHR 0x22]"] n by simp
next
  fix s' w'
  assume a: "zext w w'" "sds_inv s'" "sds_val s' = sds_val s @ [CHR 0x22] \<and> sds_len s' = sds_len s + 1"
  then have "sds_spec w' (sds_cost w' s') (repr_loop s' p n w')
      (\<lambda>s''. sds_val s'' = sds_val s' @ concat (map repr1 (take n p)) @ [CHR 0x22])"
    using w n by (intro repr_loop_spec) (auto simp: zext_zok dest: zext_null_possible)
  with a show "sds_spec w' (sds_cost w' s') (repr_loop s' p n w') (\<lambda>s''. sds_val s'' = sds_val s @ repr (take n p))"
    by (simp add: repr_def)
qed (rule w(2))

text \<open>Tokens: \<open>r\<close> is the memory after the terminator of the line.\<close>

definition tok_spec :: "zworld \<Rightarrow> u64 \<Rightarrow> (token_end \<times> zworld) cres \<Rightarrow> (string \<times> string) option \<Rightarrow> string \<Rightarrow> bool" where
  "tok_spec w c res pv r = wp (may_oom w) res (\<lambda>(e, w'). zext w w' \<and> (\<exists>s'. sds_inv s' \<and>
     used_memory w' = used_memory w - c + sds_cost w s' \<and>
     (case pv of None \<Rightarrow> e = Token_err (Some s')
      | Some (v, t) \<Rightarrow> e = Token_done (t @ NUL # r) (Some s') \<and> sds_val s' = v)))"

lemma cat1_bind:
  assumes w: "zok w" "\<not> null_possible w" and s: "sds_inv s" "sds_len s + 1 < 2147483648"
    and f: "\<And>s' w'. zext w w' \<Longrightarrow> sds_inv s' \<Longrightarrow> sds_val s' = sds_val s @ [c] \<Longrightarrow> sds_len s' = sds_len s + 1 \<Longrightarrow>
      tok_spec w' (sds_cost w' s') (f (Some s', w')) pv r"
  shows "tok_spec w (sds_cost w s) (res_bind (cat1 (Some s) c w) f) pv r"
proof -
  have cat: "sds_spec w (sds_cost w s) (sdscatlen s [c] 1 w)
      (\<lambda>s'. sds_val s' = sds_val s @ [c] \<and> sds_len s' = sds_len s + 1)"
    using sdscatlen_spec [OF w(1) s(1), of 1 "[c]"] s(2) by simp
  show ?thesis
    unfolding cat1_def option.case tok_spec_def
  proof (rule wp_bindI [OF cat [unfolded sds_spec_def]], goal_cases)
    case (2 y)
    then obtain s' w' where y: "y = (Some s', w')" using w(2) by (cases y; cases "fst y") auto
    with 2 have z: "zext w w'" and u: "used_memory w' = used_memory w - sds_cost w s + sds_cost w s'"
      and t: "tok_spec w' (sds_cost w' s') (f (Some s', w')) pv r" by (auto intro: f)
    show ?case
      using t unfolding tok_spec_def y
      by (rule wp_weaken) (use z u in \<open>auto intro: zext_trans zext_may_oom simp: sds_cost_zext [OF z]\<close>)
  qed
qed

lemma not_NUL_facts: "\<not> is_hex_digit NUL" "NUL \<noteq> CHR ''x''" "BSL \<noteq> NUL"
  by (simp_all add: is_hex_digit_def byte_val_def BSL_def)

lemma hex_escape_eq:
  "NUL \<notin> set t \<Longrightarrow> hex_escape c (t @ NUL # r) = Ok (hex_esc c t)"
  using not_NUL_facts
  by (cases t; cases "tl t"; cases "tl (tl t)") (auto simp: hex_escape_def hex_esc_def load_def)

lemma closes_eq: "NUL \<notin> set t \<Longrightarrow> closes (t @ NUL # r) = Ok (closing t)"
  by (cases t) (auto simp: closes_def closing_def load_def)

lemma token_loop_spec:
  assumes "zok w" "\<not> null_possible w" "sds_inv s" "NUL \<notin> set t" "sds_len s + length t < 2147483648"
  shows "tok_spec w (sds_cost w s) (token_loop q (t @ NUL # r) (Some s) w) (token_val q t (sds_val s)) r"
  using assms
proof (induction "length t" arbitrary: q t s w rule: less_induct)
  case less
  note prems = less.prems
  have here: "tok_spec w (sds_cost w s) (Ok (e, w)) pv r"
    if "case pv of None \<Rightarrow> e = Token_err (Some s)
      | Some (v, t) \<Rightarrow> e = Token_done (t @ NUL # r) (Some s) \<and> sds_val s = v" for e pv
    unfolding tok_spec_def using that prems by auto
  show ?case
  proof (cases t)
    case Nil
    then show ?thesis
      using not_NUL_facts hex_escape_eq [of "[]" NUL r]
      by (cases q) (auto intro!: here simp: token_loop.simps token_val.simps hex_escape_def)
  next
    case (Cons c p)
    have c: "c \<noteq> NUL" "NUL \<notin> set p" using prems Cons by auto
    have step: "tok_spec w (sds_cost w s) (res_bind (cat1 (Some s) x w)
        (\<lambda>(current, w). token_loop q' (drop k p @ NUL # r) current w)) (token_val q' (drop k p) (sds_val s @ [x])) r" for x q' k
    proof (rule cat1_bind)
      fix s' w'
      assume a: "zext w w'" "sds_inv s'" "sds_val s' = sds_val s @ [x]" "sds_len s' = sds_len s + 1"
      have "tok_spec w' (sds_cost w' s') (token_loop q' (drop k p @ NUL # r) (Some s') w')
          (token_val q' (drop k p) (sds_val s')) r"
        using prems a Cons
        by (intro less.hyps) (auto simp: zext_zok dest: zext_null_possible in_set_dropD)
      with a show "tok_spec w' (sds_cost w' s') (case (Some s', w') of (current, w) \<Rightarrow>
          token_loop q' (drop k p @ NUL # r) current w) (token_val q' (drop k p) (sds_val s @ [x])) r"
        by simp
    qed (use prems Cons in auto)
    have skip: "tok_spec w (sds_cost w s) (token_loop q' (p @ NUL # r) (Some s) w) (token_val q' p (sds_val s)) r" for q'
      using prems Cons by (intro less.hyps) auto
    show ?thesis
    proof (cases q)
      case Plain
      show ?thesis
        unfolding Cons Plain using c step [where k = 0] skip
        by (auto intro!: here simp: token_loop.simps token_val.simps)
    next
      case Insq
      have n: "load (p @ NUL # r) 0 = Ok (hd (p @ [NUL]))" by (cases p) (simp_all add: load_def)
      have e: "drop 1 (p @ NUL # r) = drop 1 p @ NUL # r" if "p \<noteq> []" using that by (cases p) simp_all
      show ?thesis
      proof (cases "c = BSL \<and> p \<noteq> [] \<and> hd p = CHR 0x27")
        case True
        then show ?thesis
          unfolding Cons Insq using step [of "CHR 0x27" Insq 1] e n by (auto simp: token_loop.simps token_val.simps)
      next
        case False
        then have "res_bind (if c = BSL then res_bind (load (p @ NUL # r) 0) (\<lambda>n. Ok (n = CHR 0x27)) else Ok False) f = f False" for f :: "bool \<Rightarrow> (token_end \<times> zworld) cres"
          using n by (cases p) auto
        with False c show ?thesis
          unfolding Cons Insq using step [of c Insq 0]
          by (auto intro!: here simp: token_loop.simps token_val.simps closes_eq)
      qed
    next
      case Inq
      have n: "load (p @ NUL # r) 0 = Ok (hd (p @ [NUL]))" by (cases p) (simp_all add: load_def)
      show ?thesis
      proof (cases "hex_esc c p")
        case (Some b)
        then have "drop 3 (p @ NUL # r) = drop 3 p @ NUL # r"
          by (auto simp: hex_esc_def numeral_3_eq_3 split: list.splits if_splits)
        with Some show ?thesis
          unfolding Cons Inq using c step [of b Inq 3]
          by (simp add: token_loop.simps token_val.simps hex_escape_eq)
      next
        case None
        have e: "drop 1 (p @ NUL # r) = drop 1 p @ NUL # r" if "p \<noteq> []" using that by (cases p) simp_all
        show ?thesis
        proof (cases "c = BSL \<and> p \<noteq> []")
          case True
          then have "hd (p @ [NUL]) = hd p" "hd p \<noteq> NUL" using c by (cases p; auto)+
          then show ?thesis
            unfolding Cons Inq using True None c step [of "unescape (hd p)" Inq 1] e n
            by (simp add: token_loop.simps token_val.simps hex_escape_eq)
        next
          case False
          then have "res_bind (if c = BSL then res_bind (load (p @ NUL # r) 0) (\<lambda>n. Ok (n \<noteq> NUL)) else Ok False) f = f False" for f :: "bool \<Rightarrow> (token_end \<times> zworld) cres"
            using n by (cases p) auto
          with False c None show ?thesis
            unfolding Cons Inq using step [of c Inq 0]
            by (auto intro!: here simp: token_loop.simps token_val.simps hex_escape_eq closes_eq)
        qed
      qed
    qed
  qed
qed

text \<open>What a vector of tokens is counted for.\<close>

definition args_cost :: "zworld \<Rightarrow> sdshdr list \<Rightarrow> u64" where
  "args_cost w ss = sum_list (map (sds_cost w) ss) + (if ss = [] then 0 else cost w (8 * length ss))"

definition args_spec :: "zworld \<Rightarrow> u64 \<Rightarrow> ((args_vector option \<times> nat) \<times> zworld) cres \<Rightarrow> string list option \<Rightarrow> bool" where
  "args_spec w c r pv = wp (may_oom w) r (\<lambda>((v, argc), w'). zext w w' \<and>
     (case pv of
        None \<Rightarrow> v = None \<and> argc = 0 \<and> used_memory w' = used_memory w - c
      | Some vs \<Rightarrow> \<exists>ss k. v = Some (map Some ss, k) \<and> argc = length ss \<and> (\<forall>s\<in>set ss. sds_inv s) \<and>
          map sds_val ss = vs \<and> k = 8 * max 1 (length ss) \<and>
          used_memory w' = used_memory w - c + (sum_list (map (sds_cost w) ss) + cost w k)))"

lemma args_cost_zext: "zext w w' \<Longrightarrow> args_cost w' = args_cost w"
  by (simp add: args_cost_def sds_cost_zext zext_cost fun_eq_iff)

lemma args_spec_later:
  assumes "args_spec w' c' r pv" "zext w w'" "used_memory w' - c' = used_memory w - c"
  shows "args_spec w c r pv"
  using assms(1) unfolding args_spec_def
  by (rule wp_weaken; cases pv)
    (use assms(2,3) in \<open>auto intro: zext_trans zext_may_oom
      simp: sds_cost_zext [OF assms(2)] zext_cost [OF assms(2)]\<close>)

lemma fold_sdsfree_Some:
  "fold sdsfree (map Some ss) w = w\<lparr>used_memory := used_memory w - sum_list (map (sds_cost w) ss)\<rparr>"
proof (induction ss arbitrary: w)
  case (Cons s ss)
  have "sdsfree (Some s) w = w\<lparr>used_memory := used_memory w - sds_cost w s\<rparr>"
    by (simp add: sdsfree_def sds_cost_def)
  moreover have "sds_cost (w\<lparr>used_memory := u\<rparr>) = sds_cost w" for u
    by (simp add: sds_cost_zext)
  ultimately show ?case
    using Cons by (simp add: algebra_simps)
qed simp

lemma release_all:
  "sdsfree (Some s) (zfree (vec_block (map Some ss)) (fold sdsfree (rev (map Some ss)) w)) =
     w\<lparr>used_memory := used_memory w - args_cost w ss - sds_cost w s\<rparr>"
proof -
  have "sds_cost (w\<lparr>used_memory := u\<rparr>) = sds_cost w" "cost (w\<lparr>used_memory := u\<rparr>) = cost w" for u
    by (simp_all add: sds_cost_zext zext_cost)
  moreover have "sum_list (map (sds_cost w) (rev ss)) = sum_list (map (sds_cost w) ss)"
    by (simp only: sum_list_rev flip: rev_map)
  ultimately show ?thesis
    unfolding rev_map fold_sdsfree_Some
    by (simp add: vec_block_def args_cost_def sdsfree_def algebra_simps flip: sds_cost_def)
qed

text \<open>Growing the vector by one slot, from NULL the first time.\<close>

lemma vec_grow_bind:
  assumes w: "zok w" "\<not> null_possible w" and n: "length ss < 2147483648"
    and f: "\<And>w'. zext w w' \<Longrightarrow>
      used_memory w' = used_memory w - (if ss = [] then 0 else cost w (8 * length ss)) + cost w (8 * (length ss + 1)) \<Longrightarrow>
      args_spec w' c' (f (Some ((length ss + 1) * 8), w')) pv"
    and c: "\<And>w'. zext w w' \<Longrightarrow>
      used_memory w' = used_memory w - (if ss = [] then 0 else cost w (8 * length ss)) + cost w (8 * (length ss + 1)) \<Longrightarrow>
      used_memory w' - c' = used_memory w - c"
  shows "args_spec w c (res_bind (zrealloc (vec_block (map Some ss)) ((length ss + 1) * 8) w) f) pv"
proof -
  have k: "(length ss + 1) * 8 + 8 < 18446744073709551616" "(length ss + 1) * 8 = 8 * (length ss + 1)"
    using n by simp_all
  have later: "args_spec w c (f (Some ((length ss + 1) * 8), w')) pv"
    if "zext w w'" "used_memory w' = used_memory w - (if ss = [] then 0 else cost w (8 * length ss)) + cost w (8 * (length ss + 1))" for w'
    by (rule args_spec_later [OF f [OF that] that(1) c [OF that]])
  show ?thesis
  proof (cases "ss = []")
    case True
    then show ?thesis
      using later w k unfolding args_spec_def
      by (simp add: vec_block_def zrealloc_def) (rule zmalloc_bind, auto)
  next
    case False
    then show ?thesis
      using later w k unfolding args_spec_def
      by (simp add: vec_block_def) (rule zrealloc_bind, auto simp: mult.commute)
  qed
qed

lemma skip_blanks_eq:
  "NUL \<notin> set t \<Longrightarrow> skip_blanks (t @ NUL # r) = Ok (dropWhile isspace t @ NUL # r)"
  by (induction t) auto

lemma args_loop_spec:
  assumes "zok w" "\<not> null_possible w" "NUL \<notin> set t" "\<forall>s\<in>set ss. sds_inv s"
    "length ss + length t < 2147483646"
  shows "args_spec w (args_cost w ss) (args_loop (t @ NUL # r) (map Some ss) w)
    (map_option ((@) (map sds_val ss)) (args_val t))"
  using assms
proof (induction "length t" arbitrary: t ss w rule: less_induct)
  case less
  note prems = less.prems
  let ?u = "dropWhile isspace t"
  have u: "NUL \<notin> set ?u" "length ?u \<le> length t"
    using prems(3) by (auto dest: set_dropWhileD simp: length_dropWhile_le)
  show ?case
  proof (cases ?u)
    case Nil
    have v: "args_val t = Some []" by (subst args_val.simps) (simp only: Nil list.case)
    have "args_loop (t @ NUL # r) (map Some ss) w = (if ss = [] then
        res_bind (zmalloc 8 w) (\<lambda>(v, w). Ok ((case v of None \<Rightarrow> None | Some k \<Rightarrow> Some ([], k), 0), w))
      else Ok ((Some (map Some ss, 8 * length ss), length ss), w))"
    proof -
      have "skip_blanks (t @ NUL # r) = Ok (NUL # r)"
        by (simp only: skip_blanks_eq [OF prems(3)] Nil append_Nil)
      then show ?thesis by (subst args_loop.simps) (simp add: load_def)
    qed
    then show ?thesis
      unfolding v args_spec_def args_cost_def using prems
      by (cases "ss = []") (auto intro!: zmalloc_bind exI [of _ ss] simp: max_def Suc_le_eq)
  next
    case (Cons c p)
    have c: "c \<noteq> NUL" "load (?u @ NUL # r) 0 = Ok c" using u(1) Cons by (auto simp: load_def)
    define rest where "rest = (\<lambda>(r', w). case r' of
         Token_done p current \<Rightarrow>
           res_bind (no_ub (length (map Some ss) + 1 < 2 ^ 31)) (\<lambda>_.
           res_bind (zrealloc (vec_block (map Some ss)) ((length (map Some ss) + 1) * 8) w) (\<lambda>(v, w).
           case v of None \<Rightarrow> Err Fault | Some _ \<Rightarrow> args_loop p (map Some ss @ [current]) w))
       | Token_err current \<Rightarrow>
           Ok ((None, 0), sdsfree current (zfree (vec_block (map Some ss)) (fold sdsfree (rev (map Some ss)) w))))"
    have unf: "args_loop (t @ NUL # r) (map Some ss) w =
        res_bind (sdsempty w) (\<lambda>(current, w). res_bind (token_loop Plain (?u @ NUL # r) current w) rest)"
      using prems(3) c by (subst args_loop.simps) (simp add: skip_blanks_eq rest_def)
    have v: "args_val t = (case token_val Plain ?u [] of None \<Rightarrow> None
         | Some (v, t') \<Rightarrow> map_option ((#) v) (args_val t'))"
      using Cons by (subst args_val.simps) simp
    show ?thesis
      unfolding unf args_spec_def
    proof (rule wp_bindI [OF sdsempty_spec [OF prems(1), unfolded sds_spec_def]], goal_cases)
      case (2 x)
      then obtain s w1 where x: "x = (Some s, w1)" using prems(2) by (cases x; cases "fst x") auto
      with 2 have s: "zext w w1" "sds_inv s" "sds_val s = []" "sds_len s = 0"
        "used_memory w1 = used_memory w + sds_cost w s" by simp_all
      have tok: "tok_spec w1 (sds_cost w1 s) (token_loop Plain (?u @ NUL # r) (Some s) w1) (token_val Plain ?u []) r"
        using token_loop_spec [of w1 s ?u Plain r] s prems u by (auto simp: zext_zok dest: zext_null_possible)
      have "args_spec w1 (args_cost w1 ss + sds_cost w1 s)
          (res_bind (token_loop Plain (?u @ NUL # r) (Some s) w1) rest)
          (map_option ((@) (map sds_val ss)) (args_val t))"
        unfolding args_spec_def
      proof (rule wp_bindI [OF tok [unfolded tok_spec_def]], goal_cases)
        case (2 y)
        obtain e w2 where y: "y = (e, w2)" by force
        with 2 obtain s' where z: "zext w1 w2" and s': "sds_inv s'"
          "used_memory w2 = used_memory w1 - sds_cost w1 s + sds_cost w1 s'"
          "case token_val Plain ?u [] of None \<Rightarrow> e = Token_err (Some s')
            | Some (v, t) \<Rightarrow> e = Token_done (t @ NUL # r) (Some s') \<and> sds_val s' = v" by auto
        have "args_spec w2 (args_cost w2 ss + sds_cost w2 s') (rest (e, w2)) (map_option ((@) (map sds_val ss)) (args_val t))"
        proof (cases "token_val Plain ?u []")
          case None
          then show ?thesis
            using s' release_all [of s' ss w2] v
            by (simp add: rest_def args_spec_def algebra_simps)
        next
          case (Some vt)
          then obtain v' t' where vt: "token_val Plain ?u [] = Some (v', t')" by (cases vt) auto
          then have e: "e = Token_done (t' @ NUL # r) (Some s')" "sds_val s' = v'" using s' by auto
          have t': "length t' < length t" "NUL \<notin> set t'"
            using token_val_shorter [of c p "[]" v' t'] token_val_set [OF vt] vt u Cons by auto
          have ub: "length (map Some ss) + 1 < 2 ^ 31" using prems(5) by simp
          have rest: "rest (e, w2) = res_bind (zrealloc (vec_block (map Some ss)) ((length ss + 1) * 8) w2) (\<lambda>(v, w).
              case v of None \<Rightarrow> Err Fault | Some _ \<Rightarrow> args_loop (t' @ NUL # r) (map Some (ss @ [s'])) w)"
            unfolding rest_def e no_ub_def map_append list.map using ub by simp
          show ?thesis
            unfolding rest
          proof (rule vec_grow_bind [where c' = "args_cost w2 (ss @ [s'])"])
            fix w3
            assume z3: "zext w2 w3"
            have "args_spec w3 (args_cost w3 (ss @ [s'])) (args_loop (t' @ NUL # r) (map Some (ss @ [s'])) w3)
                (map_option ((@) (map sds_val (ss @ [s']))) (args_val t'))"
              using t' prems s' z z3 s(1)
              by (intro less.hyps) (auto simp: zext_zok dest: zext_null_possible)
            moreover have "map_option ((@) (map sds_val (ss @ [s']))) (args_val t') =
                map_option ((@) (map sds_val ss)) (args_val t)"
              unfolding v vt using e by (cases "args_val t'") simp_all
            ultimately show "args_spec w3 (args_cost w2 (ss @ [s'])) (case (Some ((length ss + 1) * 8), w3) of
                (v, w) \<Rightarrow> case v of None \<Rightarrow> Err Fault
                | Some _ \<Rightarrow> args_loop (t' @ NUL # r) (map Some (ss @ [s'])) w)
                (map_option ((@) (map sds_val ss)) (args_val t))"
              by (simp add: args_cost_zext [OF z3])
          qed (use prems s(1) z in \<open>auto simp: zext_zok args_cost_def algebra_simps dest: zext_null_possible\<close>)
        qed
        then have "args_spec w1 (args_cost w1 ss + sds_cost w1 s) (rest (e, w2)) (map_option ((@) (map sds_val ss)) (args_val t))"
          by (rule args_spec_later [OF _ z])
            (simp add: s' args_cost_zext [OF z] sds_cost_zext [OF z])
        then show ?case by (simp add: y args_spec_def)
      qed simp
      then have "args_spec w (args_cost w ss) (res_bind (token_loop Plain (?u @ NUL # r) (Some s) w1) rest)
          (map_option ((@) (map sds_val ss)) (args_val t))"
        by (rule args_spec_later [OF _ s(1)])
          (simp add: s(5) args_cost_zext [OF s(1)] sds_cost_zext [OF s(1)])
      then show ?case by (simp add: x args_spec_def)
    qed simp
  qed
qed


lemma sdssplitargs_spec:
  assumes "zok w" "\<not> null_possible w" "NUL \<notin> set t" "length t < 2147483646"
  shows "args_spec w 0 (sdssplitargs (t @ NUL # r) w) (args_val t)"
  using args_loop_spec [of w t "[]" r] assms
  by (simp add: sdssplitargs_def args_cost_def option.map_id0 [unfolded id_def] append_Nil [abs_def])

end
