(* ===== verification/SdsEdit.thy ===== *)
theory SdsEdit
  imports Sds
begin

text \<open>
  The operations of src/Clang/string/redis/sds.c that edit a string in place (trim,
  range, case and character mapping) and comparison.
\<close>

section \<open>Trimming and ranges\<close>

function trim_left :: "string \<Rightarrow> string \<Rightarrow> int \<Rightarrow> int \<Rightarrow> int cres" where
  "trim_left b cset sp en =
     (if sp \<le> en then
        res_bind (load b (nat sp)) (\<lambda>c.
        res_bind (strchr cset c) (\<lambda>m.
        if m then trim_left b cset (sp + 1) en else Ok sp))
      else Ok sp)"
  by pat_completeness auto
termination
  by (relation "measure (\<lambda>(b, cset, sp, en). nat (en + 1 - sp))") auto

function trim_right :: "string \<Rightarrow> string \<Rightarrow> int \<Rightarrow> int \<Rightarrow> int cres" where
  "trim_right b cset sp ep =
     (if sp < ep then
        res_bind (load b (nat ep)) (\<lambda>c.
        res_bind (strchr cset c) (\<lambda>m.
        if m then trim_right b cset sp (ep - 1) else Ok ep))
      else Ok ep)"
  by pat_completeness auto
termination
  by (relation "measure (\<lambda>(b, cset, sp, ep). nat (ep - sp))") auto

declare trim_left.simps [simp del] trim_right.simps [simp del]

definition sdstrim :: "sdshdr \<Rightarrow> string \<Rightarrow> sdshdr cres" where
  "sdstrim s cset =
     (let en = int (sdslen s) - 1 in
      res_bind (trim_left (sds_buf s) cset 0 en) (\<lambda>sp.
      res_bind (trim_right (sds_buf s) cset sp en) (\<lambda>ep.
      let len = (if ep < sp then 0 else nat (ep - sp + 1)) in
      res_bind (if sp \<noteq> 0 then memmove (sds_buf s) 0 (nat sp) len else Ok (sds_buf s)) (\<lambda>b.
      res_bind (store b len NUL) (\<lambda>b.
      Ok \<lparr>sds_len = w32 len, sds_free = w32 (sds_free s + sub64 (sds_len s) len), sds_buf = b\<rparr>)))))"

text \<open>\<open>start\<close> and \<open>end\<close> are ints; \<open>len + start\<close> is computed in size_t and converted back.\<close>

definition sdsrange :: "sdshdr \<Rightarrow> int \<Rightarrow> int \<Rightarrow> sdshdr cres" where
  "sdsrange s start en =
     (let len = sdslen s in
      if len = 0 then Ok s
      else
        let start = (if start < 0 then max 0 (to_s32 (int len + start)) else start);
            en = (if en < 0 then max 0 (to_s32 (int len + en)) else en) in
        res_bind (no_ub (en - start + 1 < 2 ^ 31)) (\<lambda>_.
        let newlen = (if en < start then 0 else nat (en - start + 1));
            (start, newlen) =
              (if newlen \<noteq> 0 then
                 if to_s32 (int len) \<le> start then (start, 0)
                 else if to_s32 (int len) \<le> en then
                   let en = to_s32 (int len - 1)
                   in (start, if en < start then 0 else nat (en - start + 1))
                 else (start, newlen)
               else (0, newlen)) in
        res_bind (if start \<noteq> 0 \<and> newlen \<noteq> 0 then memmove (sds_buf s) 0 (nat start) newlen
                  else Ok (sds_buf s)) (\<lambda>b.
        res_bind (store b newlen NUL) (\<lambda>b.
        Ok \<lparr>sds_len = w32 newlen, sds_free = w32 (sds_free s + sub64 (sds_len s) newlen),
            sds_buf = b\<rparr>))))"

section \<open>Mapping characters\<close>

function char_loop :: "(byte \<Rightarrow> byte cres) \<Rightarrow> string \<Rightarrow> nat \<Rightarrow> nat \<Rightarrow> string cres" where
  "char_loop f b j n =
     (if j < n then
        res_bind (load b j) (\<lambda>c.
        res_bind (f c) (\<lambda>c.
        res_bind (store b j c) (\<lambda>b. char_loop f b (j + 1) n)))
      else Ok b)"
  by pat_completeness auto
termination
  by (relation "measure (\<lambda>(f, b, j, n). n - j)") auto

declare char_loop.simps [simp del]

text \<open>The length goes through an \<open>int\<close>; a negative one runs no iteration.\<close>

definition sdstolower :: "sdshdr \<Rightarrow> sdshdr cres" where
  "sdstolower s =
     res_bind (char_loop (\<lambda>c. Ok (tolower c)) (sds_buf s) 0 (nat (to_s32 (int (sdslen s))))) (\<lambda>b.
     Ok (s\<lparr>sds_buf := b\<rparr>))"

definition sdstoupper :: "sdshdr \<Rightarrow> sdshdr cres" where
  "sdstoupper s =
     res_bind (char_loop (\<lambda>c. Ok (toupper c)) (sds_buf s) 0 (nat (to_s32 (int (sdslen s))))) (\<lambda>b.
     Ok (s\<lparr>sds_buf := b\<rparr>))"

function mapchar_loop :: "byte \<Rightarrow> string \<Rightarrow> string \<Rightarrow> nat \<Rightarrow> nat \<Rightarrow> byte cres" where
  "mapchar_loop c from to i setlen =
     (if i < setlen then
        res_bind (load from i) (\<lambda>f. if c = f then load to i else mapchar_loop c from to (i + 1) setlen)
      else Ok c)"
  by pat_completeness auto
termination
  by (relation "measure (\<lambda>(c, from, to, i, n). n - i)") auto

declare mapchar_loop.simps [simp del]

definition sdsmapchars :: "sdshdr \<Rightarrow> string \<Rightarrow> string \<Rightarrow> nat \<Rightarrow> sdshdr cres" where
  "sdsmapchars s from to setlen =
     res_bind (char_loop (\<lambda>c. mapchar_loop c from to 0 setlen) (sds_buf s) 0 (sdslen s)) (\<lambda>b.
     Ok (s\<lparr>sds_buf := b\<rparr>))"

section \<open>Comparison\<close>

definition sdscmp :: "sdshdr \<Rightarrow> sdshdr \<Rightarrow> int cres" where
  "sdscmp s1 s2 =
     (let l1 = sdslen s1; l2 = sdslen s2; minlen = (if l1 < l2 then l1 else l2) in
      res_bind (memcmp (sds_buf s1) (sds_buf s2) minlen) (\<lambda>cmp.
      Ok (if cmp = 0 then to_s32 (int (sub64 l1 l2)) else cmp)))"

section \<open>What the edits do to the value\<close>

definition strip :: "(byte \<Rightarrow> bool) \<Rightarrow> string \<Rightarrow> string" where
  "strip M xs = rev (dropWhile M (rev (dropWhile M xs)))"

definition in_cset :: "string \<Rightarrow> byte \<Rightarrow> bool" where
  "in_cset cset c \<longleftrightarrow> c \<in> set (cstring cset) \<or> c = NUL"

lemma trim_left_eq:
  assumes "i \<le> n" "n \<le> length b" "NUL \<in> set cset"
  shows "trim_left b cset (int i) (int n - 1) =
    Ok (int (i + length (takeWhile (in_cset cset) (drop i (take n b)))))"
  using assms
proof (induction "n - i" arbitrary: i)
  case 0
  then show ?case by (simp add: trim_left.simps)
next
  case (Suc k)
  then have i: "i < n" by simp
  have d: "drop i (take n b) = b ! i # drop (Suc i) (take n b)"
    using i Suc.prems by (subst Cons_nth_drop_Suc [symmetric]) simp_all
  have IH: "trim_left b cset (int (Suc i)) (int n - 1) =
      Ok (int (Suc i + length (takeWhile (in_cset cset) (drop (Suc i) (take n b)))))"
    using Suc i by (intro Suc.hyps(1)) simp_all
  show ?case
    using i Suc.prems IH
    by (subst trim_left.simps, subst d) (simp add: load_def strchr_def in_cset_def add.commute)
qed

lemma trim_right_ex:
  assumes "sp \<le> e" "e < length b" "NUL \<in> set cset"
  shows "\<exists>k. trim_right b cset (int sp) (int e) = Ok (int k) \<and> sp \<le> k \<and> k \<le> e
    \<and> (k = sp \<or> \<not> in_cset cset (b ! k)) \<and> (\<forall>j. k < j \<and> j \<le> e \<longrightarrow> in_cset cset (b ! j))"
  using assms
proof (induction "e - sp" arbitrary: e)
  case 0
  then have "e = sp" by simp
  with 0 show ?case by (auto simp: trim_right.simps)
next
  case (Suc n)
  then obtain e' where e': "e = Suc e'" "sp \<le> e'" by (cases e) auto
  show ?case
  proof (cases "in_cset cset (b ! e)")
    case True
    have n: "n = e' - sp" and l: "e' < length b"
      using Suc.hyps(2) Suc.prems e' by simp_all
    obtain k where "trim_right b cset (int sp) (int e') = Ok (int k)" "sp \<le> k" "k \<le> e'"
      "k = sp \<or> \<not> in_cset cset (b ! k)" "\<forall>j. k < j \<and> j \<le> e' \<longrightarrow> in_cset cset (b ! j)"
      using Suc.hyps(1) [OF n e'(2) l Suc.prems(3)] by blast
    moreover from this True e' have "\<forall>j. k < j \<and> j \<le> e \<longrightarrow> in_cset cset (b ! j)"
      by (metis le_Suc_eq)
    moreover have "trim_right b cset (int sp) (int e) = trim_right b cset (int sp) (int e')"
      using True e' Suc.prems
      by (subst trim_right.simps) (auto simp: load_def strchr_def in_cset_def)
    ultimately show ?thesis
      using e' by auto
  next
    case False
    then have "trim_right b cset (int sp) (int e) = Ok (int e)"
      using e' Suc.prems
      by (subst trim_right.simps) (auto simp: load_def strchr_def in_cset_def)
    with False Suc.prems show ?thesis by auto
  qed
qed

lemma strip_eq:
  assumes "A \<noteq> []" "\<forall>x\<in>set B. M x" "\<not> M (last A)"
  shows "rev (dropWhile M (rev (A @ B))) = A"
proof -
  have "dropWhile M (rev B @ rev A) = dropWhile M (rev A)"
    using assms(2) by (simp add: dropWhile_append)
  also have "\<dots> = rev A"
    using assms(1,3) by (simp add: dropWhile_eq_self_iff hd_rev)
  finally show ?thesis by simp
qed

text \<open>The kept part is the interval between the first and the last byte outside the set.\<close>

lemma strip_interval:
  assumes "sp = length (takeWhile M xs)" "sp \<le> k" "k < length xs" "k = sp \<or> \<not> M (xs ! k)"
    "\<forall>j. k < j \<and> j < length xs \<longrightarrow> M (xs ! j)"
  shows "strip M xs = take (Suc k - sp) (drop sp xs)"
proof -
  let ?m = "Suc k - sp" and ?ys = "drop sp xs"
  have nsp: "\<not> M (xs ! sp)"
    using assms nth_length_takeWhile [of M xs] by simp
  have "rev (dropWhile M (rev (take ?m ?ys @ drop ?m ?ys))) = take ?m ?ys"
  proof (rule strip_eq)
    show "take ?m ?ys \<noteq> []" using assms by simp
    have "last (take ?m ?ys) = xs ! k"
      using assms by (subst last_conv_nth) (auto simp: min_def intro!: arg_cong [where f = "(!) xs"])
    then show "\<not> M (last (take ?m ?ys))"
      using assms(4) nsp by auto
    show "\<forall>x\<in>set (drop ?m ?ys). M x"
      using assms by (auto simp: in_set_conv_nth)
  qed
  moreover have "dropWhile M xs = ?ys"
    by (simp add: dropWhile_eq_drop assms(1))
  ultimately show ?thesis
    unfolding strip_def append_take_drop_id by simp
qed

lemma sdstrim_spec:
  assumes s: "sds_inv s" and c: "NUL \<in> set cset"
  shows "\<exists>s'. sdstrim s cset = Ok s' \<and> sds_inv s' \<and> sds_block s' = sds_block s
    \<and> sds_val s' = strip (in_cset cset) (sds_val s)"
proof -
  let ?n = "sds_len s" and ?b = "sds_buf s" and ?M = "in_cset cset"
  from s have b: "length ?b = ?n + sds_free s + 1" "?n + sds_free s < 4294967296"
    by (simp_all add: sds_inv_def)
  define sp where "sp = length (takeWhile ?M (sds_val s))"
  have tl: "trim_left ?b cset 0 (int ?n - 1) = Ok (int sp)"
    using trim_left_eq [of 0 ?n ?b cset] b c by (simp add: sp_def sds_val_def)
  have sp: "sp \<le> ?n"
    using length_takeWhile_le [of ?M "sds_val s"] s by (simp add: sp_def)
  show ?thesis
  proof (cases "sp < ?n")
    case False
    with sp have n: "sp = ?n" by simp
    then have "trim_right ?b cset (int sp) (int ?n - 1) = Ok (int ?n - 1)"
      by (simp add: trim_right.simps)
    moreover have "strip ?M (sds_val s) = []"
      using n s by (simp add: strip_def dropWhile_eq_drop sp_def)
    ultimately show ?thesis
      using tl n b by (auto simp: sdstrim_def sdslen_def memmove_def store_def sds_inv_def sds_val_def
          sds_block_def w32_id sub64_id)
  next
    case True
    then have pre: "sp \<le> ?n - 1" "?n - 1 < length ?b" "int ?n - 1 = int (?n - 1)"
      using b by simp_all
    from trim_right_ex [OF this(1,2) c] obtain k where
      k: "trim_right ?b cset (int sp) (int ?n - 1) = Ok (int k)" "sp \<le> k" "k \<le> ?n - 1"
        "k = sp \<or> \<not> ?M (?b ! k)" "\<forall>j. k < j \<and> j \<le> ?n - 1 \<longrightarrow> ?M (?b ! j)"
      unfolding pre(3) by blast
    let ?m = "Suc k - sp"
    have m: "sp + ?m \<le> ?n" "0 < ?m" using k True by auto
    have "strip ?M (sds_val s) = take ?m (drop sp (sds_val s))"
      using k s b True by (intro strip_interval [OF sp_def]) (auto simp: sds_val_def)
    also have "\<dots> = take ?m (drop sp ?b)"
      using m by (simp add: sds_val_def drop_take min_absorb1)
    finally have st: "strip ?M (sds_val s) = take ?m (drop sp ?b)" .
    have "nat (int k - int sp + 1) = ?m" using k by simp
    moreover have "\<not> int k < int sp" "?m < length ?b" using k m b by simp_all
    ultimately have "sdstrim s cset = Ok \<lparr>sds_len = ?m, sds_free = sds_free s + (?n - ?m),
        sds_buf = (if sp = 0 then ?b else overwrite ?b 0 (take ?m (drop sp ?b)))[?m := NUL]\<rparr>"
      using tl k(1) m b
      by (simp add: sdstrim_def sdslen_def Let_def memmove_def store_def w32_id sub64_id) linarith
    then show ?thesis
      using m b st by (auto simp: sds_inv_def sds_block_def) (simp_all add: sds_val_def)
  qed
qed

text \<open>Ranges: both ends are counted from the end when negative, and clipped to the string.\<close>

definition norm_index :: "nat \<Rightarrow> int \<Rightarrow> int" where
  "norm_index n i = (if i < 0 then max 0 (int n + i) else i)"

definition range_val :: "string \<Rightarrow> int \<Rightarrow> int \<Rightarrow> string" where
  "range_val xs start en =
     (let a = norm_index (length xs) start; b = norm_index (length xs) en
      in take (nat (b - a + 1)) (drop (nat a) xs))"

lemma sdsrange_spec:
  assumes s: "sds_inv s" "sds_len s < 2147483648"
    and st: "- 2147483648 \<le> start" "start < 2147483648"
    and en: "- 2147483648 \<le> en" "en < 2147483647"
  shows "\<exists>s'. sdsrange s start en = Ok s' \<and> sds_inv s' \<and> sds_block s' = sds_block s
    \<and> sds_val s' = range_val (sds_val s) start en"
proof (cases "sds_len s = 0")
  case True
  with s show ?thesis
    by (simp add: sdsrange_def sdslen_def range_val_def sds_val_def)
next
  case False
  let ?n = "sds_len s" and ?b = "sds_buf s"
  define a where "a = norm_index ?n start"
  define e where "e = norm_index ?n en"
  have ae: "(if start < 0 then max 0 (to_s32 (int ?n + start)) else start) = a"
    "(if en < 0 then max 0 (to_s32 (int ?n + en)) else en) = e"
    "0 \<le> a" "0 \<le> e" "e < 2147483647"
    using s st en by (auto simp: a_def e_def norm_index_def to_s32_id)
  define m where "m = (if e < a \<or> int ?n \<le> a then 0 else if int ?n \<le> e then nat (int ?n - a) else nat (e - a + 1))"
  have m: "m \<le> ?n" "m \<noteq> 0 \<Longrightarrow> nat a + m \<le> ?n"
    using ae(3-) False by (auto simp: m_def)
  have val: "range_val (sds_val s) start en = take m (drop (nat a) (sds_val s))"
    using s ae(3-) by (auto simp: range_val_def m_def Let_def simp flip: a_def e_def)
  have b: "length ?b = ?n + sds_free s + 1" "?n + sds_free s < 4294967296"
    using s by (simp_all add: sds_inv_def)
  have len: "to_s32 (int ?n) = int ?n" "to_s32 (int ?n - 1) = int ?n - 1"
    using s(2) False by (simp_all add: to_s32_id)
  have ub: "e - a + 1 < 2 ^ 31" using ae(3-) by simp
  have sel: "(if (if e < a then 0 else nat (e - a + 1)) \<noteq> 0
      then if int ?n \<le> a then (a, 0)
        else if int ?n \<le> e then (a, if int ?n - 1 < a then 0 else nat (int ?n - 1 - a + 1))
        else (a, if e < a then 0 else nat (e - a + 1))
      else (0, if e < a then 0 else nat (e - a + 1))) = (if e < a then 0 else a, m)"
    using ae(3-) by (simp add: m_def)
  have m0: "m \<noteq> 0 \<Longrightarrow> \<not> e < a" "?b \<noteq> []" using b by (auto simp: m_def)
  have "sdsrange s start en = Ok \<lparr>sds_len = m, sds_free = sds_free s + (?n - m),
      sds_buf = (if a \<noteq> 0 \<and> m \<noteq> 0 then overwrite ?b 0 (take m (drop (nat a) ?b)) else ?b)[m := NUL]\<rparr>"
    unfolding sdsrange_def sdslen_def Let_def ae(1,2) if_not_P [OF False] no_ub_def if_P [OF ub]
      res_bind.simps len sel prod.case
    using m m0 b by (cases "m = 0") (simp_all add: memmove_def store_def w32_id sub64_id)
  moreover have "m \<noteq> 0 \<Longrightarrow> take m (drop (nat a) ?b) = take m (drop (nat a) (sds_val s))"
    using m by (simp add: sds_val_def drop_take min_absorb1)
  ultimately show ?thesis
    unfolding val using m b ae(3-)
    by (auto simp: sds_inv_def sds_block_def) (simp_all add: sds_val_def)
qed

lemma char_loop_eq:
  assumes "j \<le> n" "n \<le> length b" "\<And>c. f c = Ok (g c)"
  shows "char_loop f b j n = Ok (take j b @ map g (drop j (take n b)) @ drop n b)"
  using assms(1,2)
proof (induction "n - j" arbitrary: j b)
  case 0
  then show ?case by (simp add: char_loop.simps)
next
  case (Suc k)
  then have j: "j < n" "j < length b" by simp_all
  have "char_loop f (b[j := g (b ! j)]) (j + 1) n = Ok (take (j + 1) (b[j := g (b ! j)]) @
      map g (drop (j + 1) (take n (b[j := g (b ! j)]))) @ drop n (b[j := g (b ! j)]))"
    using Suc by (intro Suc.hyps(1)) simp_all
  moreover have "take (j + 1) (b[j := g (b ! j)]) = take j b @ [g (b ! j)]"
    using j by (simp add: take_Suc_conv_app_nth)
  moreover have "drop j (take n b) = b ! j # drop (j + 1) (take n b)"
    using j by (subst Cons_nth_drop_Suc [symmetric]) simp_all
  ultimately show ?case
    using j assms(3)
    by (subst char_loop.simps) (simp add: load_def store_def take_update_swap)
qed

lemma sds_map_inv:
  assumes "sds_inv s"
  shows "sds_inv (s\<lparr>sds_buf := map g (sds_val s) @ drop (sds_len s) (sds_buf s)\<rparr>)"
    "sds_val (s\<lparr>sds_buf := map g (sds_val s) @ drop (sds_len s) (sds_buf s)\<rparr>) = map g (sds_val s)"
    "sds_block (s\<lparr>sds_buf := map g (sds_val s) @ drop (sds_len s) (sds_buf s)\<rparr>) = sds_block s"
  using assms by (simp_all add: sds_inv_def sds_val_def sds_block_def nth_append)

lemma sdstolower_spec:
  assumes "sds_inv s" "sds_len s < 2147483648"
  shows "\<exists>s'. sdstolower s = Ok s' \<and> sds_inv s' \<and> sds_block s' = sds_block s
    \<and> sds_val s' = map tolower (sds_val s)"
  using assms sds_map_inv [OF assms(1), of tolower] sds_inv_bounds [OF assms(1)]
  by (simp add: sdstolower_def sdslen_def to_s32_id char_loop_eq [where g = tolower] flip: sds_val_def)

lemma sdstoupper_spec:
  assumes "sds_inv s" "sds_len s < 2147483648"
  shows "\<exists>s'. sdstoupper s = Ok s' \<and> sds_inv s' \<and> sds_block s' = sds_block s
    \<and> sds_val s' = map toupper (sds_val s)"
  using assms sds_map_inv [OF assms(1), of toupper] sds_inv_bounds [OF assms(1)]
  by (simp add: sdstoupper_def sdslen_def to_s32_id char_loop_eq [where g = toupper] flip: sds_val_def)

text \<open>Each byte is replaced through the first pair that lists it.\<close>

definition map_first :: "string \<Rightarrow> string \<Rightarrow> byte \<Rightarrow> byte" where
  "map_first from to c = (case map_of (zip from to) c of None \<Rightarrow> c | Some d \<Rightarrow> d)"

lemma mapchar_loop_eq:
  assumes "i \<le> n" "n \<le> length from" "n \<le> length to"
  shows "mapchar_loop c from to i n = Ok (map_first (drop i (take n from)) (drop i (take n to)) c)"
  using assms
proof (induction "n - i" arbitrary: i)
  case 0
  then show ?case by (simp add: mapchar_loop.simps map_first_def)
next
  case (Suc k)
  then have i: "i < n" by simp
  have d: "drop i (take n xs) = xs ! i # drop (Suc i) (take n xs)" if "n \<le> length xs" for xs :: string
    using that i by (subst Cons_nth_drop_Suc [symmetric]) simp_all
  have IH: "mapchar_loop c from to (Suc i) n =
      Ok (map_first (drop (Suc i) (take n from)) (drop (Suc i) (take n to)) c)"
    using Suc i by (intro Suc.hyps(1)) simp_all
  show ?case
    using i Suc.prems IH d [of "from"] d [of to]
    by (subst mapchar_loop.simps) (simp add: load_def map_first_def)
qed

lemma sdsmapchars_spec:
  assumes "sds_inv s" "setlen \<le> length from" "setlen \<le> length to"
  shows "\<exists>s'. sdsmapchars s from to setlen = Ok s' \<and> sds_inv s' \<and> sds_block s' = sds_block s
    \<and> sds_val s' = map (map_first (take setlen from) (take setlen to)) (sds_val s)"
  using assms sds_map_inv [OF assms(1), of "map_first (take setlen from) (take setlen to)"]
    sds_inv_bounds [OF assms(1)]
  by (simp add: sdsmapchars_def sdslen_def mapchar_loop_eq
      char_loop_eq [where g = "map_first (take setlen from) (take setlen to)"] flip: sds_val_def)

end
