(* ===== verification/SdsSplit.thy ===== *)
theory SdsSplit
  imports SdsEdit
begin

text \<open>
  Splitting a string at a separator, \<open>sdssplitlen\<close> and \<open>sdsfreesplitres\<close> of
  src/Clang/string/redis/sds.c, and the inverse law with \<open>sdsjoin\<close>.
\<close>

section \<open>Splitting\<close>

text \<open>
  The vector of tokens is the tokens stored and the number of slots of its block; the
  result is the vector or NULL, and what was written to \<open>*count\<close>, if anything.
\<close>

type_synonym sds_vector = "sdshdr list \<times> nat"
type_synonym split_result = "((sds_vector option \<times> nat option) \<times> zworld) cres"

definition split_cleanup :: "sdshdr list \<Rightarrow> nat \<Rightarrow> zworld \<Rightarrow> split_result" where
  "split_cleanup toks slots w =
     Ok ((None, Some 0), zfree (Some (8 * slots)) (fold (\<lambda>t. sdsfree (Some t)) toks w))"

definition split_room :: "nat \<Rightarrow> nat \<Rightarrow> zworld \<Rightarrow> (nat option \<times> zworld) cres" where
  "split_room elements slots w =
     (if slots < elements + 2 then
        res_bind (no_ub (slots * 2 < 2 ^ 31)) (\<lambda>_.
        res_bind (zrealloc (Some (8 * slots)) (8 * (slots * 2)) w) (\<lambda>(p, w).
        Ok (case p of None \<Rightarrow> None | Some _ \<Rightarrow> Some (slots * 2), w)))
      else Ok (Some slots, w))"

definition split_match :: "string \<Rightarrow> nat \<Rightarrow> string \<Rightarrow> int \<Rightarrow> bool cres" where
  "split_match s j sep seplen =
     res_bind (if seplen = 1 then res_bind (load s j) (\<lambda>c. res_bind (load sep 0) (\<lambda>d. Ok (c = d)))
               else Ok False) (\<lambda>eq.
     if eq then Ok True
     else res_bind (memcmp (drop j s) sep (nat seplen)) (\<lambda>cmp. Ok (cmp = 0)))"

text \<open>Store a token in the next slot of the vector.\<close>

definition split_token ::
  "string \<Rightarrow> nat \<Rightarrow> nat \<Rightarrow> sdshdr list \<Rightarrow> nat \<Rightarrow> zworld \<Rightarrow> (sdshdr list \<Rightarrow> zworld \<Rightarrow> split_result) \<Rightarrow> split_result"
where
  "split_token s start n toks slots w k =
     res_bind (no_ub (length toks < slots)) (\<lambda>_.
     res_bind (sdsnewlen (Some (drop start s)) n w) (\<lambda>(p, w).
     case p of None \<Rightarrow> split_cleanup toks slots w | Some t \<Rightarrow> k (toks @ [t]) w))"

lemma split_token_cong [fundef_cong]:
  assumes "s = s'" "start = start'" "n = n'" "toks = toks'" "slots = slots'" "w = w'"
    "\<And>ts w. k ts w = k' ts w"
  shows "split_token s start n toks slots w k = split_token s' start' n' toks' slots' w' k'"
proof -
  from assms(7) have "k = k'" by (intro ext)
  with assms show ?thesis by simp
qed

text \<open>
  The loop of \<open>sdssplitlen\<close>. Its caller has checked \<open>1 \<le> seplen\<close>; the check is repeated
  here, because without it the loop would not advance.
\<close>

function split_loop ::
  "string \<Rightarrow> int \<Rightarrow> string \<Rightarrow> int \<Rightarrow> nat \<Rightarrow> nat \<Rightarrow> sdshdr list \<Rightarrow> nat \<Rightarrow> zworld \<Rightarrow> split_result"
where
  "split_loop s len sep seplen j start toks slots w =
     (if 1 \<le> seplen \<and> int j < len - (seplen - 1) then
        res_bind (split_room (length toks) slots w) (\<lambda>(r, w).
        case r of None \<Rightarrow> split_cleanup toks slots w
        | Some slots \<Rightarrow>
          res_bind (split_match s j sep seplen) (\<lambda>m.
          if m then
            split_token s start (j - start) toks slots w (\<lambda>toks w.
              split_loop s len sep seplen (j + nat seplen) (j + nat seplen) toks slots w)
          else split_loop s len sep seplen (j + 1) start toks slots w))
      else
        split_token s start (nat len - start) toks slots w (\<lambda>toks w.
          Ok ((Some (toks, slots), Some (length toks)), w)))"
  by pat_completeness auto
termination
  by (relation "measure (\<lambda>(s, len, sep, seplen, j, start, toks, slots, w). nat (len - int j))") auto

declare split_loop.simps [simp del]

definition sdssplitlen :: "string \<Rightarrow> int \<Rightarrow> string \<Rightarrow> int \<Rightarrow> zworld \<Rightarrow> split_result" where
  "sdssplitlen s len sep seplen w =
     (if seplen < 1 \<or> len < 0 then Ok ((None, None), w)
      else
        res_bind (zmalloc (8 * 5) w) (\<lambda>(p, w).
        case p of None \<Rightarrow> Ok ((None, None), w)
        | Some _ \<Rightarrow>
          if len = 0 then Ok ((Some ([], 5), Some 0), w)
          else split_loop s len sep seplen 0 0 [] 5 w))"

fun free_tokens :: "sdshdr list \<Rightarrow> nat \<Rightarrow> zworld \<Rightarrow> zworld cres" where
  "free_tokens toks 0 w = Ok w"
| "free_tokens toks (Suc n) w =
     (if n < length toks then free_tokens toks n (sdsfree (Some (toks ! n)) w)
      else Err Fault)"

definition sdsfreesplitres :: "sds_vector option \<Rightarrow> nat \<Rightarrow> zworld \<Rightarrow> zworld cres" where
  "sdsfreesplitres v n w =
     (case v of None \<Rightarrow> Ok w
      | Some (toks, slots) \<Rightarrow>
        res_bind (free_tokens toks n w) (\<lambda>w. Ok (zfree (Some (8 * slots)) w)))"

section \<open>Splitting and joining\<close>

function split_val :: "string \<Rightarrow> string \<Rightarrow> string \<Rightarrow> string list" where
  "split_val sep acc rest =
     (if sep \<noteq> [] \<and> length sep \<le> length rest then
        if take (length sep) rest = sep then acc # split_val sep [] (drop (length sep) rest)
        else split_val sep (acc @ [hd rest]) (tl rest)
      else [acc @ rest])"
  by pat_completeness auto
termination
  by (relation "measure (\<lambda>(sep, acc, rest). length rest)") (auto intro: diff_less length_pos_if_in_set simp: neq_Nil_conv)

declare split_val.simps [simp del]

lemma split_val_not_Nil [simp]: "split_val sep acc rest \<noteq> []"
  by (induction sep acc rest rule: split_val.induct) (subst split_val.simps, simp)

lemma join_val_Cons: "as \<noteq> [] \<Longrightarrow> join_val (a # as) sep = a @ sep @ join_val as sep"
  by (cases as) simp_all

text \<open>Joining the tokens with the separator gives the string back.\<close>

lemma join_split_val: "join_val (split_val sep acc rest) sep = acc @ rest"
proof (induction sep acc rest rule: split_val.induct)
  case (1 sep acc rest)
  show ?case
  proof (cases "sep \<noteq> [] \<and> length sep \<le> length rest")
    case False
    then show ?thesis by (subst split_val.simps) auto
  next
    case True
    then have "rest \<noteq> []" by auto
    show ?thesis
    proof (cases "take (length sep) rest = sep")
      case m: True
      then have "sep @ drop (length sep) rest = rest" by (metis append_take_drop_id)
      with m True 1(1) show ?thesis
        by (subst split_val.simps) (simp add: join_val_Cons)
    next
      case False
      with True \<open>rest \<noteq> []\<close> 1(2) show ?thesis
        by (subst split_val.simps) simp
    qed
  qed
qed

definition vec_cost :: "zworld \<Rightarrow> sdshdr list \<Rightarrow> nat \<Rightarrow> u64" where
  "vec_cost w toks slots = sum_list (map (sds_cost w) toks) + cost w (8 * slots)"

text \<open>
  What a split promises: no fault; NULL only when allocation can fail; otherwise the
  vector of well-formed tokens, its length in \<open>*count\<close>, and the memory moved to it.
\<close>

definition split_spec :: "zworld \<Rightarrow> u64 \<Rightarrow> split_result \<Rightarrow> (string list \<Rightarrow> bool) \<Rightarrow> bool" where
  "split_spec w c r P = wp (may_oom w) r (\<lambda>((v, cnt), w'). zext w w' \<and>
     (case v of None \<Rightarrow> null_possible w
      | Some (toks, slots) \<Rightarrow> cnt = Some (length toks) \<and> (\<forall>t\<in>set toks. sds_inv t) \<and>
          P (map sds_val toks) \<and> used_memory w' = used_memory w - c + vec_cost w toks slots))"

lemma vec_cost_zext: "zext w w' \<Longrightarrow> vec_cost w' = vec_cost w"
  by (simp add: vec_cost_def sds_cost_zext zext_cost fun_eq_iff)

lemma split_spec_later:
  assumes "split_spec w' c' r P" "zext w w'" "used_memory w' - c' = used_memory w - c"
  shows "split_spec w c r P"
  using assms(1) unfolding split_spec_def
  by (rule wp_weaken)
    (use assms(2,3) in \<open>auto intro: zext_trans zext_may_oom zext_null_possible
      simp: vec_cost_zext [OF assms(2)] split: option.splits\<close>)

lemma fold_sdsfree:
  "fold (\<lambda>t. sdsfree (Some t)) toks w = w\<lparr>used_memory := used_memory w - sum_list (map (sds_cost w) toks)\<rparr>"
proof (induction toks arbitrary: w)
  case (Cons t toks)
  have "sdsfree (Some t) w = w\<lparr>used_memory := used_memory w - sds_cost w t\<rparr>"
    by (simp add: sdsfree_def sds_cost_def)
  moreover have "sds_cost (w\<lparr>used_memory := u\<rparr>) = sds_cost w" for u
    by (simp add: sds_cost_zext)
  ultimately show ?case
    using Cons by (simp add: algebra_simps)
qed simp

lemma split_cleanup_spec:
  "zext w w' \<Longrightarrow> null_possible w \<Longrightarrow> split_spec w c (split_cleanup toks slots w') P"
  by (auto simp: split_spec_def split_cleanup_def fold_sdsfree)

lemma split_token_spec:
  assumes w: "zok w" and b: "length toks < slots" "start + n \<le> length s" "n < 4294967296"
    and k: "\<And>t w'. zext w w' \<Longrightarrow> sds_inv t \<Longrightarrow> sds_val t = take n (drop start s) \<Longrightarrow>
      split_spec w' (vec_cost w' (toks @ [t]) slots) (k (toks @ [t]) w') P"
  shows "split_spec w (vec_cost w toks slots) (split_token s start n toks slots w k) P"
proof -
  have new: "sds_spec w 0 (sdsnewlen (Some (drop start s)) n w)
      (\<lambda>t. sds_len t = n \<and> sds_val t = take n (drop start s))"
    using sdsnewlen_spec [OF w b(3), of "Some (drop start s)"] b(2) by simp
  show ?thesis
    unfolding split_token_def no_ub_def if_P [OF b(1)] res_bind.simps split_spec_def
  proof (rule wp_bindI [OF new [unfolded sds_spec_def]], assumption, goal_cases)
    case (1 x)
    obtain p w' where x: "x = (p, w')" by force
    have z: "zext w w'" using 1 x by auto
    show ?case
    proof (cases p)
      case None
      with 1 x z show ?thesis
        using split_cleanup_spec [OF z, of "vec_cost w toks slots" toks slots P]
        by (simp add: split_spec_def)
    next
      case (Some t)
      with 1 x have t: "sds_inv t" "sds_val t = take n (drop start s)"
        "used_memory w' = used_memory w + sds_cost w t" by simp_all
      have "split_spec w (vec_cost w toks slots) (k (toks @ [t]) w') P"
        by (rule split_spec_later [OF k [OF z t(1,2)] z])
          (simp add: t(3) vec_cost_zext [OF z] vec_cost_def algebra_simps)
      with x Some show ?thesis by (simp add: split_spec_def)
    qed
  qed
qed

lemma split_room_bind:
  assumes w: "zok w" and b: "e < slots" "e < 1073741823"
    and fail: "\<And>w'. zext w w' \<Longrightarrow> null_possible w \<Longrightarrow> split_spec w (vec_cost w toks slots) (f (None, w')) P"
    and succ: "\<And>w' sl. zext w w' \<Longrightarrow> e + 1 < sl \<Longrightarrow>
      split_spec w' (vec_cost w' toks sl) (f (Some sl, w')) P"
  shows "split_spec w (vec_cost w toks slots) (res_bind (split_room e slots w) f) P"
proof (cases "slots < e + 2")
  case False
  then show ?thesis
    using succ [OF zext_refl, of slots] b by (simp add: split_room_def)
next
  case True
  have ub: "slots * 2 < 2 ^ 31" "8 * (slots * 2) + 8 < 18446744073709551616" using True b by simp_all
  show ?thesis
    unfolding split_room_def if_P [OF True] split_spec_def no_ub_def if_P [OF ub(1)] res_bind.simps
      res_bind_assoc
  proof (rule zrealloc_bind [OF w ub(2)])
    fix w'
    assume z: "zext w w'" and n: "null_possible w"
    then show "wp (may_oom w) (res_bind (case (None, w') of
        (p, w) \<Rightarrow> Ok (case p of None \<Rightarrow> None | Some _ \<Rightarrow> Some (slots * 2), w)) f) (\<lambda>((v, cnt), w'). zext w w' \<and>
     (case v of None \<Rightarrow> null_possible w
      | Some (tks, sl) \<Rightarrow> cnt = Some (length tks) \<and> (\<forall>t\<in>set tks. sds_inv t) \<and>
          P (map sds_val tks) \<and> used_memory w' = used_memory w - vec_cost w toks slots + vec_cost w tks sl))"
      using fail [OF z n] by (simp add: split_spec_def)
  next
    fix w'
    assume z: "zext w w'"
      and u: "used_memory w' = used_memory w - cost w (8 * slots) + cost w (8 * (slots * 2))"
    have "split_spec w (vec_cost w toks slots) (f (Some (slots * 2), w')) P"
      by (rule split_spec_later [OF succ [OF z] z])
        (use True b u in \<open>simp_all add: vec_cost_zext [OF z] vec_cost_def algebra_simps\<close>)
    then show "wp (may_oom w) (res_bind (case (Some (8 * (slots * 2)), w') of
        (p, w) \<Rightarrow> Ok (case p of None \<Rightarrow> None | Some _ \<Rightarrow> Some (slots * 2), w)) f) (\<lambda>((v, cnt), w'). zext w w' \<and>
     (case v of None \<Rightarrow> null_possible w
      | Some (tks, sl) \<Rightarrow> cnt = Some (length tks) \<and> (\<forall>t\<in>set tks. sds_inv t) \<and>
          P (map sds_val tks) \<and> used_memory w' = used_memory w - vec_cost w toks slots + vec_cost w tks sl))"
      by (simp add: split_spec_def)
  qed simp
qed

lemma split_match_eq:
  assumes "1 \<le> seplen" "nat seplen \<le> length sep" "j + nat seplen \<le> length s"
  shows "split_match s j sep seplen = Ok (take (nat seplen) (drop j s) = take (nat seplen) sep)"
proof -
  have "cmp_bytes (take (nat seplen) (drop j s)) (take (nat seplen) sep) = 0 \<longleftrightarrow>
      take (nat seplen) (drop j s) = take (nat seplen) sep"
    using assms by (intro cmp_bytes_eq_0_iff) simp
  moreover have "take (Suc 0) (drop j s) = [s ! j]" "take (Suc 0) sep = [sep ! 0]" if "seplen = 1"
    using assms that by (cases sep; simp add: take_Suc_conv_app_nth [of 0])+
  ultimately show ?thesis
    using assms by (auto simp: split_match_def load_def memcmp_def)
qed

lemma segment_append:
  assumes "start \<le> j" "j \<le> n"
  shows "drop start (take j s) @ drop j (take n s) = take (n - start) (drop start s)"
proof -
  have "n - start = (j - start) + (n - j)" using assms by simp
  then have "take (n - start) (drop start s) = take (j - start) (drop start s) @ take (n - j) (drop (j - start) (drop start s))"
    by (simp only: take_add)
  then show ?thesis using assms by (simp add: drop_take)
qed

lemma split_loop_spec:
  assumes "zok w" "1 \<le> seplen" "nat seplen \<le> length sep" "0 \<le> len" "nat len \<le> length s"
    "len < 1073741823" "start \<le> j" "j \<le> nat len" "length toks \<le> start" "length toks < slots"
    "\<forall>t\<in>set toks. sds_inv t"
  shows "split_spec w (vec_cost w toks slots) (split_loop s len sep seplen j start toks slots w)
    (\<lambda>vs. vs = map sds_val toks @ split_val (take (nat seplen) sep) (drop start (take j s)) (drop j (take (nat len) s)))"
  using assms
proof (induction "nat len - j" arbitrary: j start toks slots w rule: less_induct)
  case less
  note prems = less.prems
  let ?n = "nat seplen" and ?sep = "take (nat seplen) sep" and ?rest = "drop j (take (nat len) s)"
  have sep: "?sep \<noteq> []" "length ?sep = ?n" using prems by auto
  show ?case
  proof (cases "int j < len - (seplen - 1)")
    case False
    then have "\<not> length ?sep \<le> length ?rest" using prems sep by auto
    then have v: "split_val ?sep (drop start (take j s)) ?rest = [drop start (take j s) @ ?rest]"
      by (subst split_val.simps) auto
    have "drop start (take j s) @ ?rest = take (nat len - start) (drop start s)"
      using prems by (intro segment_append) simp_all
    with v have v: "split_val ?sep (drop start (take j s)) ?rest = [take (nat len - start) (drop start s)]"
      by simp
    have unf: "split_loop s len sep seplen j start toks slots w =
        split_token s start (nat len - start) toks slots w (\<lambda>toks w.
          Ok ((Some (toks, slots), Some (length toks)), w))"
      using False by (subst split_loop.simps) simp
    show ?thesis
      unfolding unf v using prems by (intro split_token_spec) (auto simp: split_spec_def)
  next
    case True
    then have room: "j + ?n \<le> nat len" "j < nat len" using prems by auto
    define f where "f = (\<lambda>(r, w). case r of None \<Rightarrow> split_cleanup toks slots w
        | Some slots \<Rightarrow> res_bind (split_match s j sep seplen) (\<lambda>m.
          if m then split_token s start (j - start) toks slots w (\<lambda>toks w.
              split_loop s len sep seplen (j + nat seplen) (j + nat seplen) toks slots w)
          else split_loop s len sep seplen (j + 1) start toks slots w))"
    have unf: "split_loop s len sep seplen j start toks slots w = res_bind (split_room (length toks) slots w) f"
      using True prems(2) unfolding f_def by (subst split_loop.simps) simp
    have le: "?n \<le> nat len - j" using room by simp
    have seg: "take ?n ?rest = take ?n (drop j s)"
      using room by (simp add: drop_take min_absorb1)
    have m: "split_match s j sep seplen = Ok (take ?n ?rest = ?sep)"
      unfolding seg using prems room by (intro split_match_eq) simp_all
    show ?thesis
      unfolding unf
    proof (rule split_room_bind)
      fix w' sl
      assume z: "zext w w'" and sl: "length toks + 1 < sl"
      note zok' = zext_zok [OF z, THEN iffD2, OF prems(1)]
      show "split_spec w' (vec_cost w' toks sl) (f (Some sl, w'))
        (\<lambda>vs. vs = map sds_val toks @ split_val ?sep (drop start (take j s)) ?rest)"
      proof (cases "take ?n ?rest = ?sep")
        case match: True
        have v: "split_val ?sep (drop start (take j s)) ?rest =
            drop start (take j s) # split_val ?sep [] (drop (j + ?n) (take (nat len) s))"
          using sep room match prems le by (subst split_val.simps) (simp add: add.commute)
        have "split_spec w' (vec_cost w' toks sl)
            (split_token s start (j - start) toks sl w' (\<lambda>toks w.
              split_loop s len sep seplen (j + nat seplen) (j + nat seplen) toks sl w))
            (\<lambda>vs. vs = map sds_val toks @ split_val ?sep (drop start (take j s)) ?rest)"
        proof (rule split_token_spec [OF zok'])
          fix t w''
          assume t: "zext w' w''" "sds_inv t" "sds_val t = take (j - start) (drop start s)"
          have "split_spec w'' (vec_cost w'' (toks @ [t]) sl)
              (split_loop s len sep seplen (j + ?n) (j + ?n) (toks @ [t]) sl w'')
              (\<lambda>vs. vs = map sds_val (toks @ [t]) @ split_val ?sep
                (drop (j + ?n) (take (j + ?n) s)) (drop (j + ?n) (take (nat len) s)))"
            using prems room t zok' sl by (intro less.hyps diff_less_mono2) (auto simp: zext_zok)
          then show "split_spec w'' (vec_cost w'' (toks @ [t]) sl)
              (split_loop s len sep seplen (j + ?n) (j + ?n) (toks @ [t]) sl w'')
              (\<lambda>vs. vs = map sds_val toks @ split_val ?sep (drop start (take j s)) ?rest)"
            unfolding v using t by (simp add: drop_take)
        qed (use prems room sl in auto)
        then show ?thesis by (simp add: f_def m match)
      next
        case no: False
        have "drop start (take j s) @ [hd ?rest] = drop start (take (j + 1) s)" "tl ?rest = drop (j + 1) (take (nat len) s)"
          using prems room by (simp_all add: take_Suc_conv_app_nth hd_drop_conv_nth drop_Suc tl_drop)
        then have v: "split_val ?sep (drop start (take j s)) ?rest =
            split_val ?sep (drop start (take (j + 1) s)) (drop (j + 1) (take (nat len) s))"
          using sep room no prems le by (subst split_val.simps) simp
        have "split_spec w' (vec_cost w' toks sl) (split_loop s len sep seplen (j + 1) start toks sl w')
            (\<lambda>vs. vs = map sds_val toks @ split_val ?sep
              (drop start (take (j + 1) s)) (drop (j + 1) (take (nat len) s)))"
          using prems room zok' sl by (intro less.hyps) auto
        then show ?thesis unfolding v by (simp add: f_def m no)
      qed
    qed (use prems room in \<open>auto simp: f_def split_cleanup_spec\<close>)
  qed
qed

lemma sdssplitlen_spec:
  assumes w: "zok w" and sep: "1 \<le> seplen" "nat seplen \<le> length sep"
    and len: "0 \<le> len" "nat len \<le> length s" "len < 1073741823"
  shows "split_spec w 0 (sdssplitlen s len sep seplen w) (\<lambda>vs. vs =
    (if len = 0 then [] else split_val (take (nat seplen) sep) [] (take (nat len) s)))"
proof -
  have g: "\<not> (seplen < 1 \<or> len < 0)" using sep len by simp
  show ?thesis
    unfolding sdssplitlen_def if_not_P [OF g] split_spec_def
  proof (rule zmalloc_bind [OF w], goal_cases)
    case (4 w')
    have "split_spec w' (vec_cost w' [] 5) (if len = 0 then Ok ((Some ([], 5), Some 0), w')
        else split_loop s len sep seplen 0 0 [] 5 w')
        (\<lambda>vs. vs = (if len = 0 then [] else split_val (take (nat seplen) sep) [] (take (nat len) s)))"
    proof (cases "len = 0")
      case True
      then show ?thesis by (simp add: split_spec_def)
    next
      case False
      then show ?thesis
        using split_loop_spec [of w' seplen sep len s 0 0 "[]" 5] 4 w sep len by (simp add: zext_zok)
    qed
    then have "split_spec w 0 (if len = 0 then Ok ((Some ([], 5), Some 0), w')
        else split_loop s len sep seplen 0 0 [] 5 w')
        (\<lambda>vs. vs = (if len = 0 then [] else split_val (take (nat seplen) sep) [] (take (nat len) s)))"
      by (rule split_spec_later [OF _ 4(1)]) (simp add: 4(2) vec_cost_def zext_cost [OF 4(1)])
    then show ?case by (simp add: split_spec_def)
  qed simp_all
qed

text \<open>Releasing the vector takes back what it was counted for.\<close>

lemma free_tokens_eq:
  "n \<le> length toks \<Longrightarrow> free_tokens toks n w =
     Ok (w\<lparr>used_memory := used_memory w - sum_list (map (sds_cost w) (take n toks))\<rparr>)"
proof (induction n arbitrary: w)
  case (Suc n)
  have "sds_cost (w\<lparr>used_memory := u\<rparr>) = sds_cost w" for u
    by (simp add: sds_cost_zext)
  moreover have "sdsfree (Some t) w = w\<lparr>used_memory := used_memory w - sds_cost w t\<rparr>" for t
    by (simp add: sdsfree_def sds_cost_def)
  ultimately show ?case
    using Suc by (simp add: take_Suc_conv_app_nth algebra_simps)
qed simp

lemma sdsfreesplitres_eq:
  "sdsfreesplitres (Some (toks, slots)) (length toks) w =
     Ok (w\<lparr>used_memory := used_memory w - vec_cost w toks slots\<rparr>)"
proof -
  have "cost (w\<lparr>used_memory := u\<rparr>) n = cost w n" for u n
    by (simp add: cost_def)
  then show ?thesis
    by (simp add: sdsfreesplitres_def free_tokens_eq vec_cost_def algebra_simps)
qed

text \<open>No token has an occurrence of the separator.\<close>

definition occurs :: "string \<Rightarrow> string \<Rightarrow> bool" where
  "occurs sep xs \<longleftrightarrow> (\<exists>i. i + length sep \<le> length xs \<and> take (length sep) (drop i xs) = sep)"

lemma split_val_no_occ:
  assumes "sep \<noteq> []" "\<forall>i<length acc. take (length sep) (drop i (acc @ rest)) \<noteq> sep"
    "v \<in> set (split_val sep acc rest)"
  shows "\<not> occurs sep v"
  using assms
proof (induction sep acc rest rule: split_val.induct)
  case (1 sep acc rest)
  show ?case
  proof (cases "length sep \<le> length rest")
    case False
    then have "v = acc @ rest" using 1(5) by (subst (asm) split_val.simps) auto
    then show ?thesis using 1(4) False by (auto simp: occurs_def)
  next
    case le: True
    then have cond: "sep \<noteq> [] \<and> length sep \<le> length rest" using 1(3) by simp
    have acc: "\<not> occurs sep acc"
    proof
      assume "occurs sep acc"
      then obtain i where "i + length sep \<le> length acc" "take (length sep) (drop i acc) = sep"
        by (auto simp: occurs_def)
      with 1(3,4) show False by (auto dest!: spec [of _ i])
    qed
    show ?thesis
    proof (cases "take (length sep) rest = sep")
      case True
      then have "v = acc \<or> v \<in> set (split_val sep [] (drop (length sep) rest))"
        using 1(5) cond by (subst (asm) split_val.simps) auto
      with acc 1(1) [OF cond True 1(3)] show ?thesis by auto
    next
      case False
      have "rest \<noteq> []" using cond by auto
      then have "acc @ rest = (acc @ [hd rest]) @ tl rest" by simp
      moreover have "\<forall>i<length (acc @ [hd rest]). take (length sep) (drop i (acc @ rest)) \<noteq> sep"
        using 1(4) False by (auto simp: less_Suc_eq)
      ultimately have "\<forall>i<length (acc @ [hd rest]). take (length sep) (drop i ((acc @ [hd rest]) @ tl rest)) \<noteq> sep"
        by metis
      moreover have "v \<in> set (split_val sep (acc @ [hd rest]) (tl rest))"
        using 1(5) cond False by (subst (asm) split_val.simps) simp
      ultimately show ?thesis by (rule 1(2) [OF cond False 1(3)])
    qed
  qed
qed

end
