(* ===== verification/ByteOrder.thy ===== *)
theory ByteOrder
  imports CMem "HOL-Library.Char_ord" "HOL-Library.List_Lexorder"
begin

text \<open>
  The order of byte strings: \<open>memcmp\<close> on the common prefix and then the difference of the
  lengths, as sds and strbuf compare, decides the lexicographic order of the library.
\<close>

lemma cmp_bytes_lex:
  defines "m xs ys \<equiv> min (length xs) (length ys)"
  defines "r xs ys \<equiv> (let c = cmp_bytes (take (m xs ys) xs) (take (m xs ys) ys)
      in if c = 0 then int (length xs) - int (length ys) else c)"
  shows "(r xs ys < 0 \<longleftrightarrow> xs < ys) \<and> (r xs ys = 0 \<longleftrightarrow> xs = ys)"
proof (induction xs arbitrary: ys)
  case Nil
  then show ?case by (cases ys) (simp_all add: r_def m_def)
next
  case (Cons x xs)
  show ?case
  proof (cases ys)
    case Nil
    then show ?thesis by (simp add: r_def m_def)
  next
    case (Cons y zs)
    have "x < y \<longleftrightarrow> byte_val x < byte_val y"
      by (simp add: less_char_def byte_val_def)
    then show ?thesis
      using Cons.IH [of zs] \<open>ys = y # zs\<close> byte_val_inj [of x y]
      by (auto simp: r_def m_def Let_def simp del: byte_val_inj)
  qed
qed

lemma to_s32_sub64:
  assumes "a < 2147483648" "b < 2147483648"
  shows "to_s32 (int (sub64 a b)) = int a - int b"
proof -
  let ?d = "int a - int b"
  have "int (sub64 a b) = ?d mod 2 ^ 64" unfolding sub64_def by (rule nat_0_le) simp
  moreover have "(?d mod 2 ^ 64 + 2 ^ 31) mod 2 ^ 32 = (?d mod 2 ^ 64 mod 2 ^ 32 + 2 ^ 31) mod 2 ^ 32"
    by (rule mod_add_left_eq [symmetric])
  moreover have "?d mod 2 ^ 64 mod 2 ^ 32 = ?d mod 2 ^ 32"
    by (rule mod_mod_cancel) simp
  moreover have "(?d mod 2 ^ 32 + 2 ^ 31) mod 2 ^ 32 = (?d + 2 ^ 31) mod 2 ^ 32"
    by (rule mod_add_left_eq)
  moreover have "(?d + 2 ^ 31) mod 2 ^ 32 = ?d + 2 ^ 31"
    using assms by (intro mod_pos_pos_trivial) auto
  ultimately have "(int (sub64 a b) + 2 ^ 31) mod 2 ^ 32 = ?d + 2 ^ 31" by (simp only:)
  then show ?thesis by (simp only: to_s32_def add_diff_cancel_right')
qed

end
