(* ===== verification/SdsCompare.thy ===== *)
theory SdsCompare
  imports SdsEdit ByteOrder
begin

text \<open>
  \<open>sdscmp\<close> of src/Clang/string/redis/sds.c decides the lexicographic order of the
  library on strings.
\<close>

section \<open>Comparison decides the lexicographic order\<close>

lemma sdscmp_spec:
  assumes "sds_inv s1" "sds_inv s2" "sds_len s1 < 2147483648" "sds_len s2 < 2147483648"
  shows "\<exists>r. sdscmp s1 s2 = Ok r \<and> (r < 0 \<longleftrightarrow> sds_val s1 < sds_val s2) \<and> (r = 0 \<longleftrightarrow> sds_val s1 = sds_val s2)"
proof -
  let ?m = "min (sds_len s1) (sds_len s2)"
  have t: "take ?m (sds_buf s1) = take ?m (sds_val s1)" "take ?m (sds_buf s2) = take ?m (sds_val s2)"
    by (simp_all add: sds_val_def)
  have b: "?m \<le> length (sds_buf s1)" "?m \<le> length (sds_buf s2)"
    using assms by (simp_all add: sds_inv_def)
  have m: "(if sds_len s1 < sds_len s2 then sds_len s1 else sds_len s2) = ?m" by simp
  have "to_s32 (int (sub64 (sds_len s1) (sds_len s2))) = int (sds_len s1) - int (sds_len s2)"
    using assms(3,4) by (simp add: to_s32_sub64)
  then show ?thesis
    using cmp_bytes_lex [of "sds_val s1" "sds_val s2", unfolded length_sds_val [OF assms(1)] length_sds_val [OF assms(2)] Let_def] b
    unfolding sdscmp_def sdslen_def Let_def m memcmp_def t
    by (simp split: if_splits)
qed

end
