(* ===== verification/SdsMachine.thy ===== *)
theory SdsMachine
  imports SdsFmt SdsArgs SdsSplit SdsCompare
begin

text \<open>
  Whole lifetimes of an sds string (src/Clang/string/redis/sds.c): a program of operations
  on one string refines the same program on plain byte strings, and what the string was
  counted for in \<open>used_memory\<close> is given back when it is freed.
\<close>

section \<open>Programs of operations\<close>

datatype sds_cmd =
    Cmd_cat string
  | Cmd_catlen string nat
  | Cmd_cpy string
  | Cmd_cpylen string nat
  | Cmd_growzero nat
  | Cmd_clear
  | Cmd_trim string
  | Cmd_range int int
  | Cmd_tolower
  | Cmd_toupper
  | Cmd_mapchars string string nat
  | Cmd_fmt string "fmt_arg list"
  | Cmd_repr string nat
  | Cmd_printf string string
  | Cmd_room nat
  | Cmd_shrink

text \<open>An operation that works in the block of the string.\<close>

definition in_place :: "sdshdr cres \<Rightarrow> zworld \<Rightarrow> sds_result" where
  "in_place r w = res_bind r (\<lambda>s. Ok (Some s, w))"

fun run_cmd :: "sds_cmd \<Rightarrow> sdshdr \<Rightarrow> zworld \<Rightarrow> sds_result" where
  "run_cmd (Cmd_cat t) s w = sdscat s t w"
| "run_cmd (Cmd_catlen t n) s w = sdscatlen s t n w"
| "run_cmd (Cmd_cpy t) s w = sdscpy s t w"
| "run_cmd (Cmd_cpylen t n) s w = sdscpylen s t n w"
| "run_cmd (Cmd_growzero n) s w = sdsgrowzero s n w"
| "run_cmd Cmd_clear s w = in_place (sdsclear s) w"
| "run_cmd (Cmd_trim cset) s w = in_place (sdstrim s cset) w"
| "run_cmd (Cmd_range a b) s w = in_place (sdsrange s a b) w"
| "run_cmd Cmd_tolower s w = in_place (sdstolower s) w"
| "run_cmd Cmd_toupper s w = in_place (sdstoupper s) w"
| "run_cmd (Cmd_mapchars from to n) s w = in_place (sdsmapchars s from to n) w"
| "run_cmd (Cmd_fmt f args) s w = sdscatfmt s (f @ [NUL]) args w"
| "run_cmd (Cmd_repr p n) s w = sdscatrepr s p n w"
| "run_cmd (Cmd_printf f out) s w = sdscatprintf s f out w"
| "run_cmd (Cmd_room n) s w = sdsMakeRoomFor s n w"
| "run_cmd Cmd_shrink s w = sdsRemoveFreeSpace s w"

fun run_cmds :: "sds_cmd list \<Rightarrow> sdshdr \<Rightarrow> zworld \<Rightarrow> sds_result" where
  "run_cmds [] s w = Ok (Some s, w)"
| "run_cmds (c # cs) s w = or_null (run_cmd c s w) (\<lambda>s w. run_cmds cs s w)"

text \<open>The same operations on byte strings.\<close>

fun cmd_val :: "sds_cmd \<Rightarrow> string \<Rightarrow> string" where
  "cmd_val (Cmd_cat t) v = v @ cstring t"
| "cmd_val (Cmd_catlen t n) v = v @ take n t"
| "cmd_val (Cmd_cpy t) v = cstring t"
| "cmd_val (Cmd_cpylen t n) v = take n t"
| "cmd_val (Cmd_growzero n) v = v @ zeroed (n - length v)"
| "cmd_val Cmd_clear v = []"
| "cmd_val (Cmd_trim cset) v = strip (in_cset cset) v"
| "cmd_val (Cmd_range a b) v = range_val v a b"
| "cmd_val Cmd_tolower v = map tolower v"
| "cmd_val Cmd_toupper v = map toupper v"
| "cmd_val (Cmd_mapchars from to n) v = map (map_first (take n from) (take n to)) v"
| "cmd_val (Cmd_fmt f args) v = v @ the (fmt_val f args)"
| "cmd_val (Cmd_repr p n) v = v @ repr (take n p)"
| "cmd_val (Cmd_printf f out) v = v @ out"
| "cmd_val (Cmd_room n) v = v"
| "cmd_val Cmd_shrink v = v"

text \<open>What a caller owes: readable arguments, ints in range, and less than 2 GB of text.\<close>

fun cmd_ok :: "sds_cmd \<Rightarrow> string \<Rightarrow> bool" where
  "cmd_ok (Cmd_cat t) v \<longleftrightarrow> NUL \<in> set t \<and> length v + length (cstring t) < 2 ^ 31"
| "cmd_ok (Cmd_catlen t n) v \<longleftrightarrow> n \<le> length t \<and> length v + n < 2 ^ 31"
| "cmd_ok (Cmd_cpy t) v \<longleftrightarrow> NUL \<in> set t \<and> length (cstring t) < 2 ^ 31"
| "cmd_ok (Cmd_cpylen t n) v \<longleftrightarrow> n \<le> length t \<and> n < 2 ^ 31"
| "cmd_ok (Cmd_growzero n) v \<longleftrightarrow> n < 2 ^ 31"
| "cmd_ok Cmd_clear v \<longleftrightarrow> True"
| "cmd_ok (Cmd_trim cset) v \<longleftrightarrow> NUL \<in> set cset"
| "cmd_ok (Cmd_range a b) v \<longleftrightarrow> - (2 ^ 31) \<le> a \<and> a < 2 ^ 31 \<and> - (2 ^ 31) \<le> b \<and> b < 2 ^ 31 - 1 \<and> length v < 2 ^ 31"
| "cmd_ok Cmd_tolower v \<longleftrightarrow> length v < 2 ^ 31"
| "cmd_ok Cmd_toupper v \<longleftrightarrow> length v < 2 ^ 31"
| "cmd_ok (Cmd_mapchars from to n) v \<longleftrightarrow> n \<le> length from \<and> n \<le> length to"
| "cmd_ok (Cmd_fmt f args) v \<longleftrightarrow> NUL \<notin> set f \<and> (\<forall>a\<in>set args. arg_ok a) \<and>
     (case fmt_val f args of None \<Rightarrow> False | Some t \<Rightarrow> length v + length t < 2 ^ 31 - 1)"
| "cmd_ok (Cmd_repr p n) v \<longleftrightarrow> n \<le> length p \<and> length v + 4 * n + 5 < 2 ^ 31"
| "cmd_ok (Cmd_printf f out) v \<longleftrightarrow> NUL \<in> set f \<and> length (cstring f) < 2 ^ 31 \<and> NUL \<notin> set out \<and>
     length v + length out < 2 ^ 31"
| "cmd_ok (Cmd_room n) v \<longleftrightarrow> length v + n < 2 ^ 31"
| "cmd_ok Cmd_shrink v \<longleftrightarrow> True"

fun cmds_ok :: "sds_cmd list \<Rightarrow> string \<Rightarrow> bool" where
  "cmds_ok [] v \<longleftrightarrow> True"
| "cmds_ok (c # cs) v \<longleftrightarrow> cmd_ok c v \<and> cmds_ok cs (cmd_val c v)"

lemma in_place_spec:
  assumes "\<exists>s'. r = Ok s' \<and> sds_inv s' \<and> P s' \<and> sds_block s' = sds_block s"
  shows "sds_spec w (sds_cost w s) (in_place r w) P"
  using assms by (auto simp: in_place_def sds_spec_def sds_cost_def)

lemma run_cmd_spec:
  assumes w: "zok w" "\<not> null_possible w" and s: "sds_inv s" and c: "cmd_ok c (sds_val s)"
  shows "sds_spec w (sds_cost w s) (run_cmd c s w) (\<lambda>s'. sds_val s' = cmd_val c (sds_val s))"
proof (cases c)
  case (Cmd_fmt f args)
  with c obtain t where "fmt_val f args = Some t" "sds_len s + length t < 2147483647"
    using s by (auto split: option.splits)
  with Cmd_fmt c sdscatfmt_spec [OF w s, of f args t "[]"] show ?thesis by simp
qed (use w s c in \<open>auto intro!: in_place_spec
      intro: sds_spec_weaken [OF sdscat_spec] sds_spec_weaken [OF sdscatlen_spec] sds_spec_weaken [OF sdscpy_spec]
        sds_spec_weaken [OF sdscpylen_spec] sds_spec_weaken [OF sdsgrowzero_spec] sds_spec_weaken [OF sdscatrepr_spec]
        sds_spec_weaken [OF sdsMakeRoomFor_spec] sds_spec_weaken [OF sdsRemoveFreeSpace_spec]
        sds_spec_weaken [OF sdscatvprintf_spec]
      simp: sdscatprintf_def
      dest: sdsclear_spec sdstrim_spec sdsrange_spec sdstolower_spec sdstoupper_spec sdsmapchars_spec\<close>)

lemma run_cmds_spec:
  assumes "zok w" "\<not> null_possible w" "sds_inv s" "cmds_ok cs (sds_val s)"
  shows "sds_spec w (sds_cost w s) (run_cmds cs s w) (\<lambda>s'. sds_val s' = fold cmd_val cs (sds_val s))"
  using assms
proof (induction cs arbitrary: s w)
  case (Cons c cs)
  show ?case
    unfolding run_cmds.simps
  proof (rule sds_spec_or_null [OF run_cmd_spec])
    fix s' w'
    assume a: "zext w w'" "sds_inv s'" "sds_val s' = cmd_val c (sds_val s)"
    then have "sds_spec w' (sds_cost w' s') (run_cmds cs s' w') (\<lambda>s''. sds_val s'' = fold cmd_val cs (sds_val s'))"
      using Cons.prems by (intro Cons.IH) (auto simp: zext_zok dest: zext_null_possible)
    with a show "sds_spec w' (sds_cost w' s') (run_cmds cs s' w') (\<lambda>s''. sds_val s'' = fold cmd_val (c # cs) (sds_val s))"
      by simp
  qed (use Cons.prems in auto)
qed simp

text \<open>Create a string, run a program on it, read its value and free it.\<close>

definition sds_lifetime :: "string \<Rightarrow> sds_cmd list \<Rightarrow> zworld \<Rightarrow> (string \<times> zworld) cres" where
  "sds_lifetime m cs w =
     or_fault (sdsnew (Some m) w) (\<lambda>s w.
     or_fault (run_cmds cs s w) (\<lambda>s w. Ok (sds_val s, sdsfree (Some s) w)))"

lemma wp_or_fault:
  assumes r: "sds_spec w c r P" and d: "\<not> null_possible w" and a: "may_oom w \<Longrightarrow> a"
    and f: "\<And>s w'. zext w w' \<Longrightarrow> sds_inv s \<Longrightarrow> P s \<Longrightarrow>
      used_memory w' = used_memory w - c + sds_cost w s \<Longrightarrow> wp a (f s w') Q"
  shows "wp a (or_fault r f) Q"
  unfolding or_fault_def
proof (rule wp_bindI [OF r [unfolded sds_spec_def] a], assumption, goal_cases)
  case (1 x)
  then obtain s w' where "x = (Some s, w')" using d by (cases x; cases "fst x") auto
  with 1 f show ?case by simp
qed

section \<open>Properties\<close>

text \<open>C1. Every program of sds operations whose arguments are in range computes, on the
  buffer, the text that the same program of string functions computes; it neither reads
  nor writes outside the block, keeps the header well formed, and aborts only when
  \<open>malloc\<close> fails.\<close>

theorem sds_program_refines:
  assumes "zok w" "\<not> null_possible w" "sds_inv s" "cmds_ok cs (sds_val s)"
  shows "wp (may_oom w) (run_cmds cs s w) (\<lambda>(p, w'). \<exists>s'. p = Some s' \<and> sds_inv s' \<and>
    sds_val s' = fold cmd_val cs (sds_val s) \<and>
    used_memory w' = used_memory w - sds_cost w s + sds_cost w s')"
  using run_cmds_spec [OF assms] assms(2) unfolding sds_spec_def
  by (auto elim!: wp_weaken split: option.splits)

theorem sds_program_refines_witness:
  "wp False (run_cmds [Cmd_cat (''cd'' @ [NUL]), Cmd_toupper, Cmd_range 1 (-2)] ab calm)
    (\<lambda>(p, w'). \<exists>s'. p = Some s' \<and> sds_val s' = ''BC'')"
proof -
  let ?cs = "[Cmd_cat (''cd'' @ [NUL]), Cmd_toupper, Cmd_range 1 (-2)]"
  have ok: "cmds_ok ?cs (sds_val ab)"
    by (simp add: cstring_eval)
  have val: "fold cmd_val ?cs (sds_val ab) = ''BC''"
    by code_simp
  show ?thesis
    using sds_program_refines [OF _ _ _ ok, of calm] unfolding val by (auto elim!: wp_weaken)
qed

text \<open>C14. A string that is created, worked on by any program of operations and freed leaves
  \<open>used_memory\<close> where it was: every reallocation on the way is counted right.\<close>

theorem sds_lifetime_balanced:
  assumes "zok w" "\<not> null_possible w" "NUL \<in> set m" "length (cstring m) < 2 ^ 32"
    and ok: "cmds_ok cs (cstring m)"
  shows "wp (may_oom w) (sds_lifetime m cs w)
    (\<lambda>(v, w'). v = fold cmd_val cs (cstring m) \<and> used_memory w' = used_memory w)"
  unfolding sds_lifetime_def
proof (rule wp_or_fault [OF sdsnew_spec [of w m]], goal_cases)
  case (6 s w1)
  then have "zok w1" "\<not> null_possible w1" "cmds_ok cs (sds_val s)"
    using assms by (auto simp: zext_zok dest: zext_null_possible)
  from run_cmds_spec [OF this(1,2) 6(2) this(3)] this(2) show ?case
  proof (rule wp_or_fault, goal_cases)
    case (2 s' w2)
    then show ?case
      using 6 by (simp add: sdsfree_def sds_cost_zext [OF 6(1)] flip: sds_cost_def)
        (simp add: sds_cost_def zext_cost)
  qed (use 6 in \<open>auto intro: zext_may_oom\<close>)
qed (use assms in auto)

theorem sds_lifetime_balanced_witness:
  "wp False (sds_lifetime (''ab'' @ [NUL]) [Cmd_growzero 100, Cmd_shrink] calm) (\<lambda>(v, w'). used_memory w' = 0)"
  using sds_lifetime_balanced [of calm "''ab'' @ [NUL]" "[Cmd_growzero 100, Cmd_shrink]"]
  by (simp add: cstring_eval) (auto elim!: wp_weaken)

end
