(* ===== verification/SdsProps.thy ===== *)
theory SdsProps
  imports SdsMachine
begin

text \<open>
  The properties of src/Clang/string/redis/sds.c that join several operations: quoting
  and parsing, splitting and releasing, numbers, comparison, growth and the guards.
\<close>

lemma sds_buf_split: "sds_inv s \<Longrightarrow> sds_buf s = sds_val s @ NUL # drop (Suc (sds_len s)) (sds_buf s)"
proof -
  assume s: "sds_inv s"
  then have "sds_len s < length (sds_buf s)" "sds_buf s ! sds_len s = NUL"
    by (simp_all add: sds_inv_def)
  then show ?thesis
    unfolding sds_val_def by (metis id_take_nth_drop)
qed

lemma NUL_notin_repr: "NUL \<notin> set (repr v)"
  using repr_NUL by (auto simp: repr_def)

lemma length_repr_le: "length (repr v) \<le> 4 * length v + 2"
proof -
  have "length (concat (map repr1 v)) \<le> 4 * length v"
  proof (induction v)
    case (Cons c v)
    then show ?case using length_repr1 [of c] by simp
  qed simp
  then show ?thesis by (simp add: repr_def)
qed

definition read_int :: "string \<Rightarrow> int" where
  "read_int xs = (case xs of [] \<Rightarrow> 0
     | c # r \<Rightarrow> if c = CHR ''-'' then - int (read_dec r) else int (read_dec xs))"

lemma minus_notin_dec: "CHR ''-'' \<notin> set (dec n)"
proof (induction n rule: dec.induct)
  case (1 n)
  have minus: "CHR ''-'' \<noteq> digit_char d" if "d < 10" for d
  proof
    assume "CHR ''-'' = digit_char d"
    then have "byte_val (CHR ''-'') = 48 + d" using byte_val_digit [OF that] by simp
    then show False by (simp add: byte_val_def)
  qed
  from 1 minus [of n] minus [of "n mod 10"] show ?case
    by (subst dec.simps) simp
qed

lemma read_int_show_int: "read_int (show_int i) = i"
proof (cases "i < 0")
  case False
  obtain c r where d: "dec (nat i) = c # r" by (cases "dec (nat i)") auto
  moreover have "c \<noteq> CHR ''-''" using minus_notin_dec [of "nat i"] d by auto
  moreover have "read_dec (c # r) = nat i" using read_dec_dec [of "nat i"] d by simp
  ultimately show ?thesis using False by (simp add: show_int_def read_int_def)
qed (simp add: show_int_def read_int_def read_dec_dec)

lemma cstring_written:
  "length x < length b \<Longrightarrow> NUL \<notin> set x \<Longrightarrow> cstring ((overwrite b 0 x)[length x := NUL]) = x"
  by (simp add: overwrite_0 list_update_append) (simp add: Cons_nth_drop_Suc [symmetric])

lemma sdsMakeRoomFor_size:
  assumes w: "zok w" and s: "sds_inv s" and n: "sds_len s + addlen < 2147483648" "\<not> addlen \<le> sds_free s"
  shows "wp (may_oom w) (sdsMakeRoomFor s addlen w) (\<lambda>(p, w'). \<forall>s'. p = Some s' \<longrightarrow>
    sds_len s' + sds_free s' = (if sds_len s + addlen < SDS_MAX_PREALLOC then (sds_len s + addlen) * 2
      else sds_len s + addlen + SDS_MAX_PREALLOC))"
proof -
  define newlen where "newlen = (if sds_len s + addlen < SDS_MAX_PREALLOC
      then (sds_len s + addlen) * 2 else sds_len s + addlen + SDS_MAX_PREALLOC)"
  have b: "newlen < 4294967296" "sds_len s + addlen \<le> newlen"
    using n by (auto simp: newlen_def SDS_MAX_PREALLOC_def)
  have eq: "w64 (sds_len s + addlen) = sds_len s + addlen"
    "(if sds_len s + addlen < SDS_MAX_PREALLOC then w64 ((sds_len s + addlen) * 2)
       else w64 (sds_len s + addlen + SDS_MAX_PREALLOC)) = newlen"
    "w64 (SDS_HDR + newlen + 1) = newlen + 9"
    using n b by (auto simp: newlen_def w64_id SDS_MAX_PREALLOC_def SDS_HDR_def)
  show ?thesis
    unfolding sdsMakeRoomFor_def sdsavail_def sdslen_def Let_def eq if_not_P [OF n(2)] newlen_def [symmetric]
  proof (rule zrealloc_bind [OF w], goal_cases)
    case (4 w')
    then show ?case using b by (simp add: SDS_HDR_def w32_id sub64_id)
  qed (use b in simp_all)
qed

section \<open>Properties\<close>

text \<open>C11. Quoting a byte string with \<open>sdscatrepr\<close> and parsing the quoted text with
  \<open>sdssplitargs\<close> gives back exactly one argument, equal to the original, for every byte
  string, NUL bytes included.\<close>

theorem sdssplitargs_undoes_sdscatrepr:
  assumes w: "zok w" "\<not> null_possible w" and n: "n \<le> length p" "4 * n + 5 < 2 ^ 31"
  shows "wp (may_oom w)
    (or_fault (sdsempty w) (\<lambda>s w. or_fault (sdscatrepr s p n w) (\<lambda>s w. sdssplitargs (sds_buf s) w)))
    (\<lambda>((v, argc), w'). argc = 1 \<and> (\<exists>s k. v = Some ([Some s], k) \<and> sds_inv s \<and> sds_val s = take n p))"
proof (rule wp_or_fault [OF sdsempty_spec [OF w(1)] w(2)], assumption, goal_cases)
  case (1 s w1)
  then have w1: "zok w1" "\<not> null_possible w1" and a1: "may_oom w1 \<Longrightarrow> may_oom w"
    using w by (auto simp: zext_zok dest: zext_null_possible zext_may_oom)
  have "sds_spec w1 (sds_cost w1 s) (sdscatrepr s p n w1) (\<lambda>s'. sds_val s' = sds_val s @ repr (take n p))"
    using w1 1 n by (intro sdscatrepr_spec) auto
  from this w1(2) a1 show ?case
  proof (rule wp_or_fault, goal_cases)
    case (2 s' w2)
    let ?t = "repr (take n p)"
    have w2: "zok w2" "\<not> null_possible w2" and a2: "may_oom w2 \<Longrightarrow> may_oom w"
      using w1 2 a1 by (auto simp: zext_zok dest: zext_null_possible zext_may_oom)
    have b: "sds_buf s' = ?t @ NUL # drop (Suc (sds_len s')) (sds_buf s')"
      using sds_buf_split [OF 2(2)] 2(3) 1 by simp
    have len: "length ?t < 2147483646"
      using length_repr_le [of "take n p"] n by (simp add: min_absorb2)
    have "args_spec w2 0 (sdssplitargs (sds_buf s') w2) (Some [take n p])"
      using sdssplitargs_spec [OF w2 NUL_notin_repr len, of "drop (Suc (sds_len s')) (sds_buf s')"]
      unfolding b [symmetric] args_val_repr .
    then show ?case
      unfolding args_spec_def
      by (rule wp_weaken) (use a2 in \<open>auto simp: map_eq_Cons_conv\<close>)
  qed
qed

theorem sdssplitargs_undoes_sdscatrepr_witness:
  "wp False
    (or_fault (sdsempty calm) (\<lambda>s w. or_fault (sdscatrepr s [CHR ''a'', NUL, CHR 0x22] 3 w)
      (\<lambda>s w. sdssplitargs (sds_buf s) w)))
    (\<lambda>((v, argc), w'). argc = 1 \<and>
      (\<exists>s k. v = Some ([Some s], k) \<and> sds_inv s \<and> sds_val s = [CHR ''a'', NUL, CHR 0x22]))"
  using sdssplitargs_undoes_sdscatrepr [of calm 3 "[CHR ''a'', NUL, CHR 0x22]"] by simp

text \<open>C33. \<open>sdssplitargs\<close> on any line: exactly the arguments of the quoting grammar, each a
  well-formed string, with their number; on unbalanced quotes NULL, a count of zero and
  all the memory taken so far given back. It never reads past the end of the line.\<close>

theorem sdssplitargs_correct:
  assumes "zok w" "\<not> null_possible w" "NUL \<notin> set t" "length t < 2 ^ 31 - 2"
  shows "wp (may_oom w) (sdssplitargs (t @ NUL # r) w) (\<lambda>((v, argc), w').
    case args_val t of
      None \<Rightarrow> v = None \<and> argc = 0 \<and> used_memory w' = used_memory w
    | Some vs \<Rightarrow> argc = length vs \<and>
        (\<exists>ss k. v = Some (map Some ss, k) \<and> (\<forall>s\<in>set ss. sds_inv s) \<and> map sds_val ss = vs))"
  using sdssplitargs_spec [of w t r] assms unfolding args_spec_def
  by (cases "args_val t") (auto elim!: wp_weaken)

theorem sdssplitargs_correct_witness:
  "wp False (sdssplitargs ([CHR 0x22] @ NUL # []) calm)
    (\<lambda>((v, argc), w'). v = None \<and> argc = 0 \<and> used_memory w' = 0)"
proof -
  have "args_val [CHR 0x22] = None"
    by code_simp
  with sdssplitargs_correct [of calm "[CHR 0x22]" "[]"] show ?thesis by simp
qed

text \<open>C34. \<open>sdssplitlen\<close> with a separator of at least one byte: the tokens joined with the separator are the
  string, no token contains the separator, \<open>*count\<close> is their number, NULL is returned only when memory is
  refused, and \<open>sdsfreesplitres\<close> gives back all that the call took. This includes the string of length 0, for which the
  comment at sds.c:669 announces NULL: the code returns a vector with a count of zero, that has to be freed.\<close>

theorem sdssplitlen_correct:
  assumes w: "zok w" and sep: "1 \<le> seplen" "nat seplen \<le> length sep"
    and len: "0 \<le> len" "nat len \<le> length s" "len < 2 ^ 30 - 1"
  shows "wp (may_oom w) (sdssplitlen s len sep seplen w) (\<lambda>((v, cnt), w').
    case v of None \<Rightarrow> null_possible w
    | Some (toks, slots) \<Rightarrow>
        cnt = Some (length toks) \<and> (toks = [] \<longleftrightarrow> len = 0) \<and> (\<forall>t\<in>set toks. sds_inv t) \<and>
        join_val (map sds_val toks) (take (nat seplen) sep) = take (nat len) s \<and>
        (\<forall>t\<in>set toks. \<not> occurs (take (nat seplen) sep) (sds_val t)) \<and>
        (\<exists>w''. sdsfreesplitres v (length toks) w' = Ok w'' \<and> used_memory w'' = used_memory w))"
proof -
  let ?sep = "take (nat seplen) sep"
  have "?sep \<noteq> []" using sep by auto
  then have occ: "\<not> occurs ?sep x" if "x \<in> set (split_val ?sep [] (take (nat len) s))" for x
    using that by (intro split_val_no_occ [of ?sep "[]" "take (nat len) s" x]) auto
  have join: "join_val (split_val ?sep [] (take (nat len) s)) ?sep = take (nat len) s"
    by (simp add: join_split_val)
  have len': "len < 1073741823" using len by simp
  show ?thesis
    using sdssplitlen_spec [OF w sep len(1,2) len'] unfolding split_spec_def
  proof (rule wp_weaken, goal_cases)
    case (2 x)
    obtain v cnt w' where x: "x = ((v, cnt), w')" by (cases x; cases "fst x") auto
    show ?case
    proof (cases v)
      case None
      with 2 x show ?thesis by simp
    next
      case (Some y)
      obtain toks slots where y: "y = (toks, slots)" by force
      with 2 x Some have z: "zext w w'" and t: "cnt = Some (length toks)" "\<forall>t\<in>set toks. sds_inv t"
        and vs: "map sds_val toks = (if len = 0 then [] else split_val ?sep [] (take (nat len) s))"
        and u: "used_memory w' = used_memory w - 0 + vec_cost w toks slots" by auto
      have "join_val (map sds_val toks) ?sep = take (nat len) s"
        unfolding vs using join by simp
      moreover from this have "toks = [] \<longleftrightarrow> len = 0" using vs len(1,2) by (cases toks) auto
      moreover have "\<not> occurs ?sep (sds_val a)" if "a \<in> set toks" for a
      proof -
        have "sds_val a \<in> set (map sds_val toks)" using that by simp
        then have "sds_val a \<in> set (split_val ?sep [] (take (nat len) s))" unfolding vs by (auto split: if_splits)
        then show ?thesis by (rule occ)
      qed
      ultimately show ?thesis
        using t u by (auto simp add: x Some y sdsfreesplitres_eq vec_cost_zext [OF z])
    qed
  qed simp
qed

theorem sdssplitlen_correct_witness:
  "wp False (sdssplitlen ''a,b'' 3 '','' 1 calm) (\<lambda>((v, cnt), w'). \<exists>toks slots. v = Some (toks, slots) \<and>
    cnt = Some (length toks) \<and> join_val (map sds_val toks) '','' = ''a,b'')"
  using sdssplitlen_correct [of calm 1 "'',''" 3 "''a,b''"]
  by (auto elim!: wp_weaken split: option.splits)

text \<open>\<open>sdscmp\<close> decides the lexicographic order of the byte strings: negative, zero or
  positive as the first is before, equal to or after the second.\<close>

theorem sdscmp_decides_order:
  assumes "sds_inv s1" "sds_inv s2" "sds_len s1 < 2 ^ 31" "sds_len s2 < 2 ^ 31"
  shows "\<exists>r. sdscmp s1 s2 = Ok r \<and> (r < 0 \<longleftrightarrow> sds_val s1 < sds_val s2) \<and>
    (r = 0 \<longleftrightarrow> sds_val s1 = sds_val s2) \<and> (r > 0 \<longleftrightarrow> sds_val s2 < sds_val s1)"
proof -
  obtain r where r: "sdscmp s1 s2 = Ok r" "r < 0 \<longleftrightarrow> sds_val s1 < sds_val s2" "r = 0 \<longleftrightarrow> sds_val s1 = sds_val s2"
    using sdscmp_spec [of s1 s2] assms by auto
  then have "r > 0 \<longleftrightarrow> sds_val s2 < sds_val s1"
    using linorder_less_linear [of r 0] linorder_less_linear [of "sds_val s1" "sds_val s2"] by auto
  with r show ?thesis by blast
qed

theorem sdscmp_decides_order_witness: "\<exists>r. sdscmp ab ab = Ok r \<and> \<not> r < 0 \<and> r = 0"
  using sdscmp_decides_order [of ab ab] by auto

text \<open>\<open>sdsll2str\<close> writes the decimal text of every long long except the least into the
  21 bytes its callers provide, terminated, and the text reads back as the number.\<close>

theorem sdsll2str_roundtrip:
  assumes "- (2 ^ 63) < i" "i < 2 ^ 63" "length b = SDS_LLSTR_SIZE"
  shows "\<exists>b' l. sdsll2str b i = Ok (b', l) \<and> length b' = SDS_LLSTR_SIZE \<and> l < SDS_LLSTR_SIZE \<and>
    length (cstring b') = l \<and> read_int (cstring b') = i"
proof -
  have l: "length (show_int i) \<le> 20" using assms by (intro length_show_int)
  have "NUL \<notin> set (show_int i)" by (simp add: show_int_def)
  with l assms cstring_written [of "show_int i" b] show ?thesis
    by (simp add: sdsll2str_spec SDS_LLSTR_SIZE_def read_int_show_int)
qed

theorem sdsll2str_roundtrip_witness:
  "\<exists>b' l. sdsll2str (replicate 21 NUL) (-305) = Ok (b', l) \<and> read_int (cstring b') = -305"
  using sdsll2str_roundtrip [of "-305" "replicate 21 NUL"] by (auto simp: SDS_LLSTR_SIZE_def)

text \<open>\<open>sdscatfmt\<close> appends exactly the text its format language gives to the format and
  the arguments, for strings, sds strings, signed and unsigned numbers of both widths and
  plain characters.\<close>

theorem sdscatfmt_appends:
  assumes "zok w" "\<not> null_possible w" "sds_inv s" "NUL \<notin> set f" "\<forall>a\<in>set args. arg_ok a"
    "fmt_val f args = Some out" "sds_len s + length out < 2 ^ 31 - 1"
  shows "sds_spec w (sds_cost w s) (sdscatfmt s (f @ NUL # r) args w) (\<lambda>s'. sds_val s' = sds_val s @ out)"
  using assms by (intro sdscatfmt_spec) simp_all

theorem sdscatfmt_appends_witness:
  "sds_spec calm (sds_cost calm ab) (sdscatfmt ab (''=%i!'' @ NUL # []) [Arg_int (-7)] calm)
     (\<lambda>s'. sds_val s' = ''ab=-7!'')"
proof -
  have "fmt_val ''=%i!'' [Arg_int (-7)] = Some ''=-7!''"
    by code_simp
  from sdscatfmt_appends [OF _ _ ab_simps(1) _ _ this, of calm "[]"] show ?thesis by simp
qed

text \<open>C35. \<open>sdsIncrLen\<close> moves the end of the string within its block, and its assertion stops
  exactly the increments that would leave it.\<close>

theorem sdsIncrLen_guarded:
  assumes "sds_inv s" "- (2 ^ 31) < incr" "incr < 2 ^ 31"
  shows "if - int (sds_len s) \<le> incr \<and> incr \<le> int (sds_free s)
    then \<exists>s'. sdsIncrLen s incr = Ok s' \<and> sds_inv s' \<and> int (sds_len s') = int (sds_len s) + incr \<and>
      sds_val s' = take (nat (int (sds_len s) + incr)) (sds_buf s)
    else sdsIncrLen s incr = Err Abort"
proof (cases "- int (sds_len s) \<le> incr \<and> incr \<le> int (sds_free s)")
  case True
  with sdsIncrLen_spec [of s incr] assms show ?thesis by auto
next
  case False
  with sdsIncrLen_abort [of s incr] assms show ?thesis by auto
qed

theorem sdsIncrLen_guarded_witness: "sdsIncrLen ab 1 = Err Abort"
  using sdsIncrLen_guarded [of ab 1] by (simp add: ab_def sds_inv_def)

text \<open>The growth policy: when the free room does not do, the new capacity is twice the
  length needed below one megabyte, and one megabyte more than it above.\<close>

theorem sdsMakeRoomFor_policy:
  assumes "zok w" "sds_inv s" "sds_len s + addlen < 2 ^ 31" "sds_free s < addlen"
  shows "wp (may_oom w) (sdsMakeRoomFor s addlen w) (\<lambda>(p, w'). \<forall>s'. p = Some s' \<longrightarrow>
    sds_len s' + sds_free s' = (if sds_len s + addlen < SDS_MAX_PREALLOC then (sds_len s + addlen) * 2
      else sds_len s + addlen + SDS_MAX_PREALLOC))"
  using sdsMakeRoomFor_size [of w s addlen] assms by simp

theorem sdsMakeRoomFor_policy_witness:
  "wp False (sdsMakeRoomFor ab 5 calm) (\<lambda>(p, w'). \<forall>s'. p = Some s' \<longrightarrow> sds_len s' + sds_free s' = 14)"
  using sdsMakeRoomFor_policy [of calm ab 5] by (simp add: ab_def sds_inv_def SDS_MAX_PREALLOC_def)

text \<open>A format that ends in a percent sign makes the loop of \<open>sdscatfmt\<close> read past its
  terminator.\<close>

theorem sdscatfmt_trailing_percent: "sdscatfmt ab (''%'' @ [NUL]) [] calm = Err Fault"
  by (simp add: sdscatfmt_def fmt_loop.simps load_def or_fault_def ab_def sdsMakeRoomFor_def sdsavail_def sdslen_def
      fmt_directive_def fmt_char_def no_ub_def store_def to_s32_def zrealloc_def malloc_def calm_def
      PREFIX_SIZE_def w64_def SDS_HDR_def SDS_MAX_PREALLOC_def sds_block_def)

end
