(* ===== verification/ZmallocProc.thy ===== *)
theory ZmallocProc
  imports Zmalloc Decimal
begin

text \<open>
  The functions of src/Clang/string/redis/zmalloc.c that read /proc and the size of the memory, in the
  build with HAVE_PROC_STAT and HAVE_PROC_SMAPS. What a file contains is an argument, \<open>None\<close> when it cannot
  be opened; so are the answers of \<open>sysconf\<close>.
\<close>

section \<open>The C library\<close>

text \<open>\<open>strchr\<close> from an offset of a block: the offset of the first match before the NUL.\<close>

definition strchr_from :: "string \<Rightarrow> nat \<Rightarrow> byte \<Rightarrow> nat option cres" where
  "strchr_from b i c =
     (let m = drop i b; k = length (takeWhile (\<lambda>x. x \<noteq> c \<and> x \<noteq> NUL) m) in
      if length m \<le> k then Err Fault else Ok (if m ! k = c then Some (i + k) else None))"

text \<open>\<open>strtoll\<close> and \<open>strtol\<close> to base 10: white space, a sign, digits, and the limits of 64 bits.\<close>

definition is_digit :: "byte \<Rightarrow> bool" where
  "is_digit c \<longleftrightarrow> 48 \<le> byte_val c \<and> byte_val c \<le> 57"

definition saturate :: "int \<Rightarrow> int" where
  "saturate i = max (- (2 ^ 63)) (min (2 ^ 63 - 1) i)"

definition strtol10 :: "string \<Rightarrow> int" where
  "strtol10 s =
     (let t = dropWhile isspace s;
          neg = (t \<noteq> [] \<and> hd t = CHR ''-'');
          t = (if t \<noteq> [] \<and> (hd t = CHR ''-'' \<or> hd t = CHR ''+'') then tl t else t);
          v = int (read_dec (takeWhile is_digit t)) in
      saturate (if neg then - v else v))"

text \<open>One call of \<open>fgets\<close>: at most \<open>n - 1\<close> bytes, up to and with the first end of a line.\<close>

definition line_end :: byte where "line_end = CHR 0x0A"

definition fgets_len :: "nat \<Rightarrow> string \<Rightarrow> nat" where
  "fgets_len n file = min (n - 1) (min (length file) (Suc (length (takeWhile (\<lambda>c. c \<noteq> line_end) file))))"

section \<open>The resident set\<close>

definition RSS_FIELD :: nat where "RSS_FIELD = 23"

fun skip_fields :: "string \<Rightarrow> nat option \<Rightarrow> nat \<Rightarrow> nat option cres" where
  "skip_fields b None n = Ok None"
| "skip_fields b (Some p) 0 = Ok (Some p)"
| "skip_fields b (Some p) (Suc n) =
     res_bind (strchr_from b p (CHR '' '')) (\<lambda>q. skip_fields b (map_option Suc q) n)"

definition STAT_SIZE :: nat where "STAT_SIZE = 4096"

definition zmalloc_get_rss :: "string option \<Rightarrow> int \<Rightarrow> 'a world_scheme \<Rightarrow> nat cres" where
  "zmalloc_get_rss stat page w =
     (case stat of None \<Rightarrow> Ok 0
      | Some file \<Rightarrow>
          if file = [] then Ok 0
          else
            res_bind (memcpy (fresh w STAT_SIZE) 0 (take STAT_SIZE file) (length (take STAT_SIZE file))) (\<lambda>buf.
            res_bind (skip_fields buf (Some 0) RSS_FIELD) (\<lambda>p.
            case p of None \<Rightarrow> Ok 0
            | Some p \<Rightarrow>
                res_bind (strchr_from buf p (CHR '' '')) (\<lambda>x.
                case x of None \<Rightarrow> Ok 0
                | Some x \<Rightarrow>
                    res_bind (store buf x NUL) (\<lambda>buf.
                    Ok (w64 (to_u64 (strtol10 (cstring (drop p buf))) * to_u64 page)))))))"

section \<open>Sums over smaps\<close>

definition SMAPS_LINE :: nat where "SMAPS_LINE = 1024"

text \<open>
  What one line adds: \<open>line\<close> is the buffer with its NUL. The product is a signed one: beyond 64 bits it is undefined.
\<close>

definition smaps_line :: "string \<Rightarrow> string \<Rightarrow> nat cres" where
  "smaps_line field line =
     (if take (length field) (cstring line) = field then
        res_bind (strchr_from line 0 (CHR ''k'')) (\<lambda>p.
        case p of None \<Rightarrow> Ok 0
        | Some p \<Rightarrow>
            res_bind (store line p NUL) (\<lambda>line.
            let v = strtol10 (cstring (drop (length field) line)) * 1024 in
            if saturate v = v then Ok (to_u64 v) else Err Fault))
      else Ok 0)"

function smaps_loop :: "string \<Rightarrow> string \<Rightarrow> nat \<Rightarrow> nat cres" where
  "smaps_loop field file bytes =
     (if file = [] then Ok bytes
      else
        let k = fgets_len SMAPS_LINE file in
        res_bind (smaps_line field (take k file @ [NUL])) (\<lambda>n. smaps_loop field (drop k file) (w64 (bytes + n))))"
  by pat_completeness auto
termination
  by (relation "measure (\<lambda>(field, file, bytes). length file)") (auto simp: fgets_len_def SMAPS_LINE_def)

declare smaps_loop.simps [simp del]

definition zmalloc_get_smap_bytes_by_field :: "string option \<Rightarrow> string \<Rightarrow> nat cres" where
  "zmalloc_get_smap_bytes_by_field smaps field =
     (case smaps of None \<Rightarrow> Ok 0 | Some file \<Rightarrow> smaps_loop field file 0)"

definition zmalloc_get_private_dirty :: "string option \<Rightarrow> nat cres" where
  "zmalloc_get_private_dirty smaps = zmalloc_get_smap_bytes_by_field smaps ''Private_Dirty:''"

definition zmalloc_get_memory_size :: "int \<Rightarrow> int \<Rightarrow> nat" where
  "zmalloc_get_memory_size phys_pages page = w64 (to_u64 phys_pages * to_u64 page)"

section \<open>What they compute\<close>

lemma strchr_from_hit:
  assumes "c \<notin> set f" "NUL \<notin> set f" "length pre = i"
  shows "strchr_from (pre @ f @ c # rest) i c = Ok (Some (i + length f))"
proof -
  have "takeWhile (\<lambda>x. x \<noteq> c \<and> x \<noteq> NUL) (f @ c # rest) = f"
    using assms(1,2) by (subst takeWhile_append2) auto
  then show ?thesis using assms(3) by (auto simp: strchr_from_def Let_def)
qed

lemma skip_fields_eq:
  "\<forall>f \<in> set fs. CHR '' '' \<notin> set f \<and> NUL \<notin> set f \<Longrightarrow>
   skip_fields (pre @ concat (map (\<lambda>f. f @ '' '') fs) @ rest) (Some (length pre)) (length fs)
     = Ok (Some (length pre + length (concat (map (\<lambda>f. f @ '' '') fs))))"
proof (induction fs arbitrary: pre)
  case (Cons f fs)
  have "strchr_from (pre @ f @ CHR '' '' # concat (map (\<lambda>f. f @ '' '') fs) @ rest) (length pre) (CHR '' '') = Ok (Some (length pre + length f))"
    using Cons.prems by (intro strchr_from_hit) auto
  moreover have "skip_fields ((pre @ f @ '' '') @ concat (map (\<lambda>f. f @ '' '') fs) @ rest) (Some (length (pre @ f @ '' ''))) (length fs)
     = Ok (Some (length (pre @ f @ '' '') + length (concat (map (\<lambda>f. f @ '' '') fs))))"
    using Cons.prems by (intro Cons.IH) simp
  ultimately show ?case by (simp add: add.assoc)
qed simp

lemma is_digit_char: "d < 10 \<Longrightarrow> is_digit (digit_char d)"
  by (simp add: is_digit_def)

lemma dec_digits: "c \<in> set (dec n) \<Longrightarrow> is_digit c"
proof (induction n rule: dec.induct)
  case (1 n)
  have "c \<in> set (if n < 10 then [digit_char n] else dec (n div 10) @ [digit_char (n mod 10)])"
    using 1(2) by (subst (asm) dec.simps)
  then show ?case using 1(1) is_digit_char [of n] is_digit_char [of "n mod 10"] by (auto split: if_splits)
qed

lemma digit_facts: "is_digit c \<Longrightarrow> \<not> isspace c \<and> c \<noteq> CHR ''-'' \<and> c \<noteq> CHR ''+'' \<and> c \<noteq> NUL \<and> c \<noteq> CHR '' '' \<and> c \<noteq> CHR ''k'' \<and> c \<noteq> line_end"
  by (auto simp: is_digit_def isspace_def line_end_def byte_val_def)

lemma strtol10_dec:
  assumes "\<forall>c \<in> set sp. isspace c" "n < 2 ^ 63" "rest = [] \<or> \<not> is_digit (hd rest)"
  shows "strtol10 (sp @ dec n @ rest) = int n"
proof -
  obtain c cs where d: "dec n = c # cs" by (cases "dec n") simp_all
  have dig: "is_digit x" if "x \<in> set (dec n)" for x using that by (rule dec_digits)
  then have c: "is_digit c" by (simp add: d)
  have "dropWhile isspace (sp @ dec n @ rest) = dec n @ rest"
    using assms(1) digit_facts [OF c] by (simp add: dropWhile_append2 d)
  moreover have "takeWhile is_digit (dec n @ rest) = dec n"
    using assms(3) dig by (cases rest) (simp_all add: takeWhile_append2 takeWhile_tail)
  ultimately show ?thesis
    using digit_facts [OF c] assms(2)
    by (simp add: strtol10_def Let_def d [symmetric] read_dec_dec saturate_def) (simp add: d)
qed

text \<open>The resident set is the 24th field of the stat file times the page size, whatever stands in the other
  fields as long as they have no spaces, and the bytes behind what was read do not matter.\<close>

theorem zmalloc_get_rss_field:
  assumes "\<forall>f \<in> set fs. CHR '' '' \<notin> set f \<and> NUL \<notin> set f" "length fs = RSS_FIELD" "n < 2 ^ 63"
    and "file = concat (map (\<lambda>f. f @ '' '') fs) @ dec n @ '' '' @ rest"
    and "length (concat (map (\<lambda>f. f @ '' '') fs) @ dec n) < STAT_SIZE"
  shows "zmalloc_get_rss (Some file) page w = Ok (w64 (n * to_u64 page))"
proof -
  define a where "a = concat (map (\<lambda>f. f @ '' '') fs)"
  define r where "r = take (STAT_SIZE - length (a @ dec n @ '' '')) rest
      @ drop (length (take STAT_SIZE file)) (fresh w STAT_SIZE)"
  have len: "length (a @ dec n) < STAT_SIZE" using assms(5) by (simp add: a_def)
  have t: "take STAT_SIZE file = a @ dec n @ '' '' @ take (STAT_SIZE - length (a @ dec n @ '' '')) rest"
    using len assms(4) by (simp add: a_def [symmetric] take_Cons')
  have buf: "memcpy (fresh w STAT_SIZE) 0 (take STAT_SIZE file) (length (take STAT_SIZE file)) = Ok (a @ dec n @ '' '' @ r)"
  proof -
    have m: "memcpy (fresh w STAT_SIZE) 0 x (length x) = Ok (x @ drop (length x) (fresh w STAT_SIZE))" if "length x \<le> STAT_SIZE" for x
      using memcpy_whole [of 0 x "fresh w STAT_SIZE"] that by (simp add: overwrite_0)
    have "length (take STAT_SIZE file) \<le> STAT_SIZE" by simp
    from m [OF this] show ?thesis unfolding r_def by (simp only: t append.assoc append_Cons append_Nil)
  qed
  have skip: "skip_fields (a @ dec n @ '' '' @ r) (Some 0) RSS_FIELD = Ok (Some (length a))"
    using skip_fields_eq [of fs "[]" "dec n @ '' '' @ r"] assms(1,2) by (simp add: a_def)
  have nodig: "CHR '' '' \<notin> set (dec n)" "NUL \<notin> set (dec n)"
    using dec_digits [of _ n] digit_facts by blast+
  have hit: "strchr_from (a @ dec n @ '' '' @ r) (length a) (CHR '' '') = Ok (Some (length a + length (dec n)))"
    using strchr_from_hit [OF nodig, of a "length a" r] by simp
  have st: "store (a @ dec n @ '' '' @ r) (length a + length (dec n)) NUL = Ok (a @ dec n @ NUL # r)"
    by (simp add: store_def list_update_append)
  have "strtol10 (dec n) = int n" using strtol10_dec [of "[]" n "[]"] assms(3) by simp
  then have num: "to_u64 (strtol10 (cstring (drop (length a) (a @ dec n @ NUL # r)))) = n"
    using assms(3) nodig(2) by (simp add: to_u64_id)
  have "file \<noteq> []" using assms(4) by simp
  then show ?thesis
    by (simp only: zmalloc_get_rss_def option.case if_False buf skip hit st res_bind.simps num)
qed

text \<open>
  The lines of smaps: sizes in kB after the name of a field, and lines that are not sizes: the range, the rights and the
  file of a mapping, its flags, and what else a kernel may print.
\<close>

datatype smaps_item = Size_line string nat nat | Other_line string

fun smaps_text :: "smaps_item \<Rightarrow> string" where
  "smaps_text (Size_line name pad n) = name @ '':'' @ replicate pad (CHR '' '') @ dec n @ '' kB'' @ [line_end]"
| "smaps_text (Other_line t) = t @ [line_end]"

fun smaps_kB :: "string \<Rightarrow> smaps_item \<Rightarrow> nat" where
  "smaps_kB f (Size_line name pad n) = (if name = f then n else 0)"
| "smaps_kB f (Other_line t) = 0"

text \<open>Of a line that is no size of a field, only its beginning matters.\<close>

definition smaps_ok :: "string \<Rightarrow> smaps_item \<Rightarrow> bool" where
  "smaps_ok f e \<longleftrightarrow> NUL \<notin> set (smaps_text e) \<and> length (smaps_text e) < SMAPS_LINE \<and> (case e of
     Size_line name pad n \<Rightarrow> CHR '':'' \<notin> set name \<and> line_end \<notin> set name \<and> n < 2 ^ 53
   | Other_line t \<Rightarrow> line_end \<notin> set t \<and> take (length (f @ '':'')) t \<noteq> f @ '':'')"

lemma smaps_cstring: "smaps_ok f e \<Longrightarrow> cstring (smaps_text e @ [NUL]) = smaps_text e"
  unfolding smaps_ok_def cstring_append_NUL by (rule cstring_id) blast

lemma smaps_fgets:
  assumes "smaps_ok f e"
  shows "fgets_len SMAPS_LINE (smaps_text e @ rest) = length (smaps_text e)"
proof -
  define t where "t = butlast (smaps_text e)"
  have e: "smaps_text e = t @ [line_end]" by (cases e) (simp_all add: t_def butlast_append)
  have "line_end \<notin> set t"
    using assms digit_facts dec_digits by (cases e) (auto simp: smaps_ok_def t_def butlast_append line_end_def)
  then have "takeWhile (\<lambda>c. c \<noteq> line_end) (t @ line_end # rest) = t"
    by (subst takeWhile_append2) auto
  moreover have "length (smaps_text e) < SMAPS_LINE" using assms by (simp add: smaps_ok_def)
  ultimately show ?thesis by (simp add: fgets_len_def e)
qed

lemma smaps_match:
  assumes "CHR '':'' \<notin> set f" "CHR '':'' \<notin> set name"
  shows "take (length (f @ '':'')) (name @ CHR '':'' # r) = f @ '':'' \<longleftrightarrow> name = f"
proof
  assume a: "take (length (f @ '':'')) (name @ CHR '':'' # r) = f @ '':''"
  then have "name @ CHR '':'' # r = f @ CHR '':'' # drop (length (f @ '':'')) (name @ CHR '':'' # r)"
    by (metis append_take_drop_id append.assoc append_Cons append_Nil)
  then show "name = f"
    using assms by (auto simp: append_eq_append_conv2 Cons_eq_append_conv append_eq_Cons_conv)
qed simp

lemma smaps_line_size:
  assumes "smaps_ok f (Size_line name pad n)" "CHR '':'' \<notin> set f"
  shows "smaps_line (f @ '':'') (smaps_text (Size_line name pad n) @ [NUL]) = Ok (if name = f then n * 1024 else 0)"
proof -
  let ?line = "smaps_text (Size_line name pad n) @ [NUL]"
  have c: "cstring ?line = smaps_text (Size_line name pad n)"
    using assms(1) by (rule smaps_cstring)
  have m: "take (length (f @ '':'')) (smaps_text (Size_line name pad n)) = f @ '':'' \<longleftrightarrow> name = f"
    using smaps_match [OF assms(2), of name] assms(1) by (simp add: smaps_ok_def)
  show ?thesis
  proof (cases "name = f")
    case False
    then show ?thesis unfolding smaps_line_def c using m by simp
  next
    case True
    define sp where "sp = replicate pad (CHR '' '')"
    define hd' where "hd' = f @ '':''"
    have line: "?line = hd' @ sp @ dec n @ '' kB'' @ [line_end, NUL]"
      by (simp add: True sp_def hd'_def)
    have nodig: "CHR ''k'' \<notin> set (sp @ dec n @ '' '')" "NUL \<notin> set (hd' @ sp @ dec n @ '' '')"
      using digit_facts dec_digits [of _ n] assms(1) True by (auto simp: sp_def hd'_def smaps_ok_def)
    have n53: "n < 2 ^ 53" using assms(1) by (simp add: smaps_ok_def)
    then have n63: "n < 2 ^ 63" by (rule less_trans) simp
    have num: "strtol10 (sp @ dec n @ r) = int n" if "r = [] \<or> \<not> is_digit (hd r)" for r
      using strtol10_dec [of sp n r] n63 that by (simp add: sp_def isspace_def byte_val_def)
    have sp_nd: "\<not> is_digit (CHR '' '')" by (simp add: is_digit_def byte_val_def)
    have val: "to_u64 (int n * 1024) = n * 1024" using n53 by (simp add: to_u64_id)
    have sat: "saturate (int n * 1024) = int n * 1024" using n53 by (simp add: saturate_def)
    have "\<exists>p. strchr_from ?line 0 (CHR ''k'') = Ok (Some p) \<and> p < length ?line \<and>
        strtol10 (cstring (drop (length hd') (?line[p := NUL]))) = int n"
    proof (cases "CHR ''k'' \<in> set hd'")
      case True
      then obtain a b where ab: "hd' = a @ CHR ''k'' # b" "CHR ''k'' \<notin> set a" by (auto dest: split_list_first)
      have "strchr_from ([] @ a @ CHR ''k'' # b @ sp @ dec n @ '' kB'' @ [line_end, NUL]) 0 (CHR ''k'') = Ok (Some (0 + length a))"
        using ab nodig(2) by (intro strchr_from_hit) auto
      then have hit: "strchr_from ?line 0 (CHR ''k'') = Ok (Some (length a))"
        unfolding line ab(1) by simp
      have "length a < length hd'" using ab(1) by simp
      then have "drop (length hd') (?line[length a := NUL]) = sp @ dec n @ '' kB'' @ [line_end] @ NUL # []"
        unfolding line by (simp add: list_update_append)
      moreover have "NUL \<notin> set (sp @ dec n @ '' kB'' @ [line_end])" using nodig(2) by (auto simp: line_end_def)
      ultimately have "cstring (drop (length hd') (?line[length a := NUL])) = sp @ dec n @ '' kB'' @ [line_end]"
        using cstring_append_NUL [of "sp @ dec n @ '' kB'' @ [line_end]" "[]"] by simp
      then show ?thesis using hit num [of "'' kB'' @ [line_end]"] sp_nd \<open>length a < length hd'\<close>
        by (intro exI [of _ "length a"]) (simp add: line del: smaps_text.simps)
    next
      case False
      let ?p = "length (hd' @ sp @ dec n @ '' '')"
      have "strchr_from ([] @ (hd' @ sp @ dec n @ '' '') @ CHR ''k'' # ''B'' @ [line_end, NUL]) 0 (CHR ''k'') = Ok (Some (0 + ?p))"
        using False nodig by (intro strchr_from_hit) auto
      then have hit: "strchr_from ?line 0 (CHR ''k'') = Ok (Some ?p)"
        unfolding line by simp
      have "?line[?p := NUL] = hd' @ (sp @ dec n @ '' '') @ NUL # ''B'' @ [line_end, NUL]"
        unfolding line by (simp add: list_update_append)
      then have "drop (length hd') (?line[?p := NUL]) = (sp @ dec n @ '' '') @ NUL # ''B'' @ [line_end, NUL]"
        by simp
      then have "cstring (drop (length hd') (?line[?p := NUL])) = sp @ dec n @ '' ''"
        using nodig(2) cstring_append_NUL [of "sp @ dec n @ '' ''" "''B'' @ [line_end, NUL]"] by simp
      then show ?thesis using hit num [of "'' ''"] sp_nd
        by (intro exI [of _ ?p]) (simp add: line del: smaps_text.simps)
    qed
    then obtain p where "strchr_from ?line 0 (CHR ''k'') = Ok (Some p)" "p < length ?line"
        "strtol10 (cstring (drop (length hd') (?line[p := NUL]))) = int n" by blast
    then show ?thesis
      using m True val sat unfolding smaps_line_def c hd'_def [symmetric] by (simp add: store_def)
  qed
qed

lemma smaps_line_eq:
  assumes "smaps_ok f e" "CHR '':'' \<notin> set f"
  shows "smaps_line (f @ '':'') (smaps_text e @ [NUL]) = Ok (smaps_kB f e * 1024)"
proof (cases e)
  case (Size_line name pad n)
  then show ?thesis using smaps_line_size [of f name pad n] assms by simp
next
  case (Other_line t)
  have c: "cstring (smaps_text e @ [NUL]) = smaps_text e" using assms(1) by (rule smaps_cstring)
  have "take (length (f @ '':'')) (t @ [line_end]) \<noteq> f @ '':''"
  proof (cases "length (f @ '':'') \<le> length t")
    case True
    then show ?thesis using assms(1) by (simp add: smaps_ok_def Other_line)
  next
    case False
    then show ?thesis by (simp add: line_end_def)
  qed
  then show ?thesis using c by (simp add: smaps_line_def Other_line)
qed

text \<open>C39. The sum over smaps adds exactly the sizes of the lines of the field, in bytes, whatever other lines stand
  between them: the header of each mapping, other fields, flags. This holds also for fields with a k in their name, where the
  test for the unit finds that letter first. Every line has to fit the buffer of 1024 bytes: of a longer one, the
  header of a mapping with a long path, the rest is taken for a line of its own.\<close>

theorem zmalloc_get_smap_bytes_sum:
  assumes "\<forall>e \<in> set es. smaps_ok f e" "CHR '':'' \<notin> set f"
  shows "zmalloc_get_smap_bytes_by_field (Some (concat (map smaps_text es))) (f @ '':'') =
    Ok (w64 (sum_list (map (\<lambda>e. smaps_kB f e * 1024) es)))"
proof -
  have "smaps_loop (f @ '':'') (concat (map smaps_text es)) bytes =
      Ok (w64 (bytes + sum_list (map (\<lambda>e. smaps_kB f e * 1024) es)))"
    if "w64 bytes = bytes" for bytes
    using assms(1) that
  proof (induction es arbitrary: bytes)
    case Nil
    then show ?case by (simp add: smaps_loop.simps)
  next
    case (Cons e es)
    let ?v = "smaps_kB f e * 1024"
    have k: "fgets_len SMAPS_LINE (smaps_text e @ concat (map smaps_text es)) = length (smaps_text e)"
      using Cons.prems(1) by (intro smaps_fgets [of f]) simp
    have l: "smaps_line (f @ '':'') (smaps_text e @ [NUL]) = Ok ?v"
      using Cons.prems(1) assms(2) by (intro smaps_line_eq) simp_all
    have ne: "smaps_text e \<noteq> []" by (cases e) simp_all
    have "smaps_loop (f @ '':'') (concat (map smaps_text (e # es))) bytes
        = smaps_loop (f @ '':'') (concat (map smaps_text es)) (w64 (bytes + ?v))"
      using k l ne by (subst smaps_loop.simps) (simp add: Let_def)
    also have "\<dots> = Ok (w64 (w64 (bytes + ?v) + sum_list (map (\<lambda>e. smaps_kB f e * 1024) es)))"
      using Cons.prems(1) by (intro Cons.IH) (simp_all add: w64_def)
    finally show ?case by (simp add: w64_def mod_add_left_eq add.assoc)
  qed
  then show ?thesis by (simp add: zmalloc_get_smap_bytes_by_field_def w64_def)
qed

section \<open>Witnesses\<close>

theorem zmalloc_get_rss_field_witness:
  "zmalloc_get_rss (Some (concat (map (\<lambda>f. f @ '' '') (replicate 23 ''7'')) @ dec 5 @ '' '' @ ''0'')) 4096 quiet = Ok 20480"
  using zmalloc_get_rss_field [of "replicate 23 ''7''" 5 _ "''0''" 4096 quiet]
  by (simp add: RSS_FIELD_def STAT_SIZE_def w64_def to_u64_def dec.simps length_concat sum_list_replicate)

text \<open>The beginning of the smaps of a process, as Linux prints it.\<close>

definition smaps_file :: "smaps_item list" where
  "smaps_file =
    [Other_line ''00400000-004ef000 r-xp 00000000 fd:00 1048 /usr/bin/redis'',
     Size_line ''Size'' 16 956, Size_line ''KernelPageSize'' 8 4, Size_line ''Rss'' 17 728,
     Size_line ''Private_Dirty'' 8 12, Size_line ''Locked'' 18 0, Other_line ''THPeligible:    0'',
     Other_line ''VmFlags: rd ex mr mw me sd'',
     Other_line ''7ffc2000-7ffe3000 rw-p 00000000 00:00 0 [stack]'',
     Size_line ''Size'' 16 132, Size_line ''Rss'' 17 24, Size_line ''Private_Dirty'' 8 24,
     Other_line ''VmFlags: rd wr mr mw me gd ac'']"

theorem zmalloc_get_smap_bytes_sum_witness:
  "zmalloc_get_smap_bytes_by_field (Some (concat (map smaps_text smaps_file))) (''Private_Dirty'' @ '':'') = Ok 36864"
proof -
  have "\<forall>e \<in> set smaps_file. smaps_ok ''Private_Dirty'' e"
    by (simp add: smaps_file_def smaps_ok_def SMAPS_LINE_def line_end_def dec.simps digit_not_NUL [symmetric])
  from zmalloc_get_smap_bytes_sum [OF this] show ?thesis
    by (simp add: smaps_file_def w64_def del: append_Cons append.simps)
qed

end
