(* ===== verification/DynString.thy ===== *)
theory DynString
  imports CMem
begin

text \<open>
  The string buffer of src/Clang/string/ovs/dynamic-string.c and dynamic-string.h. A
  \<open>struct ds\<close> is its three fields, \<open>string\<close> being the block the pointer stands for. A
  failed allocation ends the process (\<open>Abort\<close>); a stream is the list of the bytes left
  to read, and text for the standard output is collected in a list.
\<close>

section \<open>State\<close>

record ds =
  ds_string :: "string option"
  ds_length :: nat
  ds_allocated :: nat

type_synonym ds_result = "(ds \<times> world) cres"

definition ds_init :: ds where
  "ds_init = \<lparr>ds_string = None, ds_length = 0, ds_allocated = 0\<rparr>"

definition ds_clear :: "ds \<Rightarrow> ds" where
  "ds_clear d = d\<lparr>ds_length := 0\<rparr>"

text \<open>A store through \<open>ds->string\<close>, which faults when it is NULL.\<close>

definition ds_store :: "ds \<Rightarrow> nat \<Rightarrow> byte \<Rightarrow> ds cres" where
  "ds_store d i c =
     (case ds_string d of None \<Rightarrow> Err Fault
      | Some b \<Rightarrow> res_bind (store b i c) (\<lambda>b. Ok (d\<lparr>ds_string := Some b\<rparr>)))"

definition ds_load :: "ds \<Rightarrow> nat \<Rightarrow> byte cres" where
  "ds_load d i = (case ds_string d of None \<Rightarrow> Err Fault | Some b \<Rightarrow> load b i)"

definition ds_truncate :: "ds \<Rightarrow> nat \<Rightarrow> ds cres" where
  "ds_truncate d new_length =
     (if ds_length d > new_length then ds_store (d\<lparr>ds_length := new_length\<rparr>) new_length NUL else Ok d)"

definition ds_reserve :: "ds \<Rightarrow> nat \<Rightarrow> world \<Rightarrow> ds_result" where
  "ds_reserve d min_length w =
     (if min_length > ds_allocated d \<or> ds_string d = None then
        let al = w64 (ds_allocated d + max min_length (ds_allocated d));
            al = max 8 al;
            sz = (if w64 (al + 1) \<noteq> 0 then w64 (al + 1) else 1);
            (ok, w) = malloc w in
        if ok then
          Ok (d\<lparr>ds_allocated := al,
                ds_string := Some (resize w (case ds_string d of None \<Rightarrow> [] | Some b \<Rightarrow> b) sz)\<rparr>, w)
        else Err Abort
      else Ok (d, w))"

section \<open>Appending\<close>

text \<open>The pointer that \<open>ds_put_uninit\<close> returns is given by its offset in the string.\<close>

definition ds_put_uninit :: "ds \<Rightarrow> nat \<Rightarrow> world \<Rightarrow> ((ds \<times> nat) \<times> world) cres" where
  "ds_put_uninit d n w =
     res_bind (ds_reserve d (w64 (ds_length d + n)) w) (\<lambda>(d, w).
     res_bind (ds_store (d\<lparr>ds_length := w64 (ds_length d + n)\<rparr>) (w64 (ds_length d + n)) NUL) (\<lambda>d.
     Ok ((d, sub64 (ds_length d) n), w)))"

text \<open>The source's \<open>ds_put_char\<close> with two underscores at the end of its name.\<close>

definition ds_put_char_slow :: "ds \<Rightarrow> byte \<Rightarrow> world \<Rightarrow> ds_result" where
  "ds_put_char_slow d c w =
     res_bind (ds_put_uninit d 1 w) (\<lambda>((d, p), w). res_bind (ds_store d p c) (\<lambda>d. Ok (d, w)))"

definition ds_put_char :: "ds \<Rightarrow> byte \<Rightarrow> world \<Rightarrow> ds_result" where
  "ds_put_char d c w =
     (if ds_length d < ds_allocated d then
        res_bind (ds_store d (ds_length d) c) (\<lambda>d.
        res_bind (ds_store (d\<lparr>ds_length := ds_length d + 1\<rparr>) (ds_length d + 1) NUL) (\<lambda>d. Ok (d, w)))
      else ds_put_char_slow d c w)"

text \<open>The conversion of an int to char.\<close>

definition char_of_int :: "int \<Rightarrow> byte" where
  "char_of_int i = char_of (nat (i mod 256))"

function ds_put_utf8 :: "ds \<Rightarrow> int \<Rightarrow> world \<Rightarrow> ds_result" where
  "ds_put_utf8 d uc w =
     (if uc \<le> 0x7f then ds_put_char d (char_of_int uc) w
      else if uc \<le> 0x7ff then
        res_bind (ds_put_char d (char_of_int (0xc0 OR drop_bit 6 uc)) w) (\<lambda>(d, w).
        ds_put_char d (char_of_int (0x80 OR (uc AND 0x3f))) w)
      else if uc \<le> 0xffff then
        res_bind (ds_put_char d (char_of_int (0xe0 OR drop_bit 12 uc)) w) (\<lambda>(d, w).
        res_bind (ds_put_char d (char_of_int (0x80 OR (drop_bit 6 uc AND 0x3f))) w) (\<lambda>(d, w).
        ds_put_char d (char_of_int (0x80 OR (uc AND 0x3f))) w))
      else if uc \<le> 0x10ffff then
        res_bind (ds_put_char d (char_of_int (0xf0 OR drop_bit 18 uc)) w) (\<lambda>(d, w).
        res_bind (ds_put_char d (char_of_int (0x80 OR (drop_bit 12 uc AND 0x3f))) w) (\<lambda>(d, w).
        res_bind (ds_put_char d (char_of_int (0x80 OR (drop_bit 6 uc AND 0x3f))) w) (\<lambda>(d, w).
        ds_put_char d (char_of_int (0x80 OR (uc AND 0x3f))) w)))
      else ds_put_utf8 d 0xfffd w)"
  by pat_completeness auto
termination
  by (relation "measure (\<lambda>(d, uc, w). nat (uc - 0x10ffff))") auto

declare ds_put_utf8.simps [simp del]

text \<open>\<open>memcpy\<close> and \<open>memset\<close> to an offset of the string.\<close>

definition ds_memcpy :: "ds \<Rightarrow> nat \<Rightarrow> string \<Rightarrow> nat \<Rightarrow> ds cres" where
  "ds_memcpy d p s n =
     (case ds_string d of None \<Rightarrow> Err Fault
      | Some b \<Rightarrow> res_bind (memcpy b p s n) (\<lambda>b. Ok (d\<lparr>ds_string := Some b\<rparr>)))"

definition ds_put_char_multiple :: "ds \<Rightarrow> byte \<Rightarrow> nat \<Rightarrow> world \<Rightarrow> ds_result" where
  "ds_put_char_multiple d c n w =
     res_bind (ds_put_uninit d n w) (\<lambda>((d, p), w).
     case ds_string d of None \<Rightarrow> Err Fault
     | Some b \<Rightarrow> res_bind (memset b p c n) (\<lambda>b. Ok (d\<lparr>ds_string := Some b\<rparr>, w)))"

definition ds_put_buffer :: "ds \<Rightarrow> string \<Rightarrow> nat \<Rightarrow> world \<Rightarrow> ds_result" where
  "ds_put_buffer d s n w =
     res_bind (ds_put_uninit d n w) (\<lambda>((d, p), w). res_bind (ds_memcpy d p s n) (\<lambda>d. Ok (d, w)))"

definition ds_put_cstr :: "ds \<Rightarrow> string \<Rightarrow> world \<Rightarrow> ds_result" where
  "ds_put_cstr d s w =
     res_bind (strlen s) (\<lambda>s_len.
     res_bind (ds_put_uninit d s_len w) (\<lambda>((d, p), w).
     res_bind (ds_memcpy d p s s_len) (\<lambda>d. Ok (d, w))))"

definition ds_put_and_free_cstr :: "ds \<Rightarrow> string \<Rightarrow> world \<Rightarrow> ds_result" where
  "ds_put_and_free_cstr d s w = ds_put_cstr d s w"

text \<open>
  \<open>out\<close> is the text the format and its arguments render to; \<open>needed\<close> is its length, an
  int that is compared with a size_t.
\<close>

definition ds_vsnprintf :: "ds \<Rightarrow> nat \<Rightarrow> string \<Rightarrow> (ds \<times> nat) cres" where
  "ds_vsnprintf d available out =
     res_bind (no_ub (length out < 2 ^ 31)) (\<lambda>_.
     case ds_string d of
       None \<Rightarrow> if available = 0 then Ok (d, length out) else Err Fault
     | Some b \<Rightarrow>
         res_bind (vsnprintf b (ds_length d) available out) (\<lambda>b.
         Ok (d\<lparr>ds_string := Some b\<rparr>, length out)))"

definition ds_put_format_valist :: "ds \<Rightarrow> string \<Rightarrow> world \<Rightarrow> ds_result" where
  "ds_put_format_valist d out w =
     (let available = (if ds_string d \<noteq> None then w64 (sub64 (ds_allocated d) (ds_length d) + 1) else 0) in
      res_bind (ds_vsnprintf d available out) (\<lambda>(d, needed).
      if needed < available then Ok (d\<lparr>ds_length := w64 (ds_length d + needed)\<rparr>, w)
      else
        res_bind (ds_reserve d (w64 (ds_length d + needed)) w) (\<lambda>(d, w).
        let available = w64 (sub64 (ds_allocated d) (ds_length d) + 1) in
        res_bind (ds_vsnprintf d available out) (\<lambda>(d, needed).
        res_bind (assert_that (needed < available)) (\<lambda>_.
        Ok (d\<lparr>ds_length := w64 (ds_length d + needed)\<rparr>, w))))))"

definition ds_put_format :: "ds \<Rightarrow> string \<Rightarrow> world \<Rightarrow> ds_result" where
  "ds_put_format d out w = ds_put_format_valist d out w"

text \<open>The backslash escape with three octal digits.\<close>

definition octal_escape :: "byte \<Rightarrow> string" where
  "octal_escape c =
     [CHR 0x5C, hex_char (byte_val c div 64), hex_char (byte_val c div 8 mod 8), hex_char (byte_val c mod 8)]"

fun ds_printable_loop :: "ds \<Rightarrow> string \<Rightarrow> nat \<Rightarrow> world \<Rightarrow> ds_result" where
  "ds_printable_loop d s 0 w = Ok (d, w)"
| "ds_printable_loop d s (Suc n) w =
     (case s of [] \<Rightarrow> Err Fault
      | c # s \<Rightarrow>
        res_bind (if byte_val c < 0x20 \<or> byte_val c > 0x7e \<or> c = CHR 0x5C \<or> c = CHR 0x22
                  then ds_put_format d (octal_escape c) w
                  else ds_put_char d c w) (\<lambda>(d, w). ds_printable_loop d s n w))"

definition ds_put_printable :: "ds \<Rightarrow> string \<Rightarrow> nat \<Rightarrow> world \<Rightarrow> ds_result" where
  "ds_put_printable d s n w =
     res_bind (ds_reserve d (w64 (ds_length d + n)) w) (\<lambda>(d, w). ds_printable_loop d s n w)"

section \<open>The string as a C string\<close>

definition ds_cstr :: "ds \<Rightarrow> world \<Rightarrow> ds_result" where
  "ds_cstr d w =
     res_bind (if ds_string d = None then ds_reserve d 0 w else Ok (d, w)) (\<lambda>(d, w).
     res_bind (ds_store d (ds_length d) NUL) (\<lambda>d. Ok (d, w)))"

definition ds_cstr_ro :: "ds \<Rightarrow> world \<Rightarrow> ds_result" where
  "ds_cstr_ro d w = ds_cstr d w"

definition ds_steal_cstr :: "ds \<Rightarrow> world \<Rightarrow> ((string option \<times> ds) \<times> world) cres" where
  "ds_steal_cstr d w = res_bind (ds_cstr d w) (\<lambda>(d, w). Ok ((ds_string d, ds_init), w))"

definition ds_swap :: "ds \<times> ds \<Rightarrow> ds \<times> ds" where
  "ds_swap p = (case p of (a, b) \<Rightarrow> let temp = a; a = b; b = temp in (a, b))"

definition EOF :: int where
  "EOF = -1"

definition ds_last :: "ds \<Rightarrow> int cres" where
  "ds_last d =
     (if ds_length d > 0 then
        res_bind (ds_load d (ds_length d - 1)) (\<lambda>c. Ok (int (byte_val c)))
      else Ok EOF)"

definition ds_chomp :: "ds \<Rightarrow> byte \<Rightarrow> ds cres" where
  "ds_chomp d c =
     (if ds_length d > 0 then
        res_bind (ds_load d (ds_length d - 1)) (\<lambda>x.
        if x = c then ds_store (d\<lparr>ds_length := ds_length d - 1\<rparr>) (ds_length d - 1) NUL else Ok d)
      else Ok d)"

section \<open>Reading lines\<close>

fun get_line_loop :: "ds \<Rightarrow> string \<Rightarrow> world \<Rightarrow> ((int \<times> ds \<times> string) \<times> world) cres" where
  "get_line_loop d [] w = Ok ((if ds_length d \<noteq> 0 then 0 else EOF, d, []), w)"
| "get_line_loop d (c # inp) w =
     (if c = CHR 0x0A then Ok ((0, d, inp), w)
      else res_bind (ds_put_char d c w) (\<lambda>(d, w). get_line_loop d inp w))"

definition ds_get_line :: "ds \<Rightarrow> string \<Rightarrow> world \<Rightarrow> ((int \<times> ds \<times> string) \<times> world) cres" where
  "ds_get_line d inp w = get_line_loop (ds_clear d) inp w"

text \<open>Overwrite the first hash sign of the C string with a NUL, if there is one.\<close>

definition cut_comment :: "ds \<Rightarrow> ds cres" where
  "cut_comment d =
     (case ds_string d of None \<Rightarrow> Err Fault
      | Some b \<Rightarrow>
        res_bind (strchr b (CHR ''#'')) (\<lambda>found.
        if found then ds_store d (length (takeWhile (\<lambda>c. c \<noteq> CHR ''#'') b)) NUL else Ok d))"

text \<open>The byte after the leading blanks, as \<open>strspn\<close> finds it.\<close>

definition after_blanks :: "ds \<Rightarrow> byte cres" where
  "after_blanks d =
     (case ds_string d of None \<Rightarrow> Err Fault
      | Some b \<Rightarrow> load b (length (takeWhile (\<lambda>c. c = CHR '' '' \<or> c = CHR 0x09 \<or> c = CHR 0x0A) b)))"

lemma get_line_loop_shorter:
  "get_line_loop d inp w = Ok ((0, d', inp'), w') \<Longrightarrow>
   length inp' < length inp \<or> inp' = inp \<and> d' = d \<and> inp = [] \<and> ds_length d \<noteq> 0"
  by (induction d inp w rule: get_line_loop.induct)
    (force simp: EOF_def res_bind_Ok_iff split: if_splits)+

lemma ds_get_line_shorter:
  "ds_get_line d inp w = Ok ((0, d', inp'), w') \<Longrightarrow> length inp' < length inp"
  by (auto simp: ds_get_line_def ds_clear_def dest!: get_line_loop_shorter)

text \<open>\<open>line_number\<close> is \<open>*line_numberp\<close>, \<open>None\<close> for a null pointer.\<close>

function ds_get_preprocessed_line ::
  "ds \<Rightarrow> string \<Rightarrow> int option \<Rightarrow> world \<Rightarrow> ((int \<times> ds \<times> string \<times> int option) \<times> world) cres" where
  "ds_get_preprocessed_line d inp line_number w =
     res_bind (ds_get_line d inp w) (\<lambda>((ret, d, inp), w).
     if ret = 0 then
       res_bind (ds_cstr d w) (\<lambda>(d, w).
       res_bind (case line_number of None \<Rightarrow> Ok None
                 | Some n \<Rightarrow> res_bind (no_ub (n + 1 < 2 ^ 31)) (\<lambda>_. Ok (Some (n + 1)))) (\<lambda>line_number.
       res_bind (cut_comment d) (\<lambda>d.
       res_bind (after_blanks d) (\<lambda>c.
       if c \<noteq> NUL then Ok ((0, d, inp, line_number), w)
       else ds_get_preprocessed_line d inp line_number w))))
     else Ok ((EOF, d, inp, line_number), w))"
  by pat_completeness auto
termination
  by (relation "measure (\<lambda>(d, inp, l, w). length inp)") (auto dest: ds_get_line_shorter)

function ds_get_test_line ::
  "ds \<Rightarrow> string \<Rightarrow> string \<Rightarrow> world \<Rightarrow> ((int \<times> ds \<times> string \<times> string) \<times> world) cres" where
  "ds_get_test_line d inp out w =
     res_bind (ds_get_line d inp w) (\<lambda>((retval, d, inp), w).
     if retval \<noteq> 0 then Ok ((retval, d, inp, out), w)
     else
       res_bind (ds_cstr d w) (\<lambda>(d, w).
       res_bind (ds_load d 0) (\<lambda>c.
       if c = CHR ''#'' then
         ds_get_test_line d inp (out @ cstring (the (ds_string d)) @ [CHR 0x0A]) w
       else
         res_bind (cut_comment d) (\<lambda>d.
         res_bind (after_blanks d) (\<lambda>c.
         if c = NUL then ds_get_test_line d inp (out @ [CHR 0x0A]) w
         else Ok ((0, d, inp, out), w))))))"
  by pat_completeness auto
termination
  by (relation "measure (\<lambda>(d, inp, out, w). length inp)") (auto dest: ds_get_line_shorter)

declare ds_get_preprocessed_line.simps [simp del] ds_get_test_line.simps [simp del]

section \<open>Hexadecimal\<close>

fun show_hex :: "nat \<Rightarrow> string" where
  "show_hex n = (if n < 16 then [hex_char n] else show_hex (n div 16) @ [hex_char (n mod 16)])"

declare show_hex.simps [simp del]

text \<open>A number with zeros on the left up to \<open>k\<close> digits.\<close>

definition hex_pad :: "nat \<Rightarrow> nat \<Rightarrow> string" where
  "hex_pad k n = replicate (k - length (show_hex n)) (CHR ''0'') @ show_hex n"

function ds_hex_loop :: "ds \<Rightarrow> string \<Rightarrow> nat \<Rightarrow> nat \<Rightarrow> bool \<Rightarrow> world \<Rightarrow> ((ds \<times> bool) \<times> world) cres" where
  "ds_hex_loop d buf i sz printed w =
     (if i < sz then
        res_bind (load buf i) (\<lambda>val.
        res_bind (if byte_val val \<noteq> 0 \<or> printed then
            res_bind (if \<not> printed then ds_put_format d (''0x'' @ show_hex (byte_val val)) w
                      else ds_put_format d (hex_pad 2 (byte_val val)) w) (\<lambda>(d, w). Ok ((d, True), w))
          else Ok ((d, printed), w)) (\<lambda>((d, printed), w).
        res_bind (no_ub (i + 1 < 2 ^ 31)) (\<lambda>_. ds_hex_loop d buf (i + 1) sz printed w)))
      else Ok ((d, printed), w))"
  by pat_completeness auto
termination
  by (relation "measure (\<lambda>(d, buf, i, sz, printed, w). sz - i)") auto

declare ds_hex_loop.simps [simp del]

definition ds_put_hex :: "ds \<Rightarrow> string \<Rightarrow> nat \<Rightarrow> world \<Rightarrow> ds_result" where
  "ds_put_hex d buf sz w =
     res_bind (ds_hex_loop d buf 0 sz False w) (\<lambda>((d, printed), w).
     if \<not> printed then ds_put_char d (CHR ''0'') w else Ok (d, w))"

text \<open>\<open>for (; i < n; i++)\<close> over an operation on the buffer.\<close>

function ds_for :: "nat \<Rightarrow> nat \<Rightarrow> (nat \<Rightarrow> ds \<Rightarrow> world \<Rightarrow> ds_result) \<Rightarrow> ds \<Rightarrow> world \<Rightarrow> ds_result" where
  "ds_for i n f d w =
     (if i < n then res_bind (f i d w) (\<lambda>(d, w). ds_for (i + 1) n f d w) else Ok (d, w))"
  by pat_completeness auto
termination
  by (relation "measure (\<lambda>(i, n, f, d, w). n - i)") auto

declare ds_for.simps [simp del]

text \<open>One line of the dump: the bytes from \<open>start\<close> to \<open>end\<close> of its sixteen columns.\<close>

definition hex_dump_line :: "ds \<Rightarrow> string \<Rightarrow> nat \<Rightarrow> nat \<Rightarrow> nat \<Rightarrow> bool \<Rightarrow> world \<Rightarrow> ds_result" where
  "hex_dump_line d buf ofs start en ascii w =
     res_bind (ds_put_format d (hex_pad 8 (ofs div 16 * 16) @ ''  '') w) (\<lambda>(d, w).
     res_bind (ds_for 0 start (\<lambda>_ d w. ds_put_format d ''   '' w) d w) (\<lambda>(d, w).
     res_bind (ds_for start en (\<lambda>i d w.
         res_bind (load buf (i - start)) (\<lambda>x.
         ds_put_format d (hex_pad 2 (byte_val x) @ [if i = 16 div 2 - 1 then CHR ''-'' else CHR '' '']) w)) d w) (\<lambda>(d, w).
     res_bind (if ascii then
         res_bind (ds_for en 16 (\<lambda>_ d w. ds_put_format d ''   '' w) d w) (\<lambda>(d, w).
         res_bind (ds_put_format d ''|'' w) (\<lambda>(d, w).
         res_bind (ds_for 0 start (\<lambda>_ d w. ds_put_format d '' '' w) d w) (\<lambda>(d, w).
         res_bind (ds_for start en (\<lambda>i d w.
             res_bind (load buf (i - start)) (\<lambda>c.
             ds_put_char d (if 32 \<le> byte_val c \<and> byte_val c < 127 then c else CHR ''.'') w)) d w) (\<lambda>(d, w).
         res_bind (ds_for en 16 (\<lambda>_ d w. ds_put_format d '' '' w) d w) (\<lambda>(d, w).
         ds_put_format d ''|'' w)))))
       else res_bind (ds_chomp d (CHR '' '')) (\<lambda>d. Ok (d, w))) (\<lambda>(d, w).
     ds_put_format d [CHR 0x0A] w))))"

function ds_put_hex_dump :: "ds \<Rightarrow> string \<Rightarrow> nat \<Rightarrow> nat \<Rightarrow> bool \<Rightarrow> world \<Rightarrow> ds_result" where
  "ds_put_hex_dump d buf sz ofs ascii w =
     (if sz > 0 then
        let start = ofs mod 16;
            en = (if 16 - start > sz then start + sz else 16);
            n = en - start in
        res_bind (hex_dump_line d buf ofs start en ascii w) (\<lambda>(d, w).
        ds_put_hex_dump d (drop n buf) (sz - n) (w64 (ofs + n)) ascii w)
      else Ok (d, w))"
  by pat_completeness auto
termination
  by (relation "measure (\<lambda>(d, buf, sz, ofs, ascii, w). sz)") (auto simp: Let_def)

declare ds_put_hex_dump.simps [simp del]

end
