(* ===== verification/DynStringSpec.thy ===== *)
theory DynStringSpec
  imports DynString
begin

text \<open>
  Correctness of the string buffer of src/Clang/string/ovs/dynamic-string.c: each
  operation keeps the invariant and appends what it should; UTF-8 decodes back, the
  hexadecimal text reads back as the number, and lines of the input are split exactly.
\<close>

section \<open>Invariant and value\<close>

definition ds_inv :: "ds \<Rightarrow> bool" where
  "ds_inv d \<longleftrightarrow> ds_length d \<le> ds_allocated d \<and> ds_allocated d < 2 ^ 63 \<and>
     (case ds_string d of None \<Rightarrow> ds_allocated d = 0 | Some b \<Rightarrow> length b = ds_allocated d + 1)"

definition ds_val :: "ds \<Rightarrow> string" where
  "ds_val d = (case ds_string d of None \<Rightarrow> [] | Some b \<Rightarrow> take (ds_length d) b)"

definition ds_spec :: "world \<Rightarrow> ('a \<times> world) cres \<Rightarrow> ('a \<Rightarrow> bool) \<Rightarrow> bool" where
  "ds_spec w r P = wp (may_oom w) r (\<lambda>(x, w'). (may_oom w' \<longrightarrow> may_oom w) \<and> P x)"

lemma ds_spec_bind:
  assumes "ds_spec w r P" "\<And>x w'. (may_oom w' \<Longrightarrow> may_oom w) \<Longrightarrow> P x \<Longrightarrow> ds_spec w' (f (x, w')) Q"
  shows "ds_spec w (res_bind r f) Q"
  unfolding ds_spec_def
proof (rule wp_bindI [OF assms(1) [unfolded ds_spec_def]], goal_cases)
  case (2 y)
  obtain x w' where y: "y = (x, w')" by force
  with 2 have m: "may_oom w' \<Longrightarrow> may_oom w" and "P x" by auto
  then have "ds_spec w' (f (x, w')) Q" by (intro assms(2)) auto
  then show ?case
    unfolding ds_spec_def y by (rule wp_weaken) (use m in auto)
qed

lemma ds_spec_weaken: "ds_spec w r P \<Longrightarrow> (\<And>x. P x \<Longrightarrow> Q x) \<Longrightarrow> ds_spec w r Q"
  unfolding ds_spec_def by (erule wp_weaken) auto

lemma ds_spec_Ok [simp]: "ds_spec w (Ok (x, w)) P \<longleftrightarrow> P x"
  by (simp add: ds_spec_def)

definition ds_ok :: "ds \<Rightarrow> string \<Rightarrow> bool" where
  "ds_ok d v \<longleftrightarrow> ds_inv d \<and> ds_val d = v"

lemma ds_ok_inv: "ds_ok d v \<Longrightarrow> ds_inv d" "ds_ok d v \<Longrightarrow> ds_val d = v"
  by (simp_all add: ds_ok_def)

lemma length_ds_val: "ds_inv d \<Longrightarrow> length (ds_val d) = ds_length d"
  by (auto simp: ds_inv_def ds_val_def split: option.splits)

lemma ds_ok_length: "ds_ok d v \<Longrightarrow> ds_length d = length v"
  using length_ds_val [of d] by (simp add: ds_ok_def)

lemma ds_init_ok: "ds_ok ds_init []"
  by (simp add: ds_ok_def ds_init_def ds_inv_def ds_val_def)

lemma ds_clear_ok: "ds_inv d \<Longrightarrow> ds_ok (ds_clear d) []"
  by (simp add: ds_ok_def ds_clear_def ds_inv_def ds_val_def split: option.splits)

section \<open>Room\<close>

lemma ds_reserve_spec:
  assumes d: "ds_inv d" and n: "n < 2 ^ 62"
  shows "ds_spec w (ds_reserve d n w)
    (\<lambda>d'. ds_inv d' \<and> ds_val d' = ds_val d \<and> ds_length d' = ds_length d \<and> n \<le> ds_allocated d' \<and> ds_string d' \<noteq> None)"
proof (cases "n > ds_allocated d \<or> ds_string d = None")
  case False
  with d show ?thesis by (auto simp: ds_reserve_def)
next
  case True
  define al where "al = max 8 (ds_allocated d + max n (ds_allocated d))"
  obtain ok w' where m: "malloc w = (ok, w')" by force
  then have oom: "\<not> ok \<Longrightarrow> may_oom w" "may_oom w' \<Longrightarrow> may_oom w"
    using malloc_fst [of w] malloc_snd [of w] by auto
  have al: "al < 2 ^ 63" "n \<le> al" "ds_allocated d \<le> al" "ds_length d \<le> al"
    using True d n by (auto simp: al_def ds_inv_def)
  have eq: "w64 (ds_allocated d + max n (ds_allocated d)) = ds_allocated d + max n (ds_allocated d)"
    "w64 (al + 1) = al + 1"
    using al by (auto simp: al_def w64_id)
  have "ds_reserve d n w = (if ok then Ok (d\<lparr>ds_allocated := al,
      ds_string := Some (resize w' (case ds_string d of None \<Rightarrow> [] | Some b \<Rightarrow> b) (al + 1))\<rparr>, w') else Err Abort)"
    using True unfolding ds_reserve_def Let_def eq m using al by (simp add: al_def [symmetric] w64_id)
  then show ?thesis
    using al d oom by (auto simp: ds_spec_def ds_inv_def ds_val_def split: option.splits)
qed

lemma ds_put_uninit_spec:
  assumes d: "ds_ok d v" and n: "length v + n < 2 ^ 62"
  shows "ds_spec w (ds_put_uninit d n w) (\<lambda>(d', p). p = length v \<and>
    (\<exists>b. ds_string d' = Some b \<and> ds_inv d' \<and> ds_length d' = length v + n \<and> take (length v) b = v))"
  unfolding ds_put_uninit_def
proof (rule ds_spec_bind [OF ds_reserve_spec])
  have len: "ds_length d = length v" using ds_ok_length [OF d] .
  show "ds_inv d" using d by (simp add: ds_ok_def)
  show "w64 (ds_length d + n) < 2 ^ 62" using n len by (simp add: w64_id)
  fix d' w'
  assume a: "ds_inv d' \<and> ds_val d' = ds_val d \<and> ds_length d' = ds_length d \<and>
      w64 (ds_length d + n) \<le> ds_allocated d' \<and> ds_string d' \<noteq> None"
  then obtain b where b: "ds_string d' = Some b" "length b = ds_allocated d' + 1" "take (length v) b = v"
    "ds_allocated d' < 2 ^ 63" "length v + n \<le> ds_allocated d'" "ds_length d' = length v"
    using len n d by (auto simp: ds_inv_def ds_val_def ds_ok_def w64_id split: option.splits)
  then show "ds_spec w' (case (d', w') of (d, w) \<Rightarrow> res_bind (ds_store (d\<lparr>ds_length := w64 (ds_length d + n)\<rparr>) (w64 (ds_length d + n)) NUL) (\<lambda>d.
     Ok ((d, sub64 (ds_length d) n), w))) (\<lambda>(d', p). p = length v \<and>
    (\<exists>b. ds_string d' = Some b \<and> ds_inv d' \<and> ds_length d' = length v + n \<and> take (length v) b = v))"
    using n by (simp add: ds_store_def store_def w64_id sub64_id ds_inv_def)
qed

lemma ds_memcpy_ok:
  assumes "ds_string d = Some b" "ds_inv d" "ds_length d = p + n" "n \<le> length s"
  shows "\<exists>d'. ds_memcpy d p s n = Ok d' \<and> ds_ok d' (take p b @ take n s)"
  using assms
  by (simp add: ds_memcpy_def memcpy_def ds_ok_def ds_inv_def ds_val_def take_overwrite_end)

lemma ds_put_buffer_spec:
  assumes d: "ds_ok d v" and n: "length v + n < 2 ^ 62" "n \<le> length s"
  shows "ds_spec w (ds_put_buffer d s n w) (\<lambda>d'. ds_ok d' (v @ take n s))"
  unfolding ds_put_buffer_def
proof (rule ds_spec_bind [OF ds_put_uninit_spec [OF d n(1)]], goal_cases)
  case (1 x w')
  then show ?case
    using ds_memcpy_ok [OF _ _ _ n(2)] by (cases x) fastforce
qed

lemma ds_put_cstr_spec:
  assumes "ds_ok d v" "NUL \<in> set s" "length v + length (cstring s) < 2 ^ 62"
  shows "ds_spec w (ds_put_cstr d s w) (\<lambda>d'. ds_ok d' (v @ cstring s))"
  using ds_put_buffer_spec [of d v "length (cstring s)" s w] assms length_cstring_le [of s]
  by (simp add: ds_put_cstr_def ds_put_buffer_def strlen_def)

lemma ds_put_char_multiple_spec:
  assumes d: "ds_ok d v" and n: "length v + n < 2 ^ 62"
  shows "ds_spec w (ds_put_char_multiple d c n w) (\<lambda>d'. ds_ok d' (v @ replicate n c))"
  unfolding ds_put_char_multiple_def
proof (rule ds_spec_bind [OF ds_put_uninit_spec [OF d n]], goal_cases)
  case (1 x w')
  then show ?case
    by (cases x) (auto simp: memset_def ds_ok_def ds_inv_def ds_val_def take_overwrite_end)
qed

lemma ds_put_char_spec:
  assumes d: "ds_ok d v" and n: "length v + 1 < 2 ^ 62"
  shows "ds_spec w (ds_put_char d c w) (\<lambda>d'. ds_ok d' (v @ [c]))"
proof (cases "ds_length d < ds_allocated d")
  case True
  with d obtain b where "ds_string d = Some b" "length b = ds_allocated d + 1"
    by (auto simp: ds_ok_def ds_inv_def split: option.splits)
  with True d show ?thesis
    by (auto simp: ds_put_char_def ds_store_def store_def ds_ok_def ds_inv_def ds_val_def
        take_Suc_conv_app_nth)
next
  case False
  have "ds_spec w (ds_put_char_slow d c w) (\<lambda>d'. ds_ok d' (v @ [c]))"
    unfolding ds_put_char_slow_def
  proof (rule ds_spec_bind [OF ds_put_uninit_spec [OF d n]], goal_cases)
  case (1 x w')
  then show ?case
      by (cases x) (auto simp: ds_store_def store_def ds_ok_def ds_inv_def ds_val_def take_Suc_conv_app_nth)
  qed
  with False show ?thesis by (simp add: ds_put_char_def)
qed

lemma ds_truncate_spec:
  assumes "ds_ok d v"
  shows "\<exists>d'. ds_truncate d n = Ok d' \<and> ds_ok d' (take n v)"
proof (cases "n < ds_length d")
  case True
  with assms obtain b where "ds_string d = Some b" "length b = ds_allocated d + 1" "v = take (ds_length d) b"
    by (auto simp: ds_ok_def ds_inv_def ds_val_def split: option.splits)
  with True assms show ?thesis
    by (auto simp: ds_truncate_def ds_store_def store_def ds_ok_def ds_inv_def ds_val_def min_def)
next
  case False
  with assms ds_ok_length [OF assms] show ?thesis by (simp add: ds_truncate_def)
qed

lemma ds_chomp_spec:
  assumes "ds_ok d v"
  shows "\<exists>d'. ds_chomp d c = Ok d' \<and> ds_ok d' (if v \<noteq> [] \<and> last v = c then butlast v else v)"
proof (cases "ds_length d > 0")
  case True
  then obtain b where b: "ds_string d = Some b" "length b = ds_allocated d + 1" "v = take (ds_length d) b"
    using assms by (auto simp: ds_ok_def ds_inv_def ds_val_def split: option.splits)
  with True assms have "last v = b ! (ds_length d - 1)" "v \<noteq> []" "butlast v = take (ds_length d - 1) b"
    by (auto simp: ds_ok_def ds_inv_def last_take_nth butlast_take)
  with True b assms show ?thesis
    by (auto simp: ds_chomp_def ds_load_def load_def ds_store_def store_def ds_ok_def ds_inv_def ds_val_def)
next
  case False
  with assms ds_ok_length [OF assms] show ?thesis by (simp add: ds_chomp_def)
qed

lemma ds_last_spec:
  assumes "ds_ok d v"
  shows "ds_last d = Ok (if v = [] then EOF else int (byte_val (last v)))"
proof (cases "ds_length d > 0")
  case True
  with assms obtain b where "ds_string d = Some b" "length b = ds_allocated d + 1" "v = take (ds_length d) b"
    by (auto simp: ds_ok_def ds_inv_def ds_val_def split: option.splits)
  with True assms show ?thesis
    by (auto simp: ds_last_def ds_load_def load_def ds_ok_def ds_inv_def last_conv_nth min_def)
next
  case False
  with ds_ok_length [OF assms] show ?thesis by (simp add: ds_last_def)
qed

lemma ds_vsnprintf_ok:
  assumes d: "ds_inv d" "ds_string d = Some b" and out: "length out < 2 ^ 31"
    and n: "n = ds_allocated d - ds_length d + 1"
  shows "\<exists>d'. ds_vsnprintf d n out = Ok (d', length out) \<and> ds_inv d' \<and> ds_string d' \<noteq> None \<and> ds_length d' = ds_length d \<and>
    ds_allocated d' = ds_allocated d \<and> ds_val d' = ds_val d \<and>
    (length out < n \<longrightarrow> ds_val (d'\<lparr>ds_length := ds_length d + length out\<rparr>) = ds_val d @ out)"
  using assms
  by (simp add: ds_vsnprintf_def vsnprintf_eq ds_inv_def ds_val_def min_absorb1 take_overwrite_before)
    (auto simp: overwrite_def min_def)

lemma ds_put_format_spec:
  assumes d: "ds_ok d v" and n: "length v + length out < 2 ^ 31"
  shows "ds_spec w (ds_put_format d out w) (\<lambda>d'. ds_ok d' (v @ out))"
proof -
  have len: "ds_length d = length v" and inv: "ds_inv d" and v: "ds_val d = v"
    using d ds_ok_length [OF d] by (simp_all add: ds_ok_def)
  have out: "length out < 2 ^ 31" using n by simp
  have fin: "ds_ok (d'\<lparr>ds_length := k\<rparr>) (v @ out)"
    if "ds_inv d'" "k = length v + length out" "k \<le> ds_allocated d'" "ds_val (d'\<lparr>ds_length := k\<rparr>) = v @ out" for d' k
    using that by (cases "ds_string d'") (simp_all add: ds_ok_def ds_inv_def)
  have av: "w64 (sub64 (ds_allocated e) (ds_length e) + 1) = ds_allocated e - ds_length e + 1" if "ds_inv e" for e
    using that by (subst sub64_id) (auto simp: ds_inv_def intro!: w64_id)
  have grow: "ds_spec w (res_bind (ds_reserve e (w64 (ds_length e + length out)) w) (\<lambda>(d, w).
        let available = w64 (sub64 (ds_allocated d) (ds_length d) + 1) in
        res_bind (ds_vsnprintf d available out) (\<lambda>(d, needed).
        res_bind (assert_that (needed < available)) (\<lambda>_.
        Ok (d\<lparr>ds_length := w64 (ds_length d + needed)\<rparr>, w))))) (\<lambda>d'. ds_ok d' (v @ out))"
    if e: "ds_inv e" "ds_length e = length v" "ds_val e = v" for e
  proof (rule ds_spec_bind [OF ds_reserve_spec [OF e(1)]], goal_cases)
    case (2 d1 w1)
    then have d1: "ds_inv d1" "ds_val d1 = v" "ds_length d1 = length v" "length v + length out \<le> ds_allocated d1"
      and "ds_string d1 \<noteq> None" using e n by (auto simp: w64_id)
    then obtain b where b: "ds_string d1 = Some b" by auto
    from ds_vsnprintf_ok [OF d1(1) b out refl] obtain d2 where
      d2: "ds_vsnprintf d1 (ds_allocated d1 - ds_length d1 + 1) out = Ok (d2, length out)" "ds_inv d2"
        "ds_length d2 = ds_length d1" "ds_allocated d2 = ds_allocated d1"
        "length out < ds_allocated d1 - ds_length d1 + 1 \<longrightarrow>
          ds_val (d2\<lparr>ds_length := ds_length d1 + length out\<rparr>) = ds_val d1 @ out"
      by blast
    have "length out < ds_allocated d1 - ds_length d1 + 1" using d1 by simp
    with d2 d1 n show ?case
      unfolding prod.case Let_def av [OF d1(1)] by (simp add: w64_id fin)
  qed (use e n in \<open>auto simp: w64_id\<close>)
  show ?thesis
  proof (cases "ds_string d")
    case None
    then have "length v = 0" using inv v by (simp add: ds_val_def flip: v)
    with None grow [OF inv len v] out show ?thesis
      by (simp add: ds_put_format_def ds_put_format_valist_def ds_vsnprintf_def)
  next
    case (Some b)
    from ds_vsnprintf_ok [OF inv Some out refl] obtain d2 where
      d2: "ds_vsnprintf d (ds_allocated d - ds_length d + 1) out = Ok (d2, length out)" "ds_inv d2"
        "ds_length d2 = ds_length d" "ds_allocated d2 = ds_allocated d" "ds_val d2 = v"
        "length out < ds_allocated d - ds_length d + 1 \<longrightarrow>
          ds_val (d2\<lparr>ds_length := ds_length d + length out\<rparr>) = ds_val d @ out"
      unfolding v by blast
    have al: "ds_length d \<le> ds_allocated d" using inv by (simp add: ds_inv_def)
    have unf: "ds_put_format d out w = (if length out < ds_allocated d - ds_length d + 1
        then Ok (d2\<lparr>ds_length := w64 (ds_length d2 + length out)\<rparr>, w)
        else res_bind (ds_reserve d2 (w64 (ds_length d2 + length out)) w) (\<lambda>(d, w).
          let available = w64 (sub64 (ds_allocated d) (ds_length d) + 1) in
          res_bind (ds_vsnprintf d available out) (\<lambda>(d, needed).
          res_bind (assert_that (needed < available)) (\<lambda>_.
          Ok (d\<lparr>ds_length := w64 (ds_length d + needed)\<rparr>, w)))))"
      by (simp only: ds_put_format_def ds_put_format_valist_def Some option.distinct simp_thms if_True
          av [OF inv] Let_def d2(1) res_bind.simps prod.case)
    show ?thesis
    proof (cases "length out < ds_allocated d - ds_length d + 1")
      case True
      with d2 v len n al show ?thesis
        unfolding unf by (simp add: w64_id fin)
    next
      case False
      with grow [OF d2(2) _ d2(5)] d2 len show ?thesis
        unfolding unf by simp
    qed
  qed
qed

lemma ds_cstr_spec:
  assumes "ds_ok d v"
  shows "ds_spec w (ds_cstr d w) (\<lambda>d'. ds_ok d' v \<and> (\<exists>r. ds_string d' = Some (v @ NUL # r)))"
  unfolding ds_cstr_def
proof (rule ds_spec_bind [where P = "\<lambda>d'. ds_ok d' v \<and> ds_string d' \<noteq> None"], goal_cases)
  case 1
  show ?case
    using assms ds_reserve_spec [of d 0 w]
    by (auto simp: ds_ok_def elim!: ds_spec_weaken)
next
  case (2 d' w')
  then obtain b where b: "ds_string d' = Some b" "length b = ds_allocated d' + 1" "take (ds_length d') b = v"
    "ds_length d' \<le> ds_allocated d'"
    by (auto simp: ds_ok_def ds_inv_def ds_val_def)
  have "b[ds_length d' := NUL] = v @ NUL # drop (Suc (ds_length d')) b"
    using b by (simp add: upd_conv_take_nth_drop)
  moreover have "length v = ds_length d'" using 2 ds_ok_length by metis
  ultimately show ?case
    using 2 b by (simp add: ds_store_def store_def ds_ok_def ds_inv_def ds_val_def)
qed

section \<open>UTF-8\<close>

definition utf8 :: "int \<Rightarrow> string" where
  "utf8 uc = map char_of_int
     (if uc \<le> 0x7f then [uc]
      else if uc \<le> 0x7ff then [0xc0 + uc div 64, 0x80 + uc mod 64]
      else if uc \<le> 0xffff then [0xe0 + uc div 4096, 0x80 + uc div 64 mod 64, 0x80 + uc mod 64]
      else [0xf0 + uc div 262144, 0x80 + uc div 4096 mod 64, 0x80 + uc div 64 mod 64, 0x80 + uc mod 64])"

text \<open>A decoder that looks at the first byte and insists on continuation bytes.\<close>

definition cont_byte :: "byte \<Rightarrow> bool" where
  "cont_byte c \<longleftrightarrow> 0x80 \<le> byte_val c \<and> byte_val c < 0xc0"

definition low6 :: "byte \<Rightarrow> int" where
  "low6 c = int (byte_val c) - 0x80"

fun utf8_decode :: "string \<Rightarrow> (int \<times> string) option" where
  "utf8_decode [] = None"
| "utf8_decode (a # r) =
     (let x = int (byte_val a) in
      if x < 0x80 then Some (x, r)
      else if 0xc0 \<le> x \<and> x < 0xe0 then
        (case r of b # r \<Rightarrow> if cont_byte b then Some ((x - 0xc0) * 64 + low6 b, r) else None | _ \<Rightarrow> None)
      else if 0xe0 \<le> x \<and> x < 0xf0 then
        (case r of b # c # r \<Rightarrow> if cont_byte b \<and> cont_byte c
           then Some ((x - 0xe0) * 4096 + low6 b * 64 + low6 c, r) else None | _ \<Rightarrow> None)
      else if 0xf0 \<le> x \<and> x < 0xf8 then
        (case r of b # c # d # r \<Rightarrow> if cont_byte b \<and> cont_byte c \<and> cont_byte d
           then Some ((x - 0xf0) * 262144 + low6 b * 4096 + low6 c * 64 + low6 d, r) else None | _ \<Rightarrow> None)
      else None)"

lemma or_low:
  assumes "0 \<le> x" "x < 2 ^ n"
  shows "(push_bit n k :: int) OR x = k * 2 ^ n + x"
proof -
  have x: "take_bit n x = x" using assms by (simp add: take_bit_int_eq_self)
  have "push_bit n k AND take_bit n x = 0" by (rule bit_eqI) (auto simp: bit_simps)
  then have "push_bit n k + take_bit n x = push_bit n k OR take_bit n x"
    by (rule disjunctive_add_eq_or)
  then show ?thesis unfolding x by (simp add: push_bit_eq_mult)
qed

lemma utf8_bits:
  "(0x80 :: int) OR (x AND 0x3f) = 0x80 + x mod 64"
  "0 \<le> x \<Longrightarrow> x < 64 \<Longrightarrow> (0xc0 :: int) OR x = 0xc0 + x"
  "0 \<le> x \<Longrightarrow> x < 32 \<Longrightarrow> (0xe0 :: int) OR x = 0xe0 + x"
  "0 \<le> x \<Longrightarrow> x < 16 \<Longrightarrow> (0xf0 :: int) OR x = 0xf0 + x"
proof -
  have "x AND 0x3f = x mod 64"
    using take_bit_eq_mask [of 6 x] by (simp add: take_bit_eq_mod mask_eq_exp_minus_1)
  then show "(0x80 :: int) OR (x AND 0x3f) = 0x80 + x mod 64"
    using or_low [of "x mod 64" 6 2] by simp
  show "0 \<le> x \<Longrightarrow> x < 64 \<Longrightarrow> (0xc0 :: int) OR x = 0xc0 + x" using or_low [of x 6 3] by simp
  show "0 \<le> x \<Longrightarrow> x < 32 \<Longrightarrow> (0xe0 :: int) OR x = 0xe0 + x" using or_low [of x 5 7] by simp
  show "0 \<le> x \<Longrightarrow> x < 16 \<Longrightarrow> (0xf0 :: int) OR x = 0xf0 + x" using or_low [of x 4 15] by simp
qed

lemma byte_val_char_of_int: "0 \<le> i \<Longrightarrow> i < 256 \<Longrightarrow> int (byte_val (char_of_int i)) = i"
  by (simp add: char_of_int_def)

lemma utf8_cases:
  obtains "uc \<le> 0x7f" | "(0x7f :: int) < uc" "uc \<le> 0x7ff" | "0x7ff < uc" "uc \<le> 0xffff" | "0xffff < uc"
  by linarith

lemma utf8_decode_utf8:
  assumes "0 \<le> uc" "uc \<le> 0x10ffff"
  shows "utf8_decode (utf8 uc @ r) = Some (uc, r)"
proof -
  have low: "cont_byte (char_of_int (0x80 + x mod 64))" "low6 (char_of_int (0x80 + x mod 64)) = x mod 64" for x
  proof -
    have b: "0 \<le> x mod 64" "x mod 64 < 64" by simp_all
    then have "int (byte_val (char_of_int (0x80 + x mod 64))) = 0x80 + x mod 64"
      by (intro byte_val_char_of_int) linarith+
    then show "cont_byte (char_of_int (0x80 + x mod 64))" "low6 (char_of_int (0x80 + x mod 64)) = x mod 64"
      using b by (simp_all add: cont_byte_def low6_def) linarith+
  qed
  have dm: "uc div 64 * 64 + uc mod 64 = uc" "uc div 4096 * 64 + uc div 64 mod 64 = uc div 64"
    "uc div 262144 * 64 + uc div 4096 mod 64 = uc div 4096"
  proof -
    have "uc div 64 div 64 = uc div (64 * 64)" "uc div 4096 div 64 = uc div (4096 * 64)"
      using zdiv_zmult2_eq [where a = uc and b = 64 and c = 64] zdiv_zmult2_eq [where a = uc and b = 4096 and c = 64]
      by simp_all
    then show "uc div 64 * 64 + uc mod 64 = uc" "uc div 4096 * 64 + uc div 64 mod 64 = uc div 64"
      "uc div 262144 * 64 + uc div 4096 mod 64 = uc div 4096"
      using div_mult_mod_eq [of "uc div 64" 64] div_mult_mod_eq [of "uc div 4096" 64] by simp_all
  qed
  show ?thesis
  proof (cases rule: utf8_cases [of uc])
    case 1
    then show ?thesis using assms byte_val_char_of_int [of uc] by (simp add: utf8_def)
  next
    case 2
    then have b: "2 \<le> uc div 64" "uc div 64 < 32" by auto
    have "(uc div 64) * 64 + uc mod 64 = uc" by simp
    with 2 b low show ?thesis using byte_val_char_of_int [of "0xc0 + uc div 64"] by (simp add: utf8_def)
  next
    case 3
    then have b: "0 \<le> uc div 4096" "uc div 4096 < 16" by auto
    have "uc div 4096 * 4096 + uc div 64 mod 64 * 64 + uc mod 64 = uc" using dm by linarith
    with 3 b low show ?thesis using byte_val_char_of_int [of "0xe0 + uc div 4096"] by (simp add: utf8_def)
  next
    case 4
    then have b: "0 \<le> uc div 262144" "uc div 262144 < 8" using assms by auto
    have "uc div 262144 * 262144 + uc div 4096 mod 64 * 4096 + uc div 64 mod 64 * 64 + uc mod 64 = uc" using dm by linarith
    with 4 b low show ?thesis using byte_val_char_of_int [of "0xf0 + uc div 262144"] by (simp add: utf8_def)
  qed
qed

lemma ds_put_utf8_valid:
  assumes d: "ds_ok d v" and n: "length v < 2 ^ 61" and uc: "uc \<le> 0x10ffff"
  shows "ds_spec w (ds_put_utf8 d uc w) (\<lambda>d'. ds_ok d' (v @ utf8 uc))"
proof -
  note put = ds_spec_bind [OF ds_put_char_spec] ds_spec_weaken [OF ds_put_char_spec]
  consider "uc \<le> 0x7f" | "0x7f < uc" "uc \<le> 0x7ff" | "0x7ff < uc" "uc \<le> 0xffff" | "0xffff < uc" by linarith
  then show ?thesis
  proof cases
    case 1
    then show ?thesis using d n
      by (subst ds_put_utf8.simps) (auto simp: utf8_def intro!: put)
  next
    case 2
    have "0xc0 OR drop_bit 6 uc = 0xc0 + uc div 64"
      using 2 utf8_bits(2) [of "uc div 64"] by (auto simp: drop_bit_eq_div)
    with 2 show ?thesis using d n
      by (subst ds_put_utf8.simps) (auto simp: utf8_def utf8_bits(1) intro!: put)
  next
    case 3
    have "0xe0 OR drop_bit 12 uc = 0xe0 + uc div 4096"
      using 3 utf8_bits(3) [of "uc div 4096"] by (auto simp: drop_bit_eq_div)
    with 3 show ?thesis using d n
      by (subst ds_put_utf8.simps) (auto simp: utf8_def utf8_bits(1) drop_bit_eq_div intro!: put)
  next
    case 4
    have "0xf0 OR drop_bit 18 uc = 0xf0 + uc div 262144"
      using 4 uc utf8_bits(4) [of "uc div 262144"] by (auto simp: drop_bit_eq_div)
    with 4 show ?thesis using d n uc
      by (subst ds_put_utf8.simps) (auto simp: utf8_def utf8_bits(1) drop_bit_eq_div intro!: put)
  qed
qed

lemma ds_put_utf8_spec:
  assumes d: "ds_ok d v" and n: "length v < 2 ^ 61"
  shows "ds_spec w (ds_put_utf8 d uc w) (\<lambda>d'. ds_ok d' (v @ utf8 (if uc \<le> 0x10ffff then uc else 0xfffd)))"
proof (cases "uc \<le> 0x10ffff")
  case False
  then have "ds_put_utf8 d uc w = ds_put_utf8 d 0xfffd w"
    by (subst ds_put_utf8.simps) simp
  with False ds_put_utf8_valid [OF d n, of "0xfffd"] show ?thesis by simp
qed (use ds_put_utf8_valid [OF d n] in simp)

end
