(* ===== verification/Buffer.thy ===== *)
theory Buffer
  imports Prelude
begin

text \<open>
  What the three string buffers of the repository (sds, ds and strbuf) promise alike: an
  append operation, and an operation that empties the buffer. Clients that build text by
  a sequence of appends are verified once, here.
\<close>

text \<open>Append the pieces of a list one after the other, and rebuild a buffer from pieces.\<close>

fun put_all :: "(string \<Rightarrow> 's \<Rightarrow> 's cres) \<Rightarrow> string list \<Rightarrow> 's \<Rightarrow> 's cres" where
  "put_all put [] s = Ok s"
| "put_all put (t # ts) s = res_bind (put t s) (put_all put ts)"

definition rebuild :: "('s \<Rightarrow> 's cres) \<Rightarrow> (string \<Rightarrow> 's \<Rightarrow> 's cres) \<Rightarrow> string list \<Rightarrow> 's \<Rightarrow> 's cres" where
  "rebuild clear put ts s = res_bind (clear s) (put_all put ts)"

text \<open>
  \<open>oom s\<close> says that memory may still be refused after \<open>s\<close>; then the operation may abort.
  \<open>cap\<close> bounds the length of the text.
\<close>

locale string_buffer =
  fixes put :: "string \<Rightarrow> 's \<Rightarrow> 's cres"
    and inv :: "'s \<Rightarrow> bool"
    and val :: "'s \<Rightarrow> string"
    and oom :: "'s \<Rightarrow> bool"
    and cap :: nat
  assumes put: "inv s \<Longrightarrow> length (val s) + length t < cap \<Longrightarrow>
    wp (oom s) (put t s) (\<lambda>s'. inv s' \<and> val s' = val s @ t \<and> (oom s' \<longrightarrow> oom s))"
begin

lemma put_all:
  assumes "inv s" "length (val s) + length (concat ts) < cap"
  shows "wp (oom s) (put_all put ts s) (\<lambda>s'. inv s' \<and> val s' = val s @ concat ts \<and> (oom s' \<longrightarrow> oom s))"
  using assms
proof (induction ts arbitrary: s)
  case (Cons t ts)
  show ?case
    unfolding put_all.simps
  proof (rule wp_bindI [OF put], goal_cases)
    case (4 s')
    then have "wp (oom s') (put_all put ts s')
        (\<lambda>s''. inv s'' \<and> val s'' = val s' @ concat ts \<and> (oom s'' \<longrightarrow> oom s'))"
      using Cons.prems by (intro Cons.IH) auto
    then show ?case
      by (rule wp_weaken) (use 4 in auto)
  qed (use Cons.prems in auto)
qed simp

text \<open>How the text is cut into pieces does not matter.\<close>

lemma put_all_pieces:
  assumes "inv s" "concat ts = concat us" "length (val s) + length (concat ts) < cap"
    and "put_all put ts s = Ok s1" "put_all put us s = Ok s2"
  shows "val s1 = val s2"
  using put_all [of s ts] put_all [of s us] assms by simp

end

locale clearable_buffer = string_buffer +
  fixes clear :: "'a \<Rightarrow> 'a cres"
  assumes clear: "inv s \<Longrightarrow> wp (oom s) (clear s) (\<lambda>s'. inv s' \<and> val s' = [] \<and> (oom s' \<longrightarrow> oom s))"
begin

lemma rebuild:
  assumes "inv s" "length (concat ts) < cap"
  shows "wp (oom s) (rebuild clear put ts s) (\<lambda>s'. inv s' \<and> val s' = concat ts)"
  unfolding rebuild_def
proof (rule wp_bindI [OF clear [OF assms(1)]], goal_cases)
  case (2 s')
  then show ?case
    using put_all [of s' ts] assms(2) by (auto elim!: wp_weaken)
qed simp

end

end
