(* ===== verification/DynStringText.thy ===== *)
theory DynStringText
  imports DynStringSpec Buffer
begin

text \<open>
  Correctness of the text operations of src/Clang/string/ovs/dynamic-string.c: escaped
  text, hexadecimal numbers and dumps, and the functions that read lines.
\<close>

section \<open>Escaped text\<close>

definition printable1 :: "byte \<Rightarrow> string" where
  "printable1 c =
     (if byte_val c < 0x20 \<or> byte_val c > 0x7e \<or> c = CHR 0x5C \<or> c = CHR 0x22 then octal_escape c else [c])"

text \<open>Reading the octal escapes back.\<close>

fun unprintable :: "string \<Rightarrow> string" where
  "unprintable [] = []"
| "unprintable (c # r) =
     (if c = CHR 0x5C then
        (case r of x # y # z # r' \<Rightarrow>
           char_of ((byte_val x - 48) * 64 + (byte_val y - 48) * 8 + (byte_val z - 48)) # unprintable r'
         | _ \<Rightarrow> [])
      else c # unprintable r)"

lemma byte_val_hex_char: "d < 16 \<Longrightarrow> byte_val (hex_char d) = (if d < 10 then 48 + d else 87 + d)"
  by (simp add: hex_char_def)

lemma unprintable_printable1: "unprintable (printable1 c @ r) = c # unprintable r"
proof -
  have "byte_val c < 8 * 64" by (rule order.strict_trans [OF byte_val_bound]) simp
  then have "byte_val c div 64 < 8" by (rule less_mult_imp_div_less)
  moreover have "byte_val c div 64 * 64 + byte_val c div 8 mod 8 * 8 + byte_val c mod 8 = byte_val c"
  proof -
    have "byte_val c div 64 = byte_val c div 8 div 8" using div_mult2_eq [of "byte_val c" 8 8] by simp
    then show ?thesis
      using div_mult_mod_eq [of "byte_val c" 8] div_mult_mod_eq [of "byte_val c div 8" 8] by linarith
  qed
  ultimately have "byte_val c div 64 < 8"
    "char_of (byte_val c div 64 * 64 + byte_val c div 8 mod 8 * 8 + byte_val c mod 8) = c"
    by (simp_all only: char_of_byte_val)
  moreover have "byte_val c div 8 mod 8 < 10" "byte_val c mod 8 < 10"
    using mod_less_divisor [of 8 "byte_val c"] mod_less_divisor [of 8 "byte_val c div 8"] by linarith+
  ultimately have "unprintable (octal_escape c @ r) = c # unprintable r"
    by (simp add: octal_escape_def byte_val_hex_char)
  then show ?thesis by (simp add: printable1_def)
qed

lemma unprintable_concat: "unprintable (concat (map printable1 s)) = s"
  by (induction s) (simp_all add: unprintable_printable1)

lemma ds_printable_loop_spec:
  assumes "ds_ok d v" "n \<le> length s" "length v + 4 * n < 2 ^ 31"
  shows "ds_spec w (ds_printable_loop d s n w) (\<lambda>d'. ds_ok d' (v @ concat (map printable1 (take n s))))"
  using assms
proof (induction n arbitrary: d v s w)
  case (Suc n)
  then obtain c s' where s: "s = c # s'" by (cases s) auto
  have put: "ds_spec w (if byte_val c < 0x20 \<or> byte_val c > 0x7e \<or> c = CHR 0x5C \<or> c = CHR 0x22
      then ds_put_format d (octal_escape c) w else ds_put_char d c w) (\<lambda>d'. ds_ok d' (v @ printable1 c))"
    using Suc.prems ds_put_format_spec [of d v "octal_escape c" w] ds_put_char_spec [of d v w c]
    by (auto simp: printable1_def octal_escape_def)
  have l: "length (printable1 c) \<le> 4" by (simp add: printable1_def octal_escape_def)
  show ?case
    unfolding s ds_printable_loop.simps list.case
  proof (rule ds_spec_bind [OF put], goal_cases)
    case (1 d' w')
    then have "ds_spec w' (ds_printable_loop d' s' n w')
        (\<lambda>d''. ds_ok d'' ((v @ printable1 c) @ concat (map printable1 (take n s'))))"
      using Suc.prems s l by (intro Suc.IH) auto
    then show ?case by simp
  qed
qed simp

lemma ds_put_printable_spec:
  assumes d: "ds_ok d v" and n: "n \<le> length s" "length v + 4 * n < 2 ^ 31"
  shows "ds_spec w (ds_put_printable d s n w) (\<lambda>d'. ds_ok d' (v @ concat (map printable1 (take n s))))"
  unfolding ds_put_printable_def
proof (rule ds_spec_bind [OF ds_reserve_spec [OF ds_ok_inv(1) [OF d]]], goal_cases)
  case (2 d' w')
  then have "ds_ok d' v" using d by (simp add: ds_ok_def)
  then show ?case using ds_printable_loop_spec [OF _ n] by simp
qed (use d n ds_ok_length [OF d] in \<open>auto simp: ds_ok_def w64_id\<close>)

section \<open>Lines\<close>

definition first_line :: "string \<Rightarrow> string" where
  "first_line inp = takeWhile (\<lambda>c. c \<noteq> CHR 0x0A) inp"

definition other_lines :: "string \<Rightarrow> string" where
  "other_lines inp = drop 1 (dropWhile (\<lambda>c. c \<noteq> CHR 0x0A) inp)"

lemma get_line_loop_spec:
  assumes "ds_ok d v" "length v + length inp < 2 ^ 61"
  shows "ds_spec w (get_line_loop d inp w) (\<lambda>(r, d', inp'). ds_ok d' (v @ first_line inp) \<and>
    inp' = other_lines inp \<and> r = (if inp = [] \<and> v = [] then EOF else 0))"
  using assms
proof (induction inp arbitrary: d v w)
  case Nil
  then show ?case
    using ds_ok_length [of d v] by (auto simp: first_line_def other_lines_def)
next
  case (Cons c inp)
  show ?case
  proof (cases "c = CHR 0x0A")
    case True
    with Cons.prems show ?thesis by (simp add: first_line_def other_lines_def)
  next
    case False
    have "ds_spec w (res_bind (ds_put_char d c w) (\<lambda>(d, w). get_line_loop d inp w))
      (\<lambda>(r, d', inp'). ds_ok d' (v @ first_line (c # inp)) \<and>
        inp' = other_lines (c # inp) \<and> r = (if c # inp = [] \<and> v = [] then EOF else 0))"
    proof (rule ds_spec_bind [OF ds_put_char_spec [OF Cons.prems(1)]], goal_cases)
      case (2 d' w')
      then have "ds_spec w' (get_line_loop d' inp w') (\<lambda>(r, d', inp'). ds_ok d' ((v @ [c]) @ first_line inp) \<and>
          inp' = other_lines inp \<and> r = (if inp = [] \<and> v @ [c] = [] then EOF else 0))"
        using Cons.prems by (intro Cons.IH) auto
      with False show ?case by (simp add: first_line_def other_lines_def)
    qed (use Cons.prems in auto)
    with False show ?thesis by simp
  qed
qed

lemma ds_get_line_spec:
  assumes "ds_inv d" "length inp < 2 ^ 61"
  shows "ds_spec w (ds_get_line d inp w) (\<lambda>(r, d', inp'). ds_ok d' (first_line inp) \<and>
    inp' = other_lines inp \<and> r = (if inp = [] then EOF else 0))"
  using get_line_loop_spec [OF ds_clear_ok [OF assms(1)], of inp w] assms(2)
  by (simp add: ds_get_line_def)

text \<open>The line before the first hash sign, as a C string.\<close>

definition strip_comment :: "string \<Rightarrow> string" where
  "strip_comment line = takeWhile (\<lambda>c. c \<noteq> CHR ''#'') (cstring line)"

definition blank :: "byte \<Rightarrow> bool" where
  "blank c \<longleftrightarrow> c = CHR '' '' \<or> c = CHR 0x09 \<or> c = CHR 0x0A"

lemma cstring_update_first:
  assumes "NUL \<in> set b" "CHR ''#'' \<in> set (cstring b)"
  shows "length (takeWhile (\<lambda>c. c \<noteq> CHR ''#'') b) < length b"
    "cstring (b[length (takeWhile (\<lambda>c. c \<noteq> CHR ''#'') b) := NUL]) = takeWhile (\<lambda>c. c \<noteq> CHR ''#'') (cstring b)"
  using assms unfolding cstring_def by (induction b) (auto split: if_splits)

lemma cut_comment_spec:
  assumes d: "ds_inv d" "ds_string d = Some b" "NUL \<in> set b"
  shows "\<exists>d' b'. cut_comment d = Ok d' \<and> ds_inv d' \<and> ds_string d' = Some b' \<and> NUL \<in> set b' \<and>
    cstring b' = strip_comment b \<and> ds_length d' = ds_length d"
proof (cases "CHR ''#'' \<in> set (cstring b)")
  case True
  define i where "i = length (takeWhile (\<lambda>c. c \<noteq> CHR ''#'') b)"
  define b' where "b' = b[i := NUL]"
  have i: "i < length b" and cs: "cstring b' = strip_comment b"
    using cstring_update_first [OF d(3) True] unfolding i_def b'_def strip_comment_def by blast+
  have "NUL \<in> set b'" unfolding b'_def using i by (rule set_update_memI)
  moreover have "cut_comment d = Ok (d\<lparr>ds_string := Some b'\<rparr>)"
    using True d i by (simp add: cut_comment_def strchr_def ds_store_def store_def b'_def flip: i_def)
  moreover have "ds_inv (d\<lparr>ds_string := Some b'\<rparr>)"
    using d by (simp add: ds_inv_def b'_def)
  moreover have "ds_length (d\<lparr>ds_string := Some b'\<rparr>) = ds_length d" "ds_string (d\<lparr>ds_string := Some b'\<rparr>) = Some b'"
    by simp_all
  ultimately show ?thesis using cs by blast
next
  case False
  then have "strip_comment b = cstring b"
    unfolding strip_comment_def by (subst takeWhile_eq_all_conv) auto
  with False d show ?thesis by (simp add: cut_comment_def strchr_def)
qed

lemma after_blanks_spec:
  assumes "ds_string d = Some b" "NUL \<in> set b"
  shows "\<exists>c. after_blanks d = Ok c \<and> (c = NUL \<longleftrightarrow> (\<forall>x\<in>set (cstring b). blank x))"
proof -
  have "length (takeWhile blank b) < length b \<and>
      (b ! length (takeWhile blank b) = NUL \<longleftrightarrow> (\<forall>x\<in>set (cstring b). blank x))"
    using assms(2) by (induction b) (auto simp: cstring_def blank_def)
  with assms(1) show ?thesis
    by (auto simp: after_blanks_def load_def blank_def [abs_def])
qed

lemma other_lines_shorter: "inp \<noteq> [] \<Longrightarrow> length (other_lines inp) < length inp"
  using length_dropWhile_le [of "\<lambda>c. c \<noteq> CHR 0x0A" inp] by (cases inp) (auto simp: other_lines_def)

text \<open>
  The next line with something on it: its text without the comment, the input after it,
  and how many lines were read.
\<close>

function next_line :: "string \<Rightarrow> (string \<times> string) option \<times> nat" where
  "next_line inp =
     (if inp = [] then (None, 0)
      else
        let line = strip_comment (first_line inp) in
        if \<exists>x\<in>set line. \<not> blank x then (Some (line, other_lines inp), 1)
        else (case next_line (other_lines inp) of (r, k) \<Rightarrow> (r, k + 1)))"
  by pat_completeness auto
termination
  by (relation "measure length") (auto simp: other_lines_shorter)

declare next_line.simps [simp del]

lemma ds_get_preprocessed_line_spec:
  assumes "ds_inv d" "length inp < 2 ^ 61" "n + int (snd (next_line inp)) < 2 ^ 31"
  shows "ds_spec w (ds_get_preprocessed_line d inp (Some n) w) (\<lambda>(r, d', inp', n'). ds_inv d' \<and>
    n' = Some (n + int (snd (next_line inp))) \<and>
    (case fst (next_line inp) of
       None \<Rightarrow> r = EOF \<and> inp' = []
     | Some (line, rest) \<Rightarrow> r = 0 \<and> inp' = rest \<and> (\<exists>b. ds_string d' = Some b \<and> NUL \<in> set b \<and> cstring b = line)))"
  using assms
proof (induction inp arbitrary: d n w rule: next_line.induct)
  case (1 inp)
  note prems = 1(2-4) and IH = 1(1)
  let ?line = "strip_comment (first_line inp)"
  show ?case
  proof (subst ds_get_preprocessed_line.simps, rule ds_spec_bind [OF ds_get_line_spec [OF prems(1,2)]], goal_cases)
    case (1 x w1)
    then obtain d1 where x: "x = (if inp = [] then EOF else 0, d1, other_lines inp)"
      and d1: "ds_ok d1 (first_line inp)" by (cases x) auto
    show ?case
    proof (cases "inp = []")
      case True
      with x d1 show ?thesis
        by (simp add: EOF_def next_line.simps [of "[]"] other_lines_def ds_ok_def)
    next
      case False
      show ?thesis
        unfolding x using False
        apply simp
      proof (rule ds_spec_bind [OF ds_cstr_spec [OF d1]], goal_cases)
        case (1 d2 w2)
        then obtain r where d2: "ds_inv d2" "ds_string d2 = Some (first_line inp @ NUL # r)"
          by (auto simp: ds_ok_def)
        have k: "1 \<le> snd (next_line inp)" using False by (subst next_line.simps) (auto simp: Let_def split: prod.split)
        obtain d3 b3 where d3: "cut_comment d2 = Ok d3" "ds_inv d3" "ds_string d3 = Some b3" "NUL \<in> set b3"
          "cstring b3 = ?line"
          using cut_comment_spec [OF d2] by (auto simp: strip_comment_def)
        obtain c where c: "after_blanks d3 = Ok c" "c = NUL \<longleftrightarrow> (\<forall>x\<in>set ?line. blank x)"
          using after_blanks_spec [OF d3(3,4)] d3(5) by auto
        show ?case
        proof (cases "c = NUL")
          case nonblank: False
          then have "next_line inp = (Some (?line, other_lines inp), 1)"
            using c False by (subst next_line.simps) (auto simp: Let_def)
          with nonblank c d3 prems k show ?thesis by (simp add: no_ub_def)
        next
          case True
          with c have bl: "\<not> (\<exists>x\<in>set ?line. \<not> blank x)" by auto
          then have nl: "next_line inp = (case next_line (other_lines inp) of (r, k) \<Rightarrow> (r, k + 1))"
            using False by (subst next_line.simps) (simp add: Let_def)
          have "ds_spec w2 (ds_get_preprocessed_line d3 (other_lines inp) (Some (n + 1)) w2)
            (\<lambda>(r, d', inp', n'). ds_inv d' \<and>
            n' = Some ((n + 1) + int (snd (next_line (other_lines inp)))) \<and>
            (case fst (next_line (other_lines inp)) of
               None \<Rightarrow> r = EOF \<and> inp' = []
             | Some (line, rest) \<Rightarrow> r = 0 \<and> inp' = rest \<and> (\<exists>b. ds_string d' = Some b \<and> NUL \<in> set b \<and> cstring b = line)))"
            using prems d3 nl other_lines_shorter [OF False]
            by (intro IH [OF False refl bl]) (auto split: prod.splits)
          with True c d3 prems k nl show ?thesis
            by (simp add: no_ub_def case_prod_beta algebra_simps)
        qed
      qed
    qed
  qed
qed

section \<open>Hexadecimal\<close>

definition hex_value :: "byte \<Rightarrow> nat" where
  "hex_value c = (if byte_val c < 58 then byte_val c - 48 else byte_val c - 87)"

definition read_hex :: "string \<Rightarrow> nat" where
  "read_hex xs = foldl (\<lambda>a c. 16 * a + hex_value c) 0 xs"

lemma hex_value_hex_char [simp]: "d < 16 \<Longrightarrow> hex_value (hex_char d) = d"
  by (simp add: hex_value_def byte_val_hex_char)

lemma foldl_hex: "foldl (\<lambda>a c. 16 * a + hex_value c) k xs = k * 16 ^ length xs + read_hex xs"
proof (induction xs rule: rev_induct)
  case (snoc x xs)
  then show ?case by (simp add: read_hex_def algebra_simps)
qed (simp add: read_hex_def)

lemma read_hex_append: "read_hex (xs @ ys) = read_hex xs * 16 ^ length ys + read_hex ys"
  using foldl_hex [of "read_hex xs" ys] by (simp add: read_hex_def)

lemma read_hex_singleton [simp]: "read_hex [c] = hex_value c"
  by (simp add: read_hex_def)

lemma read_hex_show_hex [simp]: "read_hex (show_hex n) = n"
proof (induction n rule: show_hex.induct)
  case (1 n)
  then show ?case by (subst show_hex.simps) (simp add: read_hex_append)
qed

lemma read_hex_zeros [simp]: "read_hex (replicate k (CHR ''0'')) = 0"
proof (induction k)
  case (Suc k)
  have "hex_value (CHR ''0'') = 0" by (simp add: hex_value_def byte_val_def)
  with Suc show ?case by (simp add: read_hex_def)
qed (simp add: read_hex_def)

lemma read_hex_pad [simp]: "read_hex (hex_pad k n) = n"
  by (simp add: hex_pad_def read_hex_append)

lemma length_show_hex_le: "0 < k \<Longrightarrow> n < 16 ^ k \<Longrightarrow> length (show_hex n) \<le> k"
proof (induction k arbitrary: n)
  case (Suc k)
  show ?case
  proof (cases "n < 16")
    case True
    then show ?thesis by (subst show_hex.simps) simp
  next
    case False
    then have "k \<noteq> 0" using Suc.prems by (cases k) auto
    moreover have "n div 16 < 16 ^ k" using Suc.prems by (simp add: div_less_iff_less_mult mult.commute)
    ultimately have "length (show_hex (n div 16)) \<le> k" using Suc.IH by simp
    with False show ?thesis by (subst show_hex.simps) simp
  qed
qed simp

lemma length_hex_pad: "0 < k \<Longrightarrow> n < 16 ^ k \<Longrightarrow> length (hex_pad k n) = k"
  using length_show_hex_le [of k n] by (simp add: hex_pad_def)

fun hex_text :: "bool \<Rightarrow> string \<Rightarrow> string" where
  "hex_text printed [] = []"
| "hex_text printed (c # cs) =
     (if byte_val c \<noteq> 0 \<or> printed
      then (if printed then hex_pad 2 (byte_val c) else ''0x'' @ show_hex (byte_val c)) @ hex_text True cs
      else hex_text False cs)"

text \<open>The number the bytes stand for, most significant first.\<close>

definition big_endian :: "string \<Rightarrow> nat" where
  "big_endian xs = foldl (\<lambda>a c. 256 * a + byte_val c) 0 xs"

lemma foldl_be: "foldl (\<lambda>a c. 256 * a + byte_val c) k xs = k * 256 ^ length xs + big_endian xs"
proof (induction xs rule: rev_induct)
  case (snoc x xs)
  then show ?case by (simp add: big_endian_def algebra_simps)
qed (simp add: big_endian_def)

lemma big_endian_Cons: "big_endian (c # cs) = byte_val c * 256 ^ length cs + big_endian cs"
  using foldl_be [of "byte_val c" cs] by (simp add: big_endian_def)

lemma hex_text_True: "read_hex (hex_text True xs) = big_endian xs \<and> length (hex_text True xs) = 2 * length xs"
proof (induction xs)
  case (Cons c xs)
  have "length (hex_pad 2 (byte_val c)) = 2" by (rule length_hex_pad) simp_all
  moreover have "(16::nat) ^ (2 * length xs) = 256 ^ length xs" by (simp add: power_mult)
  ultimately show ?case using Cons by (simp add: read_hex_append big_endian_Cons)
qed (simp add: read_hex_def big_endian_def)

lemma hex_text_False:
  "if big_endian xs = 0 then hex_text False xs = []
   else \<exists>u. hex_text False xs = ''0x'' @ u \<and> read_hex u = big_endian xs"
proof (induction xs)
  case (Cons c xs)
  show ?case
  proof (cases "byte_val c = 0")
    case True
    with Cons show ?thesis by (cases "big_endian xs = 0") (simp_all add: big_endian_Cons)
  next
    case False
    have "(16::nat) ^ (2 * length xs) = 256 ^ length xs" by (simp add: power_mult)
    with False hex_text_True [of xs] show ?thesis
      by (simp add: big_endian_Cons read_hex_append)
  qed
qed (simp add: big_endian_def)

lemma length_hex_text: "length (hex_text printed xs) \<le> 4 * length xs"
proof (induction xs arbitrary: printed)
  case (Cons c xs)
  have "length (show_hex (byte_val c)) \<le> 2" by (rule length_show_hex_le) simp_all
  moreover have "length (hex_pad 2 (byte_val c)) = 2" by (rule length_hex_pad) simp_all
  ultimately show ?case using Cons [of True] Cons [of False] by (auto)
qed simp

lemma ds_hex_loop_spec:
  assumes "ds_ok d v" "n \<le> length buf" "i \<le> n" "length v + 4 * (n - i) < 2 ^ 31" "n < 2 ^ 31 - 1"
  shows "ds_spec w (ds_hex_loop d buf i n printed w)
    (\<lambda>(d', p'). ds_ok d' (v @ hex_text printed (drop i (take n buf))) \<and>
       (p' \<longleftrightarrow> printed \<or> hex_text printed (drop i (take n buf)) \<noteq> []))"
  using assms
proof (induction "n - i" arbitrary: d v i printed w)
  case 0
  then show ?case by (subst ds_hex_loop.simps) simp
next
  case (Suc k)
  then have i: "i < n" "load buf i = Ok (buf ! i)" "i + 1 < 2 ^ 31" by (simp_all add: load_def)
  define c where "c = buf ! i"
  define t where "t = (if byte_val c \<noteq> 0 \<or> printed
      then (if printed then hex_pad 2 (byte_val c) else ''0x'' @ show_hex (byte_val c)) else [])"
  define p where "p \<longleftrightarrow> byte_val c \<noteq> 0 \<or> printed"
  have d: "drop i (take n buf) = c # drop (i + 1) (take n buf)"
    using i Suc.prems by (subst Cons_nth_drop_Suc [symmetric]) (simp_all add: c_def)
  have "length (show_hex (byte_val c)) \<le> 2" by (rule length_show_hex_le) simp_all
  moreover have "length (hex_pad 2 (byte_val c)) = 2" by (rule length_hex_pad) simp_all
  ultimately have t: "length t \<le> 4" by (simp add: t_def)
  have put: "ds_spec w (if byte_val c \<noteq> 0 \<or> printed then
            res_bind (if \<not> printed then ds_put_format d (''0x'' @ show_hex (byte_val c)) w
                      else ds_put_format d (hex_pad 2 (byte_val c)) w) (\<lambda>(d, w). Ok ((d, True), w))
          else Ok ((d, printed), w)) (\<lambda>(d', p'). ds_ok d' (v @ t) \<and> p' = p)"
  proof (cases p)
    case True
    have "ds_spec w (ds_put_format d t w) (\<lambda>d'. ds_ok d' (v @ t))"
      using Suc.prems t i by (intro ds_put_format_spec) auto
    then have "ds_spec w (res_bind (ds_put_format d t w) (\<lambda>(d, w). Ok ((d, True), w)))
        (\<lambda>(d', p'). ds_ok d' (v @ t) \<and> p' = p)"
      by (rule ds_spec_bind) (simp add: True)
    then show ?thesis using True by (auto simp: t_def p_def)
  next
    case False
    then show ?thesis using Suc.prems by (simp add: t_def p_def)
  qed
  have step: "hex_text printed (c # xs) = t @ hex_text p xs" for xs
    by (auto simp: t_def p_def)
  have tp: "t \<noteq> [] \<longleftrightarrow> p"
    by (auto simp: t_def p_def hex_pad_def)
  have unf: "ds_hex_loop d buf i n printed w = res_bind (if byte_val c \<noteq> 0 \<or> printed then
            res_bind (if \<not> printed then ds_put_format d (''0x'' @ show_hex (byte_val c)) w
                      else ds_put_format d (hex_pad 2 (byte_val c)) w) (\<lambda>(d, w). Ok ((d, True), w))
          else Ok ((d, printed), w)) (\<lambda>((d, printed), w).
        res_bind (no_ub (i + 1 < 2 ^ 31)) (\<lambda>_. ds_hex_loop d buf (i + 1) n printed w))"
    by (subst ds_hex_loop.simps) (simp only: i(1,2) if_True res_bind.simps c_def [symmetric])
  show ?case
    unfolding unf d step
  proof (rule ds_spec_bind [OF put], goal_cases)
    case (1 x w')
    then obtain d' where x: "x = (d', p)" "ds_ok d' (v @ t)" by (cases x) auto
    have "ds_spec w' (ds_hex_loop d' buf (i + 1) n p w')
      (\<lambda>(d', p'). ds_ok d' ((v @ t) @ hex_text p (drop (i + 1) (take n buf))) \<and>
         (p' \<longleftrightarrow> p \<or> hex_text p (drop (i + 1) (take n buf)) \<noteq> []))"
      using Suc x i t by (intro Suc.hyps(1)) auto
    moreover have "p \<or> hex_text p ys \<noteq> [] \<longleftrightarrow> printed \<or> t @ hex_text p ys \<noteq> []" for ys
      using tp by (auto simp: p_def)
    ultimately show ?case
      unfolding x(1) prod.case no_ub_def if_P [OF i(3)] res_bind.simps append_assoc by simp
  qed
qed

lemma ds_put_hex_spec:
  assumes d: "ds_ok d v" and n: "n \<le> length buf" "length v + 4 * n + 1 < 2 ^ 31"
  shows "ds_spec w (ds_put_hex d buf n w) (\<lambda>d'. \<exists>t. ds_ok d' (v @ t) \<and>
    (if big_endian (take n buf) = 0 then t = ''0''
     else \<exists>u. t = ''0x'' @ u \<and> read_hex u = big_endian (take n buf)))"
  unfolding ds_put_hex_def
proof (rule ds_spec_bind [OF ds_hex_loop_spec [OF d n(1)]], goal_cases)
  case (4 x w')
  obtain d' p where x: "x = (d', p)" by force
  let ?t = "hex_text False (take n buf)"
  from 4 x have d': "ds_ok d' (v @ ?t)" "p \<longleftrightarrow> ?t \<noteq> []" by simp_all
  show ?case
  proof (cases "big_endian (take n buf) = 0")
    case True
    then have t: "?t = []" using hex_text_False [of "take n buf"] by simp
    then have "ds_spec w' (ds_put_char d' (CHR ''0'') w') (\<lambda>d''. ds_ok d'' (v @ ''0''))"
      using d' n by (intro ds_put_char_spec) simp_all
    with True t d' x show ?thesis by simp
  next
    case False
    then obtain u where "?t = ''0x'' @ u" "read_hex u = big_endian (take n buf)"
      using hex_text_False [of "take n buf"] by auto
    with False d' x show ?thesis by auto
  qed
qed (use n in auto)

section \<open>The buffer interface\<close>

text \<open>The state is the string and the world; pieces are appended by \<open>ds_put_buffer\<close>.\<close>

definition ds_put :: "string \<Rightarrow> ds \<times> world \<Rightarrow> (ds \<times> world) cres" where
  "ds_put t s = (case s of (d, w) \<Rightarrow> ds_put_buffer d t (length t) w)"

definition ds_reset :: "ds \<times> world \<Rightarrow> (ds \<times> world) cres" where
  "ds_reset s = (case s of (d, w) \<Rightarrow> Ok (ds_clear d, w))"

interpretation ds_buffer: clearable_buffer ds_put "\<lambda>s. ds_inv (fst s)" "\<lambda>s. ds_val (fst s)"
  "\<lambda>s. may_oom (snd s)" "2 ^ 62" ds_reset
proof (unfold_locales, goal_cases)
  case (1 s t)
  obtain d w where [simp]: "s = (d, w)" by force
  have "ds_spec w (ds_put_buffer d t (length t) w) (\<lambda>d'. ds_ok d' (ds_val d @ take (length t) t))"
    using 1 by (intro ds_put_buffer_spec) (auto simp: ds_ok_def)
  then show ?case
    by (auto simp: ds_put_def ds_spec_def ds_ok_def elim!: wp_weaken)
next
  case (2 s)
  obtain d w where "s = (d, w)" by force
  with 2 ds_clear_ok [of d] show ?case by (simp add: ds_reset_def ds_ok_def)
qed

section \<open>Properties\<close>

text \<open>C12. \<open>ds_put_utf8\<close> appends a well-formed UTF-8 sequence that decodes to the code point,
  and the replacement character for numbers beyond the last code point.\<close>

theorem ds_put_utf8_decodes:
  assumes "ds_ok d v" "length v < 2 ^ 61" "0 \<le> uc"
  shows "ds_spec w (ds_put_utf8 d uc w) (\<lambda>d'. \<exists>t. ds_ok d' (v @ t) \<and> 1 \<le> length t \<and> length t \<le> 4 \<and>
    (\<forall>r. utf8_decode (t @ r) = Some (if uc \<le> 0x10ffff then uc else 0xfffd, r)))"
proof -
  let ?u = "if uc \<le> 0x10ffff then uc else 0xfffd"
  have "utf8_decode (utf8 ?u @ r) = Some (?u, r)" for r
    using assms(3) by (intro utf8_decode_utf8) auto
  moreover have "1 \<le> length (utf8 ?u)" "length (utf8 ?u) \<le> 4"
    by (simp_all add: utf8_def)
  ultimately show ?thesis
    using ds_put_utf8_spec [OF assms(1,2), of w uc] by (auto elim!: ds_spec_weaken)
qed

theorem ds_put_utf8_decodes_witness:
  "ds_spec quiet (ds_put_utf8 ds_init 0x20ac quiet) (\<lambda>d'. \<exists>t. ds_ok d' ([] @ t) \<and> 1 \<le> length t \<and> length t \<le> 4 \<and>
    (\<forall>r. utf8_decode (t @ r) = Some (0x20ac, r)))"
  using ds_put_utf8_decodes [OF ds_init_ok, of "0x20ac" quiet] by simp

text \<open>\<open>ds_put_printable\<close> appends printable text only, from which the original bytes can
  be read back.\<close>

theorem ds_put_printable_invertible:
  assumes "ds_ok d v" "n \<le> length s" "length v + 4 * n < 2 ^ 31"
  shows "ds_spec w (ds_put_printable d s n w) (\<lambda>d'. \<exists>t. ds_ok d' (v @ t) \<and> unprintable t = take n s \<and>
    (\<forall>c\<in>set t. isprint c))"
proof -
  have h: "isprint (hex_char k)" if "k < 16" for k
    using that by (simp add: isprint_def byte_val_hex_char)
  have "isprint x" if x: "x \<in> set (printable1 c)" for c x
  proof (cases "byte_val c < 0x20 \<or> byte_val c > 0x7e \<or> c = CHR 0x5C \<or> c = CHR 0x22")
    case True
    have "byte_val c < 8 * 64" by (rule order.strict_trans [OF byte_val_bound]) simp
    then have "byte_val c div 64 < 8" by (rule less_mult_imp_div_less)
    moreover have "isprint (CHR 0x5C)" by (simp add: isprint_def byte_val_def)
    moreover have "byte_val c div 8 mod 8 < 16" "byte_val c mod 8 < 16"
      using mod_less_divisor [of 8 "byte_val c"] mod_less_divisor [of 8 "byte_val c div 8"] by linarith+
    ultimately show ?thesis
      using True x h by (auto simp: printable1_def octal_escape_def)
  next
    case False
    with x show ?thesis by (auto simp: printable1_def isprint_def)
  qed
  then have p: "\<forall>c\<in>set (concat (map printable1 (take n s))). isprint c" by auto
  show ?thesis
    by (rule ds_spec_weaken [OF ds_put_printable_spec [OF assms]],
        rule exI [of _ "concat (map printable1 (take n s))"])
      (use p unprintable_concat [of "take n s"] in simp)
qed

theorem ds_put_printable_invertible_witness:
  "ds_spec quiet (ds_put_printable ds_init [CHR ''a'', CHR 0x0A] 2 quiet) (\<lambda>d'. \<exists>t. ds_ok d' ([] @ t) \<and>
    unprintable t = [CHR ''a'', CHR 0x0A] \<and> (\<forall>c\<in>set t. isprint c))"
  using ds_put_printable_invertible [OF ds_init_ok, of 2 "[CHR ''a'', CHR 0x0A]" quiet] by simp

text \<open>\<open>ds_put_hex\<close> appends the number its bytes stand for, most significant first, in
  hexadecimal without leading zero bytes, and a single digit for zero.\<close>

theorem ds_put_hex_reads_back:
  assumes "ds_ok d v" "n \<le> length buf" "length v + 4 * n + 1 < 2 ^ 31"
  shows "ds_spec w (ds_put_hex d buf n w) (\<lambda>d'. \<exists>t. ds_ok d' (v @ t) \<and>
    (if big_endian (take n buf) = 0 then t = ''0''
     else \<exists>u. t = ''0x'' @ u \<and> read_hex u = big_endian (take n buf)))"
  using assms by (rule ds_put_hex_spec)

theorem ds_put_hex_reads_back_witness:
  "ds_spec quiet (ds_put_hex ds_init [NUL, CHR 0x01, CHR 0x0A] 3 quiet) (\<lambda>d'. \<exists>t. ds_ok d' ([] @ t) \<and>
    (\<exists>u. t = ''0x'' @ u \<and> read_hex u = 266))"
  using ds_put_hex_reads_back [OF ds_init_ok, of 3 "[NUL, CHR 0x01, CHR 0x0A]" quiet]
  by (simp add: big_endian_def byte_val_def)

text \<open>C37. \<open>ds_get_preprocessed_line\<close> returns the first line with something on it, without its
  comment, leaves the stream just after it, and counts the lines it read; at the end of
  the input it returns EOF.\<close>

theorem ds_get_preprocessed_line_correct:
  assumes "ds_inv d" "length inp < 2 ^ 61" "n + int (snd (next_line inp)) < 2 ^ 31"
  shows "ds_spec w (ds_get_preprocessed_line d inp (Some n) w) (\<lambda>(r, d', inp', n'). ds_inv d' \<and>
    n' = Some (n + int (snd (next_line inp))) \<and>
    (case fst (next_line inp) of
       None \<Rightarrow> r = EOF \<and> inp' = []
     | Some (line, rest) \<Rightarrow> r = 0 \<and> inp' = rest \<and> (\<exists>b. ds_string d' = Some b \<and> NUL \<in> set b \<and> cstring b = line)))"
  using assms by (rule ds_get_preprocessed_line_spec)

theorem ds_get_preprocessed_line_correct_witness:
  "ds_spec quiet (ds_get_preprocessed_line ds_init (''#x'' @ CHR 0x0A # ''ab#c'' @ CHR 0x0A # ''d'') (Some 0) quiet)
    (\<lambda>(r, d', inp', n'). ds_inv d' \<and> n' = Some 2 \<and> r = 0 \<and> inp' = ''d'' \<and>
      (\<exists>b. ds_string d' = Some b \<and> NUL \<in> set b \<and> cstring b = ''ab''))"
proof -
  have "next_line (''#x'' @ CHR 0x0A # ''ab#c'' @ CHR 0x0A # ''d'') = (Some (''ab'', ''d''), 2)"
    by code_simp
  with ds_get_preprocessed_line_correct [of ds_init "''#x'' @ CHR 0x0A # ''ab#c'' @ CHR 0x0A # ''d''" 0 quiet] ds_init_ok
  show ?thesis by (simp add: ds_ok_def)
qed

text \<open>Clearing a ds and appending any pieces of text leaves exactly their concatenation,
  whatever the buffer held before; nothing but a refused allocation stops it.\<close>

theorem ds_rebuild_correct:
  assumes "ds_inv d" "length (concat ts) < 2 ^ 62"
  shows "wp (may_oom w) (rebuild ds_reset ds_put ts (d, w))
    (\<lambda>(d', w'). ds_inv d' \<and> ds_val d' = concat ts)"
  using ds_buffer.rebuild [of "(d, w)" ts] assms by (auto elim!: wp_weaken)

theorem ds_rebuild_correct_witness:
  "wp (may_oom quiet) (rebuild ds_reset ds_put [''ab'', ''c''] (ds_init, quiet))
    (\<lambda>(d', w'). ds_inv d' \<and> ds_val d' = ''abc'')"
  using ds_rebuild_correct [of ds_init "[''ab'', ''c'']" quiet] ds_init_ok by (simp add: ds_ok_def)

end
