(* ===== verification/DynStringProg.thy ===== *)
theory DynStringProg
  imports DynStringText
begin

text \<open>
  Programs of operations on one string buffer of src/Clang/string/ovs/dynamic-string.c, with the text that
  each leaves, and the text of a hexadecimal dump.
\<close>

section \<open>The dump\<close>

definition dump_byte :: "string \<Rightarrow> nat \<Rightarrow> nat \<Rightarrow> string" where
  "dump_byte buf start i = hex_pad 2 (byte_val (buf ! (i - start))) @ [if i = 7 then CHR ''-'' else CHR '' '']"

definition dump_char :: "string \<Rightarrow> nat \<Rightarrow> nat \<Rightarrow> string" where
  "dump_char buf start i = (let c = buf ! (i - start) in [if 32 \<le> byte_val c \<and> byte_val c < 127 then c else CHR ''.''])"

definition dump_columns :: "string \<Rightarrow> nat \<Rightarrow> nat \<Rightarrow> nat \<Rightarrow> string" where
  "dump_columns buf ofs start en =
     hex_pad 8 (ofs div 16 * 16) @ ''  '' @ concat (map (\<lambda>_. ''   '') [0..<start]) @ concat (map (dump_byte buf start) [start..<en])"

definition dump_line :: "string \<Rightarrow> nat \<Rightarrow> nat \<Rightarrow> nat \<Rightarrow> bool \<Rightarrow> string" where
  "dump_line buf ofs start en ascii =
     (let t = dump_columns buf ofs start en in
      (if ascii then
         t @ concat (map (\<lambda>_. ''   '') [en..<16]) @ ''|'' @ concat (map (\<lambda>_. '' '') [0..<start]) @
         concat (map (dump_char buf start) [start..<en]) @ concat (map (\<lambda>_. '' '') [en..<16]) @ ''|''
       else if last t = CHR '' '' then butlast t else t) @ [CHR 0x0A])"

fun dump_text :: "nat \<Rightarrow> string \<Rightarrow> nat \<Rightarrow> bool \<Rightarrow> string" where
  "dump_text 0 buf ofs ascii = []"
| "dump_text (Suc k) buf ofs ascii =
     (if buf = [] then [] else
        let start = ofs mod 16; n = min (16 - start) (length buf) in
        dump_line buf ofs start (start + n) ascii @ dump_text k (drop n buf) (w64 (ofs + n)) ascii)"

declare dump_text.simps(2) [simp del]

text \<open>One step of a sequence, with the text that it leaves.\<close>

lemma ds_then:
  assumes "ds_spec w r (\<lambda>d'. ds_ok d' v)" "\<And>d' w'. ds_ok d' v \<Longrightarrow> ds_spec w' (f d' w') Q"
  shows "ds_spec w (res_bind r (\<lambda>(d, w). f d w)) Q"
  by (rule ds_spec_bind [OF assms(1)]) (simp add: assms(2))

lemma ds_for_spec:
  assumes "ds_ok d v" "length v + length (concat (map t [i..<n])) < B"
    and "\<And>j d v w. i \<le> j \<Longrightarrow> j < n \<Longrightarrow> ds_ok d v \<Longrightarrow> length v + length (t j) < B \<Longrightarrow> ds_spec w (f j d w) (\<lambda>d'. ds_ok d' (v @ t j))"
  shows "ds_spec w (ds_for i n f d w) (\<lambda>d'. ds_ok d' (v @ concat (map t [i..<n])))"
  using assms
proof (induction "n - i" arbitrary: i d v w)
  case 0
  then show ?case by (subst ds_for.simps) simp
next
  case (Suc k)
  have up: "[i..<n] = i # [Suc i..<n]" using Suc.hyps(2) by (simp add: upt_conv_Cons)
  have step: "ds_spec w (f i d w) (\<lambda>d'. ds_ok d' (v @ t i))"
    using Suc.prems(1,2) Suc.hyps(2) by (intro Suc.prems(3)) (auto simp: up)
  have "ds_spec w' (ds_for (i + 1) n f d' w') (\<lambda>d'. ds_ok d' ((v @ t i) @ concat (map t [Suc i..<n])))" if "ds_ok d' (v @ t i)" for d' w'
    using Suc.hyps(1) [of "Suc i" d' "v @ t i" w'] Suc.hyps(2) Suc.prems(2,3) that by (simp add: up)
  then show ?case
    using Suc.hyps(2) by (subst ds_for.simps) (auto simp: up intro!: ds_then [OF step])
qed

lemmas pads = ds_for_spec [where t = "\<lambda>_. ''   ''" and B = "2 ^ 31" and f = "\<lambda>_ d w. ds_put_format d ''   '' w", OF _ _ ds_put_format_spec]
lemmas blanks = ds_for_spec [where t = "\<lambda>_. '' ''" and B = "2 ^ 31" and f = "\<lambda>_ d w. ds_put_format d '' '' w", OF _ _ ds_put_format_spec]

lemma hex_dump_columns:
  assumes d: "ds_ok d v" and n: "length v + length (dump_columns buf ofs start en) < 2 ^ 31" and b: "en - start \<le> length buf"
    and k: "\<And>d' w'. ds_ok d' (v @ dump_columns buf ofs start en) \<Longrightarrow> ds_spec w' (f d' w') Q"
  shows "ds_spec w
    (res_bind (ds_put_format d (hex_pad 8 (ofs div 16 * 16) @ ''  '') w) (\<lambda>(d, w).
     res_bind (ds_for 0 start (\<lambda>_ d w. ds_put_format d ''   '' w) d w) (\<lambda>(d, w).
     res_bind (ds_for start en (\<lambda>i d w.
         res_bind (load buf (i - start)) (\<lambda>x.
         ds_put_format d (hex_pad 2 (byte_val x) @ [if i = 16 div 2 - 1 then CHR ''-'' else CHR '' '']) w)) d w) (\<lambda>(d, w). f d w)))) Q"
proof -
  let ?a = "v @ hex_pad 8 (ofs div 16 * 16) @ ''  ''"
  let ?b = "?a @ concat (map (\<lambda>_. ''   '') [0..<start])"
  have len: "length v + length (hex_pad 8 (ofs div 16 * 16) @ ''  '') < 2 ^ 31" "length ?a + length (concat (map (\<lambda>_. ''   '') [0..<start])) < 2 ^ 31"
    "length ?b + length (concat (map (dump_byte buf start) [start..<en])) < 2 ^ 31"
    using n by (simp_all add: dump_columns_def)
  have bytes: "ds_spec w' (ds_for start en (\<lambda>i d w.
         res_bind (load buf (i - start)) (\<lambda>x.
         ds_put_format d (hex_pad 2 (byte_val x) @ [if i = 16 div 2 - 1 then CHR ''-'' else CHR '' '']) w)) d' w')
       (\<lambda>d'. ds_ok d' (?b @ concat (map (dump_byte buf start) [start..<en])))" if "ds_ok d' ?b" for d' w'
  proof (rule ds_for_spec [OF that len(3)])
    fix j e u wx
    assume j: "start \<le> j" "j < en" "ds_ok e u" "length u + length (dump_byte buf start j) < 2 ^ 31"
    have "load buf (j - start) = Ok (buf ! (j - start))" using j b by (simp add: load_def)
    then show "ds_spec wx (res_bind (load buf (j - start)) (\<lambda>x.
         ds_put_format e (hex_pad 2 (byte_val x) @ [if j = 16 div 2 - 1 then CHR ''-'' else CHR '' '']) wx)) (\<lambda>d'. ds_ok d' (u @ dump_byte buf start j))"
      using ds_put_format_spec [OF j(3,4), of wx] by (simp add: dump_byte_def)
  qed
  show ?thesis
    apply (rule ds_then [OF ds_put_format_spec [OF d len(1)]])
    apply (rule ds_then [OF pads [OF _ len(2)]])
      apply assumption+
    apply (rule ds_then [OF bytes], assumption)
    using k by (simp add: dump_columns_def)
qed

lemma hex_dump_tail:
  assumes d: "ds_ok d v" and b: "en - start \<le> length buf"
    and n: "length v + length (concat (map (\<lambda>_. ''   '') [en..<16]) @ ''|'' @ concat (map (\<lambda>_. '' '') [0..<start]) @
         concat (map (dump_char buf start) [start..<en]) @ concat (map (\<lambda>_. '' '') [en..<16]) @ ''|'') < 2 ^ 31"
  shows "ds_spec w
     (res_bind (ds_for en 16 (\<lambda>_ d w. ds_put_format d ''   '' w) d w) (\<lambda>(d, w).
      res_bind (ds_put_format d ''|'' w) (\<lambda>(d, w).
      res_bind (ds_for 0 start (\<lambda>_ d w. ds_put_format d '' '' w) d w) (\<lambda>(d, w).
      res_bind (ds_for start en (\<lambda>i d w.
             res_bind (load buf (i - start)) (\<lambda>c.
             ds_put_char d (if 32 \<le> byte_val c \<and> byte_val c < 127 then c else CHR ''.'') w)) d w) (\<lambda>(d, w).
      res_bind (ds_for en 16 (\<lambda>_ d w. ds_put_format d '' '' w) d w) (\<lambda>(d, w).
      ds_put_format d ''|'' w))))))
    (\<lambda>d'. ds_ok d' (v @ concat (map (\<lambda>_. ''   '') [en..<16]) @ ''|'' @ concat (map (\<lambda>_. '' '') [0..<start]) @
         concat (map (dump_char buf start) [start..<en]) @ concat (map (\<lambda>_. '' '') [en..<16]) @ ''|''))"
proof -
  let ?a = "v @ concat (map (\<lambda>_. ''   '') [en..<16])"
  let ?c = "(?a @ ''|'') @ concat (map (\<lambda>_. '' '') [0..<start])"
  let ?e = "(?c @ concat (map (dump_char buf start) [start..<en])) @ concat (map (\<lambda>_. '' '') [en..<16])"
  have len: "length v + length (concat (map (\<lambda>_. ''   '') [en..<16])) < 2 ^ 31" "length ?a + length ''|'' < 2 ^ 31"
    "length (?a @ ''|'') + length (concat (map (\<lambda>_. '' '') [0..<start])) < 2 ^ 31"
    "length ?c + length (concat (map (dump_char buf start) [start..<en])) < 2 ^ 31"
    "length (?c @ concat (map (dump_char buf start) [start..<en])) + length (concat (map (\<lambda>_. '' '') [en..<16])) < 2 ^ 31"
    "length ?e + length ''|'' < 2 ^ 31"
    using n by simp_all
  have chars: "ds_spec w' (ds_for start en (\<lambda>i d w.
             res_bind (load buf (i - start)) (\<lambda>c.
             ds_put_char d (if 32 \<le> byte_val c \<and> byte_val c < 127 then c else CHR ''.'') w)) d' w')
       (\<lambda>d'. ds_ok d' (?c @ concat (map (dump_char buf start) [start..<en])))" if "ds_ok d' ?c" for d' w'
  proof (rule ds_for_spec [OF that len(4)])
    fix j e u wx
    assume j: "start \<le> j" "j < en" "ds_ok e u" "length u + length (dump_char buf start j) < 2 ^ 31"
    let ?x = "buf ! (j - start)"
    have "load buf (j - start) = Ok ?x" using j b by (simp add: load_def)
    then show "ds_spec wx (res_bind (load buf (j - start)) (\<lambda>c.
             ds_put_char e (if 32 \<le> byte_val c \<and> byte_val c < 127 then c else CHR ''.'') wx)) (\<lambda>d'. ds_ok d' (u @ dump_char buf start j))"
      using ds_put_char_spec [OF j(3), where w = wx and c = "if 32 \<le> byte_val ?x \<and> byte_val ?x < 127 then ?x else CHR ''.''"] j(4)
      by (simp add: dump_char_def Let_def)
  qed
  show ?thesis
    apply (rule ds_then [OF pads [OF d len(1)]])
     apply assumption+
    apply (rule ds_then [OF ds_put_format_spec [OF _ len(2)]], assumption)
    apply (rule ds_then [OF blanks [OF _ len(3)]])
      apply assumption+
    apply (rule ds_then [OF chars], assumption)
    apply (rule ds_then [OF blanks [OF _ len(5)]])
      apply assumption+
    apply (rule ds_spec_weaken [OF ds_put_format_spec [OF _ len(6)]], assumption)
    apply simp
    done
qed

lemma hex_dump_line_spec:
  assumes d: "ds_ok d v" and b: "en - start \<le> length buf" and lt: "start < en"
    and n: "length v + length (dump_line buf ofs start en ascii) + 1 < 2 ^ 31"
  shows "ds_spec w (hex_dump_line d buf ofs start en ascii w) (\<lambda>d'. ds_ok d' (v @ dump_line buf ofs start en ascii))"
proof -
  let ?t = "dump_columns buf ofs start en"
  have ne: "?t \<noteq> []" by (simp add: dump_columns_def)
  have lt: "length v + length ?t < 2 ^ 31" using n by (auto simp: dump_line_def Let_def split: if_splits)
  show ?thesis
    unfolding hex_dump_line_def
  proof (rule hex_dump_columns [OF d lt b])
    fix d' w'
    assume d': "ds_ok d' (v @ ?t)"
    show "ds_spec w' (res_bind (if ascii then
         res_bind (ds_for en 16 (\<lambda>_ d w. ds_put_format d ''   '' w) d' w') (\<lambda>(d, w).
         res_bind (ds_put_format d ''|'' w) (\<lambda>(d, w).
         res_bind (ds_for 0 start (\<lambda>_ d w. ds_put_format d '' '' w) d w) (\<lambda>(d, w).
         res_bind (ds_for start en (\<lambda>i d w.
             res_bind (load buf (i - start)) (\<lambda>c.
             ds_put_char d (if 32 \<le> byte_val c \<and> byte_val c < 127 then c else CHR ''.'') w)) d w) (\<lambda>(d, w).
         res_bind (ds_for en 16 (\<lambda>_ d w. ds_put_format d '' '' w) d w) (\<lambda>(d, w).
         ds_put_format d ''|'' w)))))
       else res_bind (ds_chomp d' (CHR '' '')) (\<lambda>d. Ok (d, w'))) (\<lambda>(d, w).
     ds_put_format d [CHR 0x0A] w)) (\<lambda>d'. ds_ok d' (v @ dump_line buf ofs start en ascii))"
    proof (cases ascii)
      case True
      have n1: "length (v @ ?t) + length (concat (map (\<lambda>_. ''   '') [en..<16]) @ ''|'' @ concat (map (\<lambda>_. '' '') [0..<start]) @
         concat (map (dump_char buf start) [start..<en]) @ concat (map (\<lambda>_. '' '') [en..<16]) @ ''|'') < 2 ^ 31"
        using n True by (simp add: dump_line_def Let_def)
      show ?thesis
        unfolding if_P [OF True]
      proof (rule ds_then [OF hex_dump_tail [OF d' b n1]], goal_cases)
        case (1 e wx)
        from ds_put_format_spec [OF 1, of "[CHR 0x0A]" wx] show ?case
          using n True by (simp add: dump_line_def Let_def)
      qed
    next
      case False
      let ?u = "v @ (if last ?t = CHR '' '' then butlast ?t else ?t)"
      have u: "(if v @ ?t \<noteq> [] \<and> last (v @ ?t) = CHR '' '' then butlast (v @ ?t) else v @ ?t) = ?u"
        using ne by (simp add: butlast_append)
      obtain e where e: "ds_chomp d' (CHR '' '') = Ok e" "ds_ok e ?u"
        using ds_chomp_spec [OF d', of "CHR '' ''"] unfolding u by blast
      have "length ?u + length [CHR 0x0A] < 2 ^ 31" using n False by (simp add: dump_line_def Let_def)
      from ds_put_format_spec [OF e(2) this, of w'] show ?thesis
        using False e by (simp add: dump_line_def Let_def)
    qed
  qed
qed

lemma ds_put_hex_dump_spec:
  assumes "ds_ok d v" "n = length buf" "n \<le> k" "length v + length (dump_text k buf ofs ascii) + 1 < 2 ^ 31"
  shows "ds_spec w (ds_put_hex_dump d buf n ofs ascii w) (\<lambda>d'. ds_ok d' (v @ dump_text k buf ofs ascii))"
  using assms
proof (induction k arbitrary: d v buf n ofs w)
  case 0
  then show ?case by (subst ds_put_hex_dump.simps) simp
next
  case (Suc k)
  show ?case
  proof (cases "buf = []")
    case True
    then show ?thesis using Suc.prems by (subst ds_put_hex_dump.simps) (simp add: dump_text.simps)
  next
    case False
    let ?start = "ofs mod 16"
    let ?m = "min (16 - ?start) n"
    have en: "(if 16 - ?start > n then ?start + n else 16) = ?start + ?m" by (simp add: min_def)
    have pos: "0 < n" "0 < ?m" using False Suc.prems(2) by simp_all
    let ?l = "dump_line buf ofs ?start (?start + ?m) ascii"
    let ?r = "dump_text k (drop ?m buf) (w64 (ofs + ?m)) ascii"
    have t: "dump_text (Suc k) buf ofs ascii = ?l @ ?r" using False Suc.prems(2) by (simp add: Let_def dump_text.simps)
    have fits: "length (v @ ?l) + length ?r + 1 < 2 ^ 31" using Suc.prems(4) unfolding t by simp
    have rest: "n - ?m = length (drop ?m buf)" "n - ?m \<le> k" using Suc.prems(2,3) pos by simp_all
    have line: "ds_spec w (hex_dump_line d buf ofs ?start (?start + ?m) ascii w) (\<lambda>d'. ds_ok d' (v @ ?l))"
      using fits pos Suc.prems(2) by (intro hex_dump_line_spec [OF Suc.prems(1)]) simp_all
    have "ds_spec w (res_bind (hex_dump_line d buf ofs ?start (?start + ?m) ascii w) (\<lambda>(d, w).
        ds_put_hex_dump d (drop ?m buf) (n - ?m) (w64 (ofs + ?m)) ascii w)) (\<lambda>d'. ds_ok d' ((v @ ?l) @ ?r))"
    proof (rule ds_then [OF line])
      fix d' w'
      assume "ds_ok d' (v @ ?l)"
      then show "ds_spec w' (ds_put_hex_dump d' (drop ?m buf) (n - ?m) (w64 (ofs + ?m)) ascii w') (\<lambda>d'. ds_ok d' ((v @ ?l) @ ?r))"
        by (rule Suc.IH [OF _ rest fits])
    qed
    then show ?thesis
      using pos by (subst ds_put_hex_dump.simps) (simp add: Let_def en t)
  qed
qed

section \<open>Programs\<close>

datatype ds_cmd = Clear | Truncate nat | Reserve nat | Put_char byte | Put_multiple byte nat | Put_buffer string
  | Put_cstr string | Put_utf8 int | Put_format string | Put_printable string | Put_hex string | Put_hex_dump string nat bool
  | Cstr | Chomp byte | Get_line string | Steal

fun ds_exec :: "ds_cmd \<Rightarrow> ds \<Rightarrow> world \<Rightarrow> ds_result" where
  "ds_exec Clear d w = Ok (ds_clear d, w)"
| "ds_exec (Truncate n) d w = res_bind (ds_truncate d n) (\<lambda>d. Ok (d, w))"
| "ds_exec (Reserve n) d w = ds_reserve d n w"
| "ds_exec (Put_char c) d w = ds_put_char d c w"
| "ds_exec (Put_multiple c n) d w = ds_put_char_multiple d c n w"
| "ds_exec (Put_buffer s) d w = ds_put_buffer d s (length s) w"
| "ds_exec (Put_cstr s) d w = ds_put_cstr d (s @ [NUL]) w"
| "ds_exec (Put_utf8 uc) d w = ds_put_utf8 d uc w"
| "ds_exec (Put_format out) d w = ds_put_format d out w"
| "ds_exec (Put_printable s) d w = ds_put_printable d s (length s) w"
| "ds_exec (Put_hex s) d w = ds_put_hex d s (length s) w"
| "ds_exec (Put_hex_dump s ofs ascii) d w = ds_put_hex_dump d s (length s) ofs ascii w"
| "ds_exec Cstr d w = ds_cstr d w"
| "ds_exec (Chomp c) d w = res_bind (ds_chomp d c) (\<lambda>d. Ok (d, w))"
| "ds_exec (Get_line inp) d w = res_bind (ds_get_line d inp w) (\<lambda>((r, d, inp), w). Ok (d, w))"
| "ds_exec Steal d w = res_bind (ds_steal_cstr d w) (\<lambda>((s, d), w). Ok (d, w))"

fun ds_run :: "ds_cmd list \<Rightarrow> ds \<Rightarrow> world \<Rightarrow> ds_result" where
  "ds_run [] d w = Ok (d, w)"
| "ds_run (c # cs) d w = res_bind (ds_exec c d w) (\<lambda>(d, w). ds_run cs d w)"

definition hex_number :: "string \<Rightarrow> string" where
  "hex_number s = (if hex_text False s = [] then ''0'' else hex_text False s)"

text \<open>What each command makes of a text.\<close>

fun ds_text :: "ds_cmd \<Rightarrow> string \<Rightarrow> string" where
  "ds_text Clear v = []"
| "ds_text (Truncate n) v = take n v"
| "ds_text (Reserve n) v = v"
| "ds_text (Put_char c) v = v @ [c]"
| "ds_text (Put_multiple c n) v = v @ replicate n c"
| "ds_text (Put_buffer s) v = v @ s"
| "ds_text (Put_cstr s) v = v @ s"
| "ds_text (Put_utf8 uc) v = v @ utf8 (if uc \<le> 0x10ffff then uc else 0xfffd)"
| "ds_text (Put_format out) v = v @ out"
| "ds_text (Put_printable s) v = v @ concat (map printable1 s)"
| "ds_text (Put_hex s) v = v @ hex_number s"
| "ds_text (Put_hex_dump s ofs ascii) v = v @ dump_text (length s) s ofs ascii"
| "ds_text Cstr v = v"
| "ds_text (Chomp c) v = (if v \<noteq> [] \<and> last v = c then butlast v else v)"
| "ds_text (Get_line inp) v = first_line inp"
| "ds_text Steal v = []"

text \<open>The room that a command may need: every text stays below the limit of an \<open>int\<close>.\<close>

fun ds_need :: "ds_cmd \<Rightarrow> nat" where
  "ds_need (Reserve n) = n"
| "ds_need (Put_char c) = 1"
| "ds_need (Put_multiple c n) = n"
| "ds_need (Put_buffer s) = length s"
| "ds_need (Put_cstr s) = length s"
| "ds_need (Put_utf8 uc) = 4"
| "ds_need (Put_format out) = length out"
| "ds_need (Put_printable s) = 4 * length s"
| "ds_need (Put_hex s) = 4 * length s + 1"
| "ds_need (Put_hex_dump s ofs ascii) = length (dump_text (length s) s ofs ascii) + 1"
| "ds_need (Get_line inp) = length inp"
| "ds_need c = 0"

fun ds_fits :: "ds_cmd list \<Rightarrow> string \<Rightarrow> bool" where
  "ds_fits [] v = True"
| "ds_fits (c # cs) v \<longleftrightarrow> length v + ds_need c < 2 ^ 31 \<and> (case c of Put_cstr s \<Rightarrow> NUL \<notin> set s | _ \<Rightarrow> True) \<and> ds_fits cs (ds_text c v)"

lemma ds_put_hex_exact:
  assumes d: "ds_ok d v" and n: "length v + 4 * length s + 1 < 2 ^ 31"
  shows "ds_spec w (ds_put_hex d s (length s) w) (\<lambda>d'. ds_ok d' (v @ hex_number s))"
  unfolding ds_put_hex_def
proof (rule ds_spec_bind [OF ds_hex_loop_spec [OF d order_refl]], goal_cases)
  case (4 x w')
  obtain d' p where x: "x = (d', p)" by force
  from 4 x have d': "ds_ok d' (v @ hex_text False s)" "p \<longleftrightarrow> hex_text False s \<noteq> []" by simp_all
  have "hex_text False s = [] \<Longrightarrow> ds_spec w' (ds_put_char d' (CHR ''0'') w') (\<lambda>d''. ds_ok d'' (v @ ''0''))"
    using d' n by (intro ds_put_char_spec) simp_all
  then show ?case using d' x by (simp add: hex_number_def)
qed (use n in auto)

lemma ds_steal_spec: "ds_ok d v \<Longrightarrow> ds_spec w (res_bind (ds_steal_cstr d w) (\<lambda>((s, d), w). Ok (d, w))) (\<lambda>d'. ds_ok d' [])"
  unfolding ds_steal_cstr_def res_bind_assoc
  by (rule ds_spec_bind [OF ds_cstr_spec]) (auto simp: ds_init_ok)

lemma ds_exec_spec:
  assumes d: "ds_ok d v" and n: "length v + ds_need c < 2 ^ 31" and z: "case c of Put_cstr s \<Rightarrow> NUL \<notin> set s | _ \<Rightarrow> True"
  shows "ds_spec w (ds_exec c d w) (\<lambda>d'. ds_ok d' (ds_text c v))"
proof (cases c)
  case Clear
  then show ?thesis using d ds_clear_ok [of d] by (simp add: ds_ok_def)
next
  case (Truncate k)
  obtain d' where "ds_truncate d k = Ok d'" "ds_ok d' (take k v)" using ds_truncate_spec [OF d] by blast
  then show ?thesis by (simp add: Truncate)
next
  case (Reserve k)
  then show ?thesis using ds_reserve_spec [of d k w] d n by (auto simp: ds_ok_def elim!: ds_spec_weaken)
next
  case (Put_char x)
  then show ?thesis using n by (auto intro!: ds_put_char_spec [OF d])
next
  case (Put_multiple x k)
  then show ?thesis using n by (auto intro!: ds_put_char_multiple_spec [OF d])
next
  case (Put_buffer s)
  then show ?thesis using ds_put_buffer_spec [OF d, of "length s" s w] n by simp
next
  case (Put_cstr s)
  then show ?thesis using ds_put_cstr_spec [OF d, of "s @ [NUL]" w] n z by simp
next
  case (Put_utf8 uc)
  then show ?thesis using ds_put_utf8_spec [OF d, of w uc] n by simp
next
  case (Put_format out)
  then show ?thesis using ds_put_format_spec [OF d, of out w] n by simp
next
  case (Put_printable s)
  then show ?thesis using ds_put_printable_spec [OF d, of "length s" s w] n by simp
next
  case (Put_hex s)
  then show ?thesis using ds_put_hex_exact [OF d, of s w] n by simp
next
  case (Put_hex_dump s ofs ascii)
  then show ?thesis using ds_put_hex_dump_spec [OF d refl order_refl, of s ofs ascii w] n by simp
next
  case Cstr
  then show ?thesis using ds_cstr_spec [OF d, of w] by (auto elim!: ds_spec_weaken)
next
  case (Chomp x)
  obtain d' where "ds_chomp d x = Ok d'" "ds_ok d' (ds_text c v)" using ds_chomp_spec [OF d, of x] Chomp by auto
  then show ?thesis by (simp add: Chomp)
next
  case (Get_line inp)
  have "ds_spec w (ds_get_line d inp w) (\<lambda>(r, d', inp'). ds_ok d' (first_line inp) \<and> inp' = other_lines inp \<and> r = (if inp = [] then EOF else 0))"
    using n d by (intro ds_get_line_spec) (auto simp: Get_line ds_ok_def)
  then show ?thesis
    by (simp add: Get_line) (erule ds_spec_bind, auto)
next
  case Steal
  then show ?thesis using ds_steal_spec [OF d] by simp
qed

text \<open>C21. Whatever operations are applied to a string buffer it stays well formed and its text is what the same operations
  make of a list of bytes; nothing is undefined and only a refused allocation ends the program.\<close>

theorem ds_program_typed:
  assumes "ds_inv d" "ds_fits cs (ds_val d)"
  shows "wp (may_oom w) (ds_run cs d w) (\<lambda>(d', w'). ds_inv d' \<and> ds_val d' = fold ds_text cs (ds_val d))"
proof -
  have "ds_spec w (ds_run cs d w) (\<lambda>d'. ds_ok d' (fold ds_text cs v))" if "ds_ok d v" "ds_fits cs v" for v
    using that
  proof (induction cs arbitrary: d v w)
    case (Cons c cs)
    have "ds_spec w (ds_exec c d w) (\<lambda>d'. ds_ok d' (ds_text c v))"
      using Cons.prems by (intro ds_exec_spec) simp_all
    then show ?case
      using Cons.prems(2) by (simp del: ds_text.simps) (rule ds_then, assumption, rule Cons.IH, simp_all)
  qed simp
  from this [of "ds_val d"] show ?thesis
    using assms by (auto simp: ds_spec_def ds_ok_def elim!: wp_weaken)
qed

theorem ds_program_typed_witness:
  "wp (may_oom quiet) (ds_run [Put_cstr ''ab'', Chomp (CHR ''b''), Put_multiple (CHR ''x'') (Suc (Suc 0)), Truncate (Suc (Suc 0)), Cstr] ds_init quiet)
    (\<lambda>(d', w'). ds_inv d' \<and> ds_val d' = ''ax'')"
  using ds_program_typed [of ds_init "[Put_cstr ''ab'', Chomp (CHR ''b''), Put_multiple (CHR ''x'') (Suc (Suc 0)), Truncate (Suc (Suc 0)), Cstr]" quiet]
    ds_init_ok by (simp add: ds_ok_def)

end
