(* ===== verification/BitTricks.thy ===== *)
theory BitTricks
  imports Prelude
begin

text \<open>
  Smearing the bits of a word to the right, as src/Clang/string/lwan/strbuf.c and
  src/Clang/map/ovs/hmap.c do to find the next power of two.
\<close>

definition smear :: "nat \<Rightarrow> u64 \<Rightarrow> u64" where
  "smear k x = x OR drop_bit k x"

lemma bit_smear:
  assumes "\<And>i. bit x i \<longleftrightarrow> (\<exists>j\<ge>i. j < i + k \<and> bit (m :: u64) j)"
  shows "bit (smear k x) i \<longleftrightarrow> (\<exists>j\<ge>i. j < i + 2 * k \<and> bit m j)"
proof -
  have "bit (smear k x) i \<longleftrightarrow> (\<exists>j\<ge>i. j < i + k \<and> bit m j) \<or> (\<exists>j\<ge>k + i. j < k + i + k \<and> bit m j)"
    by (simp add: smear_def bit_simps assms)
  also have "\<dots> \<longleftrightarrow> (\<exists>j\<ge>i. j < i + 2 * k \<and> bit m j)"
  proof
    assume "\<exists>j\<ge>i. j < i + 2 * k \<and> bit m j"
    then obtain j where "i \<le> j" "j < i + 2 * k" "bit m j" by blast
    then show "(\<exists>j\<ge>i. j < i + k \<and> bit m j) \<or> (\<exists>j\<ge>k + i. j < k + i + k \<and> bit m j)"
      by (cases "j < i + k") auto
  next
    assume "(\<exists>j\<ge>i. j < i + k \<and> bit m j) \<or> (\<exists>j\<ge>k + i. j < k + i + k \<and> bit m j)"
    then show "\<exists>j\<ge>i. j < i + 2 * k \<and> bit m j"
      by (elim disjE exE conjE; intro exI conjI) auto
  qed
  finally show ?thesis .
qed

lemma bit_smear_all:
  "bit (smear 16 (smear 8 (smear 4 (smear 2 (smear 1 m))))) i \<longleftrightarrow> (\<exists>j\<ge>i. j < i + 32 \<and> bit (m :: u64) j)"
proof -
  have 0: "bit m i \<longleftrightarrow> (\<exists>j\<ge>i. j < i + 1 \<and> bit m j)" for i
    by (auto simp: less_Suc_eq)
  note 1 = bit_smear [of m 1 m, OF 0, simplified]
  note 2 = bit_smear [of "smear 1 m" 2 m, simplified, OF 1 [simplified]]
  note 3 = bit_smear [of "smear 2 (smear 1 m)" 4 m, simplified, OF 2 [simplified]]
  note 4 = bit_smear [of "smear 4 (smear 2 (smear 1 m))" 8 m, simplified, OF 3 [simplified]]
  show ?thesis
    using bit_smear [of "smear 8 (smear 4 (smear 2 (smear 1 m)))" 16 m, simplified, OF 4 [simplified]] by simp
qed

lemma bit_smear_all64:
  "bit (smear 32 (smear 16 (smear 8 (smear 4 (smear 2 (smear 1 m)))))) i \<longleftrightarrow> (\<exists>j\<ge>i. j < i + 64 \<and> bit (m :: u64) j)"
  using bit_smear [of _ 32 m, OF bit_smear_all] by simp

text \<open>A smeared word is a mask up to the highest bit.\<close>

lemma smear_mask:
  fixes m s :: u64
  assumes s: "\<And>i. bit s i \<longleftrightarrow> (\<exists>j\<ge>i. j < i + n \<and> bit m j)"
    and k: "unat m < 2 ^ k" "k \<le> n" "k > 0 \<longrightarrow> bit m (k - 1)"
  shows "s = mask k"
proof (rule bit_word_eqI)
  fix i :: nat
  have nb: "\<not> bit m j" if "k \<le> j" for j
  proof
    assume "bit m j"
    then have "bit (unat m) j" by (simp add: bit_unsigned_iff bit_imp_le_length)
    moreover have "unat m < 2 ^ j"
      using k(1) power_increasing [OF that, of "2::nat"] by linarith
    ultimately show False by (simp add: bit_iff_odd)
  qed
  have "(\<exists>j\<ge>i. j < i + n \<and> bit m j) \<longleftrightarrow> i < k"
  proof
    assume "\<exists>j\<ge>i. j < i + n \<and> bit m j"
    then show "i < k" using nb by (meson le_less_trans linorder_not_le)
  next
    assume "i < k"
    then show "\<exists>j\<ge>i. j < i + n \<and> bit m j"
      using k by (intro exI [of _ "k - 1"]) auto
  qed
  moreover assume "i < LENGTH(64)"
  ultimately show "bit s i = bit (mask k :: u64) i"
    using s by (simp add: bit_mask_iff del: One_nat_def)
qed

text \<open>The least power of two above a number; the bit below it is the highest one set.\<close>

lemma least_power_of_two:
  fixes n :: nat
  assumes "1 \<le> n"
  obtains k where "n \<le> 2 ^ k" "k > 0 \<Longrightarrow> 2 ^ (k - 1) < n"
proof -
  define k where "k = (LEAST k. n \<le> 2 ^ k)"
  have "n \<le> 2 ^ k"
    unfolding k_def by (rule LeastI [of "\<lambda>k. n \<le> 2 ^ k" n]) (rule less_imp_le [OF less_exp])
  moreover have "2 ^ (k - 1) < n" if "k > 0"
    using not_less_Least [of "k - 1" "\<lambda>k. n \<le> 2 ^ k"] that by (simp add: not_le k_def [symmetric])
  ultimately show thesis by (rule that)
qed

lemma top_bit_of_word:
  fixes m :: u64
  assumes "unat m < 2 ^ k" "k > 0" "2 ^ (k - 1) \<le> unat m"
  shows "bit m (k - 1)"
proof -
  have "unat m div 2 ^ (k - 1) = 1"
  proof (rule div_nat_eqI)
    show "2 ^ (k - 1) * 1 \<le> unat m" using assms by simp
    have "2 * (2::nat) ^ (k - 1) = 2 ^ k" using assms(2) by (simp flip: power_Suc)
    then show "unat m < 2 ^ (k - 1) * Suc 1" using assms(1) by simp
  qed
  then have "bit (unat m) (k - 1)" by (simp add: bit_iff_odd)
  then show ?thesis by (simp add: bit_unsigned_iff)
qed

end
