(* ===== verification/Strbuf.thy ===== *)
theory Strbuf
  imports CMem BitTricks
begin

text \<open>
  The string buffer of src/Clang/string/lwan/strbuf.c. The flag bits STATIC and
  DYNAMICALLY_ALLOCATED are two booleans, the union \<open>value\<close> is the memory its pointer
  gives access to (\<open>None\<close> for NULL), and \<open>len.allocated\<close>, \<open>len.buffer\<close> are natural numbers
  below \<open>2 ^ 64\<close>. Functions that report success return it beside the buffer. The build
  does not define HAVE_BUILTIN_CLZLL, so the portable power of two is the one compiled.
\<close>

section \<open>State\<close>

record strbuf =
  sb_static :: bool
  sb_dynamic :: bool
  sb_allocated :: nat
  sb_len :: nat
  sb_mem :: "string option"

type_synonym sb_result = "((bool \<times> strbuf) \<times> world) cres"

definition DEFAULT_BUF_SIZE :: nat where
  "DEFAULT_BUF_SIZE = 64"

text \<open>Accesses through \<open>value\<close>.\<close>

definition sb_store :: "strbuf \<Rightarrow> nat \<Rightarrow> byte \<Rightarrow> strbuf cres" where
  "sb_store s i c =
     (case sb_mem s of None \<Rightarrow> Err Fault
      | Some b \<Rightarrow> res_bind (store b i c) (\<lambda>b. Ok (s\<lparr>sb_mem := Some b\<rparr>)))"

definition sb_memcpy :: "strbuf \<Rightarrow> nat \<Rightarrow> string \<Rightarrow> nat \<Rightarrow> strbuf cres" where
  "sb_memcpy s d src n =
     (case sb_mem s of None \<Rightarrow> Err Fault
      | Some b \<Rightarrow> res_bind (memcpy b d src n) (\<lambda>b. Ok (s\<lparr>sb_mem := Some b\<rparr>)))"

section \<open>Growing\<close>

definition find_next_power_of_two :: "nat \<Rightarrow> nat" where
  "find_next_power_of_two number =
     unat (smear 16 (smear 8 (smear 4 (smear 2 (smear 1 (of_nat number - 1))))) + 1)"

text \<open>A static buffer is replaced by a copy; a block of its own is reallocated.\<close>

definition grow_buffer_if_needed :: "strbuf \<Rightarrow> nat \<Rightarrow> world \<Rightarrow> sb_result" where
  "grow_buffer_if_needed s n w =
     (if sb_static s then
        let next_power = find_next_power_of_two (max (w64 (n + 1)) (sb_len s));
            (ok, w) = malloc w in
        if \<not> ok then Ok ((False, s), w)
        else case sb_mem s of None \<Rightarrow> Err Fault
          | Some src \<Rightarrow>
            res_bind (memcpy (fresh w next_power) 0 src (sb_len s)) (\<lambda>b.
            res_bind (store b (w64 (sb_len s + 1)) NUL) (\<lambda>b.
            Ok ((True, s\<lparr>sb_static := False, sb_allocated := next_power, sb_mem := Some b\<rparr>), w)))
      else if sb_allocated s < n then
        let next_power = find_next_power_of_two n;
            (ok, w) = malloc w in
        if \<not> ok then Ok ((False, s), w)
        else Ok ((True, s\<lparr>sb_allocated := next_power,
               sb_mem := Some (resize w (case sb_mem s of None \<Rightarrow> [] | Some b \<Rightarrow> b) (w64 (next_power + 1)))\<rparr>), w)
      else Ok ((True, s), w))"

text \<open>The code after a call that grows: return false, or go on.\<close>

definition if_grown :: "sb_result \<Rightarrow> (strbuf \<Rightarrow> strbuf cres) \<Rightarrow> sb_result" where
  "if_grown r f =
     res_bind r (\<lambda>((ok, s), w).
     if ok then res_bind (f s) (\<lambda>s. Ok ((True, s), w)) else Ok ((False, s), w))"

section \<open>Creating and freeing\<close>

text \<open>\<open>None\<close> is a NULL argument.\<close>

definition strbuf_init_with_size :: "strbuf option \<Rightarrow> nat \<Rightarrow> world \<Rightarrow> ((bool \<times> strbuf option) \<times> world) cres" where
  "strbuf_init_with_size p n w =
     (case p of None \<Rightarrow> Ok ((False, None), w)
      | Some _ \<Rightarrow>
        let s = \<lparr>sb_static = False, sb_dynamic = False, sb_allocated = 0, sb_len = 0, sb_mem = None\<rparr> in
        res_bind (if_grown (grow_buffer_if_needed s n w) (\<lambda>s. sb_store (s\<lparr>sb_len := 0\<rparr>) 0 NUL)) (\<lambda>((ok, s), w).
        Ok ((ok, Some s), w)))"

definition strbuf_init :: "strbuf option \<Rightarrow> world \<Rightarrow> ((bool \<times> strbuf option) \<times> world) cres" where
  "strbuf_init p w = strbuf_init_with_size p DEFAULT_BUF_SIZE w"

text \<open>The fields of the fresh structure are arbitrary, and cleared first.\<close>

definition strbuf_new_with_size :: "nat \<Rightarrow> world \<Rightarrow> (strbuf option \<times> world) cres" where
  "strbuf_new_with_size n w =
     (let (ok, w) = malloc w;
          p = (if ok then Some \<lparr>sb_static = True, sb_dynamic = True, sb_allocated = 1, sb_len = 1, sb_mem = None\<rparr>
               else None) in
      res_bind (strbuf_init_with_size p n w) (\<lambda>((ok, p), w).
      if \<not> ok then Ok (None, w)
      else Ok (map_option (\<lambda>s. s\<lparr>sb_dynamic := True\<rparr>) p, w)))"

definition strbuf_new :: "world \<Rightarrow> (strbuf option \<times> world) cres" where
  "strbuf_new w = strbuf_new_with_size DEFAULT_BUF_SIZE w"

text \<open>What \<open>strbuf_free\<close> hands to \<open>free\<close>: the text block and the structure itself.\<close>

definition strbuf_free :: "strbuf option \<Rightarrow> string option \<times> bool" where
  "strbuf_free p =
     (case p of None \<Rightarrow> (None, False)
      | Some s \<Rightarrow> (if sb_static s then None else sb_mem s, sb_dynamic s))"

section \<open>Appending and setting\<close>

definition strbuf_append_char :: "strbuf \<Rightarrow> byte \<Rightarrow> world \<Rightarrow> sb_result" where
  "strbuf_append_char s c w =
     if_grown (grow_buffer_if_needed s (w64 (sb_len s + 2)) w) (\<lambda>s.
     res_bind (sb_store s (sb_len s) c) (\<lambda>s.
     let s = s\<lparr>sb_len := w64 (sb_len s + 1)\<rparr> in sb_store s (sb_len s) NUL))"

text \<open>The size to use: the argument, or the length of the C string when it is zero.\<close>

definition size_or_strlen :: "string \<Rightarrow> nat \<Rightarrow> nat cres" where
  "size_or_strlen s2 sz = (if sz = 0 then strlen s2 else Ok sz)"

definition strbuf_append_str :: "strbuf \<Rightarrow> string \<Rightarrow> nat \<Rightarrow> world \<Rightarrow> sb_result" where
  "strbuf_append_str s1 s2 sz w =
     res_bind (size_or_strlen s2 sz) (\<lambda>sz.
     if_grown (grow_buffer_if_needed s1 (w64 (sb_len s1 + sz + 2)) w) (\<lambda>s1.
     res_bind (sb_memcpy s1 (sb_len s1) s2 sz) (\<lambda>s1.
     let s1 = s1\<lparr>sb_len := w64 (sb_len s1 + sz)\<rparr> in sb_store s1 (sb_len s1) NUL)))"

definition strbuf_set_static :: "strbuf \<Rightarrow> string \<Rightarrow> nat \<Rightarrow> (bool \<times> strbuf) cres" where
  "strbuf_set_static s1 s2 sz =
     res_bind (size_or_strlen s2 sz) (\<lambda>sz.
     Ok (True, s1\<lparr>sb_mem := Some s2, sb_allocated := sz, sb_len := sz, sb_static := True\<rparr>))"

definition strbuf_set :: "strbuf \<Rightarrow> string \<Rightarrow> nat \<Rightarrow> world \<Rightarrow> sb_result" where
  "strbuf_set s1 s2 sz w =
     res_bind (size_or_strlen s2 sz) (\<lambda>sz.
     if_grown (grow_buffer_if_needed s1 (w64 (sz + 1)) w) (\<lambda>s1.
     res_bind (sb_memcpy s1 0 s2 sz) (\<lambda>s1. sb_store (s1\<lparr>sb_len := sz\<rparr>) sz NUL)))"

text \<open>\<open>same\<close> tells whether the two pointers are equal.\<close>

definition strbuf_cmp :: "bool \<Rightarrow> strbuf \<Rightarrow> strbuf \<Rightarrow> int cres" where
  "strbuf_cmp same s1 s2 =
     (if same then Ok 0
      else case (sb_mem s1, sb_mem s2) of
        (Some b1, Some b2) \<Rightarrow>
          res_bind (memcmp b1 b2 (if sb_len s1 < sb_len s2 then sb_len s1 else sb_len s2)) (\<lambda>result.
          Ok (if result = 0 then to_s32 (int (sub64 (sb_len s1) (sb_len s2))) else result))
      | _ \<Rightarrow> Err Fault)"

text \<open>\<open>out\<close> is the text that \<open>vasprintf\<close> renders into a block of its own.\<close>

definition internal_printf ::
  "strbuf \<Rightarrow> (strbuf \<Rightarrow> string \<Rightarrow> nat \<Rightarrow> world \<Rightarrow> sb_result) \<Rightarrow> string \<Rightarrow> world \<Rightarrow> sb_result" where
  "internal_printf s1 save_str out w =
     (let (ok, w) = malloc w in
      if \<not> ok then Ok ((False, s1), w) else save_str s1 (out @ [NUL]) (length out) w)"

definition strbuf_printf :: "strbuf \<Rightarrow> string \<Rightarrow> world \<Rightarrow> sb_result" where
  "strbuf_printf s out w = internal_printf s strbuf_set out w"

definition strbuf_append_printf :: "strbuf \<Rightarrow> string \<Rightarrow> world \<Rightarrow> sb_result" where
  "strbuf_append_printf s out w = internal_printf s strbuf_append_str out w"

section \<open>Resizing\<close>

definition strbuf_shrink_to :: "strbuf \<Rightarrow> nat \<Rightarrow> world \<Rightarrow> sb_result" where
  "strbuf_shrink_to s new_size w =
     (if sb_allocated s \<le> new_size then Ok ((True, s), w)
      else if sb_static s then Ok ((True, s), w)
      else
        let next_power = find_next_power_of_two new_size;
            (ok, w) = malloc w in
        if \<not> ok then Ok ((False, s), w)
        else
          let s = s\<lparr>sb_allocated := next_power,
                sb_mem := Some (resize w (case sb_mem s of None \<Rightarrow> [] | Some b \<Rightarrow> b) (w64 (next_power + 1)))\<rparr> in
          if next_power < sb_len s then
            let s = s\<lparr>sb_len := sub64 next_power 1\<rparr> in
            res_bind (sb_store s (w64 (sb_len s + 1)) NUL) (\<lambda>s. Ok ((True, s), w))
          else Ok ((True, s), w))"

definition strbuf_shrink_to_default :: "strbuf \<Rightarrow> world \<Rightarrow> sb_result" where
  "strbuf_shrink_to_default s w = strbuf_shrink_to s DEFAULT_BUF_SIZE w"

definition strbuf_reset :: "strbuf \<Rightarrow> world \<Rightarrow> sb_result" where
  "strbuf_reset s w =
     res_bind (strbuf_shrink_to_default s w) (\<lambda>((_, s), w). Ok ((False, s\<lparr>sb_len := 0\<rparr>), w))"

definition strbuf_grow_to :: "strbuf \<Rightarrow> nat \<Rightarrow> world \<Rightarrow> sb_result" where
  "strbuf_grow_to s new_size w = grow_buffer_if_needed s (w64 (new_size + 1)) w"

definition strbuf_reset_length :: "strbuf \<Rightarrow> world \<Rightarrow> sb_result" where
  "strbuf_reset_length s w =
     (let (ok, w', s) =
        (if sb_static s then
           let (ok, w) = malloc w in
           (ok, w, s\<lparr>sb_static := False, sb_mem := if ok then Some (fresh w (sb_allocated s)) else None\<rparr>)
         else (True, w, s)) in
      if \<not> ok then Ok ((False, s), w')
      else res_bind (sb_store (s\<lparr>sb_len := 0\<rparr>) 0 NUL) (\<lambda>s. Ok ((True, s), w')))"

end
