(* ===== verification/StrbufSpec.thy ===== *)
theory StrbufSpec
  imports Strbuf Buffer ByteOrder
begin

text \<open>
  Correctness of the string buffer of src/Clang/string/lwan/strbuf.c: the capacity it
  chooses, the invariant its operations keep, what each does to the text, and that a
  refused allocation leaves the buffer as it was.
\<close>

section \<open>The next power of two\<close>

lemma smear_below:
  assumes "unat m < 2 ^ k" "k \<le> 32" "k > 0 \<longrightarrow> bit m (k - 1)"
  shows "smear 16 (smear 8 (smear 4 (smear 2 (smear 1 (m :: u64))))) = mask k"
  using bit_smear_all assms by (rule smear_mask)

text \<open>The least power of two that is at least the argument, up to \<open>2 ^ 32\<close>.\<close>

lemma find_next_power_of_two_eq:
  assumes "1 \<le> n" "n \<le> 2 ^ k" "k \<le> 32" "k > 0 \<longrightarrow> 2 ^ (k - 1) < n"
  shows "find_next_power_of_two n = 2 ^ k"
proof -
  let ?m = "of_nat n - 1 :: u64"
  have k: "(2::nat) ^ k \<le> 2 ^ 32" using assms(3) by (intro power_increasing) auto
  have m: "unat ?m = n - 1"
  proof -
    have "?m = of_nat (n - 1)" using assms(1) by (simp add: of_nat_diff)
    moreover have "n - 1 < 2 ^ 64" using assms(2) k by simp
    ultimately show ?thesis by (simp add: unsigned_of_nat take_bit_nat_eq_self)
  qed
  have "bit ?m (k - 1)" if "k > 0"
    using assms that m by (intro top_bit_of_word) auto
  then have "smear 16 (smear 8 (smear 4 (smear 2 (smear 1 ?m)))) = mask k"
    using assms(1-3) m by (intro smear_below) auto
  then have "find_next_power_of_two n = unat (mask k + 1 :: u64)"
    by (simp add: find_next_power_of_two_def)
  also have "mask k + 1 = (2 :: u64) ^ k" by (simp add: mask_eq_exp_minus_1)
  also have "unat ((2 :: u64) ^ k) = 2 ^ k"
  proof -
    have "unat (of_nat (2 ^ k) :: u64) = 2 ^ k"
      using assms(3) by (simp add: unsigned_of_nat take_bit_nat_eq_self del: of_nat_power of_nat_numeral)
    then show ?thesis by simp
  qed
  finally show ?thesis .
qed

lemma find_next_power_of_two:
  assumes "1 \<le> n" "n \<le> 2 ^ 32"
  shows "\<exists>k\<le>32. find_next_power_of_two n = 2 ^ k \<and> n \<le> 2 ^ k \<and> (k > 0 \<longrightarrow> 2 ^ (k - 1) < n)"
proof -
  obtain k where k: "n \<le> 2 ^ k" "k > 0 \<longrightarrow> 2 ^ (k - 1) < n"
    using least_power_of_two [OF assms(1)] by auto
  have "k \<le> 32"
  proof (rule ccontr)
    assume "\<not> k \<le> 32"
    then have "(2::nat) ^ 32 \<le> 2 ^ (k - 1)" by (intro power_increasing) auto
    with k \<open>\<not> k \<le> 32\<close> assms(2) show False by simp
  qed
  with k assms(1) find_next_power_of_two_eq [of n k] show ?thesis by blast
qed

lemma find_next_power_of_two_bounds:
  assumes "1 \<le> n" "n \<le> 2 ^ 32"
  shows "n \<le> find_next_power_of_two n" "find_next_power_of_two n \<le> 2 ^ 32"
    "find_next_power_of_two n < 2 * n" "1 \<le> find_next_power_of_two n"
proof -
  obtain k where k: "k \<le> 32" "find_next_power_of_two n = 2 ^ k" "n \<le> 2 ^ k" "k > 0 \<longrightarrow> 2 ^ (k - 1) < n"
    using find_next_power_of_two [OF assms] by blast
  then show "n \<le> find_next_power_of_two n" "1 \<le> find_next_power_of_two n" by simp_all
  show "find_next_power_of_two n \<le> 2 ^ 32"
    unfolding k(2) using k(1) by (rule power_increasing) simp
  show "find_next_power_of_two n < 2 * n"
    using k assms(1) by (cases k) auto
qed

section \<open>Invariant and value\<close>

definition sb_inv :: "strbuf \<Rightarrow> bool" where
  "sb_inv s \<longleftrightarrow> (case sb_mem s of None \<Rightarrow> False
     | Some b \<Rightarrow> sb_len s \<le> sb_allocated s \<and> sb_allocated s \<le> length b \<and>
         (if sb_static s then sb_allocated s \<le> 2 ^ 32 else sb_len s < length b \<and> length b \<le> 2 ^ 33))"

definition sb_val :: "strbuf \<Rightarrow> string" where
  "sb_val s = (case sb_mem s of None \<Rightarrow> [] | Some b \<Rightarrow> take (sb_len s) b)"

definition sb_terminated :: "strbuf \<Rightarrow> bool" where
  "sb_terminated s \<longleftrightarrow> (case sb_mem s of None \<Rightarrow> False | Some b \<Rightarrow> sb_len s < length b \<and> b ! sb_len s = NUL)"

text \<open>
  \<open>sb_spec w s r P\<close>: the call neither faults nor aborts; when it reports success \<open>P\<close> holds
  of the buffer, and when it reports failure memory was refused and the buffer is \<open>s\<close>.
\<close>

definition sb_spec :: "world \<Rightarrow> strbuf \<Rightarrow> sb_result \<Rightarrow> (strbuf \<Rightarrow> bool) \<Rightarrow> bool" where
  "sb_spec w s r P = wp False r (\<lambda>((ok, s'), w'). (may_oom w' \<longrightarrow> may_oom w) \<and>
     (if ok then sb_inv s' \<and> P s' else may_oom w \<and> s' = s))"

lemma sb_spec_weaken:
  "sb_spec w s r P \<Longrightarrow> (\<And>s'. sb_inv s' \<Longrightarrow> P s' \<Longrightarrow> Q s') \<Longrightarrow> sb_spec w s r Q"
  unfolding sb_spec_def by (erule wp_weaken) (auto split: if_splits)

lemma sb_spec_if_grown:
  assumes "sb_spec w s r P" "\<And>s'. sb_inv s' \<Longrightarrow> P s' \<Longrightarrow> wp False (f s') (\<lambda>s''. sb_inv s'' \<and> Q s'')"
  shows "sb_spec w s (if_grown r f) Q"
  unfolding sb_spec_def if_grown_def
proof (rule wp_bindI [OF assms(1) [unfolded sb_spec_def]], goal_cases)
  case (2 x)
  obtain ok s' w' where x: "x = ((ok, s'), w')" by (metis prod.exhaust)
  show ?case
  proof (cases ok)
    case True
    with 2 x have "wp False (f s') (\<lambda>s''. sb_inv s'' \<and> Q s'')" by (intro assms(2)) auto
    then show ?thesis
      using 2 x True by (auto simp: wp_bind elim!: wp_weaken)
  qed (use 2 x in auto)
qed simp

section \<open>The operations\<close>

text \<open>
  A static buffer is copied when it grows. The terminator goes one place too far: past the copy when the power of
  two that is allocated has no room for it.
\<close>

definition copy_overruns :: "nat \<Rightarrow> nat \<Rightarrow> bool" where
  "copy_overruns n len \<longleftrightarrow> find_next_power_of_two (max (n + 1) len) \<le> len + 1"

lemma copy_fits: "len < n \<Longrightarrow> n < 2 ^ 32 \<Longrightarrow> \<not> copy_overruns n len"
  using find_next_power_of_two_bounds(1) [of "n + 1"] by (simp add: copy_overruns_def max_def)

lemma grow_spec:
  assumes inv: "sb_inv s" and n: "n < 2 ^ 32" and st: "sb_static s \<longrightarrow> \<not> copy_overruns n (sb_len s)"
  shows "sb_spec w s (grow_buffer_if_needed s n w)
    (\<lambda>s'. \<not> sb_static s' \<and> n \<le> sb_allocated s' \<and> sb_len s' = sb_len s \<and> sb_val s' = sb_val s \<and>
       (\<not> sb_static s \<longrightarrow> sb_terminated s \<longrightarrow> sb_terminated s'))"
proof -
  obtain b where b: "sb_mem s = Some b" "sb_allocated s \<le> length b" "sb_len s \<le> sb_allocated s"
    "if sb_static s then sb_allocated s \<le> 2 ^ 32 else sb_len s < length b \<and> length b \<le> 2 ^ 33"
    using inv by (auto simp: sb_inv_def split: option.splits)
  obtain ok w' where m: "malloc w = (ok, w')" by force
  then have oom: "\<not> ok \<Longrightarrow> may_oom w" "may_oom w' \<Longrightarrow> may_oom w"
    using malloc_fst [of w] malloc_snd [of w] by auto
  show ?thesis
  proof (cases "sb_static s")
    case True
    let ?m = "max (n + 1) (sb_len s)"
    let ?p = "find_next_power_of_two ?m"
    have p: "?m \<le> ?p" "?p \<le> 2 ^ 32"
      using n b True find_next_power_of_two_bounds [of ?m] by simp_all
    have w: "max (w64 (n + 1)) (sb_len s) = ?m" "w64 (sb_len s + 1) = sb_len s + 1"
      using n b True by (simp_all add: w64_id)
    have "sb_len s + 1 < ?p" using st True by (simp add: copy_overruns_def)
    then show ?thesis
      using True b m oom p unfolding grow_buffer_if_needed_def w
      by (auto simp: sb_spec_def sb_inv_def sb_val_def wp_bind Let_def)
  next
    case False
    show ?thesis
    proof (cases "sb_allocated s < n")
      case True
      then have p: "n \<le> find_next_power_of_two n" "find_next_power_of_two n \<le> 2 ^ 32"
        using n find_next_power_of_two_bounds [of n] by simp_all
      then have "w64 (find_next_power_of_two n + 1) = find_next_power_of_two n + 1"
        by (simp add: w64_id)
      then show ?thesis
        using True False b m oom p
        by (auto simp: grow_buffer_if_needed_def sb_spec_def sb_inv_def sb_val_def sb_terminated_def resize_def nth_append Let_def)
    next
      case False': False
      with False inv show ?thesis
        by (auto simp: grow_buffer_if_needed_def sb_spec_def)
    qed
  qed
qed

lemma grow_static_overflow:
  assumes "sb_inv s" "sb_static s" "\<not> may_oom w" "n < 2 ^ 32" "copy_overruns n (sb_len s)"
  shows "grow_buffer_if_needed s n w = Err Fault"
proof -
  obtain ok w' where m: "malloc w = (ok, w')" by force
  then have ok: ok using assms(3) malloc_fst [of w] by auto
  obtain b where b: "sb_mem s = Some b" "sb_len s \<le> length b" "sb_len s \<le> 2 ^ 32"
    using assms(1,2) by (auto simp: sb_inv_def split: option.splits)
  have w: "max (w64 (n + 1)) (sb_len s) = max (n + 1) (sb_len s)" "w64 (sb_len s + 1) = sb_len s + 1"
    using assms(4) b(3) by (simp_all add: w64_id)
  have len: "length (fresh w' (find_next_power_of_two (max (n + 1) (sb_len s)))) \<le> sb_len s + 1"
    using assms(5) by (simp add: copy_overruns_def)
  show ?thesis
    using assms(2) m ok b len unfolding grow_buffer_if_needed_def w
    by (auto simp: Let_def memcpy_def store_def overwrite_def)
qed

lemma sb_inv_len: "sb_inv s \<Longrightarrow> length (sb_val s) = sb_len s"
  by (auto simp: sb_inv_def sb_val_def split: option.splits)

text \<open>The text that a pointer and a size argument stand for.\<close>

definition sized_text :: "string \<Rightarrow> nat \<Rightarrow> string" where
  "sized_text m sz = (if sz = 0 then cstring m else take sz m)"

definition sized_ok :: "string \<Rightarrow> nat \<Rightarrow> bool" where
  "sized_ok m sz \<longleftrightarrow> (if sz = 0 then NUL \<in> set m else sz \<le> length m)"

lemma size_or_strlen:
  "sized_ok m sz \<Longrightarrow> size_or_strlen m sz = Ok (length (sized_text m sz)) \<and>
     take (length (sized_text m sz)) m = sized_text m sz \<and> length (sized_text m sz) \<le> length m"
  by (auto simp: sized_ok_def size_or_strlen_def sized_text_def strlen_def length_cstring_le)

lemma strbuf_append_char_spec:
  assumes "sb_inv s" "sb_len s + 2 < 2 ^ 32"
  shows "sb_spec w s (strbuf_append_char s c w)
    (\<lambda>s'. \<not> sb_static s' \<and> sb_terminated s' \<and> sb_val s' = sb_val s @ [c])"
proof -
  have w: "w64 (sb_len s + 2) = sb_len s + 2" "w64 (Suc (sb_len s)) = Suc (sb_len s)"
    using assms(2) by (simp_all add: w64_id)
  show ?thesis
    unfolding strbuf_append_char_def w
  proof (rule sb_spec_if_grown [OF grow_spec], goal_cases)
    case (4 s')
    then obtain b where "sb_mem s' = Some b" "sb_len s + 2 \<le> length b" "length b \<le> 2 ^ 33"
      by (auto simp: sb_inv_def split: option.splits)
    with 4 w show ?case
      by (auto simp: sb_store_def sb_inv_def sb_terminated_def sb_val_def wp_bind Let_def take_Suc_conv_app_nth)
  qed (use assms copy_fits [of "sb_len s" "sb_len s + 2"] in auto)
qed

lemma sb_fill:
  assumes "sb_inv s" "\<not> sb_static s" "d \<le> sb_len s" "d + length t < sb_allocated s" "take (length t) src = t"
    "length t \<le> length src"
  shows "wp False (res_bind (sb_memcpy s d src (length t)) (\<lambda>s.
      sb_store (s\<lparr>sb_len := d + length t\<rparr>) (d + length t) NUL))
    (\<lambda>s'. sb_inv s' \<and> \<not> sb_static s' \<and> sb_terminated s' \<and> sb_val s' = take d (sb_val s) @ t)"
proof -
  obtain b where "sb_mem s = Some b" "sb_allocated s \<le> length b" "length b \<le> 2 ^ 33" "sb_len s < length b"
    using assms by (auto simp: sb_inv_def split: option.splits)
  with assms show ?thesis
    by (auto simp: sb_memcpy_def sb_store_def sb_inv_def sb_terminated_def sb_val_def wp_bind
        take_overwrite_end min_absorb1)
qed

lemma strbuf_append_str_spec:
  assumes "sb_inv s" "sized_ok m sz" "sb_len s + length (sized_text m sz) + 2 < 2 ^ 32"
  shows "sb_spec w s (strbuf_append_str s m sz w)
    (\<lambda>s'. \<not> sb_static s' \<and> sb_terminated s' \<and> sb_val s' = sb_val s @ sized_text m sz)"
proof -
  let ?t = "sized_text m sz"
  have w: "w64 (sb_len s + length ?t + 2) = sb_len s + length ?t + 2" "w64 (sb_len s + length ?t) = sb_len s + length ?t"
    using assms(3) by (simp_all add: w64_id)
  note m = size_or_strlen [OF assms(2)]
  have e: "strbuf_append_str s m sz w =
      if_grown (grow_buffer_if_needed s (sb_len s + length ?t + 2) w) (\<lambda>s1.
       res_bind (sb_memcpy s1 (sb_len s1) m (length ?t)) (\<lambda>s1.
       let s1 = s1\<lparr>sb_len := w64 (sb_len s1 + length ?t)\<rparr> in sb_store s1 (sb_len s1) NUL))"
    unfolding strbuf_append_str_def m [THEN conjunct1] res_bind.simps w ..
  show ?thesis
    unfolding e
  proof (rule sb_spec_if_grown [OF grow_spec], goal_cases)
    case (4 s')
    have len: "sb_len x = sb_len s'" if "sb_memcpy s' (sb_len s') m (length ?t) = Ok x" for x
      using that by (auto simp: sb_memcpy_def res_bind_Ok_iff split: option.splits)
    have "res_bind (sb_memcpy s' (sb_len s') m (length ?t)) (\<lambda>s1.
       let s1 = s1\<lparr>sb_len := w64 (sb_len s1 + length ?t)\<rparr> in sb_store s1 (sb_len s1) NUL)
      = res_bind (sb_memcpy s' (sb_len s') m (length ?t)) (\<lambda>s1.
       sb_store (s1\<lparr>sb_len := sb_len s' + length ?t\<rparr>) (sb_len s' + length ?t) NUL)"
      using len 4 w by (intro res_bind_cong) (simp_all add: Let_def)
    then show ?case
      using sb_fill [of s' "sb_len s'" ?t m] 4 m sb_inv_len [of s'] by (auto elim!: wp_weaken)
  qed (use assms copy_fits [of "sb_len s" "sb_len s + length ?t + 2"] in auto)
qed

lemma strbuf_set_spec:
  assumes "sb_inv s" "sized_ok m sz" "length (sized_text m sz) + 1 < 2 ^ 32"
    "sb_static s \<longrightarrow> \<not> copy_overruns (length (sized_text m sz) + 1) (sb_len s)"
  shows "sb_spec w s (strbuf_set s m sz w)
    (\<lambda>s'. \<not> sb_static s' \<and> sb_terminated s' \<and> sb_val s' = sized_text m sz)"
proof -
  let ?t = "sized_text m sz"
  have w: "w64 (length ?t + 1) = length ?t + 1" using assms(3) by (simp add: w64_id)
  note m = size_or_strlen [OF assms(2)]
  have e: "strbuf_set s m sz w = if_grown (grow_buffer_if_needed s (length ?t + 1) w) (\<lambda>s1.
       res_bind (sb_memcpy s1 0 m (length ?t)) (\<lambda>s1. sb_store (s1\<lparr>sb_len := length ?t\<rparr>) (length ?t) NUL))"
    using m w by (simp add: strbuf_set_def del: One_nat_def)
  show ?thesis
    unfolding e
  proof (rule sb_spec_if_grown [OF grow_spec], goal_cases)
    case (4 s')
    then show ?case
      using sb_fill [of s' 0 ?t m] m by (auto elim!: wp_weaken)
  qed (use assms in auto)
qed

lemma strbuf_set_static_spec:
  assumes "sized_ok m sz" "length (sized_text m sz) \<le> 2 ^ 32"
  shows "\<exists>s'. strbuf_set_static s m sz = Ok (True, s') \<and> sb_inv s' \<and> sb_static s' \<and> sb_val s' = sized_text m sz \<and>
    sb_len s' = length (sized_text m sz) \<and> sb_mem s' = Some m"
  using size_or_strlen [OF assms(1)] assms(2) by (auto simp: strbuf_set_static_def sb_inv_def sb_val_def)

end
