(* ===== verification/StrbufProps.thy ===== *)
theory StrbufProps
  imports StrbufSpec
begin

text \<open>
  The remaining operations of src/Clang/string/lwan/strbuf.c, programs of operations with
  refused allocations anywhere, and the properties of the component.
\<close>

section \<open>Creating\<close>

lemma strbuf_init_with_size_spec:
  assumes "1 \<le> n" "n < 2 ^ 32"
  shows "wp False (strbuf_init_with_size (Some s0) n w) (\<lambda>((ok, p), w'). (may_oom w' \<longrightarrow> may_oom w) \<and>
    (if ok then \<exists>s. p = Some s \<and> sb_inv s \<and> sb_terminated s \<and> \<not> sb_static s \<and> \<not> sb_dynamic s \<and>
        sb_val s = [] \<and> n \<le> sb_allocated s
     else may_oom w))"
proof -
  obtain ok w' where m: "malloc w = (ok, w')" by force
  then have oom: "\<not> ok \<Longrightarrow> may_oom w" "may_oom w' \<Longrightarrow> may_oom w"
    using malloc_fst [of w] malloc_snd [of w] by auto
  have p: "n \<le> find_next_power_of_two n" "find_next_power_of_two n \<le> 2 ^ 32"
    using find_next_power_of_two_bounds [of n] assms by simp_all
  then have "w64 (find_next_power_of_two n + 1) = find_next_power_of_two n + 1" by (simp add: w64_id)
  then show ?thesis
    using m oom p assms
    by (auto simp: Let_def strbuf_init_with_size_def grow_buffer_if_needed_def if_grown_def sb_store_def store_def
        sb_inv_def sb_terminated_def sb_val_def)
qed

lemma strbuf_init_with_size_0: "strbuf_init_with_size (Some s0) 0 w = Err Fault"
  by (simp add: strbuf_init_with_size_def grow_buffer_if_needed_def if_grown_def sb_store_def)

lemma sb_dynamic_update [simp]:
  "sb_inv (s\<lparr>sb_dynamic := d\<rparr>) = sb_inv s" "sb_terminated (s\<lparr>sb_dynamic := d\<rparr>) = sb_terminated s"
  "sb_val (s\<lparr>sb_dynamic := d\<rparr>) = sb_val s"
  by (simp_all add: sb_inv_def sb_terminated_def sb_val_def split: option.splits)

lemma strbuf_new_with_size_spec:
  assumes "1 \<le> n" "n < 2 ^ 32"
  shows "wp False (strbuf_new_with_size n w) (\<lambda>(p, w'). (may_oom w' \<longrightarrow> may_oom w) \<and>
    (case p of None \<Rightarrow> may_oom w
     | Some s \<Rightarrow> sb_inv s \<and> sb_terminated s \<and> \<not> sb_static s \<and> sb_dynamic s \<and> sb_val s = []))"
proof -
  obtain ok w' where m: "malloc w = (ok, w')" by force
  then have oom: "\<not> ok \<Longrightarrow> may_oom w" "may_oom w' \<Longrightarrow> may_oom w"
    using malloc_fst [of w] malloc_snd [of w] by auto
  show ?thesis
  proof (cases ok)
    case False
    with m oom show ?thesis by (simp add: strbuf_new_with_size_def strbuf_init_with_size_def)
  next
    case True
    let ?j = "\<lparr>sb_static = True, sb_dynamic = True, sb_allocated = 1, sb_len = 1, sb_mem = None\<rparr>"
    show ?thesis
      unfolding strbuf_new_with_size_def m Let_def case_prod_conv if_P [OF True]
    proof (rule wp_bindI [OF strbuf_init_with_size_spec [of n ?j w', OF assms]], goal_cases)
      case (2 x)
      then show ?case
        using oom by (auto split: if_splits prod.splits)
    qed simp
  qed
qed

section \<open>Printing\<close>

lemma internal_printf_spec:
  assumes "\<And>w'. (may_oom w' \<Longrightarrow> may_oom w) \<Longrightarrow> sb_spec w' s (f s (out @ [NUL]) (length out) w') P"
  shows "sb_spec w s (internal_printf s f out w) P"
proof -
  obtain ok w' where m: "malloc w = (ok, w')" by force
  then have oom: "\<not> ok \<Longrightarrow> may_oom w" "may_oom w' \<Longrightarrow> may_oom w"
    using malloc_fst [of w] malloc_snd [of w] by auto
  with m show ?thesis
    using assms [of w']
    by (auto simp: internal_printf_def sb_spec_def elim!: wp_weaken split: if_splits)
qed

lemma sized_text_printed: "sized_ok (out @ [NUL]) (length out) \<and> sized_text (out @ [NUL]) (length out) = out"
  by (simp add: sized_ok_def sized_text_def cstring_def)

lemma strbuf_append_printf_spec:
  assumes "sb_inv s" "sb_len s + length out + 2 < 2 ^ 32"
  shows "sb_spec w s (strbuf_append_printf s out w)
    (\<lambda>s'. \<not> sb_static s' \<and> sb_terminated s' \<and> sb_val s' = sb_val s @ out)"
  unfolding strbuf_append_printf_def
  using strbuf_append_str_spec [of s "out @ [NUL]" "length out"] sized_text_printed [of out] assms
  by (intro internal_printf_spec) simp

lemma strbuf_printf_spec:
  assumes "sb_inv s" "length out + 1 < 2 ^ 32" "sb_static s \<longrightarrow> \<not> copy_overruns (length out + 1) (sb_len s)"
  shows "sb_spec w s (strbuf_printf s out w)
    (\<lambda>s'. \<not> sb_static s' \<and> sb_terminated s' \<and> sb_val s' = out)"
  unfolding strbuf_printf_def
  using strbuf_set_spec [of s "out @ [NUL]" "length out"] sized_text_printed [of out] assms
  by (intro internal_printf_spec) simp

section \<open>Resizing\<close>

lemma strbuf_shrink_to_spec:
  assumes "sb_inv s" "1 \<le> n" "n < 2 ^ 32" "\<not> sb_static s"
  shows "sb_spec w s (strbuf_shrink_to s n w) (\<lambda>s'. \<not> sb_static s' \<and>
    sb_val s' = (if n < sb_allocated s \<and> find_next_power_of_two n < sb_len s
       then take (find_next_power_of_two n - 1) (sb_val s) else sb_val s) \<and>
    sb_allocated s' = (if n < sb_allocated s then find_next_power_of_two n else sb_allocated s) \<and>
    (\<not> find_next_power_of_two n < sb_len s \<longrightarrow> sb_terminated s \<longrightarrow> sb_terminated s'))"
proof -
  obtain b where b: "sb_mem s = Some b" "sb_allocated s \<le> length b" "sb_len s \<le> sb_allocated s"
    "sb_len s < length b" "length b \<le> 2 ^ 33"
    using assms by (auto simp: sb_inv_def split: option.splits)
  obtain ok w' where m: "malloc w = (ok, w')" by force
  then have oom: "\<not> ok \<Longrightarrow> may_oom w" "may_oom w' \<Longrightarrow> may_oom w"
    using malloc_fst [of w] malloc_snd [of w] by auto
  let ?p = "find_next_power_of_two n"
  have p: "n \<le> ?p" "?p \<le> 2 ^ 32"
    using find_next_power_of_two_bounds [of n] assms by simp_all
  have w: "w64 (Suc ?p) = Suc ?p" "sub64 ?p (Suc 0) = ?p - 1" "w64 (Suc (?p - 1)) = ?p"
    using p assms(2) by (simp_all add: w64_id sub64_id)
  show ?thesis
  proof (cases "sb_allocated s \<le> n")
    case True
    with assms show ?thesis by (simp add: strbuf_shrink_to_def sb_spec_def)
  next
    case False
    show ?thesis
    proof (cases "?p < sb_len s")
      case True
      with False b m oom p w assms show ?thesis
        by (auto simp: Let_def strbuf_shrink_to_def sb_spec_def sb_store_def store_def sb_inv_def sb_val_def min_absorb1)
    next
      case short: False
      with False b m oom p w assms show ?thesis
        by (auto simp: Let_def strbuf_shrink_to_def sb_spec_def sb_inv_def sb_val_def sb_terminated_def resize_def nth_append)
    qed
  qed
qed

lemma strbuf_grow_to_spec:
  assumes "sb_inv s" "n + 1 < 2 ^ 32" "sb_static s \<longrightarrow> \<not> copy_overruns (n + 1) (sb_len s)"
  shows "sb_spec w s (strbuf_grow_to s n w) (\<lambda>s'. \<not> sb_static s' \<and> n + 1 \<le> sb_allocated s' \<and> sb_val s' = sb_val s \<and>
    (\<not> sb_static s \<longrightarrow> sb_terminated s \<longrightarrow> sb_terminated s'))"
proof -
  have "w64 (n + 1) = n + 1" using assms(2) by (simp add: w64_id)
  then show ?thesis
    unfolding strbuf_grow_to_def
    using grow_spec [of s "n + 1" w] assms by (auto elim!: sb_spec_weaken)
qed

lemma strbuf_reset_spec:
  assumes "sb_inv s"
  shows "wp False (strbuf_reset s w) (\<lambda>((ok, s'), w'). \<not> ok \<and> (may_oom w' \<longrightarrow> may_oom w) \<and> sb_inv s' \<and>
    sb_static s' = sb_static s \<and> sb_val s' = [])"
proof (cases "sb_static s")
  case True
  then show ?thesis
    using assms by (auto simp: strbuf_reset_def strbuf_shrink_to_default_def strbuf_shrink_to_def sb_inv_def
        sb_val_def split: option.splits)
next
  case False
  note sp = strbuf_shrink_to_spec [OF assms, of DEFAULT_BUF_SIZE w, unfolded sb_spec_def]
  show ?thesis
    unfolding strbuf_reset_def strbuf_shrink_to_default_def
    by (rule wp_bindI [OF sp]) (use assms False in \<open>auto simp: DEFAULT_BUF_SIZE_def sb_inv_def sb_val_def
        split: option.splits if_splits\<close>)
qed

lemma strbuf_reset_length_spec:
  assumes "sb_inv s" "sb_static s \<longrightarrow> 0 < sb_allocated s"
  shows "wp False (strbuf_reset_length s w) (\<lambda>((ok, s'), w'). (may_oom w' \<longrightarrow> may_oom w) \<and>
    (if ok then sb_inv s' \<and> \<not> sb_static s' \<and> sb_terminated s' \<and> sb_val s' = [] else may_oom w \<and> sb_mem s' = None))"
proof -
  obtain ok w' where m: "malloc w = (ok, w')" by force
  then have oom: "\<not> ok \<Longrightarrow> may_oom w" "may_oom w' \<Longrightarrow> may_oom w"
    using malloc_fst [of w] malloc_snd [of w] by auto
  then show ?thesis
    using m assms
    by (cases "sb_static s") (auto simp: strbuf_reset_length_def Let_def sb_store_def store_def sb_inv_def sb_terminated_def
        sb_val_def split: option.splits)
qed

section \<open>Comparing\<close>

lemma strbuf_cmp_spec:
  assumes "sb_inv s1" "sb_inv s2" "sb_len s1 < 2147483648" "sb_len s2 < 2147483648"
  shows "\<exists>r. strbuf_cmp False s1 s2 = Ok r \<and> (r < 0 \<longleftrightarrow> sb_val s1 < sb_val s2) \<and> (r = 0 \<longleftrightarrow> sb_val s1 = sb_val s2)"
proof -
  obtain b1 b2 where b: "sb_mem s1 = Some b1" "sb_len s1 \<le> length b1" "sb_mem s2 = Some b2" "sb_len s2 \<le> length b2"
    using assms by (auto simp: sb_inv_def split: option.splits)
  let ?m = "min (sb_len s1) (sb_len s2)"
  have t: "take ?m b1 = take ?m (sb_val s1)" "take ?m b2 = take ?m (sb_val s2)"
    using b by (simp_all add: sb_val_def)
  have m: "(if sb_len s1 < sb_len s2 then sb_len s1 else sb_len s2) = ?m" by simp
  have "?m \<le> length b1" "?m \<le> length b2"
    using b by (simp_all add: min_le_iff_disj)
  moreover have "to_s32 (int (sub64 (sb_len s1) (sb_len s2))) = int (sb_len s1) - int (sb_len s2)"
    using assms(3,4) by (simp add: to_s32_sub64)
  ultimately show ?thesis
    using cmp_bytes_lex [of "sb_val s1" "sb_val s2", unfolded sb_inv_len [OF assms(1)] sb_inv_len [OF assms(2)] Let_def] b
    unfolding strbuf_cmp_def b m memcmp_def
    by (simp add: t split: if_splits)
qed

section \<open>Programs\<close>

text \<open>
  One call on a buffer, with its text arguments as values. \<open>C_set_static t\<close> points the
  buffer at \<open>t\<close>; the calls that print are given the text they render.
\<close>

datatype sb_cmd =
    C_append_char byte
  | C_append_str string
  | C_append_printf string
  | C_set string
  | C_printf string
  | C_set_static string
  | C_shrink_to nat
  | C_grow_to nat
  | C_reset
  | C_reset_length

fun sb_exec :: "sb_cmd \<Rightarrow> strbuf \<Rightarrow> world \<Rightarrow> sb_result" where
  "sb_exec (C_append_char c) s w = strbuf_append_char s c w"
| "sb_exec (C_append_str t) s w = strbuf_append_str s (t @ [NUL]) (length t) w"
| "sb_exec (C_append_printf t) s w = strbuf_append_printf s t w"
| "sb_exec (C_set t) s w = strbuf_set s (t @ [NUL]) (length t) w"
| "sb_exec (C_printf t) s w = strbuf_printf s t w"
| "sb_exec (C_set_static t) s w =
     res_bind (strbuf_set_static s (t @ [NUL]) (length t)) (\<lambda>r. Ok (r, w))"
| "sb_exec (C_shrink_to n) s w = strbuf_shrink_to s n w"
| "sb_exec (C_grow_to n) s w = strbuf_grow_to s n w"
| "sb_exec C_reset s w = strbuf_reset s w"
| "sb_exec C_reset_length s w = strbuf_reset_length s w"

fun sb_run :: "sb_cmd list \<Rightarrow> strbuf \<Rightarrow> world \<Rightarrow> ((bool list \<times> strbuf) \<times> world) cres" where
  "sb_run [] s w = Ok (([], s), w)"
| "sb_run (c # cs) s w =
     res_bind (sb_exec c s w) (\<lambda>((ok, s), w).
     res_bind (sb_run cs s w) (\<lambda>((oks, s), w). Ok ((ok # oks, s), w)))"

text \<open>
  What a buffer is to its clients: whether it is static, its text, and whether a NUL is known to follow the text. A
  static buffer that grows loses the NUL, a buffer that is shrunk below its text keeps one byte less than the new
  capacity and no NUL after it, and \<open>strbuf_reset\<close> empties the text without a NUL.
\<close>

type_synonym sb_view = "bool \<times> string \<times> bool"

fun sb_effect :: "sb_cmd \<Rightarrow> sb_view \<Rightarrow> sb_view" where
  "sb_effect (C_append_char c) (st, v, z) = (False, v @ [c], True)"
| "sb_effect (C_append_str t) (st, v, z) = (False, v @ t, True)"
| "sb_effect (C_append_printf t) (st, v, z) = (False, v @ t, True)"
| "sb_effect (C_set t) (st, v, z) = (False, t, True)"
| "sb_effect (C_printf t) (st, v, z) = (False, t, True)"
| "sb_effect (C_set_static t) (st, v, z) = (True, t, True)"
| "sb_effect (C_shrink_to n) (st, v, z) =
     (let p = find_next_power_of_two n in if \<not> st \<and> p < length v then (st, take (p - 1) v, False) else (st, v, z))"
| "sb_effect (C_grow_to n) (st, v, z) = (False, v, z \<and> \<not> st)"
| "sb_effect C_reset (st, v, z) = (st, [], False)"
| "sb_effect C_reset_length (st, v, z) = (False, [], True)"

text \<open>
  The calls that are in range, when \<open>oom\<close> tells whether memory may be refused: sizes are below \<open>2 ^ 32\<close>, a static
  buffer is not copied into a block without room for the terminator, nothing is shrunk to nothing, and
  \<open>strbuf_reset_length\<close> of a static buffer gets its block, which is not empty. Outside of this the code has
  undefined behaviour or loses the buffer: see the lemmas after the property.
\<close>

fun sb_cmd_ok :: "bool \<Rightarrow> sb_cmd \<Rightarrow> sb_view \<Rightarrow> bool" where
  "sb_cmd_ok oom (C_append_char c) (st, v, z) \<longleftrightarrow> length v + 2 < 2 ^ 32"
| "sb_cmd_ok oom (C_append_str t) (st, v, z) \<longleftrightarrow> length v + length t + 2 < 2 ^ 32"
| "sb_cmd_ok oom (C_append_printf t) (st, v, z) \<longleftrightarrow> length v + length t + 2 < 2 ^ 32"
| "sb_cmd_ok oom (C_set t) (st, v, z) \<longleftrightarrow> length t + 1 < 2 ^ 32 \<and> (st \<longrightarrow> \<not> copy_overruns (length t + 1) (length v))"
| "sb_cmd_ok oom (C_printf t) (st, v, z) \<longleftrightarrow> length t + 1 < 2 ^ 32 \<and> (st \<longrightarrow> \<not> copy_overruns (length t + 1) (length v))"
| "sb_cmd_ok oom (C_set_static t) (st, v, z) \<longleftrightarrow> length t \<le> 2 ^ 32"
| "sb_cmd_ok oom (C_shrink_to n) (st, v, z) \<longleftrightarrow> 1 \<le> n \<and> n < 2 ^ 32"
| "sb_cmd_ok oom (C_grow_to n) (st, v, z) \<longleftrightarrow> n + 1 < 2 ^ 32 \<and> (st \<longrightarrow> \<not> copy_overruns (n + 1) (length v))"
| "sb_cmd_ok oom C_reset (st, v, z) \<longleftrightarrow> True"
| "sb_cmd_ok oom C_reset_length (st, v, z) \<longleftrightarrow> (st \<longrightarrow> \<not> oom \<and> v \<noteq> [])"

definition sb_shows :: "strbuf \<Rightarrow> sb_view \<Rightarrow> bool" where
  "sb_shows s a \<longleftrightarrow> (case a of (st, v, z) \<Rightarrow> sb_static s = st \<and> sb_val s = v \<and> (z \<longrightarrow> sb_terminated s))"

text \<open>\<open>strbuf_reset\<close> reports failure although it has its effect.\<close>

definition sb_after :: "bool \<Rightarrow> sb_cmd \<Rightarrow> sb_view \<Rightarrow> sb_view" where
  "sb_after ok c a = (if ok \<or> c = C_reset then sb_effect c a else a)"

text \<open>A program is in range when every call is; if memory may be refused, whether the calls before it succeed or not.\<close>

fun sb_prog_ok :: "bool \<Rightarrow> sb_cmd list \<Rightarrow> sb_view \<Rightarrow> bool" where
  "sb_prog_ok oom [] a \<longleftrightarrow> True"
| "sb_prog_ok oom (c # cs) a \<longleftrightarrow> sb_cmd_ok oom c a \<and> sb_prog_ok oom cs (sb_effect c a) \<and> (oom \<longrightarrow> sb_prog_ok oom cs a)"

lemma sb_prog_ok_refused: "sb_prog_ok True cs a \<Longrightarrow> sb_prog_ok oom cs a"
proof (induction cs arbitrary: a)
  case (Cons c cs)
  have "sb_cmd_ok True c a \<Longrightarrow> sb_cmd_ok oom c a" by (cases c; cases a) auto
  with Cons show ?case by simp
qed simp

text \<open>A call does what it says, or fails and changes nothing.\<close>

definition sb_call :: "world \<Rightarrow> strbuf \<Rightarrow> sb_view \<Rightarrow> sb_cmd \<Rightarrow> bool" where
  "sb_call w s a c \<longleftrightarrow> wp False (sb_exec c s w) (\<lambda>((ok, s'), w'). (may_oom w' \<longrightarrow> may_oom w) \<and> sb_inv s' \<and>
     sb_shows s' (sb_after ok c a) \<and> (ok \<or> c = C_reset \<or> may_oom w))"

lemma sb_callI:
  assumes "sb_spec w s (sb_exec c s w) Q" "sb_inv s" "sb_shows s a" "\<And>s'. sb_inv s' \<Longrightarrow> Q s' \<Longrightarrow> sb_shows s' (sb_effect c a)"
    "c \<noteq> C_reset"
  shows "sb_call w s a c"
  using assms(1) unfolding sb_call_def sb_spec_def
  by (rule wp_weaken) (use assms(2-5) in \<open>auto simp: sb_after_def split: if_splits\<close>)

lemma sb_exec_spec:
  assumes inv: "sb_inv s" and a: "sb_shows s a" and ok: "sb_cmd_ok (may_oom w) c a"
  shows "sb_call w s a c"
proof -
  obtain st v z where v: "a = (st, v, z)" "sb_static s = st" "sb_val s = v" "z \<longrightarrow> sb_terminated s"
    using a by (cases a) (auto simp: sb_shows_def elim!: sb_spec_weaken)
  have len: "sb_len s = length v" using sb_inv_len [OF inv] v(3) by simp
  show ?thesis
  proof (cases c)
    case (C_append_char x)
    with ok v len show ?thesis
      using strbuf_append_char_spec [OF inv, of w x]
      by (intro sb_callI [OF _ inv a]) (auto simp: sb_shows_def elim!: sb_spec_weaken)
  next
    case (C_append_str t)
    with ok v len sized_text_printed [of t] show ?thesis
      using strbuf_append_str_spec [OF inv, of "t @ [NUL]" "length t" w]
      by (intro sb_callI [OF _ inv a]) (auto simp: sb_shows_def elim!: sb_spec_weaken)
  next
    case (C_append_printf t)
    with ok v len show ?thesis
      using strbuf_append_printf_spec [OF inv, of t w] by (intro sb_callI [OF _ inv a]) (auto simp: sb_shows_def elim!: sb_spec_weaken)
  next
    case (C_set t)
    with ok v len sized_text_printed [of t] show ?thesis
      using strbuf_set_spec [OF inv, of "t @ [NUL]" "length t" w]
      by (intro sb_callI [OF _ inv a]) (auto simp: sb_shows_def elim!: sb_spec_weaken)
  next
    case (C_printf t)
    with ok v len show ?thesis
      using strbuf_printf_spec [OF inv, of t w] by (intro sb_callI [OF _ inv a]) (auto simp: sb_shows_def elim!: sb_spec_weaken)
  next
    case (C_set_static t)
    obtain s' where s': "strbuf_set_static s (t @ [NUL]) (length t) = Ok (True, s')" "sb_inv s'" "sb_static s'" "sb_val s' = t"
        "sb_len s' = length t" "sb_mem s' = Some (t @ [NUL])"
      using strbuf_set_static_spec [of "t @ [NUL]" "length t" s] sized_text_printed [of t] ok C_set_static v by auto
    then have "sb_terminated s'" by (simp add: sb_terminated_def)
    with s' v show ?thesis by (simp add: C_set_static sb_call_def sb_after_def sb_shows_def)
  next
    case (C_shrink_to n)
    show ?thesis
    proof (cases st)
      case True
      with inv a v C_shrink_to show ?thesis
        by (simp add: sb_call_def strbuf_shrink_to_def sb_after_def sb_shows_def Let_def)
    next
      case False
      have n: "1 \<le> n" "n < 2 ^ 32" using ok C_shrink_to v by simp_all
      have "n < sb_allocated s" if "find_next_power_of_two n < length v"
        using find_next_power_of_two_bounds(1) [of n] n that inv len by (auto simp: sb_inv_def split: option.splits)
      then show ?thesis
        using strbuf_shrink_to_spec [OF inv n, of w] False v len C_shrink_to
        by (intro sb_callI [OF _ inv a]) (auto simp: sb_shows_def Let_def elim!: sb_spec_weaken)
    qed
  next
    case (C_grow_to n)
    with ok v len show ?thesis
      using strbuf_grow_to_spec [OF inv, of n w] by (intro sb_callI [OF _ inv a]) (auto simp: sb_shows_def elim!: sb_spec_weaken)
  next
    case C_reset
    show ?thesis
      unfolding sb_call_def C_reset sb_exec.simps
      by (rule wp_weaken [OF strbuf_reset_spec [OF inv]]) (auto simp: v sb_after_def sb_shows_def)
  next
    case C_reset_length
    have "sb_static s \<longrightarrow> 0 < sb_allocated s"
      using ok v inv len C_reset_length by (cases v) (auto simp: sb_inv_def split: option.splits)
    note r = strbuf_reset_length_spec [OF inv this, of w]
    show ?thesis
    proof (cases "may_oom w")
      case False
      show ?thesis
        unfolding sb_call_def C_reset_length sb_exec.simps
        by (rule wp_weaken [OF r]) (use False in \<open>auto simp: v sb_after_def sb_shows_def split: if_splits\<close>)
    next
      case True
      then have "\<not> sb_static s" using ok v C_reset_length by simp
      moreover obtain b where "sb_mem s = Some b" "b \<noteq> []"
        using inv \<open>\<not> sb_static s\<close> by (cases "sb_mem s") (fastforce simp: sb_inv_def)+
      ultimately obtain s' where "strbuf_reset_length s w = Ok ((True, s'), w)"
        by (simp add: strbuf_reset_length_def sb_store_def store_def Let_def)
      then show ?thesis using r v by (simp add: C_reset_length sb_call_def sb_after_def sb_shows_def)
    qed
  qed
qed

fun sb_outcome :: "bool list \<Rightarrow> sb_cmd list \<Rightarrow> sb_view \<Rightarrow> sb_view" where
  "sb_outcome (ok # oks) (c # cs) a = sb_outcome oks cs (sb_after ok c a)"
| "sb_outcome _ _ a = a"

lemma sb_run_spec:
  assumes "sb_inv s" "sb_shows s a" "sb_prog_ok (may_oom w) cs a"
  shows "wp False (sb_run cs s w) (\<lambda>((oks, s'), w'). sb_inv s' \<and> length oks = length cs \<and>
    sb_shows s' (sb_outcome oks cs a) \<and> (\<not> may_oom w \<longrightarrow> list_all2 (\<lambda>ok c. ok \<or> c = C_reset) oks cs))"
  using assms
proof (induction cs arbitrary: s a w)
  case (Cons c cs)
  have call: "sb_call w s a c" using sb_exec_spec [OF Cons.prems(1,2)] Cons.prems(3) by simp
  show ?case
    unfolding sb_run.simps
  proof (rule wp_bindI [OF call [unfolded sb_call_def]], goal_cases)
    case (2 x)
    obtain ok s1 w1 where x: "x = ((ok, s1), w1)" by (metis prod.exhaust)
    have h: "sb_inv s1" "sb_shows s1 (sb_after ok c a)" "may_oom w1 \<Longrightarrow> may_oom w" "ok \<or> c = C_reset \<or> may_oom w"
      using 2 x by auto
    have "sb_prog_ok (may_oom w) cs (sb_after ok c a)" using Cons.prems(3) h(4) by (auto simp: sb_after_def)
    then have "sb_prog_ok (may_oom w1) cs (sb_after ok c a)"
      using h(3) sb_prog_ok_refused by (cases "may_oom w"; cases "may_oom w1") auto
    note IH = Cons.IH [OF h(1,2) this]
    show ?case
      unfolding x case_prod_conv
      by (rule wp_bindI [OF IH]) (use h in \<open>auto split: prod.splits\<close>)
  qed simp
qed simp

section \<open>The buffer interface\<close>

text \<open>A client that gives up when a call reports failure.\<close>

definition sb_checked :: "sb_result \<Rightarrow> (strbuf \<times> world) cres" where
  "sb_checked r = res_bind r (\<lambda>((ok, s), w). if ok then Ok (s, w) else Err Abort)"

definition sb_put :: "string \<Rightarrow> strbuf \<times> world \<Rightarrow> (strbuf \<times> world) cres" where
  "sb_put t = (\<lambda>(s, w). sb_checked (strbuf_append_str s (t @ [NUL]) (length t) w))"

definition sb_empty :: "strbuf \<times> world \<Rightarrow> (strbuf \<times> world) cres" where
  "sb_empty = (\<lambda>(s, w). sb_checked (strbuf_reset_length s w))"

lemma sb_checked_wp:
  assumes "sb_spec w s r P"
  shows "wp (may_oom w) (sb_checked r) (\<lambda>(s', w'). sb_inv s' \<and> P s' \<and> (may_oom w' \<longrightarrow> may_oom w))"
  unfolding sb_checked_def
  by (rule wp_bindI [OF assms [unfolded sb_spec_def]]) (auto split: if_splits)

interpretation sb_buffer: clearable_buffer sb_put "\<lambda>s. sb_inv (fst s) \<and> \<not> sb_static (fst s)" "\<lambda>s. sb_val (fst s)"
  "\<lambda>s. may_oom (snd s)" "2 ^ 32 - 2" sb_empty
proof (unfold_locales, goal_cases)
  case (1 s t)
  obtain b w where s: "s = (b, w)" by force
  have "sb_spec w b (strbuf_append_str b (t @ [NUL]) (length t) w)
      (\<lambda>s'. \<not> sb_static s' \<and> sb_terminated s' \<and> sb_val s' = sb_val b @ t)"
    using 1 s strbuf_append_str_spec [of b "t @ [NUL]" "length t" w] sized_text_printed [of t]
    by (simp add: sb_inv_len)
  from sb_checked_wp [OF this] show ?case
    by (auto simp: s sb_put_def elim!: wp_weaken)
next
  case (2 s)
  obtain b w where s: "s = (b, w)" by force
  have "sb_spec w b (strbuf_reset_length b w) (\<lambda>s'. \<not> sb_static s' \<and> sb_val s' = [])"
    using strbuf_reset_length_spec [of b w] 2 s
    by (auto simp: sb_spec_def strbuf_reset_length_def sb_store_def store_def sb_inv_def sb_val_def
        split: option.splits)
  from sb_checked_wp [OF this] show ?case
    by (auto simp: s sb_empty_def elim!: wp_weaken)
qed

section \<open>Properties\<close>

text \<open>A sample buffer of 64 bytes of capacity holding \<open>hi\<close>, and a static one of 64 bytes.\<close>

definition hi :: strbuf where
  "hi = \<lparr>sb_static = False, sb_dynamic = False, sb_allocated = 64, sb_len = 2, sb_mem = Some (''hi'' @ zeroed 63)\<rparr>"

definition still :: strbuf where
  "still = \<lparr>sb_static = True, sb_dynamic = False, sb_allocated = 64, sb_len = 64, sb_mem = Some (replicate 64 CHR ''x'')\<rparr>"

lemma hi_simps [simp]: "sb_inv hi" "sb_val hi = ''hi''" "sb_static hi = False" "sb_len hi = 2" "sb_allocated hi = 64"
  by (simp_all add: hi_def sb_inv_def sb_val_def)

text \<open>C8. A program of calls that are in range (\<open>sb_cmd_ok\<close>), with any allocations refused on the way: no access leaves the
  block, the buffer stays well formed, its text is exactly the effect of the calls that reported success, and of
  \<open>strbuf_reset\<close>, which never does, and a NUL follows the text whenever the effect says so: after every call but
  those that copy a static buffer without changing it, shrink below the text or reset. Without refusals every call
  succeeds. The calls that are out of range fault or lose the buffer, as the next lemmas show.\<close>

theorem strbuf_program_refines:
  assumes "sb_inv s" "sb_shows s a" "sb_prog_ok (may_oom w) cs a"
  shows "wp False (sb_run cs s w) (\<lambda>((oks, s'), w'). sb_inv s' \<and> length oks = length cs \<and>
    sb_shows s' (sb_outcome oks cs a) \<and> (\<not> may_oom w \<longrightarrow> list_all2 (\<lambda>ok c. ok \<or> c = C_reset) oks cs))"
  using assms by (rule sb_run_spec)

text \<open>A longer static text is replaced, a buffer of 64 bytes is shrunk to 4, emptied and filled again.\<close>

theorem strbuf_program_refines_witness:
  "\<exists>s' w'. sb_run [C_append_str ''!'', C_set_static ''abcde'', C_set ''xy'', C_append_str ''12345'', C_shrink_to 4, C_append_char CHR ''c'']
     hi quiet = Ok (([True, True, True, True, True, True], s'), w') \<and> sb_val s' = ''xy1c'' \<and> sb_terminated s'"
proof -
  let ?cs = "[C_append_str ''!'', C_set_static ''abcde'', C_set ''xy'', C_append_str ''12345'', C_shrink_to 4, C_append_char CHR ''c'']"
  have p: "find_next_power_of_two 4 = 4" "find_next_power_of_two 5 = 8"
    using find_next_power_of_two_eq [of 4 2] find_next_power_of_two_eq [of 5 3] by simp_all
  have "\<not> copy_overruns (Suc (Suc (Suc 0))) (Suc (Suc (Suc (Suc (Suc 0)))))"
    using p(2) by (simp add: copy_overruns_def eval_nat_numeral)
  then have ok: "sb_prog_ok (may_oom quiet) ?cs (False, ''hi'', True)" by (simp add: p Let_def)
  have h: "sb_shows hi (False, ''hi'', True)" by (simp add: sb_shows_def) (simp add: hi_def sb_terminated_def)
  obtain oks s' w' where r: "sb_run ?cs hi quiet = Ok ((oks, s'), w')" "sb_shows s' (sb_outcome oks ?cs (False, ''hi'', True))"
      "list_all2 (\<lambda>ok c. ok \<or> c = C_reset) oks ?cs"
    using strbuf_program_refines [OF hi_simps(1) h ok] by (auto simp: wp_total simp del: sb_run.simps)
  have oks: "oks = [True, True, True, True, True, True]" using r(3) by (auto simp: list_all2_Cons2)
  have "sb_outcome oks ?cs (False, ''hi'', True) = (False, ''xy1c'', True)"
    unfolding oks by (simp add: sb_after_def p Let_def)
  then show ?thesis using r(1,2) unfolding oks by (auto simp: sb_shows_def simp del: sb_run.simps)
qed

text \<open>What is out of range: a copy without room for the terminator, in every call that grows a static buffer, ...\<close>

lemma strbuf_copy_overruns:
  assumes "sb_inv s" "sb_static s" "\<not> may_oom w"
  shows "\<lbrakk>length t + 1 < 2 ^ 32; copy_overruns (length t + 1) (sb_len s)\<rbrakk> \<Longrightarrow> sb_exec (C_set t) s w = Err Fault"
    and "\<lbrakk>n + 1 < 2 ^ 32; copy_overruns (n + 1) (sb_len s)\<rbrakk> \<Longrightarrow> sb_exec (C_grow_to n) s w = Err Fault"
  using grow_static_overflow [OF assms, of "length t + 1"] grow_static_overflow [OF assms, of "n + 1"] size_or_strlen [of "t @ [NUL]" "length t"]
    sized_text_printed [of t]
  by (simp_all add: strbuf_set_def strbuf_grow_to_def if_grown_def w64_id)

text \<open>... a static buffer that is reset when its text is empty, or without memory: its pointer is lost, ...\<close>

lemma strbuf_reset_length_static:
  assumes "sb_static s"
  shows "\<not> may_oom w \<Longrightarrow> sb_allocated s = 0 \<Longrightarrow> strbuf_reset_length s w = Err Fault"
    and "malloc w = (False, w') \<Longrightarrow> strbuf_reset_length s w = Ok ((False, s\<lparr>sb_static := False, sb_mem := None\<rparr>), w')"
  using assms malloc_fst [of w] by (cases "malloc w"; auto simp: strbuf_reset_length_def sb_store_def store_def Let_def)+

text \<open>... and a text that is shrunk to nothing: its length becomes the largest number.\<close>

lemma strbuf_shrink_to_0:
  assumes "sb_inv s" "\<not> sb_static s" "0 < sb_len s" "\<not> may_oom w"
  shows "\<exists>s' w'. strbuf_shrink_to s 0 w = Ok ((True, s'), w') \<and> sb_len s' = 2 ^ 64 - 1"
proof -
  have p: "find_next_power_of_two 0 = 0" by (simp add: find_next_power_of_two_def smear_def)
  obtain ok w' where m: "malloc w = (ok, w')" by force
  then have ok using malloc_fst [of w] assms(4) by auto
  then show ?thesis
    using assms m by (auto simp: strbuf_shrink_to_def p Let_def sb_inv_def sb_store_def store_def w64_def sub64_def resize_def
        split: option.splits)
qed

text \<open>The capacity computed by the chain of shifts is the least power of two that holds
  the request, for every request from one byte to four gigabytes.\<close>

theorem find_next_power_of_two_least:
  assumes "1 \<le> n" "n \<le> 2 ^ 32"
  shows "\<exists>k. find_next_power_of_two n = 2 ^ k \<and> n \<le> 2 ^ k \<and> (\<forall>j. n \<le> 2 ^ j \<longrightarrow> k \<le> j)"
proof -
  obtain k where k: "find_next_power_of_two n = 2 ^ k" "n \<le> 2 ^ k" "k > 0 \<longrightarrow> 2 ^ (k - 1) < n"
    using find_next_power_of_two [OF assms] by blast
  have "k \<le> j" if "n \<le> 2 ^ j" for j
  proof (rule ccontr)
    assume "\<not> k \<le> j"
    then have "(2::nat) ^ j \<le> 2 ^ (k - 1)" by (intro power_increasing) auto
    with k(3) that \<open>\<not> k \<le> j\<close> show False by linarith
  qed
  with k show ?thesis by blast
qed

theorem find_next_power_of_two_least_witness:
  "\<exists>k. find_next_power_of_two 100 = 2 ^ k \<and> 100 \<le> (2 ^ k :: nat) \<and> (\<forall>j. 100 \<le> (2 ^ j :: nat) \<longrightarrow> k \<le> j)"
  using find_next_power_of_two_least [of 100] by simp

text \<open>A static buffer whose length is a power of two is overrun by \<open>strbuf_set\<close> with a
  shorter text: the terminator of the copy is written past its end.\<close>

theorem strbuf_set_static_overrun:
  assumes "sb_inv s" "sb_static s" "sb_len s = 2 ^ k" "k \<le> 32" "\<not> may_oom w"
    and "sized_ok m sz" "length (sized_text m sz) + 2 \<le> sb_len s"
  shows "strbuf_set s m sz w = Err Fault"
proof -
  have le: "sb_len s \<le> 2 ^ 32" unfolding assms(3) using assms(4) by (rule power_increasing) simp
  have "find_next_power_of_two (sb_len s) = sb_len s"
    unfolding assms(3) using assms(4) by (intro find_next_power_of_two_eq) auto
  then have "copy_overruns (length (sized_text m sz) + 1) (sb_len s)" using assms(7) by (simp add: copy_overruns_def max_def)
  then show ?thesis
    using grow_static_overflow [OF assms(1,2,5), of "length (sized_text m sz) + 1"] size_or_strlen [OF assms(6)] assms(7) le
    by (simp add: strbuf_set_def if_grown_def w64_id)
qed

theorem strbuf_set_static_overrun_witness:
  "strbuf_set still (''ab'' @ [NUL]) 2 quiet = Err Fault"
  using strbuf_set_static_overrun [of still 6 quiet "''ab'' @ [NUL]" 2]
  by (simp add: still_def sb_inv_def sized_ok_def sized_text_def)

text \<open>Shrinking a buffer below its text keeps one byte less than the new capacity, but
  terminates it one byte later: unless that byte is NUL, the C string is one longer than the
  length that is recorded.\<close>

theorem strbuf_shrink_terminator_late:
  assumes "sb_inv s" "\<not> sb_static s" "1 \<le> n" "n < sb_allocated s" "n < 2 ^ 32"
    and long: "find_next_power_of_two n < sb_len s" "NUL \<notin> set (sb_val s)" and "\<not> may_oom w"
  shows "\<exists>s' w' b. strbuf_shrink_to s n w = Ok ((True, s'), w') \<and> sb_mem s' = Some b \<and>
    sb_len s' = find_next_power_of_two n - 1 \<and> strlen b = Ok (sb_len s' + 1)"
proof -
  obtain b where b: "sb_mem s = Some b" "sb_allocated s \<le> length b" "sb_len s \<le> sb_allocated s"
    "sb_len s < length b" "length b \<le> 2 ^ 33"
    using assms(1,2) by (auto simp: sb_inv_def split: option.splits)
  obtain ok w' where m: "malloc w = (ok, w')" by force
  then have ok using malloc_fst [of w] assms(8) by auto
  let ?p = "find_next_power_of_two n"
  have p: "n \<le> ?p" "?p \<le> 2 ^ 32"
    using find_next_power_of_two_bounds [of n] assms by simp_all
  have w: "w64 (Suc ?p) = Suc ?p" "sub64 ?p (Suc 0) = ?p - 1" "w64 (Suc (?p - 1)) = ?p"
    using p assms(3) by (simp_all add: w64_id sub64_id)
  define b' where "b' = (resize w' b (Suc ?p))[?p := NUL]"
  have "b' = take ?p b @ [NUL]"
    using long(1) b unfolding b'_def by (simp add: resize_def take_Suc_conv_app_nth list_update_append)
  moreover have "NUL \<notin> set (take ?p b)"
    using long b set_take_subset_set_take [of ?p "sb_len s" b] by (auto simp: sb_val_def)
  ultimately have "strlen b' = Ok ?p"
    using long(1) b by (simp add: strlen_def)
  moreover have "strbuf_shrink_to s n w = Ok ((True, s\<lparr>sb_allocated := ?p, sb_len := ?p - 1, sb_mem := Some b'\<rparr>), w')"
    using b m \<open>ok\<close> assms p w by (simp add: strbuf_shrink_to_def sb_store_def store_def b'_def Let_def)
  ultimately show ?thesis
    using p assms(3) by simp
qed

theorem strbuf_shrink_terminator_late_witness:
  "\<exists>s' w' b. strbuf_shrink_to \<lparr>sb_static = False, sb_dynamic = False, sb_allocated = 8, sb_len = 7,
      sb_mem = Some (replicate 7 CHR ''x'' @ zeroed 2)\<rparr> 4 quiet = Ok ((True, s'), w') \<and>
    sb_mem s' = Some b \<and> sb_len s' = 3 \<and> strlen b = Ok 4"
proof -
  have "find_next_power_of_two 4 = 4" using find_next_power_of_two_eq [of 4 2] by simp
  then show ?thesis
    using strbuf_shrink_terminator_late [of "\<lparr>sb_static = False, sb_dynamic = False, sb_allocated = 8, sb_len = 7,
      sb_mem = Some (replicate 7 CHR ''x'' @ zeroed 2)\<rparr>" 4 quiet]
    by (auto simp: sb_inv_def sb_val_def)
qed

text \<open>Emptying a strbuf and appending any pieces of text leaves exactly their
  concatenation, whatever the buffer held before; nothing but a refused allocation stops it.\<close>

theorem strbuf_rebuild_correct:
  assumes "sb_inv s" "\<not> sb_static s" "length (concat ts) < 2 ^ 32 - 2"
  shows "wp (may_oom w) (rebuild sb_empty sb_put ts (s, w)) (\<lambda>(s', w'). sb_inv s' \<and> sb_val s' = concat ts)"
  using sb_buffer.rebuild [of "(s, w)" ts] assms by (auto elim!: wp_weaken)

theorem strbuf_rebuild_correct_witness:
  "wp (may_oom quiet) (rebuild sb_empty sb_put [''ab'', ''c''] (hi, quiet)) (\<lambda>(s', w'). sb_inv s' \<and> sb_val s' = ''abc'')"
  using strbuf_rebuild_correct [of hi "[''ab'', ''c'']" quiet] by simp

end
