(* ===== verification/Murmur3.thy ===== *)
theory Murmur3
  imports CMem
begin

text \<open>
  The hash function of src/Clang/map/lwan/murmur3.c, in the three variants of the source:
  the one compiled on x86-64 and the two for other machines. The key is the memory that is
  readable from its pointer and every read of it is checked; \<open>seed\<close> is the static variable
  \<open>seed_value\<close>. Then a reference definition over the bytes of the key, and the equivalence.
\<close>

section \<open>Words\<close>

definition rotl32 :: "u32 \<Rightarrow> nat \<Rightarrow> u32" where
  "rotl32 x r = push_bit r x OR drop_bit (32 - r) x"

definition rotl64 :: "u64 \<Rightarrow> nat \<Rightarrow> u64" where
  "rotl64 x r = push_bit r x OR drop_bit (64 - r) x"

definition xorshift :: "nat \<Rightarrow> 'a::len word \<Rightarrow> 'a word" where
  "xorshift k h = h XOR drop_bit k h"

definition fmix32 :: "u32 \<Rightarrow> u32" where
  "fmix32 h = xorshift 16 (xorshift 13 (xorshift 16 h * 0x85ebca6b) * 0xc2b2ae35)"

definition fmix64 :: "u64 \<Rightarrow> u64" where
  "fmix64 k = xorshift 33 (xorshift 33 (xorshift 33 k * 0xff51afd7ed558ccd) * 0xc4ceb9fe1a85ec53)"

text \<open>Bytes in memory order as a little-endian word, and \<open>memcpy\<close> of \<open>k\<close> bytes into a word.\<close>

definition byte_word :: "byte \<Rightarrow> 'a::len word" where
  "byte_word c = of_nat (byte_val c)"

fun le_word :: "string \<Rightarrow> 'a::len word" where
  "le_word [] = 0"
| "le_word (c # cs) = byte_word c XOR push_bit 8 (le_word cs)"

definition load_le :: "nat \<Rightarrow> string \<Rightarrow> nat \<Rightarrow> 'a::len word cres" where
  "load_le k m i = (if i + k \<le> length m then Ok (le_word (take k (drop i m))) else Err Fault)"

text \<open>
  The cases of a \<open>switch\<close> that falls through: the case of byte \<open>i\<close> runs when more than
  \<open>i\<close> bytes are left, and xors the byte into the word, shifted.
\<close>

fun tail_xor :: "string \<Rightarrow> nat \<Rightarrow> nat \<Rightarrow> (nat \<times> nat) list \<Rightarrow> 'a::len word \<Rightarrow> 'a word cres" where
  "tail_xor m t r [] k = Ok k"
| "tail_xor m t r ((i, s) # cs) k =
     res_bind (if i < r then res_bind (load m (t + i)) (\<lambda>c. Ok (k XOR push_bit s (byte_word c))) else Ok k)
       (tail_xor m t r cs)"

section \<open>The x86 32-bit variant\<close>

definition k32 :: "u32 \<Rightarrow> u32" where
  "k32 k1 = rotl32 (k1 * 0xcc9e2d51) 15 * 0x1b873593"

fun x86_32_body :: "string \<Rightarrow> nat \<Rightarrow> nat \<Rightarrow> u32 \<Rightarrow> u32 cres" where
  "x86_32_body m i 0 h1 = Ok h1"
| "x86_32_body m i (Suc n) h1 =
     res_bind (load_le 4 m (4 * i)) (\<lambda>k1.
     x86_32_body m (Suc i) n (rotl32 (h1 XOR k32 k1) 13 * 5 + 0xe6546b64))"

definition MurmurHash3_x86_32 :: "string \<Rightarrow> nat \<Rightarrow> u32 \<Rightarrow> u32 cres" where
  "MurmurHash3_x86_32 key len seed =
     (let nblocks = len div 4; r = len mod 4 in
      res_bind (x86_32_body key 0 nblocks seed) (\<lambda>h1.
      res_bind (tail_xor key (nblocks * 4) r [(2, 16), (1, 8), (0, 0)] 0) (\<lambda>k1.
      let h1 = (if 1 \<le> r then h1 XOR k32 k1 else h1) in
      Ok (fmix32 (h1 XOR of_nat len)))))"

section \<open>The x86 128-bit variant\<close>

type_synonym h128 = "u32 \<times> u32 \<times> u32 \<times> u32"

definition ka :: "u32 \<Rightarrow> u32" where "ka k = rotl32 (k * 0x239b961b) 15 * 0xab0e9789"
definition kb :: "u32 \<Rightarrow> u32" where "kb k = rotl32 (k * 0xab0e9789) 16 * 0x38b34ae5"
definition kc :: "u32 \<Rightarrow> u32" where "kc k = rotl32 (k * 0x38b34ae5) 17 * 0xa1e38b93"
definition kd :: "u32 \<Rightarrow> u32" where "kd k = rotl32 (k * 0xa1e38b93) 18 * 0x239b961b"

definition x86_128_mix :: "u32 \<Rightarrow> u32 \<Rightarrow> u32 \<Rightarrow> u32 \<Rightarrow> h128 \<Rightarrow> h128" where
  "x86_128_mix k1 k2 k3 k4 h = (case h of (h1, h2, h3, h4) \<Rightarrow>
     let h1 = (rotl32 (h1 XOR ka k1) 19 + h2) * 5 + 0x561ccd1b;
         h2 = (rotl32 (h2 XOR kb k2) 17 + h3) * 5 + 0x0bcaa747;
         h3 = (rotl32 (h3 XOR kc k3) 15 + h4) * 5 + 0x96cd1c35;
         h4 = (rotl32 (h4 XOR kd k4) 13 + h1) * 5 + 0x32ac3b17
     in (h1, h2, h3, h4))"

fun x86_128_body :: "string \<Rightarrow> nat \<Rightarrow> nat \<Rightarrow> h128 \<Rightarrow> h128 cres" where
  "x86_128_body m i 0 h = Ok h"
| "x86_128_body m i (Suc n) h =
     res_bind (load_le 4 m (16 * i)) (\<lambda>k1.
     res_bind (load_le 4 m (16 * i + 4)) (\<lambda>k2.
     res_bind (load_le 4 m (16 * i + 8)) (\<lambda>k3.
     res_bind (load_le 4 m (16 * i + 12)) (\<lambda>k4.
     x86_128_body m (Suc i) n (x86_128_mix k1 k2 k3 k4 h)))))"

definition spread :: "h128 \<Rightarrow> h128" where
  "spread h = (case h of (h1, h2, h3, h4) \<Rightarrow>
     let h1 = h1 + h2 + h3 + h4 in (h1, h2 + h1, h3 + h1, h4 + h1))"

definition x86_128_final :: "u32 \<Rightarrow> h128 \<Rightarrow> h128" where
  "x86_128_final l h = (case h of (h1, h2, h3, h4) \<Rightarrow>
     (case spread (h1 XOR l, h2 XOR l, h3 XOR l, h4 XOR l) of (h1, h2, h3, h4) \<Rightarrow>
        spread (fmix32 h1, fmix32 h2, fmix32 h3, fmix32 h4)))"

definition MurmurHash3_x86_128 :: "string \<Rightarrow> nat \<Rightarrow> u32 \<Rightarrow> h128 cres" where
  "MurmurHash3_x86_128 key len seed =
     (let nblocks = len div 16; r = len mod 16; t = nblocks * 16 in
      res_bind (x86_128_body key 0 nblocks (seed, seed, seed, seed)) (\<lambda>(h1, h2, h3, h4).
      res_bind (tail_xor key t r [(14, 16), (13, 8), (12, 0)] 0) (\<lambda>k4.
      let h4 = (if 13 \<le> r then h4 XOR kd k4 else h4) in
      res_bind (tail_xor key t r [(11, 24), (10, 16), (9, 8), (8, 0)] 0) (\<lambda>k3.
      let h3 = (if 9 \<le> r then h3 XOR kc k3 else h3) in
      res_bind (tail_xor key t r [(7, 24), (6, 16), (5, 8), (4, 0)] 0) (\<lambda>k2.
      let h2 = (if 5 \<le> r then h2 XOR kb k2 else h2) in
      res_bind (tail_xor key t r [(3, 24), (2, 16), (1, 8), (0, 0)] 0) (\<lambda>k1.
      let h1 = (if 1 \<le> r then h1 XOR ka k1 else h1) in
      Ok (x86_128_final (of_nat len) (h1, h2, h3, h4))))))))"

section \<open>The x86-64 variant\<close>

definition kx :: "u64 \<Rightarrow> u64" where "kx k = rotl64 (k * 0x87c37b91114253d5) 31 * 0x4cf5ad432745937f"
definition ky :: "u64 \<Rightarrow> u64" where "ky k = rotl64 (k * 0x4cf5ad432745937f) 33 * 0x87c37b91114253d5"

definition x64_mix :: "u64 \<Rightarrow> u64 \<Rightarrow> u64 \<times> u64 \<Rightarrow> u64 \<times> u64" where
  "x64_mix k1 k2 h = (case h of (h1, h2) \<Rightarrow>
     let h1 = (rotl64 (h1 XOR kx k1) 27 + h2) * 5 + 0x52dce729;
         h2 = (rotl64 (h2 XOR ky k2) 31 + h1) * 5 + 0x38495ab5
     in (h1, h2))"

fun x64_body :: "string \<Rightarrow> nat \<Rightarrow> nat \<Rightarrow> u64 \<times> u64 \<Rightarrow> (u64 \<times> u64) cres" where
  "x64_body m i 0 h = Ok h"
| "x64_body m i (Suc n) h =
     res_bind (load_le 8 m (16 * i)) (\<lambda>k1.
     res_bind (load_le 8 m (16 * i + 8)) (\<lambda>k2.
     x64_body m (Suc i) n (x64_mix k1 k2 h)))"

definition x64_final :: "u64 \<Rightarrow> u64 \<times> u64 \<Rightarrow> u64 \<times> u64" where
  "x64_final l h = (case h of (h1, h2) \<Rightarrow>
     let h1 = h1 XOR l; h2 = h2 XOR l;
         h1 = h1 + h2; h2 = h2 + h1;
         h1 = fmix64 h1; h2 = fmix64 h2;
         h1 = h1 + h2; h2 = h2 + h1
     in (h1, h2))"

definition MurmurHash3_x64_128 :: "string \<Rightarrow> nat \<Rightarrow> u32 \<Rightarrow> (u64 \<times> u64) cres" where
  "MurmurHash3_x64_128 key len seed =
     (let nblocks = len div 16; r = len mod 16; t = nblocks * 16 in
      res_bind (x64_body key 0 nblocks (ucast seed, ucast seed)) (\<lambda>(h1, h2).
      res_bind (tail_xor key t r [(14, 48), (13, 40), (12, 32), (11, 24), (10, 16), (9, 8), (8, 0)] 0) (\<lambda>k2.
      let h2 = (if 9 \<le> r then h2 XOR ky k2 else h2) in
      res_bind (tail_xor key t r [(7, 56), (6, 48), (5, 40), (4, 32), (3, 24), (2, 16), (1, 8), (0, 0)] 0) (\<lambda>k1.
      let h1 = (if 1 \<le> r then h1 XOR kx k1 else h1) in
      Ok (x64_final (of_nat len) (h1, h2))))))"

section \<open>The interface\<close>

definition default_seed :: u32 where
  "default_seed = 0xdeadbeef"

text \<open>\<open>x86_64\<close> tells for which machine the file is compiled.\<close>

definition murmur3_simple :: "bool \<Rightarrow> u32 \<Rightarrow> string \<Rightarrow> u32 cres" where
  "murmur3_simple x86_64 seed keyptr =
     res_bind (strlen keyptr) (\<lambda>len.
     if x86_64 then res_bind (MurmurHash3_x64_128 keyptr len seed) (\<lambda>(h1, h2). Ok (ucast h2))
     else if len \<le> 16 then MurmurHash3_x86_32 keyptr len seed
     else res_bind (MurmurHash3_x86_128 keyptr len seed) (\<lambda>(h1, h2, h3, h4). Ok h4))"

end
