(* ===== verification/LwanHash.thy ===== *)
theory LwanHash
  imports Murmur3
begin

text \<open>
  The hash table of src/Clang/map/lwan/hash.c with reallocarray.c. A table has 512 buckets,
  each an array of entries of which the first \<open>used\<close> are filled; a slot that was never
  written is \<open>None\<close>, and reading it is a fault. The function pointers of the table are
  fields of the record: \<open>hash_value\<close> and \<open>key_compare\<close> may themselves fault, and of
  \<open>free_key\<close> and \<open>free_value\<close> it is recorded whether they are set; the world logs what
  they are called on.
\<close>

section \<open>State\<close>

record ('k, 'v) hash_entry =
  he_key :: 'k
  he_value :: 'v
  he_hashval :: u32

record ('k, 'v) hash_bucket =
  hb_entries :: "('k, 'v) hash_entry option list"
  hb_used :: nat
  hb_total :: nat

record ('k, 'v) hash =
  h_count :: nat
  h_hash_value :: "'k \<Rightarrow> u32 cres"
  h_key_compare :: "'k \<Rightarrow> 'k \<Rightarrow> int cres"
  h_free_value :: bool
  h_free_key :: bool
  h_buckets :: "('k, 'v) hash_bucket list"

record ('k, 'v) hworld = world +
  freed_keys :: "'k list"
  freed_values :: "'v list"

definition n_buckets :: nat where
  "n_buckets = 512"

definition hash_steps :: nat where
  "hash_steps = 64"

definition default_odd_constant :: u32 where
  "default_odd_constant = 0x27d4eb2d"

definition ENOENT :: int where "ENOENT = 2"
definition ENOMEM :: int where "ENOMEM = 12"
definition EEXIST :: int where "EEXIST = 17"

definition entry_size :: nat where
  "entry_size = 24"

section \<open>Overflow-checked reallocation\<close>

definition umull_overflow :: "nat \<Rightarrow> nat \<Rightarrow> nat option" where
  "umull_overflow a b =
     (if (2 ^ 32 \<le> a \<or> 2 ^ 32 \<le> b) \<and> 0 < a \<and> (2 ^ 64 - 1) div a < b then None else Some (w64 (a * b)))"

text \<open>
  The size that is allocated, or \<open>None\<close> for NULL; then \<open>errno\<close> is ENOMEM, set here or by
  \<open>realloc\<close>.
\<close>

definition reallocarray :: "nat \<Rightarrow> nat \<Rightarrow> 'a world_scheme \<Rightarrow> nat option \<times> 'a world_scheme" where
  "reallocarray nmemb n w =
     (case umull_overflow nmemb n of
        None \<Rightarrow> (None, w)
      | Some total_size \<Rightarrow> let (ok, w) = malloc w in (if ok then Some total_size else None, w))"

definition resize_entries :: "'e option list \<Rightarrow> nat \<Rightarrow> 'e option list" where
  "resize_entries es k = take k es @ replicate (k - length es) None"

section \<open>Hash functions and comparisons\<close>

text \<open>
  The outcomes of the system calls that look for randomness: the value of \<open>getrandom\<close> if
  it worked, whether the two devices could be opened, and the value of a complete \<open>read\<close>.
\<close>

definition get_random_unsigned :: "u32 option \<Rightarrow> bool \<Rightarrow> bool \<Rightarrow> u32 option \<Rightarrow> u32" where
  "get_random_unsigned getrandom urandom random read_value =
     (case getrandom of Some v \<Rightarrow> v
      | None \<Rightarrow>
        if \<not> urandom \<and> \<not> random then default_odd_constant
        else (case read_value of Some v \<Rightarrow> v | None \<Rightarrow> default_odd_constant))"

text \<open>\<open>odd_constant\<close> and the seed of murmur3, which are the same.\<close>

definition initialize_odd_constant :: "u32 \<Rightarrow> u32 \<times> u32" where
  "initialize_odd_constant random_unsigned =
     (let odd_constant = random_unsigned OR 1 in (odd_constant, odd_constant))"

definition hash_int :: "u32 \<Rightarrow> u64 \<Rightarrow> u32 cres" where
  "hash_int odd_constant keyptr =
     (let key = ucast keyptr :: u32;
          key = (key XOR 61) XOR drop_bit 16 key;
          key = key + push_bit 3 key;
          key = key XOR drop_bit 4 key;
          key = key * odd_constant;
          key = key XOR drop_bit 15 key
      in Ok key)"

definition hash_int_key_cmp :: "u64 \<Rightarrow> u64 \<Rightarrow> int cres" where
  "hash_int_key_cmp k1 k2 =
     (let a = sint (ucast k1 :: u32); b = sint (ucast k2 :: u32) in
      Ok ((if b < a then 1 else 0) - (if a < b then 1 else 0)))"

text \<open>
  The hash that is used where the machine has a CRC instruction. The four instructions are
  parameters: they fold 64, 32, 16 and 8 bits of data into the hash.
\<close>

record crc_unit =
  crc32di :: "u64 \<Rightarrow> u64 \<Rightarrow> u64"
  crc32si :: "u32 \<Rightarrow> u32 \<Rightarrow> u32"
  crc32hi :: "u32 \<Rightarrow> u16 \<Rightarrow> u32"
  crc32qi :: "u32 \<Rightarrow> u8 \<Rightarrow> u32"

function crc64_loop :: "crc_unit \<Rightarrow> string \<Rightarrow> nat \<Rightarrow> nat \<Rightarrow> u32 \<Rightarrow> (nat \<times> nat \<times> u32) cres" where
  "crc64_loop u m key len h =
     (if 8 \<le> len then
        res_bind (load_le 8 m key) (\<lambda>data. crc64_loop u m (key + 8) (len - 8) (ucast (crc32di u (ucast h) data)))
      else Ok (key, len, h))"
  by pat_completeness auto
termination by (relation "measure (\<lambda>(u, m, key, len, h). len)") auto

function crc32_loop :: "crc_unit \<Rightarrow> string \<Rightarrow> nat \<Rightarrow> nat \<Rightarrow> u32 \<Rightarrow> (nat \<times> u32) cres" where
  "crc32_loop u m key len h =
     (if 4 \<le> len then
        res_bind (load_le 4 m key) (\<lambda>data. crc32_loop u m (key + 4) (len - 4) (crc32si u h data))
      else Ok (key, h))"
  by pat_completeness auto
termination by (relation "measure (\<lambda>(u, m, key, len, h). len)") auto

declare crc64_loop.simps [simp del] crc32_loop.simps [simp del]

definition hash_crc32 :: "crc_unit \<Rightarrow> bool \<Rightarrow> u32 \<Rightarrow> string \<Rightarrow> u32 cres" where
  "hash_crc32 u x86_64 odd_constant m =
     res_bind (strlen m) (\<lambda>len.
     res_bind (if x86_64 then crc64_loop u m 0 len odd_constant else Ok (0, len, odd_constant)) (\<lambda>(key, len, h).
     res_bind (crc32_loop u m key len h) (\<lambda>(key, h).
     res_bind (load m key) (\<lambda>c0.
     res_bind (if c0 \<noteq> NUL then load m (key + 1) else Ok NUL) (\<lambda>c1.
     res_bind (if c0 \<noteq> NUL \<and> c1 \<noteq> NUL
               then res_bind (load_le 2 m key) (\<lambda>data. Ok (key + 2, crc32hi u h data))
               else Ok (key, h)) (\<lambda>(key, h).
     res_bind (load m key) (\<lambda>c. Ok (if c \<noteq> NUL then crc32qi u h (byte_word c) else h))))))))"

text \<open>The C library's \<open>strcmp\<close>.\<close>

definition strcmp :: "string \<Rightarrow> string \<Rightarrow> int cres" where
  "strcmp k1 k2 =
     (if NUL \<in> set k1 \<and> NUL \<in> set k2 then Ok (cmp_bytes (cstring k1 @ [NUL]) (cstring k2 @ [NUL]))
      else Err Fault)"

section \<open>Creating\<close>

definition empty_bucket :: "('k, 'v) hash_bucket" where
  "empty_bucket = \<lparr>hb_entries = [], hb_used = 0, hb_total = 0\<rparr>"

definition hash_internal_new ::
  "('k \<Rightarrow> u32 cres) \<Rightarrow> ('k \<Rightarrow> 'k \<Rightarrow> int cres) \<Rightarrow> bool \<Rightarrow> bool \<Rightarrow> ('k, 'v) hworld \<Rightarrow>
   ('k, 'v) hash option \<times> ('k, 'v) hworld" where
  "hash_internal_new hash_value key_compare free_key free_value w =
     (let (ok, w) = malloc w in
      (if \<not> ok then None
       else Some \<lparr>h_count = 0, h_hash_value = hash_value, h_key_compare = key_compare, h_free_value = free_value,
              h_free_key = free_key, h_buckets = replicate n_buckets empty_bucket\<rparr>, w))"

definition hash_int_new :: "u32 \<Rightarrow> bool \<Rightarrow> bool \<Rightarrow> (u64, 'v) hworld \<Rightarrow> (u64, 'v) hash option \<times> (u64, 'v) hworld" where
  "hash_int_new odd_constant = hash_internal_new (hash_int odd_constant) hash_int_key_cmp"

text \<open>\<open>crc\<close> is the CRC unit of the machine, in the build that looks for one and when there is one.\<close>

definition hash_str_new :: "crc_unit option \<Rightarrow> bool \<Rightarrow> u32 \<Rightarrow> bool \<Rightarrow> bool \<Rightarrow> (string, 'v) hworld \<Rightarrow>
    (string, 'v) hash option \<times> (string, 'v) hworld" where
  "hash_str_new crc x86_64 odd_constant =
     hash_internal_new
       (case crc of Some u \<Rightarrow> hash_crc32 u x86_64 odd_constant | None \<Rightarrow> murmur3_simple x86_64 odd_constant) strcmp"

section \<open>Calls of the free functions\<close>

definition call_free_value :: "('k, 'v) hash \<Rightarrow> 'v \<Rightarrow> ('k, 'v) hworld \<Rightarrow> ('k, 'v) hworld" where
  "call_free_value h v w = (if h_free_value h then w\<lparr>freed_values := freed_values w @ [v]\<rparr> else w)"

definition call_free_key :: "('k, 'v) hash \<Rightarrow> 'k \<Rightarrow> ('k, 'v) hworld \<Rightarrow> ('k, 'v) hworld" where
  "call_free_key h k w = (if h_free_key h then w\<lparr>freed_keys := freed_keys w @ [k]\<rparr> else w)"

definition load_entry :: "'e option list \<Rightarrow> nat \<Rightarrow> 'e cres" where
  "load_entry es i = (if i < length es then (case es ! i of Some e \<Rightarrow> Ok e | None \<Rightarrow> Err Fault) else Err Fault)"

definition store_entry :: "'e option list \<Rightarrow> nat \<Rightarrow> 'e \<Rightarrow> 'e option list cres" where
  "store_entry es i e = (if i < length es then Ok (es[i := Some e]) else Err Fault)"

text \<open>\<open>hash_free\<close>: the entries of a bucket, one after the other, then the next bucket.\<close>

fun free_entries :: "('k, 'v) hash \<Rightarrow> ('k, 'v) hash_entry option list \<Rightarrow> nat \<Rightarrow> nat \<Rightarrow> ('k, 'v) hworld \<Rightarrow>
    ('k, 'v) hworld cres" where
  "free_entries h es i 0 w = Ok w"
| "free_entries h es i (Suc n) w =
     res_bind (load_entry es i) (\<lambda>e.
     free_entries h es (Suc i) n (call_free_key h (he_key e) (call_free_value h (he_value e) w)))"

fun free_buckets :: "('k, 'v) hash \<Rightarrow> ('k, 'v) hash_bucket list \<Rightarrow> ('k, 'v) hworld \<Rightarrow> ('k, 'v) hworld cres" where
  "free_buckets h [] w = Ok w"
| "free_buckets h (b # bs) w =
     res_bind (if h_free_value h then free_entries h (hb_entries b) 0 (hb_used b) w else Ok w) (free_buckets h bs)"

definition hash_free :: "('k, 'v) hash option \<Rightarrow> ('k, 'v) hworld \<Rightarrow> ('k, 'v) hworld cres" where
  "hash_free p w = (case p of None \<Rightarrow> Ok w | Some h \<Rightarrow> free_buckets h (h_buckets h) w)"

section \<open>Finding\<close>

definition bucket_pos :: "u32 \<Rightarrow> nat" where
  "bucket_pos hashval = unat (hashval AND of_nat (n_buckets - 1))"

text \<open>The scan of a bucket: the index of the first entry with the same hash and an equal key.\<close>

fun scan_bucket :: "('k, 'v) hash \<Rightarrow> 'k \<Rightarrow> u32 \<Rightarrow> ('k, 'v) hash_entry option list \<Rightarrow> nat \<Rightarrow> nat \<Rightarrow> nat option cres" where
  "scan_bucket h key hashval es i 0 = Ok None"
| "scan_bucket h key hashval es i (Suc n) =
     res_bind (load_entry es i) (\<lambda>e.
     if hashval \<noteq> he_hashval e then scan_bucket h key hashval es (Suc i) n
     else res_bind (h_key_compare h key (he_key e)) (\<lambda>c.
       if c \<noteq> 0 then scan_bucket h key hashval es (Suc i) n else Ok (Some i)))"

text \<open>The bucket at an index, which is checked.\<close>

definition get_bucket :: "('k, 'v) hash \<Rightarrow> nat \<Rightarrow> ('k, 'v) hash_bucket cres" where
  "get_bucket h pos = (if pos < length (h_buckets h) then Ok (h_buckets h ! pos) else Err Fault)"

definition set_bucket :: "('k, 'v) hash \<Rightarrow> nat \<Rightarrow> ('k, 'v) hash_bucket \<Rightarrow> ('k, 'v) hash" where
  "set_bucket h pos b = h\<lparr>h_buckets := (h_buckets h)[pos := b]\<rparr>"

definition hash_find_entry :: "('k, 'v) hash \<Rightarrow> 'k \<Rightarrow> u32 \<Rightarrow> nat option cres" where
  "hash_find_entry h key hashval =
     res_bind (get_bucket h (bucket_pos hashval)) (\<lambda>bucket.
     scan_bucket h key hashval (hb_entries bucket) 0 (hb_used bucket))"

text \<open>\<open>None\<close> is NULL; the code cannot tell it from a stored NULL value.\<close>

definition hash_find :: "('k, 'v) hash \<Rightarrow> 'k \<Rightarrow> 'v option cres" where
  "hash_find h key =
     res_bind (h_hash_value h key) (\<lambda>hashval.
     res_bind (hash_find_entry h key hashval) (\<lambda>entry.
     case entry of None \<Rightarrow> Ok None
     | Some i \<Rightarrow>
         res_bind (get_bucket h (bucket_pos hashval)) (\<lambda>bucket.
         res_bind (load_entry (hb_entries bucket) i) (\<lambda>e. Ok (Some (he_value e))))))"

section \<open>Adding\<close>

text \<open>Room for one more entry; \<open>None\<close> when memory is refused.\<close>

definition bucket_room :: "('k, 'v) hash_bucket \<Rightarrow> ('k, 'v) hworld \<Rightarrow> ('k, 'v) hash_bucket option \<times> ('k, 'v) hworld" where
  "bucket_room b w =
     (if hb_total b \<le> w32 (hb_used b + 1) then
        let new_total = w32 (hb_total b + hash_steps) in
        case reallocarray new_total entry_size w of
          (None, w) \<Rightarrow> (None, w)
        | (Some k, w) \<Rightarrow>
            (Some (b\<lparr>hb_entries := resize_entries (hb_entries b) (k div entry_size), hb_total := new_total\<rparr>), w)
      else (Some b, w))"

text \<open>A new entry behind the ones that are filled.\<close>

definition append_entry :: "('k, 'v) hash \<Rightarrow> nat \<Rightarrow> ('k, 'v) hash_bucket \<Rightarrow> 'k \<Rightarrow> 'v \<Rightarrow> u32 \<Rightarrow> ('k, 'v) hash cres" where
  "append_entry h pos b key val hashval =
     res_bind (store_entry (hb_entries b) (hb_used b) \<lparr>he_key = key, he_value = val, he_hashval = hashval\<rparr>) (\<lambda>es.
     Ok (set_bucket h pos (b\<lparr>hb_entries := es, hb_used := w32 (hb_used b + 1)\<rparr>)\<lparr>h_count := w32 (h_count h + 1)\<rparr>))"

definition hash_add :: "('k, 'v) hash \<Rightarrow> 'k \<Rightarrow> 'v \<Rightarrow> ('k, 'v) hworld \<Rightarrow> ((int \<times> ('k, 'v) hash) \<times> ('k, 'v) hworld) cres" where
  "hash_add h key val w =
     res_bind (h_hash_value h key) (\<lambda>hashval.
     let pos = bucket_pos hashval in
     res_bind (get_bucket h pos) (\<lambda>bucket.
     case bucket_room bucket w of
       (None, w) \<Rightarrow> Ok ((- ENOMEM, h), w)
     | (Some bucket, w) \<Rightarrow>
         let h = set_bucket h pos bucket in
         res_bind (scan_bucket h key hashval (hb_entries bucket) 0 (hb_used bucket)) (\<lambda>found.
         case found of
           Some i \<Rightarrow>
             res_bind (load_entry (hb_entries bucket) i) (\<lambda>e.
             let w = call_free_key h (he_key e) (call_free_value h (he_value e) w) in
             res_bind (store_entry (hb_entries bucket) i (e\<lparr>he_key := key, he_value := val\<rparr>)) (\<lambda>es.
             Ok ((0, set_bucket h pos (bucket\<lparr>hb_entries := es\<rparr>)), w)))
         | None \<Rightarrow> res_bind (append_entry h pos bucket key val hashval) (\<lambda>h. Ok ((0, h), w)))))"

definition hash_add_unique :: "('k, 'v) hash \<Rightarrow> 'k \<Rightarrow> 'v \<Rightarrow> ('k, 'v) hworld \<Rightarrow>
    ((int \<times> ('k, 'v) hash) \<times> ('k, 'v) hworld) cres" where
  "hash_add_unique h key val w =
     res_bind (h_hash_value h key) (\<lambda>hashval.
     let pos = bucket_pos hashval in
     res_bind (get_bucket h pos) (\<lambda>bucket.
     case bucket_room bucket w of
       (None, w) \<Rightarrow> Ok ((- ENOMEM, h), w)
     | (Some bucket, w) \<Rightarrow>
         let h = set_bucket h pos bucket in
         res_bind (scan_bucket h key hashval (hb_entries bucket) 0 (hb_used bucket)) (\<lambda>found.
         case found of
           Some i \<Rightarrow> Ok ((- EEXIST, h), w)
         | None \<Rightarrow> res_bind (append_entry h pos bucket key val hashval) (\<lambda>h. Ok ((0, h), w)))))"

section \<open>Deleting\<close>

text \<open>
  \<open>memmove\<close> of the entries behind index \<open>i\<close> one place down; it moves one slot more than
  are filled.
\<close>

definition close_gap :: "'e option list \<Rightarrow> nat \<Rightarrow> nat \<Rightarrow> 'e option list cres" where
  "close_gap es i n =
     (if i + 1 + n \<le> length es then Ok (take i es @ take n (drop (i + 1) es) @ drop (i + n) es) else Err Fault)"

definition bucket_shrink :: "('k, 'v) hash_bucket \<Rightarrow> ('k, 'v) hworld \<Rightarrow> ('k, 'v) hash_bucket \<times> ('k, 'v) hworld" where
  "bucket_shrink b w =
     (let steps_used = hb_used b div hash_steps; steps_total = hb_total b div hash_steps in
      if steps_used + 1 < steps_total then
        case reallocarray (steps_used + 1) (hash_steps * entry_size) w of
          (None, w) \<Rightarrow> (b, w)
        | (Some k, w) \<Rightarrow>
            (b\<lparr>hb_entries := resize_entries (hb_entries b) (k div entry_size),
               hb_total := w32 ((steps_used + 1) * hash_steps)\<rparr>, w)
      else (b, w))"

definition hash_del :: "('k, 'v) hash \<Rightarrow> 'k \<Rightarrow> ('k, 'v) hworld \<Rightarrow> ((int \<times> ('k, 'v) hash) \<times> ('k, 'v) hworld) cres" where
  "hash_del h key w =
     res_bind (h_hash_value h key) (\<lambda>hashval.
     let pos = bucket_pos hashval in
     res_bind (get_bucket h pos) (\<lambda>bucket.
     res_bind (hash_find_entry h key hashval) (\<lambda>entry.
     case entry of None \<Rightarrow> Ok ((- ENOENT, h), w)
     | Some i \<Rightarrow>
         res_bind (load_entry (hb_entries bucket) i) (\<lambda>e.
         let w = call_free_key h (he_key e) (call_free_value h (he_value e) w) in
         res_bind (close_gap (hb_entries bucket) i (hb_used bucket - i)) (\<lambda>es.
         let (bucket, w) = bucket_shrink (bucket\<lparr>hb_entries := es, hb_used := sub32 (hb_used bucket) 1\<rparr>) w in
         Ok ((0, (set_bucket h pos bucket)\<lparr>h_count := sub32 (h_count h) 1\<rparr>), w))))))"

definition hash_get_count :: "('k, 'v) hash \<Rightarrow> nat" where
  "hash_get_count h = h_count h"

section \<open>Iterating\<close>

record hash_iter =
  it_bucket :: nat
  it_entry :: int

definition hash_iter_init :: hash_iter where
  "hash_iter_init = \<lparr>it_bucket = 0, it_entry = - 1\<rparr>"

text \<open>The search for the next bucket that is not empty; 512 when there is none.\<close>

function next_bucket :: "('k, 'v) hash \<Rightarrow> nat \<Rightarrow> nat cres" where
  "next_bucket h i =
     (if i < n_buckets then
        res_bind (get_bucket h i) (\<lambda>b. if 0 < hb_used b then Ok i else next_bucket h (i + 1))
      else Ok i)"
  by pat_completeness auto
termination by (relation "measure (\<lambda>(h, i). n_buckets - i)") auto

declare next_bucket.simps [simp del]

definition hash_iter_next :: "('k, 'v) hash \<Rightarrow> hash_iter \<Rightarrow> (('k \<times> 'v) option \<times> hash_iter) cres" where
  "hash_iter_next h it =
     res_bind (get_bucket h (it_bucket it)) (\<lambda>b.
     let it = it\<lparr>it_entry := it_entry it + 1\<rparr> in
     res_bind
       (if int (hb_used b) \<le> int (to_u32 (it_entry it)) then
          res_bind (next_bucket h (w32 (it_bucket it + 1))) (\<lambda>i. Ok \<lparr>it_bucket = i, it_entry = 0\<rparr>)
        else Ok it) (\<lambda>it.
     if n_buckets \<le> it_bucket it then Ok (None, it)
     else res_bind (get_bucket h (it_bucket it)) (\<lambda>b.
       res_bind (no_ub (0 \<le> it_entry it)) (\<lambda>_.
       res_bind (load_entry (hb_entries b) (nat (it_entry it))) (\<lambda>e.
       Ok (Some (he_key e, he_value e), it))))))"

end
