(* ===== verification/LwanHashSpec.thy ===== *)
theory LwanHashSpec
  imports LwanHash "HOL-Library.Multiset"
begin

text \<open>
  Correctness of the hash table of src/Clang/map/lwan/hash.c over any kind of key whose
  hash and comparison agree on an identity of keys: the locale \<open>hash_keys\<close>. The table then
  implements a finite map, and owns each value until it is freed or handed back.
\<close>

section \<open>Association lists\<close>

lemma map_of_list_update:
  "distinct (map fst l) \<Longrightarrow> i < length l \<Longrightarrow> fst (l ! i) = k \<Longrightarrow> map_of (l[i := (k, v)]) = (map_of l)(k \<mapsto> v)"
proof (induction l arbitrary: i)
  case (Cons a l)
  show ?case
  proof (cases i)
    case 0
    with Cons.prems show ?thesis by (cases a) auto
  next
    case (Suc j)
    then have "k \<in> set (map fst l)" using Cons.prems by (metis Suc_less_eq length_Cons nth_Cons_Suc nth_map nth_mem length_map)
    with Cons.prems(1) have "fst a \<noteq> k" by (metis distinct.simps(2) list.simps(9))
    with Suc Cons show ?thesis by (cases a) (auto simp: fun_upd_twist)
  qed
qed simp

lemma map_of_remove_nth:
  "distinct (map fst l) \<Longrightarrow> i < length l \<Longrightarrow> map_of (take i l @ drop (Suc i) l) = (map_of l)(fst (l ! i) := None)"
proof (induction l arbitrary: i)
  case (Cons a l)
  show ?case
  proof (cases i)
    case 0
    have "map_of l (fst a) = None" using Cons.prems by (auto simp: map_of_eq_None_iff)
    with 0 show ?thesis by (cases a) (auto simp: fun_upd_idem)
  next
    case (Suc j)
    then have "fst (l ! j) \<in> set (map fst l)" using Cons.prems(2) by (metis Suc_less_eq length_Cons nth_map nth_mem length_map)
    with Cons.prems(1) have "fst a \<noteq> fst (l ! j)" by (metis distinct.simps(2) list.simps(9))
    with Suc Cons show ?thesis by (cases a) (auto simp: fun_upd_twist simp del: map_of_append)
  qed
qed simp

lemma map_of_snoc: "k \<notin> fst ` set l \<Longrightarrow> map_of (l @ [(k, v)]) = (map_of l)(k \<mapsto> v)"
proof -
  assume "k \<notin> fst ` set l"
  then have "map_of l k = None" by (simp add: map_of_eq_None_iff)
  then show ?thesis by (intro ext) (simp add: map_add_def split: option.split)
qed

lemma map_of_concat:
  "p < length ls \<Longrightarrow> (\<And>i. i < length ls \<Longrightarrow> i \<noteq> p \<Longrightarrow> x \<notin> fst ` set (ls ! i)) \<Longrightarrow>
   map_of (concat ls) x = map_of (ls ! p) x"
proof (induction ls arbitrary: p)
  case (Cons l ls)
  show ?case
  proof (cases p)
    case 0
    have "x \<notin> fst ` set (concat ls)"
      using Cons.prems(2) [of "Suc _"] 0 by (auto simp: in_set_conv_nth [of _ ls]) (metis Suc_less_eq fst_conv imageI)
    then have "map_of (concat ls) x = None" by (simp add: map_of_eq_None_iff)
    with 0 show ?thesis by (simp add: map_add_def split: option.split)
  next
    case (Suc q)
    have "map_of l x = None"
      using Cons.prems(2) [of 0] Suc by (auto simp: map_of_eq_None_iff)
    moreover have "map_of (concat ls) x = map_of (ls ! q) x"
    proof (rule Cons.IH)
      show "q < length ls" using Cons.prems(1) Suc by simp
      fix i assume "i < length ls" "i \<noteq> q"
      then show "x \<notin> fst ` set (ls ! i)" using Cons.prems(2) [of "Suc i"] Suc by simp
    qed
    ultimately show ?thesis using Suc by (simp add: map_add_def split: option.splits)
  qed
qed simp

section \<open>Invariant and value\<close>

definition bucket_list :: "('k, 'v) hash_bucket \<Rightarrow> ('k, 'v) hash_entry list" where
  "bucket_list b = map the (take (hb_used b) (hb_entries b))"

definition bucket_ok :: "('k \<Rightarrow> bool) \<Rightarrow> ('k \<Rightarrow> 'i) \<Rightarrow> ('i \<Rightarrow> u32) \<Rightarrow> nat \<Rightarrow> ('k, 'v) hash_bucket \<Rightarrow> bool" where
  "bucket_ok key_ok key_id id_hash pos b \<longleftrightarrow>
     hb_total b = length (hb_entries b) \<and> hb_total b < 2 ^ 31 \<and>
     (if hb_total b = 0 then hb_used b = 0 else hb_used b < hb_total b) \<and>
     (\<forall>i<hb_used b. hb_entries b ! i \<noteq> None) \<and>
     (\<forall>e\<in>set (bucket_list b). key_ok (he_key e) \<and> he_hashval e = id_hash (key_id (he_key e)) \<and>
        bucket_pos (he_hashval e) = pos) \<and>
     distinct (map (key_id \<circ> he_key) (bucket_list b))"

definition entry_pair :: "('k \<Rightarrow> 'i) \<Rightarrow> ('k, 'v) hash_entry \<Rightarrow> 'i \<times> 'k \<times> 'v" where
  "entry_pair key_id e = (key_id (he_key e), he_key e, he_value e)"

definition bucket_map :: "('k \<Rightarrow> 'i) \<Rightarrow> ('k, 'v) hash_bucket \<Rightarrow> 'i \<rightharpoonup> 'k \<times> 'v" where
  "bucket_map key_id b = map_of (map (entry_pair key_id) (bucket_list b))"

definition hash_entries :: "('k, 'v) hash \<Rightarrow> ('k, 'v) hash_entry list" where
  "hash_entries h = concat (map bucket_list (h_buckets h))"

definition hash_ok :: "('k \<Rightarrow> bool) \<Rightarrow> ('k \<Rightarrow> 'i) \<Rightarrow> ('i \<Rightarrow> u32) \<Rightarrow> ('k, 'v) hash \<Rightarrow> bool" where
  "hash_ok key_ok key_id id_hash h \<longleftrightarrow>
     length (h_buckets h) = n_buckets \<and>
     (\<forall>pos<n_buckets. bucket_ok key_ok key_id id_hash pos (h_buckets h ! pos)) \<and>
     h_count h = length (hash_entries h)"

definition hash_map :: "('k \<Rightarrow> 'i) \<Rightarrow> ('k, 'v) hash \<Rightarrow> 'i \<rightharpoonup> 'k \<times> 'v" where
  "hash_map key_id h = map_of (map (entry_pair key_id) (hash_entries h))"

lemma bucket_pos_bound [simp]: "bucket_pos v < n_buckets"
proof -
  have "v AND 511 \<le> 511" by (rule word_and_le1)
  then have "unat (v AND 511) \<le> 511" by (simp add: word_le_nat_alt)
  then show ?thesis by (simp add: bucket_pos_def n_buckets_def)
qed

lemma length_bucket_list: "bucket_ok ok ki ih pos b \<Longrightarrow> length (bucket_list b) = hb_used b"
  by (auto simp: bucket_ok_def bucket_list_def split: if_splits)

lemma bucket_ok_entry:
  assumes "bucket_ok ok ki ih pos b" "i < hb_used b"
  shows "load_entry (hb_entries b) i = Ok (bucket_list b ! i)" "hb_entries b ! i = Some (bucket_list b ! i)"
    "i < length (hb_entries b)"
  using assms by (auto simp: bucket_ok_def bucket_list_def load_entry_def split: if_splits option.splits)

lemma empty_bucket_ok [simp]: "bucket_ok ok ki ih pos empty_bucket" "bucket_list empty_bucket = []"
  by (simp_all add: bucket_ok_def bucket_list_def empty_bucket_def)

lemma fst_entry_pair [simp]: "fst (entry_pair ki e) = ki (he_key e)"
  by (simp add: entry_pair_def)

lemma hash_map_bucket:
  assumes "hash_ok ok ki ih h"
  shows "hash_map ki h x = bucket_map ki (h_buckets h ! bucket_pos (ih x)) x"
proof -
  let ?ls = "map (\<lambda>b. map (entry_pair ki) (bucket_list b)) (h_buckets h)"
  have l: "length (h_buckets h) = n_buckets" using assms by (simp add: hash_ok_def)
  have "hash_map ki h x = map_of (concat ?ls) x"
    by (simp add: hash_map_def hash_entries_def map_concat comp_def)
  also have "\<dots> = map_of (?ls ! bucket_pos (ih x)) x"
  proof (rule map_of_concat)
    fix i assume i: "i < length ?ls" "i \<noteq> bucket_pos (ih x)"
    then have "bucket_ok ok ki ih i (h_buckets h ! i)" using assms l by (simp add: hash_ok_def)
    with i show "x \<notin> fst ` set (?ls ! i)" by (auto simp: bucket_ok_def)
  qed (simp add: l)
  finally show ?thesis by (simp add: bucket_map_def l)
qed

text \<open>Replacing the bucket of a key changes the map as it changes that bucket.\<close>

lemma hash_entries_update:
  assumes "pos < length (h_buckets h)"
  shows "mset (hash_entries (set_bucket h pos b)) + mset (bucket_list (h_buckets h ! pos)) =
    mset (hash_entries h) + mset (bucket_list b)"
proof -
  let ?bs = "h_buckets h"
  have "concat (map bucket_list ?bs) =
      concat (map bucket_list (take pos ?bs)) @ bucket_list (?bs ! pos) @ concat (map bucket_list (drop (Suc pos) ?bs))"
    by (subst (1) id_take_nth_drop [OF assms]) simp
  moreover have "concat (map bucket_list (?bs[pos := b])) =
      concat (map bucket_list (take pos ?bs)) @ bucket_list b @ concat (map bucket_list (drop (Suc pos) ?bs))"
    by (subst upd_conv_take_nth_drop [OF assms]) simp
  ultimately show ?thesis
    by (simp only: hash_entries_def set_bucket_def hash.simps mset_append) (simp add: ac_simps)
qed

section \<open>Memory for a bucket\<close>

lemma umull_overflow_exact:
  assumes "b < 2 ^ 64"
  shows "umull_overflow a b = (if a * b < 2 ^ 64 then Some (a * b) else None)"
proof (cases "a * b < 2 ^ 64")
  case True
  have "\<not> (2 ^ 64 - 1) div a < b" if "0 < a"
  proof -
    have "a * b \<le> 2 ^ 64 - 1" using True by simp
    then have "b \<le> (2 ^ 64 - 1) div a"
      using that by (metis less_eq_div_iff_mult_less_eq mult.commute)
    then show ?thesis by simp
  qed
  with True show ?thesis by (auto simp: umull_overflow_def w64_id)
next
  case False
  then have a: "0 < a" by (cases a) auto
  have "(2 ^ 64 - 1) div a < b"
    using False by (simp add: div_less_iff_less_mult [OF a] mult.commute)
  moreover have "2 ^ 32 \<le> a \<or> 2 ^ 32 \<le> b"
  proof (rule ccontr)
    assume "\<not> ?thesis"
    then have "a * b \<le> (2 ^ 32 - 1) * (2 ^ 32 - 1)" by (intro mult_mono) auto
    with False show False by simp
  qed
  ultimately show ?thesis using False a by (simp add: umull_overflow_def)
qed

definition same_log :: "('k, 'v) hworld \<Rightarrow> ('k, 'v) hworld \<Rightarrow> bool" where
  "same_log w w' \<longleftrightarrow> freed_keys w' = freed_keys w \<and> freed_values w' = freed_values w"

lemma same_log_refl [simp]: "same_log w w"
  by (simp add: same_log_def)

lemma reallocarray_cases:
  assumes "n < 2 ^ 31" "m \<le> 2 ^ 31"
  shows "(\<exists>w'. reallocarray n m w = (Some (n * m), w') \<and> (may_oom w' \<longrightarrow> may_oom w) \<and> same_log w w') \<or>
    (\<exists>w'. reallocarray n m w = (None, w') \<and> may_oom w \<and> same_log w w')"
proof -
  have "n * m \<le> 2 ^ 31 * 2 ^ 31" using assms by (intro mult_mono) auto
  then have "umull_overflow n m = Some (n * m)"
    using assms by (simp add: umull_overflow_exact)
  moreover obtain ok w' where m: "malloc w = (ok, w')" by force
  moreover have "\<not> ok \<Longrightarrow> may_oom w" "may_oom w' \<Longrightarrow> may_oom w" "same_log w w'"
    using malloc_fst [of w] malloc_snd [of w] m by (auto simp: malloc_def same_log_def split: list.splits)
  ultimately show ?thesis by (simp add: reallocarray_def)
qed

lemma bucket_list_resize:
  assumes "hb_used b \<le> length (hb_entries b)" "hb_used b \<le> k"
  shows "bucket_list (b\<lparr>hb_entries := resize_entries (hb_entries b) k, hb_total := t\<rparr>) = bucket_list b"
  using assms by (simp add: bucket_list_def resize_entries_def)

lemma bucket_ok_resize:
  assumes b: "bucket_ok ok ki ih pos b" and k: "hb_used b < k" "k < 2 ^ 31"
  shows "bucket_ok ok ki ih pos (b\<lparr>hb_entries := resize_entries (hb_entries b) k, hb_total := k\<rparr>)"
proof -
  have u: "hb_used b \<le> length (hb_entries b)" using b by (auto simp: bucket_ok_def split: if_splits)
  have "resize_entries (hb_entries b) k ! i = hb_entries b ! i" if "i < hb_used b" for i
    using that u k by (simp add: resize_entries_def nth_append)
  with b k u bucket_list_resize [OF u, of k k] show ?thesis
    by (auto simp: bucket_ok_def resize_entries_def)
qed

lemma bucket_room_spec:
  assumes b: "bucket_ok ok ki ih pos b" and u: "hb_used b < 2 ^ 30"
  shows "(\<exists>b' w'. bucket_room b w = (Some b', w') \<and> bucket_ok ok ki ih pos b' \<and> bucket_list b' = bucket_list b \<and>
      hb_used b' = hb_used b \<and> hb_used b + 1 < hb_total b' \<and> (may_oom w' \<longrightarrow> may_oom w) \<and> same_log w w') \<or>
    (\<exists>w'. bucket_room b w = (None, w') \<and> may_oom w \<and> same_log w w')"
proof (cases "hb_total b \<le> hb_used b + 1")
  case False
  then show ?thesis using b u by (auto simp: bucket_room_def w32_id)
next
  case True
  define k where "k = hb_total b + hash_steps"
  have k: "k < 2 ^ 31" "hb_used b + 1 < k" "hb_used b \<le> length (hb_entries b)"
    using True u b by (auto simp: k_def hash_steps_def bucket_ok_def split: if_splits)
  have e: "w32 (hb_used b + 1) = hb_used b + 1" "w32 (hb_total b + hash_steps) = k" "k * entry_size div entry_size = k"
    using k u by (simp_all add: w32_id k_def entry_size_def)
  show ?thesis
    using reallocarray_cases [of k entry_size w] k bucket_ok_resize [OF b, of k] bucket_list_resize [OF k(3), of k k] True
    unfolding bucket_room_def e Let_def by (auto simp: e entry_size_def)
qed

lemma bucket_shrink_spec:
  assumes b: "bucket_ok ok ki ih pos b"
  shows "\<exists>b' w'. bucket_shrink b w = (b', w') \<and> bucket_ok ok ki ih pos b' \<and> bucket_list b' = bucket_list b \<and>
    (may_oom w' \<longrightarrow> may_oom w) \<and> same_log w w'"
proof (cases "hb_used b div hash_steps + 1 < hb_total b div hash_steps")
  case False
  then show ?thesis using b by (auto simp: bucket_shrink_def Let_def)
next
  case True
  define n where "n = hb_used b div hash_steps + 1"
  define k where "k = n * hash_steps"
  have t: "hb_total b < 2 ^ 31" "hb_used b \<le> length (hb_entries b)"
    using b by (auto simp: bucket_ok_def split: if_splits)
  have "k \<le> hb_total b"
  proof -
    have "k \<le> hb_total b div hash_steps * hash_steps"
      unfolding k_def using True by (intro mult_le_mono1) (simp add: n_def)
    also have "\<dots> \<le> hb_total b" by simp
    finally show ?thesis .
  qed
  moreover have "hb_used b < k"
    unfolding k_def n_def using div_mult_mod_eq [of "hb_used b" hash_steps] mod_less_divisor [of hash_steps "hb_used b"]
    by (simp add: hash_steps_def)
  ultimately have k: "hb_used b < k" "k < 2 ^ 31" "n < 2 ^ 31"
    using t by (auto simp: k_def hash_steps_def)
  have e: "n * (hash_steps * entry_size) div entry_size = k" "w32 (n * hash_steps) = k"
    using k by (simp_all add: k_def [symmetric] w32_id entry_size_def flip: mult.assoc)
  have d: "bucket_shrink b w = (case reallocarray n (hash_steps * entry_size) w of (None, w) \<Rightarrow> (b, w)
      | (Some x, w) \<Rightarrow> (b\<lparr>hb_entries := resize_entries (hb_entries b) (x div entry_size), hb_total := k\<rparr>, w))"
    using True unfolding bucket_shrink_def Let_def n_def [symmetric] e(2) by simp
  have "n < 2 ^ 31" "hash_steps * entry_size \<le> 2 ^ 31"
    using k by (simp_all add: hash_steps_def entry_size_def)
  from reallocarray_cases [OF this, of w] show ?thesis
    unfolding d
    using bucket_ok_resize [OF b k(1,2)] bucket_list_resize [OF t(2), of k k] k(1) b
    by (elim disjE exE conjE) (simp_all add: e(1) del: mult_Suc_right)
qed

lemma close_gap_spec:
  assumes b: "bucket_ok ok ki ih pos b" and i: "i < hb_used b"
  shows "\<exists>es. close_gap (hb_entries b) i (hb_used b - i) = Ok es \<and>
    (let b' = b\<lparr>hb_entries := es, hb_used := sub32 (hb_used b) 1\<rparr> in
     bucket_ok ok ki ih pos b' \<and> bucket_list b' = take i (bucket_list b) @ drop (Suc i) (bucket_list b))"
proof -
  let ?es = "hb_entries b" and ?u = "hb_used b"
  have u: "?u < length ?es" "?u < 2 ^ 31" using b i by (auto simp: bucket_ok_def split: if_splits)
  have s: "sub32 ?u 1 = ?u - 1" using i u by (simp add: sub32_id)
  define es where "es = take i ?es @ take (?u - i) (drop (i + 1) ?es) @ drop (i + (?u - i)) ?es"
  have c: "close_gap ?es i (?u - i) = Ok es" using i u by (simp add: close_gap_def es_def)
  have "take (?u - 1) es = take i ?es @ take (?u - 1 - i) (drop (Suc i) ?es)"
  proof -
    obtain d where "?u = Suc (i + d)" using i less_iff_Suc_add by auto
    then show ?thesis using u by (auto simp: es_def min_def)
  qed
  also have "\<dots> = take i (take ?u ?es) @ drop (Suc i) (take ?u ?es)"
    using i by (simp add: drop_take min_def)
  finally have t: "take (?u - 1) es = take i (take ?u ?es) @ drop (Suc i) (take ?u ?es)" .
  let ?b = "b\<lparr>hb_entries := es, hb_used := sub32 ?u 1\<rparr>"
  have l: "bucket_list ?b = take i (bucket_list b) @ drop (Suc i) (bucket_list b)"
  proof -
    have "bucket_list ?b = map the (take (?u - 1) es)" unfolding s by (simp add: bucket_list_def)
    then show ?thesis by (simp only: t bucket_list_def take_map drop_map map_append)
  qed
  have n: "es ! j \<noteq> None" if "j < ?u - 1" for j
  proof -
    have "es ! j = take (?u - 1) es ! j" using that by simp
    also have "\<dots> \<in> set (take i (take ?u ?es) @ drop (Suc i) (take ?u ?es))"
      unfolding t [symmetric] using that u i by (intro nth_mem) (simp add: es_def)
    also have "\<dots> \<subseteq> set (take ?u ?es)"
      using set_take_subset [of i "take ?u ?es"] set_drop_subset [of "Suc i" "take ?u ?es"] by (simp del: take_take)
    finally obtain k where k: "k < ?u" "es ! j = ?es ! k" by (auto simp: in_set_conv_nth)
    then show ?thesis using bucket_ok_entry(2) [OF b k(1)] by simp
  qed
  have "set (bucket_list ?b) \<subseteq> set (bucket_list b)"
    unfolding l using set_take_subset [of i "bucket_list b"] set_drop_subset [of "Suc i" "bucket_list b"] by simp
  moreover have "distinct (map (ki \<circ> he_key) (bucket_list ?b))"
    unfolding l using b
    by (simp add: bucket_ok_def take_map [symmetric] drop_map [symmetric] set_take_disj_set_drop_if_distinct)
  moreover have "length es = length ?es" using i u by (simp add: es_def)
  ultimately have "bucket_ok ok ki ih pos ?b"
    using b n u i s by (auto simp: bucket_ok_def)
  with c l show ?thesis by (simp add: Let_def)
qed

section \<open>Changing one bucket\<close>

definition owned_values :: "('k, 'v) hash \<Rightarrow> ('k, 'v) hworld \<Rightarrow> 'v multiset" where
  "owned_values h w = image_mset he_value (mset (hash_entries h)) + mset (freed_values w)"

definition owned_keys :: "('k, 'v) hash \<Rightarrow> ('k, 'v) hworld \<Rightarrow> 'k multiset" where
  "owned_keys h w = image_mset he_key (mset (hash_entries h)) + mset (freed_keys w)"

lemma hash_entries_count [simp]: "hash_entries (h\<lparr>h_count := c\<rparr>) = hash_entries h"
  by (simp add: hash_entries_def)

lemma set_bucket_simps [simp]:
  "h_count (set_bucket h pos b) = h_count h" "h_hash_value (set_bucket h pos b) = h_hash_value h"
  "h_key_compare (set_bucket h pos b) = h_key_compare h" "h_free_value (set_bucket h pos b) = h_free_value h"
  "h_free_key (set_bucket h pos b) = h_free_key h" "h_buckets (set_bucket h pos b) = (h_buckets h)[pos := b]"
  "set_bucket (set_bucket h pos b) pos b' = set_bucket h pos b'"
  by (simp_all add: set_bucket_def)

lemma hash_ok_bucket:
  "hash_ok ok ki ih h \<Longrightarrow> pos < n_buckets \<Longrightarrow> get_bucket h pos = Ok (h_buckets h ! pos) \<and>
     bucket_ok ok ki ih pos (h_buckets h ! pos)"
  by (simp add: hash_ok_def get_bucket_def)

lemma hash_ok_used: "hash_ok ok ki ih h \<Longrightarrow> pos < n_buckets \<Longrightarrow> hb_used (h_buckets h ! pos) \<le> h_count h"
proof -
  assume h: "hash_ok ok ki ih h" "pos < n_buckets"
  have "length (bucket_list (h_buckets h ! pos)) \<le> length (hash_entries h)"
    unfolding hash_entries_def length_concat map_map
    using h by (intro member_le_sum_list) (auto simp: hash_ok_def)
  with h length_bucket_list [of ok ki ih pos "h_buckets h ! pos"] show ?thesis by (simp add: hash_ok_def)
qed

lemma set_bucket_ok:
  assumes h: "hash_ok ok ki ih h" "pos < n_buckets" and b: "bucket_ok ok ki ih pos b"
    and c: "c + length (bucket_list (h_buckets h ! pos)) = h_count h + length (bucket_list b)"
  shows "hash_ok ok ki ih ((set_bucket h pos b)\<lparr>h_count := c\<rparr>)"
proof -
  have "pos < length (h_buckets h)" using h by (simp add: hash_ok_def)
  from arg_cong [OF hash_entries_update [OF this, of b], of size] c h(1)
  have "c = length (hash_entries (set_bucket h pos b))" by (simp add: hash_ok_def)
  with h b show ?thesis by (auto simp: hash_ok_def nth_list_update)
qed

lemma set_bucket_map:
  assumes h: "hash_ok ok ki ih h" and b: "bucket_ok ok ki ih (bucket_pos (ih x)) b"
    and m: "bucket_map ki b = (bucket_map ki (h_buckets h ! bucket_pos (ih x)))(x := v)"
  shows "hash_map ki ((set_bucket h (bucket_pos (ih x)) b)\<lparr>h_count := c\<rparr>) = (hash_map ki h)(x := v)"
proof
  fix y
  let ?h = "set_bucket h (bucket_pos (ih x)) b"
  have l: "length (h_buckets h) = n_buckets" using h by (simp add: hash_ok_def)
  have "hash_ok ok ki ih (?h\<lparr>h_count := length (hash_entries ?h)\<rparr>)"
    using h b by (auto simp: hash_ok_def nth_list_update)
  from hash_map_bucket [OF this, of y] hash_map_bucket [OF h, of y]
  show "hash_map ki (?h\<lparr>h_count := c\<rparr>) y = ((hash_map ki h)(x := v)) y"
    using m by (auto simp: hash_map_def nth_list_update l)
qed

lemma bucket_map_keys: "bucket_ok ok ki ih pos b \<Longrightarrow> distinct (map fst (map (entry_pair ki) (bucket_list b)))"
  by (simp add: bucket_ok_def comp_def)

lemma bucket_replace:
  fixes val :: 'v
  assumes b: "bucket_ok ok ki ih pos b" and i: "i < hb_used b" "ki (he_key (bucket_list b ! i)) = ki key"
    and k: "ok key"
  defines "e \<equiv> (bucket_list b ! i)\<lparr>he_key := key, he_value := val\<rparr>"
  defines "b' \<equiv> b\<lparr>hb_entries := (hb_entries b)[i := Some e]\<rparr>"
  shows "bucket_ok ok ki ih pos b'" "bucket_list b' = (bucket_list b)[i := e]"
    "bucket_map ki b' = (bucket_map ki b)(ki key \<mapsto> (key, val))"
proof -
  have l: "i < length (bucket_list b)" "hb_used b \<le> length (hb_entries b)"
    using i length_bucket_list [OF b] b by (auto simp: bucket_ok_def split: if_splits)
  show bl: "bucket_list b' = (bucket_list b)[i := e]"
    by (simp add: bucket_list_def b'_def take_update_swap map_update)
  have in_b: "bucket_list b ! i \<in> set (bucket_list b)" using l by simp
  have "map (ki \<circ> he_key) ((bucket_list b)[i := e]) = map (ki \<circ> he_key) (bucket_list b)"
    using l i(2) by (simp add: map_update e_def list_update_same_conv)
  moreover have "\<forall>x\<in>set ((bucket_list b)[i := e]). ok (he_key x) \<and> he_hashval x = ih (ki (he_key x)) \<and>
      bucket_pos (he_hashval x) = pos"
    using b in_b i k by (auto simp: bucket_ok_def e_def dest!: set_update_subset_insert [THEN subsetD])
  moreover have "\<forall>j<hb_used b. (hb_entries b)[i := Some e] ! j \<noteq> None"
    using bucket_ok_entry(2) [OF b] l i(1) by (auto simp: nth_list_update)
  ultimately show "bucket_ok ok ki ih pos b'"
    using b bl by (auto simp: bucket_ok_def b'_def simp flip: map_map)
  have "entry_pair ki e = (ki key, key, val)" by (simp add: entry_pair_def e_def)
  then show "bucket_map ki b' = (bucket_map ki b)(ki key \<mapsto> (key, val))"
    using l i(2) bucket_map_keys [OF b] by (simp add: bucket_map_def bl map_update map_of_list_update)
qed

lemma bucket_append:
  assumes b: "bucket_ok ok ki ih pos b" and u: "hb_used b + 1 < hb_total b"
    and e: "ok (he_key e)" "he_hashval e = ih (ki (he_key e))" "bucket_pos (he_hashval e) = pos"
    and new: "\<forall>x\<in>set (bucket_list b). ki (he_key x) \<noteq> ki (he_key e)"
  defines "b' \<equiv> b\<lparr>hb_entries := (hb_entries b)[hb_used b := Some e], hb_used := w32 (hb_used b + 1)\<rparr>"
  shows "bucket_ok ok ki ih pos b'" "bucket_list b' = bucket_list b @ [e]"
    "bucket_map ki b' = (bucket_map ki b)(ki (he_key e) \<mapsto> (he_key e, he_value e))"
proof -
  have l: "hb_used b < length (hb_entries b)" "w32 (hb_used b + 1) = Suc (hb_used b)"
    using b u by (auto simp: bucket_ok_def w32_id)
  show bl: "bucket_list b' = bucket_list b @ [e]"
    using l by (simp add: bucket_list_def b'_def take_Suc_conv_app_nth)
  have "bucket_list b' = bucket_list b @ [e]" by (rule bl)
  then show "bucket_ok ok ki ih pos b'"
    using b l e new u by (auto simp: bucket_ok_def b'_def nth_list_update less_Suc_eq)
  have "entry_pair ki e = (ki (he_key e), he_key e, he_value e)" by (simp add: entry_pair_def)
  then show "bucket_map ki b' = (bucket_map ki b)(ki (he_key e) \<mapsto> (he_key e, he_value e))"
    unfolding bucket_map_def bl map_append list.map by (simp only:) (rule map_of_snoc, use new in auto)
qed

lemma bucket_map_remove:
  assumes b: "bucket_ok ok ki ih pos b" "i < hb_used b"
    and l: "bucket_list b' = take i (bucket_list b) @ drop (Suc i) (bucket_list b)"
  shows "bucket_map ki b' = (bucket_map ki b)(ki (he_key (bucket_list b ! i)) := None)"
proof -
  have "i < length (map (entry_pair ki) (bucket_list b))"
    using b(2) by (simp add: length_bucket_list [OF b(1)])
  from map_of_remove_nth [OF bucket_map_keys [OF b(1)] this] this show ?thesis
    by (simp add: bucket_map_def l take_map drop_map)
qed

end
