(* ===== verification/LwanHashMap.thy ===== *)
theory LwanHashMap
  imports LwanHashSpec
begin

text \<open>
  The hash table of src/Clang/map/lwan/hash.c as a finite map, for every kind of key: the
  locale \<open>hash_keys\<close> states what a table relies on, that the hash and the comparison agree
  on an identity of the keys, and holds the specification of every operation.
\<close>

definition table_ok where
  "table_ok hash_value key_compare key_ok key_id id_hash h \<longleftrightarrow>
     h_hash_value h = hash_value \<and> h_key_compare h = key_compare \<and> hash_ok key_ok key_id id_hash h"

text \<open>What every operation keeps: the invariant, the free functions, and the refusals to come.\<close>

definition kept :: "(('k, 'v) hash \<Rightarrow> bool) \<Rightarrow> ('k, 'v) hash \<Rightarrow> ('k, 'v) hworld \<Rightarrow> ('k, 'v) hash \<Rightarrow> ('k, 'v) hworld \<Rightarrow> bool" where
  "kept ok h w h' w' \<longleftrightarrow> ok h' \<and> h_free_value h' = h_free_value h \<and> h_free_key h' = h_free_key h \<and>
     (may_oom w' \<longrightarrow> may_oom w) \<and> h_count h' \<le> h_count h + 1"

text \<open>Nothing changes but the world's script: the reply of a call that failed.\<close>

definition unchanged :: "('k \<Rightarrow> 'i) \<Rightarrow> ('k, 'v) hash \<Rightarrow> ('k, 'v) hworld \<Rightarrow> ('k, 'v) hash \<Rightarrow> ('k, 'v) hworld \<Rightarrow> bool" where
  "unchanged key_id h w h' w' \<longleftrightarrow> hash_map key_id h' = hash_map key_id h \<and> h_count h' = h_count h \<and>
     mset (hash_entries h') = mset (hash_entries h) \<and> same_log w w'"

lemma call_free_simps [simp]:
  "oom_script (call_free_value h v w) = oom_script w" "oom_script (call_free_key h k w) = oom_script w"
  "freed_keys (call_free_value h v w) = freed_keys w" "freed_values (call_free_key h k w) = freed_values w"
  by (simp_all add: call_free_value_def call_free_key_def)

lemma freed_after [simp]:
  "freed_values (call_free_value h v w) = freed_values w @ (if h_free_value h then [v] else [])"
  "freed_keys (call_free_key h k w) = freed_keys w @ (if h_free_key h then [k] else [])"
  by (simp_all add: call_free_value_def call_free_key_def)

lemma may_oom_call_free [simp]:
  "may_oom (call_free_value h v w) = may_oom w" "may_oom (call_free_key h k w) = may_oom w"
  by (simp_all add: may_oom_def)

locale hash_keys =
  fixes hash_value :: "'k \<Rightarrow> u32 cres"
    and key_compare :: "'k \<Rightarrow> 'k \<Rightarrow> int cres"
    and key_ok :: "'k \<Rightarrow> bool"
    and key_id :: "'k \<Rightarrow> 'i"
    and id_hash :: "'i \<Rightarrow> u32"
  assumes hash_value: "key_ok k \<Longrightarrow> hash_value k = Ok (id_hash (key_id k))"
    and key_compare: "key_ok a \<Longrightarrow> key_ok b \<Longrightarrow>
      \<exists>c. key_compare a b = Ok c \<and> (c = 0 \<longleftrightarrow> key_id a = key_id b)"
begin

abbreviation bok :: "nat \<Rightarrow> ('k, 'v) hash_bucket \<Rightarrow> bool" where
  "bok \<equiv> bucket_ok key_ok key_id id_hash"

abbreviation tok :: "('k, 'v) hash \<Rightarrow> bool" where
  "tok \<equiv> table_ok hash_value key_compare key_ok key_id id_hash"

text \<open>The scan finds the entry of the key, and only that.\<close>

lemma scan_bucket:
  assumes "bok pos b" "key_ok key" "h_key_compare h = key_compare" "i + n = hb_used b"
  shows "\<exists>r. scan_bucket h key (id_hash (key_id key)) (hb_entries b) i n = Ok r \<and>
    (case r of None \<Rightarrow> \<forall>j. i \<le> j \<and> j < hb_used b \<longrightarrow> key_id (he_key (bucket_list b ! j)) \<noteq> key_id key
     | Some j \<Rightarrow> i \<le> j \<and> j < hb_used b \<and> key_id (he_key (bucket_list b ! j)) = key_id key)"
  using assms(4)
proof (induction n arbitrary: i)
  case (Suc n)
  let ?e = "bucket_list b ! i"
  have "?e \<in> set (bucket_list b)" "load_entry (hb_entries b) i = Ok ?e"
    using Suc.prems length_bucket_list [OF assms(1)] bucket_ok_entry [OF assms(1)] by auto
  then have e: "key_ok (he_key ?e)" "he_hashval ?e = id_hash (key_id (he_key ?e))"
    "load_entry (hb_entries b) i = Ok ?e"
    using assms(1) by (auto simp: bucket_ok_def)
  obtain c where c: "key_compare key (he_key ?e) = Ok c" "c = 0 \<longleftrightarrow> key_id key = key_id (he_key ?e)"
    using key_compare [OF assms(2) e(1)] by blast
  have "Suc i + n = hb_used b" using Suc.prems by simp
  from Suc.IH [OF this] obtain r where r: "scan_bucket h key (id_hash (key_id key)) (hb_entries b) (Suc i) n = Ok r"
    "case r of None \<Rightarrow> \<forall>j. Suc i \<le> j \<and> j < hb_used b \<longrightarrow> key_id (he_key (bucket_list b ! j)) \<noteq> key_id key
     | Some j \<Rightarrow> Suc i \<le> j \<and> j < hb_used b \<and> key_id (he_key (bucket_list b ! j)) = key_id key"
    by blast
  show ?case
  proof (cases "key_id key = key_id (he_key ?e)")
    case True
    with e c assms(3) Suc.prems show ?thesis by simp
  next
    case False
    then have "scan_bucket h key (id_hash (key_id key)) (hb_entries b) i (Suc n) = Ok r"
      using e c assms(3) r(1) by (cases "id_hash (key_id key) = he_hashval ?e") simp_all
    moreover have "i \<le> j \<and> j < hb_used b \<longrightarrow> key_id (he_key (bucket_list b ! j)) \<noteq> key_id key"
      if "Suc i \<le> j \<and> j < hb_used b \<longrightarrow> key_id (he_key (bucket_list b ! j)) \<noteq> key_id key" for j
      using that False by (cases "j = i") auto
    ultimately show ?thesis using r(2) by (auto split: option.splits)
  qed
qed auto

lemma scan_bucket_map:
  assumes "bok (bucket_pos (id_hash (key_id key))) b" "key_ok key" "h_key_compare h = key_compare"
  shows "\<exists>r. scan_bucket h key (id_hash (key_id key)) (hb_entries b) 0 (hb_used b) = Ok r \<and>
    (case r of
       None \<Rightarrow> bucket_map key_id b (key_id key) = None \<and> (\<forall>x\<in>set (bucket_list b). key_id (he_key x) \<noteq> key_id key)
     | Some j \<Rightarrow> j < hb_used b \<and> key_id (he_key (bucket_list b ! j)) = key_id key \<and>
         bucket_map key_id b (key_id key) = Some (he_key (bucket_list b ! j), he_value (bucket_list b ! j)))"
proof -
  obtain r where r: "scan_bucket h key (id_hash (key_id key)) (hb_entries b) 0 (hb_used b) = Ok r"
    "case r of None \<Rightarrow> \<forall>j. 0 \<le> j \<and> j < hb_used b \<longrightarrow> key_id (he_key (bucket_list b ! j)) \<noteq> key_id key
     | Some j \<Rightarrow> 0 \<le> j \<and> j < hb_used b \<and> key_id (he_key (bucket_list b ! j)) = key_id key"
    using scan_bucket [OF assms, of 0 "hb_used b"] by auto
  show ?thesis
  proof (cases r)
    case None
    then have "\<forall>x\<in>set (bucket_list b). key_id (he_key x) \<noteq> key_id key"
      using r(2) length_bucket_list [OF assms(1)] by (auto simp: in_set_conv_nth)
    then have "bucket_map key_id b (key_id key) = None"
      by (auto simp: bucket_map_def map_of_eq_None_iff)
    with None r show ?thesis using \<open>\<forall>x\<in>set (bucket_list b). key_id (he_key x) \<noteq> key_id key\<close> by simp
  next
    case (Some j)
    let ?e = "bucket_list b ! j"
    have "(key_id (he_key ?e), he_key ?e, he_value ?e) \<in> set (map (entry_pair key_id) (bucket_list b))"
      using Some r(2) length_bucket_list [OF assms(1)] unfolding entry_pair_def [symmetric] by simp
    from map_of_is_SomeI [OF bucket_map_keys [OF assms(1)] this]
    have "bucket_map key_id b (key_id key) = Some (he_key (bucket_list b ! j), he_value (bucket_list b ! j))"
      using Some r(2) by (simp add: bucket_map_def)
    with Some r show ?thesis by simp
  qed
qed

text \<open>The bucket that belongs to a key.\<close>

lemma bucket_of:
  assumes "tok h" "key_ok key"
  obtains b where "h_hash_value h key = Ok (id_hash (key_id key))" "h_key_compare h = key_compare"
    "b = h_buckets h ! bucket_pos (id_hash (key_id key))"
    "get_bucket h (bucket_pos (id_hash (key_id key))) = Ok b" "bok (bucket_pos (id_hash (key_id key))) b"
    "hb_used b \<le> h_count h" "hash_map key_id h (key_id key) = bucket_map key_id b (key_id key)"
proof (rule that)
  have h: "hash_ok key_ok key_id id_hash h" using assms(1) by (simp add: table_ok_def)
  let ?p = "bucket_pos (id_hash (key_id key))"
  show "h_hash_value h key = Ok (id_hash (key_id key))" "h_key_compare h = key_compare"
    using assms hash_value by (simp_all add: table_ok_def)
  show "get_bucket h ?p = Ok (h_buckets h ! ?p)" "bok ?p (h_buckets h ! ?p)"
    using hash_ok_bucket [OF h, of ?p] by simp_all
  show "hb_used (h_buckets h ! ?p) \<le> h_count h"
    using hash_ok_used [OF h, of ?p] by simp
  show "hash_map key_id h (key_id key) = bucket_map key_id (h_buckets h ! ?p) (key_id key)"
    using hash_map_bucket [OF h] by simp
qed simp

lemma hash_find:
  assumes "tok h" "key_ok key"
  shows "hash_find h key = Ok (map_option snd (hash_map key_id h (key_id key)))"
proof -
  obtain b where b: "h_hash_value h key = Ok (id_hash (key_id key))" "h_key_compare h = key_compare"
    "get_bucket h (bucket_pos (id_hash (key_id key))) = Ok b" "bok (bucket_pos (id_hash (key_id key))) b"
    "hash_map key_id h (key_id key) = bucket_map key_id b (key_id key)"
    using bucket_of [OF assms] by blast
  obtain r where r: "scan_bucket h key (id_hash (key_id key)) (hb_entries b) 0 (hb_used b) = Ok r"
    "case r of
       None \<Rightarrow> bucket_map key_id b (key_id key) = None \<and> (\<forall>x\<in>set (bucket_list b). key_id (he_key x) \<noteq> key_id key)
     | Some j \<Rightarrow> j < hb_used b \<and> key_id (he_key (bucket_list b ! j)) = key_id key \<and>
         bucket_map key_id b (key_id key) = Some (he_key (bucket_list b ! j), he_value (bucket_list b ! j))"
    using scan_bucket_map [OF b(4) assms(2) b(2)] by blast
  with b show ?thesis
    using bucket_ok_entry(1) [OF b(4)] by (auto simp: hash_find_def hash_find_entry_def split: option.splits)
qed

text \<open>Changing the memory of a bucket, but not its entries, changes nothing.\<close>

lemma set_bucket_same:
  assumes "tok h" "pos = bucket_pos (id_hash (key_id key))" "bok pos b" "bucket_list b = bucket_list (h_buckets h ! pos)"
  shows "tok (set_bucket h pos b)" "hash_map key_id (set_bucket h pos b) = hash_map key_id h"
    "mset (hash_entries (set_bucket h pos b)) = mset (hash_entries h)"
proof -
  have h: "hash_ok key_ok key_id id_hash h" using assms(1) by (simp add: table_ok_def)
  have pos: "pos < n_buckets" by (simp add: assms(2))
  have e: "(set_bucket h pos b)\<lparr>h_count := h_count h\<rparr> = set_bucket h pos b" by (simp add: set_bucket_def)
  from set_bucket_ok [OF h pos assms(3), of "h_count h", unfolded e] assms
  show "tok (set_bucket h pos b)" by (simp add: table_ok_def)
  have m: "bucket_map key_id b = (bucket_map key_id (h_buckets h ! pos))
      (key_id key := hash_map key_id h (key_id key))"
    using assms(4) hash_map_bucket [OF h, of "key_id key"] by (auto simp: bucket_map_def assms(2))
  from set_bucket_map [OF h assms(3) [unfolded assms(2)] m [unfolded assms(2)], of "h_count h", folded assms(2), unfolded e]
  show "hash_map key_id (set_bucket h pos b) = hash_map key_id h" by simp
  show "mset (hash_entries (set_bucket h pos b)) = mset (hash_entries h)"
    using hash_entries_update [of pos h b] h pos assms(4) by (simp add: hash_ok_def)
qed

text \<open>Appending an entry whose key is not there.\<close>

lemma append_entry:
  assumes "tok h" "key_ok key" "pos = bucket_pos (id_hash (key_id key))" "b = h_buckets h ! pos"
    and u: "hb_used b + 1 < hb_total b" "h_count h < 2 ^ 30"
    and new: "\<forall>x\<in>set (bucket_list b). key_id (he_key x) \<noteq> key_id key"
  shows "\<exists>h'. append_entry h pos b key val (id_hash (key_id key)) = Ok h' \<and> tok h' \<and>
    h_free_value h' = h_free_value h \<and> h_free_key h' = h_free_key h \<and> h_count h' = h_count h + 1 \<and>
    hash_map key_id h' = (hash_map key_id h)(key_id key \<mapsto> (key, val)) \<and>
    image_mset he_value (mset (hash_entries h')) = add_mset val (image_mset he_value (mset (hash_entries h))) \<and>
    image_mset he_key (mset (hash_entries h')) = add_mset key (image_mset he_key (mset (hash_entries h)))"
proof -
  have h: "hash_ok key_ok key_id id_hash h" using assms(1) by (simp add: table_ok_def)
  have pos: "pos < n_buckets" and b: "bok pos b" by (simp_all add: assms(3,4) hash_ok_bucket [OF h])
  let ?e = "\<lparr>he_key = key, he_value = val, he_hashval = id_hash (key_id key)\<rparr>"
  define b' where "b' = b\<lparr>hb_entries := (hb_entries b)[hb_used b := Some ?e], hb_used := w32 (hb_used b + 1)\<rparr>"
  have b': "bok pos b'" "bucket_list b' = bucket_list b @ [?e]"
    "bucket_map key_id b' = (bucket_map key_id b)(key_id key \<mapsto> (key, val))"
    using bucket_append [OF b u(1), of ?e] assms(2,3) new by (simp_all add: b'_def)
  define h' where "h' = (set_bucket h pos b')\<lparr>h_count := h_count h + 1\<rparr>"
  have "append_entry h pos b key val (id_hash (key_id key)) = Ok h'"
    using u b by (simp add: append_entry_def store_entry_def bucket_ok_def w32_id h'_def b'_def)
  moreover have "tok h'"
    using set_bucket_ok [OF h pos b'(1), of "h_count h + 1"] b'(2) assms by (simp add: table_ok_def h'_def)
  moreover have "hash_map key_id h' = (hash_map key_id h)(key_id key \<mapsto> (key, val))"
    using set_bucket_map [OF h, of "key_id key" b'] b' assms(3,4) by (simp add: h'_def)
  moreover have m: "mset (hash_entries h') = add_mset ?e (mset (hash_entries h))"
    using hash_entries_update [of pos h b'] h pos b'(2) assms(4) by (simp add: hash_ok_def h'_def)
  ultimately show ?thesis by (simp add: h'_def)
qed

text \<open>
  After the room is made: the table with the bucket that has room, in which the scan runs;
  or the reply to refused memory.
\<close>

lemma with_room:
  assumes t: "tok h" "key_ok key" and c: "h_count h < 2 ^ 30"
  defines "p \<equiv> bucket_pos (id_hash (key_id key))"
  obtains
    (refused) w' where "bucket_room (h_buckets h ! p) w = (None, w')" "may_oom w" "same_log w w'"
  | (room) b' w' r where "bucket_room (h_buckets h ! p) w = (Some b', w')" "may_oom w' \<Longrightarrow> may_oom w" "same_log w w'"
      "tok (set_bucket h p b')" "hash_map key_id (set_bucket h p b') = hash_map key_id h"
      "mset (hash_entries (set_bucket h p b')) = mset (hash_entries h)"
      "bok p b'" "hb_used b' + 1 < hb_total b'" "h_buckets (set_bucket h p b') ! p = b'"
      "scan_bucket (set_bucket h p b') key (id_hash (key_id key)) (hb_entries b') 0 (hb_used b') = Ok r"
      "case r of
         None \<Rightarrow> hash_map key_id h (key_id key) = None \<and> (\<forall>x\<in>set (bucket_list b'). key_id (he_key x) \<noteq> key_id key)
       | Some j \<Rightarrow> j < hb_used b' \<and> key_id (he_key (bucket_list b' ! j)) = key_id key \<and>
           hash_map key_id h (key_id key) = Some (he_key (bucket_list b' ! j), he_value (bucket_list b' ! j))"
proof -
  have h: "hash_ok key_ok key_id id_hash h" "h_key_compare h = key_compare" using t(1) by (simp_all add: table_ok_def)
  let ?b = "h_buckets h ! p"
  have b: "bok p ?b" and p: "p < n_buckets" by (simp_all add: p_def hash_ok_bucket [OF h(1)])
  have "hb_used ?b < 2 ^ 30" using hash_ok_used [OF h(1) p] c by simp
  from bucket_room_spec [OF b this, of w] show thesis
  proof (elim disjE exE conjE)
    fix w' assume "bucket_room ?b w = (None, w')" "may_oom w" "same_log w w'"
    then show thesis by (rule refused)
  next
    fix b' w'
    assume a: "bucket_room ?b w = (Some b', w')" "bok p b'" "bucket_list b' = bucket_list ?b" "hb_used b' = hb_used ?b"
      "hb_used ?b + 1 < hb_total b'" "may_oom w' \<longrightarrow> may_oom w" "same_log w w'"
    let ?h = "set_bucket h p b'"
    note s = set_bucket_same [OF t(1) p_def [THEN meta_eq_to_obj_eq] a(2,3)]
    have n: "h_buckets ?h ! p = b'" using h(1) p by (simp add: hash_ok_def)
    have hb: "hash_ok key_ok key_id id_hash ?h" using s(1) by (simp add: table_ok_def)
    have m: "bucket_map key_id b' (key_id key) = hash_map key_id h (key_id key)"
      using hash_map_bucket [OF hb, of "key_id key"] n s(2) by (simp add: p_def)
    obtain r where r: "scan_bucket ?h key (id_hash (key_id key)) (hb_entries b') 0 (hb_used b') = Ok r"
      "case r of
         None \<Rightarrow> bucket_map key_id b' (key_id key) = None \<and> (\<forall>x\<in>set (bucket_list b'). key_id (he_key x) \<noteq> key_id key)
       | Some j \<Rightarrow> j < hb_used b' \<and> key_id (he_key (bucket_list b' ! j)) = key_id key \<and>
           bucket_map key_id b' (key_id key) = Some (he_key (bucket_list b' ! j), he_value (bucket_list b' ! j))"
      using scan_bucket_map [of key b' ?h] a(2) t(2) h(2) by (auto simp: p_def)
    show thesis
      by (rule room [OF a(1) _ a(7) s a(2) _ n r(1) r(2) [unfolded m]]) (use a in auto)
  qed
qed

lemma replace_entry:
  assumes t: "tok h" "key_ok key" and p: "p = bucket_pos (id_hash (key_id key))" "b = h_buckets h ! p"
    and j: "j < hb_used b" "key_id (he_key (bucket_list b ! j)) = key_id key"
  shows "\<exists>es. store_entry (hb_entries b) j ((bucket_list b ! j)\<lparr>he_key := key, he_value := val\<rparr>) = Ok es \<and>
    (let h' = set_bucket h p (b\<lparr>hb_entries := es\<rparr>) in tok h' \<and>
      hash_map key_id h' = (hash_map key_id h)(key_id key \<mapsto> (key, val)) \<and>
      add_mset (he_value (bucket_list b ! j)) (image_mset he_value (mset (hash_entries h'))) =
        add_mset val (image_mset he_value (mset (hash_entries h))) \<and>
      add_mset (he_key (bucket_list b ! j)) (image_mset he_key (mset (hash_entries h'))) =
        add_mset key (image_mset he_key (mset (hash_entries h))))"
proof -
  have h: "hash_ok key_ok key_id id_hash h" using t(1) by (simp add: table_ok_def)
  have pn: "p < n_buckets" and b: "bok p b" by (simp_all add: p hash_ok_bucket [OF h])
  let ?e = "(bucket_list b ! j)\<lparr>he_key := key, he_value := val\<rparr>"
  define b' where "b' = b\<lparr>hb_entries := (hb_entries b)[j := Some ?e]\<rparr>"
  note r = bucket_replace [OF b j t(2), of val, folded b'_def]
  have c: "(set_bucket h p b')\<lparr>h_count := h_count h\<rparr> = set_bucket h p b'" by (simp add: set_bucket_def)
  have l: "j < length (bucket_list b)" using j(1) length_bucket_list [OF b] by simp
  have "tok (set_bucket h p b')"
    using set_bucket_ok [OF h pn r(1), of "h_count h"] r(2) t(1) p(2) by (simp add: table_ok_def c)
  moreover have "hash_map key_id (set_bucket h p b') = (hash_map key_id h)(key_id key \<mapsto> (key, val))"
    using set_bucket_map [OF h, of "key_id key" b' "Some (key, val)" "h_count h", folded p(1), unfolded c] r p(2) by simp
  moreover have u: "mset (hash_entries (set_bucket h p b')) + mset (bucket_list b) =
      mset (hash_entries h) + mset ((bucket_list b)[j := ?e])"
    using hash_entries_update [of p h b'] h pn r(2) p(2) by (simp add: hash_ok_def)
  have m: "add_mset (bucket_list b ! j) (mset (hash_entries (set_bucket h p b'))) = add_mset ?e (mset (hash_entries h))"
  proof -
    define M where "M = mset (bucket_list b) - {#bucket_list b ! j#}"
    have "mset (bucket_list b) = add_mset (bucket_list b ! j) M" "mset ((bucket_list b)[j := ?e]) = add_mset ?e M"
      using l by (simp_all add: M_def mset_update insert_DiffM nth_mem_mset)
    then have "add_mset (bucket_list b ! j) (mset (hash_entries (set_bucket h p b'))) + M =
        add_mset ?e (mset (hash_entries h)) + M"
      using u by simp
    then show ?thesis by (simp only: add_right_cancel)
  qed
  moreover have "add_mset (he_value (bucket_list b ! j)) (image_mset he_value (mset (hash_entries (set_bucket h p b')))) =
        add_mset val (image_mset he_value (mset (hash_entries h)))"
    "add_mset (he_key (bucket_list b ! j)) (image_mset he_key (mset (hash_entries (set_bucket h p b')))) =
        add_mset key (image_mset he_key (mset (hash_entries h)))"
    using arg_cong [OF m, of "image_mset he_value"] arg_cong [OF m, of "image_mset he_key"] by simp_all
  moreover have "store_entry (hb_entries b) j ?e = Ok ((hb_entries b)[j := Some ?e])"
    using bucket_ok_entry(3) [OF b j(1)] by (simp add: store_entry_def)
  ultimately show ?thesis
    by (simp add: b'_def Let_def)
qed

text \<open>What a call that stores the pair does to the map and to what the table owns.\<close>

lemma hash_add:
  assumes t: "tok h" "key_ok key" and c: "h_count h < 2 ^ 30"
  shows "wp False (hash_add h key val w) (\<lambda>((r, h'), w'). kept tok h w h' w' \<and>
    (r = 0 \<and> hash_map key_id h' = (hash_map key_id h)(key_id key \<mapsto> (key, val)) \<and>
       (h_free_value h \<longrightarrow> owned_values h' w' = add_mset val (owned_values h w)) \<and>
       (h_free_key h \<longrightarrow> owned_keys h' w' = add_mset key (owned_keys h w)) \<or>
     r = - ENOMEM \<and> may_oom w \<and> unchanged key_id h w h' w'))"
proof -
  let ?p = "bucket_pos (id_hash (key_id key))"
  obtain b where b: "h_hash_value h key = Ok (id_hash (key_id key))" "b = h_buckets h ! ?p" "get_bucket h ?p = Ok b"
    using bucket_of [OF t] by metis
  show ?thesis
  proof (rule with_room [OF t c, of w], goal_cases)
    case (1 w')
    then show ?thesis
      using b t by (auto simp: hash_add_def Let_def kept_def unchanged_def same_log_def may_oom_def dest: sym)
  next
    case room: (2 b' w' r)
    let ?h = "set_bucket h ?p b'"
    have cnt: "h_count ?h < 2 ^ 30" using c by simp
    show ?thesis
    proof (cases r)
      case None
      from append_entry [OF room(4) t(2) refl room(9) [symmetric] room(8) cnt, of val] None room(11)
      obtain h' where h': "append_entry ?h ?p b' key val (id_hash (key_id key)) = Ok h'" "tok h'"
        "h_free_value h' = h_free_value h" "h_free_key h' = h_free_key h" "h_count h' = h_count h + 1"
        "hash_map key_id h' = (hash_map key_id h)(key_id key \<mapsto> (key, val))"
        "image_mset he_value (mset (hash_entries h')) = add_mset val (image_mset he_value (mset (hash_entries h)))"
        "image_mset he_key (mset (hash_entries h')) = add_mset key (image_mset he_key (mset (hash_entries h)))"
        by (auto simp: room(5,6))
      have "hash_add h key val w = Ok ((0, h'), w')"
        using b room(1,10) None h'(1) by (simp add: hash_add_def Let_def)
      then show ?thesis
        using h' room(2,3) by (auto simp: kept_def owned_values_def owned_keys_def same_log_def)
    next
      case (Some j)
      then have j: "j < hb_used b'" "key_id (he_key (bucket_list b' ! j)) = key_id key" using room(11) by simp_all
      from replace_entry [OF room(4) t(2) refl room(9) [symmetric] j, of val]
      obtain es where es: "store_entry (hb_entries b') j ((bucket_list b' ! j)\<lparr>he_key := key, he_value := val\<rparr>) = Ok es"
        and h': "let h' = set_bucket ?h ?p (b'\<lparr>hb_entries := es\<rparr>) in tok h' \<and>
          hash_map key_id h' = (hash_map key_id ?h)(key_id key \<mapsto> (key, val)) \<and>
          add_mset (he_value (bucket_list b' ! j)) (image_mset he_value (mset (hash_entries h'))) =
            add_mset val (image_mset he_value (mset (hash_entries ?h))) \<and>
          add_mset (he_key (bucket_list b' ! j)) (image_mset he_key (mset (hash_entries h'))) =
            add_mset key (image_mset he_key (mset (hash_entries ?h)))"
        by blast
      let ?w = "call_free_key ?h (he_key (bucket_list b' ! j)) (call_free_value ?h (he_value (bucket_list b' ! j)) w')"
      have "hash_add h key val w = Ok ((0, set_bucket h ?p (b'\<lparr>hb_entries := es\<rparr>)), ?w)"
        using b room(1,10) Some es bucket_ok_entry(1) [OF room(7) j(1)] by (simp add: hash_add_def Let_def)
      then show ?thesis
        using h' room(2,3) room(5,6)
        by (auto simp: kept_def owned_values_def owned_keys_def same_log_def Let_def)
    qed
  qed
qed

lemma hash_add_unique:
  assumes t: "tok h" "key_ok key" and c: "h_count h < 2 ^ 30"
  shows "wp False (hash_add_unique h key val w) (\<lambda>((r, h'), w'). kept tok h w h' w' \<and>
    (r = 0 \<and> hash_map key_id h (key_id key) = None \<and>
       hash_map key_id h' = (hash_map key_id h)(key_id key \<mapsto> (key, val)) \<and>
       (h_free_value h \<longrightarrow> owned_values h' w' = add_mset val (owned_values h w)) \<and>
       (h_free_key h \<longrightarrow> owned_keys h' w' = add_mset key (owned_keys h w)) \<or>
     r = - EEXIST \<and> hash_map key_id h (key_id key) \<noteq> None \<and> unchanged key_id h w h' w' \<or>
     r = - ENOMEM \<and> may_oom w \<and> unchanged key_id h w h' w'))"
proof -
  let ?p = "bucket_pos (id_hash (key_id key))"
  obtain b where b: "h_hash_value h key = Ok (id_hash (key_id key))" "b = h_buckets h ! ?p" "get_bucket h ?p = Ok b"
    using bucket_of [OF t] by metis
  show ?thesis
  proof (rule with_room [OF t c, of w], goal_cases)
    case (1 w')
    then show ?thesis
      using b t by (auto simp: hash_add_unique_def Let_def kept_def unchanged_def same_log_def may_oom_def dest: sym)
  next
    case room: (2 b' w' r)
    let ?h = "set_bucket h ?p b'"
    have cnt: "h_count ?h < 2 ^ 30" using c by simp
    show ?thesis
    proof (cases r)
      case None
      from append_entry [OF room(4) t(2) refl room(9) [symmetric] room(8) cnt, of val] None room(11)
      obtain h' where h': "append_entry ?h ?p b' key val (id_hash (key_id key)) = Ok h'" "tok h'"
        "h_free_value h' = h_free_value h" "h_free_key h' = h_free_key h" "h_count h' = h_count h + 1"
        "hash_map key_id h' = (hash_map key_id h)(key_id key \<mapsto> (key, val))"
        "image_mset he_value (mset (hash_entries h')) = add_mset val (image_mset he_value (mset (hash_entries h)))"
        "image_mset he_key (mset (hash_entries h')) = add_mset key (image_mset he_key (mset (hash_entries h)))"
        by (auto simp: room(5,6))
      have "hash_add_unique h key val w = Ok ((0, h'), w')"
        using b room(1,10) None h'(1) by (simp add: hash_add_unique_def Let_def)
      then show ?thesis
        using h' room(2,3) room(11) None by (auto simp: kept_def owned_values_def owned_keys_def same_log_def)
    next
      case (Some j)
      have "hash_add_unique h key val w = Ok ((- EEXIST, ?h), w')"
        using b room(1,10) Some by (simp add: hash_add_unique_def Let_def)
      then show ?thesis
        using room Some by (auto simp: kept_def unchanged_def)
    qed
  qed
qed

lemma hash_del:
  assumes t: "tok h" "key_ok key" and c: "h_count h < 2 ^ 31"
  shows "wp False (hash_del h key w) (\<lambda>((r, h'), w'). kept tok h w h' w' \<and>
    (r = 0 \<and> hash_map key_id h (key_id key) \<noteq> None \<and> h_count h' + 1 = h_count h \<and>
       hash_map key_id h' = (hash_map key_id h)(key_id key := None) \<and>
       (h_free_value h \<longrightarrow> owned_values h' w' = owned_values h w) \<and>
       (h_free_key h \<longrightarrow> owned_keys h' w' = owned_keys h w) \<or>
     r = - ENOENT \<and> hash_map key_id h (key_id key) = None \<and> h' = h \<and> w' = w))"
proof -
  let ?p = "bucket_pos (id_hash (key_id key))"
  obtain b where b: "h_hash_value h key = Ok (id_hash (key_id key))" "h_key_compare h = key_compare"
    "b = h_buckets h ! ?p" "get_bucket h ?p = Ok b" "bok ?p b" "hb_used b \<le> h_count h"
    "hash_map key_id h (key_id key) = bucket_map key_id b (key_id key)"
    using bucket_of [OF t] by metis
  have h: "hash_ok key_ok key_id id_hash h" using t(1) by (simp add: table_ok_def)
  obtain r where r: "scan_bucket h key (id_hash (key_id key)) (hb_entries b) 0 (hb_used b) = Ok r"
    "case r of
       None \<Rightarrow> bucket_map key_id b (key_id key) = None \<and> (\<forall>x\<in>set (bucket_list b). key_id (he_key x) \<noteq> key_id key)
     | Some j \<Rightarrow> j < hb_used b \<and> key_id (he_key (bucket_list b ! j)) = key_id key \<and>
         bucket_map key_id b (key_id key) = Some (he_key (bucket_list b ! j), he_value (bucket_list b ! j))"
    using scan_bucket_map [OF b(5) t(2) b(2)] by blast
  have f: "hash_find_entry h key (id_hash (key_id key)) = Ok r"
    using b(4) r(1) by (simp add: hash_find_entry_def)
  show ?thesis
  proof (cases r)
    case None
    with b(1,4) f r(2) t b(7) show ?thesis
      by (simp add: hash_del_def Let_def kept_def)
  next
    case (Some j)
    then have j: "j < hb_used b" "key_id (he_key (bucket_list b ! j)) = key_id key" using r(2) by simp_all
    let ?e = "bucket_list b ! j"
    let ?w = "call_free_key h (he_key ?e) (call_free_value h (he_value ?e) w)"
    obtain es where es: "close_gap (hb_entries b) j (hb_used b - j) = Ok es"
      "bok ?p (b\<lparr>hb_entries := es, hb_used := sub32 (hb_used b) 1\<rparr>)"
      "bucket_list (b\<lparr>hb_entries := es, hb_used := sub32 (hb_used b) 1\<rparr>) = take j (bucket_list b) @ drop (Suc j) (bucket_list b)"
      using close_gap_spec [OF b(5) j(1)] by (auto simp: Let_def)
    obtain b' w' where s: "bucket_shrink (b\<lparr>hb_entries := es, hb_used := sub32 (hb_used b) 1\<rparr>) ?w = (b', w')" "bok ?p b'"
      "bucket_list b' = take j (bucket_list b) @ drop (Suc j) (bucket_list b)" "may_oom w' \<Longrightarrow> may_oom w" "same_log ?w w'"
      using bucket_shrink_spec [OF es(2), of ?w] es(3) by auto
    let ?h = "(set_bucket h ?p b')\<lparr>h_count := sub32 (h_count h) 1\<rparr>"
    have l: "j < length (bucket_list b)" "length (bucket_list b) = hb_used b"
      using j(1) length_bucket_list [OF b(5)] by simp_all
    have cnt: "sub32 (h_count h) 1 + 1 = h_count h"
      using b(6) j(1) c by (simp add: sub32_id)
    have d: "hash_del h key w = Ok ((0, ?h), w')"
      using b(1,4) f Some es(1) s(1) bucket_ok_entry(1) [OF b(5) j(1)] by (simp add: hash_del_def Let_def)
    have tk: "tok ?h"
      using set_bucket_ok [OF h bucket_pos_bound s(2), of "sub32 (h_count h) 1"] s(3) l cnt t(1) b(3)
      by (simp add: table_ok_def)
    have m: "hash_map key_id ?h = (hash_map key_id h)(key_id key := None)"
      using set_bucket_map [OF h s(2)] bucket_map_remove [OF b(5) j(1) s(3)] b(3) j(2) by simp
    have "mset (bucket_list b) = add_mset ?e (mset (bucket_list b'))"
      by (subst (1) id_take_nth_drop [OF l(1)]) (simp add: s(3))
    then have e: "mset (hash_entries h) = add_mset ?e (mset (hash_entries ?h))"
      using hash_entries_update [of ?p h b'] h b(3) by (simp add: hash_ok_def)
    have "kept tok h w ?h w'"
      using tk s(4) cnt by (simp add: kept_def)
    with d m e s(5) cnt b(7) r(2) Some show ?thesis
      by (auto simp: owned_values_def owned_keys_def same_log_def)
  qed
qed

end

end
