(* ===== verification/Murmur3Spec.thy ===== *)
theory Murmur3Spec
  imports Murmur3
begin

text \<open>
  The hash of src/Clang/map/lwan/murmur3.c is a function of the bytes of the key: a
  reference definition that consumes them block by block and pads the last block with
  zeros, equivalence of the three variants with it, and invertibility of the finalizers.
\<close>

section \<open>Reference\<close>

function ref32 :: "string \<Rightarrow> u32 \<Rightarrow> u32" where
  "ref32 bs h =
     (if length bs < 4 then h XOR k32 (le_word bs)
      else ref32 (drop 4 bs) (rotl32 (h XOR k32 (le_word (take 4 bs))) 13 * 5 + 0xe6546b64))"
  by pat_completeness auto
termination by (relation "measure (\<lambda>(bs, h). length bs)") auto

function ref128 :: "string \<Rightarrow> h128 \<Rightarrow> h128" where
  "ref128 bs h =
     (if length bs < 16 then
        (case h of (h1, h2, h3, h4) \<Rightarrow>
          (h1 XOR ka (le_word (take 4 bs)), h2 XOR kb (le_word (take 4 (drop 4 bs))),
           h3 XOR kc (le_word (take 4 (drop 8 bs))), h4 XOR kd (le_word (drop 12 bs))))
      else ref128 (drop 16 bs) (x86_128_mix (le_word (take 4 bs)) (le_word (take 4 (drop 4 bs)))
        (le_word (take 4 (drop 8 bs))) (le_word (take 4 (drop 12 bs))) h))"
  by pat_completeness auto
termination by (relation "measure (\<lambda>(bs, h). length bs)") auto

function ref64 :: "string \<Rightarrow> u64 \<times> u64 \<Rightarrow> u64 \<times> u64" where
  "ref64 bs h =
     (if length bs < 16 then
        (case h of (h1, h2) \<Rightarrow> (h1 XOR kx (le_word (take 8 bs)), h2 XOR ky (le_word (drop 8 bs))))
      else ref64 (drop 16 bs) (x64_mix (le_word (take 8 bs)) (le_word (take 8 (drop 8 bs))) h))"
  by pat_completeness auto
termination by (relation "measure (\<lambda>(bs, h). length bs)") auto

declare ref32.simps [simp del] ref128.simps [simp del] ref64.simps [simp del]

definition murmur3_ref :: "bool \<Rightarrow> u32 \<Rightarrow> string \<Rightarrow> u32" where
  "murmur3_ref x86_64 seed bs =
     (if x86_64 then ucast (snd (x64_final (of_nat (length bs)) (ref64 bs (ucast seed, ucast seed))))
      else if length bs \<le> 16 then fmix32 (ref32 bs seed XOR of_nat (length bs))
      else snd (snd (snd (x86_128_final (of_nat (length bs)) (ref128 bs (seed, seed, seed, seed))))))"

section \<open>Equivalence\<close>

lemma le_word_snoc: "le_word (bs @ [c]) = (le_word bs :: 'a::len word) XOR push_bit (8 * length bs) (byte_word c)"
proof (induction bs)
  case (Cons d bs)
  have "push_bit 8 (push_bit (8 * length bs) (byte_word c :: 'a word)) = push_bit (8 * length (d # bs)) (byte_word c)"
    by (simp add: push_bit_push_bit)
  with Cons show ?case by (simp add: push_bit_xor xor.assoc)
qed simp

text \<open>The cases of bytes \<open>b\<close> to \<open>b + n - 1\<close>, the last one first, put the bytes that are left in order.\<close>

lemma tail_xor_word:
  assumes "t + r \<le> length m"
  shows "tail_xor m t r (rev (map (\<lambda>i. (b + i, 8 * i)) [0..<n])) k =
    Ok (k XOR le_word (take n (drop b (take r (drop t m)))))"
proof (induction n arbitrary: k)
  case (Suc n)
  let ?d = "drop b (take r (drop t m))"
  show ?case
  proof (cases "b + n < r")
    case True
    then have "take (Suc n) ?d = take n ?d @ [m ! (t + (b + n))]" "length (take n ?d) = n"
      using assms by (simp_all add: take_Suc_conv_app_nth add.assoc)
    then have "le_word (take (Suc n) ?d) = (le_word (take n ?d) :: 'a word) XOR push_bit (8 * n) (byte_word (m ! (t + (b + n))))"
      by (simp only: le_word_snoc)
    with True Suc assms show ?thesis
      by (simp add: load_def xor.assoc xor.commute [of "push_bit (8 * n) _"])
  next
    case False
    then have "take (Suc n) ?d = take n ?d" using assms by simp
    with False Suc show ?thesis by simp
  qed
qed simp

lemma k32_0 [simp]: "k32 0 = 0" and ka_0 [simp]: "ka 0 = 0" and kb_0 [simp]: "kb 0 = 0" and kc_0 [simp]: "kc 0 = 0"
  and kd_0 [simp]: "kd 0 = 0" and kx_0 [simp]: "kx 0 = 0" and ky_0 [simp]: "ky 0 = 0"
  by (simp_all add: k32_def ka_def kb_def kc_def kd_def kx_def ky_def rotl32_def rotl64_def)

text \<open>A case that does not run would mix in the word of no bytes, which changes nothing.\<close>

lemma mix_if:
  assumes "f 0 = 0" "c = Suc i"
  shows "(if c \<le> length t then h XOR f (le_word (take n (drop i t))) else h) = h XOR f (le_word (take n (drop i t)))"
  using assms by (auto simp: not_le)

lemma load_le_take:
  "i + k \<le> length m \<Longrightarrow> load_le k m i = Ok (le_word (take k (drop i m)))"
  by (simp add: load_le_def)

lemma ref32_block: "4 \<le> length bs \<Longrightarrow> ref32 bs h =
    ref32 (drop 4 bs) (rotl32 (h XOR k32 (le_word (take 4 bs))) 13 * 5 + 0xe6546b64)"
  by (subst ref32.simps) simp

lemma ref128_block: "16 \<le> length bs \<Longrightarrow> ref128 bs h =
    ref128 (drop 16 bs) (x86_128_mix (le_word (take 4 bs)) (le_word (take 4 (drop 4 bs)))
        (le_word (take 4 (drop 8 bs))) (le_word (take 4 (drop 12 bs))) h)"
  by (subst ref128.simps) simp

lemma ref64_block: "16 \<le> length bs \<Longrightarrow> ref64 bs h =
    ref64 (drop 16 bs) (x64_mix (le_word (take 8 bs)) (le_word (take 8 (drop 8 bs))) h)"
  by (subst ref64.simps) simp

lemma x64_body_ref:
  assumes "16 * (i + n) + r \<le> length m"
  shows "\<exists>h'. x64_body m i n h = Ok h' \<and>
    ref64 (take (16 * n + r) (drop (16 * i) m)) h = ref64 (take r (drop (16 * (i + n)) m)) h'"
  using assms
proof (induction n arbitrary: i h)
  case (Suc n)
  let ?bs = "take (16 * Suc n + r) (drop (16 * i) m)"
  let ?h = "x64_mix (le_word (take 8 (drop (16 * i) m))) (le_word (take 8 (drop (16 * i + 8) m))) h"
  have "16 * (Suc i + n) + r \<le> length m" using Suc.prems by simp
  from Suc.IH [OF this, of ?h] obtain h' where h': "x64_body m (Suc i) n ?h = Ok h'"
    "ref64 (take (16 * n + r) (drop (16 * Suc i) m)) ?h = ref64 (take r (drop (16 * (Suc i + n)) m)) h'"
    by blast
  have "16 \<le> length ?bs" using Suc.prems by simp
  moreover have "take 8 ?bs = take 8 (drop (16 * i) m)" "take 8 (drop 8 ?bs) = take 8 (drop (16 * i + 8) m)"
    "drop 16 ?bs = take (16 * n + r) (drop (16 * Suc i) m)"
    by (simp_all add: drop_take min_def add.commute)
  ultimately have "ref64 ?bs h = ref64 (take (16 * n + r) (drop (16 * Suc i) m)) ?h"
    by (simp only: ref64_block)
  then show ?case
    using h' Suc.prems by (auto simp: load_le_take)
qed simp

lemma x64_ref:
  assumes "len \<le> length m"
  shows "MurmurHash3_x64_128 m len seed =
    Ok (x64_final (of_nat len) (ref64 (take len m) (ucast seed, ucast seed)))"
proof -
  let ?n = "len div 16" and ?r = "len mod 16"
  have len: "16 * ?n + ?r = len" "16 * (0 + ?n) + ?r \<le> length m" "?n * 16 + ?r \<le> length m" "?r < 16"
    using assms by simp_all
  obtain h1 h2 where h: "x64_body m 0 ?n (ucast seed, ucast seed) = Ok (h1, h2)"
    "ref64 (take len m) (ucast seed, ucast seed) = ref64 (take ?r (drop (?n * 16) m)) (h1, h2)"
    using x64_body_ref [OF len(2), of "(ucast seed, ucast seed)"] len(1) by (auto simp: mult.commute)
  have tl: "[(14, 48), (13, 40), (12, 32), (11, 24), (10, 16), (9, 8), (8, 0)] = rev (map (\<lambda>i. (8 + i, 8 * i)) [0..<7])"
    "[(7, 56), (6, 48), (5, 40), (4, 32), (3, 24), (2, 16), (1, 8), (0, 0)] = rev (map (\<lambda>i. (0 + i, 8 * i)) [0..<8])"
    by (simp_all add: upt_rec)
  define t where "t = take ?r (drop (?n * 16) m)"
  have lt: "length t = ?r" unfolding t_def using len(3) by (simp add: min_absorb2 le_diff_conv2)
  have "take 7 (drop 8 t) = drop 8 t" using lt len(4) by simp
  moreover have "ref64 t (h1, h2) = (h1 XOR kx (le_word (take 8 t)), h2 XOR ky (le_word (drop 8 t)))"
    using lt len(4) by (simp add: ref64.simps)
  moreover have "(if 9 \<le> ?r then h2 XOR ky (le_word (take 7 (drop 8 t))) else h2) = h2 XOR ky (le_word (take 7 (drop 8 t)))"
    "(if 1 \<le> ?r then h1 XOR kx (le_word (take 8 (drop 0 t))) else h1) = h1 XOR kx (le_word (take 8 (drop 0 t)))"
    by (rule mix_if [of _ _ _ t, unfolded lt]; simp)+
  ultimately show ?thesis
    using h [folded t_def] tail_xor_word [OF len(3), of 8 7 "0::u64", folded t_def]
      tail_xor_word [OF len(3), of 0 8 "0::u64", folded t_def]
    unfolding MurmurHash3_x64_128_def Let_def tl
    by (simp only: res_bind.simps case_prod_conv drop_0 xor.left_neutral)
qed

lemma x86_32_body_ref:
  assumes "4 * (i + n) + r \<le> length m"
  shows "\<exists>h'. x86_32_body m i n h = Ok h' \<and>
    ref32 (take (4 * n + r) (drop (4 * i) m)) h = ref32 (take r (drop (4 * (i + n)) m)) h'"
  using assms
proof (induction n arbitrary: i h)
  case (Suc n)
  let ?bs = "take (4 * Suc n + r) (drop (4 * i) m)"
  let ?h = "rotl32 (h XOR k32 (le_word (take 4 (drop (4 * i) m)))) 13 * 5 + 0xe6546b64"
  have "4 * (Suc i + n) + r \<le> length m" using Suc.prems by simp
  from Suc.IH [OF this, of ?h] obtain h' where h': "x86_32_body m (Suc i) n ?h = Ok h'"
    "ref32 (take (4 * n + r) (drop (4 * Suc i) m)) ?h = ref32 (take r (drop (4 * (Suc i + n)) m)) h'"
    by blast
  have "4 \<le> length ?bs" using Suc.prems by simp
  moreover have "take 4 ?bs = take 4 (drop (4 * i) m)" "drop 4 ?bs = take (4 * n + r) (drop (4 * Suc i) m)"
    by (simp_all add: drop_take min_def add.commute)
  ultimately have "ref32 ?bs h = ref32 (take (4 * n + r) (drop (4 * Suc i) m)) ?h"
    by (simp only: ref32_block)
  then show ?case
    using h' Suc.prems by (auto simp: load_le_take)
qed simp

lemma x86_32_ref:
  assumes "len \<le> length m"
  shows "MurmurHash3_x86_32 m len seed = Ok (fmix32 (ref32 (take len m) seed XOR of_nat len))"
proof -
  let ?n = "len div 4" and ?r = "len mod 4"
  have len: "4 * ?n + ?r = len" "4 * (0 + ?n) + ?r \<le> length m" "?n * 4 + ?r \<le> length m" "?r < 4"
    using assms by simp_all
  let ?t = "take ?r (drop (?n * 4) m)"
  obtain h where h: "x86_32_body m 0 ?n seed = Ok h" "ref32 (take len m) seed = ref32 ?t h"
    using x86_32_body_ref [OF len(2), of seed] len(1) by (auto simp: mult.commute)
  have tl: "[(2, 16), (1, 8), (0, 0)] = rev (map (\<lambda>i. (0 + i, 8 * i)) [0..<3])"
    by (simp add: upt_rec)
  define t where "t = take ?r (drop (?n * 4) m)"
  have lt: "length t = ?r" unfolding t_def using len(3) by (simp add: min_absorb2 le_diff_conv2)
  then have "take 3 t = t" using len(4) by simp
  moreover have "ref32 t h = h XOR k32 (le_word t)"
    using lt len(4) by (simp add: ref32.simps)
  moreover have "(if 1 \<le> ?r then h XOR k32 (le_word (take 3 (drop 0 t))) else h) = h XOR k32 (le_word (take 3 (drop 0 t)))"
    by (rule mix_if [of _ _ _ t, unfolded lt]; simp)
  ultimately show ?thesis
    using h [folded t_def] tail_xor_word [OF len(3), of 0 3 "0::u32", folded t_def]
    unfolding MurmurHash3_x86_32_def Let_def tl
    by (simp only: res_bind.simps drop_0 xor.left_neutral)
qed

lemma x86_128_body_ref:
  assumes "16 * (i + n) + r \<le> length m"
  shows "\<exists>h'. x86_128_body m i n h = Ok h' \<and>
    ref128 (take (16 * n + r) (drop (16 * i) m)) h = ref128 (take r (drop (16 * (i + n)) m)) h'"
  using assms
proof (induction n arbitrary: i h)
  case (Suc n)
  let ?bs = "take (16 * Suc n + r) (drop (16 * i) m)"
  let ?h = "x86_128_mix (le_word (take 4 (drop (16 * i) m))) (le_word (take 4 (drop (16 * i + 4) m)))
    (le_word (take 4 (drop (16 * i + 8) m))) (le_word (take 4 (drop (16 * i + 12) m))) h"
  have "16 * (Suc i + n) + r \<le> length m" using Suc.prems by simp
  from Suc.IH [OF this, of ?h] obtain h' where h': "x86_128_body m (Suc i) n ?h = Ok h'"
    "ref128 (take (16 * n + r) (drop (16 * Suc i) m)) ?h = ref128 (take r (drop (16 * (Suc i + n)) m)) h'"
    by blast
  have "16 \<le> length ?bs" using Suc.prems by simp
  moreover have "take 4 ?bs = take 4 (drop (16 * i) m)" "take 4 (drop 4 ?bs) = take 4 (drop (16 * i + 4) m)"
    "take 4 (drop 8 ?bs) = take 4 (drop (16 * i + 8) m)" "take 4 (drop 12 ?bs) = take 4 (drop (16 * i + 12) m)"
    "drop 16 ?bs = take (16 * n + r) (drop (16 * Suc i) m)"
    by (simp_all add: drop_take min_def add.commute)
  ultimately have "ref128 ?bs h = ref128 (take (16 * n + r) (drop (16 * Suc i) m)) ?h"
    by (simp only: ref128_block)
  then show ?case
    using h' Suc.prems by (auto simp: load_le_take)
qed simp

lemma x86_128_ref:
  assumes "len \<le> length m"
  shows "MurmurHash3_x86_128 m len seed =
    Ok (x86_128_final (of_nat len) (ref128 (take len m) (seed, seed, seed, seed)))"
proof -
  let ?n = "len div 16" and ?r = "len mod 16"
  have len: "16 * ?n + ?r = len" "16 * (0 + ?n) + ?r \<le> length m" "?n * 16 + ?r \<le> length m" "?r < 16"
    using assms by simp_all
  let ?t = "take ?r (drop (?n * 16) m)"
  obtain h1 h2 h3 h4 where h: "x86_128_body m 0 ?n (seed, seed, seed, seed) = Ok (h1, h2, h3, h4)"
    "ref128 (take len m) (seed, seed, seed, seed) = ref128 ?t (h1, h2, h3, h4)"
    using x86_128_body_ref [OF len(2), of "(seed, seed, seed, seed)"] len(1) by (auto simp: mult.commute)
  have tl: "[(14, 16), (13, 8), (12, 0)] = rev (map (\<lambda>i. (12 + i, 8 * i)) [0..<3])"
    "[(11, 24), (10, 16), (9, 8), (8, 0)] = rev (map (\<lambda>i. (8 + i, 8 * i)) [0..<4])"
    "[(7, 24), (6, 16), (5, 8), (4, 0)] = rev (map (\<lambda>i. (4 + i, 8 * i)) [0..<4])"
    "[(3, 24), (2, 16), (1, 8), (0, 0)] = rev (map (\<lambda>i. (0 + i, 8 * i)) [0..<4])"
    by (simp_all add: upt_rec)
  define t where "t = take ?r (drop (?n * 16) m)"
  have lt: "length t = ?r" unfolding t_def using len(3) by (simp add: min_absorb2 le_diff_conv2)
  have "take 3 (drop 12 t) = drop 12 t" using lt len(4) by simp
  moreover have "ref128 t (h1, h2, h3, h4) = (h1 XOR ka (le_word (take 4 t)), h2 XOR kb (le_word (take 4 (drop 4 t))),
      h3 XOR kc (le_word (take 4 (drop 8 t))), h4 XOR kd (le_word (drop 12 t)))"
    using lt len(4) by (simp add: ref128.simps)
  moreover have
    "(if 13 \<le> ?r then h4 XOR kd (le_word (take 3 (drop 12 t))) else h4) = h4 XOR kd (le_word (take 3 (drop 12 t)))"
    "(if 9 \<le> ?r then h3 XOR kc (le_word (take 4 (drop 8 t))) else h3) = h3 XOR kc (le_word (take 4 (drop 8 t)))"
    "(if 5 \<le> ?r then h2 XOR kb (le_word (take 4 (drop 4 t))) else h2) = h2 XOR kb (le_word (take 4 (drop 4 t)))"
    "(if 1 \<le> ?r then h1 XOR ka (le_word (take 4 (drop 0 t))) else h1) = h1 XOR ka (le_word (take 4 (drop 0 t)))"
    by (rule mix_if [of _ _ _ t, unfolded lt]; simp)+
  ultimately show ?thesis
    using h [folded t_def] tail_xor_word [OF len(3), of 12 3 "0::u32", folded t_def]
      tail_xor_word [OF len(3), of 8 4 "0::u32", folded t_def] tail_xor_word [OF len(3), of 4 4 "0::u32", folded t_def]
      tail_xor_word [OF len(3), of 0 4 "0::u32", folded t_def]
    unfolding MurmurHash3_x86_128_def Let_def tl
    by (simp only: res_bind.simps case_prod_conv drop_0 xor.left_neutral)
qed

section \<open>The finalizers\<close>

lemma xorshift_involution: "LENGTH('a) \<le> 2 * k \<Longrightarrow> xorshift k (xorshift k h) = (h :: 'a::len word)"
  by (rule bit_word_eqI) (auto simp: xorshift_def bit_simps)

definition unfmix32 :: "u32 \<Rightarrow> u32" where
  "unfmix32 h =
     (let y = xorshift 16 h * 0x7ed1b41d; x = y XOR drop_bit 13 y XOR drop_bit 26 y in
      xorshift 16 (x * 0xa5cb9243))"

definition unfmix64 :: "u64 \<Rightarrow> u64" where
  "unfmix64 k = xorshift 33 (xorshift 33 (xorshift 33 k * 0x9cb4b2f8129337db) * 0x4f74430c22a54005)"

lemma xorshift_13: "(let y = xorshift 13 h in y XOR drop_bit 13 y XOR drop_bit 26 y) = (h :: u32)"
  by (rule bit_word_eqI) (auto simp: xorshift_def bit_simps Let_def)

lemma unfmix32_fmix32: "unfmix32 (fmix32 h) = h"
proof -
  have "0xc2b2ae35 * 0x7ed1b41d = (1 :: u32)" "0x85ebca6b * 0xa5cb9243 = (1 :: u32)" by simp_all
  then have "x * 0xc2b2ae35 * 0x7ed1b41d = x" "x * 0x85ebca6b * 0xa5cb9243 = x" for x :: u32
    by (simp_all only: mult.assoc mult_1_right)
  moreover have "xorshift 16 (xorshift 16 x) = x" for x :: u32
    by (rule xorshift_involution) simp
  ultimately show ?thesis
    using xorshift_13 [of "xorshift 16 h * 0x85ebca6b"]
    by (simp only: unfmix32_def fmix32_def Let_def)
qed

lemma unfmix64_fmix64: "unfmix64 (fmix64 h) = h"
proof -
  have "0xc4ceb9fe1a85ec53 * 0x9cb4b2f8129337db = (1 :: u64)" "0xff51afd7ed558ccd * 0x4f74430c22a54005 = (1 :: u64)"
    by simp_all
  then have "x * 0xc4ceb9fe1a85ec53 * 0x9cb4b2f8129337db = x" "x * 0xff51afd7ed558ccd * 0x4f74430c22a54005 = x" for x :: u64
    by (simp_all only: mult.assoc mult_1_right)
  moreover have "xorshift 33 (xorshift 33 x) = x" for x :: u64
    by (rule xorshift_involution) simp
  ultimately show ?thesis
    by (simp only: unfmix64_def fmix64_def)
qed

lemma murmur3_simple_eq:
  assumes "NUL \<in> set m"
  shows "murmur3_simple x86_64 seed m = Ok (murmur3_ref x86_64 seed (cstring m))"
proof -
  have l: "length (cstring m) \<le> length m" by (rule length_cstring_le)
  obtain a b where "ref64 (cstring m) (ucast seed, ucast seed) = (a, b)" by force
  moreover obtain x y where "x64_final (of_nat (length (cstring m))) (a, b) = (x, y)" by force
  moreover obtain a1 a2 a3 a4 where "x86_128_final (of_nat (length (cstring m)))
      (ref128 (cstring m) (seed, seed, seed, seed)) = (a1, a2, a3, a4)"
    using prod_cases4 by blast
  ultimately show ?thesis
    using assms x64_ref [OF l, of seed] x86_32_ref [OF l, of seed] x86_128_ref [OF l, of seed]
    by (simp add: murmur3_simple_def murmur3_ref_def strlen_def)
qed

section \<open>Properties\<close>

text \<open>C32. Every variant of the hash reads only the C string of its key, never past it, and
  computes the reference function of its bytes.\<close>

theorem murmur3_simple_reference:
  assumes "NUL \<in> set m"
  shows "murmur3_simple x86_64 seed m = Ok (murmur3_ref x86_64 seed (cstring m))"
  using assms by (rule murmur3_simple_eq)

theorem murmur3_simple_reference_witness:
  "murmur3_simple True 0 (''hello'' @ [NUL]) = Ok (murmur3_ref True 0 ''hello'')"
  using murmur3_simple_reference [of "''hello'' @ [NUL]" True 0] by (simp add: cstring_eval)

text \<open>The finalizers of the hash lose nothing: each is undone by an explicit inverse, so
  different states give different hashes.\<close>

theorem fmix_invertible:
  "unfmix32 (fmix32 h) = h \<and> unfmix64 (fmix64 k) = k"
  by (simp add: unfmix32_fmix32 unfmix64_fmix64)

end
