(* ===== verification/LwanHashProps.thy ===== *)
theory LwanHashProps
  imports LwanHashMap Murmur3Spec
begin

text \<open>
  Programs of operations on the hash table of src/Clang/map/lwan/hash.c, iteration, the
  lifetime of what it stores, the two kinds of key the library offers, and the properties
  of the component.
\<close>

section \<open>Iteration\<close>

text \<open>What an iterator has still to visit.\<close>

definition iter_rest :: "('k, 'v) hash \<Rightarrow> hash_iter \<Rightarrow> ('k, 'v) hash_entry list" where
  "iter_rest h it = drop (nat (it_entry it + 1)) (bucket_list (h_buckets h ! it_bucket it)) @
     concat (map bucket_list (drop (Suc (it_bucket it)) (h_buckets h)))"

definition iter_ok :: "hash_iter \<Rightarrow> bool" where
  "iter_ok it \<longleftrightarrow> it_bucket it < n_buckets \<and> - 1 \<le> it_entry it \<and> it_entry it < 2 ^ 31"

lemma next_bucket_spec:
  assumes h: "hash_ok ok ki ih h" and i: "i \<le> n_buckets"
  shows "\<exists>j. next_bucket h i = Ok j \<and> i \<le> j \<and> j \<le> n_buckets \<and>
    (if j < n_buckets then 0 < hb_used (h_buckets h ! j) else True) \<and>
    concat (map bucket_list (drop i (h_buckets h))) = concat (map bucket_list (drop j (h_buckets h)))"
  using i
proof (induction "n_buckets - i" arbitrary: i)
  case 0
  then show ?case by (simp add: next_bucket.simps)
next
  case (Suc n)
  then have i: "i < n_buckets" by simp
  have b: "get_bucket h i = Ok (h_buckets h ! i)" "bucket_ok ok ki ih i (h_buckets h ! i)"
    using hash_ok_bucket [OF h i] by auto
  show ?case
  proof (cases "0 < hb_used (h_buckets h ! i)")
    case True
    with i b show ?thesis by (intro exI [of _ i]) (simp add: next_bucket.simps)
  next
    case False
    then have "bucket_list (h_buckets h ! i) = []"
      using length_bucket_list [OF b(2)] by simp
    moreover have "drop i (h_buckets h) = h_buckets h ! i # drop (Suc i) (h_buckets h)"
      using i h by (simp add: Cons_nth_drop_Suc hash_ok_def)
    moreover have "next_bucket h i = next_bucket h (Suc i)"
      using i b(1) False by (subst next_bucket.simps) simp
    moreover have "n = n_buckets - Suc i" "Suc i \<le> n_buckets" using Suc.hyps(2) i by simp_all
    ultimately show ?thesis
      using Suc.hyps(1) [of "Suc i"] by (metis (no_types, lifting) Suc_leD append_Nil concat.simps(2) list.simps(9))
  qed
qed

lemma hash_iter_next_spec:
  assumes h: "hash_ok ok ki ih h" and it: "iter_ok it"
  shows "case iter_rest h it of
      [] \<Rightarrow> \<exists>it'. hash_iter_next h it = Ok (None, it') \<and> it_bucket it' = n_buckets
    | e # es \<Rightarrow> \<exists>it'. hash_iter_next h it = Ok (Some (he_key e, he_value e), it') \<and> iter_ok it' \<and> iter_rest h it' = es"
proof -
  let ?b = "h_buckets h ! it_bucket it" and ?n = "nat (it_entry it + 1)"
  have i: "it_bucket it < n_buckets" using it by (simp add: iter_ok_def)
  have b: "get_bucket h (it_bucket it) = Ok ?b" "bucket_ok ok ki ih (it_bucket it) ?b"
    using hash_ok_bucket [OF h i] by auto
  have n: "to_u32 (it_entry it + 1) = ?n" "0 \<le> it_entry it + 1"
    using it by (simp_all add: iter_ok_def to_u32_def)
  show ?thesis
  proof (cases "?n < hb_used ?b")
    case True
    let ?it = "it\<lparr>it_entry := it_entry it + 1\<rparr>"
    have l: "?n < length (bucket_list ?b)" using True length_bucket_list [OF b(2)] by simp
    have "hb_used ?b < 2 ^ 31" using b(2) by (auto simp: bucket_ok_def split: if_splits)
    then have "iter_ok ?it" using it True n by (simp add: iter_ok_def)
    moreover have "hash_iter_next h it = Ok (Some (he_key (bucket_list ?b ! ?n), he_value (bucket_list ?b ! ?n)), ?it)"
      using b True n i bucket_ok_entry(1) [OF b(2) True] by (simp add: hash_iter_next_def Let_def)
    moreover have "nat (it_entry it + 1 + 1) = Suc ?n" using n by simp
    ultimately show ?thesis
      using Cons_nth_drop_Suc [OF l, symmetric] by (simp add: iter_rest_def)
  next
    case False
    have w: "w32 (it_bucket it + 1) = Suc (it_bucket it)" "Suc (it_bucket it) \<le> n_buckets"
      using i by (simp_all add: w32_id n_buckets_def)
    obtain j where j: "next_bucket h (Suc (it_bucket it)) = Ok j" "j \<le> n_buckets"
      "j < n_buckets \<Longrightarrow> 0 < hb_used (h_buckets h ! j)"
      "concat (map bucket_list (drop (Suc (it_bucket it)) (h_buckets h))) = concat (map bucket_list (drop j (h_buckets h)))"
      using next_bucket_spec [OF h w(2)] by (auto split: if_splits)
    have r: "iter_rest h it = concat (map bucket_list (drop j (h_buckets h)))"
      using False length_bucket_list [OF b(2)] j(4) by (simp add: iter_rest_def)
    have nx: "hash_iter_next h it = (if n_buckets \<le> j then Ok (None, \<lparr>it_bucket = j, it_entry = 0\<rparr>)
        else res_bind (get_bucket h j) (\<lambda>b. res_bind (load_entry (hb_entries b) 0) (\<lambda>e.
          Ok (Some (he_key e, he_value e), \<lparr>it_bucket = j, it_entry = 0\<rparr>))))"
      using b False n j(1) w by (simp add: hash_iter_next_def Let_def)
    show ?thesis
    proof (cases "j < n_buckets")
      case True
      then have bj: "get_bucket h j = Ok (h_buckets h ! j)" "bucket_ok ok ki ih j (h_buckets h ! j)"
        using hash_ok_bucket [OF h True] by auto
      have "bucket_list (h_buckets h ! j) = bucket_list (h_buckets h ! j) ! 0 # drop 1 (bucket_list (h_buckets h ! j))"
        using j(3) [OF True] length_bucket_list [OF bj(2)] by (metis Cons_nth_drop_Suc One_nat_def drop0)
      moreover have "drop j (h_buckets h) = h_buckets h ! j # drop (Suc j) (h_buckets h)"
        using True h by (simp add: Cons_nth_drop_Suc hash_ok_def)
      ultimately have "iter_rest h it = bucket_list (h_buckets h ! j) ! 0 #
          drop 1 (bucket_list (h_buckets h ! j)) @ concat (map bucket_list (drop (Suc j) (h_buckets h)))"
        unfolding r by (metis append_Cons concat.simps(2) list.simps(9))
      with nx True bj bucket_ok_entry(1) [OF bj(2) j(3) [OF True]] show ?thesis
        by (simp add: iter_ok_def iter_rest_def)
    next
      case False
      with nx j(2) r h show ?thesis by (simp add: hash_ok_def)
    qed
  qed
qed

text \<open>A loop of \<open>hash_iter_next\<close> until it returns false, with fuel.\<close>

fun iter_collect :: "nat \<Rightarrow> ('k, 'v) hash \<Rightarrow> hash_iter \<Rightarrow> ('k \<times> 'v) list option cres" where
  "iter_collect 0 h it = Ok None"
| "iter_collect (Suc n) h it =
     res_bind (hash_iter_next h it) (\<lambda>(r, it).
     case r of None \<Rightarrow> Ok (Some [])
     | Some p \<Rightarrow> res_bind (iter_collect n h it) (\<lambda>ps. Ok (map_option ((#) p) ps)))"

lemma iter_collect_spec:
  assumes "hash_ok ok ki ih h" "iter_ok it" "length (iter_rest h it) < n"
  shows "iter_collect n h it = Ok (Some (map (\<lambda>e. (he_key e, he_value e)) (iter_rest h it)))"
  using assms(2,3)
proof (induction n arbitrary: it)
  case (Suc n)
  show ?case
    using hash_iter_next_spec [OF assms(1) Suc.prems(1)] Suc.IH Suc.prems(2)
    by (cases "iter_rest h it") auto
qed simp

lemma iter_init: "hash_ok ok ki ih h \<Longrightarrow> iter_ok hash_iter_init \<and> iter_rest h hash_iter_init = hash_entries h"
proof -
  assume h: "hash_ok ok ki ih h"
  then have "h_buckets h \<noteq> []" by (auto simp: hash_ok_def n_buckets_def)
  then show ?thesis
    by (cases "h_buckets h") (auto simp: iter_ok_def iter_rest_def hash_iter_init_def hash_entries_def n_buckets_def)
qed

section \<open>Freeing\<close>

lemma free_entries_spec:
  assumes "bucket_ok ok ki ih pos b" "i + n = hb_used b"
  shows "\<exists>w'. free_entries h (hb_entries b) i n w = Ok w' \<and>
    freed_values w' = freed_values w @ (if h_free_value h then map he_value (drop i (bucket_list b)) else []) \<and>
    freed_keys w' = freed_keys w @ (if h_free_key h then map he_key (drop i (bucket_list b)) else [])"
  using assms(2)
proof (induction n arbitrary: i w)
  case 0
  with length_bucket_list [OF assms(1)] show ?case by simp
next
  case (Suc n)
  then have i: "i < hb_used b" "Suc i + n = hb_used b" by simp_all
  have "drop i (bucket_list b) = bucket_list b ! i # drop (Suc i) (bucket_list b)"
    using i length_bucket_list [OF assms(1)] by (simp add: Cons_nth_drop_Suc)
  then show ?case
    using Suc.IH [OF i(2)] bucket_ok_entry(1) [OF assms(1) i(1)] by fastforce
qed

lemma free_buckets_spec:
  assumes "\<forall>b\<in>set bs. \<exists>pos. bucket_ok ok ki ih pos b" "h_free_value h"
  shows "\<exists>w'. free_buckets h bs w = Ok w' \<and>
    freed_values w' = freed_values w @ map he_value (concat (map bucket_list bs)) \<and>
    freed_keys w' = freed_keys w @ (if h_free_key h then map he_key (concat (map bucket_list bs)) else [])"
  using assms(1)
proof (induction bs arbitrary: w)
  case (Cons b bs)
  then obtain pos where "bucket_ok ok ki ih pos b" by auto
  from free_entries_spec [OF this, of 0 "hb_used b" h w] obtain w1 where w1:
    "free_entries h (hb_entries b) 0 (hb_used b) w = Ok w1"
    "freed_values w1 = freed_values w @ map he_value (bucket_list b)"
    "freed_keys w1 = freed_keys w @ (if h_free_key h then map he_key (bucket_list b) else [])"
    using assms(2) by auto
  with Cons.IH [of w1] Cons.prems assms(2) show ?case by auto
qed simp

lemma hash_free_spec:
  assumes "hash_ok ok ki ih h" "h_free_value h"
  shows "\<exists>w'. hash_free (Some h) w = Ok w' \<and>
    mset (freed_values w') = owned_values h w \<and>
    (h_free_key h \<longrightarrow> mset (freed_keys w') = owned_keys h w)"
proof -
  have "\<forall>b\<in>set (h_buckets h). \<exists>pos. bucket_ok ok ki ih pos b"
    using assms(1) unfolding hash_ok_def by (metis in_set_conv_nth)
  from free_buckets_spec [OF this assms(2), of w] show ?thesis
    by (auto simp: hash_free_def owned_values_def owned_keys_def hash_entries_def)
qed

lemma hash_free_no_value: "\<not> h_free_value h \<Longrightarrow> hash_free (Some h) w = Ok w"
proof -
  assume "\<not> h_free_value h"
  then have "free_buckets h bs w = Ok w" for bs by (induction bs) simp_all
  then show ?thesis by (simp add: hash_free_def)
qed

section \<open>Programs\<close>

datatype ('k, 'v) hash_cmd =
    Cmd_add 'k 'v
  | Cmd_add_unique 'k 'v
  | Cmd_del 'k
  | Cmd_find 'k

datatype 'v hash_reply = Status int | Found "'v option"

fun cmd_key :: "('k, 'v) hash_cmd \<Rightarrow> 'k" where
  "cmd_key (Cmd_add k v) = k"
| "cmd_key (Cmd_add_unique k v) = k"
| "cmd_key (Cmd_del k) = k"
| "cmd_key (Cmd_find k) = k"

fun hash_exec :: "('k, 'v) hash_cmd \<Rightarrow> ('k, 'v) hash \<Rightarrow> ('k, 'v) hworld \<Rightarrow>
    (('v hash_reply \<times> ('k, 'v) hash) \<times> ('k, 'v) hworld) cres" where
  "hash_exec (Cmd_add k v) h w = res_bind (hash_add h k v w) (\<lambda>((r, h), w). Ok ((Status r, h), w))"
| "hash_exec (Cmd_add_unique k v) h w = res_bind (hash_add_unique h k v w) (\<lambda>((r, h), w). Ok ((Status r, h), w))"
| "hash_exec (Cmd_del k) h w = res_bind (hash_del h k w) (\<lambda>((r, h), w). Ok ((Status r, h), w))"
| "hash_exec (Cmd_find k) h w = res_bind (hash_find h k) (\<lambda>r. Ok ((Found r, h), w))"

fun hash_run :: "('k, 'v) hash_cmd list \<Rightarrow> ('k, 'v) hash \<Rightarrow> ('k, 'v) hworld \<Rightarrow>
    (('v hash_reply list \<times> ('k, 'v) hash) \<times> ('k, 'v) hworld) cres" where
  "hash_run [] h w = Ok (([], h), w)"
| "hash_run (c # cs) h w =
     res_bind (hash_exec c h w) (\<lambda>((r, h), w).
     res_bind (hash_run cs h w) (\<lambda>((rs, h), w). Ok ((r # rs, h), w)))"

text \<open>The replies a finite map gives to a command, and what a reply says has happened to it.\<close>

fun reply_ok :: "bool \<Rightarrow> ('k \<Rightarrow> 'i) \<Rightarrow> ('k, 'v) hash_cmd \<Rightarrow> 'v hash_reply \<Rightarrow> ('i \<rightharpoonup> 'k \<times> 'v) \<Rightarrow> bool" where
  "reply_ok oom ki (Cmd_add k v) r m \<longleftrightarrow> r = Status 0 \<or> r = Status (- ENOMEM) \<and> oom"
| "reply_ok oom ki (Cmd_add_unique k v) r m \<longleftrightarrow> r = Status 0 \<and> m (ki k) = None \<or>
     r = Status (- EEXIST) \<and> m (ki k) \<noteq> None \<or> r = Status (- ENOMEM) \<and> oom"
| "reply_ok oom ki (Cmd_del k) r m \<longleftrightarrow> r = Status (if m (ki k) = None then - ENOENT else 0)"
| "reply_ok oom ki (Cmd_find k) r m \<longleftrightarrow> r = Found (map_option snd (m (ki k)))"

fun map_effect :: "('k \<Rightarrow> 'i) \<Rightarrow> ('k, 'v) hash_cmd \<Rightarrow> 'v hash_reply \<Rightarrow> ('i \<rightharpoonup> 'k \<times> 'v) \<Rightarrow> ('i \<rightharpoonup> 'k \<times> 'v)" where
  "map_effect ki (Cmd_add k v) r m = (if r = Status 0 then m(ki k \<mapsto> (k, v)) else m)"
| "map_effect ki (Cmd_add_unique k v) r m = (if r = Status 0 then m(ki k \<mapsto> (k, v)) else m)"
| "map_effect ki (Cmd_del k) r m = m(ki k := None)"
| "map_effect ki (Cmd_find k) r m = m"

fun trace_ok :: "bool \<Rightarrow> ('k \<Rightarrow> 'i) \<Rightarrow> ('k, 'v) hash_cmd list \<Rightarrow> 'v hash_reply list \<Rightarrow> ('i \<rightharpoonup> 'k \<times> 'v) \<Rightarrow>
    ('i \<rightharpoonup> 'k \<times> 'v) \<Rightarrow> bool" where
  "trace_ok oom ki (c # cs) (r # rs) m m' \<longleftrightarrow> reply_ok oom ki c r m \<and> trace_ok oom ki cs rs (map_effect ki c r m) m'"
| "trace_ok oom ki [] [] m m' \<longleftrightarrow> m' = m"
| "trace_ok oom ki _ _ m m' \<longleftrightarrow> False"

text \<open>The values and keys that were handed over to the table: those of adds that succeeded.\<close>

fun handed_over :: "('k, 'v) hash_cmd list \<Rightarrow> 'v hash_reply list \<Rightarrow> ('k \<times> 'v) list" where
  "handed_over (Cmd_add k v # cs) (r # rs) = (if r = Status 0 then [(k, v)] else []) @ handed_over cs rs"
| "handed_over (Cmd_add_unique k v # cs) (r # rs) = (if r = Status 0 then [(k, v)] else []) @ handed_over cs rs"
| "handed_over (_ # cs) (r # rs) = handed_over cs rs"
| "handed_over _ _ = []"

lemma error_codes [simp]: "ENOMEM \<noteq> 0" "EEXIST \<noteq> 0" "ENOENT \<noteq> 0"
  by (simp_all add: ENOMEM_def EEXIST_def ENOENT_def)

lemma unchanged_owned:
  "unchanged ki h w h' w' \<Longrightarrow> hash_map ki h' = hash_map ki h \<and> owned_values h' w' = owned_values h w \<and> owned_keys h' w' = owned_keys h w"
  by (simp add: unchanged_def owned_values_def owned_keys_def same_log_def)

lemma reply_ok_mono: "reply_ok a ki c r m \<Longrightarrow> (a \<Longrightarrow> b) \<Longrightarrow> reply_ok b ki c r m"
  by (cases c) auto

lemma trace_ok_mono: "trace_ok a ki cs rs m m' \<Longrightarrow> (a \<Longrightarrow> b) \<Longrightarrow> trace_ok b ki cs rs m m'"
  by (induction a ki cs rs m m' rule: trace_ok.induct) (auto intro: reply_ok_mono)

lemma trace_ok_length: "trace_ok a ki cs rs m m' \<Longrightarrow> length rs = length cs"
  by (induction a ki cs rs m m' rule: trace_ok.induct) auto

lemma handed_over_Cons: "handed_over (c # cs) (r # rs) = handed_over [c] [r] @ handed_over cs rs"
  by (cases c) auto

context hash_keys
begin

lemma hash_exec:
  assumes t: "tok h" "key_ok (cmd_key c)" and n: "h_count h < 2 ^ 30"
  shows "wp False (hash_exec c h w) (\<lambda>((r, h'), w'). kept tok h w h' w' \<and>
    reply_ok (may_oom w) key_id c r (hash_map key_id h) \<and> hash_map key_id h' = map_effect key_id c r (hash_map key_id h) \<and>
    (h_free_value h \<longrightarrow> owned_values h' w' = owned_values h w + mset (map snd (handed_over [c] [r]))) \<and>
    (h_free_key h \<longrightarrow> owned_keys h' w' = owned_keys h w + mset (map fst (handed_over [c] [r]))))"
proof (cases c)
  case (Cmd_add k v)
  with t have k: "key_ok k" by simp
  show ?thesis
    unfolding Cmd_add hash_exec.simps
    by (rule wp_bindI [OF hash_add [OF t(1) k n, of v w]])
      (auto dest: unchanged_owned split: prod.splits)
next
  case (Cmd_add_unique k v)
  with t have k: "key_ok k" by simp
  show ?thesis
    unfolding Cmd_add_unique hash_exec.simps
    by (rule wp_bindI [OF hash_add_unique [OF t(1) k n, of v w]])
      (auto dest: unchanged_owned split: prod.splits)
next
  case (Cmd_del k)
  with t n have k: "key_ok k" "h_count h < 2 ^ 31" by simp_all
  show ?thesis
    unfolding Cmd_del hash_exec.simps
    by (rule wp_bindI [OF hash_del [OF t(1) k, of w]]) (auto simp: fun_upd_idem split: prod.splits)
next
  case (Cmd_find k)
  with t show ?thesis
    using hash_find [of h k] by (simp add: kept_def)
qed

lemma hash_run:
  assumes "tok h" "\<forall>c\<in>set cs. key_ok (cmd_key c)" "h_count h + length cs < 2 ^ 30"
  shows "wp False (hash_run cs h w) (\<lambda>((rs, h'), w'). tok h' \<and> h_free_value h' = h_free_value h \<and> h_free_key h' = h_free_key h \<and>
    trace_ok (may_oom w) key_id cs rs (hash_map key_id h) (hash_map key_id h') \<and>
    (h_free_value h \<longrightarrow> owned_values h' w' = owned_values h w + mset (map snd (handed_over cs rs))) \<and>
    (h_free_key h \<longrightarrow> owned_keys h' w' = owned_keys h w + mset (map fst (handed_over cs rs))))"
  using assms
proof (induction cs arbitrary: h w)
  case (Cons c cs)
  show ?case
    unfolding hash_run.simps
  proof (rule wp_bindI [OF hash_exec [of h c w]], goal_cases)
    case (5 x)
    obtain r h1 w1 where x: "x = ((r, h1), w1)" by (metis prod.exhaust)
    have a: "kept tok h w h1 w1" "reply_ok (may_oom w) key_id c r (hash_map key_id h)"
      "hash_map key_id h1 = map_effect key_id c r (hash_map key_id h)"
      "h_free_value h \<Longrightarrow> owned_values h1 w1 = owned_values h w + mset (map snd (handed_over [c] [r]))"
      "h_free_key h \<Longrightarrow> owned_keys h1 w1 = owned_keys h w + mset (map fst (handed_over [c] [r]))"
      using 5 x by auto
    have "wp False (hash_run cs h1 w1) (\<lambda>((rs, h'), w'). tok h' \<and> h_free_value h' = h_free_value h1 \<and>
      h_free_key h' = h_free_key h1 \<and>
      trace_ok (may_oom w1) key_id cs rs (hash_map key_id h1) (hash_map key_id h') \<and>
      (h_free_value h1 \<longrightarrow> owned_values h' w' = owned_values h1 w1 + mset (map snd (handed_over cs rs))) \<and>
      (h_free_key h1 \<longrightarrow> owned_keys h' w' = owned_keys h1 w1 + mset (map fst (handed_over cs rs))))"
      using a(1) Cons.prems by (intro Cons.IH) (auto simp: kept_def)
    then show ?case
      unfolding x case_prod_conv
    proof (rule wp_bindI, goal_cases)
      case (2 y)
      obtain rs h2 w2 where y: "y = ((rs, h2), w2)" by (metis prod.exhaust)
      note ih = 2 [unfolded y case_prod_conv]
      have "trace_ok (may_oom w1) key_id cs rs (hash_map key_id h1) (hash_map key_id h2)"
        using ih by (elim conjE)
      then have "trace_ok (may_oom w) key_id cs rs (hash_map key_id h1) (hash_map key_id h2)"
        by (rule trace_ok_mono) (use a(1) in \<open>simp add: kept_def\<close>)
      moreover have "tok h2" "h_free_value h2 = h_free_value h" "h_free_key h2 = h_free_key h"
        using ih a(1) unfolding kept_def by (elim conjE; simp)+
      moreover have "owned_values h2 w2 = owned_values h w + mset (map snd (handed_over (c # cs) (r # rs)))" if "h_free_value h"
        using ih a(1,4) that unfolding kept_def by (simp add: handed_over_Cons [of c cs r rs])
      moreover have "owned_keys h2 w2 = owned_keys h w + mset (map fst (handed_over (c # cs) (r # rs)))" if "h_free_key h"
        using ih a(1,5) that unfolding kept_def by (simp add: handed_over_Cons [of c cs r rs])
      ultimately show ?case
        unfolding y using a(2,3) by simp
    qed
  qed (use Cons.prems in auto)
qed simp

end

section \<open>The keys of the library\<close>

lemma cmp_terminated:
  assumes "NUL \<notin> set a" "NUL \<notin> set b"
  shows "cmp_bytes (a @ [NUL]) (b @ [NUL]) = 0 \<longleftrightarrow> a = b"
  using assms
proof (induction a arbitrary: b)
  case Nil
  then show ?case by (cases b) auto
next
  case (Cons x a)
  then show ?case
    by (cases b) auto
qed

text \<open>Strings: equal as C strings, with the hash of murmur3.\<close>

interpretation str_keys: hash_keys "murmur3_simple x86_64 seed" strcmp "\<lambda>k. NUL \<in> set k" cstring
    "murmur3_ref x86_64 seed" for x86_64 seed
proof (unfold_locales, goal_cases)
  case (1 k)
  then show ?case by (rule murmur3_simple_eq)
next
  case (2 a b)
  then show ?case by (simp add: strcmp_def cmp_terminated)
qed

text \<open>Strings with the CRC hash, which reads the string and its terminator only.\<close>

lemma load_cstring:
  assumes "NUL \<in> set m"
  shows "i \<le> length (cstring m) \<Longrightarrow> load (cstring m @ [NUL]) i = load m i"
    "i + k \<le> length (cstring m) \<Longrightarrow> load_le k (cstring m @ [NUL]) i = load_le k m i"
proof -
  obtain r where m: "m = cstring m @ NUL # r"
  proof
    have "length (cstring m) < length m" "m ! length (cstring m) = NUL"
      using assms by (auto simp: length_cstring_less nth_length_cstring)
    then show "m = cstring m @ NUL # drop (Suc (length (cstring m))) m"
      by (metis id_take_nth_drop take_length_cstring)
  qed
  show "load (cstring m @ [NUL]) i = load m i" if "i \<le> length (cstring m)"
    using that by (subst (2) m) (auto simp: load_def nth_append)
  show "load_le k (cstring m @ [NUL]) i = load_le k m i" if "i + k \<le> length (cstring m)"
    using that by (subst (2) m) (simp add: load_le_def)
qed

lemma crc64_loop_cstring:
  assumes m: "NUL \<in> set m"
  shows "key + len = length (cstring m) \<Longrightarrow> crc64_loop u (cstring m @ [NUL]) key len h = crc64_loop u m key len h \<and>
    (\<exists>k l g. crc64_loop u m key len h = Ok (k, l, g) \<and> k + l = length (cstring m))"
proof (induction len arbitrary: key h rule: less_induct)
  case (less len)
  show ?case
  proof (cases "8 \<le> len")
    case True
    then have k: "key + 8 \<le> length (cstring m)" "key + 8 + (len - 8) = length (cstring m)" "len - 8 < len"
      using less.prems by simp_all
    then obtain d :: u64 where d: "load_le 8 m key = Ok d"
      using length_cstring_le [of m] by (simp add: load_le_def)
    moreover have "load_le 8 (cstring m @ [NUL]) key = Ok d"
      using d load_cstring(2) [OF m k(1)] by metis
    ultimately show ?thesis
      using less.IH [OF k(3,2), of "ucast (crc32di u (ucast h) d)"] True
      unfolding crc64_loop.simps [of u _ key len h] by simp
  next
    case False
    with less.prems show ?thesis by (simp add: crc64_loop.simps)
  qed
qed

lemma crc32_loop_cstring:
  assumes m: "NUL \<in> set m"
  shows "key + len = length (cstring m) \<Longrightarrow> crc32_loop u (cstring m @ [NUL]) key len h = crc32_loop u m key len h \<and>
    (\<exists>k g. crc32_loop u m key len h = Ok (k, g) \<and> k \<le> length (cstring m))"
proof (induction len arbitrary: key h rule: less_induct)
  case (less len)
  show ?case
  proof (cases "4 \<le> len")
    case True
    then have k: "key + 4 \<le> length (cstring m)" "key + 4 + (len - 4) = length (cstring m)" "len - 4 < len"
      using less.prems by simp_all
    then obtain d :: u32 where d: "load_le 4 m key = Ok d"
      using length_cstring_le [of m] by (simp add: load_le_def)
    moreover have "load_le 4 (cstring m @ [NUL]) key = Ok d"
      using d load_cstring(2) [OF m k(1)] by metis
    ultimately show ?thesis
      using less.IH [OF k(3,2), of "crc32si u h d"] True
      unfolding crc32_loop.simps [of u _ key len h] by simp
  next
    case False
    with less.prems show ?thesis by (simp add: crc32_loop.simps)
  qed
qed

lemma hash_crc32_cstring:
  assumes m: "NUL \<in> set m"
  shows "\<exists>v. hash_crc32 u x86_64 c m = Ok v \<and> hash_crc32 u x86_64 c (cstring m @ [NUL]) = Ok v"
proof -
  let ?n = "length (cstring m)" and ?s = "cstring m @ [NUL]"
  obtain k l g where 1: "(if x86_64 then crc64_loop u m 0 ?n c else Ok (0, ?n, c)) = Ok (k, l, g)"
    "(if x86_64 then crc64_loop u ?s 0 ?n c else Ok (0, ?n, c)) = Ok (k, l, g)" "k + l = ?n"
    using crc64_loop_cstring [OF m, of 0 ?n u c] by (cases x86_64) auto
  from crc32_loop_cstring [OF m 1(3), of u g] obtain k' g' where 2: "crc32_loop u m k l g = Ok (k', g')"
    "crc32_loop u ?s k l g = Ok (k', g')" "k' \<le> ?n"
    by auto
  have t: "cstring ?s = cstring m" "NUL \<in> set ?s" by simp_all
  have l: "i \<le> ?n \<Longrightarrow> load m i = Ok (?s ! i)" "i \<le> ?n \<Longrightarrow> load ?s i = Ok (?s ! i)" for i
    using load_cstring(1) [OF m, of i] by (auto simp: load_def)
  have nz: "i < ?n \<longleftrightarrow> ?s ! i \<noteq> NUL" if "i \<le> ?n" for i
  proof
    assume "i < ?n"
    then have "?s ! i \<in> set (cstring m)" by (simp add: nth_append)
    then show "?s ! i \<noteq> NUL" using NUL_notin_cstring [of m] by metis
  next
    assume "?s ! i \<noteq> NUL"
    with that show "i < ?n" by (cases "i = ?n") auto
  qed
  have p: "\<exists>d :: u16. load_le 2 m k' = Ok d \<and> load_le 2 ?s k' = Ok d" if "k' + 2 \<le> ?n"
    unfolding load_cstring(2) [OF m that] using that length_cstring_le [of m] by (simp add: load_le_def)
  show ?thesis
  proof (cases "k' + 2 \<le> ?n")
    case True
    then obtain d :: u16 where "load_le 2 m k' = Ok d" "load_le 2 ?s k' = Ok d" using p by blast
    with True show ?thesis
      using nz [of k'] nz [of "k' + 1"] m t
      by (simp add: hash_crc32_def strlen_def 1(1,2) 2(1,2) l)
  next
    case False
    then show ?thesis
      using nz [of k'] nz [of "k' + 1"] m t 2(3)
      by (cases "k' < ?n") (simp_all add: hash_crc32_def strlen_def 1(1,2) 2(1,2) l)
  qed
qed

definition crc_ref :: "crc_unit \<Rightarrow> bool \<Rightarrow> u32 \<Rightarrow> string \<Rightarrow> u32" where
  "crc_ref u x86_64 c t = (case hash_crc32 u x86_64 c (t @ [NUL]) of Ok v \<Rightarrow> v | Err _ \<Rightarrow> 0)"

interpretation crc_keys: hash_keys "hash_crc32 u x86_64 c" strcmp "\<lambda>k. NUL \<in> set k" cstring
    "crc_ref u x86_64 c" for u x86_64 c
proof (unfold_locales, goal_cases)
  case (1 k)
  then show ?case using hash_crc32_cstring [of k u x86_64 c] by (auto simp: crc_ref_def)
next
  case (2 a b)
  then show ?case by (rule str_keys.key_compare)
qed

text \<open>Integers: the pointer is truncated to 32 bits, by the hash and by the comparison alike.\<close>

definition int_hash :: "u32 \<Rightarrow> u32 \<Rightarrow> u32" where
  "int_hash c key = xorshift 15 (xorshift 4 ((xorshift 16 key XOR 61) * 9) * c)"

lemma hash_int_eq: "hash_int c k = Ok (int_hash c (ucast k))"
proof -
  have "x + push_bit 3 x = x * 9" for x :: u32
    by (simp add: push_bit_eq_mult)
  then show ?thesis by (simp add: hash_int_def int_hash_def xorshift_def Let_def ac_simps)
qed

interpretation int_keys: hash_keys "hash_int c" hash_int_key_cmp "\<lambda>_. True" ucast "int_hash c" for c
proof (unfold_locales, goal_cases)
  case (1 k)
  show ?case by (rule hash_int_eq)
next
  case (2 a b)
  show ?case by (auto simp: hash_int_key_cmp_def Let_def intro: signed_word_eqI)
qed

section \<open>Facts for the properties\<close>

lemma hash_entries_distinct:
  assumes h: "hash_ok ok ki ih h"
  shows "distinct (map (ki \<circ> he_key) (hash_entries h))"
proof -
  have l: "length (h_buckets h) = n_buckets" using h by (simp add: hash_ok_def)
  have "distinct (map (ki \<circ> he_key) (concat (map bucket_list (take n (h_buckets h))))) \<and>
      (\<forall>e\<in>set (concat (map bucket_list (take n (h_buckets h)))). bucket_pos (ih (ki (he_key e))) < n)"
    if "n \<le> n_buckets" for n
    using that
  proof (induction n)
    case (Suc n)
    then have b: "bucket_ok ok ki ih n (h_buckets h ! n)" using h by (simp add: hash_ok_def)
    have t: "take (Suc n) (h_buckets h) = take n (h_buckets h) @ [h_buckets h ! n]"
      using Suc.prems l by (simp add: take_Suc_conv_app_nth)
    have "n \<le> n_buckets" using Suc.prems by simp
    note IH = Suc.IH [OF this, THEN conjunct1] Suc.IH [OF this, THEN conjunct2]
    have n: "\<forall>e\<in>set (bucket_list (h_buckets h ! n)). bucket_pos (ih (ki (he_key e))) = n"
      "distinct (map (ki \<circ> he_key) (bucket_list (h_buckets h ! n)))"
      using b by (auto simp: bucket_ok_def)
    have "(ki \<circ> he_key) ` set (concat (map bucket_list (take n (h_buckets h)))) \<inter>
        (ki \<circ> he_key) ` set (bucket_list (h_buckets h ! n)) = {}"
    proof (rule ccontr)
      assume "\<not> ?thesis"
      then obtain e e' where "e \<in> set (concat (map bucket_list (take n (h_buckets h))))"
        "e' \<in> set (bucket_list (h_buckets h ! n))" "ki (he_key e) = ki (he_key e')"
        by auto
      with IH(2) n(1) show False by fastforce
    qed
    with t IH n show ?case by (auto simp: less_Suc_eq o_def simp del: set_concat)
  qed simp
  from this [of n_buckets] show ?thesis using l by (simp add: hash_entries_def)
qed

lemma hash_count_card:
  assumes h: "hash_ok ok ki ih h"
  shows "hash_get_count h = card (dom (hash_map ki h))"
proof -
  have "dom (hash_map ki h) = set (map (ki \<circ> he_key) (hash_entries h))"
    by (auto simp: hash_map_def dom_map_of_conv_image_fst image_image)
  then show ?thesis
    using distinct_card [OF hash_entries_distinct [OF h]] h by (simp add: hash_get_count_def hash_ok_def)
qed

lemma xor_right_inj: "a XOR c = b XOR c \<longleftrightarrow> a = (b :: 'a::len word)"
proof
  assume "a XOR c = b XOR c"
  then have "(a XOR c) XOR c = (b XOR c) XOR c" by simp
  then show "a = b" by (simp only: xor.assoc xor_self_eq xor.right_neutral)
qed simp

lemma xorshift_inj: "0 < k \<Longrightarrow> xorshift k x = xorshift k y \<longleftrightarrow> x = (y :: 'a::len word)"
proof
  assume k: "0 < k" and e: "xorshift k x = xorshift k y"
  define d where "d = x XOR y"
  have "xorshift k d = xorshift k x XOR xorshift k y"
    by (rule bit_word_eqI) (auto simp: xorshift_def d_def bit_simps)
  then have "d XOR drop_bit k d = 0" using e by (simp add: xorshift_def)
  then have "d XOR drop_bit k d = drop_bit k d XOR drop_bit k d" by simp
  then have "drop_bit k d = d" by (simp only: xor_right_inj)
  then have "unat d div 2 ^ k = unat d" by (metis unat_drop_bit_eq drop_bit_eq_div)
  moreover have "unat d div 2 ^ k < unat d" if "0 < unat d"
    using one_less_power [of "2::nat" k] that k by (intro div_less_dividend) simp_all
  ultimately have "unat d = 0" by fastforce
  then have "d = 0" by (simp add: unsigned_eq_0_iff)
  then have "x XOR y = y XOR y" by (simp add: d_def)
  then show "x = y" by (simp only: xor_right_inj)
qed simp

lemma odd_mult_inj:
  assumes "odd (unat c)"
  shows "x * c = y * c \<longleftrightarrow> x = (y :: 'a::len word)"
proof
  assume "x * c = y * c"
  then have "(x - y) * c = 0" by (simp add: left_diff_distrib)
  then have "(of_nat (unat (x - y) * unat c) :: 'a word) = 0" by simp
  then have "2 ^ LENGTH('a) dvd unat (x - y) * unat c"
    unfolding word_of_nat_eq_0_iff by simp
  moreover have "coprime ((2::nat) ^ LENGTH('a)) (unat c)" using assms by simp
  ultimately have "2 ^ LENGTH('a) dvd unat (x - y)"
    by (simp add: coprime_dvd_mult_left_iff)
  moreover have "unat (x - y) < 2 ^ LENGTH('a)" by simp
  ultimately have "unat (x - y) = 0" by (metis dvd_imp_le neq0_conv not_le)
  then show "x = y" by (simp add: unsigned_eq_0_iff)
qed simp

lemma int_hash_inj:
  assumes "odd (unat c)"
  shows "int_hash c x = int_hash c y \<longleftrightarrow> x = y"
proof -
  have "odd (unat (9 :: u32))" by simp
  then show ?thesis
    unfolding int_hash_def
    by (simp only: xorshift_inj odd_mult_inj [OF assms] odd_mult_inj [of "9 :: u32"] xor_right_inj zero_less_numeral
        not_False_eq_True)
qed

section \<open>Properties\<close>

text \<open>A table that is just created, for every kind of key.\<close>

lemma hash_internal_new_ok:
  assumes "hash_internal_new hv cmp fk fv w = (Some h, w')"
  shows "table_ok hv cmp ok ki ih h" "hash_map ki h = Map.empty" "h_count h = 0" "h_free_value h = fv"
    "h_free_key h = fk" "may_oom w' \<Longrightarrow> may_oom w" "owned_values h w' = mset (freed_values w)"
    "owned_keys h w' = mset (freed_keys w)" "hash_entries h = []"
proof -
  obtain ok1 w1 where m: "malloc w = (ok1, w1)" by force
  with assms have h: "h = \<lparr>h_count = 0, h_hash_value = hv, h_key_compare = cmp, h_free_value = fv, h_free_key = fk,
      h_buckets = replicate n_buckets empty_bucket\<rparr>" "w' = w1"
    by (auto simp: hash_internal_new_def split: if_splits)
  have e: "concat (map bucket_list (replicate n empty_bucket)) = []" for n by (induction n) simp_all
  then show "hash_entries h = []" by (simp add: hash_entries_def h)
  with e show "table_ok hv cmp ok ki ih h" "hash_map ki h = Map.empty" "h_count h = 0" "h_free_value h = fv" "h_free_key h = fk"
    by (simp_all add: table_ok_def hash_ok_def hash_map_def hash_entries_def h)
  show "may_oom w' \<Longrightarrow> may_oom w" using malloc_snd [of w] m h by simp
  have "same_log w w'" using m h by (auto simp: malloc_def same_log_def split: list.splits)
  with \<open>hash_entries h = []\<close>
  show "owned_values h w' = mset (freed_values w)" "owned_keys h w' = mset (freed_keys w)"
    by (simp_all add: owned_values_def owned_keys_def same_log_def)
qed

text \<open>A world for the examples.\<close>

definition hash_quiet :: "('k, 'v) hworld" where
  "hash_quiet = \<lparr>oom_script = [], junk = \<lambda>_. NUL, freed_keys = [], freed_values = []\<rparr>"

lemma hash_quiet_simps [simp]: "\<not> may_oom hash_quiet" "freed_keys hash_quiet = []" "freed_values hash_quiet = []"
  "malloc hash_quiet = (True, hash_quiet)"
  by (simp_all add: hash_quiet_def may_oom_def malloc_def)

text \<open>Programs on a new table with string keys, whichever hash function the machine has.\<close>

lemma hash_str_run:
  assumes new: "hash_str_new crc x86_64 c fk fv w = (Some h, w0)"
    and cs: "\<forall>c\<in>set cs. NUL \<in> set (cmd_key c)" "length cs < 2 ^ 30"
  shows "\<exists>ih. wp False (hash_run cs h w0) (\<lambda>((rs, h'), w'). hash_ok (\<lambda>k. NUL \<in> set k) cstring ih h' \<and>
    h_free_value h' = fv \<and> h_free_key h' = fk \<and> trace_ok (may_oom w0) cstring cs rs Map.empty (hash_map cstring h') \<and>
    (fv \<longrightarrow> owned_values h' w' = mset (freed_values w) + mset (map snd (handed_over cs rs))) \<and>
    (fk \<longrightarrow> owned_keys h' w' = mset (freed_keys w) + mset (map fst (handed_over cs rs))))"
proof (cases crc)
  case None
  note n = hash_internal_new_ok [OF new [unfolded hash_str_new_def None option.case]]
  have "h_count h + length cs < 2 ^ 30" using n(3) cs(2) by simp
  note r = str_keys.hash_run [OF n(1) cs(1) this, of w0, unfolded n(2)]
  show ?thesis
    by (rule exI [of _ "murmur3_ref x86_64 c"], rule wp_weaken [OF r]) (use n(4,5,7,8) in \<open>auto simp: table_ok_def\<close>)
next
  case (Some u)
  note n = hash_internal_new_ok [OF new [unfolded hash_str_new_def Some option.case]]
  have "h_count h + length cs < 2 ^ 30" using n(3) cs(2) by simp
  note r = crc_keys.hash_run [OF n(1) cs(1) this, of w0, unfolded n(2)]
  show ?thesis
    by (rule exI [of _ "crc_ref u x86_64 c"], rule wp_weaken [OF r]) (use n(4,5,7,8) in \<open>auto simp: table_ok_def\<close>)
qed

text \<open>C6. A table with string keys gives, to every sequence of adds, unique adds, deletes and
  lookups, the replies of a finite map over the text of the keys, whatever the hash values
  collide on and whichever of the two hash functions the machine has; a call fails with ENOMEM only when memory is
  refused, and then changes nothing. \<open>hash_get_count\<close> is the size of the map.\<close>

theorem hash_str_program_refines:
  assumes new: "hash_str_new crc x86_64 c fk fv w = (Some h, w0)"
    and cs: "\<forall>c\<in>set cs. NUL \<in> set (cmd_key c)" "length cs < 2 ^ 30"
  shows "wp False (hash_run cs h w0) (\<lambda>((rs, h'), w').
    trace_ok (may_oom w0) cstring cs rs Map.empty (hash_map cstring h') \<and>
    hash_get_count h' = card (dom (hash_map cstring h')))"
proof -
  from hash_str_run [OF assms] obtain ih where r: "wp False (hash_run cs h w0) (\<lambda>((rs, h'), w').
    hash_ok (\<lambda>k. NUL \<in> set k) cstring ih h' \<and> h_free_value h' = fv \<and> h_free_key h' = fk \<and>
    trace_ok (may_oom w0) cstring cs rs Map.empty (hash_map cstring h') \<and>
    (fv \<longrightarrow> owned_values h' w' = mset (freed_values w) + mset (map snd (handed_over cs rs))) \<and>
    (fk \<longrightarrow> owned_keys h' w' = mset (freed_keys w) + mset (map fst (handed_over cs rs))))" by blast
  show ?thesis by (rule wp_weaken [OF r]) (auto simp: hash_count_card)
qed

theorem hash_str_program_refines_witness:
  "\<exists>h. hash_str_new None True 0 False False hash_quiet = (Some h, hash_quiet) \<and>
    (\<exists>h' w'. hash_run [Cmd_add (''ab'' @ [NUL]) (7 :: nat), Cmd_find (''ab'' @ [NUL, CHR ''x''])] h hash_quiet =
       Ok (([Status 0, Found (Some 7)], h'), w') \<and> hash_get_count h' = 1)"
proof -
  let ?cs = "[Cmd_add (''ab'' @ [NUL]) (7 :: nat), Cmd_find (''ab'' @ [NUL, CHR ''x''])]"
  obtain h :: "(string, nat) hash" where h: "hash_str_new None True 0 False False hash_quiet = (Some h, hash_quiet)"
    by (simp add: hash_str_new_def hash_internal_new_def)
  have "\<forall>c\<in>set ?cs. NUL \<in> set (cmd_key c)" "length ?cs < 2 ^ 30" by simp_all
  from hash_str_program_refines [OF h this]
  obtain rs h' w' where r: "hash_run ?cs h hash_quiet = Ok ((rs, h'), w')"
    "trace_ok False cstring ?cs rs Map.empty (hash_map cstring h')" "hash_get_count h' = card (dom (hash_map cstring h'))"
    by (auto simp: wp_total)
  obtain r1 r2 where "rs = [r1, r2]"
    using trace_ok_length [OF r(2)] by (auto simp: length_Suc_conv)
  with r(2) have "r1 = Status 0" "r2 = Found (Some 7)" "hash_map cstring h' = [''ab'' \<mapsto> (''ab'' @ [NUL], 7)]"
    by (simp_all add: cstring_eval)
  with r(1,3) h \<open>rs = [r1, r2]\<close> show ?thesis by simp
qed

text \<open>
  A table is filled, used and freed at the end. Every value that it took over has been passed to
  \<open>free_value\<close> exactly once, and nothing else has; so has every key to \<open>free_key\<close>, except that without \<open>free_value\<close>
  the keys that are still in the table at the end are not freed.
\<close>

definition frees_once :: "bool \<Rightarrow> bool \<Rightarrow> ('k, 'v) hash_cmd list \<Rightarrow> ('k, 'v) hash \<Rightarrow> ('k, 'v) hworld \<Rightarrow> bool" where
  "frees_once fk fv cs h w \<longleftrightarrow> wp False
    (res_bind (hash_run cs h w) (\<lambda>((rs, h'), w'). res_bind (hash_free (Some h') w') (\<lambda>w''. Ok (rs, h', w''))))
    (\<lambda>(rs, h', w''). (fv \<longrightarrow> mset (freed_values w'') = mset (map snd (handed_over cs rs))) \<and>
      (fk \<longrightarrow> mset (freed_keys w'') + (if fv then {#} else mset (map he_key (hash_entries h'))) =
        mset (map fst (handed_over cs rs))))"

lemma frees_onceI:
  assumes "wp False (hash_run cs h w) (\<lambda>((rs, h'), w'). hash_ok ok ki ih h' \<and> h_free_value h' = fv \<and> h_free_key h' = fk \<and>
    (fv \<longrightarrow> owned_values h' w' = mset (map snd (handed_over cs rs))) \<and>
    (fk \<longrightarrow> owned_keys h' w' = mset (map fst (handed_over cs rs))))"
  shows "frees_once fk fv cs h w"
  unfolding frees_once_def
proof (rule wp_bindI [OF assms], goal_cases)
  case (2 x)
  obtain rs h' w' where x: "x = ((rs, h'), w')" by (metis prod.exhaust)
  with 2 have h': "hash_ok ok ki ih h'" "h_free_value h' = fv" "h_free_key h' = fk"
    "fv \<Longrightarrow> owned_values h' w' = mset (map snd (handed_over cs rs))" "fk \<Longrightarrow> owned_keys h' w' = mset (map fst (handed_over cs rs))"
    by auto
  show ?case
  proof (cases fv)
    case True
    with hash_free_spec [OF h'(1), of w'] h'(2-5) show ?thesis unfolding x by auto
  next
    case False
    with h'(2,3,5) show ?thesis unfolding x by (auto simp: hash_free_no_value owned_keys_def add.commute)
  qed
qed simp

text \<open>C13. For a table with string keys, under either hash function, and a table with integer keys, with any combination of free functions: over the
  life of the table, every value that it took over is passed to \<open>free_value\<close> exactly once, if that is set, and every key
  to \<open>free_key\<close>, if both are set. With \<open>free_key\<close> only, the keys that are in the table when it is freed
  are leaked (hash.c:213), and exactly those.\<close>

theorem hash_lifetime_frees_once:
  assumes str: "hash_str_new crc x86_64 c fk fv w = (Some h, w0)" "freed_values w = []" "freed_keys w = []"
      "\<forall>c\<in>set cs. NUL \<in> set (cmd_key c)" "length cs < 2 ^ 30"
    and int: "hash_int_new c fk fv v = (Some g, v0)" "freed_values v = []" "freed_keys v = []" "length ds < 2 ^ 30"
  shows "frees_once fk fv cs h w0 \<and> frees_once fk fv ds g v0"
proof
  from hash_str_run [OF str(1,4,5)] obtain ih where r: "wp False (hash_run cs h w0) (\<lambda>((rs, h'), w').
    hash_ok (\<lambda>k. NUL \<in> set k) cstring ih h' \<and> h_free_value h' = fv \<and> h_free_key h' = fk \<and>
    trace_ok (may_oom w0) cstring cs rs Map.empty (hash_map cstring h') \<and>
    (fv \<longrightarrow> owned_values h' w' = mset (freed_values w) + mset (map snd (handed_over cs rs))) \<and>
    (fk \<longrightarrow> owned_keys h' w' = mset (freed_keys w) + mset (map fst (handed_over cs rs))))" by blast
  show "frees_once fk fv cs h w0" by (rule frees_onceI, rule wp_weaken [OF r]) (use str(2,3) in auto)
  note n = hash_internal_new_ok [OF int(1) [unfolded hash_int_new_def]]
  have "h_count g + length ds < 2 ^ 30" using n(3) int(4) by simp
  note r = int_keys.hash_run [OF n(1) _ this, of v0, simplified]
  show "frees_once fk fv ds g v0"
    by (rule frees_onceI, rule wp_weaken [OF r]) (use n int(2,3) in \<open>auto simp: table_ok_def\<close>)
qed

theorem hash_lifetime_frees_once_witness:
  "\<exists>(h :: (string, string) hash) (g :: (u64, string) hash).
    hash_str_new None True 1 True True hash_quiet = (Some h, hash_quiet) \<and> hash_int_new 1 True True hash_quiet = (Some g, hash_quiet) \<and>
    frees_once True True [Cmd_add (''k'' @ [NUL]) ''v'', Cmd_add (''k'' @ [NUL]) ''w''] h hash_quiet \<and>
    frees_once True True [Cmd_add 5 ''v'', Cmd_del 5] g hash_quiet"
proof -
  obtain h :: "(string, string) hash" where h: "hash_str_new None True 1 True True hash_quiet = (Some h, hash_quiet)"
    by (simp add: hash_str_new_def hash_internal_new_def)
  obtain g :: "(u64, string) hash" where g: "hash_int_new 1 True True hash_quiet = (Some g, hash_quiet)"
    by (simp add: hash_int_new_def hash_internal_new_def)
  from hash_lifetime_frees_once [OF h _ _ _ _ g, of "[Cmd_add (''k'' @ [NUL]) ''v'', Cmd_add (''k'' @ [NUL]) ''w'']" "[Cmd_add 5 ''v'', Cmd_del 5]"] h g
  show ?thesis by simp
qed

text \<open>C31. Iterating from \<open>hash_iter_init\<close> until \<open>hash_iter_next\<close> returns false ends after as many
  steps as the table counts entries, and visits every pair of the map exactly once.\<close>

theorem hash_iter_visits_all:
  assumes "hash_ok ok ki ih h"
  shows "\<exists>ps. iter_collect (hash_get_count h + 1) h hash_iter_init = Ok (Some ps) \<and>
    distinct (map (ki \<circ> fst) ps) \<and> map_of (map (\<lambda>p. (ki (fst p), p)) ps) = hash_map ki h"
proof -
  note i = iter_init [OF assms]
  let ?ps = "map (\<lambda>e. (he_key e, he_value e)) (hash_entries h)"
  have "iter_collect (hash_get_count h + 1) h hash_iter_init = Ok (Some ?ps)"
    using iter_collect_spec [OF assms conjunct1 [OF i], of "hash_get_count h + 1"] i assms
    by (simp add: hash_get_count_def hash_ok_def del: iter_collect.simps)
  moreover have "map_of (map (\<lambda>p. (ki (fst p), p)) ?ps) = hash_map ki h"
    by (simp add: hash_map_def entry_pair_def [abs_def] comp_def)
  ultimately show ?thesis
    using hash_entries_distinct [OF assms] by (intro exI [of _ ?ps]) (simp add: comp_def)
qed

text \<open>A table with one entry, in bucket 3.\<close>

definition one_entry :: "(u64, nat) hash" where
  "one_entry = \<lparr>h_count = 1, h_hash_value = (\<lambda>_. Ok 3), h_key_compare = hash_int_key_cmp, h_free_value = False,
     h_free_key = True, h_buckets = (replicate n_buckets empty_bucket)
       [3 := \<lparr>hb_entries = Some \<lparr>he_key = 9, he_value = 1, he_hashval = 3\<rparr> # replicate 63 None, hb_used = 1, hb_total = 64\<rparr>]\<rparr>"

lemma one_entry_ok: "hash_ok (\<lambda>_. True) id (\<lambda>_. 3) one_entry"
proof -
  let ?b = "\<lparr>hb_entries = Some \<lparr>he_key = 9 :: u64, he_value = 1 :: nat, he_hashval = 3\<rparr> # replicate 63 None, hb_used = 1, hb_total = 64\<rparr>"
  have b: "bucket_list ?b = [\<lparr>he_key = 9, he_value = 1, he_hashval = 3\<rparr>]" by (simp add: bucket_list_def)
  have ok: "bucket_ok (\<lambda>_. True) id (\<lambda>_. 3) 3 ?b"
    unfolding bucket_ok_def b by (simp add: bucket_pos_def n_buckets_def)
  have e: "concat (map bucket_list (replicate n (empty_bucket :: (u64, nat) hash_bucket))) = []" for n by (induction n) simp_all
  have u: "(replicate n_buckets empty_bucket)[3 := ?b] = replicate 3 empty_bucket @ ?b # replicate (n_buckets - 4) empty_bucket"
    by (subst upd_conv_take_nth_drop) (simp_all add: n_buckets_def)
  have "hash_entries one_entry = [\<lparr>he_key = 9, he_value = 1, he_hashval = 3\<rparr>]"
    unfolding hash_entries_def one_entry_def hash.simps u by (simp only: map_append concat_append list.map concat.simps e b) simp
  with ok show ?thesis
    by (auto simp: hash_ok_def one_entry_def nth_list_update n_buckets_def)
qed

theorem hash_iter_visits_all_witness:
  "\<exists>ps. iter_collect 2 one_entry hash_iter_init = Ok (Some ps) \<and> distinct (map (id \<circ> fst) ps)"
  using hash_iter_visits_all [OF one_entry_ok] by (auto simp: hash_get_count_def one_entry_def numeral_2_eq_2)

text \<open>A table with \<open>free_key\<close> but without \<open>free_value\<close> frees no key at all when it is
  freed.\<close>

theorem hash_free_keeps_keys:
  assumes "\<not> h_free_value h"
  shows "hash_free (Some h) w = Ok w"
  using assms by (rule hash_free_no_value)

theorem hash_free_keeps_keys_witness:
  "h_free_key one_entry \<and> hash_free (Some one_entry) hash_quiet = Ok hash_quiet"
  using hash_free_keeps_keys [of one_entry hash_quiet] by (simp add: one_entry_def)

text \<open>Integer keys are hashed without collisions: as soon as the constant is odd, as
  \<open>initialize_odd_constant\<close> makes it, the full hash of two keys is equal only when
  \<open>hash_int_key_cmp\<close> calls them equal.\<close>

theorem hash_int_collision_free:
  assumes "fst (initialize_odd_constant r) = c"
  shows "hash_int c k1 = hash_int c k2 \<longleftrightarrow> hash_int_key_cmp k1 k2 = Ok 0"
proof -
  have "bit (unat (r OR 1)) 0" by (simp add: bit_unsigned_iff bit_simps)
  then have "odd (unat c)" using assms by (simp add: initialize_odd_constant_def Let_def bit_0)
  then show ?thesis
    using int_keys.key_compare [of k1 k2] by (auto simp: hash_int_eq int_hash_inj)
qed

theorem hash_int_collision_free_witness:
  "hash_int 5 1 = hash_int 5 (2 ^ 32 + 1) \<longleftrightarrow> hash_int_key_cmp 1 (2 ^ 32 + 1) = Ok 0"
  using hash_int_collision_free [of 4 5 1 "2 ^ 32 + 1"] by (simp add: initialize_odd_constant_def)

text \<open>\<open>umull_overflow\<close> detects exactly the products that do not fit a \<open>size_t\<close>, and returns
  the others.\<close>

theorem umull_overflow_exact_product:
  assumes "a < 2 ^ 64" "b < 2 ^ 64"
  shows "umull_overflow a b = (if a * b < 2 ^ 64 then Some (a * b) else None)"
  using assms(2) by (rule umull_overflow_exact)

theorem umull_overflow_exact_product_witness:
  "umull_overflow (2 ^ 40) (2 ^ 23) = Some (2 ^ 63) \<and> umull_overflow (2 ^ 40) (2 ^ 24) = None"
  using umull_overflow_exact_product [of "2 ^ 40" "2 ^ 23"] umull_overflow_exact_product [of "2 ^ 40" "2 ^ 24"] by simp

end
