(* ===== verification/PtrHeap.thy ===== *)
theory PtrHeap
  imports Prelude
begin

text \<open>
  Linked structures: a heap of nodes by address, dereferencing with a check, and chains of
  nodes from one pointer to another, after the relational abstraction of lists on the heap.
  Address 0 is NULL.
\<close>

type_synonym ptr = nat
type_synonym 'n heap = "ptr \<rightharpoonup> 'n"

definition deref :: "'n heap \<Rightarrow> ptr \<Rightarrow> 'n cres" where
  "deref hp p = (if p = 0 then Err Fault else case hp p of None \<Rightarrow> Err Fault | Some n \<Rightarrow> Ok n)"

definition assign :: "'n heap \<Rightarrow> ptr \<Rightarrow> 'n \<Rightarrow> 'n heap cres" where
  "assign hp p n = (if p = 0 \<or> hp p = None then Err Fault else Ok (hp(p \<mapsto> n)))"

fun chain :: "('n \<Rightarrow> ptr) \<Rightarrow> 'n heap \<Rightarrow> ptr \<Rightarrow> ptr list \<Rightarrow> ptr \<Rightarrow> bool" where
  "chain nx hp p [] q \<longleftrightarrow> p = q"
| "chain nx hp p (a # as) q \<longleftrightarrow> p = a \<and> a \<noteq> 0 \<and> (case hp a of None \<Rightarrow> False | Some n \<Rightarrow> chain nx hp (nx n) as q)"

lemma deref_Some [simp]: "hp p = Some n \<Longrightarrow> p \<noteq> 0 \<Longrightarrow> deref hp p = Ok n"
  by (simp add: deref_def)

lemma deref_0 [simp]: "deref hp 0 = Err Fault"
  by (simp add: deref_def)

lemma assign_Some [simp]: "hp p = Some m \<Longrightarrow> p \<noteq> 0 \<Longrightarrow> assign hp p n = Ok (hp(p \<mapsto> n))"
  by (simp add: assign_def)

lemma chain_append: "chain nx hp p (as @ bs) q \<longleftrightarrow> (\<exists>r. chain nx hp p as r \<and> chain nx hp r bs q)"
  by (induction as arbitrary: p) (auto split: option.splits)

lemma chain_upd [simp]: "a \<notin> set as \<Longrightarrow> chain nx (hp(a := n)) p as q = chain nx hp p as q"
  by (induction as arbitrary: p) (auto split: option.splits)

lemma chain_cong: "\<forall>a\<in>set as. hp a = hp' a \<Longrightarrow> chain nx hp p as q = chain nx hp' p as q"
  by (induction as arbitrary: p) (auto split: option.splits)

lemma chain_node: "chain nx hp p as q \<Longrightarrow> a \<in> set as \<Longrightarrow> a \<noteq> 0 \<and> (\<exists>n. hp a = Some n)"
  by (induction as arbitrary: p) (auto split: option.splits)

lemma chain_start: "chain nx hp p as 0 \<Longrightarrow> p = 0 \<longleftrightarrow> as = []"
  by (cases as) auto

text \<open>Cutting a chain at a node, and going on elsewhere from a node.\<close>

lemma chain_split:
  assumes "chain nx hp p (as @ a # bs) q"
  obtains n where "chain nx hp p as a" "a \<noteq> 0" "hp a = Some n" "chain nx hp (nx n) bs q"
  using assms by (auto simp: chain_append split: option.splits)

lemma chain_relink:
  assumes "chain nx hp p (as @ [a]) q" "distinct (as @ [a])" "nx n' = r" "chain nx hp r bs s" "a \<notin> set bs"
  shows "chain nx (hp(a \<mapsto> n')) p (as @ a # bs) s"
  using assms by (auto simp: chain_append split: option.splits)

end
