(* ===== verification/Hmap.thy ===== *)
theory Hmap
  imports PtrHeap BitTricks CMem
begin

text \<open>
  The intrusive hash map of src/Clang/map/ovs/hmap.c and hmap.h. Nodes live in a heap. The
  field \<open>buckets\<close> of a map points to its own field \<open>one\<close>, to the field \<open>one\<close> of another map
  (just after a structure was copied), or to a block of bucket heads. A \<open>struct hmap_node **\<close>
  is the address of a bucket head or of the field \<open>next\<close> of a node. A loop along a bucket is
  given one step more than the map counts nodes; a bucket longer than that can only be a
  cycle, and the loop that does not end is a \<open>Fault\<close> here.
\<close>

section \<open>State\<close>

record hmap_node =
  hn_hash :: nat
  hn_next :: ptr

datatype buckets = Own_one | Other_one | Block "ptr list"

record hmap =
  hm_buckets :: buckets
  hm_one :: ptr
  hm_mask :: nat
  hm_n :: nat

type_synonym nheap = "hmap_node heap"

definition hmap_node_hash :: "nheap \<Rightarrow> ptr \<Rightarrow> nat cres" where
  "hmap_node_hash hp p = res_bind (deref hp p) (\<lambda>n. Ok (hn_hash n))"

definition HMAP_NODE_NULL :: ptr where
  "HMAP_NODE_NULL = 1"

definition hmap_node_is_null :: "nheap \<Rightarrow> ptr \<Rightarrow> bool cres" where
  "hmap_node_is_null hp p = res_bind (deref hp p) (\<lambda>n. Ok (hn_next n = HMAP_NODE_NULL))"

definition hmap_node_nullify :: "nheap \<Rightarrow> ptr \<Rightarrow> nheap cres" where
  "hmap_node_nullify hp p = res_bind (deref hp p) (\<lambda>n. assign hp p (n\<lparr>hn_next := HMAP_NODE_NULL\<rparr>))"

definition is_pow2 :: "nat \<Rightarrow> bool" where
  "is_pow2 x \<longleftrightarrow> x \<noteq> 0 \<and> x AND (x - 1) = 0"

section \<open>Bucket heads\<close>

definition read_bucket :: "hmap \<Rightarrow> nat \<Rightarrow> ptr cres" where
  "read_bucket h i =
     (case hm_buckets h of
        Own_one \<Rightarrow> if i = 0 then Ok (hm_one h) else Err Fault
      | Other_one \<Rightarrow> Err Fault
      | Block bs \<Rightarrow> if i < length bs then Ok (bs ! i) else Err Fault)"

definition write_bucket :: "hmap \<Rightarrow> nat \<Rightarrow> ptr \<Rightarrow> hmap cres" where
  "write_bucket h i p =
     (case hm_buckets h of
        Own_one \<Rightarrow> if i = 0 then Ok (h\<lparr>hm_one := p\<rparr>) else Err Fault
      | Other_one \<Rightarrow> Err Fault
      | Block bs \<Rightarrow> if i < length bs then Ok (h\<lparr>hm_buckets := Block (bs[i := p])\<rparr>) else Err Fault)"

datatype slot = Bucket nat | Next_of ptr

definition read_slot :: "hmap \<Rightarrow> nheap \<Rightarrow> slot \<Rightarrow> ptr cres" where
  "read_slot h hp s =
     (case s of Bucket i \<Rightarrow> read_bucket h i | Next_of p \<Rightarrow> res_bind (deref hp p) (\<lambda>n. Ok (hn_next n)))"

definition write_slot :: "hmap \<Rightarrow> nheap \<Rightarrow> slot \<Rightarrow> ptr \<Rightarrow> (hmap \<times> nheap) cres" where
  "write_slot h hp s q =
     (case s of
        Bucket i \<Rightarrow> res_bind (write_bucket h i q) (\<lambda>h. Ok (h, hp))
      | Next_of p \<Rightarrow> res_bind (deref hp p) (\<lambda>n. res_bind (assign hp p (n\<lparr>hn_next := q\<rparr>)) (\<lambda>hp. Ok (h, hp))))"

section \<open>Initialization\<close>

definition hmap_init :: hmap where
  "hmap_init = \<lparr>hm_buckets = Own_one, hm_one = 0, hm_mask = 0, hm_n = 0\<rparr>"

text \<open>The block that \<open>hmap_destroy\<close> frees, if any.\<close>

definition hmap_destroy :: "hmap option \<Rightarrow> ptr list option" where
  "hmap_destroy p = (case p of None \<Rightarrow> None | Some h \<Rightarrow> (case hm_buckets h of Block bs \<Rightarrow> Some bs | _ \<Rightarrow> None))"

definition hmap_clear :: "hmap \<Rightarrow> hmap cres" where
  "hmap_clear h =
     (if 0 < hm_n h then
        let h = h\<lparr>hm_n := 0\<rparr> in
        (case hm_buckets h of
           Own_one \<Rightarrow> if hm_mask h = 0 then Ok (h\<lparr>hm_one := 0\<rparr>) else Err Fault
         | Other_one \<Rightarrow> Err Fault
         | Block bs \<Rightarrow>
             if hm_mask h + 1 \<le> length bs
             then Ok (h\<lparr>hm_buckets := Block (replicate (hm_mask h + 1) 0 @ drop (hm_mask h + 1) bs)\<rparr>) else Err Fault)
      else Ok h)"

definition hmap_moved :: "hmap \<Rightarrow> hmap" where
  "hmap_moved h = (if hm_mask h = 0 then h\<lparr>hm_buckets := Own_one\<rparr> else h)"

text \<open>A copied structure points to the \<open>one\<close> of the structure it was copied from.\<close>

definition copy_hmap :: "hmap \<Rightarrow> hmap" where
  "copy_hmap h = (case hm_buckets h of Own_one \<Rightarrow> h\<lparr>hm_buckets := Other_one\<rparr> | _ \<Rightarrow> h)"

definition hmap_swap :: "hmap \<times> hmap \<Rightarrow> hmap \<times> hmap" where
  "hmap_swap ab = (case ab of (a, b) \<Rightarrow> (hmap_moved (copy_hmap b), hmap_moved (copy_hmap a)))"

definition hmap_count :: "hmap \<Rightarrow> nat" where
  "hmap_count h = hm_n h"

definition hmap_capacity :: "hmap \<Rightarrow> nat" where
  "hmap_capacity h = w64 (hm_mask h * 2 + 1)"

definition hmap_is_empty :: "hmap \<Rightarrow> bool" where
  "hmap_is_empty h \<longleftrightarrow> hm_n h = 0"

section \<open>Insertion\<close>

definition hmap_insert_fast :: "hmap \<Rightarrow> nheap \<Rightarrow> ptr \<Rightarrow> nat \<Rightarrow> (hmap \<times> nheap) cres" where
  "hmap_insert_fast h hp node hash =
     res_bind (deref hp node) (\<lambda>nd.
     res_bind (read_bucket h (hash AND hm_mask h)) (\<lambda>b.
     res_bind (assign hp node (nd\<lparr>hn_hash := hash, hn_next := b\<rparr>)) (\<lambda>hp.
     res_bind (write_bucket h (hash AND hm_mask h) node) (\<lambda>h.
     Ok (h\<lparr>hm_n := w64 (hm_n h + 1)\<rparr>, hp)))))"

section \<open>Resizing\<close>

fun rehash_chain :: "nat \<Rightarrow> hmap \<Rightarrow> nheap \<Rightarrow> ptr \<Rightarrow> (hmap \<times> nheap) cres" where
  "rehash_chain fuel tmp hp node =
     (if node = 0 then Ok (tmp, hp)
      else case fuel of 0 \<Rightarrow> Err Fault
      | Suc fuel \<Rightarrow>
        res_bind (deref hp node) (\<lambda>nd.
        res_bind (hmap_insert_fast tmp hp node (hn_hash nd)) (\<lambda>(tmp, hp). rehash_chain fuel tmp hp (hn_next nd))))"

fun rehash_buckets :: "hmap \<Rightarrow> nat \<Rightarrow> nat \<Rightarrow> hmap \<Rightarrow> nheap \<Rightarrow> (hmap \<times> nheap) cres" where
  "rehash_buckets h i 0 tmp hp = Ok (tmp, hp)"
| "rehash_buckets h i (Suc n) tmp hp =
     res_bind (read_bucket h i) (\<lambda>p.
     res_bind (rehash_chain (hm_n h) tmp hp p) (\<lambda>(tmp, hp). rehash_buckets h (Suc i) n tmp hp))"

text \<open>The result of \<open>malloc\<close> is not checked: NULL faults at the first bucket that is cleared.\<close>

definition resize_hmap :: "hmap \<Rightarrow> nheap \<Rightarrow> nat \<Rightarrow> world \<Rightarrow> ((hmap \<times> nheap) \<times> world) cres" where
  "resize_hmap h hp new_mask w =
     res_bind (assert_that (is_pow2 (w64 (new_mask + 1)))) (\<lambda>_.
     let tmp = hmap_init;
         (ok, w) = (if new_mask \<noteq> 0 then malloc w else (True, w)) in
     res_bind
       (if new_mask = 0 then Ok tmp
        else if ok then Ok (tmp\<lparr>hm_buckets := Block (replicate (new_mask + 1) 0), hm_mask := new_mask\<rparr>)
        else Err Fault) (\<lambda>tmp.
     res_bind (rehash_buckets h 0 (hm_mask h + 1) tmp hp) (\<lambda>(tmp, hp).
     let (h, tmp) = hmap_swap (h, tmp) in Ok ((h, hp), w))))"

definition calc_mask :: "nat \<Rightarrow> nat" where
  "calc_mask capacity =
     (let mask = smear 32 (smear 16 (smear 8 (smear 4 (smear 2 (smear 1 (of_nat (capacity div 2)))))));
          mask = mask OR push_bit 1 (mask AND 1)
      in unat mask)"

definition hmap_expand_at :: "hmap \<Rightarrow> nheap \<Rightarrow> world \<Rightarrow> ((hmap \<times> nheap) \<times> world) cres" where
  "hmap_expand_at h hp w =
     (let new_mask = calc_mask (hm_n h) in
      if hm_mask h < new_mask then resize_hmap h hp new_mask w else Ok ((h, hp), w))"

definition hmap_shrink_at :: "hmap \<Rightarrow> nheap \<Rightarrow> world \<Rightarrow> ((hmap \<times> nheap) \<times> world) cres" where
  "hmap_shrink_at h hp w =
     (let new_mask = calc_mask (hm_n h) in
      if new_mask < hm_mask h then resize_hmap h hp new_mask w else Ok ((h, hp), w))"

definition hmap_reserve_at :: "hmap \<Rightarrow> nheap \<Rightarrow> nat \<Rightarrow> world \<Rightarrow> ((hmap \<times> nheap) \<times> world) cres" where
  "hmap_reserve_at h hp n w =
     (let new_mask = calc_mask n in
      if hm_mask h < new_mask then resize_hmap h hp new_mask w else Ok ((h, hp), w))"

definition hmap_insert_at :: "hmap \<Rightarrow> nheap \<Rightarrow> ptr \<Rightarrow> nat \<Rightarrow> world \<Rightarrow> ((hmap \<times> nheap) \<times> world) cres" where
  "hmap_insert_at h hp node hash w =
     res_bind (hmap_insert_fast h hp node hash) (\<lambda>(h, hp).
     if hm_mask h < hm_n h div 2 then hmap_expand_at h hp w else Ok ((h, hp), w))"

section \<open>Removal and replacement\<close>

text \<open>The slot that points to a node.\<close>

fun find_slot :: "nat \<Rightarrow> hmap \<Rightarrow> nheap \<Rightarrow> slot \<Rightarrow> ptr \<Rightarrow> slot cres" where
  "find_slot fuel h hp s node =
     res_bind (read_slot h hp s) (\<lambda>p.
     if p = node then Ok s
     else case fuel of 0 \<Rightarrow> Err Fault | Suc fuel \<Rightarrow> find_slot fuel h hp (Next_of p) node)"

definition hmap_remove :: "hmap \<Rightarrow> nheap \<Rightarrow> ptr \<Rightarrow> (hmap \<times> nheap) cres" where
  "hmap_remove h hp node =
     res_bind (deref hp node) (\<lambda>nd.
     res_bind (find_slot (hm_n h) h hp (Bucket (hn_hash nd AND hm_mask h)) node) (\<lambda>s.
     res_bind (write_slot h hp s (hn_next nd)) (\<lambda>(h, hp).
     Ok (h\<lparr>hm_n := sub64 (hm_n h) 1\<rparr>, hp))))"

definition hmap_replace :: "hmap \<Rightarrow> nheap \<Rightarrow> ptr \<Rightarrow> ptr \<Rightarrow> (hmap \<times> nheap) cres" where
  "hmap_replace h hp old_node new_node =
     res_bind (deref hp old_node) (\<lambda>old.
     res_bind (find_slot (hm_n h) h hp (Bucket (hn_hash old AND hm_mask h)) old_node) (\<lambda>s.
     res_bind (write_slot h hp s new_node) (\<lambda>(h, hp).
     res_bind (deref hp old_node) (\<lambda>old.
     res_bind (deref hp new_node) (\<lambda>new.
     res_bind (assign hp new_node (new\<lparr>hn_hash := hn_hash old, hn_next := hn_next old\<rparr>)) (\<lambda>hp.
     Ok (h, hp)))))))"

text \<open>\<open>node\<close> already holds the copy of the old node's fields.\<close>

definition hmap_node_moved :: "hmap \<Rightarrow> nheap \<Rightarrow> ptr \<Rightarrow> ptr \<Rightarrow> (hmap \<times> nheap) cres" where
  "hmap_node_moved h hp old_node node =
     res_bind (deref hp node) (\<lambda>nd.
     res_bind (find_slot (hm_n h) h hp (Bucket (hn_hash nd AND hm_mask h)) old_node) (\<lambda>s.
     write_slot h hp s node))"

section \<open>Search\<close>

text \<open>The loop of \<open>hmap_next_with_hash__\<close>.\<close>

fun next_with_hash :: "nat \<Rightarrow> nheap \<Rightarrow> ptr \<Rightarrow> nat \<Rightarrow> ptr cres" where
  "next_with_hash fuel hp node hash =
     (if node = 0 then Ok 0
      else res_bind (deref hp node) (\<lambda>nd.
        if hn_hash nd = hash then Ok node
        else case fuel of 0 \<Rightarrow> Err Fault | Suc fuel \<Rightarrow> next_with_hash fuel hp (hn_next nd) hash))"

definition hmap_first_with_hash :: "hmap \<Rightarrow> nheap \<Rightarrow> nat \<Rightarrow> ptr cres" where
  "hmap_first_with_hash h hp hash =
     res_bind (read_bucket h (hash AND hm_mask h)) (\<lambda>p. next_with_hash (hm_n h) hp p hash)"

definition hmap_next_with_hash :: "hmap \<Rightarrow> nheap \<Rightarrow> ptr \<Rightarrow> ptr cres" where
  "hmap_next_with_hash h hp node =
     res_bind (deref hp node) (\<lambda>nd. next_with_hash (hm_n h) hp (hn_next nd) (hn_hash nd))"

definition hmap_first_in_bucket :: "hmap \<Rightarrow> nat \<Rightarrow> ptr cres" where
  "hmap_first_in_bucket h hash = read_bucket h (hash AND hm_mask h)"

definition hmap_next_in_bucket :: "nheap \<Rightarrow> ptr \<Rightarrow> ptr cres" where
  "hmap_next_in_bucket hp node = res_bind (deref hp node) (\<lambda>nd. Ok (hn_next nd))"

fun contains_loop :: "nat \<Rightarrow> nheap \<Rightarrow> ptr \<Rightarrow> ptr \<Rightarrow> bool cres" where
  "contains_loop fuel hp p node =
     (if p = 0 then Ok False
      else if p = node then Ok True
      else case fuel of 0 \<Rightarrow> Err Fault
      | Suc fuel \<Rightarrow> res_bind (deref hp p) (\<lambda>nd. contains_loop fuel hp (hn_next nd) node))"

definition hmap_contains :: "hmap \<Rightarrow> nheap \<Rightarrow> ptr \<Rightarrow> bool cres" where
  "hmap_contains h hp node =
     res_bind (deref hp node) (\<lambda>nd.
     res_bind (hmap_first_in_bucket h (hn_hash nd)) (\<lambda>p. contains_loop (hm_n h) hp p node))"

section \<open>Iteration\<close>

text \<open>The first node in the buckets from \<open>start\<close> on; \<open>n\<close> is the number of buckets left.\<close>

fun first_from :: "hmap \<Rightarrow> nat \<Rightarrow> nat \<Rightarrow> ptr cres" where
  "first_from h i 0 = Ok 0"
| "first_from h i (Suc n) = res_bind (read_bucket h i) (\<lambda>p. if p \<noteq> 0 then Ok p else first_from h (Suc i) n)"

definition hmap_next_aux :: "hmap \<Rightarrow> nat \<Rightarrow> ptr cres" where
  "hmap_next_aux h start = first_from h start (hm_mask h + 1 - start)"

definition hmap_first :: "hmap \<Rightarrow> ptr cres" where
  "hmap_first h = hmap_next_aux h 0"

definition hmap_next :: "hmap \<Rightarrow> nheap \<Rightarrow> ptr \<Rightarrow> ptr cres" where
  "hmap_next h hp node =
     res_bind (deref hp node) (\<lambda>nd.
     if hn_next nd \<noteq> 0 then Ok (hn_next nd) else hmap_next_aux h (w64 ((hn_hash nd AND hm_mask h) + 1)))"

text \<open>\<open>hmap_at_position\<close>: the node at an offset of a bucket, and the position after it.\<close>

fun node_at :: "nat \<Rightarrow> nheap \<Rightarrow> ptr \<Rightarrow> nat \<Rightarrow> nat \<Rightarrow> ptr cres" where
  "node_at fuel hp node n_idx offset =
     (if node = 0 then Ok 0
      else if n_idx = offset then Ok node
      else case fuel of 0 \<Rightarrow> Err Fault
      | Suc fuel \<Rightarrow> res_bind (deref hp node) (\<lambda>nd. node_at fuel hp (hn_next nd) (n_idx + 1) offset))"

fun at_position_loop :: "hmap \<Rightarrow> nheap \<Rightarrow> nat \<Rightarrow> nat \<Rightarrow> nat \<Rightarrow> (ptr \<times> nat \<times> nat) cres" where
  "at_position_loop h hp b_idx 0 offset = Ok (0, 0, 0)"
| "at_position_loop h hp b_idx (Suc n) offset =
     res_bind (read_bucket h b_idx) (\<lambda>p.
     res_bind (node_at (hm_n h) hp p 0 offset) (\<lambda>node.
     if node \<noteq> 0 then
       res_bind (deref hp node) (\<lambda>nd.
       if hn_next nd \<noteq> 0 then Ok (node, w32 (hn_hash nd AND hm_mask h), w32 (offset + 1))
       else Ok (node, w32 ((hn_hash nd AND hm_mask h) + 1), 0))
     else at_position_loop h hp (Suc b_idx) n 0))"

definition hmap_at_position :: "hmap \<Rightarrow> nheap \<Rightarrow> nat \<Rightarrow> nat \<Rightarrow> (ptr \<times> nat \<times> nat) cres" where
  "hmap_at_position h hp bucketp offsetp =
     at_position_loop h hp bucketp (hm_mask h + 1 - bucketp) offsetp"

declare rehash_chain.simps [simp del] find_slot.simps [simp del] next_with_hash.simps [simp del]
  contains_loop.simps [simp del] node_at.simps [simp del]

end
