(* ===== verification/HmapSpec.thy ===== *)
theory HmapSpec
  imports Hmap "HOL-Library.Multiset"
begin

text \<open>
  What a well-formed map of src/Clang/map/ovs/hmap.c is, as a relation between the heap, the
  structure and the lists of the nodes in its buckets, and the operations that insert,
  remove, replace and search.
\<close>

section \<open>Lists of lists\<close>

lemma concat_split:
  assumes "i < length nss"
  shows "concat (nss[i := ns]) = concat (take i nss) @ ns @ concat (drop (Suc i) nss)"
    "concat nss = concat (take i nss) @ nss ! i @ concat (drop (Suc i) nss)"
  by (subst upd_conv_take_nth_drop [OF assms], simp) (subst (1) id_take_nth_drop [OF assms], simp)

lemma distinct_concat_update:
  assumes "distinct (concat nss)" "i < length nss" "distinct ns" "set ns \<inter> set (concat nss) \<subseteq> set (nss ! i)"
  shows "distinct (concat (nss[i := ns]))"
proof -
  let ?A = "set (concat (take i nss))" and ?B = "set (nss ! i)" and ?C = "set (concat (drop (Suc i) nss))"
  have d: "?A \<inter> ?B = {}" "?A \<inter> ?C = {}" "?B \<inter> ?C = {}" "distinct (concat (take i nss))" "distinct (concat (drop (Suc i) nss))"
    using assms(1) unfolding concat_split(2) [OF assms(2)] by auto
  have "set ns \<inter> (?A \<union> ?B \<union> ?C) \<subseteq> ?B"
    using assms(4) unfolding concat_split(2) [OF assms(2)] by (simp add: Un_assoc)
  with d have "set ns \<inter> ?A = {}" "set ns \<inter> ?C = {}" by blast+
  with d assms(3) show ?thesis unfolding concat_split(1) [OF assms(2)] by (simp add: Int_Un_distrib Int_commute)
qed

lemma mset_concat_update:
  "i < length nss \<Longrightarrow> mset (concat (nss[i := ns])) + mset (nss ! i) = mset (concat nss) + mset ns"
  by (simp add: concat_split del: mset_concat)

lemma mset_concat_insert:
  "i < length nss \<Longrightarrow> nss ! i = as @ bs \<Longrightarrow> mset (concat (nss[i := as @ b # bs])) = add_mset b (mset (concat nss))"
  using mset_concat_update [of i nss "as @ b # bs"] by (simp del: mset_concat)

lemma set_concat_insert:
  "i < length nss \<Longrightarrow> nss ! i = as @ bs \<Longrightarrow> set (concat (nss[i := as @ b # bs])) = insert b (set (concat nss))"
  by (drule (1) mset_concat_insert [of _ _ _ _ b], drule arg_cong [of _ _ set_mset]) (simp only: set_mset_mset set_mset_add_mset_insert)

lemma concat_disjoint:
  assumes "distinct (concat nss)" "i < length nss" "j < length nss" "i \<noteq> j" "a \<in> set (nss ! i)"
  shows "a \<notin> set (nss ! j)"
proof
  assume "a \<in> set (nss ! j)"
  then have "a \<in> set (concat (take i nss)) \<or> a \<in> set (concat (drop (Suc i) nss))"
  proof (cases "j < i")
    case True
    then have "nss ! j \<in> set (take i nss)" using assms(2) by (auto simp: in_set_conv_nth intro!: exI [of _ j])
    with \<open>a \<in> set (nss ! j)\<close> show ?thesis by auto
  next
    case False
    then have "nss ! j \<in> set (drop (Suc i) nss)"
      using assms(3,4) by (auto simp: in_set_conv_nth intro!: exI [of _ "j - Suc i"])
    with \<open>a \<in> set (nss ! j)\<close> show ?thesis by auto
  qed
  with assms(1,5) show False unfolding concat_split(2) [OF assms(2)] by auto
qed

section \<open>Well-formed maps\<close>

definition bucket_heads :: "hmap \<Rightarrow> ptr list" where
  "bucket_heads h = (case hm_buckets h of Own_one \<Rightarrow> [hm_one h] | Other_one \<Rightarrow> [] | Block bs \<Rightarrow> bs)"

definition hashed_to :: "nheap \<Rightarrow> nat \<Rightarrow> nat \<Rightarrow> ptr \<Rightarrow> bool" where
  "hashed_to hp m i a \<longleftrightarrow> (case hp a of None \<Rightarrow> False | Some nd \<Rightarrow> hn_hash nd AND m = i)"

definition hmap_shape :: "hmap \<Rightarrow> bool" where
  "hmap_shape h \<longleftrightarrow> (\<exists>k. hm_mask h + 1 = 2 ^ k) \<and> hm_mask h < 2 ^ 62 \<and>
     (case hm_buckets h of Own_one \<Rightarrow> hm_mask h = 0 | Other_one \<Rightarrow> False | Block bs \<Rightarrow> hm_mask h \<noteq> 0 \<and> length bs = hm_mask h + 1)"

definition hmap_rep :: "nheap \<Rightarrow> hmap \<Rightarrow> ptr list list \<Rightarrow> bool" where
  "hmap_rep hp h nss \<longleftrightarrow> hmap_shape h \<and> length nss = hm_mask h + 1 \<and>
     (\<forall>i<length nss. chain hn_next hp (bucket_heads h ! i) (nss ! i) 0 \<and> (\<forall>a\<in>set (nss ! i). hashed_to hp (hm_mask h) i a)) \<and>
     distinct (concat nss) \<and> hm_n h = length (concat nss) \<and> hm_n h < 2 ^ 62"

lemma length_bucket_heads: "hmap_shape h \<Longrightarrow> length (bucket_heads h) = hm_mask h + 1"
  by (auto simp: hmap_shape_def bucket_heads_def split: buckets.splits)

lemma read_bucket_ok: "hmap_shape h \<Longrightarrow> i \<le> hm_mask h \<Longrightarrow> read_bucket h i = Ok (bucket_heads h ! i)"
  by (auto simp: hmap_shape_def bucket_heads_def read_bucket_def split: buckets.splits)

lemma write_bucket_ok:
  assumes "hmap_shape h" "i \<le> hm_mask h"
  shows "\<exists>h'. write_bucket h i p = Ok h' \<and> hmap_shape h' \<and> bucket_heads h' = (bucket_heads h)[i := p] \<and>
    hm_mask h' = hm_mask h \<and> hm_n h' = hm_n h"
  using assms by (auto simp: hmap_shape_def bucket_heads_def write_bucket_def split: buckets.splits)

lemma hmap_shape_n [simp]: "hmap_shape (h\<lparr>hm_n := n\<rparr>) = hmap_shape h" "bucket_heads (h\<lparr>hm_n := n\<rparr>) = bucket_heads h"
  by (simp_all add: hmap_shape_def bucket_heads_def split: buckets.splits)

lemma and_mask_le: "(x::nat) AND m \<le> m"
  by (metis and.commute and_nat_def le_nat_iff nat_le_iff AND_upper2 of_nat_0_le_iff nat_int)

lemma hmap_rep_bucket:
  assumes "hmap_rep hp h nss" "i \<le> hm_mask h"
  shows "read_bucket h i = Ok (bucket_heads h ! i)" "chain hn_next hp (bucket_heads h ! i) (nss ! i) 0" "i < length nss"
    "length (nss ! i) \<le> hm_n h"
proof -
  show i: "i < length nss" using assms by (simp add: hmap_rep_def)
  show "read_bucket h i = Ok (bucket_heads h ! i)" using assms by (simp add: hmap_rep_def read_bucket_ok)
  show "chain hn_next hp (bucket_heads h ! i) (nss ! i) 0" using assms i by (simp add: hmap_rep_def)
  show "length (nss ! i) \<le> hm_n h"
    using assms(1) arg_cong [OF concat_split(2) [OF i], of length] by (simp add: hmap_rep_def)
qed

lemma hmap_rep_node:
  assumes "hmap_rep hp h nss" "a \<in> set (concat nss)"
  obtains nd i where "hp a = Some nd" "a \<noteq> 0" "i = (hn_hash nd AND hm_mask h)" "i \<le> hm_mask h" "a \<in> set (nss ! i)"
proof -
  obtain ns where "ns \<in> set nss" "a \<in> set ns" using assms(2) by auto
  then obtain i where i: "i < length nss" "a \<in> set (nss ! i)" by (metis in_set_conv_nth)
  then have c: "chain hn_next hp (bucket_heads h ! i) (nss ! i) 0" "hashed_to hp (hm_mask h) i a"
    using assms(1) by (simp_all add: hmap_rep_def)
  obtain nd where "hp a = Some nd" "a \<noteq> 0" using chain_node [OF c(1) i(2)] by auto
  with c(2) i assms(1) show thesis by (intro that [of nd i]) (auto simp: hashed_to_def hmap_rep_def)
qed

text \<open>One bucket changes, the nodes of the others stay as they are.\<close>

lemma hmap_rep_update:
  assumes r: "hmap_rep hp h nss" and i: "i \<le> hm_mask h"
    and h': "hmap_shape h'" "bucket_heads h' = (bucket_heads h)[i := p]" "hm_mask h' = hm_mask h"
    and other: "\<And>j a. j < length nss \<Longrightarrow> j \<noteq> i \<Longrightarrow> a \<in> set (nss ! j) \<Longrightarrow> hp' a = hp a"
    and ns: "chain hn_next hp' p ns 0" "\<forall>a\<in>set ns. hashed_to hp' (hm_mask h) i a" "distinct ns"
      "set ns \<inter> set (concat nss) \<subseteq> set (nss ! i)"
    and n: "hm_n h' + length (nss ! i) = hm_n h + length ns" "hm_n h' < 2 ^ 62"
  shows "hmap_rep hp' h' (nss[i := ns])"
proof -
  have l: "i < length nss" "length nss = hm_mask h + 1" "length (bucket_heads h) = length nss"
    using r i length_bucket_heads [of h] by (simp_all add: hmap_rep_def)
  have "chain hn_next hp' (bucket_heads h' ! j) (nss[i := ns] ! j) 0 \<and>
      (\<forall>a\<in>set (nss[i := ns] ! j). hashed_to hp' (hm_mask h) j a)" if "j < length nss" for j
  proof (cases "j = i")
    case True
    with ns l that h'(2) show ?thesis by simp
  next
    case False
    have "chain hn_next hp (bucket_heads h ! j) (nss ! j) 0" "\<forall>a\<in>set (nss ! j). hashed_to hp (hm_mask h) j a"
      using r that by (simp_all add: hmap_rep_def)
    with False that other [OF that False] l h'(2) show ?thesis
      by (auto simp: hashed_to_def cong: chain_cong [of _ hp' hp])
  qed
  moreover have "distinct (concat (nss[i := ns]))"
    using r l ns by (intro distinct_concat_update) (auto simp: hmap_rep_def)
  moreover have "hm_n h' = length (concat (nss[i := ns]))"
    using n r arg_cong [OF mset_concat_update [OF l(1), of ns], of size] by (simp add: hmap_rep_def)
  ultimately show ?thesis
    using h' n l by (simp add: hmap_rep_def)
qed

text \<open>Nodes outside the map can change freely.\<close>

lemma hmap_rep_other:
  assumes r: "hmap_rep hp h nss" and e: "\<And>a. a \<in> set (concat nss) \<Longrightarrow> hp' a = hp a"
  shows "hmap_rep hp' h nss"
proof -
  have "hp' a = hp a" if "i < length nss" "a \<in> set (nss ! i)" for a i
    using e nth_mem [OF that(1)] that(2) by auto
  then show ?thesis using r unfolding hmap_rep_def hashed_to_def by (auto simp: chain_cong [of _ hp' hp])
qed

section \<open>Insertion\<close>

lemma hashed_to_other: "a \<noteq> b \<Longrightarrow> hashed_to (hp(b := x)) m i a = hashed_to hp m i a"
  by (simp add: hashed_to_def)

lemma hmap_insert_fast_spec:
  fixes x :: nat
  assumes r: "hmap_rep hp h nss" and a: "hp a = Some nd" "a \<noteq> 0" "a \<notin> set (concat nss)" and n: "hm_n h + 1 < 2 ^ 62"
  defines "i \<equiv> x AND hm_mask h"
  shows "\<exists>h'. hmap_insert_fast h hp a x = Ok (h', hp(a \<mapsto> nd\<lparr>hn_hash := x, hn_next := bucket_heads h ! i\<rparr>)) \<and>
    hmap_rep (hp(a \<mapsto> nd\<lparr>hn_hash := x, hn_next := bucket_heads h ! i\<rparr>)) h' (nss[i := a # nss ! i]) \<and>
    hm_mask h' = hm_mask h \<and> hm_n h' = hm_n h + 1"
proof -
  have i: "i \<le> hm_mask h" by (simp add: i_def and_mask_le)
  note b = hmap_rep_bucket [OF r i]
  have an: "a \<notin> set (nss ! j)" if "j < length nss" for j
    using a(3) nth_mem [OF that] by auto
  let ?hp = "hp(a \<mapsto> nd\<lparr>hn_hash := x, hn_next := bucket_heads h ! i\<rparr>)"
  have "hmap_shape h" using r by (simp add: hmap_rep_def)
  from write_bucket_ok [OF this i, of a] obtain h' where h': "write_bucket h i a = Ok h'" "hmap_shape h'"
    "bucket_heads h' = (bucket_heads h)[i := a]" "hm_mask h' = hm_mask h" "hm_n h' = hm_n h"
    by blast
  have w: "w64 (hm_n h' + 1) = hm_n h + 1" using n h'(5) by (simp add: w64_id)
  have "hmap_insert_fast h hp a x = Ok (h'\<lparr>hm_n := hm_n h + 1\<rparr>, ?hp)"
    using a b(1) h'(1) w unfolding i_def by (simp add: hmap_insert_fast_def)
  moreover have "hmap_rep ?hp (h'\<lparr>hm_n := hm_n h + 1\<rparr>) (nss[i := a # nss ! i])"
  proof (rule hmap_rep_update [OF r i, where p = a])
    show "chain hn_next ?hp a (a # nss ! i) 0" using a(2) b(2) an [OF b(3)] by simp
    have "\<forall>c\<in>set (nss ! i). hashed_to hp (hm_mask h) i c" using r b(3) by (simp add: hmap_rep_def)
    then show "\<forall>c\<in>set (a # nss ! i). hashed_to ?hp (hm_mask h) i c"
      using an [OF b(3)] by (auto simp: hashed_to_def i_def)
    show "distinct (a # nss ! i)" using r an [OF b(3)] b(3) by (auto simp: hmap_rep_def distinct_concat_iff)
    show "set (a # nss ! i) \<inter> set (concat nss) \<subseteq> set (nss ! i)" using a(3) by auto
    show "j < length nss \<Longrightarrow> j \<noteq> i \<Longrightarrow> c \<in> set (nss ! j) \<Longrightarrow> ?hp c = hp c" for j c using an [of j] by auto
  qed (use h' n in auto)
  ultimately show ?thesis using h' by auto
qed

text \<open>Nodes keep their hash values, whatever happens to their links.\<close>

definition same_hashes :: "nheap \<Rightarrow> nheap \<Rightarrow> bool" where
  "same_hashes hp hp' \<longleftrightarrow> (\<forall>a. map_option hn_hash (hp' a) = map_option hn_hash (hp a))"

lemma same_hashes_refl [simp]: "same_hashes hp hp"
  by (simp add: same_hashes_def)

lemma same_hashes_trans: "same_hashes hp hp' \<Longrightarrow> same_hashes hp' hp'' \<Longrightarrow> same_hashes hp hp''"
  by (simp add: same_hashes_def)

lemma same_hashes_at: "same_hashes hp hp' \<Longrightarrow> map_option hn_hash (hp' a) = map_option hn_hash (hp a)"
  by (simp add: same_hashes_def)

lemma hashed_to_same: "same_hashes hp hp' \<Longrightarrow> hashed_to hp' m j a = hashed_to hp m j a"
  by (drule same_hashes_at [of _ _ a]) (auto simp: hashed_to_def split: option.splits)

lemma same_hashes_dom: "same_hashes hp hp' \<Longrightarrow> dom hp' = dom hp"
  unfolding same_hashes_def dom_def by (metis map_option_is_None)

section \<open>Slots\<close>

lemma find_slot_spec:
  assumes "read_slot h hp s = Ok p" "chain hn_next hp p (as @ [a]) q" "a \<notin> set as" "length as \<le> fuel"
  shows "find_slot fuel h hp s a = Ok (if as = [] then s else Next_of (last as))"
  using assms
proof (induction as arbitrary: s p fuel)
  case Nil
  then show ?case by (subst find_slot.simps) simp
next
  case (Cons b as)
  then obtain f where f: "fuel = Suc f" by (cases fuel) auto
  obtain nd where b: "p = b" "b \<noteq> 0" "hp b = Some nd" "chain hn_next hp (hn_next nd) (as @ [a]) q"
    using Cons.prems(2) by (auto split: option.splits)
  have "read_slot h hp (Next_of b) = Ok (hn_next nd)" using b by (simp add: read_slot_def)
  from Cons.IH [OF this b(4)] Cons.prems f
  have "find_slot f h hp (Next_of b) a = Ok (if as = [] then Next_of b else Next_of (last as))" by simp
  then show ?case
    using Cons.prems f b by (subst find_slot.simps) simp
qed

lemma write_slot_spec:
  assumes r: "hmap_rep hp h nss" and i: "i \<le> hm_mask h" "nss ! i = as @ bs"
  defines "s \<equiv> (if as = [] then Bucket i else Next_of (last as))"
  shows "\<exists>h' hp' p. write_slot h hp s q = Ok (h', hp') \<and> hmap_shape h' \<and> hm_mask h' = hm_mask h \<and> hm_n h' = hm_n h \<and>
    bucket_heads h' = (bucket_heads h)[i := p] \<and> chain hn_next hp' p as q \<and> (\<forall>a. a \<notin> set as \<longrightarrow> hp' a = hp a) \<and>
    same_hashes hp hp'"
proof (cases "as = []")
  case True
  have "hmap_shape h" using r by (simp add: hmap_rep_def)
  from write_bucket_ok [OF this i(1), of q] True show ?thesis
    by (auto simp: s_def write_slot_def intro!: exI [of _ q])
next
  case False
  then obtain cs c where as: "as = cs @ [c]" by (metis rev_exhaust)
  have ch: "chain hn_next hp (bucket_heads h ! i) (nss ! i) 0" using hmap_rep_bucket [OF r i(1)] by simp
  then obtain nd where c: "chain hn_next hp (bucket_heads h ! i) cs c" "c \<noteq> 0" "hp c = Some nd"
    using i(2) as by (auto simp: chain_append split: option.splits)
  have "distinct (nss ! i)" using r hmap_rep_bucket(3) [OF r i(1)] by (auto simp: hmap_rep_def distinct_concat_iff)
  then have "c \<notin> set cs" using i(2) as by simp
  let ?hp = "hp(c \<mapsto> nd\<lparr>hn_next := q\<rparr>)"
  have "chain hn_next ?hp (bucket_heads h ! i) as q"
    using c \<open>c \<notin> set cs\<close> by (simp add: as chain_append)
  moreover have "write_slot h hp s q = Ok (h, ?hp)"
    using c as by (simp add: s_def write_slot_def)
  moreover have "same_hashes hp ?hp"
    using c by (simp add: same_hashes_def)
  moreover have "bucket_heads h = (bucket_heads h)[i := bucket_heads h ! i]" by simp
  ultimately show ?thesis
    using as r unfolding hmap_rep_def by (intro exI [of _ h] exI [of _ ?hp] exI [of _ "bucket_heads h ! i"]) auto
qed

text \<open>The slot that points to a node of the map.\<close>

lemma find_node:
  assumes r: "hmap_rep hp h nss" and a: "a \<in> set (concat nss)"
  obtains i as bs nd where "hp a = Some nd" "a \<noteq> 0" "i = (hn_hash nd AND hm_mask h)" "i \<le> hm_mask h" "i < length nss"
    "nss ! i = as @ a # bs" "a \<notin> set as" "a \<notin> set bs" "chain hn_next hp (hn_next nd) bs 0"
    "find_slot (hm_n h) h hp (Bucket i) a = Ok (if as = [] then Bucket i else Next_of (last as))"
proof -
  obtain nd i where n: "hp a = Some nd" "a \<noteq> 0" "i = (hn_hash nd AND hm_mask h)" "i \<le> hm_mask h" "a \<in> set (nss ! i)"
    using hmap_rep_node [OF r a] by metis
  note b = hmap_rep_bucket [OF r n(4)]
  obtain as bs where s: "nss ! i = as @ a # bs" "a \<notin> set as" using n(5) by (meson split_list_first)
  have "distinct (nss ! i)" using r b(3) by (auto simp: hmap_rep_def distinct_concat_iff)
  then have "a \<notin> set bs" using s by simp
  have c: "chain hn_next hp (bucket_heads h ! i) (as @ [a]) (hn_next nd)" "chain hn_next hp (hn_next nd) bs 0"
    using b(2) n(1) unfolding s(1) by (auto simp: chain_append)
  have "read_slot h hp (Bucket i) = Ok (bucket_heads h ! i)" using b(1) by (simp add: read_slot_def)
  from find_slot_spec [OF this c(1) s(2), of "hm_n h"] b(4) s
  have "find_slot (hm_n h) h hp (Bucket i) a = Ok (if as = [] then Bucket i else Next_of (last as))" by simp
  with n b(3) s \<open>a \<notin> set bs\<close> c(2) show thesis by (intro that)
qed

section \<open>Removal and replacement\<close>

lemma hmap_remove_spec:
  assumes r: "hmap_rep hp h nss" and a: "a \<in> set (concat nss)"
  shows "\<exists>h' hp' i as bs. hmap_remove h hp a = Ok (h', hp') \<and> i < length nss \<and> nss ! i = as @ a # bs \<and>
    hmap_rep hp' h' (nss[i := as @ bs]) \<and> hm_mask h' = hm_mask h \<and> same_hashes hp hp' \<and> hp' a = hp a"
proof -
  obtain i as bs nd where n: "hp a = Some nd" "a \<noteq> 0" "i = (hn_hash nd AND hm_mask h)" "i \<le> hm_mask h" "i < length nss"
    "nss ! i = as @ a # bs" "a \<notin> set as" "a \<notin> set bs" "chain hn_next hp (hn_next nd) bs 0"
    "find_slot (hm_n h) h hp (Bucket i) a = Ok (if as = [] then Bucket i else Next_of (last as))"
    using find_node [OF r a] by metis
  let ?s = "if as = [] then Bucket i else Next_of (last as)"
  obtain h' hp' p where w: "write_slot h hp ?s (hn_next nd) = Ok (h', hp')" "hmap_shape h'" "hm_mask h' = hm_mask h"
    "hm_n h' = hm_n h" "bucket_heads h' = (bucket_heads h)[i := p]" "chain hn_next hp' p as (hn_next nd)"
    "\<And>a. a \<notin> set as \<Longrightarrow> hp' a = hp a" "same_hashes hp hp'"
    using write_slot_spec [OF r n(4,6), of "hn_next nd"] by metis
  have d: "distinct (concat nss)" "distinct (nss ! i)" "hm_n h = length (concat nss)" "hm_n h < 2 ^ 62"
    "\<forall>c\<in>set (nss ! i). hashed_to hp (hm_mask h) i c"
    using r n(5) by (auto simp: hmap_rep_def distinct_concat_iff)
  then have nn: "1 \<le> hm_n h" using hmap_rep_bucket(4) [OF r n(4)] n(6) by simp
  have "chain hn_next hp' (hn_next nd) bs 0"
    using n(9) w(7) d(2) n(6) by (subst chain_cong [of _ hp' hp]) auto
  then have "chain hn_next hp' p (as @ bs) 0" using w(6) by (auto simp: chain_append)
  have "hmap_rep hp' (h'\<lparr>hm_n := sub64 (hm_n h') 1\<rparr>) (nss[i := as @ bs])"
  proof (rule hmap_rep_update [OF r n(4)])
    show "hp' c = hp c" if "j < length nss" "j \<noteq> i" "c \<in> set (nss ! j)" for j c
      using concat_disjoint [OF d(1) that(1) n(5) that(2,3)] n(6) w(7) [of c] by auto
    show "chain hn_next hp' p (as @ bs) 0" by fact
    show "\<forall>c\<in>set (as @ bs). hashed_to hp' (hm_mask h) i c" using d(5) n(6) hashed_to_same [OF w(8)] by simp
    show "set (as @ bs) \<inter> set (concat nss) \<subseteq> set (nss ! i)" using n(6) by auto
    show "hm_n (h'\<lparr>hm_n := sub64 (hm_n h') 1\<rparr>) + length (nss ! i) = hm_n h + length (as @ bs)"
      using w(4) nn n(6) d(4) by (simp add: sub64_id)
  qed (use w nn d n(6) in \<open>auto simp: sub64_id\<close>)
  moreover have "hmap_remove h hp a = Ok (h'\<lparr>hm_n := sub64 (hm_n h') 1\<rparr>, hp')"
    using n w(1) by (simp add: hmap_remove_def)
  ultimately show ?thesis using n w(3,7,8) by fastforce
qed

text \<open>Another node takes the place of a node of the map.\<close>

lemma hmap_rep_relink:
  assumes r: "hmap_rep hp h nss" and i: "i \<le> hm_mask h" "nss ! i = as @ a # bs" and a: "hp a = Some nd"
    and c: "chain hn_next hp (hn_next nd) bs 0" and b: "b \<noteq> 0" "b \<notin> set (concat nss)"
    and w: "hmap_shape h'" "hm_mask h' = hm_mask h" "hm_n h' = hm_n h" "bucket_heads h' = (bucket_heads h)[i := p]"
      "chain hn_next hp' p as b" "\<And>c. c \<notin> set as \<Longrightarrow> hp' c = hp c" "same_hashes hp hp'"
    and n: "hn_next n' = hn_next nd" "hn_hash n' = hn_hash nd"
  shows "hmap_rep (hp'(b \<mapsto> n')) h' (nss[i := as @ b # bs])"
proof (rule hmap_rep_update [OF r i(1) w(1,4,2)])
  have l: "i < length nss" using r i by (simp add: hmap_rep_def)
  have d: "distinct (concat nss)" "distinct (nss ! i)" "hm_n h < 2 ^ 62" "\<forall>c\<in>set (nss ! i). hashed_to hp (hm_mask h) i c"
    using r l by (auto simp: hmap_rep_def distinct_concat_iff)
  have bn: "b \<notin> set (nss ! j)" if "j < length nss" for j
    using b(2) nth_mem [OF that] by auto
  then have bs: "b \<notin> set as" "b \<notin> set bs" using l i(2) by force+
  show "(hp'(b \<mapsto> n')) c = hp c" if "j < length nss" "j \<noteq> i" "c \<in> set (nss ! j)" for j c
    using concat_disjoint [OF d(1) that(1) l that(2,3)] i(2) w(6) [of c] bn [OF that(1)] that(3) by auto
  have "chain hn_next hp' (hn_next nd) bs 0"
    using c w(6) d(2) i(2) by (subst chain_cong [of _ hp' hp]) auto
  then show "chain hn_next (hp'(b \<mapsto> n')) p (as @ b # bs) 0"
    using w(5) bs b(1) n(1) by (auto simp: chain_append)
  have "hashed_to hp (hm_mask h) i a" using d(4) i(2) by simp
  then have "hashed_to (hp'(b \<mapsto> n')) (hm_mask h) i b" using a n(2) by (simp add: hashed_to_def)
  moreover have "hashed_to (hp'(b \<mapsto> n')) (hm_mask h) i c" if "c \<in> set as \<union> set bs" for c
    using that bs d(4) i(2) hashed_to_same [OF w(7)] by (subst hashed_to_other) auto
  ultimately show "\<forall>c\<in>set (as @ b # bs). hashed_to (hp'(b \<mapsto> n')) (hm_mask h) i c"
    by auto
  show "distinct (as @ b # bs)" using d(2) i(2) bs by simp
  show "set (as @ b # bs) \<inter> set (concat nss) \<subseteq> set (nss ! i)" using i(2) b(2) by auto
  show "hm_n h' + length (nss ! i) = hm_n h + length (as @ b # bs)" using w(3) i(2) by simp
  show "hm_n h' < 2 ^ 62" using w(3) d(3) by simp
qed

lemma hmap_replace_spec:
  assumes r: "hmap_rep hp h nss" and a: "a \<in> set (concat nss)" and b: "hp b = Some m" "b \<noteq> 0" "b \<notin> set (concat nss)"
  shows "\<exists>h' hp' i as bs. hmap_replace h hp a b = Ok (h', hp') \<and> i < length nss \<and> nss ! i = as @ a # bs \<and>
    hmap_rep hp' h' (nss[i := as @ b # bs]) \<and> hm_mask h' = hm_mask h \<and>
    map_option hn_hash (hp' b) = map_option hn_hash (hp a) \<and>
    (\<forall>c. c \<noteq> b \<longrightarrow> map_option hn_hash (hp' c) = map_option hn_hash (hp c)) \<and> dom hp' = dom hp"
proof -
  obtain i as bs nd where n: "hp a = Some nd" "a \<noteq> 0" "i = (hn_hash nd AND hm_mask h)" "i \<le> hm_mask h" "i < length nss"
    "nss ! i = as @ a # bs" "a \<notin> set as" "a \<notin> set bs" "chain hn_next hp (hn_next nd) bs 0"
    "find_slot (hm_n h) h hp (Bucket i) a = Ok (if as = [] then Bucket i else Next_of (last as))"
    using find_node [OF r a] by metis
  let ?s = "if as = [] then Bucket i else Next_of (last as)" and ?m = "m\<lparr>hn_hash := hn_hash nd, hn_next := hn_next nd\<rparr>"
  obtain h' hp' p where w: "write_slot h hp ?s b = Ok (h', hp')" "hmap_shape h'" "hm_mask h' = hm_mask h"
    "hm_n h' = hm_n h" "bucket_heads h' = (bucket_heads h)[i := p]" "chain hn_next hp' p as b"
    "\<And>a. a \<notin> set as \<Longrightarrow> hp' a = hp a" "same_hashes hp hp'"
    using write_slot_spec [OF r n(4,6), of b] by metis
  have "b \<notin> set as" "b \<noteq> a" using b(3) a nth_mem [OF n(5)] n(6) by force+
  then have "hmap_replace h hp a b = Ok (h', hp'(b \<mapsto> ?m))"
    using n(1,2,3,7,10) w(1,7) b by (simp add: hmap_replace_def)
  moreover have "hmap_rep (hp'(b \<mapsto> ?m)) h' (nss[i := as @ b # bs])"
    by (rule hmap_rep_relink [OF r n(4,6,1,9) b(2,3) w(2-8)]) simp_all
  moreover have "\<forall>c. c \<noteq> b \<longrightarrow> map_option hn_hash ((hp'(b \<mapsto> ?m)) c) = map_option hn_hash (hp c)"
    using same_hashes_at [OF w(8)] by simp
  moreover have "dom (hp'(b \<mapsto> ?m)) = dom hp"
    using same_hashes_dom [OF w(8)] b(1) by auto
  ultimately show ?thesis
    using n w(3) by (intro exI [of _ h'] exI [of _ "hp'(b \<mapsto> ?m)"] exI [of _ i] exI [of _ as] exI [of _ bs]) simp
qed

lemma hmap_node_moved_spec:
  assumes r: "hmap_rep hp h nss" and a: "a \<in> set (concat nss)" and b: "hp b = hp a" "b \<noteq> 0" "b \<notin> set (concat nss)"
  shows "\<exists>h' hp' i as bs. hmap_node_moved h hp a b = Ok (h', hp') \<and> i < length nss \<and> nss ! i = as @ a # bs \<and>
    hmap_rep hp' h' (nss[i := as @ b # bs]) \<and> hm_mask h' = hm_mask h \<and> same_hashes hp hp'"
proof -
  obtain i as bs nd where n: "hp a = Some nd" "a \<noteq> 0" "i = (hn_hash nd AND hm_mask h)" "i \<le> hm_mask h" "i < length nss"
    "nss ! i = as @ a # bs" "a \<notin> set as" "a \<notin> set bs" "chain hn_next hp (hn_next nd) bs 0"
    "find_slot (hm_n h) h hp (Bucket i) a = Ok (if as = [] then Bucket i else Next_of (last as))"
    using find_node [OF r a] by metis
  let ?s = "if as = [] then Bucket i else Next_of (last as)"
  obtain h' hp' p where w: "write_slot h hp ?s b = Ok (h', hp')" "hmap_shape h'" "hm_mask h' = hm_mask h"
    "hm_n h' = hm_n h" "bucket_heads h' = (bucket_heads h)[i := p]" "chain hn_next hp' p as b"
    "\<And>a. a \<notin> set as \<Longrightarrow> hp' a = hp a" "same_hashes hp hp'"
    using write_slot_spec [OF r n(4,6), of b] by metis
  have "b \<notin> set as" using b(3) nth_mem [OF n(5)] n(6) by force
  then have e: "hp'(b \<mapsto> nd) = hp'" using w(7) b(1) n(1) by auto
  have "hmap_rep (hp'(b \<mapsto> nd)) h' (nss[i := as @ b # bs])"
    by (rule hmap_rep_relink [OF r n(4,6,1,9) b(2,3) w(2-8)]) simp_all
  moreover have "hmap_node_moved h hp a b = Ok (h', hp')"
    using n(1,3,10) w(1) b by (simp add: hmap_node_moved_def)
  ultimately show ?thesis using n w(3,8) unfolding e by fastforce
qed

end
