(* ===== verification/HmapSearch.thy ===== *)
theory HmapSearch
  imports HmapSpec
begin

text \<open>
  Search, membership and iteration of src/Clang/map/ovs/hmap.c and hmap.h on a well-formed
  map: the loops of the macros \<open>HMAP_FOR_EACH\<close>, \<open>HMAP_FOR_EACH_WITH_HASH\<close> and
  \<open>HMAP_FOR_EACH_IN_BUCKET\<close> and the iteration by position, each compared with the list of
  the nodes.
\<close>

section \<open>The loops of the macros\<close>

text \<open>The nodes a loop visits; the map counts more nodes than any of them visits.\<close>

fun hmap_for_each :: "nat \<Rightarrow> hmap \<Rightarrow> nheap \<Rightarrow> ptr \<Rightarrow> ptr list cres" where
  "hmap_for_each fuel h hp node =
     (if node = 0 then Ok []
      else case fuel of 0 \<Rightarrow> Err Fault
      | Suc fuel \<Rightarrow> res_bind (hmap_next h hp node) (\<lambda>p. res_bind (hmap_for_each fuel h hp p) (\<lambda>ps. Ok (node # ps))))"

fun hmap_for_each_with_hash :: "nat \<Rightarrow> hmap \<Rightarrow> nheap \<Rightarrow> ptr \<Rightarrow> ptr list cres" where
  "hmap_for_each_with_hash fuel h hp node =
     (if node = 0 then Ok []
      else case fuel of 0 \<Rightarrow> Err Fault
      | Suc fuel \<Rightarrow>
          res_bind (hmap_next_with_hash h hp node) (\<lambda>p. res_bind (hmap_for_each_with_hash fuel h hp p) (\<lambda>ps. Ok (node # ps))))"

fun hmap_for_each_in_bucket :: "nat \<Rightarrow> nheap \<Rightarrow> ptr \<Rightarrow> ptr list cres" where
  "hmap_for_each_in_bucket fuel hp node =
     (if node = 0 then Ok []
      else case fuel of 0 \<Rightarrow> Err Fault
      | Suc fuel \<Rightarrow>
          res_bind (hmap_next_in_bucket hp node) (\<lambda>p. res_bind (hmap_for_each_in_bucket fuel hp p) (\<lambda>ps. Ok (node # ps))))"

declare hmap_for_each.simps [simp del] hmap_for_each_with_hash.simps [simp del] hmap_for_each_in_bucket.simps [simp del]

text \<open>A walk by \<open>hmap_at_position\<close> until it returns NULL.\<close>

fun position_walk :: "nat \<Rightarrow> hmap \<Rightarrow> nheap \<Rightarrow> nat \<Rightarrow> nat \<Rightarrow> ptr list cres" where
  "position_walk 0 h hp b off = Err Fault"
| "position_walk (Suc fuel) h hp b off =
     res_bind (hmap_at_position h hp b off) (\<lambda>(p, b, off).
     if p = 0 then Ok [] else res_bind (position_walk fuel h hp b off) (\<lambda>ps. Ok (p # ps)))"

definition first_ptr :: "ptr list \<Rightarrow> ptr" where
  "first_ptr ps = (case ps of [] \<Rightarrow> 0 | p # _ \<Rightarrow> p)"

lemma first_ptr_simps [simp]: "first_ptr [] = 0" "first_ptr (p # ps) = p"
  by (simp_all add: first_ptr_def)

definition has_hash :: "nheap \<Rightarrow> nat \<Rightarrow> ptr \<Rightarrow> bool" where
  "has_hash hp x a \<longleftrightarrow> (case hp a of None \<Rightarrow> False | Some nd \<Rightarrow> hn_hash nd = x)"

lemma has_hash_Some [simp]: "hp a = Some nd \<Longrightarrow> has_hash hp x a \<longleftrightarrow> hn_hash nd = x"
  by (simp add: has_hash_def)

lemma chain_first: "chain nx hp p as 0 \<Longrightarrow> p = first_ptr as"
  by (cases as) auto

section \<open>Search by hash value\<close>

lemma next_with_hash_spec:
  "chain hn_next hp p ns 0 \<Longrightarrow> length ns \<le> fuel \<Longrightarrow>
     next_with_hash fuel hp p x = Ok (first_ptr (filter (has_hash hp x) ns))"
proof (induction ns arbitrary: p fuel)
  case Nil
  then show ?case by (subst next_with_hash.simps) simp
next
  case (Cons a ns)
  then obtain nd f where a: "p = a" "a \<noteq> 0" "hp a = Some nd" "chain hn_next hp (hn_next nd) ns 0" "fuel = Suc f"
    by (cases fuel) (auto split: option.splits)
  with Cons.IH [OF a(4), of f] Cons.prems show ?case
    by (subst next_with_hash.simps) auto
qed

lemma other_bucket:
  assumes "ns \<in> set (take i nss) \<union> set (drop (Suc i) nss)" "i < length nss"
  shows "\<exists>j. j < length nss \<and> j \<noteq> i \<and> ns = nss ! j"
proof -
  consider j where "j < i" "ns = nss ! j" | j where "j < length nss - Suc i" "ns = nss ! (Suc i + j)"
    using assms by (auto simp: in_set_conv_nth)
  then show ?thesis
  proof cases
    case 1
    with assms(2) show ?thesis by (intro exI [of _ j]) simp
  next
    case 2
    with assms(2) show ?thesis by (intro exI [of _ "Suc i + j"]) simp
  qed
qed

lemma hash_in_one_bucket:
  assumes r: "hmap_rep hp h nss"
  shows "filter (has_hash hp x) (concat nss) = filter (has_hash hp x) (nss ! (x AND hm_mask h))"
proof -
  let ?i = "x AND hm_mask h" and ?P = "has_hash hp x"
  have i: "?i < length nss" using r and_mask_le [of x "hm_mask h"] by (simp add: hmap_rep_def)
  have no: "filter ?P (nss ! j) = []" if "j < length nss" "j \<noteq> ?i" for j
  proof -
    have "\<forall>a\<in>set (nss ! j). hashed_to hp (hm_mask h) j a" using r that by (simp add: hmap_rep_def)
    with that show ?thesis by (auto simp: filter_empty_conv hashed_to_def has_hash_def split: option.splits)
  qed
  have "filter ?P ns = []" if "ns \<in> set (take ?i nss) \<union> set (drop (Suc ?i) nss)" for ns
  proof -
    have "\<exists>j. j < length nss \<and> j \<noteq> ?i \<and> ns = nss ! j"
      using other_bucket [OF that i] .
    with no show ?thesis by blast
  qed
  then have "filter ?P (concat (take ?i nss)) = []" "filter ?P (concat (drop (Suc ?i) nss)) = []"
    by (simp_all add: filter_concat)
  then show ?thesis by (simp add: concat_split(2) [OF i])
qed

lemma hmap_first_with_hash_spec:
  assumes r: "hmap_rep hp h nss"
  shows "hmap_first_with_hash h hp x = Ok (first_ptr (filter (has_hash hp x) (concat nss)))"
  using hmap_rep_bucket [OF r and_mask_le, of x] next_with_hash_spec
  by (simp add: hmap_first_with_hash_def hash_in_one_bucket [OF r] del: filter_concat)

lemma for_each_with_hash_chain:
  "chain hn_next hp p ns 0 \<Longrightarrow> length ns \<le> fuel \<Longrightarrow> length ns \<le> hm_n h \<Longrightarrow>
     hmap_for_each_with_hash fuel h hp (first_ptr (filter (has_hash hp x) ns)) = Ok (filter (has_hash hp x) ns)"
proof (induction ns arbitrary: p fuel)
  case Nil
  then show ?case by (subst hmap_for_each_with_hash.simps) simp
next
  case (Cons a ns)
  then obtain nd f where a: "p = a" "a \<noteq> 0" "hp a = Some nd" "chain hn_next hp (hn_next nd) ns 0" "fuel = Suc f"
    by (cases fuel) (auto split: option.splits)
  show ?case
  proof (cases "has_hash hp x a")
    case True
    then have "hmap_next_with_hash h hp a = Ok (first_ptr (filter (has_hash hp x) ns))"
      using a next_with_hash_spec [OF a(4), of "hm_n h" x] Cons.prems
      by (simp add: hmap_next_with_hash_def)
    then show ?thesis
      using True a Cons.IH [OF a(4), of f] Cons.prems by (subst hmap_for_each_with_hash.simps) simp
  next
    case False
    then show ?thesis using Cons.IH [OF a(4), of fuel] Cons.prems by simp
  qed
qed

lemma hmap_for_each_with_hash_spec:
  assumes r: "hmap_rep hp h nss"
  shows "res_bind (hmap_first_with_hash h hp x) (hmap_for_each_with_hash (hm_n h) h hp)
    = Ok (filter (has_hash hp x) (concat nss))"
  using for_each_with_hash_chain [OF hmap_rep_bucket(2) [OF r and_mask_le], of x "hm_n h"]
    hmap_rep_bucket(4) [OF r and_mask_le, of x]
  by (simp add: hmap_first_with_hash_spec [OF r] hash_in_one_bucket [OF r] del: filter_concat)

section \<open>Buckets and membership\<close>

lemma for_each_in_bucket_chain:
  "chain hn_next hp p ns 0 \<Longrightarrow> length ns \<le> fuel \<Longrightarrow> hmap_for_each_in_bucket fuel hp p = Ok ns"
proof (induction ns arbitrary: p fuel)
  case Nil
  then show ?case by (subst hmap_for_each_in_bucket.simps) simp
next
  case (Cons a ns)
  then obtain nd f where a: "p = a" "a \<noteq> 0" "hp a = Some nd" "chain hn_next hp (hn_next nd) ns 0" "fuel = Suc f"
    by (cases fuel) (auto split: option.splits)
  with Cons.IH [OF a(4), of f] Cons.prems show ?case
    by (subst hmap_for_each_in_bucket.simps) (simp add: hmap_next_in_bucket_def)
qed

lemma hmap_for_each_in_bucket_spec:
  assumes r: "hmap_rep hp h nss"
  shows "res_bind (hmap_first_in_bucket h x) (hmap_for_each_in_bucket (hm_n h) hp) = Ok (nss ! (x AND hm_mask h))"
  using hmap_rep_bucket [OF r and_mask_le, of x] by (simp add: hmap_first_in_bucket_def for_each_in_bucket_chain)

lemma contains_loop_spec:
  "chain hn_next hp p ns 0 \<Longrightarrow> length ns \<le> fuel \<Longrightarrow> contains_loop fuel hp p a = Ok (a \<in> set ns)"
proof (induction ns arbitrary: p fuel)
  case Nil
  then show ?case by (subst contains_loop.simps) simp
next
  case (Cons b ns)
  then obtain nd f where b: "p = b" "b \<noteq> 0" "hp b = Some nd" "chain hn_next hp (hn_next nd) ns 0" "fuel = Suc f"
    by (cases fuel) (auto split: option.splits)
  with Cons.IH [OF b(4), of f] Cons.prems show ?case
    by (subst contains_loop.simps) auto
qed

lemma hmap_contains_spec:
  assumes r: "hmap_rep hp h nss" and a: "hp a = Some nd" "a \<noteq> 0"
  shows "hmap_contains h hp a = Ok (a \<in> set (concat nss))"
proof -
  let ?i = "hn_hash nd AND hm_mask h"
  note b = hmap_rep_bucket [OF r and_mask_le, of "hn_hash nd"]
  have "a \<in> set (concat nss) \<longleftrightarrow> a \<in> set (nss ! ?i)"
    using arg_cong [OF hash_in_one_bucket [OF r, of "hn_hash nd"], of "\<lambda>as. a \<in> set as"] a(1) by simp
  then show ?thesis
    using a b contains_loop_spec [OF b(2,4)] by (simp add: hmap_contains_def hmap_first_in_bucket_def del: set_concat)
qed

section \<open>Iteration\<close>

lemma first_from_spec:
  assumes r: "hmap_rep hp h nss" and "i + n = length nss"
  shows "first_from h i n = Ok (first_ptr (concat (drop i nss)))"
  using assms(2)
proof (induction n arbitrary: i)
  case 0
  then show ?case by simp
next
  case (Suc n)
  then have i: "i < length nss" by simp
  then have m: "i \<le> hm_mask h" using r by (simp add: hmap_rep_def)
  note b = hmap_rep_bucket [OF r m]
  have d: "concat (drop i nss) = nss ! i @ concat (drop (Suc i) nss)"
    by (simp add: Cons_nth_drop_Suc [OF i, symmetric])
  show ?case
  proof (cases "nss ! i")
    case Nil
    then show ?thesis using b Suc d by simp
  next
    case (Cons a ns)
    then show ?thesis using b d chain_first [OF b(2)] chain_node [OF b(2), of a] by simp
  qed
qed

lemma hmap_next_aux_spec:
  assumes r: "hmap_rep hp h nss"
  shows "hmap_next_aux h i = Ok (first_ptr (concat (drop i nss)))"
proof (cases "i \<le> hm_mask h + 1")
  case True
  then show ?thesis using first_from_spec [OF r, of i "hm_mask h + 1 - i"] r by (simp add: hmap_next_aux_def hmap_rep_def)
next
  case False
  then show ?thesis using r by (simp add: hmap_next_aux_def hmap_rep_def)
qed

lemma mask_id: "hmap_rep hp h nss \<Longrightarrow> i \<le> hm_mask h \<Longrightarrow> w64 (i + 1) = i + 1"
  by (rule w64_id) (auto simp: hmap_rep_def hmap_shape_def)

lemma hmap_next_spec:
  assumes r: "hmap_rep hp h nss" and c: "concat nss = as @ a # bs"
  shows "hmap_next h hp a = Ok (first_ptr bs)"
proof -
  have "a \<in> set (concat nss)" using c by simp
  from find_node [OF r this] obtain i xs ys nd where n: "hp a = Some nd" "a \<noteq> 0" "i = (hn_hash nd AND hm_mask h)"
    "i \<le> hm_mask h" "i < length nss" "nss ! i = xs @ a # ys" "chain hn_next hp (hn_next nd) ys 0"
    by metis
  have "distinct (as @ a # bs)" using r c by (simp add: hmap_rep_def)
  moreover have "as @ a # bs = (concat (take i nss) @ xs) @ a # (ys @ concat (drop (Suc i) nss))"
    using concat_split(2) [OF n(5)] n(6) c by simp
  ultimately have "bs = ys @ concat (drop (Suc i) nss)"
    by (metis append_Cons_eq_iff distinct_append distinct.simps(2) not_distinct_conv_prefix)
  then show ?thesis
    using n chain_first [OF n(7)] chain_node [OF n(7)] hmap_next_aux_spec [OF r] mask_id [OF r n(4)]
    by (cases ys) (auto simp: hmap_next_def)
qed

lemma for_each_rest:
  assumes r: "hmap_rep hp h nss"
  shows "concat nss = as @ bs \<Longrightarrow> length bs \<le> fuel \<Longrightarrow> hmap_for_each fuel h hp (first_ptr bs) = Ok bs"
proof (induction bs arbitrary: as fuel)
  case Nil
  then show ?case by (subst hmap_for_each.simps) simp
next
  case (Cons b bs)
  then obtain f where f: "fuel = Suc f" by (cases fuel) auto
  have "b \<in> set (concat nss)" using Cons.prems by simp
  then have "b \<noteq> 0" using hmap_rep_node [OF r] by metis
  then show ?case
    using f Cons.IH [of "as @ [b]" f] Cons.prems hmap_next_spec [OF r Cons.prems(1)]
    by (subst hmap_for_each.simps) simp
qed

lemma hmap_for_each_spec:
  assumes r: "hmap_rep hp h nss"
  shows "res_bind (hmap_first h) (hmap_for_each (hm_n h) h hp) = Ok (concat nss)"
  using for_each_rest [OF r, of "[]" "concat nss" "hm_n h"] hmap_next_aux_spec [OF r, of 0] r
  by (simp add: hmap_first_def hmap_rep_def)

section \<open>Iteration by position\<close>

definition after_position :: "ptr list list \<Rightarrow> nat \<Rightarrow> nat \<Rightarrow> ptr list" where
  "after_position nss b off = (if b < length nss then drop off (nss ! b) @ concat (drop (Suc b) nss) else [])"

lemma after_position_0: "after_position nss b 0 = concat (drop b nss)"
  by (cases "b < length nss") (auto simp: after_position_def Cons_nth_drop_Suc [symmetric])

lemma node_at_spec:
  "chain hn_next hp p ns 0 \<Longrightarrow> length ns \<le> fuel \<Longrightarrow> k \<le> off \<Longrightarrow>
     node_at fuel hp p k off = Ok (first_ptr (drop (off - k) ns))"
proof (induction ns arbitrary: p fuel k)
  case Nil
  then show ?case by (subst node_at.simps) simp
next
  case (Cons a ns)
  then obtain nd f where a: "p = a" "a \<noteq> 0" "hp a = Some nd" "chain hn_next hp (hn_next nd) ns 0" "fuel = Suc f"
    by (cases fuel) (auto split: option.splits)
  show ?case
  proof (cases "k = off")
    case True
    with a show ?thesis by (subst node_at.simps) simp
  next
    case False
    with a Cons.IH [OF a(4), of f "k + 1"] Cons.prems show ?thesis
      by (subst node_at.simps) (simp add: drop_Cons' Suc_diff_Suc)
  qed
qed

lemma at_position_step:
  assumes r: "hmap_rep hp h nss" and b: "b < length nss" "drop off (nss ! b) = a # ns"
    and s: "hm_mask h + 1 < 2 ^ 32" "hm_n h < 2 ^ 32"
  shows "\<exists>b' off'. at_position_loop h hp b (Suc n) off = Ok (a, b', off') \<and> after_position nss b' off' = ns @ concat (drop (Suc b) nss)"
proof -
  have m: "b \<le> hm_mask h" using r b(1) by (simp add: hmap_rep_def)
  note k = hmap_rep_bucket [OF r m]
  have split: "nss ! b = take off (nss ! b) @ a # ns" using b(2) append_take_drop_id [of off "nss ! b"] by simp
  from k(2) obtain nd where a: "a \<noteq> 0" "hp a = Some nd" "chain hn_next hp (hn_next nd) ns 0"
    by (subst (asm) split) (erule chain_split)
  have "a \<in> set (nss ! b)" by (subst split) simp
  then have "hashed_to hp (hm_mask h) b a" using r b(1) by (simp add: hmap_rep_def)
  then have hb: "hn_hash nd AND hm_mask h = b" using a(2) by (simp add: hashed_to_def)
  have o: "off < length (nss ! b)" using b(2) by (metis drop_all list.distinct(1) not_le)
  have w: "w32 b = b" "w32 (b + 1) = b + 1" "w32 (off + 1) = off + 1"
    using s m o k(4) by (auto intro!: w32_id)
  have "drop (off + 1) (nss ! b) = ns" using b(2) by (metis drop_Suc_Cons drop_drop drop0 One_nat_def add.commute plus_1_eq_Suc)
  then show ?thesis
    using k node_at_spec [OF k(2,4), of 0 off] a b hb w chain_first [OF a(3)] chain_node [OF a(3)]
    by (cases ns) (auto simp: after_position_0, simp_all add: after_position_def)
qed

lemma at_position_loop_spec:
  assumes r: "hmap_rep hp h nss" and s: "hm_mask h + 1 < 2 ^ 32" "hm_n h < 2 ^ 32"
  shows "b + n = length nss \<Longrightarrow>
     (case after_position nss b off of [] \<Rightarrow> at_position_loop h hp b n off = Ok (0, 0, 0)
      | a # as \<Rightarrow> \<exists>b' off'. at_position_loop h hp b n off = Ok (a, b', off') \<and> after_position nss b' off' = as)"
proof (induction n arbitrary: b off)
  case 0
  then show ?case by (simp add: after_position_def)
next
  case (Suc n)
  then have b: "b < length nss" by simp
  then have m: "b \<le> hm_mask h" using r by (simp add: hmap_rep_def)
  note k = hmap_rep_bucket [OF r m]
  show ?case
  proof (cases "drop off (nss ! b)")
    case Nil
    then have loop: "at_position_loop h hp b (Suc n) off = at_position_loop h hp (Suc b) n 0"
      using k node_at_spec [OF k(2,4), of 0 off] by simp
    have rest: "after_position nss b off = after_position nss (Suc b) 0"
      using b Nil by (simp add: after_position_0) (simp add: after_position_def)
    show ?thesis unfolding loop rest using Suc.prems by (intro Suc.IH) simp
  next
    case (Cons a ns)
    with at_position_step [OF r b Cons s, of n] b show ?thesis by (simp add: after_position_def)
  qed
qed

lemma position_walk_spec:
  assumes r: "hmap_rep hp h nss" and s: "hm_mask h + 1 < 2 ^ 32" "hm_n h < 2 ^ 32"
  shows "length (after_position nss b off) < fuel \<Longrightarrow> set (after_position nss b off) \<subseteq> set (concat nss) \<Longrightarrow>
    position_walk fuel h hp b off = Ok (after_position nss b off)"
proof (induction fuel arbitrary: b off)
  case 0
  then show ?case by simp
next
  case (Suc fuel)
  have l: "length nss = hm_mask h + 1" using r by (simp add: hmap_rep_def)
  show ?case
  proof (cases "b \<le> hm_mask h + 1")
    case False
    then show ?thesis using l by (simp add: hmap_at_position_def after_position_def)
  next
    case True
    then have "b + (hm_mask h + 1 - b) = length nss" using l by simp
    note step = at_position_loop_spec [OF r s this, of off]
    show ?thesis
    proof (cases "after_position nss b off")
      case Nil
      with step show ?thesis by (simp add: hmap_at_position_def)
    next
      case (Cons a as)
      with step obtain b' off' where n: "at_position_loop h hp b (hm_mask h + 1 - b) off = Ok (a, b', off')"
        "after_position nss b' off' = as" by auto
      have "a \<in> set (concat nss)" using Suc.prems Cons by simp
      then have "a \<noteq> 0" using hmap_rep_node [OF r] by metis
      then show ?thesis using Cons n Suc.IH [of b' off'] Suc.prems by (simp add: hmap_at_position_def)
    qed
  qed
qed

end
