(* ===== verification/HmapResize.thy ===== *)
theory HmapResize
  imports HmapSpec
begin

text \<open>
  Growing and shrinking the map of src/Clang/map/ovs/hmap.c: the mask it chooses, and that
  rehashing keeps the nodes and their hash values.
\<close>

section \<open>The mask\<close>

lemma unat_mask_word64: "unat (mask k :: u64) = 2 ^ min 64 k - 1"
proof -
  have "uint (mask k :: u64) = mask (min 64 k)" using uint_mask_eq [where 'a = 64, of k] by (simp only: len_num1 len_bit0) simp
  then have "unat (mask k :: u64) = mask (min 64 k)" by (simp only: unat_eq_nat_uint nat_mask_eq)
  then show ?thesis by (simp only: mask_eq_exp_minus_1)
qed

lemma or_2_mask: "k > 0 \<Longrightarrow> mask k OR 2 = (mask (max k 2) :: u64)"
proof (rule bit_word_eqI)
  fix n assume "k > 0"
  have "bit (2 :: u64) n \<longleftrightarrow> n = 1" using bit_exp_iff [where 'a = u64, of 1 n] by auto
  with \<open>k > 0\<close> show "bit (mask k OR 2 :: u64) n = bit (mask (max k 2) :: u64) n" if "n < LENGTH(64)"
    using that by (auto simp: bit_or_iff bit_mask_iff)
qed

lemma calc_mask_eq:
  assumes "n < 2 ^ 62"
  shows "\<exists>k\<le>62. calc_mask n + 1 = 2 ^ k \<and> n div 2 \<le> calc_mask n \<and> calc_mask n \<le> max 3 n \<and> (calc_mask n = 0 \<longleftrightarrow> n < 2)"
proof -
  let ?m = "of_nat (n div 2) :: u64"
  have m: "unat ?m = n div 2" using assms by (simp add: unsigned_of_nat take_bit_nat_eq_self)
  obtain k where "n div 2 + 1 \<le> 2 ^ k" "k > 0 \<Longrightarrow> 2 ^ (k - 1) < n div 2 + 1"
    using least_power_of_two [of "n div 2 + 1"] by auto
  then have k: "n div 2 < 2 ^ k" "k > 0 \<Longrightarrow> 2 ^ (k - 1) \<le> n div 2" by simp_all
  have k62: "k \<le> 61"
  proof (rule ccontr)
    assume "\<not> k \<le> 61"
    then have "(2::nat) ^ 61 \<le> 2 ^ (k - 1)" by (intro power_increasing) auto
    with k(2) assms \<open>\<not> k \<le> 61\<close> show False by simp
  qed
  have "smear 32 (smear 16 (smear 8 (smear 4 (smear 2 (smear 1 ?m))))) = mask k"
    using k k62 top_bit_of_word [of ?m k] m by (intro smear_mask [OF bit_smear_all64]) auto
  then have c: "calc_mask n = unat (mask k OR push_bit 1 (mask k AND 1) :: u64)"
    by (simp add: calc_mask_def Let_def)
  show ?thesis
  proof (cases k)
    case 0
    with k have "n < 2" by simp
    with c 0 show ?thesis by (intro exI [of _ 0]) auto
  next
    case (Suc l)
    have "mask k AND 1 = (1 :: u64)" using Suc by (intro bit_word_eqI) (auto simp: bit_and_iff bit_mask_iff bit_1_iff)
    then have "calc_mask n = unat (mask (max k 2) :: u64)"
      using c or_2_mask [of k] Suc by simp
    also have "\<dots> = 2 ^ max k 2 - 1"
      using k62 by (simp add: unat_mask_word64 min_def)
    finally have e: "calc_mask n + 1 = 2 ^ max k 2" by simp
    have "2 ^ k \<le> (2::nat) ^ max k 2" by (intro power_increasing) auto
    then have "n div 2 \<le> calc_mask n" using e k(1) by linarith
    moreover have "2 ^ k \<le> n \<and> 2 \<le> n"
    proof -
      have "2 ^ l \<le> n div 2" "(1::nat) \<le> 2 ^ l" using k(2) Suc by simp_all
      then have "2 * 2 ^ l \<le> n" "2 \<le> n" by linarith+
      then show ?thesis using Suc by simp
    qed
    moreover have "2 ^ max k 2 \<le> max 4 ((2::nat) ^ k)" by (cases "2 \<le> k") (auto simp: max_def)
    moreover have "(4::nat) \<le> 2 ^ max k 2" using power_increasing [of 2 "max k 2" "2::nat"] by simp
    ultimately show ?thesis using e k(1) k62 by (intro exI [of _ "max k 2"]) auto
  qed
qed

section \<open>Rehashing\<close>

lemma rehash_chain_spec:
  "hmap_rep hp t mss \<Longrightarrow> chain hn_next hp p ns 0 \<Longrightarrow> distinct ns \<Longrightarrow> set ns \<inter> set (concat mss) = {} \<Longrightarrow>
   length ns \<le> fuel \<Longrightarrow> hm_n t + length ns < 2 ^ 62 \<Longrightarrow>
   \<exists>t' hp' mss'. rehash_chain fuel t hp p = Ok (t', hp') \<and> hmap_rep hp' t' mss' \<and> hm_mask t' = hm_mask t \<and>
     mset (concat mss') = mset (concat mss) + mset ns \<and> (\<forall>a. a \<notin> set ns \<longrightarrow> hp' a = hp a) \<and> same_hashes hp hp'"
proof (induction ns arbitrary: hp t mss p fuel)
  case Nil
  then show ?case by (subst rehash_chain.simps) auto
next
  case (Cons a ns)
  then obtain nd f where a: "p = a" "a \<noteq> 0" "hp a = Some nd" "chain hn_next hp (hn_next nd) ns 0" "fuel = Suc f"
    by (cases fuel) (auto split: option.splits)
  let ?i = "hn_hash nd AND hm_mask t"
  let ?hp = "hp(a \<mapsto> nd\<lparr>hn_hash := hn_hash nd, hn_next := bucket_heads t ! ?i\<rparr>)"
  have "a \<notin> set (concat mss)" using Cons.prems(4) by auto
  from hmap_insert_fast_spec [OF Cons.prems(1) a(3,2) this, of "hn_hash nd"] Cons.prems(6) obtain t1 where t1:
    "hmap_insert_fast t hp a (hn_hash nd) = Ok (t1, ?hp)" "hmap_rep ?hp t1 (mss[?i := a # mss ! ?i])"
    "hm_mask t1 = hm_mask t" "hm_n t1 = hm_n t + 1"
    by auto
  have i: "?i < length mss" using Cons.prems(1) and_mask_le [of "hn_hash nd" "hm_mask t"] by (simp add: hmap_rep_def)
  have m: "mset (concat (mss[?i := a # mss ! ?i])) = mset (concat mss) + {#a#}"
    using mset_concat_update [OF i, of "a # mss ! ?i"] by simp
  have d: "set ns \<inter> set (concat (mss[?i := a # mss ! ?i])) = {}"
    using Cons.prems(3,4) arg_cong [OF m, of set_mset] by (simp only: set_mset_mset set_mset_union) auto
  have c: "chain hn_next ?hp (hn_next nd) ns 0" "distinct ns" "length ns \<le> f" "hm_n t1 + length ns < 2 ^ 62"
    using a(4,5) Cons.prems(3,5,6) t1(4) by simp_all
  from Cons.IH [OF t1(2) c(1,2) d c(3,4)] obtain t' hp' mss' where r: "rehash_chain f t1 ?hp (hn_next nd) = Ok (t', hp')" "hmap_rep hp' t' mss'"
    "hm_mask t' = hm_mask t1" "mset (concat mss') = mset (concat (mss[?i := a # mss ! ?i])) + mset ns"
    "\<forall>b. b \<notin> set ns \<longrightarrow> hp' b = ?hp b" "same_hashes ?hp hp'"
    by blast
  have "same_hashes hp ?hp" using a(3) by (simp add: same_hashes_def)
  then have "same_hashes hp hp'" using r(6) by (rule same_hashes_trans)
  moreover have "rehash_chain fuel t hp p = Ok (t', hp')"
    using a t1(1) r(1) by (subst rehash_chain.simps) simp
  ultimately show ?case using r t1(3) m by (intro exI [of _ t'] exI [of _ hp'] exI [of _ mss']) auto
qed

text \<open>All buckets from \<open>i\<close> on go to the new map.\<close>

lemma rehash_buckets_spec:
  assumes h: "hmap_shape h" "length nss = hm_mask h + 1" "\<forall>j<length nss. length (nss ! j) \<le> hm_n h"
  shows "hmap_rep hp t mss \<Longrightarrow> i + n = length nss \<Longrightarrow>
   \<forall>j. i \<le> j \<and> j < length nss \<longrightarrow> chain hn_next hp (bucket_heads h ! j) (nss ! j) 0 \<Longrightarrow>
   distinct (concat (drop i nss)) \<Longrightarrow> set (concat (drop i nss)) \<inter> set (concat mss) = {} \<Longrightarrow>
   hm_n t + length (concat (drop i nss)) < 2 ^ 62 \<Longrightarrow>
   \<exists>t' hp' mss'. rehash_buckets h i n t hp = Ok (t', hp') \<and> hmap_rep hp' t' mss' \<and> hm_mask t' = hm_mask t \<and>
     mset (concat mss') = mset (concat mss) + mset (concat (drop i nss)) \<and>
     (\<forall>a. a \<notin> set (concat (drop i nss)) \<longrightarrow> hp' a = hp a) \<and> same_hashes hp hp'"
proof (induction n arbitrary: i t hp mss)
  case 0
  then show ?case by auto
next
  case (Suc n)
  then have i: "i < length nss" by simp
  then have b: "read_bucket h i = Ok (bucket_heads h ! i)" using h by (intro read_bucket_ok) simp_all
  have split: "concat (drop i nss) = nss ! i @ concat (drop (Suc i) nss)"
    by (simp add: Cons_nth_drop_Suc [OF i, symmetric])
  have c: "chain hn_next hp (bucket_heads h ! i) (nss ! i) 0" using Suc.prems(3) i by simp
  have d: "distinct (nss ! i)" "set (nss ! i) \<inter> set (concat mss) = {}" "length (nss ! i) \<le> hm_n h"
    "hm_n t + length (nss ! i) < 2 ^ 62" "set (nss ! i) \<inter> set (concat (drop (Suc i) nss)) = {}"
    using Suc.prems(4,5,6) i h(3) unfolding split by auto
  from rehash_chain_spec [OF Suc.prems(1) c d(1-4)] obtain t1 hp1 mss1 where r1:
    "rehash_chain (hm_n h) t hp (bucket_heads h ! i) = Ok (t1, hp1)" "hmap_rep hp1 t1 mss1" "hm_mask t1 = hm_mask t"
    "mset (concat mss1) = mset (concat mss) + mset (nss ! i)" "\<forall>a. a \<notin> set (nss ! i) \<longrightarrow> hp1 a = hp a" "same_hashes hp hp1"
    by blast
  have n1: "hm_n t1 = hm_n t + length (nss ! i)"
    using r1(2) Suc.prems(1) arg_cong [OF r1(4), of size] by (simp add: hmap_rep_def)
  have s1: "set (concat mss1) = set (concat mss) \<union> set (nss ! i)"
    using arg_cong [OF r1(4), of set_mset] by simp
  have "chain hn_next hp1 (bucket_heads h ! j) (nss ! j) 0" if "Suc i \<le> j" "j < length nss" for j
  proof -
    have "nss ! j \<in> set (drop (Suc i) nss)"
      using that nth_mem [of "j - Suc i" "drop (Suc i) nss"] by simp
    then have "set (nss ! i) \<inter> set (nss ! j) = {}" using d(5) by auto
    then have "\<forall>a\<in>set (nss ! j). hp1 a = hp a" using r1(5) by auto
    then show ?thesis using Suc.prems(3) that by (simp add: chain_cong [of _ hp1 hp])
  qed
  then have e: "\<forall>j. Suc i \<le> j \<and> j < length nss \<longrightarrow> chain hn_next hp1 (bucket_heads h ! j) (nss ! j) 0" by blast
  have f: "distinct (concat (drop (Suc i) nss))" "set (concat (drop (Suc i) nss)) \<inter> set (concat mss1) = {}"
    "hm_n t1 + length (concat (drop (Suc i) nss)) < 2 ^ 62"
    using Suc.prems(4,5,6) d(5) unfolding split s1 n1 by auto
  have g: "Suc i + n = length nss" using Suc.prems(2) by simp
  from Suc.IH [OF r1(2) g e f] obtain t' hp' mss' where r2:
    "rehash_buckets h (Suc i) n t1 hp1 = Ok (t', hp')" "hmap_rep hp' t' mss'" "hm_mask t' = hm_mask t1"
    "mset (concat mss') = mset (concat mss1) + mset (concat (drop (Suc i) nss))"
    "\<forall>a. a \<notin> set (concat (drop (Suc i) nss)) \<longrightarrow> hp' a = hp1 a" "same_hashes hp1 hp'"
    by blast
  have "rehash_buckets h i (Suc n) t hp = Ok (t', hp')" using b r1(1) r2(1) by simp
  moreover have "mset (concat mss') = mset (concat mss) + mset (concat (drop i nss))"
    unfolding r2(4) r1(4) split by (simp only: mset_append union_assoc)
  moreover have "\<forall>a. a \<notin> set (concat (drop i nss)) \<longrightarrow> hp' a = hp a"
    using r1(5) r2(5) unfolding split by simp
  moreover have "hm_mask t' = hm_mask t" using r2(3) r1(3) by simp
  ultimately show ?case
    using r2(2) same_hashes_trans [OF r1(6) r2(6)] by blast
qed

section \<open>Resizing\<close>

lemma is_pow2_exp: "is_pow2 (2 ^ k)"
proof -
  have "(2::nat) ^ k AND (2 ^ k - 1) = take_bit k (2 ^ k)" by (simp only: take_bit_eq_mask mask_eq_exp_minus_1)
  then show ?thesis by (simp add: is_pow2_def take_bit_eq_mod)
qed

lemma empty_map_rep:
  "hmap_rep hp hmap_init [[]]"
  "m + 1 = 2 ^ k \<Longrightarrow> m \<noteq> 0 \<Longrightarrow> m < 2 ^ 62 \<Longrightarrow>
     hmap_rep hp (hmap_init\<lparr>hm_buckets := Block (replicate (m + 1) 0), hm_mask := m\<rparr>) (replicate (m + 1) [])"
proof -
  show "hmap_rep hp hmap_init [[]]"
    by (auto simp: hmap_rep_def hmap_init_def hmap_shape_def bucket_heads_def intro: exI [of _ 0])
  have e: "concat (replicate n []) = []" for n by (induction n) simp_all
  show "hmap_rep hp (hmap_init\<lparr>hm_buckets := Block (replicate (m + 1) 0), hm_mask := m\<rparr>) (replicate (m + 1) [])"
    if "m + 1 = 2 ^ k" "m \<noteq> 0" "m < 2 ^ 62"
    using that by (auto simp: hmap_rep_def hmap_init_def hmap_shape_def bucket_heads_def e nth_Cons' simp flip: replicate_Suc)
qed

lemma swap_fst: "hmap_shape t \<Longrightarrow> fst (hmap_swap (h, t)) = t"
  by (cases t) (auto simp: hmap_swap_def hmap_moved_def copy_hmap_def hmap_shape_def split: buckets.splits)

lemma hmap_swap_exchanges: "hmap_shape a \<Longrightarrow> hmap_shape b \<Longrightarrow> hmap_swap (a, b) = (b, a)"
  using swap_fst [of b a] by (cases a) (auto simp: hmap_swap_def hmap_moved_def copy_hmap_def hmap_shape_def split: buckets.splits)

lemma resize_hmap_spec:
  assumes r: "hmap_rep hp h nss" and m: "m + 1 = 2 ^ k" "m < 2 ^ 62" and a: "m = 0 \<or> fst (malloc w)"
  shows "\<exists>h' hp' nss'. resize_hmap h hp m w = Ok ((h', hp'), if m = 0 then w else snd (malloc w)) \<and>
    hmap_rep hp' h' nss' \<and> hm_mask h' = m \<and> mset (concat nss') = mset (concat nss) \<and>
    (\<forall>a. a \<notin> set (concat nss) \<longrightarrow> hp' a = hp a) \<and> same_hashes hp hp'"
proof -
  define t where "t = (if m = 0 then hmap_init else hmap_init\<lparr>hm_buckets := Block (replicate (m + 1) 0), hm_mask := m\<rparr>)"
  define mss where "mss = (if m = 0 then [[]] else replicate (m + 1) ([] :: ptr list))"
  have t: "hmap_rep hp t mss" "hm_mask t = m" "hm_n t = 0" "concat mss = []"
    using empty_map_rep m by (simp_all add: hmap_init_def t_def mss_def)
  have h: "hmap_shape h" "length nss = hm_mask h + 1" "\<forall>j<length nss. length (nss ! j) \<le> hm_n h"
    using r hmap_rep_bucket(4) [OF r] by (auto simp: hmap_rep_def)
  obtain t' hp' nss' where b: "rehash_buckets h 0 (hm_mask h + 1) t hp = Ok (t', hp')" "hmap_rep hp' t' nss'" "hm_mask t' = m"
    "mset (concat nss') = mset (concat nss)" "\<forall>a. a \<notin> set (concat nss) \<longrightarrow> hp' a = hp a" "same_hashes hp hp'"
    using rehash_buckets_spec [OF h t(1), of 0 "hm_mask h + 1"] r unfolding t(2-4) hmap_rep_def by auto
  have p: "w64 (m + 1) = 2 ^ k" using m by (simp add: w64_id)
  have "fst (hmap_swap (h, t')) = t'" using b(2) by (intro swap_fst) (simp add: hmap_rep_def)
  then obtain u where s: "hmap_swap (h, t') = (t', u)" by (metis prod.collapse)
  have "resize_hmap h hp m w = Ok ((t', hp'), if m = 0 then w else snd (malloc w))"
    using a b(1) p is_pow2_exp [of k] s by (auto simp: resize_hmap_def Let_def split_beta t_def)
  with b show ?thesis by blast
qed

lemma resize_hmap_refused:
  assumes "m + 1 = 2 ^ k" "m < 2 ^ 62" "m \<noteq> 0" "\<not> fst (malloc w)"
  shows "resize_hmap h hp m w = Err Fault"
  using assms is_pow2_exp [of k] w64_id [of "m + 1"] by (simp add: resize_hmap_def Let_def split_beta)

end
