(* ===== verification/HmapProps.thy ===== *)
theory HmapProps
  imports HmapSearch HmapResize
begin

text \<open>
  The hash map of src/Clang/map/ovs/hmap.c as a finite map from nodes to hash values: what
  programs of operations do to it, its load, and what searching and iterating return.
\<close>

section \<open>The nodes a map holds\<close>

definition hmap_holds :: "nheap \<Rightarrow> hmap \<Rightarrow> (ptr \<rightharpoonup> nat) \<Rightarrow> bool" where
  "hmap_holds hp h A \<longleftrightarrow> (\<exists>nss. hmap_rep hp h nss \<and>
     (\<forall>a. A a = (if a \<in> set (concat nss) then map_option hn_hash (hp a) else None)))"

lemma hmap_holdsI:
  "hmap_rep hp h nss \<Longrightarrow> (\<And>a. a \<in> set (concat nss) \<Longrightarrow> A a = map_option hn_hash (hp a)) \<Longrightarrow>
     (\<And>a. a \<notin> set (concat nss) \<Longrightarrow> A a = None) \<Longrightarrow> hmap_holds hp h A"
  unfolding hmap_holds_def by (metis (full_types))

lemma hmap_holdsE:
  assumes "hmap_holds hp h A"
  obtains nss where "hmap_rep hp h nss" "\<And>a. a \<in> set (concat nss) \<Longrightarrow> A a = map_option hn_hash (hp a)"
    "\<And>a. a \<notin> set (concat nss) \<Longrightarrow> A a = None" "dom A = set (concat nss)" "hm_n h = card (dom A)"
proof -
  obtain nss where r: "hmap_rep hp h nss" and A: "\<And>a. A a = (if a \<in> set (concat nss) then map_option hn_hash (hp a) else None)"
    using assms by (auto simp: hmap_holds_def)
  have "A a \<noteq> None" if "a \<in> set (concat nss)" for a
  proof -
    note m = that
    obtain nd where "hp a = Some nd" using hmap_rep_node [OF r m] by metis
    then show ?thesis using m A [of a] by simp
  qed
  then have d: "dom A = set (concat nss)" using A by (auto simp: domIff split: if_splits)
  have "distinct (concat nss)" "hm_n h = length (concat nss)" using r by (simp_all add: hmap_rep_def)
  then have "hm_n h = card (dom A)" unfolding d by (simp only: distinct_card)
  with r A d show thesis by (intro that [of nss]) auto
qed

lemma hmap_holds_init: "hmap_holds hp hmap_init (\<lambda>_. None)"
  by (rule hmap_holdsI [OF empty_map_rep(1)]) simp_all

section \<open>Operations\<close>

datatype hmap_op =
    Insert ptr nat
  | Remove ptr
  | Replace ptr ptr
  | Move ptr ptr
  | Expand
  | Shrink
  | Reserve nat
  | Clear

definition hmap_op_run :: "hmap_op \<Rightarrow> hmap \<Rightarrow> nheap \<Rightarrow> world \<Rightarrow> ((hmap \<times> nheap) \<times> world) cres" where
  "hmap_op_run c h hp w =
     (case c of
        Insert a x \<Rightarrow> hmap_insert_at h hp a x w
      | Remove a \<Rightarrow> res_bind (hmap_remove h hp a) (\<lambda>s. Ok (s, w))
      | Replace a b \<Rightarrow> res_bind (hmap_replace h hp a b) (\<lambda>s. Ok (s, w))
      | Move a b \<Rightarrow>
          res_bind (deref hp a) (\<lambda>nd. res_bind (assign hp b nd) (\<lambda>hp. res_bind (hmap_node_moved h hp a b) (\<lambda>s. Ok (s, w))))
      | Expand \<Rightarrow> hmap_expand_at h hp w
      | Shrink \<Rightarrow> hmap_shrink_at h hp w
      | Reserve n \<Rightarrow> hmap_reserve_at h hp n w
      | Clear \<Rightarrow> res_bind (hmap_clear h) (\<lambda>h. Ok ((h, hp), w)))"

fun hmap_run :: "hmap_op list \<Rightarrow> hmap \<Rightarrow> nheap \<Rightarrow> world \<Rightarrow> ((hmap \<times> nheap) \<times> world) cres" where
  "hmap_run [] h hp w = Ok ((h, hp), w)"
| "hmap_run (c # cs) h hp w = res_bind (hmap_op_run c h hp w) (\<lambda>((h, hp), w). hmap_run cs h hp w)"

text \<open>The same on finite maps; \<open>D\<close> holds the addresses of the nodes that exist.\<close>

fun node_op :: "hmap_op \<Rightarrow> (ptr \<rightharpoonup> nat) \<Rightarrow> (ptr \<rightharpoonup> nat)" where
  "node_op (Insert a x) A = A(a \<mapsto> x)"
| "node_op (Remove a) A = A(a := None)"
| "node_op (Replace a b) A = A(a := None, b := A a)"
| "node_op (Move a b) A = A(a := None, b := A a)"
| "node_op Clear A = (\<lambda>_. None)"
| "node_op _ A = A"

fun node_op_legal :: "ptr set \<Rightarrow> hmap_op \<Rightarrow> (ptr \<rightharpoonup> nat) \<Rightarrow> bool" where
  "node_op_legal D (Insert a x) A \<longleftrightarrow> a \<in> D \<and> a \<noteq> 0 \<and> A a = None \<and> card (dom A) + 1 < 2 ^ 62"
| "node_op_legal D (Remove a) A \<longleftrightarrow> A a \<noteq> None"
| "node_op_legal D (Replace a b) A \<longleftrightarrow> A a \<noteq> None \<and> b \<in> D \<and> b \<noteq> 0 \<and> A b = None"
| "node_op_legal D (Move a b) A \<longleftrightarrow> A a \<noteq> None \<and> b \<in> D \<and> b \<noteq> 0 \<and> A b = None"
| "node_op_legal D (Reserve n) A \<longleftrightarrow> n < 2 ^ 62"
| "node_op_legal D _ A \<longleftrightarrow> True"

fun node_run :: "hmap_op list \<Rightarrow> (ptr \<rightharpoonup> nat) \<Rightarrow> (ptr \<rightharpoonup> nat)" where
  "node_run [] A = A"
| "node_run (c # cs) A = node_run cs (node_op c A)"

fun node_run_legal :: "ptr set \<Rightarrow> hmap_op list \<Rightarrow> (ptr \<rightharpoonup> nat) \<Rightarrow> bool" where
  "node_run_legal D [] A \<longleftrightarrow> True"
| "node_run_legal D (c # cs) A \<longleftrightarrow> node_op_legal D c A \<and> node_run_legal D cs (node_op c A)"

text \<open>The node lists of an updated bucket.\<close>

lemma concat_update_mem:
  assumes "distinct (concat nss)" "i < length nss" "nss ! i = as @ a # bs"
  shows "set (concat (nss[i := as @ bs])) = set (concat nss) - {a}"
    "set (concat (nss[i := as @ b # bs])) = insert b (set (concat nss) - {a})"
proof -
  have d: "mset (concat nss) = {#a#} + mset (concat (nss[i := as @ bs]))"
    using mset_concat_update [OF assms(2), of "as @ bs"] unfolding assms(3) by simp
  moreover have "count (mset (concat nss)) a \<le> 1"
    using assms(1) unfolding distinct_count_atmost_1 by (cases "a \<in> set (concat nss)") simp_all
  ultimately have "a \<notin># mset (concat (nss[i := as @ bs]))"
    by (simp add: not_in_iff del: mset_concat)
  then have "a \<notin> set (concat (nss[i := as @ bs]))" by (metis set_mset_mset)
  then show e: "set (concat (nss[i := as @ bs])) = set (concat nss) - {a}"
    using arg_cong [OF d, of set_mset] by (simp only: set_mset_mset set_mset_union) auto
  from set_concat_insert [of i "nss[i := as @ bs]" as bs b] assms(2) e
  show "set (concat (nss[i := as @ b # bs])) = insert b (set (concat nss) - {a})" by (simp del: set_concat)
qed

section \<open>Each operation\<close>

lemma holds_insert_fast:
  assumes "hmap_holds hp h A" "hp a = Some nd" "a \<noteq> 0" "A a = None" "card (dom A) + 1 < 2 ^ 62"
  shows "\<exists>h' hp'. hmap_insert_fast h hp a x = Ok (h', hp') \<and> hmap_holds hp' h' (A(a \<mapsto> x)) \<and>
    hm_mask h' = hm_mask h \<and> dom hp' = dom hp"
proof -
  obtain nss where n: "hmap_rep hp h nss" "\<And>a. a \<in> set (concat nss) \<Longrightarrow> A a = map_option hn_hash (hp a)"
    "\<And>a. a \<notin> set (concat nss) \<Longrightarrow> A a = None" "dom A = set (concat nss)" "hm_n h = card (dom A)"
    using hmap_holdsE [OF assms(1)] by metis
  let ?i = "x AND hm_mask h"
  have a: "a \<notin> set (concat nss)" using n(4) assms(4) by (auto simp: domIff)
  have i: "?i < length nss" using n(1) and_mask_le [of x "hm_mask h"] by (simp add: hmap_rep_def)
  obtain h' hp' where f: "hmap_insert_fast h hp a x = Ok (h', hp')" "hp' = hp(a \<mapsto> nd\<lparr>hn_hash := x, hn_next := bucket_heads h ! ?i\<rparr>)"
    "hmap_rep hp' h' (nss[?i := a # nss ! ?i])" "hm_mask h' = hm_mask h"
    using hmap_insert_fast_spec [OF n(1) assms(2,3) a, of x] assms(5) n(5) by auto
  have s: "set (concat (nss[?i := a # nss ! ?i])) = insert a (set (concat nss))"
    using set_concat_insert [OF i, of "[]" "nss ! ?i" a] by (simp del: set_concat)
  have "hmap_holds hp' h' (A(a \<mapsto> x))"
  proof (rule hmap_holdsI [OF f(3)])
    show "(A(a \<mapsto> x)) c = map_option hn_hash (hp' c)" if "c \<in> set (concat (nss[?i := a # nss ! ?i]))" for c
      using that n(2) [of c] unfolding s f(2) by (cases "c = a") auto
    show "(A(a \<mapsto> x)) c = None" if "c \<notin> set (concat (nss[?i := a # nss ! ?i]))" for c
      using that n(3) [of c] unfolding s by auto
  qed
  with f assms(2) show ?thesis by (intro exI [of _ h'] exI [of _ hp']) auto
qed

lemma holds_remove:
  assumes "hmap_holds hp h A" "A a \<noteq> None"
  shows "\<exists>h' hp'. hmap_remove h hp a = Ok (h', hp') \<and> hmap_holds hp' h' (A(a := None)) \<and> hm_mask h' = hm_mask h \<and>
    same_hashes hp hp'"
proof -
  obtain nss where n: "hmap_rep hp h nss" "\<And>a. a \<in> set (concat nss) \<Longrightarrow> A a = map_option hn_hash (hp a)"
    "\<And>a. a \<notin> set (concat nss) \<Longrightarrow> A a = None" "dom A = set (concat nss)" "hm_n h = card (dom A)"
    using hmap_holdsE [OF assms(1)] by metis
  have "a \<in> set (concat nss)" using n(4) assms(2) by (auto simp: domIff)
  from hmap_remove_spec [OF n(1) this] obtain h' hp' i as bs where f: "hmap_remove h hp a = Ok (h', hp')" "i < length nss"
    "nss ! i = as @ a # bs" "hmap_rep hp' h' (nss[i := as @ bs])" "hm_mask h' = hm_mask h" "same_hashes hp hp'"
    by metis
  have "distinct (concat nss)" using n(1) by (simp add: hmap_rep_def)
  note s = concat_update_mem(1) [OF this f(2,3)]
  have "hmap_holds hp' h' (A(a := None))"
  proof (rule hmap_holdsI [OF f(4)])
    show "(A(a := None)) c = map_option hn_hash (hp' c)" if "c \<in> set (concat (nss[i := as @ bs]))" for c
      using that n(2) [of c] f(6) unfolding s same_hashes_def by simp
    show "(A(a := None)) c = None" if "c \<notin> set (concat (nss[i := as @ bs]))" for c
      using that n(3) [of c] unfolding s by auto
  qed
  with f show ?thesis by blast
qed

lemma holds_replace:
  assumes "hmap_holds hp h A" "A a \<noteq> None" "hp b \<noteq> None" "b \<noteq> 0" "A b = None"
  shows "\<exists>h' hp'. hmap_replace h hp a b = Ok (h', hp') \<and> hmap_holds hp' h' (A(a := None, b := A a)) \<and>
    hm_mask h' = hm_mask h \<and> dom hp' = dom hp"
proof -
  obtain nss where n: "hmap_rep hp h nss" "\<And>a. a \<in> set (concat nss) \<Longrightarrow> A a = map_option hn_hash (hp a)"
    "\<And>a. a \<notin> set (concat nss) \<Longrightarrow> A a = None" "dom A = set (concat nss)" "hm_n h = card (dom A)"
    using hmap_holdsE [OF assms(1)] by metis
  obtain m where b: "hp b = Some m" using assms(3) by blast
  have ab: "a \<in> set (concat nss)" "b \<notin> set (concat nss)" using n(4) assms(2,5) by (auto simp: domIff)
  from hmap_replace_spec [OF n(1) ab(1) b assms(4) ab(2)] obtain h' hp' i as bs where f:
    "hmap_replace h hp a b = Ok (h', hp')" "i < length nss" "nss ! i = as @ a # bs" "hmap_rep hp' h' (nss[i := as @ b # bs])"
    "hm_mask h' = hm_mask h" "map_option hn_hash (hp' b) = map_option hn_hash (hp a)"
    "\<And>c. c \<noteq> b \<Longrightarrow> map_option hn_hash (hp' c) = map_option hn_hash (hp c)" "dom hp' = dom hp"
    by metis
  have "distinct (concat nss)" using n(1) by (simp add: hmap_rep_def)
  note s = concat_update_mem(2) [OF this f(2,3), of b]
  have "hmap_holds hp' h' (A(a := None, b := A a))"
  proof (rule hmap_holdsI [OF f(4)])
    show "(A(a := None, b := A a)) c = map_option hn_hash (hp' c)" if "c \<in> set (concat (nss[i := as @ b # bs]))" for c
      using that n(2) [of c] n(2) [OF ab(1)] f(6,7) unfolding s by (cases "c = b") auto
    show "(A(a := None, b := A a)) c = None" if "c \<notin> set (concat (nss[i := as @ b # bs]))" for c
      using that n(3) [of c] unfolding s by auto
  qed
  with f show ?thesis by blast
qed

lemma holds_move:
  assumes "hmap_holds hp h A" "A a \<noteq> None" "hp b \<noteq> None" "b \<noteq> 0" "A b = None"
  shows "\<exists>h' hp'. hmap_op_run (Move a b) h hp w = Ok ((h', hp'), w) \<and> hmap_holds hp' h' (A(a := None, b := A a)) \<and>
    hm_mask h' = hm_mask h \<and> dom hp' = dom hp"
proof -
  obtain nss where n: "hmap_rep hp h nss" "\<And>a. a \<in> set (concat nss) \<Longrightarrow> A a = map_option hn_hash (hp a)"
    "\<And>a. a \<notin> set (concat nss) \<Longrightarrow> A a = None" "dom A = set (concat nss)" "hm_n h = card (dom A)"
    using hmap_holdsE [OF assms(1)] by metis
  have ab: "a \<in> set (concat nss)" "b \<notin> set (concat nss)" "b \<noteq> a" using n(4) assms(2,5) by (auto simp: domIff)
  obtain nd m where a: "hp a = Some nd" "a \<noteq> 0" "hp b = Some m" using hmap_rep_node [OF n(1) ab(1)] assms(3) by (metis not_None_eq)
  let ?hp = "hp(b \<mapsto> nd)"
  have r: "hmap_rep ?hp h nss" using n(1) by (rule hmap_rep_other) (use ab(2) in auto)
  have "?hp b = ?hp a" using a(1) ab(3) by simp
  from hmap_node_moved_spec [OF r ab(1) this assms(4) ab(2)] obtain h' hp' i as bs where f:
    "hmap_node_moved h ?hp a b = Ok (h', hp')" "i < length nss" "nss ! i = as @ a # bs" "hmap_rep hp' h' (nss[i := as @ b # bs])"
    "hm_mask h' = hm_mask h" "same_hashes ?hp hp'"
    by blast
  have "distinct (concat nss)" using n(1) by (simp add: hmap_rep_def)
  note s = concat_update_mem(2) [OF this f(2,3), of b]
  have "hmap_holds hp' h' (A(a := None, b := A a))"
  proof (rule hmap_holdsI [OF f(4)])
    show "(A(a := None, b := A a)) c = map_option hn_hash (hp' c)" if "c \<in> set (concat (nss[i := as @ b # bs]))" for c
      using that n(2) [of c] n(2) [OF ab(1)] same_hashes_at [OF f(6), of c] a(1) unfolding s by (cases "c = b") auto
    show "(A(a := None, b := A a)) c = None" if "c \<notin> set (concat (nss[i := as @ b # bs]))" for c
      using that n(3) [of c] unfolding s by auto
  qed
  moreover have "hmap_op_run (Move a b) h hp w = Ok ((h', hp'), w)"
    using a assms(4) f(1) by (simp add: hmap_op_run_def)
  moreover have "dom hp' = dom hp" using same_hashes_dom [OF f(6)] a(3) by auto
  ultimately show ?thesis using f(5) by blast
qed

lemma card_dom_replaced:
  assumes "finite (dom A)" "A a \<noteq> None" "A b = None"
  shows "card (dom (A(a := None, b := A a))) = card (dom A)"
proof -
  obtain y where y: "A a = Some y" using assms(2) by blast
  have "dom (A(a := None, b := A a)) = insert b (dom A - {a})" using y assms(3) by auto
  moreover have "a \<in> dom A" "b \<notin> dom A - {a}" using y assms(3) by auto
  ultimately show ?thesis
    using card_Suc_Diff1 [of "dom A" a] card_insert_disjoint [of "dom A - {a}" b] assms(1) by simp
qed

lemma holds_resize:
  assumes "hmap_holds hp h A" "m + 1 = 2 ^ k" "m < 2 ^ 62" "\<not> may_oom w"
  shows "\<exists>h' hp' w'. resize_hmap h hp m w = Ok ((h', hp'), w') \<and> hmap_holds hp' h' A \<and> hm_mask h' = m \<and>
    same_hashes hp hp' \<and> \<not> may_oom w'"
proof -
  obtain nss where n: "hmap_rep hp h nss" "\<And>a. a \<in> set (concat nss) \<Longrightarrow> A a = map_option hn_hash (hp a)"
    "\<And>a. a \<notin> set (concat nss) \<Longrightarrow> A a = None" "dom A = set (concat nss)" "hm_n h = card (dom A)"
    using hmap_holdsE [OF assms(1)] by metis
  have "m = 0 \<or> fst (malloc w)" using assms(4) malloc_fst by blast
  from resize_hmap_spec [OF n(1) assms(2,3) this] obtain h' hp' nss' where f:
    "resize_hmap h hp m w = Ok ((h', hp'), if m = 0 then w else snd (malloc w))" "hmap_rep hp' h' nss'" "hm_mask h' = m"
    "mset (concat nss') = mset (concat nss)" "same_hashes hp hp'"
    by blast
  have s: "set (concat nss') = set (concat nss)" using mset_eq_setD [OF f(4)] .
  have "hmap_holds hp' h' A"
    by (rule hmap_holdsI [OF f(2)]) (use n(2,3) same_hashes_at [OF f(5)] in \<open>simp_all only: s\<close>)
  moreover have "\<not> may_oom (if m = 0 then w else snd (malloc w))" using assms(4) malloc_snd by auto
  ultimately show ?thesis using f by blast
qed

lemma holds_n: "hmap_holds hp h A \<Longrightarrow> hm_n h < 2 ^ 62 \<and> hm_n h = card (dom A)"
  by (erule hmap_holdsE) (simp add: hmap_rep_def)

text \<open>The map is not loaded with more than two nodes per bucket, rounded.\<close>

definition hmap_inv :: "nheap \<Rightarrow> hmap \<Rightarrow> (ptr \<rightharpoonup> nat) \<Rightarrow> bool" where
  "hmap_inv hp h A \<longleftrightarrow> hmap_holds hp h A \<and> hm_n h div 2 \<le> hm_mask h"

definition hmap_step_ok :: "ptr set \<Rightarrow> (ptr \<rightharpoonup> nat) \<Rightarrow> ((hmap \<times> nheap) \<times> world) cres \<Rightarrow> bool" where
  "hmap_step_ok D A r = wp False r (\<lambda>((h, hp), w). hmap_inv hp h A \<and> dom hp = D \<and> \<not> may_oom w)"

lemma resize_to_calc_mask:
  assumes "hmap_holds hp h A" "n < 2 ^ 62" "hm_n h div 2 \<le> calc_mask n" "\<not> may_oom w"
  shows "hmap_step_ok (dom hp) A (resize_hmap h hp (calc_mask n) w)"
proof -
  obtain k where k: "k \<le> 62" "calc_mask n + 1 = 2 ^ k"
    using calc_mask_eq [OF assms(2)] by blast
  have "calc_mask n \<le> max 3 n" using calc_mask_eq [OF assms(2)] by blast
  then have m: "calc_mask n < 2 ^ 62" using assms(2) by (simp add: max_def split: if_splits)
  obtain h' hp' w' where f: "resize_hmap h hp (calc_mask n) w = Ok ((h', hp'), w')" "hmap_holds hp' h' A"
    "hm_mask h' = calc_mask n" "same_hashes hp hp'" "\<not> may_oom w'"
    using holds_resize [OF assms(1) k(2) m assms(4)] by blast
  have "hm_n h' = hm_n h" using holds_n [OF f(2)] holds_n [OF assms(1)] by simp
  with f assms(3) same_hashes_dom [OF f(4)] show ?thesis
    by (simp add: hmap_step_ok_def hmap_inv_def)
qed

lemma calc_mask_le: "n < 2 ^ 62 \<Longrightarrow> n div 2 \<le> calc_mask n"
  using calc_mask_eq [of n] by blast

lemma expand_ok:
  assumes "hmap_holds hp h A" "\<not> may_oom w"
  shows "hmap_step_ok (dom hp) A (hmap_expand_at h hp w)"
  using resize_to_calc_mask [OF assms(1) _ _ assms(2), of "hm_n h"] holds_n [OF assms(1)] calc_mask_le [of "hm_n h"] assms
  by (auto simp: hmap_expand_at_def Let_def hmap_step_ok_def hmap_inv_def)

lemma shrink_ok:
  assumes "hmap_inv hp h A" "\<not> may_oom w"
  shows "hmap_step_ok (dom hp) A (hmap_shrink_at h hp w)"
proof -
  have h: "hmap_holds hp h A" using assms(1) by (simp add: hmap_inv_def)
  show ?thesis
    using resize_to_calc_mask [OF h _ _ assms(2), of "hm_n h"] holds_n [OF h] calc_mask_le [of "hm_n h"] assms
    by (auto simp: hmap_shrink_at_def Let_def hmap_step_ok_def)
qed

lemma reserve_ok:
  assumes "hmap_inv hp h A" "n < 2 ^ 62" "\<not> may_oom w"
  shows "hmap_step_ok (dom hp) A (hmap_reserve_at h hp n w)"
proof (cases "hm_mask h < calc_mask n")
  case True
  have h: "hmap_holds hp h A" "hm_n h div 2 \<le> hm_mask h" using assms(1) by (simp_all add: hmap_inv_def)
  with True resize_to_calc_mask [OF h(1) assms(2) _ assms(3)] show ?thesis by (simp add: hmap_reserve_at_def Let_def)
next
  case False
  with assms show ?thesis by (simp add: hmap_reserve_at_def Let_def hmap_step_ok_def)
qed

lemma insert_ok:
  assumes "hmap_inv hp h A" "a \<in> dom hp" "a \<noteq> 0" "A a = None" "card (dom A) + 1 < 2 ^ 62" "\<not> may_oom w"
  shows "hmap_step_ok (dom hp) (A(a \<mapsto> x)) (hmap_insert_at h hp a x w)"
proof -
  obtain nd where "hp a = Some nd" using assms(2) by blast
  moreover have "hmap_holds hp h A" using assms(1) by (simp add: hmap_inv_def)
  ultimately obtain h' hp' where f: "hmap_insert_fast h hp a x = Ok (h', hp')" "hmap_holds hp' h' (A(a \<mapsto> x))" "dom hp' = dom hp"
    using holds_insert_fast assms(3-5) by blast
  then show ?thesis
    using expand_ok [OF f(2) assms(6)] assms(6) by (auto simp: hmap_insert_at_def hmap_step_ok_def hmap_inv_def not_less)
qed

lemma clear_ok:
  assumes "hmap_inv hp h A" "\<not> may_oom w"
  shows "hmap_step_ok (dom hp) (\<lambda>_. None) (res_bind (hmap_clear h) (\<lambda>h. Ok ((h, hp), w)))"
proof (cases "hm_n h = 0")
  case True
  have h: "hmap_holds hp h A" using assms(1) by (simp add: hmap_inv_def)
  obtain nss where "dom A = set (concat nss)" using hmap_holdsE [OF h] by metis
  then have "finite (dom A)" by simp
  then have "A = (\<lambda>_. None)" using holds_n [OF h] True by (simp add: dom_eq_empty_conv)
  then show ?thesis using True assms by (simp add: hmap_clear_def hmap_step_ok_def)
next
  case False
  have h: "hmap_holds hp h A" using assms(1) by (simp add: hmap_inv_def)
  obtain nss where "hmap_rep hp h nss" using hmap_holdsE [OF h] by metis
  then have s: "hmap_shape h" by (simp add: hmap_rep_def)
  let ?bs = "replicate (hm_mask h + 1) (0 :: ptr)"
  let ?h = "case hm_buckets h of Block bs \<Rightarrow> h\<lparr>hm_n := 0, hm_buckets := Block ?bs\<rparr> | _ \<Rightarrow> h\<lparr>hm_n := 0, hm_one := 0\<rparr>"
  have c: "hmap_clear h = Ok ?h"
    using s False by (auto simp: hmap_clear_def hmap_shape_def split: buckets.splits)
  have e: "concat (replicate n []) = []" for n by (induction n) simp_all
  have "hmap_rep hp ?h (replicate (hm_mask h + 1) [])"
    using s by (auto simp: hmap_rep_def hmap_shape_def bucket_heads_def e nth_Cons' split: buckets.splits simp flip: replicate_Suc)
  then have "hmap_holds hp ?h (\<lambda>_. None)" by (rule hmap_holdsI) (simp_all add: e)
  then show ?thesis
    using holds_n [of hp ?h "\<lambda>_. None"] c assms(2) by (simp add: hmap_step_ok_def hmap_inv_def)
qed

lemma hmap_op_ok:
  assumes "hmap_inv hp h A" "node_op_legal (dom hp) c A" "\<not> may_oom w"
  shows "hmap_step_ok (dom hp) (node_op c A) (hmap_op_run c h hp w)"
proof -
  have h: "hmap_holds hp h A" "hm_n h div 2 \<le> hm_mask h" using assms(1) by (simp_all add: hmap_inv_def)
  show ?thesis
  proof (cases c)
    case (Insert a x)
    with insert_ok [OF assms(1), of a w x] assms(2,3) show ?thesis by (simp add: hmap_op_run_def)
  next
    case (Remove a)
    with assms(2) have a: "A a \<noteq> None" by simp
    obtain h' hp' where f: "hmap_remove h hp a = Ok (h', hp')" "hmap_holds hp' h' (A(a := None))" "hm_mask h' = hm_mask h"
      "same_hashes hp hp'"
      using holds_remove [OF h(1) a] by blast
    have "hm_n h' \<le> hm_n h"
      using holds_n [OF f(2)] holds_n [OF h(1)] card_Diff1_le [of "dom A" a] by simp
    then have "hm_n h' div 2 \<le> hm_mask h'" using h(2) f(3) by (metis div_le_mono le_trans)
    then show ?thesis using f Remove same_hashes_dom [OF f(4)] assms(3)
      by (simp add: hmap_op_run_def hmap_step_ok_def hmap_inv_def)
  next
    case (Replace a b)
    with assms(2) have a: "A a \<noteq> None" "hp b \<noteq> None" "b \<noteq> 0" "A b = None" by auto
    obtain h' hp' where f: "hmap_replace h hp a b = Ok (h', hp')" "hmap_holds hp' h' (A(a := None, b := A a))"
      "hm_mask h' = hm_mask h" "dom hp' = dom hp"
      using holds_replace [OF h(1) a] by blast
    have "finite (dom A)" using hmap_holdsE [OF h(1)] by (metis List.finite_set)
    from card_dom_replaced [OF this a(1,4)]
    have "hm_n h' = hm_n h" using holds_n [OF f(2)] holds_n [OF h(1)] by simp
    then show ?thesis using f Replace h(2) assms(3)
      by (simp add: hmap_op_run_def hmap_step_ok_def hmap_inv_def)
  next
    case (Move a b)
    with assms(2) have a: "A a \<noteq> None" "hp b \<noteq> None" "b \<noteq> 0" "A b = None" by auto
    obtain h' hp' where f: "hmap_op_run (Move a b) h hp w = Ok ((h', hp'), w)" "hmap_holds hp' h' (A(a := None, b := A a))"
      "hm_mask h' = hm_mask h" "dom hp' = dom hp"
      using holds_move [OF h(1) a] by blast
    have "finite (dom A)" using hmap_holdsE [OF h(1)] by (metis List.finite_set)
    from card_dom_replaced [OF this a(1,4)]
    have "hm_n h' = hm_n h" using holds_n [OF f(2)] holds_n [OF h(1)] by simp
    then show ?thesis using f Move h(2) assms(3) by (simp add: hmap_step_ok_def hmap_inv_def)
  next
    case (Reserve n)
    with reserve_ok [OF assms(1) _ assms(3), of n] assms(2) show ?thesis by (simp add: hmap_op_run_def)
  qed (use expand_ok [OF h(1) assms(3)] shrink_ok [OF assms(1,3)] clear_ok [OF assms(1,3)] in \<open>simp_all add: hmap_op_run_def\<close>)
qed

lemma hmap_run_ok:
  "hmap_inv hp h A \<Longrightarrow> node_run_legal (dom hp) cs A \<Longrightarrow> \<not> may_oom w \<Longrightarrow>
     hmap_step_ok (dom hp) (node_run cs A) (hmap_run cs h hp w)"
proof (induction cs arbitrary: h hp A w)
  case Nil
  then show ?case by (simp add: hmap_step_ok_def)
next
  case (Cons c cs)
  from hmap_op_ok [OF Cons.prems(1) _ Cons.prems(3), of c] Cons.prems(2)
  have "hmap_step_ok (dom hp) (node_op c A) (hmap_op_run c h hp w)" by simp
  then obtain h' hp' w' where s: "hmap_op_run c h hp w = Ok ((h', hp'), w')" "hmap_inv hp' h' (node_op c A)" "dom hp' = dom hp" "\<not> may_oom w'"
    by (auto simp: hmap_step_ok_def wp_total)
  with Cons.IH [OF s(2) _ s(4)] Cons.prems(2) show ?case by simp
qed

section \<open>What searching returns\<close>

text \<open>The observations: count, both loops, and the membership test.\<close>

definition hmap_observes :: "nheap \<Rightarrow> hmap \<Rightarrow> (ptr \<rightharpoonup> nat) \<Rightarrow> bool" where
  "hmap_observes hp h A \<longleftrightarrow>
     hmap_count h = card (dom A) \<and> (hmap_is_empty h \<longleftrightarrow> A = (\<lambda>_. None)) \<and>
     (\<exists>as. res_bind (hmap_first h) (hmap_for_each (hm_n h) h hp) = Ok as \<and> distinct as \<and> set as = dom A) \<and>
     (\<forall>x. \<exists>as. res_bind (hmap_first_with_hash h hp x) (hmap_for_each_with_hash (hm_n h) h hp) = Ok as \<and>
        distinct as \<and> set as = {a. A a = Some x}) \<and>
     (\<forall>a\<in>dom hp. a \<noteq> 0 \<longrightarrow> hmap_contains h hp a = Ok (a \<in> dom A))"

lemma holds_observes:
  assumes "hmap_holds hp h A"
  shows "hmap_observes hp h A"
proof -
  obtain nss where n: "hmap_rep hp h nss" "\<And>a. a \<in> set (concat nss) \<Longrightarrow> A a = map_option hn_hash (hp a)"
    "\<And>a. a \<notin> set (concat nss) \<Longrightarrow> A a = None" "dom A = set (concat nss)" "hm_n h = card (dom A)"
    using hmap_holdsE [OF assms] by metis
  have d: "distinct (concat nss)" using n(1) by (simp add: hmap_rep_def)
  have "finite (dom A)" unfolding n(4) by (rule List.finite_set)
  then have e: "hmap_is_empty h \<longleftrightarrow> A = (\<lambda>_. None)" using n(5) by (simp add: hmap_is_empty_def dom_eq_empty_conv)
  have f: "set (filter (has_hash hp x) (concat nss)) = {a. A a = Some x}" for x
  proof (intro set_eqI)
    fix a
    show "a \<in> set (filter (has_hash hp x) (concat nss)) \<longleftrightarrow> a \<in> {a. A a = Some x}"
      using n(2,3) [of a] by (cases "a \<in> set (concat nss)") (auto simp: has_hash_def split: option.splits)
  qed
  have c: "\<forall>a\<in>dom hp. a \<noteq> 0 \<longrightarrow> hmap_contains h hp a = Ok (a \<in> dom A)"
    using hmap_contains_spec [OF n(1)] unfolding n(4) by blast
  have l: "\<exists>as. Ok (concat nss) = Ok as \<and> distinct as \<and> set as = dom A" using d n(4) by blast
  have "\<exists>as. Ok (filter (has_hash hp x) (concat nss)) = Ok as \<and> distinct as \<and> set as = {a. A a = Some x}" for x
    using distinct_filter [OF d, of "has_hash hp x"] f [of x] by blast
  then show ?thesis
    using n(5) e l c unfolding hmap_observes_def hmap_for_each_spec [OF n(1)] hmap_for_each_with_hash_spec [OF n(1)] hmap_count_def
    by blast
qed

section \<open>Properties\<close>

text \<open>
  C4. Any program of insertions, removals, replacements, moves of nodes, and growing, shrinking,
  reserving and clearing, from an empty map and while memory lasts, leaves a map that answers
  like a finite map from nodes to hash values: the count, the membership test, the loop over all
  nodes and the loop over the nodes with a hash value, which visit each node once and end. The
  map never holds more nodes than its capacity.
\<close>

theorem hmap_program_refines:
  assumes "node_run_legal (dom hp) cs (\<lambda>_. None)" "\<not> may_oom w"
  shows "\<exists>h' hp' w'. hmap_run cs hmap_init hp w = Ok ((h', hp'), w') \<and> dom hp' = dom hp \<and>
    hmap_observes hp' h' (node_run cs (\<lambda>_. None)) \<and> hmap_count h' \<le> hmap_capacity h'"
proof -
  have "hmap_inv hp hmap_init (\<lambda>_. None)"
    using hmap_holds_init by (simp add: hmap_inv_def hmap_init_def)
  from hmap_run_ok [OF this assms] obtain h' hp' w' where r: "hmap_run cs hmap_init hp w = Ok ((h', hp'), w')"
    "hmap_inv hp' h' (node_run cs (\<lambda>_. None))" "dom hp' = dom hp"
    by (auto simp: hmap_step_ok_def wp_total)
  have h: "hmap_holds hp' h' (node_run cs (\<lambda>_. None))" "hm_n h' div 2 \<le> hm_mask h'" using r(2) by (simp_all add: hmap_inv_def)
  obtain nss where "hmap_rep hp' h' nss" using hmap_holdsE [OF h(1)] by metis
  then have "hm_mask h' < 2 ^ 62" by (simp add: hmap_rep_def hmap_shape_def)
  then have "hmap_count h' \<le> hmap_capacity h'" using h(2) by (simp add: hmap_count_def hmap_capacity_def w64_id)
  with r holds_observes [OF h(1)] show ?thesis by blast
qed

definition three_nodes :: nheap where
  "three_nodes = (\<lambda>a. if a \<in> {1, 2, 3} then Some \<lparr>hn_hash = 0, hn_next = 0\<rparr> else None)"

lemma hmap_program_refines_witness:
  "\<exists>h' hp' w'. hmap_run [Insert 1 7, Insert 2 7, Reserve 9, Remove 1, Replace 2 3] hmap_init three_nodes quiet = Ok ((h', hp'), w') \<and>
     dom hp' = dom three_nodes \<and> hmap_observes hp' h' [3 \<mapsto> 7] \<and> hmap_count h' \<le> hmap_capacity h'"
proof -
  have "dom three_nodes = {1, 2, 3}" by (auto simp: three_nodes_def split: if_splits)
  then have "node_run_legal (dom three_nodes) [Insert 1 7, Insert 2 7, Reserve 9, Remove 1, Replace 2 3] (\<lambda>_. None)" by simp
  moreover have "node_run [Insert 1 7, Insert 2 7, Reserve 9, Remove 1, Replace 2 3] (\<lambda>_. None) = [3 \<mapsto> 7]" by auto
  ultimately show ?thesis
    using hmap_program_refines [of three_nodes "[Insert 1 7, Insert 2 7, Reserve 9, Remove 1, Replace 2 3]" quiet] by simp
qed

text \<open>
  Walking a map by bucket and offset, with the position carried from call to call, ends and
  visits the same nodes in the same order as the loop over all nodes, as long as the positions
  fit their 32 bits.
\<close>

theorem hmap_positions_visit_all:
  assumes "hmap_holds hp h A" "hm_mask h + 1 < 2 ^ 32" "hm_n h < 2 ^ 32"
  shows "position_walk (hmap_count h + 1) h hp 0 0 = res_bind (hmap_first h) (hmap_for_each (hmap_count h) h hp)"
proof -
  obtain nss where n: "hmap_rep hp h nss" using hmap_holdsE [OF assms(1)] by metis
  then have "hm_n h = length (concat nss)" by (simp add: hmap_rep_def)
  with position_walk_spec [OF n assms(2,3), of 0 0 "hm_n h + 1"] hmap_for_each_spec [OF n] show ?thesis
    by (simp add: after_position_0 hmap_count_def)
qed

lemma hmap_positions_visit_all_witness:
  "position_walk (hmap_count hmap_init + 1) hmap_init three_nodes 0 0 =
     res_bind (hmap_first hmap_init) (hmap_for_each (hmap_count hmap_init) hmap_init three_nodes)"
  by (rule hmap_positions_visit_all [OF hmap_holds_init]) (simp_all add: hmap_init_def)

text \<open>
  An insertion that makes the map grow while memory is refused dereferences NULL: the
  result of \<open>malloc\<close> is not checked.
\<close>

theorem hmap_insert_refused_faults:
  assumes "hmap_holds hp h A" "hp a = Some nd" "a \<noteq> 0" "A a = None" "card (dom A) + 1 < 2 ^ 62"
    and "hm_mask h < (hm_n h + 1) div 2" "\<not> fst (malloc w)"
  shows "hmap_insert_at h hp a x w = Err Fault"
proof -
  obtain h' hp' where f: "hmap_insert_fast h hp a x = Ok (h', hp')" "hmap_holds hp' h' (A(a \<mapsto> x))" "hm_mask h' = hm_mask h"
    using holds_insert_fast [OF assms(1-5)] by blast
  have "finite (dom A)" using hmap_holdsE [OF assms(1)] by (metis List.finite_set)
  moreover have "a \<notin> dom A" using assms(4) by auto
  ultimately have n: "hm_n h' = hm_n h + 1" using holds_n [OF f(2)] holds_n [OF assms(1)] by simp
  have l: "hm_n h' < 2 ^ 62" using holds_n [OF f(2)] by blast
  obtain k where k: "calc_mask (hm_n h') + 1 = 2 ^ k" "hm_n h' div 2 \<le> calc_mask (hm_n h')" "calc_mask (hm_n h') \<le> max 3 (hm_n h')"
    using calc_mask_eq [OF l] by blast
  have m: "hm_mask h' < calc_mask (hm_n h')" "calc_mask (hm_n h') < 2 ^ 62"
    using k(2,3) l assms(6) n f(3) by (auto simp: max_def split: if_splits)
  have "resize_hmap h' hp' (calc_mask (hm_n h')) w = Err Fault"
    using m by (intro resize_hmap_refused [OF k(1) m(2)] assms(7)) simp
  then show ?thesis using f n m assms(6) by (simp add: hmap_insert_at_def hmap_expand_at_def Let_def)
qed

definition one_node_map :: hmap where
  "one_node_map = \<lparr>hm_buckets = Own_one, hm_one = 1, hm_mask = 0, hm_n = 1\<rparr>"

lemma one_node_map_holds: "hmap_holds (three_nodes(1 \<mapsto> \<lparr>hn_hash = 7, hn_next = 0\<rparr>)) one_node_map [1 \<mapsto> 7]"
proof -
  have "hmap_insert_fast hmap_init three_nodes 1 7 = Ok (one_node_map, three_nodes(1 \<mapsto> \<lparr>hn_hash = 7, hn_next = 0\<rparr>))"
    by (simp add: hmap_insert_fast_def three_nodes_def hmap_init_def read_bucket_def write_bucket_def deref_def assign_def
        one_node_map_def w64_def)
  with holds_insert_fast [OF hmap_holds_init, of three_nodes 1 "\<lparr>hn_hash = 0, hn_next = 0\<rparr>" 7] show ?thesis
    by (simp add: three_nodes_def)
qed

lemma hmap_insert_refused_faults_witness:
  "hmap_insert_at one_node_map (three_nodes(1 \<mapsto> \<lparr>hn_hash = 7, hn_next = 0\<rparr>)) 2 7 (quiet\<lparr>oom_script := [True]\<rparr>) = Err Fault"
  by (rule hmap_insert_refused_faults [OF one_node_map_holds, of _ "\<lparr>hn_hash = 0, hn_next = 0\<rparr>"])
    (simp_all add: three_nodes_def one_node_map_def malloc_def)

end
