(* ===== verification/CcanList.thy ===== *)
theory CcanList
  imports PtrHeap
begin

text \<open>
  The doubly linked lists of src/Clang/list/lwan/list.h and list.c. A list is a ring of nodes
  in the heap, its head among them. The parameter \<open>d\<close> is the build: \<open>None\<close> without
  \<open>_LIST_DEBUG\<close>; with it, \<open>Some k\<close>, where \<open>k\<close> is the number of nodes after which the loop of a
  check is taken not to end, which is a \<open>Fault\<close> here.
\<close>

section \<open>Nodes\<close>

record list_node =
  ln_next :: ptr
  ln_prev :: ptr

type_synonym lheap = "list_node heap"

definition get_next :: "lheap \<Rightarrow> ptr \<Rightarrow> ptr cres" where
  "get_next hp p = res_bind (deref hp p) (\<lambda>n. Ok (ln_next n))"

definition get_prev :: "lheap \<Rightarrow> ptr \<Rightarrow> ptr cres" where
  "get_prev hp p = res_bind (deref hp p) (\<lambda>n. Ok (ln_prev n))"

definition set_next :: "lheap \<Rightarrow> ptr \<Rightarrow> ptr \<Rightarrow> lheap cres" where
  "set_next hp p q = res_bind (deref hp p) (\<lambda>n. assign hp p (n\<lparr>ln_next := q\<rparr>))"

definition set_prev :: "lheap \<Rightarrow> ptr \<Rightarrow> ptr \<Rightarrow> lheap cres" where
  "set_prev hp p q = res_bind (deref hp p) (\<lambda>n. assign hp p (n\<lparr>ln_prev := q\<rparr>))"

section \<open>Checking\<close>

text \<open>\<open>corrupt\<close>: with a message the program aborts, otherwise NULL is returned.\<close>

definition corrupt :: "bool \<Rightarrow> ptr cres" where
  "corrupt abortstr = (if abortstr then Err Abort else Ok 0)"

fun check_loop :: "nat \<Rightarrow> lheap \<Rightarrow> ptr \<Rightarrow> bool \<Rightarrow> ptr \<Rightarrow> ptr \<Rightarrow> ptr cres" where
  "check_loop fuel hp node abortstr p n =
     (if n \<noteq> node then
        (case fuel of 0 \<Rightarrow> Err Fault
         | Suc fuel \<Rightarrow>
             res_bind (get_prev hp n) (\<lambda>pr.
             if pr \<noteq> p then corrupt abortstr
             else res_bind (get_next hp n) (\<lambda>n'. check_loop fuel hp node abortstr n n')))
      else
        res_bind (get_prev hp node) (\<lambda>pr. if pr \<noteq> p then corrupt abortstr else Ok node))"

declare check_loop.simps [simp del]

definition list_check_node :: "nat \<Rightarrow> lheap \<Rightarrow> ptr \<Rightarrow> bool \<Rightarrow> ptr cres" where
  "list_check_node fuel hp node abortstr =
     res_bind (get_next hp node) (\<lambda>n. check_loop fuel hp node abortstr node n)"

definition list_check :: "nat \<Rightarrow> lheap \<Rightarrow> ptr \<Rightarrow> bool \<Rightarrow> ptr cres" where
  "list_check fuel hp h abortstr =
     res_bind (list_check_node fuel hp h abortstr) (\<lambda>r. if r = 0 then Ok 0 else Ok h)"

definition list_debug :: "nat option \<Rightarrow> lheap \<Rightarrow> ptr \<Rightarrow> ptr cres" where
  "list_debug d hp h = (case d of None \<Rightarrow> Ok h | Some k \<Rightarrow> list_check k hp h True)"

definition list_debug_node :: "nat option \<Rightarrow> lheap \<Rightarrow> ptr \<Rightarrow> ptr cres" where
  "list_debug_node d hp n = (case d of None \<Rightarrow> Ok n | Some k \<Rightarrow> list_check_node k hp n True)"

section \<open>Changing lists\<close>

definition list_head_init :: "lheap \<Rightarrow> ptr \<Rightarrow> lheap cres" where
  "list_head_init hp h = res_bind (set_prev hp h h) (\<lambda>hp. set_next hp h h)"

definition list_add :: "nat option \<Rightarrow> lheap \<Rightarrow> ptr \<Rightarrow> ptr \<Rightarrow> lheap cres" where
  "list_add d hp h n =
     res_bind (get_next hp h) (\<lambda>f.
     res_bind (set_next hp n f) (\<lambda>hp.
     res_bind (set_prev hp n h) (\<lambda>hp.
     res_bind (get_next hp h) (\<lambda>f.
     res_bind (set_prev hp f n) (\<lambda>hp.
     res_bind (set_next hp h n) (\<lambda>hp.
     res_bind (list_debug d hp h) (\<lambda>_. Ok hp)))))))"

definition list_add_tail :: "nat option \<Rightarrow> lheap \<Rightarrow> ptr \<Rightarrow> ptr \<Rightarrow> lheap cres" where
  "list_add_tail d hp h n =
     res_bind (set_next hp n h) (\<lambda>hp.
     res_bind (get_prev hp h) (\<lambda>l.
     res_bind (set_prev hp n l) (\<lambda>hp.
     res_bind (get_prev hp h) (\<lambda>l.
     res_bind (set_next hp l n) (\<lambda>hp.
     res_bind (set_prev hp h n) (\<lambda>hp.
     res_bind (list_debug d hp h) (\<lambda>_. Ok hp)))))))"

definition list_empty :: "nat option \<Rightarrow> lheap \<Rightarrow> ptr \<Rightarrow> bool cres" where
  "list_empty d hp h =
     res_bind (list_debug d hp h) (\<lambda>_. res_bind (get_next hp h) (\<lambda>f. Ok (f = h)))"

definition list_del :: "nat option \<Rightarrow> lheap \<Rightarrow> ptr \<Rightarrow> lheap cres" where
  "list_del d hp n =
     res_bind (list_debug_node d hp n) (\<lambda>_.
     res_bind (get_next hp n) (\<lambda>nx.
     res_bind (get_prev hp n) (\<lambda>pr.
     res_bind (set_prev hp nx pr) (\<lambda>hp.
     res_bind (get_prev hp n) (\<lambda>pr.
     res_bind (get_next hp n) (\<lambda>nx.
     res_bind (set_next hp pr nx) (\<lambda>hp.
     case d of None \<Rightarrow> Ok hp | Some _ \<Rightarrow> res_bind (set_prev hp n 0) (\<lambda>hp. set_next hp n 0))))))))"

text \<open>The search of \<open>list_del_from\<close> in the checked build.\<close>

fun member_loop :: "nat \<Rightarrow> lheap \<Rightarrow> ptr \<Rightarrow> ptr \<Rightarrow> ptr \<Rightarrow> unit cres" where
  "member_loop fuel hp h n i =
     (if i = n then Ok ()
      else res_bind (assert_that (i \<noteq> h)) (\<lambda>_.
        case fuel of 0 \<Rightarrow> Err Fault
        | Suc fuel \<Rightarrow> res_bind (get_next hp i) (\<lambda>i. member_loop fuel hp h n i)))"

declare member_loop.simps [simp del]

definition list_del_from :: "nat option \<Rightarrow> lheap \<Rightarrow> ptr \<Rightarrow> ptr \<Rightarrow> lheap cres" where
  "list_del_from d hp h n =
     res_bind (case d of None \<Rightarrow> Ok () | Some k \<Rightarrow> res_bind (get_next hp h) (\<lambda>i. member_loop k hp h n i)) (\<lambda>_.
     res_bind (list_empty d hp h) (\<lambda>e.
     res_bind (assert_that (\<not> e)) (\<lambda>_.
     list_del d hp n)))"

text \<open>The containing object lies \<open>off\<close> bytes before its node.\<close>

definition list_node_to_off :: "ptr \<Rightarrow> nat \<Rightarrow> ptr" where
  "list_node_to_off node off = sub64 node off"

definition list_node_from_off :: "ptr \<Rightarrow> nat \<Rightarrow> ptr" where
  "list_node_from_off p off = w64 (p + off)"

definition list_top :: "nat option \<Rightarrow> lheap \<Rightarrow> ptr \<Rightarrow> nat \<Rightarrow> ptr cres" where
  "list_top d hp h off =
     res_bind (list_empty d hp h) (\<lambda>e.
     if e then Ok 0 else res_bind (get_next hp h) (\<lambda>n. Ok (sub64 n off)))"

definition list_pop :: "nat option \<Rightarrow> lheap \<Rightarrow> ptr \<Rightarrow> nat \<Rightarrow> (ptr \<times> lheap) cres" where
  "list_pop d hp h off =
     res_bind (list_empty d hp h) (\<lambda>e.
     if e then Ok (0, hp)
     else res_bind (get_next hp h) (\<lambda>n. res_bind (list_del d hp n) (\<lambda>hp. Ok (sub64 n off, hp))))"

definition list_tail :: "nat option \<Rightarrow> lheap \<Rightarrow> ptr \<Rightarrow> nat \<Rightarrow> ptr cres" where
  "list_tail d hp h off =
     res_bind (list_empty d hp h) (\<lambda>e.
     if e then Ok 0 else res_bind (get_prev hp h) (\<lambda>n. Ok (sub64 n off)))"

definition list_append_list :: "nat option \<Rightarrow> lheap \<Rightarrow> ptr \<Rightarrow> ptr \<Rightarrow> lheap cres" where
  "list_append_list d hp to from =
     res_bind (list_debug d hp from) (\<lambda>fr.
     res_bind (get_prev hp fr) (\<lambda>from_tail.
     res_bind (list_debug d hp to) (\<lambda>t.
     res_bind (get_prev hp t) (\<lambda>to_tail.
     res_bind (set_prev hp to from_tail) (\<lambda>hp.
     res_bind (set_next hp from_tail to) (\<lambda>hp.
     res_bind (set_next hp to_tail from) (\<lambda>hp.
     res_bind (set_prev hp from to_tail) (\<lambda>hp.
     res_bind (list_del d hp from) (\<lambda>hp.
     list_head_init hp from)))))))))"

definition list_prepend_list :: "nat option \<Rightarrow> lheap \<Rightarrow> ptr \<Rightarrow> ptr \<Rightarrow> lheap cres" where
  "list_prepend_list d hp to from =
     res_bind (list_debug d hp from) (\<lambda>fr.
     res_bind (get_prev hp fr) (\<lambda>from_tail.
     res_bind (list_debug d hp to) (\<lambda>t.
     res_bind (get_next hp t) (\<lambda>to_head.
     res_bind (set_next hp to from) (\<lambda>hp.
     res_bind (set_prev hp from to) (\<lambda>hp.
     res_bind (set_prev hp to_head from_tail) (\<lambda>hp.
     res_bind (set_next hp from_tail to_head) (\<lambda>hp.
     res_bind (list_del d hp from) (\<lambda>hp.
     list_head_init hp from)))))))))"

section \<open>Walking lists\<close>

text \<open>
  The loops of \<open>list_for_each_off\<close>, \<open>list_for_each_rev\<close> and \<open>list_for_each_safe_off\<close>: \<open>i\<close> is the
  object of the iteration. The first two give the objects they visit, the body of the last one
  changes the heap.
\<close>

fun for_each_loop :: "nat \<Rightarrow> lheap \<Rightarrow> ptr \<Rightarrow> nat \<Rightarrow> ptr \<Rightarrow> ptr list cres" where
  "for_each_loop fuel hp h off i =
     (if list_node_from_off i off = h then Ok []
      else case fuel of 0 \<Rightarrow> Err Fault
      | Suc fuel \<Rightarrow>
          res_bind (get_next hp (list_node_from_off i off)) (\<lambda>n.
          res_bind (for_each_loop fuel hp h off (list_node_to_off n off)) (\<lambda>is. Ok (i # is))))"

definition list_for_each_off :: "nat \<Rightarrow> nat option \<Rightarrow> lheap \<Rightarrow> ptr \<Rightarrow> nat \<Rightarrow> ptr list cres" where
  "list_for_each_off fuel d hp h off =
     res_bind (list_debug d hp h) (\<lambda>p. res_bind (get_next hp p) (\<lambda>n. for_each_loop fuel hp h off (list_node_to_off n off)))"

fun for_each_rev_loop :: "nat \<Rightarrow> lheap \<Rightarrow> ptr \<Rightarrow> nat \<Rightarrow> ptr \<Rightarrow> ptr list cres" where
  "for_each_rev_loop fuel hp h off i =
     (if list_node_from_off i off = h then Ok []
      else case fuel of 0 \<Rightarrow> Err Fault
      | Suc fuel \<Rightarrow>
          res_bind (get_prev hp (list_node_from_off i off)) (\<lambda>n.
          res_bind (for_each_rev_loop fuel hp h off (list_node_to_off n off)) (\<lambda>is. Ok (i # is))))"

definition list_for_each_rev :: "nat \<Rightarrow> nat option \<Rightarrow> lheap \<Rightarrow> ptr \<Rightarrow> nat \<Rightarrow> ptr list cres" where
  "list_for_each_rev fuel d hp h off =
     res_bind (list_debug d hp h) (\<lambda>p. res_bind (get_prev hp p) (\<lambda>n. for_each_rev_loop fuel hp h off (list_node_to_off n off)))"

fun for_each_safe_loop :: "(lheap \<Rightarrow> ptr \<Rightarrow> lheap cres) \<Rightarrow> nat \<Rightarrow> lheap \<Rightarrow> ptr \<Rightarrow> nat \<Rightarrow> ptr \<Rightarrow> ptr \<Rightarrow> lheap cres" where
  "for_each_safe_loop body fuel hp h off i nxt =
     (if list_node_from_off i off = h then Ok hp
      else case fuel of 0 \<Rightarrow> Err Fault
      | Suc fuel \<Rightarrow>
          res_bind (body hp i) (\<lambda>hp.
          res_bind (get_next hp (list_node_from_off nxt off)) (\<lambda>n.
          for_each_safe_loop body fuel hp h off nxt (list_node_to_off n off))))"

definition list_for_each_safe_off ::
    "(lheap \<Rightarrow> ptr \<Rightarrow> lheap cres) \<Rightarrow> nat \<Rightarrow> nat option \<Rightarrow> lheap \<Rightarrow> ptr \<Rightarrow> nat \<Rightarrow> lheap cres" where
  "list_for_each_safe_off body fuel d hp h off =
     res_bind (list_debug d hp h) (\<lambda>p.
     res_bind (get_next hp p) (\<lambda>f.
     res_bind (get_next hp (list_node_from_off (list_node_to_off f off) off)) (\<lambda>n.
     for_each_safe_loop body fuel hp h off (list_node_to_off f off) (list_node_to_off n off))))"

declare for_each_loop.simps [simp del] for_each_rev_loop.simps [simp del] for_each_safe_loop.simps [simp del]

end
