(* ===== verification/CcanListSpec.thy ===== *)
theory CcanListSpec
  imports CcanList
begin

text \<open>
  Rings of nodes, and what linking and unlinking a node of src/Clang/list/lwan/list.h do to
  them. A heap is read as its two link functions, so a ring depends only on the links of its
  own nodes.
\<close>

section \<open>Links\<close>

definition nxt :: "lheap \<Rightarrow> ptr \<rightharpoonup> ptr" where
  "nxt hp a = map_option ln_next (hp a)"

definition prv :: "lheap \<Rightarrow> ptr \<rightharpoonup> ptr" where
  "prv hp a = map_option ln_prev (hp a)"

definition with_next :: "lheap \<Rightarrow> ptr \<Rightarrow> ptr \<Rightarrow> lheap" where
  "with_next hp p q = hp(p := map_option (\<lambda>n. n\<lparr>ln_next := q\<rparr>) (hp p))"

definition with_prev :: "lheap \<Rightarrow> ptr \<Rightarrow> ptr \<Rightarrow> lheap" where
  "with_prev hp p q = hp(p := map_option (\<lambda>n. n\<lparr>ln_prev := q\<rparr>) (hp p))"

lemma with_next_simps [simp]:
  "p \<in> dom hp \<Longrightarrow> nxt (with_next hp p q) = (nxt hp)(p \<mapsto> q)" "prv (with_next hp p q) = prv hp"
  "dom (with_next hp p q) = dom hp"
  by (auto simp: with_next_def nxt_def prv_def fun_eq_iff) (cases "hp p"; simp)+

lemma with_prev_simps [simp]:
  "p \<in> dom hp \<Longrightarrow> prv (with_prev hp p q) = (prv hp)(p \<mapsto> q)" "nxt (with_prev hp p q) = nxt hp"
  "dom (with_prev hp p q) = dom hp"
  by (auto simp: with_prev_def nxt_def prv_def fun_eq_iff) (cases "hp p"; simp)+

lemma set_next_eq: "p \<in> dom hp \<Longrightarrow> p \<noteq> 0 \<Longrightarrow> set_next hp p q = Ok (with_next hp p q)"
  by (auto simp: set_next_def with_next_def)

lemma set_prev_eq: "p \<in> dom hp \<Longrightarrow> p \<noteq> 0 \<Longrightarrow> set_prev hp p q = Ok (with_prev hp p q)"
  by (auto simp: set_prev_def with_prev_def)

lemma get_next_eq: "nxt hp p = Some q \<Longrightarrow> p \<noteq> 0 \<Longrightarrow> get_next hp p = Ok q"
  by (auto simp: get_next_def nxt_def)

lemma get_prev_eq: "prv hp p = Some q \<Longrightarrow> p \<noteq> 0 \<Longrightarrow> get_prev hp p = Ok q"
  by (auto simp: get_prev_def prv_def)

lemma link_dom: "nxt hp p = Some q \<Longrightarrow> p \<in> dom hp" "prv hp p = Some q \<Longrightarrow> p \<in> dom hp"
  by (auto simp: nxt_def prv_def)

lemmas link_ops = set_next_eq set_prev_eq get_next_eq get_prev_eq

section \<open>Paths and rings\<close>

definition linked :: "lheap \<Rightarrow> ptr \<Rightarrow> ptr \<Rightarrow> bool" where
  "linked hp p q \<longleftrightarrow> nxt hp p = Some q \<and> prv hp q = Some p"

fun path :: "lheap \<Rightarrow> ptr list \<Rightarrow> bool" where
  "path hp (a # b # xs) \<longleftrightarrow> linked hp a b \<and> path hp (b # xs)"
| "path hp _ \<longleftrightarrow> True"

definition ring :: "lheap \<Rightarrow> ptr list \<Rightarrow> bool" where
  "ring hp c \<longleftrightarrow> c \<noteq> [] \<and> distinct c \<and> 0 \<notin> set c \<and> path hp (c @ [hd c])"

lemma path_append: "path hp (xs @ a # ys) \<longleftrightarrow> path hp (xs @ [a]) \<and> path hp (a # ys)"
proof (induction xs)
  case Nil
  then show ?case by simp
next
  case (Cons x xs)
  then show ?case by (cases xs) auto
qed

lemma path_cong:
  "(\<And>a. a \<in> set (butlast xs) \<Longrightarrow> nxt hp' a = nxt hp a) \<Longrightarrow> (\<And>a. a \<in> set (tl xs) \<Longrightarrow> prv hp' a = prv hp a) \<Longrightarrow>
     path hp' xs = path hp xs"
proof (induction hp xs rule: path.induct)
  case (1 hp a b xs)
  have "path hp' (b # xs) = path hp (b # xs)"
    by (rule "1.IH") (use "1.prems" in \<open>auto dest: in_set_butlastD split: if_splits\<close>)
  moreover have "nxt hp' a = nxt hp a" "prv hp' b = prv hp b" using "1.prems" by simp_all
  ultimately show ?case by (simp add: linked_def)
qed simp_all

lemma ring_frame:
  assumes "ring hp c" "\<And>a. a \<in> set c \<Longrightarrow> nxt hp' a = nxt hp a" "\<And>a. a \<in> set c \<Longrightarrow> prv hp' a = prv hp a"
  shows "ring hp' c"
proof -
  have "c = hd c # tl c" using assms(1) by (simp add: ring_def)
  then have "set (butlast (c @ [hd c])) \<subseteq> set c" "set (tl (c @ [hd c])) \<subseteq> set c" using assms(1)
    by (auto simp: ring_def) (metis list.set_sel(2))
  then have "path hp' (c @ [hd c]) = path hp (c @ [hd c])" using assms(2,3) by (intro path_cong) blast+
  with assms(1) show ?thesis by (simp add: ring_def)
qed

lemma ring_cons: "ring hp (h # xs) \<longleftrightarrow> distinct (h # xs) \<and> 0 \<notin> set (h # xs) \<and> path hp (h # xs @ [h])"
  by (auto simp: ring_def)

lemma ring_rotate:
  assumes "ring hp (xs @ ys)"
  shows "ring hp (ys @ xs)"
proof (cases "xs = [] \<or> ys = []")
  case True
  with assms show ?thesis by auto
next
  case False
  then obtain x xs' y ys' where e: "xs = x # xs'" "ys = y # ys'" by (meson neq_Nil_conv)
  with assms have d: "distinct (xs @ ys)" "0 \<notin> set (xs @ ys)" and p: "path hp ((x # xs') @ y # ys' @ [x])"
    by (simp_all add: ring_def)
  from p have "path hp ((x # xs') @ [y])" "path hp (y # ys' @ [x])" by (simp_all only: path_append [of hp "x # xs'" y "ys' @ [x]"])
  then have "path hp ((y # ys') @ x # xs' @ [y])" by (simp only: path_append [of hp "y # ys'" x "xs' @ [y]"]) simp
  then have "path hp ((ys @ xs) @ [hd (ys @ xs)])" by (simp add: e)
  moreover have "distinct (ys @ xs)" "0 \<notin> set (ys @ xs)" "ys @ xs \<noteq> []" using d e by auto
  ultimately show ?thesis by (simp only: ring_def simp_thms)
qed

text \<open>The neighbours of a place between two parts of a ring.\<close>

lemma ring_split:
  assumes "ring hp (h # xs @ ys)"
  shows "nxt hp (last (h # xs)) = Some (hd (ys @ [h]))" "prv hp (hd (ys @ [h])) = Some (last (h # xs))"
proof -
  define us a b vs where "us = butlast (h # xs)" and "a = last (h # xs)" and "b = hd (ys @ [h])" and "vs = tl (ys @ [h])"
  have u: "h # xs = us @ [a]" unfolding us_def a_def by (rule append_butlast_last_id [symmetric]) simp
  have v: "ys @ [h] = b # vs" unfolding vs_def b_def by (rule list.collapse [symmetric]) simp
  have "path hp ((h # xs) @ ys @ [h])" using assms by (simp add: ring_cons)
  then have "path hp (us @ a # b # vs)" unfolding u v by simp
  then have "linked hp (last (h # xs)) (hd (ys @ [h]))"
    unfolding a_def [symmetric] b_def [symmetric] by (simp only: path_append [of hp us a "b # vs"] path.simps)
  then show "nxt hp (last (h # xs)) = Some (hd (ys @ [h]))" "prv hp (hd (ys @ [h])) = Some (last (h # xs))"
    by (simp_all add: linked_def)
qed

lemma ring_member:
  assumes "ring hp c" "a \<in> set c"
  shows "a \<noteq> 0" "a \<in> dom hp" "\<exists>b\<in>set c. nxt hp a = Some b" "\<exists>b\<in>set c. prv hp a = Some b"
proof -
  obtain us vs where c: "c = us @ a # vs" using assms(2) by (meson split_list)
  have r: "ring hp (a # vs @ us)" using ring_rotate [of hp us "a # vs"] assms(1) c by simp
  then show "a \<noteq> 0" by (simp add: ring_cons)
  have s: "set (a # vs @ us) = set c" using c by auto
  have "nxt hp a = Some (hd ((vs @ us) @ [a]))" using ring_split(1) [of hp a "[]" "vs @ us"] r by simp
  moreover have "hd ((vs @ us) @ [a]) \<in> set (a # vs @ us)" by (cases "vs @ us") auto
  ultimately show "\<exists>b\<in>set c. nxt hp a = Some b" "a \<in> dom hp" using link_dom(1) unfolding s by blast+
  have "prv hp a = Some (last (a # vs @ us))" using ring_split(2) [of hp a "vs @ us" "[]"] r by simp
  moreover have "last (a # vs @ us) \<in> set (a # vs @ us)" by (rule last_in_set) simp
  ultimately show "\<exists>b\<in>set c. prv hp a = Some b" unfolding s by blast
qed

section \<open>Linking and unlinking\<close>

lemma ring_link:
  assumes r: "ring hp (h # xs @ ys)" and n: "n \<notin> set (h # xs @ ys)" "n \<noteq> 0"
    and a: "a = last (h # xs)" "b = hd (ys @ [h])"
    and nx: "nxt hp' = (nxt hp)(n \<mapsto> b, a \<mapsto> n)" and pv: "prv hp' = (prv hp)(n \<mapsto> a, b \<mapsto> n)"
  shows "ring hp' (h # xs @ n # ys)"
proof -
  define us where "us = butlast (h # xs)"
  define vs where "vs = tl (ys @ [h])"
  have u: "h # xs = us @ [a]" unfolding us_def a by (rule append_butlast_last_id [symmetric]) simp
  have v: "ys @ [h] = b # vs" unfolding vs_def a by (rule list.collapse [symmetric]) simp
  have d: "distinct (h # xs @ ys)" "0 \<notin> set (h # xs @ ys)" and p: "path hp ((h # xs) @ ys @ [h])" using r by (simp_all add: ring_cons)
  have "path hp (us @ a # b # vs)" using p unfolding u v by simp
  then have p: "path hp (us @ [a])" "path hp (b # vs)" by (simp_all only: path_append [of hp us a "b # vs"] path.simps)
  have m: "set (tl (us @ [a])) = set xs" "set (butlast (b # vs)) = set ys" by (simp_all flip: u v)
  have da: "a \<notin> set us" "a \<noteq> n" "n \<notin> set us" using d(1) n(1) arg_cong [OF u, of set] arg_cong [OF u, of distinct] by auto
  have db: "b \<notin> set vs" "b \<noteq> n" "n \<notin> set vs"
    using d(1) n(1) arg_cong [OF v, of set] arg_cong [OF v, of distinct] by auto
  have "a \<in> set (h # xs)" "b \<in> set (ys @ [h])" by (simp_all only: u v) simp_all
  then have ax: "a \<notin> set ys" "b \<notin> set xs" using d(1) by auto
  have "path hp' (us @ [a])"
    using p(1) da ax n(1) m(1) by (subst path_cong [of _ hp' hp]) (auto simp: nx pv)
  moreover have "path hp' (b # vs)"
    using p(2) db ax n(1) m(2) by (subst path_cong [of _ hp' hp]) (auto simp: nx pv)
  moreover have "linked hp' a n" "linked hp' n b" using da db by (simp_all add: linked_def nx pv)
  ultimately have "path hp' (us @ a # n # b # vs)" by (simp only: path_append [of hp' us a "n # b # vs"] path.simps simp_thms)
  then have "path hp' ((us @ [a]) @ n # (b # vs))" by simp
  then have "path hp' ((h # xs) @ n # (ys @ [h]))" by (simp only: u v)
  with d n show ?thesis by (auto simp: ring_cons)
qed

lemma ring_unlink:
  assumes r: "ring hp (h # xs @ n # ys)" and a: "a = last (h # xs)" "b = hd (ys @ [h])"
    and nx: "\<And>c. c \<noteq> n \<Longrightarrow> nxt hp' c = ((nxt hp)(a \<mapsto> b)) c" and pv: "\<And>c. c \<noteq> n \<Longrightarrow> prv hp' c = ((prv hp)(b \<mapsto> a)) c"
  shows "ring hp' (h # xs @ ys)"
proof -
  define us where "us = butlast (h # xs)"
  define vs where "vs = tl (ys @ [h])"
  have u: "h # xs = us @ [a]" unfolding us_def a by (rule append_butlast_last_id [symmetric]) simp
  have v: "ys @ [h] = b # vs" unfolding vs_def a by (rule list.collapse [symmetric]) simp
  have d: "distinct (h # xs @ n # ys)" "0 \<notin> set (h # xs @ n # ys)" and p: "path hp ((h # xs) @ n # ys @ [h])"
    using r by (simp_all add: ring_cons)
  have "path hp (us @ a # n # b # vs)" using p unfolding u v by simp
  then have p: "path hp (us @ [a])" "path hp (b # vs)" by (simp_all only: path_append [of hp us a "n # b # vs"] path.simps)
  have m: "set (tl (us @ [a])) = set xs" "set (butlast (b # vs)) = set ys" by (simp_all flip: u v)
  have da: "a \<notin> set us" "a \<noteq> n" "n \<notin> set us" using d(1) arg_cong [OF u, of set] arg_cong [OF u, of distinct] by auto
  have db: "b \<notin> set vs" "b \<noteq> n" "n \<notin> set vs"
    using d(1) arg_cong [OF v, of set] arg_cong [OF v, of distinct] by auto
  have "a \<in> set (h # xs)" "b \<in> set (ys @ [h])" by (simp_all only: u v) simp_all
  then have ax: "a \<notin> set ys" "b \<notin> set xs" "n \<notin> set xs" "n \<notin> set ys" using d(1) by auto
  have "path hp' (us @ [a])"
  proof (subst path_cong [of _ hp' hp])
    show "nxt hp' c = nxt hp c" if "c \<in> set (butlast (us @ [a]))" for c
      using that da nx [of c] by (cases "c = a") auto
    show "prv hp' c = prv hp c" if "c \<in> set (tl (us @ [a]))" for c
      using that ax pv [of c] unfolding m(1) by (cases "c = b") auto
  qed (rule p(1))
  moreover have "path hp' (b # vs)"
  proof (subst path_cong [of _ hp' hp])
    show "nxt hp' c = nxt hp c" if "c \<in> set (butlast (b # vs))" for c
      using that ax nx [of c] unfolding m(2) by (cases "c = a") auto
    show "prv hp' c = prv hp c" if "c \<in> set (tl (b # vs))" for c
      using that db pv [of c] by (cases "c = b") auto
  qed (rule p(2))
  moreover have "linked hp' a b" using da db by (simp add: linked_def nx pv)
  ultimately have "path hp' (us @ a # b # vs)" by (simp only: path_append [of hp' us a "b # vs"] path.simps simp_thms)
  then have "path hp' ((us @ [a]) @ (b # vs))" by simp
  then have "path hp' ((h # xs) @ (ys @ [h]))" by (simp only: u v)
  with d show ?thesis by (auto simp: ring_cons)
qed

text \<open>Two rings are sewn into one.\<close>

lemma ring_splice:
  assumes r: "ring hp (g # us)" "ring hp (h # vs)" and d: "set (g # us) \<inter> set (h # vs) = {}"
    and e: "a = last (g # us)" "b = last (h # vs)"
    and nx: "nxt hp' = (nxt hp)(b \<mapsto> g, a \<mapsto> h)" and pv: "prv hp' = (prv hp)(g \<mapsto> b, h \<mapsto> a)"
  shows "ring hp' (g # us @ h # vs)"
proof -
  define us' where "us' = butlast (g # us)"
  define vs' where "vs' = butlast (h # vs)"
  have u: "g # us = us' @ [a]" unfolding us'_def e by (rule append_butlast_last_id [symmetric]) simp
  have v: "h # vs = vs' @ [b]" unfolding vs'_def e by (rule append_butlast_last_id [symmetric]) simp
  have p: "path hp ((g # us) @ [g])" "path hp ((h # vs) @ [h])" using r by (simp_all add: ring_cons)
  have "path hp (us' @ a # [g])" "path hp (vs' @ b # [h])" using p unfolding u v by simp_all
  then have p: "path hp (us' @ [a])" "path hp (vs' @ [b])" by (simp_all only: path_append [of hp us' a "[g]"] path_append [of hp vs' b "[h]"])
  have m: "set (tl (us' @ [a])) = set us" "set (tl (vs' @ [b])) = set vs" by (simp_all flip: u v)
  have du: "distinct (g # us)" "distinct (h # vs)" "0 \<notin> set (g # us)" "0 \<notin> set (h # vs)" using r by (simp_all add: ring_cons)
  have ab: "a \<in> set (g # us)" "b \<in> set (h # vs)" "a \<notin> set us'" "b \<notin> set vs'" "set us' \<subseteq> set (g # us)" "set vs' \<subseteq> set (h # vs)"
    using du unfolding u v by auto
  have "path hp' (us' @ [a])"
    using p(1) d ab du m(1) by (subst path_cong [of _ hp' hp]) (auto simp: nx pv)
  moreover have "path hp' (vs' @ [b])"
    using p(2) d ab du m(2) by (subst path_cong [of _ hp' hp]) (auto simp: nx pv)
  moreover have "linked hp' a h" "linked hp' b g" using d ab by (auto simp: linked_def nx pv)
  ultimately have "path hp' (us' @ [a])" "path hp' (vs' @ b # [g])" "linked hp' a h"
    by (simp_all only: path_append [of hp' vs' b "[g]"] path.simps simp_thms)
  then have "path hp' (us' @ [a])" "path hp' ((h # vs) @ [g])" "linked hp' a h" by (simp_all only: v) simp_all
  then have "path hp' (us' @ a # (h # vs) @ [g])" by (simp only: path_append [of hp' us' a "h # vs @ [g]"] append_Cons path.simps simp_thms)
  then have "path hp' ((us' @ [a]) @ (h # vs) @ [g])" by simp
  then have "path hp' ((g # us) @ (h # vs) @ [g])" by (simp only: u)
  with d du show ?thesis by (auto simp: ring_cons)
qed

end
