(* ===== verification/CcanListOps.thy ===== *)
theory CcanListOps
  imports CcanListSpec
begin

text \<open>
  What the checks and the operations of src/Clang/list/lwan/list.h and list.c do to rings, in
  both builds: \<open>dbg_ok\<close> says that the bound of the checked build is at least the number of
  nodes.
\<close>

section \<open>The checks\<close>

lemma check_loop_path:
  "path hp (p # ns @ [node]) \<Longrightarrow> node \<notin> set ns \<Longrightarrow> 0 \<notin> set ns \<Longrightarrow> node \<noteq> 0 \<Longrightarrow> length ns \<le> fuel \<Longrightarrow>
     check_loop fuel hp node ab p (hd (ns @ [node])) = Ok node"
proof (induction ns arbitrary: p fuel)
  case Nil
  then show ?case by (subst check_loop.simps) (simp add: linked_def get_prev_eq)
next
  case (Cons a ns)
  then obtain k where k: "fuel = Suc k" by (cases fuel) auto
  have l: "linked hp p a" "path hp (a # ns @ [node])" using Cons.prems(1) by simp_all
  then have "linked hp a (hd (ns @ [node]))" by (cases ns) auto
  then have "get_prev hp a = Ok p" "get_next hp a = Ok (hd (ns @ [node]))"
    using l(1) Cons.prems(3) by (auto simp: linked_def intro: get_prev_eq get_next_eq)
  with Cons.IH [OF l(2), of k] Cons.prems k show ?case by (subst check_loop.simps) simp
qed

lemma ring_check:
  assumes r: "ring hp c" and n: "node \<in> set c" and l: "length c \<le> Suc fuel"
  shows "list_check_node fuel hp node ab = Ok node"
proof -
  obtain us vs where c: "c = us @ node # vs" using n by (meson split_list)
  have "ring hp (node # vs @ us)" using ring_rotate [of hp us "node # vs"] r c by simp
  then have q: "path hp (node # (vs @ us) @ [node])" "node \<notin> set (vs @ us)" "0 \<notin> set (vs @ us)" "node \<noteq> 0"
    by (auto simp: ring_cons)
  then have "nxt hp node = Some (hd ((vs @ us) @ [node]))" by (cases "vs @ us") (auto simp: linked_def)
  then show ?thesis
    using check_loop_path [OF q, of fuel ab] l c q(4) by (simp add: list_check_node_def get_next_eq)
qed

definition dbg_ok :: "nat option \<Rightarrow> nat \<Rightarrow> bool" where
  "dbg_ok d m \<longleftrightarrow> (case d of None \<Rightarrow> True | Some k \<Rightarrow> m \<le> k)"

lemma dbg_ok_mono: "dbg_ok d m \<Longrightarrow> l \<le> m \<Longrightarrow> dbg_ok d l"
  by (auto simp: dbg_ok_def split: option.splits)

lemma list_debug_ok:
  "ring hp c \<Longrightarrow> a \<in> set c \<Longrightarrow> dbg_ok d (length c) \<Longrightarrow> list_debug d hp a = Ok a"
  "ring hp c \<Longrightarrow> a \<in> set c \<Longrightarrow> dbg_ok d (length c) \<Longrightarrow> list_debug_node d hp a = Ok a"
  using ring_check [of hp c a] by (auto simp: list_debug_def list_debug_node_def list_check_def dbg_ok_def ring_member split: option.splits)

section \<open>Frames\<close>

definition only_changes :: "ptr set \<Rightarrow> lheap \<Rightarrow> lheap \<Rightarrow> bool" where
  "only_changes S hp hp' \<longleftrightarrow> dom hp' = dom hp \<and> (\<forall>a. a \<notin> S \<longrightarrow> nxt hp' a = nxt hp a \<and> prv hp' a = prv hp a)"

lemma ring_only_changes: "ring hp c \<Longrightarrow> only_changes S hp hp' \<Longrightarrow> set c \<inter> S = {} \<Longrightarrow> ring hp' c"
  by (erule ring_frame) (auto simp: only_changes_def)

section \<open>Operations\<close>

lemma list_head_init_spec:
  assumes "h \<in> dom hp" "h \<noteq> 0"
  shows "\<exists>hp'. list_head_init hp h = Ok hp' \<and> ring hp' [h] \<and> only_changes {h} hp hp'"
  using assms by (auto simp: list_head_init_def link_ops ring_def linked_def only_changes_def)

lemma ring_ends:
  assumes "ring hp (h # ns)"
  shows "h \<noteq> 0" "h \<in> dom hp" "nxt hp h = Some (hd (ns @ [h]))" "prv hp h = Some (last (h # ns))"
    "hd (ns @ [h]) \<in> dom hp" "hd (ns @ [h]) \<noteq> 0" "last (h # ns) \<in> dom hp" "last (h # ns) \<noteq> 0"
proof -
  show "h \<noteq> 0" "h \<in> dom hp" using ring_member [OF assms, of h] by simp_all
  show "nxt hp h = Some (hd (ns @ [h]))" using ring_split(1) [of hp h "[]" ns] assms by simp
  show "prv hp h = Some (last (h # ns))" using ring_split(2) [of hp h ns "[]"] assms by simp
  have "hd (ns @ [h]) \<in> set (h # ns)" by (cases ns) auto
  then show "hd (ns @ [h]) \<in> dom hp" "hd (ns @ [h]) \<noteq> 0" using ring_member [OF assms] by blast+
  have "last (h # ns) \<in> set (h # ns)" by (rule last_in_set) simp
  then show "last (h # ns) \<in> dom hp" "last (h # ns) \<noteq> 0" using ring_member [OF assms] by blast+
qed

lemma list_add_spec:
  assumes r: "ring hp (h # ns)" and n: "n \<in> dom hp" "n \<noteq> 0" "n \<notin> set (h # ns)" and d: "dbg_ok d (length ns + 2)"
  shows "\<exists>hp'. list_add d hp h n = Ok hp' \<and> ring hp' (h # n # ns) \<and> only_changes (set (h # n # ns)) hp hp'"
proof -
  note e = ring_ends [OF r]
  define f where "f = hd (ns @ [h])"
  have f: "f \<noteq> n" "f \<in> set (h # ns)" using n(3) by (cases ns; auto simp: f_def)+
  let ?hp = "with_next (with_prev (with_prev (with_next hp n f) n h) f n) h n"
  have l: "nxt ?hp = (nxt hp)(n \<mapsto> f, h \<mapsto> n)" "prv ?hp = (prv hp)(n \<mapsto> h, f \<mapsto> n)"
    using e n by (simp_all add: f_def)
  have g: "ring ?hp (h # n # ns)"
    using ring_link [of hp h "[]" ns n h f ?hp] r n l by (simp add: f_def)
  have "list_add d hp h n = Ok ?hp"
    using e n list_debug_ok(1) [OF g, of h d] d f unfolding list_add_def by (simp add: link_ops flip: f_def)
  moreover have "only_changes (set (h # n # ns)) hp ?hp"
    using l f(2) e n by (auto simp: only_changes_def f_def)
  ultimately show ?thesis using g by blast
qed

lemma list_add_tail_spec:
  assumes r: "ring hp (h # ns)" and n: "n \<in> dom hp" "n \<noteq> 0" "n \<notin> set (h # ns)" and d: "dbg_ok d (length ns + 2)"
  shows "\<exists>hp'. list_add_tail d hp h n = Ok hp' \<and> ring hp' (h # ns @ [n]) \<and> only_changes (set (h # n # ns)) hp hp'"
proof -
  note e = ring_ends [OF r]
  define l where "l = last (h # ns)"
  note e = e [folded l_def]
  have l: "l \<noteq> n" "l \<in> set (h # ns)" using n(3) last_in_set [of "h # ns"] by (auto simp: l_def)
  let ?hp = "with_prev (with_next (with_prev (with_next hp n h) n l) l n) h n"
  have k: "nxt ?hp = (nxt hp)(n \<mapsto> h, l \<mapsto> n)" "prv ?hp = (prv hp)(n \<mapsto> l, h \<mapsto> n)"
    using e n by simp_all
  have g: "ring ?hp (h # ns @ [n])"
    using ring_link [of hp h ns "[]" n l h ?hp] r n k l_def by simp
  have "list_add_tail d hp h n = Ok ?hp"
    using e n list_debug_ok(1) [OF g, of h d] d l unfolding list_add_tail_def by (simp add: link_ops)
  moreover have "only_changes (set (h # n # ns)) hp ?hp"
    using k l(2) e n by (auto simp: only_changes_def)
  ultimately show ?thesis using g by blast
qed

lemma list_empty_spec:
  assumes r: "ring hp (h # ns)" and d: "dbg_ok d (length ns + 1)"
  shows "list_empty d hp h = Ok (ns = [])"
proof -
  have "hd (ns @ [h]) = h \<longleftrightarrow> ns = []" using r by (cases ns) (auto simp: ring_cons)
  then show ?thesis using list_debug_ok(1) [OF r, of h d] d ring_ends [OF r] by (simp add: list_empty_def get_next_eq)
qed

lemma list_del_spec:
  assumes r: "ring hp (h # xs @ n # ys)" and d: "dbg_ok d (length xs + length ys + 2)"
  shows "\<exists>hp'. list_del d hp n = Ok hp' \<and> ring hp' (h # xs @ ys) \<and> only_changes (set (h # xs @ n # ys)) hp hp'"
proof -
  define a b where "a = last (h # xs)" and "b = hd (ys @ [h])"
  have n: "nxt hp n = Some b" "prv hp n = Some a"
    using ring_split(1) [of hp h "xs @ [n]" ys] ring_split(2) [of hp h xs "n # ys"] r by (simp_all add: a_def b_def)
  have m: "a \<in> set (h # xs)" "b \<in> set (ys @ [h])" unfolding a_def b_def by (rule last_in_set hd_in_set; simp)+
  then have ab: "a \<in> set (h # xs @ n # ys)" "b \<in> set (h # xs @ n # ys)" "n \<in> set (h # xs @ n # ys)" "a \<noteq> n" "b \<noteq> n"
    using r by (auto simp: ring_cons)
  note q = ring_member(1,2) [OF r ab(1)] ring_member(1,2) [OF r ab(2)] ring_member(1,2) [OF r ab(3)]
  let ?hp = "with_next (with_prev hp b a) a b"
  let ?hp' = "if d = None then ?hp else with_next (with_prev ?hp n 0) n 0"
  have "list_debug_node d hp n = Ok n" using list_debug_ok(2) [OF r ab(3)] d by simp
  then have "list_del d hp n = Ok ?hp'"
    using q n ab(4,5) by (simp add: list_del_def link_ops split: option.split)
  moreover have "ring ?hp' (h # xs @ ys)"
    by (rule ring_unlink [OF r a_def b_def]) (use q in auto)
  moreover have "only_changes (set (h # xs @ n # ys)) hp ?hp'"
    using q ab(1,2) by (auto simp: only_changes_def)
  ultimately show ?thesis by blast
qed

lemma member_loop_path:
  "path hp (i # xs @ [n]) \<Longrightarrow> n \<notin> set (i # xs) \<Longrightarrow> h \<notin> set (i # xs) \<Longrightarrow> 0 \<notin> set (i # xs) \<Longrightarrow> length xs < fuel \<Longrightarrow>
     member_loop fuel hp h n i = Ok ()"
proof (induction xs arbitrary: i fuel)
  case Nil
  then obtain k where k: "fuel = Suc k" by (cases fuel) auto
  have "get_next hp i = Ok n" using Nil.prems by (intro get_next_eq) (auto simp: linked_def)
  moreover have "member_loop k hp h n n = Ok ()" by (subst member_loop.simps) simp
  ultimately show ?case using Nil.prems k by (subst member_loop.simps) simp
next
  case (Cons x xs)
  then obtain k where k: "fuel = Suc k" by (cases fuel) auto
  have "get_next hp i = Ok x" using Cons.prems by (intro get_next_eq) (auto simp: linked_def)
  with Cons.IH [of x k] Cons.prems k show ?case by (subst member_loop.simps) simp
qed

lemma list_del_from_spec:
  assumes r: "ring hp (h # xs @ n # ys)" and d: "dbg_ok d (length xs + length ys + 2)"
  shows "\<exists>hp'. list_del_from d hp h n = Ok hp' \<and> ring hp' (h # xs @ ys) \<and> only_changes (set (h # xs @ n # ys)) hp hp'"
proof -
  have "(case d of None \<Rightarrow> Ok () | Some k \<Rightarrow> res_bind (get_next hp h) (\<lambda>i. member_loop k hp h n i)) = Ok ()"
  proof (cases d)
    case (Some k)
    have p: "path hp ((h # xs) @ n # ys @ [h])" using r by (simp add: ring_cons)
    have f: "get_next hp h = Ok (hd (xs @ [n]))" using ring_ends [OF r] by (cases xs) (simp_all add: get_next_eq)
    have "member_loop k hp h n (hd (xs @ [n])) = Ok ()"
    proof (cases xs)
      case Nil
      then show ?thesis by (subst member_loop.simps) simp
    next
      case (Cons x xs')
      have "path hp ((h # xs) @ [n])" using p by (simp only: path_append [of hp "h # xs" n "ys @ [h]"])
      moreover have "length xs' < k" using d Some Cons by (simp add: dbg_ok_def)
      ultimately show ?thesis using Cons r by (simp add: ring_cons) (rule member_loop_path; simp)
    qed
    with f Some show ?thesis by simp
  qed simp
  moreover have "list_empty d hp h = Ok False" using list_empty_spec [OF r] d by simp
  ultimately show ?thesis using list_del_spec [OF r d] by (simp add: list_del_from_def)
qed

lemma list_pop_spec:
  assumes r: "ring hp (h # n # ns)" and d: "dbg_ok d (length ns + 2)"
  shows "\<exists>hp'. list_pop d hp h off = Ok (sub64 n off, hp') \<and> ring hp' (h # ns) \<and> only_changes (set (h # n # ns)) hp hp'"
  using list_del_spec [of hp h "[]" n ns d] list_empty_spec [OF r, of d] ring_ends [OF r] r d
  by (auto simp: list_pop_def get_next_eq)

lemma list_pop_empty: "ring hp [h] \<Longrightarrow> dbg_ok d 1 \<Longrightarrow> list_pop d hp h off = Ok (0, hp)"
  using list_empty_spec [of hp h "[]" d] by (simp add: list_pop_def)

lemma list_top_spec:
  "ring hp (h # ns) \<Longrightarrow> dbg_ok d (length ns + 1) \<Longrightarrow>
     list_top d hp h off = Ok (case ns of [] \<Rightarrow> 0 | n # _ \<Rightarrow> sub64 n off)"
  using list_empty_spec [of hp h ns d] ring_ends [of hp h ns] by (cases ns) (simp_all add: list_top_def get_next_eq)

lemma list_tail_spec:
  "ring hp (h # ns) \<Longrightarrow> dbg_ok d (length ns + 1) \<Longrightarrow>
     list_tail d hp h off = Ok (if ns = [] then 0 else sub64 (last ns) off)"
  using list_empty_spec [of hp h ns d] ring_ends [of hp h ns] by (simp add: list_tail_def get_prev_eq)

text \<open>Two lists become one, and the second one empty.\<close>

lemma move_all:
  assumes r: "ring hp (g # us @ h # vs)" and d: "dbg_ok d (length us + length vs + 2)"
  shows "\<exists>hp'. res_bind (list_del d hp h) (\<lambda>hp. list_head_init hp h) = Ok hp' \<and> ring hp' (g # us @ vs) \<and> ring hp' [h] \<and>
    only_changes (set (g # us @ h # vs)) hp hp'"
proof -
  obtain hp1 where 1: "list_del d hp h = Ok hp1" "ring hp1 (g # us @ vs)" "only_changes (set (g # us @ h # vs)) hp hp1"
    using list_del_spec [OF r d] by blast
  have h: "h \<in> dom hp" "h \<noteq> 0" using ring_member(1,2) [OF r, of h] by simp_all
  moreover have "dom hp1 = dom hp" using 1(3) by (simp add: only_changes_def)
  ultimately obtain hp' where 2: "list_head_init hp1 h = Ok hp'" "ring hp' [h]" "only_changes {h} hp1 hp'"
    using list_head_init_spec [of h hp1] by auto
  have "set (g # us @ vs) \<inter> {h} = {}" using r by (auto simp: ring_cons)
  then have "ring hp' (g # us @ vs)" using ring_only_changes [OF 1(2) 2(3)] by blast
  moreover have "only_changes (set (g # us @ h # vs)) hp hp'" using 1(3) 2(3) by (auto simp: only_changes_def)
  ultimately show ?thesis using 1(1) 2(1,2) by simp
qed

lemma list_append_list_spec:
  assumes r: "ring hp (g # us)" "ring hp (h # vs)" "set (g # us) \<inter> set (h # vs) = {}"
    and d: "dbg_ok d (length us + length vs + 2)"
  shows "\<exists>hp'. list_append_list d hp g h = Ok hp' \<and> ring hp' (g # us @ vs) \<and> ring hp' [h] \<and>
    only_changes (set (g # us @ h # vs)) hp hp'"
proof -
  define a b where "a = last (g # us)" and "b = last (h # vs)"
  note e = ring_ends [OF r(1), folded a_def] ring_ends [OF r(2), folded b_def]
  have m: "a \<in> set (g # us)" "b \<in> set (h # vs)" unfolding a_def b_def by (rule last_in_set; simp)+
  let ?hp = "with_prev (with_next (with_next (with_prev hp g b) b g) a h) h a"
  have n: "nxt ?hp = (nxt hp)(b \<mapsto> g, a \<mapsto> h)" "prv ?hp = (prv hp)(g \<mapsto> b, h \<mapsto> a)" using e by simp_all
  note s = ring_splice [OF r a_def b_def n]
  obtain hp' where 1: "res_bind (list_del d ?hp h) (\<lambda>hp. list_head_init hp h) = Ok hp'" "ring hp' (g # us @ vs)" "ring hp' [h]"
    "only_changes (set (g # us @ h # vs)) ?hp hp'"
    using move_all [OF s d] by blast
  have "list_debug d hp h = Ok h" "list_debug d hp g = Ok g"
    using list_debug_ok(1) [OF r(1), of g d] list_debug_ok(1) [OF r(2), of h d] dbg_ok_mono [OF d] by simp_all
  then have "list_append_list d hp g h = Ok hp'"
    using 1(1) e by (simp add: list_append_list_def link_ops)
  moreover have "only_changes (set (g # us @ h # vs)) hp hp'"
    using 1(4) n m e by (auto simp: only_changes_def)
  ultimately show ?thesis using 1(2,3) by blast
qed

lemma list_prepend_list_spec:
  assumes r: "ring hp (g # us)" "ring hp (h # vs)" "set (g # us) \<inter> set (h # vs) = {}"
    and d: "dbg_ok d (length us + length vs + 2)"
  shows "\<exists>hp'. list_prepend_list d hp g h = Ok hp' \<and> ring hp' (g # vs @ us) \<and> ring hp' [h] \<and>
    only_changes (set (g # us @ h # vs)) hp hp'"
proof -
  text \<open>The nodes of \<open>from\<close> go between \<open>to\<close> and its first node: the ring starts there.\<close>
  define f b where "f = hd (us @ [g])" and "b = last (h # vs)"
  note e = ring_ends [OF r(1), folded f_def] ring_ends [OF r(2), folded b_def]
  define c where "c = us @ [g]"
  have c: "c = f # tl c" "last c = g" "set c = set (g # us)" by (simp_all add: c_def f_def)
  have rc: "ring hp (f # tl c)" using ring_rotate [of hp "[g]" us] r(1) c(1) unfolding c_def by simp
  have m: "f \<in> set (g # us)" "b \<in> set (h # vs)" unfolding b_def f_def by (cases us; simp) (rule last_in_set; simp)
  let ?hp = "with_next (with_prev (with_prev (with_next hp g h) h g) f b) b f"
  have n: "nxt ?hp = (nxt hp)(b \<mapsto> f, g \<mapsto> h)" "prv ?hp = (prv hp)(f \<mapsto> b, h \<mapsto> g)"
    using e m r(3) by (auto simp: fun_eq_iff)
  have "set (f # tl c) \<inter> set (h # vs) = {}" using r(3) unfolding c(1) [symmetric] c(3) .
  moreover have "g = last (f # tl c)" unfolding c(1) [symmetric] c(2) ..
  ultimately have "ring ?hp (f # tl c @ h # vs)" using b_def n by (intro ring_splice [OF rc r(2)])
  then have "ring ?hp ((f # tl c) @ h # vs)" by simp
  then have "ring ?hp (us @ g # h # vs)" unfolding c(1) [symmetric] by (simp add: c_def)
  then have s: "ring ?hp (g # [] @ h # (vs @ us))" using ring_rotate [of ?hp us "g # h # vs"] by simp
  obtain hp' where 1: "res_bind (list_del d ?hp h) (\<lambda>hp. list_head_init hp h) = Ok hp'" "ring hp' (g # [] @ vs @ us)" "ring hp' [h]"
    "only_changes (set (g # [] @ h # (vs @ us))) ?hp hp'"
    using move_all [OF s, of d] dbg_ok_mono [OF d] by auto
  have "list_debug d hp h = Ok h" "list_debug d hp g = Ok g"
    using list_debug_ok(1) [OF r(1), of g d] list_debug_ok(1) [OF r(2), of h d] dbg_ok_mono [OF d] by simp_all
  then have "list_prepend_list d hp g h = Ok hp'"
    using 1(1) e by (simp add: list_prepend_list_def link_ops)
  moreover have "only_changes (set (g # us @ h # vs)) hp hp'"
    using 1(4) n m e by (auto simp: only_changes_def)
  ultimately show ?thesis using 1(2,3) by auto
qed

end
