(* ===== verification/CcanListProps.thy ===== *)
theory CcanListProps
  imports CcanListOps
begin

text \<open>
  Properties of the lists of src/Clang/list/lwan/list.h: programs over any number of lists,
  the walks, deletion during a walk, and what \<open>list_check_node\<close> decides.
\<close>

section \<open>The check is exact\<close>

lemma path_distinct: "path hp (node # ns) \<Longrightarrow> node \<notin> set ns \<Longrightarrow> distinct (node # ns)"
proof (induction ns rule: rev_induct)
  case Nil
  then show ?case by simp
next
  case (snoc z ns)
  define us p where "us = butlast (node # ns)" and "p = last (node # ns)"
  have u: "node # ns = us @ [p]" unfolding us_def p_def by (rule append_butlast_last_id [symmetric]) simp
  have "path hp (us @ p # [z])" using snoc.prems(1) u by (metis append.assoc append_Cons append_Nil)
  then have pz: "path hp (node # ns)" "linked hp p z" by (simp_all add: u path_append [of hp us p "[z]"])
  then have d: "distinct (us @ [p])" using snoc by (simp flip: u)
  have "z \<notin> set (node # ns)"
  proof
    assume "z \<in> set (node # ns)"
    then obtain as bs where z: "node # ns = as @ z # bs" by (meson split_list)
    then have "as \<noteq> []" using snoc.prems(2) by (cases as) auto
    then obtain cs w where as: "as = cs @ [w]" by (meson rev_exhaust)
    have "path hp (cs @ w # z # bs)" using pz(1) z as by simp
    then have "linked hp w z" by (simp only: path_append [of hp cs w "z # bs"] path.simps)
    then have "w = p" using pz(2) by (simp add: linked_def)
    with d z as u show False by (cases bs rule: rev_cases) auto
  qed
  with d u show ?case by (metis distinct.simps(2) distinct1_rotate rotate1.simps(2) append_Cons)
qed

text \<open>Whatever the links are, the loop ends, and what it accepts is a ring.\<close>

lemma check_loop_decides:
  assumes D: "finite (dom hp)" "0 \<notin> dom hp" "\<And>a b. nxt hp a = Some b \<Longrightarrow> b \<in> dom hp" and n0: "node \<in> dom hp"
  shows "path hp (node # vs) \<Longrightarrow> node \<notin> set vs \<Longrightarrow> set vs \<subseteq> dom hp \<Longrightarrow> p = last (node # vs) \<Longrightarrow> nxt hp p = Some n \<Longrightarrow>
     card (dom hp) \<le> fuel + length vs \<Longrightarrow>
     check_loop fuel hp node ab p n = corrupt ab \<or> (check_loop fuel hp node ab p n = Ok node \<and> (\<exists>ns. ring hp (node # ns)))"
proof (induction fuel arbitrary: vs p n)
  case 0
  then have "card (set (node # vs)) \<le> card (dom hp)" using D(1) n0 by (intro card_mono) auto
  moreover have "card (set (node # vs)) = Suc (length vs)" using path_distinct [OF 0(1,2)] distinct_card by fastforce
  ultimately show ?case using 0(6) by simp
next
  case (Suc k)
  have n: "n \<in> dom hp" using D(3) Suc.prems(5) .
  moreover then have "n \<noteq> 0" using D(2) by metis
  ultimately have n: "n \<in> dom hp" "n \<noteq> 0" .
  then obtain pr nx where l: "prv hp n = Some pr" "nxt hp n = Some nx" by (auto simp: nxt_def prv_def)
  show ?case
  proof (cases "pr = p")
    case False
    then show ?thesis using n l by (subst (1 2) check_loop.simps) (auto simp: get_prev_eq)
  next
    case True
    then have lk: "linked hp p n" using l(1) Suc.prems(5) by (simp add: linked_def)
    define us where "us = butlast (node # vs)"
    have u: "node # vs = us @ [p]" unfolding us_def Suc.prems(4) by (rule append_butlast_last_id [symmetric]) simp
    have "path hp (us @ [p])" "path hp [p, n]" using Suc.prems(1) lk by (simp_all flip: u)
    then have "path hp (us @ p # [n])" by (simp only: path_append [of hp us p "[n]"] simp_thms)
    then have e: "path hp ((node # vs) @ [n])" unfolding u by simp
    show ?thesis
    proof (cases "n = node")
      case True
      with e Suc.prems D path_distinct [OF Suc.prems(1,2)] n have "ring hp (node # vs)" by (auto simp: ring_cons)
      then show ?thesis using True n l \<open>pr = p\<close> by (subst (1 2) check_loop.simps) (auto simp: get_prev_eq)
    next
      case False
      have "check_loop (Suc k) hp node ab p n = check_loop k hp node ab n nx"
        using False n l \<open>pr = p\<close> by (subst check_loop.simps) (simp add: get_prev_eq get_next_eq)
      moreover have "check_loop k hp node ab n nx = corrupt ab \<or>
          (check_loop k hp node ab n nx = Ok node \<and> (\<exists>ns. ring hp (node # ns)))"
        by (rule Suc.IH [of "vs @ [n]"]) (use e False Suc.prems n l in auto)
      ultimately show ?thesis by simp
    qed
  qed
qed

lemma list_check_node_decides:
  assumes D: "finite (dom hp)" "0 \<notin> dom hp" "\<And>a b. nxt hp a = Some b \<Longrightarrow> b \<in> dom hp" and n: "node \<in> dom hp"
    and k: "card (dom hp) \<le> fuel"
  shows "list_check_node fuel hp node ab = (if \<exists>ns. ring hp (node # ns) then Ok node else corrupt ab)"
proof -
  obtain f where f: "nxt hp node = Some f" using n by (auto simp: nxt_def)
  have n0: "node \<noteq> 0" using n D(2) by metis
  have r: "list_check_node fuel hp node ab = check_loop fuel hp node ab node f"
    using f n0 by (simp add: list_check_node_def get_next_eq)
  show ?thesis
  proof (cases "\<exists>ns. ring hp (node # ns)")
    case True
    then obtain ns where g: "ring hp (node # ns)" by blast
    then have "set (node # ns) \<subseteq> dom hp" using ring_member(2) by blast
    then have "card (set (node # ns)) \<le> card (dom hp)" using D(1) by (rule card_mono [rotated])
    moreover have "card (set (node # ns)) = length (node # ns)" using g by (intro distinct_card) (simp add: ring_def)
    ultimately show ?thesis using ring_check [OF g, of node fuel ab] k True by simp
  next
    case False
    then show ?thesis using check_loop_decides [OF D n, where vs = "[]" and p = node and n = f and fuel = fuel and ab = ab] f k r by auto
  qed
qed

section \<open>Walks\<close>

lemma node_off: "n < 2 ^ 64 \<Longrightarrow> list_node_from_off (list_node_to_off n off) off = n"
proof -
  assume "n < 2 ^ 64"
  have "int (list_node_from_off (list_node_to_off n off) off) = ((int n - int off) mod 2 ^ 64 + int off) mod 2 ^ 64"
    by (simp add: list_node_from_off_def list_node_to_off_def sub64_def w64_def zmod_int)
  also have "\<dots> = int n mod 2 ^ 64" by (simp add: mod_add_left_eq)
  also have "\<dots> = int n" using \<open>n < 2 ^ 64\<close> by simp
  finally show ?thesis by simp
qed

definition addressable :: "lheap \<Rightarrow> bool" where
  "addressable hp \<longleftrightarrow> dom hp \<subseteq> {0<..<2 ^ 64}"

lemma ring_addressable: "ring hp c \<Longrightarrow> addressable hp \<Longrightarrow> a \<in> set c \<Longrightarrow> a < 2 ^ 64"
  using ring_member(2) [of hp c a] by (auto simp: addressable_def)

lemma for_each_loop_spec:
  "ring hp (h # us @ ns) \<Longrightarrow> addressable hp \<Longrightarrow> length ns \<le> fuel \<Longrightarrow>
     for_each_loop fuel hp h off (list_node_to_off (hd (ns @ [h])) off) = Ok (map (\<lambda>n. list_node_to_off n off) ns)"
proof (induction ns arbitrary: us fuel)
  case Nil
  then show ?case using ring_addressable [OF Nil(1,2), of h] by (subst for_each_loop.simps) (simp add: node_off)
next
  case (Cons n ns)
  then obtain k where k: "fuel = Suc k" by (cases fuel) auto
  have "n < 2 ^ 64" "n \<noteq> h" using ring_addressable [OF Cons(2,3), of n] Cons(2) by (auto simp: ring_cons)
  moreover have "get_next hp n = Ok (hd (ns @ [h]))"
    using ring_split(1) [of hp h "us @ [n]" ns] ring_member(1) [OF Cons(2), of n] Cons(2) by (simp add: get_next_eq)
  ultimately show ?case using Cons.IH [of "us @ [n]" k] Cons.prems k by (subst for_each_loop.simps) (simp add: node_off)
qed

lemma list_for_each_off_spec:
  assumes "ring hp (h # ns)" "addressable hp" "dbg_ok d (length ns + 1)" "length ns \<le> fuel"
  shows "list_for_each_off fuel d hp h off = Ok (map (\<lambda>n. list_node_to_off n off) ns)"
  using for_each_loop_spec [of hp h "[]" ns fuel off] assms list_debug_ok(1) [OF assms(1), of h d] ring_ends [OF assms(1)]
  by (simp add: list_for_each_off_def get_next_eq)

lemma for_each_rev_loop_spec:
  "ring hp (h # ns @ us) \<Longrightarrow> addressable hp \<Longrightarrow> length ns \<le> fuel \<Longrightarrow>
     for_each_rev_loop fuel hp h off (list_node_to_off (last (h # ns)) off) = Ok (map (\<lambda>n. list_node_to_off n off) (rev ns))"
proof (induction ns arbitrary: us fuel rule: rev_induct)
  case Nil
  then show ?case using ring_addressable [OF Nil(1,2), of h] by (subst for_each_rev_loop.simps) (simp add: node_off)
next
  case (snoc n ns)
  then obtain k where k: "fuel = Suc k" by (cases fuel) auto
  have "n < 2 ^ 64" "n \<noteq> h" using ring_addressable [OF snoc(2,3), of n] snoc(2) by (auto simp: ring_cons)
  moreover have "get_prev hp n = Ok (last (h # ns))"
    using ring_split(2) [of hp h ns "n # us"] ring_member(1) [OF snoc(2), of n] snoc(2) by (intro get_prev_eq) simp_all
  moreover have "ring hp (h # ns @ n # us)" "last (h # ns @ [n]) = n" using snoc(2) by simp_all
  ultimately show ?case using snoc.IH [of "n # us" k] snoc.prems k
    by (subst for_each_rev_loop.simps) (simp add: node_off del: last.simps)
qed

lemma list_for_each_rev_spec:
  assumes "ring hp (h # ns)" "addressable hp" "dbg_ok d (length ns + 1)" "length ns \<le> fuel"
  shows "list_for_each_rev fuel d hp h off = Ok (map (\<lambda>n. list_node_to_off n off) (rev ns))"
  using for_each_rev_loop_spec [of hp h ns "[]" fuel off] assms list_debug_ok(1) [OF assms(1), of h d] ring_ends [OF assms(1)]
  by (simp add: list_for_each_rev_def get_prev_eq del: last.simps)

text \<open>Deleting during a safe walk; \<open>P\<close> selects objects.\<close>

definition delete_if :: "(ptr \<Rightarrow> bool) \<Rightarrow> nat option \<Rightarrow> nat \<Rightarrow> lheap \<Rightarrow> ptr \<Rightarrow> lheap cres" where
  "delete_if P d off hp i = (if P i then list_del d hp (list_node_from_off i off) else Ok hp)"

lemma for_each_safe_loop_spec:
  "ring hp (h # us @ ns) \<Longrightarrow> addressable hp \<Longrightarrow> length ns \<le> fuel \<Longrightarrow> dbg_ok d (length us + length ns + 1) \<Longrightarrow>
   \<exists>hp'. for_each_safe_loop (delete_if P d off) fuel hp h off (list_node_to_off (hd (ns @ [h])) off)
       (list_node_to_off (hd (tl (ns @ [h]) @ [hd (us @ [h])])) off) = Ok hp' \<and>
     ring hp' (h # us @ filter (\<lambda>n. \<not> P (list_node_to_off n off)) ns) \<and> only_changes (set (h # us @ ns)) hp hp'"
proof (induction ns arbitrary: us fuel hp)
  case Nil
  then show ?case using ring_addressable [OF Nil(1,2), of h]
    by (subst for_each_safe_loop.simps) (simp add: node_off only_changes_def)
next
  case (Cons n ns)
  then obtain k where k: "fuel = Suc k" by (cases fuel) auto
  let ?off = "\<lambda>n. list_node_to_off n off"
  let ?m = "hd (ns @ [h])"
  define us' where "us' = (if P (?off n) then us else us @ [n])"
  have n: "n < 2 ^ 64" "n \<noteq> h" using ring_addressable [OF Cons(2,3), of n] Cons(2) by (auto simp: ring_cons)
  have m: "?m < 2 ^ 64" "?m \<in> set (h # ns)" using ring_addressable [OF Cons(2,3)] by (cases ns; simp)+
  obtain hp1 where 1: "delete_if P d off hp (?off n) = Ok hp1" "ring hp1 (h # us' @ ns)" "only_changes (set (h # us @ n # ns)) hp hp1"
  proof (cases "P (?off n)")
    case True
    then show thesis using list_del_spec [of hp h us n ns d] Cons.prems n that by (auto simp: delete_if_def us'_def node_off)
  next
    case False
    then show thesis using Cons.prems(1) by (intro that [of hp]) (auto simp: delete_if_def us'_def only_changes_def)
  qed
  have a1: "addressable hp1" using 1(3) Cons.prems(2) by (simp add: only_changes_def addressable_def)
  have c: "length ns \<le> k" "dbg_ok d (length us' + length ns + 1)"
    using Cons.prems(3,4) k dbg_ok_mono [OF Cons.prems(4)] by (auto simp: us'_def)
  from Cons.IH [OF 1(2) a1 c] obtain hp' where 2: "for_each_safe_loop (delete_if P d off) k hp1 h off (?off ?m) (?off (hd (tl (ns @ [h]) @ [hd (us' @ [h])]))) = Ok hp'"
    "ring hp' (h # us' @ filter (\<lambda>n. \<not> P (?off n)) ns)" "only_changes (set (h # us' @ ns)) hp1 hp'"
    by blast
  have nx: "get_next hp1 ?m = Ok (hd (tl (ns @ [h]) @ [hd (us' @ [h])]))"
  proof (cases ns)
    case Nil
    then show ?thesis using ring_ends [OF 1(2)] by (simp add: get_next_eq)
  next
    case (Cons r rs)
    then show ?thesis using ring_split(1) [of hp1 h "us' @ [r]" rs] 1(2) ring_member(1) [OF 1(2), of r] by (cases rs) (simp_all add: get_next_eq)
  qed
  have "for_each_safe_loop (delete_if P d off) fuel hp h off (?off n) (?off ?m) = Ok hp'"
    using 1(1) 2(1) nx n m k by (subst for_each_safe_loop.simps) (simp add: node_off)
  moreover have "hd (tl ((n # ns) @ [h]) @ [hd (us @ [h])]) = ?m" by (cases ns) simp_all
  moreover have "only_changes (set (h # us @ n # ns)) hp hp'"
    using 1(3) 2(3) by (auto simp: only_changes_def us'_def split: if_splits)
  ultimately show ?case using 2(2) by (auto simp: us'_def split: if_splits)
qed

lemma list_for_each_safe_spec:
  assumes r: "ring hp (h # ns)" and a: "addressable hp" "length ns \<le> fuel" "dbg_ok d (length ns + 1)"
  shows "\<exists>hp'. list_for_each_safe_off (delete_if P d off) fuel d hp h off = Ok hp' \<and>
    ring hp' (h # filter (\<lambda>n. \<not> P (list_node_to_off n off)) ns) \<and> only_changes (set (h # ns)) hp hp'"
proof -
  have m: "hd (ns @ [h]) < 2 ^ 64" using ring_addressable [OF r a(1)] by (cases ns) simp_all
  have "get_next hp (hd (ns @ [h])) = Ok (hd (tl (ns @ [h]) @ [hd ([] @ [h])]))" if "ns \<noteq> []"
    using that ring_split(1) [of hp h "[hd ns]" "tl ns"] r ring_member(1) [OF r, of "hd ns"] by (cases ns; cases "tl ns") (simp_all add: get_next_eq)
  moreover have "get_next hp h = Ok (hd (ns @ [h]))" using ring_ends [OF r] by (simp add: get_next_eq)
  moreover have "list_debug d hp h = Ok h" using list_debug_ok(1) [OF r, of h d] a(3) by simp
  ultimately show ?thesis
    using for_each_safe_loop_spec [of hp h "[]" ns fuel d P off] r a m
    by (cases ns) (simp_all add: list_for_each_safe_off_def node_off)
qed

section \<open>Programs over many lists\<close>

datatype list_cmd =
    Init_head ptr
  | Add_first ptr ptr
  | Add_last ptr ptr
  | Delete ptr ptr
  | Delete_from ptr ptr
  | Pop_first ptr
  | Append_all ptr ptr
  | Prepend_all ptr ptr

fun list_exec :: "nat option \<Rightarrow> list_cmd \<Rightarrow> lheap \<Rightarrow> lheap cres" where
  "list_exec d (Init_head h) hp = list_head_init hp h"
| "list_exec d (Add_first h n) hp = list_add d hp h n"
| "list_exec d (Add_last h n) hp = list_add_tail d hp h n"
| "list_exec d (Delete h n) hp = list_del d hp n"
| "list_exec d (Delete_from h n) hp = list_del_from d hp h n"
| "list_exec d (Pop_first h) hp = res_bind (list_pop d hp h 0) (\<lambda>(_, hp). Ok hp)"
| "list_exec d (Append_all g h) hp = list_append_list d hp g h"
| "list_exec d (Prepend_all g h) hp = list_prepend_list d hp g h"

fun list_execs :: "nat option \<Rightarrow> list_cmd list \<Rightarrow> lheap \<Rightarrow> lheap cres" where
  "list_execs d [] hp = Ok hp"
| "list_execs d (c # cs) hp = res_bind (list_exec d c hp) (list_execs d cs)"

text \<open>The same on finite sequences, by list head.\<close>

type_synonym lists = "ptr \<rightharpoonup> ptr list"

fun seq_cmd :: "list_cmd \<Rightarrow> lists \<Rightarrow> lists" where
  "seq_cmd (Init_head h) L = L(h \<mapsto> [])"
| "seq_cmd (Add_first h n) L = L(h \<mapsto> n # the (L h))"
| "seq_cmd (Add_last h n) L = L(h \<mapsto> the (L h) @ [n])"
| "seq_cmd (Delete h n) L = L(h \<mapsto> remove1 n (the (L h)))"
| "seq_cmd (Delete_from h n) L = L(h \<mapsto> remove1 n (the (L h)))"
| "seq_cmd (Pop_first h) L = L(h \<mapsto> tl (the (L h)))"
| "seq_cmd (Append_all g h) L = L(g \<mapsto> the (L g) @ the (L h), h \<mapsto> [])"
| "seq_cmd (Prepend_all g h) L = L(g \<mapsto> the (L h) @ the (L g), h \<mapsto> [])"

definition in_list :: "lists \<Rightarrow> ptr \<Rightarrow> ptr \<Rightarrow> bool" where
  "in_list L h a \<longleftrightarrow> (case L h of None \<Rightarrow> False | Some ns \<Rightarrow> a \<in> set (h # ns))"

definition free_node :: "ptr set \<Rightarrow> lists \<Rightarrow> ptr \<Rightarrow> bool" where
  "free_node D L n \<longleftrightarrow> n \<in> D \<and> (\<forall>h\<in>dom L. \<not> in_list L h n)"

fun cmd_legal :: "ptr set \<Rightarrow> list_cmd \<Rightarrow> lists \<Rightarrow> bool" where
  "cmd_legal D (Init_head h) L \<longleftrightarrow> free_node D L h"
| "cmd_legal D (Add_first h n) L \<longleftrightarrow> L h \<noteq> None \<and> free_node D L n"
| "cmd_legal D (Add_last h n) L \<longleftrightarrow> L h \<noteq> None \<and> free_node D L n"
| "cmd_legal D (Delete h n) L \<longleftrightarrow> in_list L h n \<and> n \<noteq> h"
| "cmd_legal D (Delete_from h n) L \<longleftrightarrow> in_list L h n \<and> n \<noteq> h"
| "cmd_legal D (Pop_first h) L \<longleftrightarrow> L h \<noteq> None"
| "cmd_legal D (Append_all g h) L \<longleftrightarrow> L g \<noteq> None \<and> L h \<noteq> None \<and> g \<noteq> h"
| "cmd_legal D (Prepend_all g h) L \<longleftrightarrow> L g \<noteq> None \<and> L h \<noteq> None \<and> g \<noteq> h"

fun seq_cmds :: "list_cmd list \<Rightarrow> lists \<Rightarrow> lists" where
  "seq_cmds [] L = L"
| "seq_cmds (c # cs) L = seq_cmds cs (seq_cmd c L)"

fun cmds_legal :: "ptr set \<Rightarrow> list_cmd list \<Rightarrow> lists \<Rightarrow> bool" where
  "cmds_legal D [] L \<longleftrightarrow> True"
| "cmds_legal D (c # cs) L \<longleftrightarrow> cmd_legal D c L \<and> cmds_legal D cs (seq_cmd c L)"

definition lists_ok :: "ptr set \<Rightarrow> lheap \<Rightarrow> lists \<Rightarrow> bool" where
  "lists_ok D hp L \<longleftrightarrow> dom hp = D \<and> (\<forall>h ns. L h = Some ns \<longrightarrow> ring hp (h # ns)) \<and>
     (\<forall>g us h vs. L g = Some us \<longrightarrow> L h = Some vs \<longrightarrow> g \<noteq> h \<longrightarrow> set (g # us) \<inter> set (h # vs) = {})"

lemma lists_okD:
  assumes "lists_ok D hp L"
  shows "dom hp = D" "L h = Some ns \<Longrightarrow> ring hp (h # ns)"
    "L g = Some us \<Longrightarrow> L h = Some ns \<Longrightarrow> g \<noteq> h \<Longrightarrow> set (g # us) \<inter> set (h # ns) = {}"
  using assms unfolding lists_ok_def by blast+

text \<open>One list changes within a set of nodes that no other list has.\<close>

lemma lists_ok_update:
  assumes ok: "lists_ok D hp L" and r: "ring hp' (h # ns)" and c: "only_changes S hp hp'" and s: "set (h # ns) \<subseteq> S"
    and o: "\<And>g us. L g = Some us \<Longrightarrow> g \<noteq> h \<Longrightarrow> set (g # us) \<inter> S = {}"
  shows "lists_ok D hp' (L(h \<mapsto> ns))"
proof -
  have "ring hp' (g # us)" if "L g = Some us" "g \<noteq> h" for g us
    using ring_only_changes [OF lists_okD(2) [OF ok that(1)] c] o [OF that] by blast
  moreover have "set (g # us) \<inter> set (h # ns) = {}" if "L g = Some us" "g \<noteq> h" for g us
    using o [OF that] s by blast
  moreover have "dom hp' = D" using c lists_okD(1) [OF ok] by (simp add: only_changes_def)
  ultimately show ?thesis
    using r lists_okD(3) [OF ok] unfolding lists_ok_def by (auto simp: Int_commute split: if_splits)
qed

lemma lists_ok_forget: "lists_ok D hp L \<Longrightarrow> lists_ok D hp (L(h := None))"
  by (auto simp: lists_ok_def)

lemma lists_ok_merge:
  assumes ok: "lists_ok D hp L" and L: "L g = Some us" "L h = Some vs" "g \<noteq> h"
    and r: "ring hp' (g # ws)" "ring hp' [h]" and w: "set ws = set us \<union> set vs"
    and c: "only_changes (set (g # us @ h # vs)) hp hp'"
  shows "lists_ok D hp' (L(g \<mapsto> ws, h \<mapsto> []))"
proof -
  have o: "set (k # ks) \<inter> set (g # us @ h # vs) = {}" if "L k = Some ks" "k \<noteq> g" "k \<noteq> h" for k ks
    using lists_okD(3) [OF ok that(1) L(1) that(2)] lists_okD(3) [OF ok that(1) L(2) that(3)] by auto
  have "lists_ok D hp' ((L(h := None))(g \<mapsto> ws))"
    by (rule lists_ok_update [OF lists_ok_forget [OF ok] r(1) c]) (use w o in \<open>auto split: if_splits\<close>)
  then have "lists_ok D hp' ((L(h := None))(g \<mapsto> ws, h \<mapsto> []))"
  proof (rule lists_ok_update [OF _ r(2)])
    show "only_changes {h} hp' hp'" by (simp add: only_changes_def)
    have "h \<notin> set (g # ws)" using lists_okD(3) [OF ok L(1,2)] lists_okD(2) [OF ok L(2)] L(3) w by (auto simp: ring_cons)
    then show "set (k # ks) \<inter> {h} = {}" if "((L(h := None))(g \<mapsto> ws)) k = Some ks" "k \<noteq> h" for k ks
      using that o [of k ks] by (auto split: if_splits)
  qed simp
  moreover have "(L(h := None))(g \<mapsto> ws, h \<mapsto> []) = L(g \<mapsto> ws, h \<mapsto> [])" using L(3) by (auto simp: fun_eq_iff)
  ultimately show ?thesis by simp
qed

lemma fits:
  assumes "finite D" "dbg_ok d (card D)" "distinct c" "set c \<subseteq> D"
  shows "dbg_ok d (length c)"
  using card_mono [OF assms(1,4)] distinct_card [OF assms(3)] by (intro dbg_ok_mono [OF assms(2)]) simp

lemma list_exec_ok:
  assumes ok: "lists_ok D hp L" and D: "finite D" "0 \<notin> D" "dbg_ok d (card D)" and l: "cmd_legal D c L"
  shows "\<exists>hp'. list_exec d c hp = Ok hp' \<and> lists_ok D hp' (seq_cmd c L)"
proof -
  have dom: "dom hp = D" using lists_okD(1) [OF ok] .
  have rd: "distinct (h # ns)" "set (h # ns) \<subseteq> D" if "L h = Some ns" for h ns
    using lists_okD(2) [OF ok that] ring_member(2) [OF lists_okD(2) [OF ok that]] dom by (auto simp: ring_def)
  have free: "n \<in> dom hp" "n \<noteq> 0" "\<And>h ns. L h = Some ns \<Longrightarrow> n \<notin> set (h # ns)" if "free_node D L n" for n
    using that D(2) dom by (auto simp: free_node_def in_list_def dest!: bspec)
  have add: "dbg_ok d (length ns + 2)" if "free_node D L n" "L h = Some ns" for h n ns
    using fits [OF D(1,3), of "n # h # ns"] rd [OF that(2)] free [OF that(1)] that(2) dom by auto
  have other: "set (g # us) \<inter> set (h # n # ns) = {}" if "free_node D L n" "L h = Some ns" "L g = Some us" "g \<noteq> h" for g us h n ns
    using lists_okD(3) [OF ok that(3,2,4)] free(3) [OF that(1,3)] by auto
  have split: "\<exists>xs ys. L h = Some (xs @ n # ys) \<and> n \<notin> set xs \<and> ring hp (h # xs @ n # ys) \<and> dbg_ok d (length xs + length ys + 2) \<and>
      (\<forall>g us. L g = Some us \<longrightarrow> g \<noteq> h \<longrightarrow> set (g # us) \<inter> set (h # xs @ n # ys) = {})"
    if "in_list L h n" "n \<noteq> h" for h n
  proof -
    note m = that
    obtain ns where ns: "L h = Some ns" "n \<in> set ns" using m by (auto simp: in_list_def split: option.splits)
    obtain xs ys where xy: "ns = xs @ n # ys" "n \<notin> set xs" using split_list_first [OF ns(2)] by blast
    have "dbg_ok d (length (h # ns))" using rd [OF ns(1)] by (rule fits [OF D(1,3)])
    then show ?thesis using ns(1) xy lists_okD(2) [OF ok ns(1)] lists_okD(3) [OF ok _ ns(1)]
      by (intro exI [of _ xs] exI [of _ ys]) auto
  qed
  show ?thesis
  proof (cases c)
    case (Init_head h)
    then have h: "free_node D L h" using l by simp
    obtain hp' where "list_head_init hp h = Ok hp'" "ring hp' [h]" "only_changes {h} hp hp'"
      using list_head_init_spec [OF free(1,2) [OF h]] by blast
    then show ?thesis using lists_ok_update [OF ok, of hp' h "[]" "{h}"] free(3) [OF h] Init_head by auto
  next
    case (Add_first h n)
    then obtain ns where h: "free_node D L n" "L h = Some ns" using l by auto
    obtain hp' where e: "list_add d hp h n = Ok hp'" "ring hp' (h # n # ns)" "only_changes (set (h # n # ns)) hp hp'"
      using list_add_spec [OF lists_okD(2) [OF ok h(2)] free(1,2,3) [OF h(1)] add [OF h]] h(2) by blast
    have "lists_ok D hp' (L(h \<mapsto> n # ns))" using other [OF h] by (intro lists_ok_update [OF ok e(2,3)]) blast+
    then show ?thesis using e(1) h(2) Add_first by simp
  next
    case (Add_last h n)
    then obtain ns where h: "free_node D L n" "L h = Some ns" using l by auto
    obtain hp' where e: "list_add_tail d hp h n = Ok hp'" "ring hp' (h # ns @ [n])" "only_changes (set (h # n # ns)) hp hp'"
      using list_add_tail_spec [OF lists_okD(2) [OF ok h(2)] free(1,2,3) [OF h(1)] add [OF h]] h(2) by blast
    have "lists_ok D hp' (L(h \<mapsto> ns @ [n]))" using other [OF h] by (intro lists_ok_update [OF ok e(2,3)]) auto
    then show ?thesis using e(1) h(2) Add_last by simp
  next
    case (Delete h n)
    then obtain xs ys where s: "L h = Some (xs @ n # ys)" "n \<notin> set xs" "ring hp (h # xs @ n # ys)" "dbg_ok d (length xs + length ys + 2)"
      "\<And>g us. L g = Some us \<Longrightarrow> g \<noteq> h \<Longrightarrow> set (g # us) \<inter> set (h # xs @ n # ys) = {}"
      using l split by (metis cmd_legal.simps(4))
    obtain hp' where e: "list_del d hp n = Ok hp'" "ring hp' (h # xs @ ys)" "only_changes (set (h # xs @ n # ys)) hp hp'"
      using list_del_spec [OF s(3,4)] by blast
    have "lists_ok D hp' (L(h \<mapsto> xs @ ys))" using s(5) by (intro lists_ok_update [OF ok e(2,3)]) auto
    then show ?thesis using e(1) s(1,2) Delete by (simp add: remove1_append)
  next
    case (Delete_from h n)
    then obtain xs ys where s: "L h = Some (xs @ n # ys)" "n \<notin> set xs" "ring hp (h # xs @ n # ys)" "dbg_ok d (length xs + length ys + 2)"
      "\<And>g us. L g = Some us \<Longrightarrow> g \<noteq> h \<Longrightarrow> set (g # us) \<inter> set (h # xs @ n # ys) = {}"
      using l split by (metis cmd_legal.simps(5))
    obtain hp' where e: "list_del_from d hp h n = Ok hp'" "ring hp' (h # xs @ ys)" "only_changes (set (h # xs @ n # ys)) hp hp'"
      using list_del_from_spec [OF s(3,4)] by blast
    have "lists_ok D hp' (L(h \<mapsto> xs @ ys))" using s(5) by (intro lists_ok_update [OF ok e(2,3)]) auto
    then show ?thesis using e(1) s(1,2) Delete_from by (simp add: remove1_append)
  next
    case (Pop_first h)
    then obtain ns where h: "L h = Some ns" using l by auto
    note r = lists_okD(2) [OF ok h]
    have f: "dbg_ok d (length (h # ns))" using rd [OF h] by (rule fits [OF D(1,3)])
    show ?thesis
    proof (cases ns)
      case Nil
      then have "L(h \<mapsto> []) = L" using h by auto
      then show ?thesis using list_pop_empty [of hp h d 0] r f ok h Nil Pop_first by simp
    next
      case (Cons n ms)
      obtain hp' where e: "list_pop d hp h 0 = Ok (sub64 n 0, hp')" "ring hp' (h # ms)" "only_changes (set (h # n # ms)) hp hp'"
        using list_pop_spec [of hp h n ms d 0] r f Cons by auto
      have "lists_ok D hp' (L(h \<mapsto> ms))"
        using lists_okD(3) [OF ok _ h] Cons by (intro lists_ok_update [OF ok e(2,3)]) auto
      then show ?thesis using e(1) h Cons Pop_first by simp
    qed
  next
    case (Append_all g h)
    then obtain us vs where a: "L g = Some us" "L h = Some vs" "g \<noteq> h" using l by auto
    note dj = lists_okD(3) [OF ok a]
    have f: "dbg_ok d (length us + length vs + 2)" using fits [OF D(1,3), of "(g # us) @ h # vs"] rd [OF a(1)] rd [OF a(2)] dj by auto
    show ?thesis
      using list_append_list_spec [OF lists_okD(2) [OF ok a(1)] lists_okD(2) [OF ok a(2)] dj f] lists_ok_merge [OF ok a] a Append_all by fastforce
  next
    case (Prepend_all g h)
    then obtain us vs where a: "L g = Some us" "L h = Some vs" "g \<noteq> h" using l by auto
    note dj = lists_okD(3) [OF ok a]
    have f: "dbg_ok d (length us + length vs + 2)" using fits [OF D(1,3), of "(g # us) @ h # vs"] rd [OF a(1)] rd [OF a(2)] dj by auto
    show ?thesis
      using list_prepend_list_spec [OF lists_okD(2) [OF ok a(1)] lists_okD(2) [OF ok a(2)] dj f] lists_ok_merge [OF ok a] a Prepend_all by fastforce
  qed
qed

lemma list_execs_ok:
  "lists_ok D hp L \<Longrightarrow> finite D \<Longrightarrow> 0 \<notin> D \<Longrightarrow> dbg_ok d (card D) \<Longrightarrow> cmds_legal D cs L \<Longrightarrow>
     \<exists>hp'. list_execs d cs hp = Ok hp' \<and> lists_ok D hp' (seq_cmds cs L)"
proof (induction cs arbitrary: hp L)
  case (Cons c cs)
  from list_exec_ok [OF Cons.prems(1-4), of c] Cons.prems(5) obtain hp1 where
    1: "list_exec d c hp = Ok hp1" "lists_ok D hp1 (seq_cmd c L)" by auto
  from Cons.IH [OF 1(2) Cons.prems(2-4)] Cons.prems(5) obtain hp' where
    "list_execs d cs hp1 = Ok hp'" "lists_ok D hp' (seq_cmds cs (seq_cmd c L))" by auto
  with 1(1) show ?case by simp
qed simp

section \<open>Properties\<close>

text \<open>What a client sees of a list.\<close>

definition list_observes :: "nat option \<Rightarrow> lheap \<Rightarrow> ptr \<Rightarrow> ptr list \<Rightarrow> bool" where
  "list_observes d hp h ns \<longleftrightarrow>
     list_empty d hp h = Ok (ns = []) \<and>
     list_top d hp h 0 = Ok (case ns of [] \<Rightarrow> 0 | n # _ \<Rightarrow> n) \<and>
     list_tail d hp h 0 = Ok (if ns = [] then 0 else last ns) \<and>
     list_for_each_off (length ns) d hp h 0 = Ok ns \<and>
     list_for_each_rev (length ns) d hp h 0 = Ok (rev ns)"

lemma ring_observes:
  assumes r: "ring hp (h # ns)" and a: "addressable hp" "dbg_ok d (length ns + 1)"
  shows "list_observes d hp h ns"
proof -
  have m: "n < 2 ^ 64" if "n \<in> set ns" for n using ring_addressable [OF r a(1)] that by simp
  have z: "sub64 n 0 = n" if "n < 2 ^ 64" for n using that by (simp add: sub64_id)
  have "map (\<lambda>n. list_node_to_off n 0) ns = ns" "map (\<lambda>n. list_node_to_off n 0) (rev ns) = rev ns"
    using m z by (auto simp: list_node_to_off_def intro!: map_idI)
  then show ?thesis
    using list_empty_spec [OF r a(2)] list_top_spec [OF r a(2), of 0] list_tail_spec [OF r a(2), of 0]
      list_for_each_off_spec [OF r a, of "length ns" 0] list_for_each_rev_spec [OF r a, of "length ns" 0] m z
    by (auto simp: list_observes_def split: list.split)
qed

text \<open>
  C5. Any program that initialises lists, adds nodes at either end, deletes and pops them and
  appends and prepends whole lists computes on the linked nodes what the same program of
  sequence operations computes: no access faults, no check of the debugging build aborts, every
  list is seen as its sequence from both ends, and the lists never share a node.
\<close>

theorem list_program_refines:
  assumes "addressable hp" "dbg_ok d (card (dom hp))" "cmds_legal (dom hp) cs (\<lambda>_. None)"
  shows "\<exists>hp'. list_execs d cs hp = Ok hp' \<and> dom hp' = dom hp \<and>
    (\<forall>h ns. seq_cmds cs (\<lambda>_. None) h = Some ns \<longrightarrow> distinct (h # ns) \<and> list_observes d hp' h ns)"
proof -
  have f: "finite (dom hp)" "0 \<notin> dom hp" using assms(1) by (auto simp: addressable_def intro: finite_subset)
  have "lists_ok (dom hp) hp (\<lambda>_. None)" by (simp add: lists_ok_def)
  from list_execs_ok [OF this f assms(2,3)] obtain hp' where
    r: "list_execs d cs hp = Ok hp'" "lists_ok (dom hp) hp' (seq_cmds cs (\<lambda>_. None))" by blast
  have a: "addressable hp'" using assms(1) lists_okD(1) [OF r(2)] by (simp add: addressable_def)
  have "distinct (h # ns) \<and> list_observes d hp' h ns" if "seq_cmds cs (\<lambda>_. None) h = Some ns" for h ns
  proof -
    note g = lists_okD(2) [OF r(2) that]
    have "set (h # ns) \<subseteq> dom hp" using ring_member(2) [OF g] lists_okD(1) [OF r(2)] by blast
    moreover have "distinct (h # ns)" using g by (simp add: ring_def)
    ultimately have "dbg_ok d (length (h # ns))" by (intro fits [OF f(1) assms(2)])
    then show ?thesis using ring_observes [OF g a, of d] \<open>distinct (h # ns)\<close> by simp
  qed
  with r lists_okD(1) [OF r(2)] show ?thesis by blast
qed

definition wild_nodes :: lheap where
  "wild_nodes = (\<lambda>a. if a \<in> {8, 24, 40, 56} then Some \<lparr>ln_next = 0, ln_prev = 0\<rparr> else None)"

lemma wild_nodes_simps: "dom wild_nodes = {8, 24, 40, 56}" "addressable wild_nodes"
  by (auto simp: wild_nodes_def addressable_def split: if_splits)

lemma list_program_refines_witness:
  "\<exists>hp'. list_execs (Some 4) [Init_head 8, Init_head 24, Add_first 8 40, Add_last 8 56, Append_all 24 8, Delete 24 40] wild_nodes = Ok hp' \<and>
     dom hp' = dom wild_nodes \<and>
     (\<forall>h ns. [8 \<mapsto> [], 24 \<mapsto> [56]] h = Some ns \<longrightarrow> distinct (h # ns) \<and> list_observes (Some 4) hp' h ns)"
proof -
  let ?cs = "[Init_head 8, Init_head 24, Add_first 8 40, Add_last 8 56, Append_all 24 8, Delete 24 40]"
  have "seq_cmds ?cs (\<lambda>_. None) = [8 \<mapsto> [], 24 \<mapsto> [56]]" by (simp add: fun_eq_iff)
  moreover have "cmds_legal (dom wild_nodes) ?cs (\<lambda>_. None)"
    by (simp add: wild_nodes_simps free_node_def in_list_def)
  moreover have "dbg_ok (Some 4) (card (dom wild_nodes))" by (simp add: wild_nodes_simps dbg_ok_def)
  ultimately show ?thesis using list_program_refines [OF wild_nodes_simps(2), of "Some 4" ?cs] by simp
qed

text \<open>
  C15. On any heap of nodes without dangling links, however they are tangled,
  \<open>list_check_node\<close> ends, and it accepts exactly the nodes that lie on a well-formed ring: it
  follows the links at most once per node.
\<close>

theorem list_check_node_exact:
  assumes "finite (dom hp)" "0 \<notin> dom hp" "\<forall>a\<in>dom hp. \<exists>b\<in>dom hp. nxt hp a = Some b" "node \<in> dom hp" "card (dom hp) \<le> fuel"
  shows "list_check_node fuel hp node ab = (if \<exists>ns. ring hp (node # ns) then Ok node else if ab then Err Abort else Ok 0)"
proof -
  have "b \<in> dom hp" if "nxt hp a = Some b" for a b using assms(3) link_dom(1) [OF that] that by force
  from list_check_node_decides [OF assms(1,2) this assms(4,5)] show ?thesis by (simp add: corrupt_def)
qed

lemma list_check_node_exact_witness:
  "list_check_node 2 [8 \<mapsto> \<lparr>ln_next = 24, ln_prev = 24\<rparr>, 24 \<mapsto> \<lparr>ln_next = 8, ln_prev = 24\<rparr>] 8 False = Ok 0"
proof -
  let ?hp = "[8 \<mapsto> \<lparr>ln_next = 24, ln_prev = 24\<rparr>, 24 \<mapsto> \<lparr>ln_next = 8, ln_prev = 24\<rparr>] :: lheap"
  have n: "\<not> (\<exists>ns. ring ?hp (8 # ns))"
  proof
    assume "\<exists>ns. ring ?hp (8 # ns)"
    then obtain ns where "ring ?hp (8 # ns)" by blast
    from ring_ends(3) [OF this] this show False by (cases ns) (auto simp: ring_cons nxt_def prv_def linked_def)
  qed
  have c: "\<forall>a\<in>dom ?hp. \<exists>b\<in>dom ?hp. nxt ?hp a = Some b" by (simp add: nxt_def)
  show ?thesis
    by (subst list_check_node_exact [OF _ _ c]) (use n in simp_all)
qed

text \<open>
  C36. Walking a list with \<open>list_for_each_safe\<close> while deleting the objects that a test selects
  ends and leaves exactly the other objects, in order, in both builds.
\<close>

theorem list_for_each_safe_filters:
  assumes "ring hp (h # ns)" "addressable hp" "dbg_ok d (length ns + 1)"
  shows "\<exists>hp'. list_for_each_safe_off (delete_if P d off) (length ns) d hp h off = Ok hp' \<and>
    list_for_each_off (length ns) d hp' h off = Ok (filter (\<lambda>i. \<not> P i) (map (\<lambda>n. list_node_to_off n off) ns))"
proof -
  let ?ns = "filter (\<lambda>n. \<not> P (list_node_to_off n off)) ns"
  obtain hp' where r: "list_for_each_safe_off (delete_if P d off) (length ns) d hp h off = Ok hp'" "ring hp' (h # ?ns)"
    "only_changes (set (h # ns)) hp hp'"
    using list_for_each_safe_spec [OF assms(1,2) _ assms(3), of "length ns" P off] by blast
  have "addressable hp'" using r(3) assms(2) by (simp add: only_changes_def addressable_def)
  then have "list_for_each_off (length ns) d hp' h off = Ok (map (\<lambda>n. list_node_to_off n off) ?ns)"
    using r(2) dbg_ok_mono [OF assms(3), of "length ?ns + 1"] by (intro list_for_each_off_spec) simp_all
  with r(1) show ?thesis by (simp add: filter_map comp_def)
qed

lemma list_for_each_safe_filters_witness:
  "\<exists>hp'. list_for_each_safe_off (delete_if (\<lambda>_. True) None 0) (length [24 :: nat]) None
       [8 \<mapsto> \<lparr>ln_next = 24, ln_prev = 24\<rparr>, 24 \<mapsto> \<lparr>ln_next = 8, ln_prev = 8\<rparr>] 8 0 = Ok hp' \<and>
     list_for_each_off (length [24 :: nat]) None hp' 8 0 = Ok (filter (\<lambda>i. \<not> True) (map (\<lambda>n. list_node_to_off n 0) [24]))"
  by (rule list_for_each_safe_filters)
    (simp_all add: ring_def linked_def nxt_def prv_def addressable_def dbg_ok_def)

end
