(* ===== verification/Ae.thy ===== *)
theory Ae
  imports CMem
begin

text \<open>
  The event loop of src/Clang/aio/ae/ae.c with its polling layers ae_epoll.c,
  ae_select.c, ae_kqueue.c and ae_evport.c:
  the data, the polling layer, and the registration of file and time events.

  What the system answers is read off scripts in the world: the readings of the clock, the
  failures of \<open>epoll_ctl\<close>, \<open>kevent\<close> and \<open>port_associate\<close>, and the replies of waiting calls. The interest set an
  epoll descriptor has is what the successful calls of \<open>epoll_ctl\<close> asked for. C ints and longs
  are integers here; no computation of the loop comes near their bounds, except the identifiers
  of time events, which count registrations.
\<close>

section \<open>Constants\<close>

definition AE_NONE :: int where "AE_NONE = 0"
definition AE_READABLE :: int where "AE_READABLE = 1"
definition AE_WRITABLE :: int where "AE_WRITABLE = 2"
definition AE_FILE_EVENTS :: int where "AE_FILE_EVENTS = 1"
definition AE_TIME_EVENTS :: int where "AE_TIME_EVENTS = 2"
definition AE_ALL_EVENTS :: int where "AE_ALL_EVENTS = AE_FILE_EVENTS OR AE_TIME_EVENTS"
definition AE_DONT_WAIT :: int where "AE_DONT_WAIT = 4"
definition AE_NOMORE :: int where "AE_NOMORE = -1"

text \<open>The events of epoll and of poll.\<close>

definition EPOLLIN :: int where "EPOLLIN = 1"
definition EPOLLOUT :: int where "EPOLLOUT = 4"
definition EPOLLERR :: int where "EPOLLERR = 8"
definition EPOLLHUP :: int where "EPOLLHUP = 16"

text \<open>The size of an \<open>fd_set\<close>.\<close>

definition FD_SETSIZE :: nat where "FD_SETSIZE = 1024"

definition has_bits :: "int \<Rightarrow> int \<Rightarrow> bool" where
  "has_bits m b \<longleftrightarrow> m AND b \<noteq> 0"

section \<open>State\<close>

text \<open>Callbacks are numbers, 0 is NULL.\<close>

record file_event =
  fe_mask :: int
  fe_rproc :: nat
  fe_wproc :: nat
  fe_data :: nat

record time_event =
  te_id :: int
  te_sec :: int
  te_ms :: int
  te_proc :: nat
  te_fin :: nat
  te_data :: nat

record epoll_state =
  ep_interest :: "int \<Rightarrow> int option"

record select_state =
  rfds :: "bool list"
  wfds :: "bool list"

text \<open>The read and write filters a kqueue has.\<close>

record kqueue_state =
  kq_rd :: "int \<Rightarrow> bool"
  kq_wr :: "int \<Rightarrow> bool"

text \<open>
  An event port has the mask each descriptor is associated with. The descriptors the last wait
  returned are not associated but pending.
\<close>

definition MAX_EVENT_BATCHSZ :: nat where "MAX_EVENT_BATCHSZ = 512"

record evport_state =
  ev_assoc :: "int \<Rightarrow> int option"
  ev_npending :: nat
  ev_fds :: "int list"
  ev_masks :: "int list"

datatype api = Epoll epoll_state | Select select_state | Kqueue kqueue_state | Evport evport_state

text \<open>Calls of callbacks, in the order they are made.\<close>

datatype ae_call =
    Called_file nat int nat int
  | Called_time nat int nat
  | Called_finalizer nat nat
  | Called_before nat

record ae_loop =
  ae_maxfd :: int
  ae_setsize :: nat
  ae_next_id :: int
  ae_last :: int
  ae_events :: "file_event list"
  ae_fired :: "(int \<times> int) list"
  ae_timers :: "time_event list"
  ae_stop :: bool
  ae_api :: api
  ae_before :: nat
  ae_log :: "ae_call list"

record ae_world = world +
  aw_clock :: "nat \<Rightarrow> int \<times> int"
  aw_tick :: nat
  aw_live :: int
  aw_ctl :: "bool list"
  aw_wait :: "(int \<times> int) list option list"

text \<open>
  Allocations, with the number of blocks that are allocated. ae.c has branches for an allocator
  that returns NULL, and they are modelled; the zmalloc.c beside it aborts instead.
\<close>

definition ae_zmalloc :: "ae_world \<Rightarrow> bool \<times> ae_world" where
  "ae_zmalloc w = (let (ok, w) = malloc w in (ok, if ok then w\<lparr>aw_live := aw_live w + 1\<rparr> else w))"

definition ae_zfree :: "bool \<Rightarrow> ae_world \<Rightarrow> ae_world" where
  "ae_zfree block w = (if block then w\<lparr>aw_live := aw_live w - 1\<rparr> else w)"

text \<open>The next reading of the clock, in seconds and milliseconds.\<close>

definition aeGetTime :: "ae_world \<Rightarrow> (int \<times> int) \<times> ae_world" where
  "aeGetTime w = (aw_clock w (aw_tick w), w\<lparr>aw_tick := aw_tick w + 1\<rparr>)"

definition time_now :: "ae_world \<Rightarrow> int \<times> ae_world" where
  "time_now w = (fst (aw_clock w (aw_tick w)), w\<lparr>aw_tick := aw_tick w + 1\<rparr>)"

definition fe_at :: "ae_loop \<Rightarrow> int \<Rightarrow> file_event cres" where
  "fe_at l fd = (if 0 \<le> fd \<and> nat fd < length (ae_events l) then Ok (ae_events l ! nat fd) else Err Fault)"

definition set_fe :: "ae_loop \<Rightarrow> int \<Rightarrow> file_event \<Rightarrow> ae_loop" where
  "set_fe l fd fe = l\<lparr>ae_events := (ae_events l)[nat fd := fe]\<rparr>"

section \<open>The epoll layer\<close>

datatype ctl_op = Ctl_add | Ctl_mod | Ctl_del

definition ctl_fails :: "ae_world \<Rightarrow> bool \<times> ae_world" where
  "ctl_fails w = (case aw_ctl w of [] \<Rightarrow> (False, w) | b # bs \<Rightarrow> (b, w\<lparr>aw_ctl := bs\<rparr>))"

definition epoll_ctl :: "ctl_op \<Rightarrow> int \<Rightarrow> int \<Rightarrow> epoll_state \<Rightarrow> ae_world \<Rightarrow> (int \<times> epoll_state) \<times> ae_world" where
  "epoll_ctl op fd ev s w =
     (let (fails, w) = ctl_fails w in
      if fails then ((-1, s), w)
      else ((0, s\<lparr>ep_interest := (ep_interest s)(fd := (case op of Ctl_del \<Rightarrow> None | _ \<Rightarrow> Some ev))\<rparr>), w))"

text \<open>\<open>epoll_create\<close>, \<open>kqueue\<close> and \<open>port_create\<close> fail like \<open>epoll_ctl\<close>.\<close>

definition open_poller :: "ae_world \<Rightarrow> bool \<times> ae_world" where
  "open_poller w = (let (fails, w) = ctl_fails w in (\<not> fails, w))"

definition epoll_events :: "int \<Rightarrow> int" where
  "epoll_events msk = (if has_bits msk AE_READABLE then EPOLLIN else 0) OR (if has_bits msk AE_WRITABLE then EPOLLOUT else 0)"

definition epollApiCreate :: "ae_world \<Rightarrow> api option \<times> ae_world" where
  "epollApiCreate w =
     (let (ok, w) = ae_zmalloc w in
      if \<not> ok then (None, w) else
      let (ok, w) = ae_zmalloc w in
      if \<not> ok then (None, ae_zfree True w) else
      let (ok, w) = open_poller w in
      if \<not> ok then (None, ae_zfree True (ae_zfree True w))
      else (Some (Epoll \<lparr>ep_interest = (\<lambda>_. None)\<rparr>), w))"

definition epollApiFree :: "ae_world \<Rightarrow> ae_world" where
  "epollApiFree w = ae_zfree True (ae_zfree True w)"

definition epollApiAddEvent :: "epoll_state \<Rightarrow> ae_loop \<Rightarrow> int \<Rightarrow> int \<Rightarrow> ae_world \<Rightarrow> ((int \<times> ae_loop) \<times> ae_world) cres" where
  "epollApiAddEvent s l fd msk w =
     res_bind (fe_at l fd) (\<lambda>fe.
     let op = (if fe_mask fe = AE_NONE then Ctl_add else Ctl_mod);
         msk = msk OR fe_mask fe;
         ((r, s), w) = epoll_ctl op fd (epoll_events msk) s w in
     Ok ((if r = -1 then -1 else 0, l\<lparr>ae_api := Epoll s\<rparr>), w))"

definition epollApiDelEvent :: "epoll_state \<Rightarrow> ae_loop \<Rightarrow> int \<Rightarrow> int \<Rightarrow> ae_world \<Rightarrow> (ae_loop \<times> ae_world) cres" where
  "epollApiDelEvent s l fd delmsk w =
     res_bind (fe_at l fd) (\<lambda>fe.
     let msk = fe_mask fe AND NOT delmsk;
         ((_, s), w) = epoll_ctl (if msk \<noteq> AE_NONE then Ctl_mod else Ctl_del) fd (epoll_events msk) s w in
     Ok (l\<lparr>ae_api := Epoll s\<rparr>, w))"

text \<open>The reply of a wait, \<open>None\<close> for a failure.\<close>

definition next_reply :: "ae_world \<Rightarrow> (int \<times> int) list option \<times> ae_world" where
  "next_reply w = (case aw_wait w of [] \<Rightarrow> (Some [], w) | r # rs \<Rightarrow> (r, w\<lparr>aw_wait := rs\<rparr>))"

definition epoll_mask :: "int \<Rightarrow> int" where
  "epoll_mask ev =
     (if has_bits ev EPOLLIN then AE_READABLE else 0) OR (if has_bits ev EPOLLOUT then AE_WRITABLE else 0)
     OR (if has_bits ev EPOLLERR then AE_WRITABLE else 0) OR (if has_bits ev EPOLLHUP then AE_WRITABLE else 0)"

text \<open>The array of fired events has room for \<open>setsize\<close> of them, which \<open>epoll_wait\<close> is told.\<close>

definition epollApiPoll :: "ae_loop \<Rightarrow> ae_world \<Rightarrow> ((nat \<times> ae_loop) \<times> ae_world) cres" where
  "epollApiPoll l w =
     (let (reply, w) = next_reply w in
      case reply of
        None \<Rightarrow> Ok ((0, l), w)
      | Some evs \<Rightarrow>
          if length evs \<le> ae_setsize l
          then let fired = map (\<lambda>(fd, ev). (fd, epoll_mask ev)) evs in
               Ok ((length evs, l\<lparr>ae_fired := fired @ drop (length evs) (ae_fired l)\<rparr>), w)
          else Err Fault)"

section \<open>The select layer\<close>

definition fd_put :: "bool list \<Rightarrow> int \<Rightarrow> bool \<Rightarrow> bool list cres" where
  "fd_put s fd b = (if 0 \<le> fd \<and> nat fd < length s then Ok (s[nat fd := b]) else Err Fault)"

definition selectApiCreate :: "ae_world \<Rightarrow> api option \<times> ae_world" where
  "selectApiCreate w =
     (let (ok, w) = ae_zmalloc w in
      if \<not> ok then (None, w)
      else (Some (Select \<lparr>rfds = replicate FD_SETSIZE False, wfds = replicate FD_SETSIZE False\<rparr>), w))"

definition selectApiFree :: "ae_world \<Rightarrow> ae_world" where
  "selectApiFree w = ae_zfree True w"

definition select_update :: "bool \<Rightarrow> select_state \<Rightarrow> int \<Rightarrow> int \<Rightarrow> select_state cres" where
  "select_update b s fd msk =
     res_bind (if has_bits msk AE_READABLE then res_bind (fd_put (rfds s) fd b) (\<lambda>r. Ok (s\<lparr>rfds := r\<rparr>)) else Ok s) (\<lambda>s.
     if has_bits msk AE_WRITABLE then res_bind (fd_put (wfds s) fd b) (\<lambda>r. Ok (s\<lparr>wfds := r\<rparr>)) else Ok s)"

definition selectApiAddEvent :: "select_state \<Rightarrow> ae_loop \<Rightarrow> int \<Rightarrow> int \<Rightarrow> ae_world \<Rightarrow> ((int \<times> ae_loop) \<times> ae_world) cres" where
  "selectApiAddEvent s l fd msk w = res_bind (select_update True s fd msk) (\<lambda>s. Ok ((0, l\<lparr>ae_api := Select s\<rparr>), w))"

definition selectApiDelEvent :: "select_state \<Rightarrow> ae_loop \<Rightarrow> int \<Rightarrow> int \<Rightarrow> ae_world \<Rightarrow> (ae_loop \<times> ae_world) cres" where
  "selectApiDelEvent s l fd msk w = res_bind (select_update False s fd msk) (\<lambda>s. Ok (l\<lparr>ae_api := Select s\<rparr>, w))"

text \<open>\<open>select\<close> leaves in the copies of the sets the descriptors below \<open>nfds\<close> that are ready.\<close>

definition left_ready :: "(int \<times> int) list \<Rightarrow> int \<Rightarrow> nat \<Rightarrow> bool list \<Rightarrow> bool list" where
  "left_ready evs bits nfds s = map (\<lambda>i. s ! i \<and> i < nfds \<and> (\<exists>e\<in>set evs. fst e = int i \<and> has_bits (snd e) bits)) [0..<length s]"

fun select_scan :: "ae_loop \<Rightarrow> bool list \<Rightarrow> bool list \<Rightarrow> nat \<Rightarrow> nat \<Rightarrow> (int \<times> int) list cres" where
  "select_scan l r w j 0 = Ok []"
| "select_scan l r w j (Suc n) =
     res_bind (fe_at l (int j)) (\<lambda>fe.
     if fe_mask fe = AE_NONE then select_scan l r w (Suc j) n
     else res_bind (no_ub (j < length r \<and> j < length w)) (\<lambda>_.
       let msk = (if has_bits (fe_mask fe) AE_READABLE \<and> r ! j then AE_READABLE else 0)
                  OR (if has_bits (fe_mask fe) AE_WRITABLE \<and> w ! j then AE_WRITABLE else 0) in
       res_bind (select_scan l r w (Suc j) n) (\<lambda>fs. Ok ((int j, msk) # fs))))"

definition selectApiPoll :: "select_state \<Rightarrow> ae_loop \<Rightarrow> ae_world \<Rightarrow> ((nat \<times> ae_loop) \<times> ae_world) cres" where
  "selectApiPoll s l w =
     (let (reply, w) = next_reply w; nfds = nat (ae_maxfd l + 1) in
      case reply of
        None \<Rightarrow> Ok ((0, l), w)
      | Some evs \<Rightarrow>
          let r = left_ready evs EPOLLIN nfds (rfds s); ws = left_ready evs EPOLLOUT nfds (wfds s);
              retval = length (filter id r) + length (filter id ws) in
          if retval > 0 then
            res_bind (select_scan l r ws 0 nfds) (\<lambda>fs.
            if length fs \<le> ae_setsize l then Ok ((length fs, l\<lparr>ae_fired := fs @ drop (length fs) (ae_fired l)\<rparr>), w)
            else Err Fault)
          else Ok ((0, l), w))"

section \<open>The kqueue layer\<close>

text \<open>The filters of kqueue, and a change of one of them by \<open>kevent\<close>.\<close>

definition EVFILT_READ :: int where "EVFILT_READ = -1"
definition EVFILT_WRITE :: int where "EVFILT_WRITE = -2"

definition kevent_change :: "bool \<Rightarrow> int \<Rightarrow> int \<Rightarrow> kqueue_state \<Rightarrow> ae_world \<Rightarrow> (int \<times> kqueue_state) \<times> ae_world" where
  "kevent_change on flt fd s w =
     (let (fails, w) = ctl_fails w in
      if fails then ((-1, s), w)
      else ((0, if flt = EVFILT_READ then s\<lparr>kq_rd := (kq_rd s)(fd := on)\<rparr> else s\<lparr>kq_wr := (kq_wr s)(fd := on)\<rparr>), w))"

definition kqueueApiCreate :: "ae_world \<Rightarrow> api option \<times> ae_world" where
  "kqueueApiCreate w =
     (let (ok, w) = ae_zmalloc w in
      if \<not> ok then (None, w) else
      let (ok, w) = ae_zmalloc w in
      if \<not> ok then (None, ae_zfree True w) else
      let (ok, w) = open_poller w in
      if \<not> ok then (None, ae_zfree True (ae_zfree True w))
      else (Some (Kqueue \<lparr>kq_rd = (\<lambda>_. False), kq_wr = (\<lambda>_. False)\<rparr>), w))"

definition kqueueApiFree :: "ae_world \<Rightarrow> ae_world" where
  "kqueueApiFree w = ae_zfree True (ae_zfree True w)"

definition kqueueApiAddEvent :: "kqueue_state \<Rightarrow> ae_loop \<Rightarrow> int \<Rightarrow> int \<Rightarrow> ae_world \<Rightarrow> (int \<times> ae_loop) \<times> ae_world" where
  "kqueueApiAddEvent s l fd msk w =
     (let ((r, s), w) = (if has_bits msk AE_READABLE then kevent_change True EVFILT_READ fd s w else ((0, s), w)) in
      if r = -1 then ((-1, l\<lparr>ae_api := Kqueue s\<rparr>), w) else
      let ((r, s), w) = (if has_bits msk AE_WRITABLE then kevent_change True EVFILT_WRITE fd s w else ((0, s), w)) in
      if r = -1 then ((-1, l\<lparr>ae_api := Kqueue s\<rparr>), w) else ((0, l\<lparr>ae_api := Kqueue s\<rparr>), w))"

definition kqueueApiDelEvent :: "kqueue_state \<Rightarrow> ae_loop \<Rightarrow> int \<Rightarrow> int \<Rightarrow> ae_world \<Rightarrow> ae_loop \<times> ae_world" where
  "kqueueApiDelEvent s l fd msk w =
     (let ((_, s), w) = (if has_bits msk AE_READABLE then kevent_change False EVFILT_READ fd s w else ((0, s), w));
          ((_, s), w) = (if has_bits msk AE_WRITABLE then kevent_change False EVFILT_WRITE fd s w else ((0, s), w)) in
      (l\<lparr>ae_api := Kqueue s\<rparr>, w))"

definition kqueue_mask :: "int \<Rightarrow> int" where
  "kqueue_mask flt = (if flt = EVFILT_READ then AE_READABLE else 0) OR (if flt = EVFILT_WRITE then AE_WRITABLE else 0)"

definition kqueueApiPoll :: "ae_loop \<Rightarrow> ae_world \<Rightarrow> ((nat \<times> ae_loop) \<times> ae_world) cres" where
  "kqueueApiPoll l w =
     (let (reply, w) = next_reply w in
      case reply of
        None \<Rightarrow> Ok ((0, l), w)
      | Some evs \<Rightarrow>
          if length evs \<le> ae_setsize l
          then let fired = map (\<lambda>(fd, flt). (fd, kqueue_mask flt)) evs in
               Ok ((length evs, l\<lparr>ae_fired := fired @ drop (length evs) (ae_fired l)\<rparr>), w)
          else Err Fault)"

section \<open>The event port layer\<close>

definition evportApiCreate :: "ae_world \<Rightarrow> api option \<times> ae_world" where
  "evportApiCreate w =
     (let (ok, w) = ae_zmalloc w in
      if \<not> ok then (None, w) else
      let (ok, w) = open_poller w in
      if \<not> ok then (None, ae_zfree True w)
      else (Some (Evport \<lparr>ev_assoc = (\<lambda>_. None), ev_npending = 0, ev_fds = replicate MAX_EVENT_BATCHSZ (-1),
                   ev_masks = replicate MAX_EVENT_BATCHSZ AE_NONE\<rparr>), w))"

definition evportApiFree :: "ae_world \<Rightarrow> ae_world" where
  "evportApiFree w = ae_zfree True w"

fun lookup_loop :: "int list \<Rightarrow> int \<Rightarrow> nat \<Rightarrow> nat \<Rightarrow> int cres" where
  "lookup_loop fds fd i 0 = Ok (-1)"
| "lookup_loop fds fd i (Suc n) =
     (if i < length fds then if fds ! i = fd then Ok (int i) else lookup_loop fds fd (Suc i) n else Err Fault)"

definition aeApiLookupPending :: "evport_state \<Rightarrow> int \<Rightarrow> int cres" where
  "aeApiLookupPending s fd = lookup_loop (ev_fds s) fd 0 (ev_npending s)"

text \<open>\<open>port_associate\<close> replaces what the descriptor is associated with.\<close>

definition aeApiAssociate :: "int \<Rightarrow> int \<Rightarrow> evport_state \<Rightarrow> ae_world \<Rightarrow> (int \<times> evport_state) \<times> ae_world" where
  "aeApiAssociate fd msk s w =
     (let (fails, w) = ctl_fails w in
      if fails then ((-1, s), w) else ((0, s\<lparr>ev_assoc := (ev_assoc s)(fd \<mapsto> msk)\<rparr>), w))"

definition port_dissociate :: "int \<Rightarrow> evport_state \<Rightarrow> ae_world \<Rightarrow> (int \<times> evport_state) \<times> ae_world" where
  "port_dissociate fd s w =
     (let (fails, w) = ctl_fails w in
      if fails \<or> ev_assoc s fd = None then ((-1, s), w) else ((0, s\<lparr>ev_assoc := (ev_assoc s)(fd := None)\<rparr>), w))"

definition evportApiAddEvent :: "evport_state \<Rightarrow> ae_loop \<Rightarrow> int \<Rightarrow> int \<Rightarrow> ae_world \<Rightarrow> ((int \<times> ae_loop) \<times> ae_world) cres" where
  "evportApiAddEvent s l fd msk w =
     res_bind (fe_at l fd) (\<lambda>fe.
     let fullmask = msk OR fe_mask fe in
     res_bind (aeApiLookupPending s fd) (\<lambda>pfd.
     if pfd \<noteq> -1
     then Ok ((0, l\<lparr>ae_api := Evport (s\<lparr>ev_masks := (ev_masks s)[nat pfd := ev_masks s ! nat pfd OR fullmask]\<rparr>)\<rparr>), w)
     else let ((r, s), w) = aeApiAssociate fd fullmask s w in Ok ((r, l\<lparr>ae_api := Evport s\<rparr>), w)))"

definition evportApiDelEvent :: "evport_state \<Rightarrow> ae_loop \<Rightarrow> int \<Rightarrow> int \<Rightarrow> ae_world \<Rightarrow> (ae_loop \<times> ae_world) cres" where
  "evportApiDelEvent s l fd msk w =
     res_bind (aeApiLookupPending s fd) (\<lambda>pfd.
     if pfd \<noteq> -1
     then let s = s\<lparr>ev_masks := (ev_masks s)[nat pfd := ev_masks s ! nat pfd AND NOT msk]\<rparr>;
              s = (if ev_masks s ! nat pfd = AE_NONE then s\<lparr>ev_fds := (ev_fds s)[nat pfd := -1]\<rparr> else s) in
          Ok (l\<lparr>ae_api := Evport s\<rparr>, w)
     else res_bind (fe_at l fd) (\<lambda>fe.
       let fullmask = fe_mask fe;
           ((r, s), w) = (if fullmask = AE_NONE then port_dissociate fd s w else aeApiAssociate fd fullmask s w) in
       if r \<noteq> 0 then Err Abort else Ok (l\<lparr>ae_api := Evport s\<rparr>, w)))"

text \<open>The pending descriptors are associated again.\<close>

fun reassociate :: "nat \<Rightarrow> nat \<Rightarrow> evport_state \<Rightarrow> ae_world \<Rightarrow> (evport_state \<times> ae_world) cres" where
  "reassociate i 0 s w = Ok (s, w)"
| "reassociate i (Suc n) s w =
     (if i < length (ev_fds s) \<and> i < length (ev_masks s) then
        if ev_fds s ! i = -1 then reassociate (Suc i) n s w
        else let ((r, s), w) = aeApiAssociate (ev_fds s ! i) (ev_masks s ! i) s w in
          if r \<noteq> 0 then Err Abort
          else reassociate (Suc i) n (s\<lparr>ev_masks := (ev_masks s)[i := AE_NONE], ev_fds := (ev_fds s)[i := -1]\<rparr>) w
      else Err Fault)"

text \<open>
  \<open>port_getn\<close> returns events of descriptors that are associated, at most \<open>n\<close>, with the mask they
  were associated with, and ends the association.
\<close>

fun port_getn :: "nat \<Rightarrow> (int \<Rightarrow> int option) \<Rightarrow> (int \<times> int) list \<Rightarrow> (int \<times> int \<times> int) list \<times> (int \<Rightarrow> int option)" where
  "port_getn n A [] = ([], A)"
| "port_getn n A ((fd, ev) # es) =
     (case (n, A fd) of
        (Suc n, Some m) \<Rightarrow> let (got, A) = port_getn n (A(fd := None)) es in ((fd, ev, m) # got, A)
      | (Suc n, None) \<Rightarrow> port_getn (Suc n) A es
      | (0, _) \<Rightarrow> ([], A))"

definition port_mask :: "int \<Rightarrow> int" where
  "port_mask ev = (if has_bits ev EPOLLIN then AE_READABLE else 0) OR (if has_bits ev EPOLLOUT then AE_WRITABLE else 0)"

text \<open>A reply that is missing is \<open>ETIME\<close> or \<open>EINTR\<close>; the events of \<open>poll\<close> are those of epoll.\<close>

definition evportApiPoll :: "evport_state \<Rightarrow> ae_loop \<Rightarrow> ae_world \<Rightarrow> ((nat \<times> ae_loop) \<times> ae_world) cres" where
  "evportApiPoll s l w =
     res_bind (reassociate 0 (ev_npending s) s w) (\<lambda>(s, w).
     let s = s\<lparr>ev_npending := 0\<rparr>; (reply, w) = next_reply w in
     case reply of
       None \<Rightarrow> Ok ((0, l\<lparr>ae_api := Evport s\<rparr>), w)
     | Some evs \<Rightarrow>
         let (got, A) = port_getn MAX_EVENT_BATCHSZ (ev_assoc s) evs; n = length got in
         if n \<le> length (ae_fired l) then
           let fired = map (\<lambda>(fd, ev, user). (fd, port_mask ev)) got;
               s = s\<lparr>ev_assoc := A, ev_npending := n,
                      ev_fds := map fst got @ drop n (ev_fds s), ev_masks := map (snd \<circ> snd) got @ drop n (ev_masks s)\<rparr> in
           Ok ((n, l\<lparr>ae_fired := fired @ drop n (ae_fired l), ae_api := Evport s\<rparr>), w)
         else Err Fault)"

section \<open>The layer the build has\<close>

datatype backend = Use_epoll | Use_select | Use_kqueue | Use_evport

definition aeApiCreate :: "backend \<Rightarrow> ae_world \<Rightarrow> api option \<times> ae_world" where
  "aeApiCreate b w = (case b of Use_epoll \<Rightarrow> epollApiCreate w | Use_select \<Rightarrow> selectApiCreate w
     | Use_kqueue \<Rightarrow> kqueueApiCreate w | Use_evport \<Rightarrow> evportApiCreate w)"

definition aeApiFree :: "api \<Rightarrow> ae_world \<Rightarrow> ae_world" where
  "aeApiFree a w = (case a of Epoll _ \<Rightarrow> epollApiFree w | Select _ \<Rightarrow> selectApiFree w
     | Kqueue _ \<Rightarrow> kqueueApiFree w | Evport _ \<Rightarrow> evportApiFree w)"

definition aeApiAddEvent :: "ae_loop \<Rightarrow> int \<Rightarrow> int \<Rightarrow> ae_world \<Rightarrow> ((int \<times> ae_loop) \<times> ae_world) cres" where
  "aeApiAddEvent l fd msk w =
     (case ae_api l of Epoll s \<Rightarrow> epollApiAddEvent s l fd msk w | Select s \<Rightarrow> selectApiAddEvent s l fd msk w
      | Kqueue s \<Rightarrow> Ok (kqueueApiAddEvent s l fd msk w) | Evport s \<Rightarrow> evportApiAddEvent s l fd msk w)"

definition aeApiDelEvent :: "ae_loop \<Rightarrow> int \<Rightarrow> int \<Rightarrow> ae_world \<Rightarrow> (ae_loop \<times> ae_world) cres" where
  "aeApiDelEvent l fd msk w =
     (case ae_api l of Epoll s \<Rightarrow> epollApiDelEvent s l fd msk w | Select s \<Rightarrow> selectApiDelEvent s l fd msk w
      | Kqueue s \<Rightarrow> Ok (kqueueApiDelEvent s l fd msk w) | Evport s \<Rightarrow> evportApiDelEvent s l fd msk w)"

definition aeApiPoll :: "ae_loop \<Rightarrow> ae_world \<Rightarrow> ((nat \<times> ae_loop) \<times> ae_world) cres" where
  "aeApiPoll l w = (case ae_api l of Epoll _ \<Rightarrow> epollApiPoll l w | Select s \<Rightarrow> selectApiPoll s l w
     | Kqueue _ \<Rightarrow> kqueueApiPoll l w | Evport s \<Rightarrow> evportApiPoll s l w)"

definition aeGetApiName :: "ae_loop \<Rightarrow> string" where
  "aeGetApiName l = (case ae_api l of Epoll _ \<Rightarrow> ''epoll'' | Select _ \<Rightarrow> ''select'' | Kqueue _ \<Rightarrow> ''kqueue'' | Evport _ \<Rightarrow> ''evport'')"

section \<open>The loop\<close>

definition aeCreateEventLoop :: "backend \<Rightarrow> nat \<Rightarrow> ae_world \<Rightarrow> ae_loop option \<times> ae_world" where
  "aeCreateEventLoop b setsize w =
     (let (ok, w) = ae_zmalloc w in
      if \<not> ok then (None, w) else
      let (ev, w) = ae_zmalloc w; (fi, w) = ae_zmalloc w in
      if \<not> ev \<or> \<not> fi then (None, ae_zfree True (ae_zfree fi (ae_zfree ev w))) else
      let (now, w) = time_now w; (api, w) = aeApiCreate b w in
      case api of
        None \<Rightarrow> (None, ae_zfree True (ae_zfree True (ae_zfree True w)))
      | Some api \<Rightarrow>
          (Some \<lparr>ae_maxfd = -1, ae_setsize = setsize, ae_next_id = 0, ae_last = now,
             ae_events = replicate setsize \<lparr>fe_mask = AE_NONE, fe_rproc = 0, fe_wproc = 0, fe_data = 0\<rparr>,
             ae_fired = replicate setsize (0, 0), ae_timers = [], ae_stop = False, ae_api = api, ae_before = 0, ae_log = []\<rparr>, w))"

definition aeDeleteEventLoop :: "ae_loop \<Rightarrow> ae_world \<Rightarrow> ae_world" where
  "aeDeleteEventLoop l w = ae_zfree True (ae_zfree True (ae_zfree True (aeApiFree (ae_api l) w)))"

definition aeStop :: "ae_loop \<Rightarrow> ae_loop" where
  "aeStop l = l\<lparr>ae_stop := True\<rparr>"

definition aeSetBeforeSleepProc :: "ae_loop \<Rightarrow> nat \<Rightarrow> ae_loop" where
  "aeSetBeforeSleepProc l p = l\<lparr>ae_before := p\<rparr>"

section \<open>File events\<close>

definition aeCreateFileEvent :: "ae_loop \<Rightarrow> int \<Rightarrow> int \<Rightarrow> nat \<Rightarrow> nat \<Rightarrow> ae_world \<Rightarrow> ((int \<times> ae_loop) \<times> ae_world) cres" where
  "aeCreateFileEvent l fd msk p data w =
     (if int (ae_setsize l) \<le> fd then Ok ((-1, l), w)
      else res_bind (aeApiAddEvent l fd msk w) (\<lambda>((r, l), w).
        if r = -1 then Ok ((-1, l), w)
        else res_bind (fe_at l fd) (\<lambda>fe.
          let fe = fe\<lparr>fe_mask := fe_mask fe OR msk\<rparr>;
              fe = (if has_bits msk AE_READABLE then fe\<lparr>fe_rproc := p\<rparr> else fe);
              fe = (if has_bits msk AE_WRITABLE then fe\<lparr>fe_wproc := p\<rparr> else fe);
              l = set_fe l fd (fe\<lparr>fe_data := data\<rparr>) in
          Ok ((0, if ae_maxfd l < fd then l\<lparr>ae_maxfd := fd\<rparr> else l), w))))"

text \<open>The highest descriptor below \<open>j\<close> that is registered, or -1.\<close>

fun lower_maxfd :: "file_event list \<Rightarrow> nat \<Rightarrow> int" where
  "lower_maxfd evs 0 = -1"
| "lower_maxfd evs (Suc j) = (if fe_mask (evs ! j) \<noteq> AE_NONE then int j else lower_maxfd evs j)"

definition aeDeleteFileEvent :: "ae_loop \<Rightarrow> int \<Rightarrow> int \<Rightarrow> ae_world \<Rightarrow> (ae_loop \<times> ae_world) cres" where
  "aeDeleteFileEvent l fd msk w =
     (if int (ae_setsize l) \<le> fd then Ok (l, w)
      else res_bind (fe_at l fd) (\<lambda>fe.
        if fe_mask fe = AE_NONE then Ok (l, w)
        else
          let fe = fe\<lparr>fe_mask := fe_mask fe AND NOT msk\<rparr>;
              l = set_fe l fd fe;
              l = (if fd = ae_maxfd l \<and> fe_mask fe = AE_NONE then l\<lparr>ae_maxfd := lower_maxfd (ae_events l) (nat (ae_maxfd l))\<rparr> else l) in
          aeApiDelEvent l fd msk w))"

definition aeGetFileEvents :: "ae_loop \<Rightarrow> int \<Rightarrow> int cres" where
  "aeGetFileEvents l fd =
     (if int (ae_setsize l) \<le> fd then Ok 0 else res_bind (fe_at l fd) (\<lambda>fe. Ok (fe_mask fe)))"

section \<open>Time events\<close>

definition aeAddMillisecondsToNow :: "int \<Rightarrow> ae_world \<Rightarrow> (int \<times> int) \<times> ae_world" where
  "aeAddMillisecondsToNow milliseconds w =
     (let ((cur_sec, cur_ms), w) = aeGetTime w;
          when_sec = cur_sec + cdiv milliseconds 1000;
          when_ms = cur_ms + cmod milliseconds 1000 in
      if 1000 \<le> when_ms then ((when_sec + 1, when_ms - 1000), w) else ((when_sec, when_ms), w))"

definition aeCreateTimeEvent :: "ae_loop \<Rightarrow> int \<Rightarrow> nat \<Rightarrow> nat \<Rightarrow> nat \<Rightarrow> ae_world \<Rightarrow> (int \<times> ae_loop) \<times> ae_world" where
  "aeCreateTimeEvent l milliseconds p data fin w =
     (let i = ae_next_id l; l = l\<lparr>ae_next_id := i + 1\<rparr>; (ok, w) = ae_zmalloc w in
      if \<not> ok then ((-1, l), w)
      else let ((s, m), w) = aeAddMillisecondsToNow milliseconds w in
        ((i, l\<lparr>ae_timers := \<lparr>te_id = i, te_sec = s, te_ms = m, te_proc = p, te_fin = fin, te_data = data\<rparr> # ae_timers l\<rparr>), w))"

text \<open>The first event with the identifier is unlinked, finalized and freed; finalizers only touch their data.\<close>

fun unlink_timer :: "int \<Rightarrow> time_event list \<Rightarrow> (time_event \<times> time_event list) option" where
  "unlink_timer i [] = None"
| "unlink_timer i (t # ts) =
     (if te_id t = i then Some (t, ts) else map_option (\<lambda>(u, us). (u, t # us)) (unlink_timer i ts))"

definition aeDeleteTimeEvent :: "ae_loop \<Rightarrow> int \<Rightarrow> ae_world \<Rightarrow> (int \<times> ae_loop) \<times> ae_world" where
  "aeDeleteTimeEvent l i w =
     (case unlink_timer i (ae_timers l) of
        None \<Rightarrow> ((-1, l), w)
      | Some (t, ts) \<Rightarrow>
          let l = l\<lparr>ae_timers := ts\<rparr>;
              l = (if te_fin t \<noteq> 0 then l\<lparr>ae_log := ae_log l @ [Called_finalizer (te_fin t) (te_data t)]\<rparr> else l) in
          ((0, l), ae_zfree True w))"

end
