(* ===== verification/AeLoop.thy ===== *)
theory AeLoop
  imports Ae
begin

text \<open>
  Waiting and dispatching in src/Clang/aio/ae/ae.c. A callback is the list of calls it makes
  back into the loop, chosen from what it can see of the loop. Loops that need not end take
  fuel and give \<open>None\<close> when it runs out.
\<close>

section \<open>Callbacks\<close>

datatype ae_cmd =
    Create_file int int nat nat
  | Delete_file int int
  | Create_timer int nat nat nat
  | Delete_timer int
  | Stop_loop
  | Set_before nat

type_synonym loop_state = "ae_loop \<times> ae_world"

fun ae_exec :: "ae_cmd \<Rightarrow> loop_state \<Rightarrow> loop_state cres" where
  "ae_exec (Create_file fd m p data) (l, w) = res_bind (aeCreateFileEvent l fd m p data w) (\<lambda>((_, l), w). Ok (l, w))"
| "ae_exec (Delete_file fd m) (l, w) = aeDeleteFileEvent l fd m w"
| "ae_exec (Create_timer ms p data fin) (l, w) = (let ((_, l), w) = aeCreateTimeEvent l ms p data fin w in Ok (l, w))"
| "ae_exec (Delete_timer i) (l, w) = (let ((_, l), w) = aeDeleteTimeEvent l i w in Ok (l, w))"
| "ae_exec Stop_loop (l, w) = Ok (aeStop l, w)"
| "ae_exec (Set_before p) (l, w) = Ok (aeSetBeforeSleepProc l p, w)"

fun ae_execs :: "ae_cmd list \<Rightarrow> loop_state \<Rightarrow> loop_state cres" where
  "ae_execs [] s = Ok s"
| "ae_execs (c # cs) s = res_bind (ae_exec c s) (ae_execs cs)"

text \<open>What the callbacks of the program do: by number, from the loop and their arguments.\<close>

record procs =
  pr_file :: "nat \<Rightarrow> ae_loop \<Rightarrow> int \<Rightarrow> nat \<Rightarrow> int \<Rightarrow> ae_cmd list"
  pr_time :: "nat \<Rightarrow> ae_loop \<Rightarrow> int \<Rightarrow> nat \<Rightarrow> ae_cmd list \<times> int"
  pr_before :: "nat \<Rightarrow> ae_loop \<Rightarrow> ae_cmd list"

definition log_call :: "ae_call \<Rightarrow> ae_loop \<Rightarrow> ae_loop" where
  "log_call c l = l\<lparr>ae_log := ae_log l @ [c]\<rparr>"

definition call_file :: "procs \<Rightarrow> nat \<Rightarrow> int \<Rightarrow> nat \<Rightarrow> int \<Rightarrow> loop_state \<Rightarrow> loop_state cres" where
  "call_file pr p fd data m s =
     (case s of (l, w) \<Rightarrow>
        if p = 0 then Err Fault
        else let l = log_call (Called_file p fd data m) l in ae_execs (pr_file pr p l fd data m) (l, w))"

definition call_time :: "procs \<Rightarrow> nat \<Rightarrow> int \<Rightarrow> nat \<Rightarrow> loop_state \<Rightarrow> (int \<times> loop_state) cres" where
  "call_time pr p i data s =
     (case s of (l, w) \<Rightarrow>
        if p = 0 then Err Fault
        else let l = log_call (Called_time p i data) l; (cs, r) = pr_time pr p l i data in
          res_bind (ae_execs cs (l, w)) (\<lambda>s. Ok (r, s)))"

section \<open>Time events\<close>

definition earlier :: "time_event \<Rightarrow> time_event \<Rightarrow> bool" where
  "earlier a b \<longleftrightarrow> te_sec a < te_sec b \<or> (te_sec a = te_sec b \<and> te_ms a < te_ms b)"

fun nearest_loop :: "time_event list \<Rightarrow> time_event option \<Rightarrow> time_event option" where
  "nearest_loop [] nearest = nearest"
| "nearest_loop (t # ts) nearest =
     nearest_loop ts (case nearest of None \<Rightarrow> Some t | Some n \<Rightarrow> if earlier t n then Some t else nearest)"

definition aeSearchNearestTimer :: "ae_loop \<Rightarrow> time_event option" where
  "aeSearchNearestTimer l = nearest_loop (ae_timers l) None"

text \<open>A pointer to a time event that has been freed must not be used: \<open>Fault\<close> when it is gone.\<close>

definition reschedule :: "int \<Rightarrow> int \<times> int \<Rightarrow> ae_loop \<Rightarrow> ae_loop cres" where
  "reschedule i when l =
     (if i \<in> te_id ` set (ae_timers l)
      then Ok (l\<lparr>ae_timers := map (\<lambda>t. if te_id t = i then t\<lparr>te_sec := fst when, te_ms := snd when\<rparr> else t) (ae_timers l)\<rparr>)
      else Err Fault)"

definition fire_timer :: "procs \<Rightarrow> time_event \<Rightarrow> loop_state \<Rightarrow> loop_state cres" where
  "fire_timer pr t s =
     res_bind (call_time pr (te_proc t) (te_id t) (te_data t) s) (\<lambda>(retval, (l, w)).
     if retval \<noteq> AE_NOMORE
     then let (when, w) = aeAddMillisecondsToNow retval w in res_bind (reschedule (te_id t) when l) (\<lambda>l. Ok (l, w))
     else let ((_, l), w) = aeDeleteTimeEvent l (te_id t) w in Ok (l, w))"

text \<open>The loop of \<open>processTimeEvents\<close>: \<open>ts\<close> is the list from the event it looks at.\<close>

fun time_loop :: "nat \<Rightarrow> procs \<Rightarrow> int \<Rightarrow> time_event list \<Rightarrow> nat \<Rightarrow> loop_state \<Rightarrow> (nat \<times> loop_state) cres option" where
  "time_loop 0 pr maxId ts processed s = None"
| "time_loop (Suc fuel) pr maxId ts processed s =
     (case ts of
        [] \<Rightarrow> Some (Ok (processed, s))
      | t # ts' \<Rightarrow>
          if te_id t > maxId then time_loop fuel pr maxId ts' processed s
          else case s of (l, w) \<Rightarrow>
            let ((now_sec, now_ms), w) = aeGetTime w in
            if now_sec > te_sec t \<or> (now_sec = te_sec t \<and> now_ms \<ge> te_ms t)
            then (case fire_timer pr t (l, w) of
                    Err e \<Rightarrow> Some (Err e)
                  | Ok s \<Rightarrow> time_loop fuel pr maxId (ae_timers (fst s)) (processed + 1) s)
            else time_loop fuel pr maxId ts' processed (l, w))"

text \<open>When the clock went back all events are due.\<close>

definition check_skew :: "int \<Rightarrow> ae_loop \<Rightarrow> ae_loop" where
  "check_skew now l =
     (let l = (if now < ae_last l then l\<lparr>ae_timers := map (\<lambda>t. t\<lparr>te_sec := 0\<rparr>) (ae_timers l)\<rparr> else l) in l\<lparr>ae_last := now\<rparr>)"

definition processTimeEvents :: "nat \<Rightarrow> procs \<Rightarrow> loop_state \<Rightarrow> (nat \<times> loop_state) cres option" where
  "processTimeEvents fuel pr s =
     (case s of (l, w) \<Rightarrow>
        let (now, w) = time_now w; l = check_skew now l in
        time_loop fuel pr (ae_next_id l - 1) (ae_timers l) 0 (l, w))"

section \<open>Waiting\<close>

text \<open>The time to wait for the nearest timer, in seconds and microseconds.\<close>

definition timer_timeout :: "time_event \<Rightarrow> int \<times> int \<Rightarrow> int \<times> int" where
  "timer_timeout t now =
     (case now of (now_sec, now_ms) \<Rightarrow>
        let sec = te_sec t - now_sec;
            (sec, usec) = (if te_ms t < now_ms then (sec - 1, (te_ms t + 1000 - now_ms) * 1000) else (sec, (te_ms t - now_ms) * 1000))
        in (if sec < 0 then 0 else sec, if usec < 0 then 0 else usec))"

definition wait_time :: "ae_loop \<Rightarrow> int \<Rightarrow> ae_world \<Rightarrow> (int \<times> int) option \<times> ae_world" where
  "wait_time l flags w =
     (case (if has_bits flags AE_TIME_EVENTS \<and> \<not> has_bits flags AE_DONT_WAIT then aeSearchNearestTimer l else None) of
        Some t \<Rightarrow> let (now, w) = aeGetTime w in (Some (timer_timeout t now), w)
      | None \<Rightarrow> (if has_bits flags AE_DONT_WAIT then Some (0, 0) else None, w))"

text \<open>The timeout \<open>epoll_wait\<close> is given, in milliseconds: a long that is converted to int, which keeps its lower 32 bits.\<close>

definition epoll_timeout :: "(int \<times> int) option \<Rightarrow> int" where
  "epoll_timeout tvp = (case tvp of None \<Rightarrow> -1 | Some (sec, usec) \<Rightarrow> to_s32 (sec * 1000 + cdiv usec 1000))"

section \<open>File events\<close>

definition dispatch :: "procs \<Rightarrow> int \<times> int \<Rightarrow> loop_state \<Rightarrow> loop_state cres" where
  "dispatch pr fired s =
     (case (fired, s) of ((fd, m), (l, w)) \<Rightarrow>
        res_bind (fe_at l fd) (\<lambda>fe.
        let readable = has_bits (fe_mask fe AND m) AE_READABLE in
        res_bind (if readable then call_file pr (fe_rproc fe) fd (fe_data fe) m (l, w) else Ok (l, w)) (\<lambda>(l, w).
        res_bind (fe_at l fd) (\<lambda>fe.
        if has_bits (fe_mask fe AND m) AE_WRITABLE \<and> (\<not> readable \<or> fe_wproc fe \<noteq> fe_rproc fe)
        then call_file pr (fe_wproc fe) fd (fe_data fe) m (l, w) else Ok (l, w)))))"

fun dispatch_loop :: "procs \<Rightarrow> nat \<Rightarrow> nat \<Rightarrow> loop_state \<Rightarrow> loop_state cres" where
  "dispatch_loop pr j 0 s = Ok s"
| "dispatch_loop pr j (Suc n) s =
     (if j < length (ae_fired (fst s))
      then res_bind (dispatch pr (ae_fired (fst s) ! j) s) (dispatch_loop pr (Suc j) n) else Err Fault)"

definition processFileEvents :: "procs \<Rightarrow> int \<Rightarrow> loop_state \<Rightarrow> (nat \<times> loop_state) cres" where
  "processFileEvents pr flags s =
     (case s of (l, w) \<Rightarrow>
        if ae_maxfd l \<noteq> -1 \<or> (has_bits flags AE_TIME_EVENTS \<and> \<not> has_bits flags AE_DONT_WAIT)
        then let (tvp, w) = wait_time l flags w in
          res_bind (aeApiPoll l w) (\<lambda>((numevents, l), w).
          res_bind (dispatch_loop pr 0 numevents (l, w)) (\<lambda>s. Ok (numevents, s)))
        else Ok (0, s))"

definition aeProcessEvents :: "nat \<Rightarrow> procs \<Rightarrow> int \<Rightarrow> loop_state \<Rightarrow> (nat \<times> loop_state) cres option" where
  "aeProcessEvents fuel pr flags s =
     (if \<not> has_bits flags AE_TIME_EVENTS \<and> \<not> has_bits flags AE_FILE_EVENTS then Some (Ok (0, s))
      else case processFileEvents pr flags s of
        Err e \<Rightarrow> Some (Err e)
      | Ok (processed, s) \<Rightarrow>
          if has_bits flags AE_TIME_EVENTS
          then map_option (\<lambda>r. res_bind r (\<lambda>(k, s). Ok (processed + k, s))) (processTimeEvents fuel pr s)
          else Some (Ok (processed, s)))"

text \<open>\<open>aeMain\<close>, with fuel for its iterations and for each of them.\<close>

fun main_loop :: "nat \<Rightarrow> nat \<Rightarrow> procs \<Rightarrow> loop_state \<Rightarrow> loop_state cres option" where
  "main_loop 0 fuel pr s = (if ae_stop (fst s) then Some (Ok s) else None)"
| "main_loop (Suc n) fuel pr s =
     (if ae_stop (fst s) then Some (Ok s)
      else case (case s of (l, w) \<Rightarrow>
             if ae_before l \<noteq> 0
             then let l = log_call (Called_before (ae_before l)) l in ae_execs (pr_before pr (ae_before l) l) (l, w)
             else Ok (l, w)) of
          Err e \<Rightarrow> Some (Err e)
        | Ok s \<Rightarrow>
          (case aeProcessEvents fuel pr AE_ALL_EVENTS s of
             None \<Rightarrow> None
           | Some (Err e) \<Rightarrow> Some (Err e)
           | Some (Ok (_, s)) \<Rightarrow> main_loop n fuel pr s))"

definition aeMain :: "nat \<Rightarrow> nat \<Rightarrow> procs \<Rightarrow> loop_state \<Rightarrow> loop_state cres option" where
  "aeMain n fuel pr s = (case s of (l, w) \<Rightarrow> main_loop n fuel pr (l\<lparr>ae_stop := False\<rparr>, w))"

text \<open>\<open>aeWait\<close>: the reply of \<open>poll\<close> is its result and the events it returns.\<close>

definition poll_events :: "int \<Rightarrow> int" where
  "poll_events m = (if has_bits m AE_READABLE then EPOLLIN else 0) OR (if has_bits m AE_WRITABLE then EPOLLOUT else 0)"

definition aeWait :: "(int \<Rightarrow> int \<Rightarrow> int \<times> int) \<Rightarrow> int \<Rightarrow> int \<Rightarrow> int" where
  "aeWait poll m milliseconds =
     (let (retval, revents) = poll (poll_events m) milliseconds in
      if retval = 1 then
        (if has_bits revents EPOLLIN then AE_READABLE else 0) OR (if has_bits revents EPOLLOUT then AE_WRITABLE else 0)
        OR (if has_bits revents EPOLLERR then AE_WRITABLE else 0) OR (if has_bits revents EPOLLHUP then AE_WRITABLE else 0)
      else retval)"

declare time_loop.simps [simp del] main_loop.simps [simp del] dispatch_loop.simps [simp del]

end
