(* ===== verification/AeLayers.thy ===== *)
theory AeLayers
  imports AeLoop
begin

text \<open>
  The contract between the loop of src/Clang/aio/ae/ae.c and a polling layer: what a layer
  watches follows the table of file events. It is stated as a locale, whose laws the layers of
  ae_epoll.c, ae_select.c, ae_kqueue.c and ae_evport.c satisfy.
\<close>

section \<open>Masks\<close>

lemma mask_arith:
  assumes "a \<in> {0, 1, 2, 3 :: int}" "b \<in> {0, 1, 2, 3}"
  shows "a OR b \<in> {0, 1, 2, 3}" "a AND NOT b \<in> {0, 1, 2, 3}"
    "has_bits (a OR b) AE_READABLE \<longleftrightarrow> has_bits a AE_READABLE \<or> has_bits b AE_READABLE"
    "has_bits (a OR b) AE_WRITABLE \<longleftrightarrow> has_bits a AE_WRITABLE \<or> has_bits b AE_WRITABLE"
    "has_bits (a AND NOT b) AE_READABLE \<longleftrightarrow> has_bits a AE_READABLE \<and> \<not> has_bits b AE_READABLE"
    "has_bits (a AND NOT b) AE_WRITABLE \<longleftrightarrow> has_bits a AE_WRITABLE \<and> \<not> has_bits b AE_WRITABLE"
    "a \<noteq> 0 \<longrightarrow> a OR b \<noteq> 0" "b \<noteq> 0 \<longrightarrow> a OR b \<noteq> 0"
  using assms by (auto simp: has_bits_def AE_READABLE_def AE_WRITABLE_def)

lemma has_bits_0 [simp]: "\<not> has_bits 0 b"
  by (simp add: has_bits_def)

text \<open>The mask of a descriptor, 0 outside the table.\<close>

definition mask_of :: "file_event list \<Rightarrow> int \<Rightarrow> int" where
  "mask_of evs fd = (if 0 \<le> fd \<and> nat fd < length evs then fe_mask (evs ! nat fd) else 0)"

lemma mask_of_update:
  "0 \<le> fd \<Longrightarrow> nat fd < length evs \<Longrightarrow> mask_of (evs[nat fd := fe]) = (mask_of evs)(fd := fe_mask fe)"
  by (auto simp: mask_of_def fun_eq_iff nth_list_update eq_nat_nat_iff)

lemma fe_at_mask: "0 \<le> fd \<Longrightarrow> nat fd < length (ae_events l) \<Longrightarrow> \<exists>fe. fe_at l fd = Ok fe \<and> fe_mask fe = mask_of (ae_events l) fd"
  by (simp add: fe_at_def mask_of_def)

lemma mask_of_outside: "mask_of evs fd \<noteq> 0 \<Longrightarrow> 0 \<le> fd \<and> fd < int (length evs)"
  by (auto simp: mask_of_def split: if_splits)

section \<open>The environment\<close>

text \<open>What calls leave of the scripts.\<close>

definition same_env :: "ae_world \<Rightarrow> ae_world \<Rightarrow> bool" where
  "same_env w w' \<longleftrightarrow> set (aw_ctl w') \<subseteq> set (aw_ctl w) \<and> set (aw_wait w') \<subseteq> set (aw_wait w) \<and> aw_clock w' = aw_clock w \<and> aw_tick w \<le> aw_tick w'"

lemma same_env_refl [simp]: "same_env w w"
  by (simp add: same_env_def)

lemma same_env_trans: "same_env w w' \<Longrightarrow> same_env w' w'' \<Longrightarrow> same_env w w''"
  by (auto simp: same_env_def)

lemma same_env_zmalloc [simp]: "same_env w (snd (ae_zmalloc w))" "same_env w (ae_zfree b w)"
  by (auto simp: ae_zmalloc_def ae_zfree_def malloc_def same_env_def Let_def split: list.splits)

lemma same_env_time [simp]: "same_env w (snd (aeGetTime w))" "same_env w (snd (time_now w))"
  by (simp_all add: aeGetTime_def time_now_def same_env_def)

definition no_fail :: "ae_world \<Rightarrow> bool" where
  "no_fail w \<longleftrightarrow> True \<notin> set (aw_ctl w)"

lemma no_fail_env: "same_env w w' \<Longrightarrow> no_fail w \<Longrightarrow> no_fail w'"
  by (auto simp: same_env_def no_fail_def)

lemma ctl_fails_cases:
  obtains b w' where "ctl_fails w = (b, w')" "same_env w w'" "b \<longrightarrow> \<not> no_fail w"
  by (cases "aw_ctl w") (auto simp: ctl_fails_def same_env_def no_fail_def)

definition replies_ok :: "nat \<Rightarrow> ae_world \<Rightarrow> bool" where
  "replies_ok n w \<longleftrightarrow> (\<forall>r\<in>set (aw_wait w). case r of None \<Rightarrow> True
     | Some evs \<Rightarrow> length evs \<le> n \<and> (\<forall>e\<in>set evs. 0 \<le> fst e \<and> fst e < int n))"

lemma replies_env: "same_env w w' \<Longrightarrow> replies_ok n w \<Longrightarrow> replies_ok n w'"
  unfolding same_env_def replies_ok_def by blast

lemma next_reply_env:
  assumes "replies_ok n w" "next_reply w = (r, w')"
  shows "same_env w w'" "r = Some evs \<Longrightarrow> length evs \<le> n \<and> (\<forall>e\<in>set evs. 0 \<le> fst e \<and> fst e < int n)"
proof -
  show "same_env w w'" using assms(2) by (auto simp: next_reply_def same_env_def split: list.splits)
  show "length evs \<le> n \<and> (\<forall>e\<in>set evs. 0 \<le> fst e \<and> fst e < int n)" if "r = Some evs"
    using assms that by (auto simp: next_reply_def replies_ok_def split: list.splits)
qed

section \<open>The contract\<close>

text \<open>
  \<open>fits\<close> is what a layer needs of its state and the size of the table; \<open>tracks\<close> says that it
  watches the masks of a table. A strict layer only works while no system call fails: the others
  report a failure of registering and go on. A poll fills the array of fired events with
  descriptors of the table and changes nothing else but the layer.
\<close>

definition polled :: "ae_loop \<Rightarrow> api \<Rightarrow> nat \<Rightarrow> ae_loop \<Rightarrow> bool" where
  "polled l a n l' \<longleftrightarrow> (\<exists>fs. l' = l\<lparr>ae_fired := fs, ae_api := a\<rparr> \<and> length fs = length (ae_fired l) \<and> n \<le> length fs \<and>
     (\<forall>j<n. 0 \<le> fst (fs ! j) \<and> fst (fs ! j) < int (length (ae_events l))))"

locale poll_layer =
  fixes mk :: "'s \<Rightarrow> api"
    and add :: "'s \<Rightarrow> ae_loop \<Rightarrow> int \<Rightarrow> int \<Rightarrow> ae_world \<Rightarrow> ((int \<times> ae_loop) \<times> ae_world) cres"
    and del :: "'s \<Rightarrow> ae_loop \<Rightarrow> int \<Rightarrow> int \<Rightarrow> ae_world \<Rightarrow> (ae_loop \<times> ae_world) cres"
    and poll :: "'s \<Rightarrow> ae_loop \<Rightarrow> ae_world \<Rightarrow> ((nat \<times> ae_loop) \<times> ae_world) cres"
    and fits :: "'s \<Rightarrow> nat \<Rightarrow> bool"
    and tracks :: "'s \<Rightarrow> (int \<Rightarrow> int) \<Rightarrow> bool"
    and strict :: bool
  assumes add_law: "\<lbrakk>fits s (length (ae_events l)); 0 \<le> fd; nat fd < length (ae_events l); m \<in> {1, 2, 3}; mask_of (ae_events l) fd \<in> {0, 1, 2, 3};
      strict \<longrightarrow> no_fail w \<and> tracks s (mask_of (ae_events l))\<rbrakk> \<Longrightarrow>
      \<exists>r s' w'. add s l fd m w = Ok ((r, l\<lparr>ae_api := mk s'\<rparr>), w') \<and> same_env w w' \<and> fits s' (length (ae_events l)) \<and>
        (r = -1 \<and> \<not> no_fail w \<or>
         r = 0 \<and> (tracks s (mask_of (ae_events l)) \<longrightarrow> tracks s' ((mask_of (ae_events l))(fd := mask_of (ae_events l) fd OR m))))"
    and del_law: "\<lbrakk>fits s (length (ae_events l)); 0 \<le> fd; nat fd < length (ae_events l); m \<in> {1, 2, 3}; t fd \<in> {1, 2, 3};
      mask_of (ae_events l) = t(fd := t fd AND NOT m); strict \<longrightarrow> no_fail w \<and> tracks s t\<rbrakk> \<Longrightarrow>
      \<exists>s' w'. del s l fd m w = Ok (l\<lparr>ae_api := mk s'\<rparr>, w') \<and> same_env w w' \<and> fits s' (length (ae_events l)) \<and>
        (tracks s t \<longrightarrow> no_fail w \<longrightarrow> tracks s' (mask_of (ae_events l)))"
    and poll_law: "\<lbrakk>ae_api l = mk s; fits s (length (ae_events l)); length (ae_events l) = ae_setsize l; length (ae_fired l) = ae_setsize l;
      ae_maxfd l < int (ae_setsize l); replies_ok (ae_setsize l) w; strict \<longrightarrow> no_fail w \<and> tracks s (mask_of (ae_events l))\<rbrakk> \<Longrightarrow>
      \<exists>n s' l' w'. poll s l w = Ok ((n, l'), w') \<and> same_env w w' \<and> polled l (mk s') n l' \<and> fits s' (length (ae_events l)) \<and>
        (tracks s (mask_of (ae_events l)) \<longrightarrow> tracks s' (mask_of (ae_events l)))"
begin

text \<open>After the table has the new mask, the layer watches the table.\<close>

lemma add_watched:
  assumes "fits s (length (ae_events l))" "0 \<le> fd" "nat fd < length (ae_events l)" "m \<in> {1, 2, 3}" "mask_of (ae_events l) fd \<in> {0, 1, 2, 3}"
    and "strict \<longrightarrow> no_fail w \<and> tracks s (mask_of (ae_events l))"
  shows "\<exists>r s' w'. add s l fd m w = Ok ((r, l\<lparr>ae_api := mk s'\<rparr>), w') \<and> same_env w w' \<and> fits s' (length (ae_events l)) \<and>
    (r = -1 \<and> \<not> no_fail w \<or> r = 0 \<and> (\<forall>fe. tracks s (mask_of (ae_events l)) \<longrightarrow> fe_mask fe = mask_of (ae_events l) fd OR m \<longrightarrow>
       tracks s' (mask_of ((ae_events l)[nat fd := fe]))))"
  using add_law [OF assms] mask_of_update [OF assms(2,3)] by metis

lemma del_watched:
  assumes "fits s (length (ae_events l))" "0 \<le> fd" "nat fd < length evs" "m \<in> {1, 2, 3}" "mask_of evs fd \<in> {1, 2, 3}"
    and "ae_events l = evs[nat fd := fe]" "fe_mask fe = mask_of evs fd AND NOT m" "strict \<longrightarrow> no_fail w \<and> tracks s (mask_of evs)"
  shows "\<exists>s' w'. del s l fd m w = Ok (l\<lparr>ae_api := mk s'\<rparr>, w') \<and> same_env w w' \<and> fits s' (length (ae_events l)) \<and>
    (tracks s (mask_of evs) \<longrightarrow> no_fail w \<longrightarrow> tracks s' (mask_of (ae_events l)))"
proof (rule del_law [OF assms(1,2) _ assms(4) assms(5) _ assms(8)])
  show "nat fd < length (ae_events l)" using assms(3,6) by simp
  show "mask_of (ae_events l) = (mask_of evs)(fd := mask_of evs fd AND NOT m)"
    using mask_of_update [OF assms(2,3), of fe] assms(6,7) by simp
qed

end

section \<open>Polling in general\<close>

lemma polled_fired:
  assumes "length es \<le> ae_setsize l" "length (ae_fired l) = ae_setsize l" "length (ae_events l) = ae_setsize l"
    and "\<forall>e\<in>set es. 0 \<le> fst e \<and> fst e < int (ae_setsize l)" "l' = l\<lparr>ae_fired := es @ drop (length es) (ae_fired l), ae_api := a\<rparr>"
  shows "polled l a (length es) l'"
  unfolding polled_def
proof (intro exI conjI)
  show "l' = l\<lparr>ae_fired := es @ drop (length es) (ae_fired l), ae_api := a\<rparr>" by (fact assms(5))
  show "\<forall>j<length es. 0 \<le> fst ((es @ drop (length es) (ae_fired l)) ! j) \<and> fst ((es @ drop (length es) (ae_fired l)) ! j) < int (length (ae_events l))"
    using assms(3,4) nth_mem by (fastforce simp: nth_append)
qed (use assms in simp_all)

lemma polled_none: "ae_api l = a \<Longrightarrow> polled l a 0 l"
  unfolding polled_def by (intro exI [of _ "ae_fired l"]) (cases l; simp)

text \<open>A layer that copies the reply of the system.\<close>

lemma reply_polled:
  assumes "ae_api l = a" "length (ae_events l) = ae_setsize l" "length (ae_fired l) = ae_setsize l" "replies_ok (ae_setsize l) w"
    and "next_reply w = (Some evs, w')"
  shows "length evs \<le> ae_setsize l" "polled l a (length evs) (l\<lparr>ae_fired := map (\<lambda>(fd, ev). (fd, f ev)) evs @ drop (length evs) (ae_fired l)\<rparr>)"
proof -
  note r = next_reply_env(2) [OF assms(4,5) refl]
  then show "length evs \<le> ae_setsize l" by blast
  have "length (map (\<lambda>(fd, ev). (fd, f ev)) evs) \<le> ae_setsize l" using r by simp
  moreover have "\<forall>e\<in>set (map (\<lambda>(fd, ev). (fd, f ev)) evs). 0 \<le> fst e \<and> fst e < int (ae_setsize l)" using r by auto
  moreover have "l\<lparr>ae_fired := map (\<lambda>(fd, ev). (fd, f ev)) evs @ drop (length evs) (ae_fired l)\<rparr> =
    l\<lparr>ae_fired := map (\<lambda>(fd, ev). (fd, f ev)) evs @ drop (length (map (\<lambda>(fd, ev). (fd, f ev)) evs)) (ae_fired l), ae_api := a\<rparr>"
    using assms(1) by (cases l) simp
  ultimately show "polled l a (length evs) (l\<lparr>ae_fired := map (\<lambda>(fd, ev). (fd, f ev)) evs @ drop (length evs) (ae_fired l)\<rparr>)"
    using polled_fired [of "map (\<lambda>(fd, ev). (fd, f ev)) evs" l _ a] assms(2,3) by simp
qed

section \<open>epoll\<close>

definition epoll_want :: "int \<Rightarrow> int option" where
  "epoll_want m = (if m = AE_NONE then None else Some (epoll_events m))"

definition epoll_tracks :: "epoll_state \<Rightarrow> (int \<Rightarrow> int) \<Rightarrow> bool" where
  "epoll_tracks s t \<longleftrightarrow> ep_interest s = (\<lambda>fd. epoll_want (t fd))"

lemma epoll_ctl_cases:
  obtains w' where "epoll_ctl op fd ev s w = ((-1, s), w')" "\<not> no_fail w" "same_env w w'"
  | w' where "epoll_ctl op fd ev s w = ((0, s\<lparr>ep_interest := (ep_interest s)(fd := (case op of Ctl_del \<Rightarrow> None | _ \<Rightarrow> Some ev))\<rparr>), w')"
      "same_env w w'"
proof -
  obtain b w' where b: "ctl_fails w = (b, w')" "same_env w w'" "b \<longrightarrow> \<not> no_fail w" by (rule ctl_fails_cases)
  show thesis by (cases b; rule that) (use b in \<open>simp_all add: epoll_ctl_def\<close>)
qed

interpretation epoll_layer: poll_layer Epoll epollApiAddEvent epollApiDelEvent "\<lambda>_. epollApiPoll" "\<lambda>_ _. True" epoll_tracks False
proof (unfold_locales, goal_cases)
  case (1 s l fd m w)
  obtain fe where fe: "fe_at l fd = Ok fe" "fe_mask fe = mask_of (ae_events l) fd" using fe_at_mask [OF 1(2,3)] by blast
  have nz: "m OR fe_mask fe \<noteq> 0" using mask_arith(7) [of m "fe_mask fe"] 1(4,5) fe(2) by auto
  show ?case
  proof (cases rule: epoll_ctl_cases [of "if fe_mask fe = AE_NONE then Ctl_add else Ctl_mod" fd "epoll_events (m OR fe_mask fe)" s w])
    case (1 w')
    then show ?thesis using fe(1) by (auto simp: epollApiAddEvent_def Let_def)
  next
    case (2 w')
    then show ?thesis using fe nz
      by (auto simp: epollApiAddEvent_def Let_def epoll_tracks_def epoll_want_def AE_NONE_def fun_eq_iff or.commute)
  qed
next
  case (2 s l fd m t w)
  have te: "mask_of (ae_events l) fd = t fd AND NOT m" using 2(6) by simp
  then obtain fe where fe: "fe_at l fd = Ok fe" "fe_mask fe = t fd AND NOT m" using fe_at_mask [OF 2(2,3)] by auto
  have e: "fe_mask fe AND NOT m = t fd AND NOT m" unfolding fe(2) by (simp add: and.assoc)
  show ?case
  proof (cases rule: epoll_ctl_cases [of "if t fd AND NOT m \<noteq> AE_NONE then Ctl_mod else Ctl_del" fd "epoll_events (t fd AND NOT m)" s w])
    case (1 w')
    then show ?thesis using fe(1) e by (auto simp: epollApiDelEvent_def Let_def)
  next
    case (2 w')
    then show ?thesis using fe(1) e \<open>mask_of (ae_events l) = _\<close>
      by (auto simp: epollApiDelEvent_def Let_def epoll_tracks_def epoll_want_def fun_eq_iff)
  qed
next
  case (3 l s w)
  obtain r w' where r: "next_reply w = (r, w')" by fastforce
  show ?case
  proof (cases r)
    case None
    then show ?thesis using r polled_none [OF 3(1)] next_reply_env(1) [OF 3(6) r] by (fastforce simp: epollApiPoll_def)
  next
    case (Some evs)
    note q = reply_polled [OF 3(1,3,4,6) r [unfolded Some]]
    then show ?thesis using r Some next_reply_env(1) [OF 3(6) r] by (fastforce simp: epollApiPoll_def Let_def)
  qed
qed

section \<open>select\<close>

definition select_tracks :: "select_state \<Rightarrow> (int \<Rightarrow> int) \<Rightarrow> bool" where
  "select_tracks s t \<longleftrightarrow> (\<forall>i<FD_SETSIZE. rfds s ! i = has_bits (t (int i)) AE_READABLE \<and> wfds s ! i = has_bits (t (int i)) AE_WRITABLE)"

definition select_fits :: "select_state \<Rightarrow> nat \<Rightarrow> bool" where
  "select_fits s n \<longleftrightarrow> n \<le> FD_SETSIZE \<and> length (rfds s) = FD_SETSIZE \<and> length (wfds s) = FD_SETSIZE"

lemma fd_put_ok: "0 \<le> fd \<Longrightarrow> nat fd < length s \<Longrightarrow> fd_put s fd b = Ok (s[nat fd := b])"
  by (simp add: fd_put_def)

lemma select_update_ok:
  assumes "0 \<le> fd" "nat fd < length (rfds s)" "nat fd < length (wfds s)"
  shows "select_update b s fd m = Ok \<lparr>rfds = (if has_bits m AE_READABLE then (rfds s)[nat fd := b] else rfds s),
    wfds = (if has_bits m AE_WRITABLE then (wfds s)[nat fd := b] else wfds s)\<rparr>"
  using assms by (cases s) (simp add: select_update_def fd_put_ok)

lemma select_scan_ok:
  "length (ae_events l) = ae_setsize l \<Longrightarrow> j + n \<le> ae_setsize l \<Longrightarrow> ae_setsize l \<le> length r \<Longrightarrow> length r = length w \<Longrightarrow>
     \<exists>fs. select_scan l r w j n = Ok fs \<and> length fs \<le> n \<and> (\<forall>e\<in>set fs. 0 \<le> fst e \<and> fst e < int (ae_setsize l))"
proof (induction n arbitrary: j)
  case (Suc n)
  obtain fs where fs: "select_scan l r w (Suc j) n = Ok fs" "length fs \<le> n" "\<forall>e\<in>set fs. 0 \<le> fst e \<and> fst e < int (ae_setsize l)"
    using Suc.IH [of "Suc j"] Suc.prems by auto
  have at: "fe_at l (int j) = Ok (ae_events l ! j)" "j < length r" "j < length w" using Suc.prems by (simp_all add: fe_at_def)
  show ?case
  proof (cases "fe_mask (ae_events l ! j) = AE_NONE")
    case True
    then show ?thesis using at fs by auto
  next
    case False
    then show ?thesis using at fs Suc.prems by (auto simp: Let_def)
  qed
qed simp

interpretation select_layer: poll_layer Select selectApiAddEvent selectApiDelEvent selectApiPoll select_fits select_tracks False
proof (unfold_locales, goal_cases)
  case (1 s l fd m w)
  have d: "nat fd < length (rfds s)" "nat fd < length (wfds s)" "nat fd < FD_SETSIZE" using 1(1,3) by (auto simp: select_fits_def)
  have m: "m \<in> {0, 1, 2, 3}" using 1(4) by blast
  let ?s = "\<lparr>rfds = (if has_bits m AE_READABLE then (rfds s)[nat fd := True] else rfds s),
    wfds = (if has_bits m AE_WRITABLE then (wfds s)[nat fd := True] else wfds s)\<rparr>"
  let ?t = "mask_of (ae_events l)"
  have "selectApiAddEvent s l fd m w = Ok ((0, l\<lparr>ae_api := Select ?s\<rparr>), w)"
    using select_update_ok [OF 1(2) d(1,2), of True m] by (simp add: selectApiAddEvent_def)
  moreover have "select_fits ?s (length (ae_events l))" using 1(1) by (simp add: select_fits_def)
  moreover have "select_tracks ?s (?t(fd := ?t fd OR m))" if "select_tracks s ?t"
    unfolding select_tracks_def
  proof (intro allI impI)
    show "rfds ?s ! i = has_bits ((?t(fd := ?t fd OR m)) (int i)) AE_READABLE \<and> wfds ?s ! i = has_bits ((?t(fd := ?t fd OR m)) (int i)) AE_WRITABLE"
      if "i < FD_SETSIZE" for i
      using \<open>select_tracks s ?t\<close> that 1(2) d mask_arith(3,4) [OF 1(5) m] by (cases "int i = fd") (auto simp: select_tracks_def nth_list_update)
  qed
  ultimately show ?case using same_env_refl by blast
next
  case (2 s l fd m t w)
  have d: "nat fd < length (rfds s)" "nat fd < length (wfds s)" "nat fd < FD_SETSIZE" using 2(1,3) by (auto simp: select_fits_def)
  have m: "m \<in> {0, 1, 2, 3}" "t fd \<in> {0, 1, 2, 3}" using 2(4,5) by blast+
  let ?s = "\<lparr>rfds = (if has_bits m AE_READABLE then (rfds s)[nat fd := False] else rfds s),
    wfds = (if has_bits m AE_WRITABLE then (wfds s)[nat fd := False] else wfds s)\<rparr>"
  let ?t = "t(fd := t fd AND NOT m)"
  have "selectApiDelEvent s l fd m w = Ok (l\<lparr>ae_api := Select ?s\<rparr>, w)"
    using select_update_ok [OF 2(2) d(1,2), of False m] by (simp add: selectApiDelEvent_def)
  moreover have "select_fits ?s (length (ae_events l))" using 2(1) by (simp add: select_fits_def)
  moreover have "select_tracks ?s ?t" if "select_tracks s t"
    unfolding select_tracks_def
  proof (intro allI impI)
    show "rfds ?s ! i = has_bits (?t (int i)) AE_READABLE \<and> wfds ?s ! i = has_bits (?t (int i)) AE_WRITABLE" if "i < FD_SETSIZE" for i
      using \<open>select_tracks s t\<close> that 2(2) d mask_arith(5,6) [OF m(2,1)] by (cases "int i = fd") (auto simp: select_tracks_def nth_list_update)
  qed
  ultimately show ?case unfolding 2(6) using same_env_refl by blast
next
  case (3 l s w)
  obtain r w' where r: "next_reply w = (r, w')" by fastforce
  note e = next_reply_env(1) [OF 3(6) r]
  define nf where "nf = nat (ae_maxfd l + 1)"
  have f: "length (rfds s) = FD_SETSIZE" "length (wfds s) = FD_SETSIZE" "ae_setsize l \<le> FD_SETSIZE"
    using 3(2,3) by (auto simp: select_fits_def)
  show ?case
  proof (cases r)
    case None
    then show ?thesis using r 3(2) polled_none [OF 3(1)] e by (fastforce simp: selectApiPoll_def)
  next
    case (Some evs)
    let ?r = "left_ready evs EPOLLIN nf (rfds s)" and ?w = "left_ready evs EPOLLOUT nf (wfds s)"
    have nf: "0 + nf \<le> ae_setsize l" using 3(5) by (auto simp: nf_def)
    then obtain fs where fs: "select_scan l ?r ?w 0 nf = Ok fs" "length fs \<le> nf" "\<forall>e\<in>set fs. 0 \<le> fst e \<and> fst e < int (ae_setsize l)"
      using select_scan_ok [OF 3(3), of 0 nf ?r ?w] f by (auto simp: left_ready_def)
    have len: "length fs \<le> ae_setsize l" using fs(2) nf by simp
    let ?l = "l\<lparr>ae_fired := fs @ drop (length fs) (ae_fired l)\<rparr>"
    show ?thesis
    proof (cases "length (filter id ?r) + length (filter id ?w) > 0")
      case True
      then have "selectApiPoll s l w = Ok ((length fs, ?l), w')"
        using r Some fs(1) len unfolding selectApiPoll_def Let_def nf_def by simp
      moreover have "?l = l\<lparr>ae_fired := fs @ drop (length fs) (ae_fired l), ae_api := Select s\<rparr>" using 3(1) by (cases l) simp
      ultimately show ?thesis using polled_fired [OF len 3(4,3) fs(3)] e 3(2) by blast
    next
      case False
      then have "selectApiPoll s l w = Ok ((0, l), w')" using r Some unfolding selectApiPoll_def Let_def nf_def by simp
      then show ?thesis using polled_none [OF 3(1)] e 3(2) by blast
    qed
  qed
qed

end
