(* ===== verification/AePorts.thy ===== *)
theory AePorts
  imports AeLayers
begin

text \<open>
  The layers ae_kqueue.c and ae_evport.c of src/Clang/aio/ae satisfy the contract of a polling
  layer. The layer of event ports aborts when it cannot associate a descriptor again, so its
  part of the contract is strict.
\<close>

section \<open>kqueue\<close>

definition kqueue_tracks :: "kqueue_state \<Rightarrow> (int \<Rightarrow> int) \<Rightarrow> bool" where
  "kqueue_tracks s t \<longleftrightarrow> kq_rd s = (\<lambda>fd. has_bits (t fd) AE_READABLE) \<and> kq_wr s = (\<lambda>fd. has_bits (t fd) AE_WRITABLE)"

lemma filters_differ [simp]: "EVFILT_READ \<noteq> EVFILT_WRITE" "EVFILT_WRITE \<noteq> EVFILT_READ"
  by (simp_all add: EVFILT_READ_def EVFILT_WRITE_def)

lemma kevent_change_cases:
  obtains w' where "kevent_change on flt fd s w = ((-1, s), w')" "\<not> no_fail w" "same_env w w'"
  | w' where "kevent_change on flt fd s w = ((0, if flt = EVFILT_READ then s\<lparr>kq_rd := (kq_rd s)(fd := on)\<rparr> else s\<lparr>kq_wr := (kq_wr s)(fd := on)\<rparr>), w')"
      "same_env w w'"
proof -
  obtain b w' where b: "ctl_fails w = (b, w')" "same_env w w'" "b \<longrightarrow> \<not> no_fail w" by (rule ctl_fails_cases)
  show thesis by (cases b; rule that) (use b in \<open>simp_all add: kevent_change_def\<close>)
qed

text \<open>A change of one filter when it is in the mask.\<close>

lemma kqueue_step:
  assumes "(if has_bits m b then kevent_change on flt fd s w else ((0, s), w)) = ((r, s'), w')"
  shows "same_env w w'" "r \<noteq> 0 \<Longrightarrow> r = -1 \<and> \<not> no_fail w"
    "r = 0 \<Longrightarrow> s' = (if has_bits m b then if flt = EVFILT_READ then s\<lparr>kq_rd := (kq_rd s)(fd := on)\<rparr> else s\<lparr>kq_wr := (kq_wr s)(fd := on)\<rparr> else s)"
  by (use assms in \<open>cases rule: kevent_change_cases [of on flt fd s w]; simp split: if_splits\<close>)+

interpretation kqueue_layer: poll_layer Kqueue "\<lambda>s l fd m w. Ok (kqueueApiAddEvent s l fd m w)" "\<lambda>s l fd m w. Ok (kqueueApiDelEvent s l fd m w)"
  "\<lambda>_. kqueueApiPoll" "\<lambda>_ _. True" kqueue_tracks False
proof (unfold_locales, goal_cases)
  case (1 s l fd m w)
  let ?t = "mask_of (ae_events l)"
  have m: "m \<in> {0, 1, 2, 3}" using 1(4) by blast
  obtain r1 s1 w1 where c1: "(if has_bits m AE_READABLE then kevent_change True EVFILT_READ fd s w else ((0, s), w)) = ((r1, s1), w1)"
    by (metis prod.collapse)
  note k1 = kqueue_step [OF c1]
  obtain r2 s2 w2 where c2: "(if has_bits m AE_WRITABLE then kevent_change True EVFILT_WRITE fd s1 w1 else ((0, s1), w1)) = ((r2, s2), w2)"
    by (metis prod.collapse)
  note k2 = kqueue_step [OF c2]
  have e: "same_env w w2" using same_env_trans [OF k1(1) k2(1)] .
  consider "r1 \<noteq> 0" | "r1 = 0" "r2 \<noteq> 0" | "r1 = 0" "r2 = 0" by blast
  then show ?case
  proof cases
    case 1
    then have "kqueueApiAddEvent s l fd m w = ((-1, l\<lparr>ae_api := Kqueue s1\<rparr>), w1)"
      using k1(2) c1 by (simp add: kqueueApiAddEvent_def)
    then show ?thesis using k1(1,2) 1 by blast
  next
    case 2
    then have "kqueueApiAddEvent s l fd m w = ((-1, l\<lparr>ae_api := Kqueue s2\<rparr>), w2)"
      using k2(2) c1 c2 by (simp add: kqueueApiAddEvent_def)
    moreover have "\<not> no_fail w" using k2(2) [OF 2(2)] no_fail_env [OF k1(1)] by blast
    ultimately show ?thesis using e by blast
  next
    case 3
    then have "kqueueApiAddEvent s l fd m w = ((0, l\<lparr>ae_api := Kqueue s2\<rparr>), w2)"
      using c1 c2 by (simp add: kqueueApiAddEvent_def)
    moreover have "kqueue_tracks s2 (?t(fd := ?t fd OR m))" if "kqueue_tracks s ?t"
      using that k1(3) [OF 3(1)] k2(3) [OF 3(2)] mask_arith(3,4) [OF \<open>?t fd \<in> _\<close> m]
      by (auto simp: kqueue_tracks_def fun_eq_iff)
    ultimately show ?thesis using e by blast
  qed
next
  case (2 s l fd m t w)
  have m: "m \<in> {0, 1, 2, 3}" "t fd \<in> {0, 1, 2, 3}" using 2(4,5) by blast+
  obtain r1 s1 w1 where c1: "(if has_bits m AE_READABLE then kevent_change False EVFILT_READ fd s w else ((0, s), w)) = ((r1, s1), w1)"
    by (metis prod.collapse)
  note k1 = kqueue_step [OF c1]
  obtain r2 s2 w2 where c2: "(if has_bits m AE_WRITABLE then kevent_change False EVFILT_WRITE fd s1 w1 else ((0, s1), w1)) = ((r2, s2), w2)"
    by (metis prod.collapse)
  note k2 = kqueue_step [OF c2]
  have "kqueueApiDelEvent s l fd m w = (l\<lparr>ae_api := Kqueue s2\<rparr>, w2)" using c1 c2 by (simp add: kqueueApiDelEvent_def)
  moreover have "kqueue_tracks s2 (mask_of (ae_events l))" if "kqueue_tracks s t" "no_fail w"
  proof -
    have "r1 = 0" using k1(2) that(2) by blast
    moreover have "r2 = 0" using k2(2) no_fail_env [OF k1(1) that(2)] by blast
    ultimately show ?thesis
      using that(1) k1(3) k2(3) mask_arith(5,6) [OF m(2,1)] unfolding 2(6) by (auto simp: kqueue_tracks_def fun_eq_iff)
  qed
  ultimately show ?case using same_env_trans [OF k1(1) k2(1)] by blast
next
  case (3 l s w)
  obtain r w' where r: "next_reply w = (r, w')" by fastforce
  show ?case
  proof (cases r)
    case None
    then show ?thesis using r polled_none [OF 3(1)] next_reply_env(1) [OF 3(6) r] by (fastforce simp: kqueueApiPoll_def)
  next
    case (Some evs)
    note q = reply_polled [OF 3(1,3,4,6) r [unfolded Some]]
    then show ?thesis using r Some next_reply_env(1) [OF 3(6) r] by (fastforce simp: kqueueApiPoll_def Let_def)
  qed
qed

section \<open>Event ports\<close>

text \<open>
  Every registered descriptor is either associated with its mask, or pending with it; a pending
  entry whose descriptor was deleted is -1.
\<close>

definition port_want :: "int \<Rightarrow> int option" where
  "port_want m = (if m = 0 then None else Some m)"

definition evport_fits :: "evport_state \<Rightarrow> nat \<Rightarrow> bool" where
  "evport_fits s n \<longleftrightarrow> length (ev_fds s) = MAX_EVENT_BATCHSZ \<and> length (ev_masks s) = MAX_EVENT_BATCHSZ \<and> ev_npending s \<le> MAX_EVENT_BATCHSZ"

definition evport_tracks :: "evport_state \<Rightarrow> (int \<Rightarrow> int) \<Rightarrow> bool" where
  "evport_tracks s t \<longleftrightarrow> ev_assoc s (-1) = None \<and>
     (\<forall>i<ev_npending s. ev_fds s ! i \<noteq> -1 \<longrightarrow> ev_masks s ! i = t (ev_fds s ! i) \<and> t (ev_fds s ! i) \<noteq> 0 \<and> ev_assoc s (ev_fds s ! i) = None) \<and>
     (\<forall>i<ev_npending s. \<forall>j<ev_npending s. ev_fds s ! i \<noteq> -1 \<longrightarrow> ev_fds s ! i = ev_fds s ! j \<longrightarrow> i = j) \<and>
     (\<forall>fd. fd \<noteq> -1 \<longrightarrow> (\<forall>i<ev_npending s. ev_fds s ! i \<noteq> fd) \<longrightarrow> ev_assoc s fd = port_want (t fd))"

lemma evport_tracksD:
  assumes "evport_tracks s t"
  shows "ev_assoc s (-1) = None"
    "i < ev_npending s \<Longrightarrow> ev_fds s ! i \<noteq> -1 \<Longrightarrow> ev_masks s ! i = t (ev_fds s ! i) \<and> t (ev_fds s ! i) \<noteq> 0 \<and> ev_assoc s (ev_fds s ! i) = None"
    "i < ev_npending s \<Longrightarrow> j < ev_npending s \<Longrightarrow> ev_fds s ! i \<noteq> -1 \<Longrightarrow> ev_fds s ! i = ev_fds s ! j \<Longrightarrow> i = j"
    "fd \<noteq> -1 \<Longrightarrow> \<forall>i<ev_npending s. ev_fds s ! i \<noteq> fd \<Longrightarrow> ev_assoc s fd = port_want (t fd)"
  using assms by (simp_all add: evport_tracks_def)

lemma evport_tracksI:
  assumes "ev_assoc s (-1) = None"
    and "\<And>i. i < ev_npending s \<Longrightarrow> ev_fds s ! i \<noteq> -1 \<Longrightarrow> ev_masks s ! i = t (ev_fds s ! i) \<and> t (ev_fds s ! i) \<noteq> 0 \<and> ev_assoc s (ev_fds s ! i) = None"
    and "\<And>i j. i < ev_npending s \<Longrightarrow> j < ev_npending s \<Longrightarrow> ev_fds s ! i \<noteq> -1 \<Longrightarrow> ev_fds s ! i = ev_fds s ! j \<Longrightarrow> i = j"
    and "\<And>fd. fd \<noteq> -1 \<Longrightarrow> \<forall>i<ev_npending s. ev_fds s ! i \<noteq> fd \<Longrightarrow> ev_assoc s fd = port_want (t fd)"
  shows "evport_tracks s t"
  unfolding evport_tracks_def using assms by blast

lemma lookup_loop_ok:
  "i + n \<le> length fds \<Longrightarrow> (\<exists>k. lookup_loop fds fd i n = Ok (int k) \<and> i \<le> k \<and> k < i + n \<and> fds ! k = fd) \<or>
     (lookup_loop fds fd i n = Ok (-1) \<and> (\<forall>k. i \<le> k \<and> k < i + n \<longrightarrow> fds ! k \<noteq> fd))"
proof (induction n arbitrary: i)
  case (Suc n)
  show ?case
  proof (cases "fds ! i = fd")
    case False
    then have "lookup_loop fds fd i (Suc n) = lookup_loop fds fd (Suc i) n" using Suc.prems by simp
    moreover have "k = i \<or> Suc i \<le> k" if "i \<le> k" for k using that by auto
    ultimately show ?thesis using Suc.IH [of "Suc i"] Suc.prems False by (metis add_Suc_shift Suc_leD)
  qed (use Suc.prems in auto)
qed simp

lemma lookup_cases:
  assumes "evport_fits s n"
  obtains k where "aeApiLookupPending s fd = Ok (int k)" "k < ev_npending s" "ev_fds s ! k = fd"
  | "aeApiLookupPending s fd = Ok (-1)" "\<forall>k<ev_npending s. ev_fds s ! k \<noteq> fd"
  using lookup_loop_ok [of 0 "ev_npending s" "ev_fds s" fd] assms by (auto simp: aeApiLookupPending_def evport_fits_def)

lemma associate_ok:
  assumes "no_fail w"
  obtains w' where "aeApiAssociate fd m s w = ((0, s\<lparr>ev_assoc := (ev_assoc s)(fd \<mapsto> m)\<rparr>), w')" "same_env w w'"
proof -
  obtain b w' where "ctl_fails w = (b, w')" "same_env w w'" "b \<longrightarrow> \<not> no_fail w" by (rule ctl_fails_cases)
  then show thesis using that assms by (simp add: aeApiAssociate_def)
qed

lemma dissociate_ok:
  assumes "no_fail w" "ev_assoc s fd \<noteq> None"
  obtains w' where "port_dissociate fd s w = ((0, s\<lparr>ev_assoc := (ev_assoc s)(fd := None)\<rparr>), w')" "same_env w w'"
proof -
  obtain b w' where "ctl_fails w = (b, w')" "same_env w w'" "b \<longrightarrow> \<not> no_fail w" by (rule ctl_fails_cases)
  then show thesis using that assms by (simp add: port_dissociate_def)
qed

text \<open>What the layer does to one descriptor.\<close>

lemma tracks_pending:
  assumes "evport_tracks s t" "evport_fits s n" "k < ev_npending s" "ev_fds s ! k = fd" "fd \<noteq> -1" "m \<noteq> 0"
  shows "evport_tracks (s\<lparr>ev_masks := (ev_masks s)[k := m]\<rparr>) (t(fd := m))"
  using assms unfolding evport_tracks_def evport_fits_def by (auto simp: nth_list_update)

lemma tracks_unpend:
  assumes "evport_tracks s t" "evport_fits s n" "k < ev_npending s" "ev_fds s ! k = fd" "fd \<noteq> -1"
  shows "evport_tracks (s\<lparr>ev_masks := (ev_masks s)[k := m], ev_fds := (ev_fds s)[k := -1]\<rparr>) (t(fd := 0))"
    "evport_tracks (s\<lparr>ev_assoc := (ev_assoc s)(fd \<mapsto> t fd), ev_masks := (ev_masks s)[k := m], ev_fds := (ev_fds s)[k := -1]\<rparr>) t"
proof -
  have k: "k < length (ev_fds s)" "k < length (ev_masks s)" and np: "ev_npending s \<le> length (ev_fds s)" "ev_npending s \<le> length (ev_masks s)"
    using assms(2,3) by (auto simp: evport_fits_def)
  note rest = evport_tracksD [OF assms(1)]
  have here: "ev_assoc s fd = None" "\<And>i. i < ev_npending s \<Longrightarrow> ev_fds s ! i = fd \<Longrightarrow> i = k"
    using rest(2) [OF assms(3)] rest(3) [OF _ assms(3)] assms(4,5) by auto
  have assoc: "ev_assoc s g = port_want (t g)" if "g \<noteq> -1" "g \<noteq> fd" "\<forall>i<ev_npending s. (ev_fds s)[k := -1] ! i \<noteq> g" for g
    using rest(4) [of g] that assms(4) k(1) by (metis nth_list_update_neq)
  have nz: "t fd \<noteq> 0" using rest(2) [OF assms(3)] assms(4,5) by simp
  show "evport_tracks (s\<lparr>ev_masks := (ev_masks s)[k := m], ev_fds := (ev_fds s)[k := -1]\<rparr>) (t(fd := 0))"
    by (rule evport_tracksI) (use assms(5) k here rest(1,2,3) assoc in \<open>auto simp: nth_list_update port_want_def split: if_splits\<close>)
  show "evport_tracks (s\<lparr>ev_assoc := (ev_assoc s)(fd \<mapsto> t fd), ev_masks := (ev_masks s)[k := m], ev_fds := (ev_fds s)[k := -1]\<rparr>) t"
    by (rule evport_tracksI) (use assms(5) k here rest(1,2,3) assoc nz in \<open>auto simp: nth_list_update port_want_def split: if_splits\<close>)
qed

lemma tracks_associate:
  assumes "evport_tracks s t" "\<forall>k<ev_npending s. ev_fds s ! k \<noteq> fd" "fd \<noteq> -1"
  shows "evport_tracks (s\<lparr>ev_assoc := (ev_assoc s)(fd := port_want m)\<rparr>) (t(fd := m))"
  using assms unfolding evport_tracks_def by (auto simp: port_want_def)

lemma fits_update [simp]:
  "evport_fits (s\<lparr>ev_masks := (ev_masks s)[k := m]\<rparr>) n = evport_fits s n"
  "evport_fits (s\<lparr>ev_masks := (ev_masks s)[k := m], ev_fds := (ev_fds s)[k := g]\<rparr>) n = evport_fits s n"
  "evport_fits (s\<lparr>ev_assoc := A\<rparr>) n = evport_fits s n"
  "evport_fits (s\<lparr>ev_assoc := A, ev_masks := (ev_masks s)[k := m], ev_fds := (ev_fds s)[k := g]\<rparr>) n = evport_fits s n"
  by (simp_all add: evport_fits_def)

lemma evport_add_ok:
  assumes "evport_fits s (length (ae_events l))" "0 \<le> fd" "nat fd < length (ae_events l)" "m \<in> {1, 2, 3}"
    and t: "mask_of (ae_events l) fd \<in> {0, 1, 2, 3}" "no_fail w" "evport_tracks s (mask_of (ae_events l))"
  shows "\<exists>s' w'. evportApiAddEvent s l fd m w = Ok ((0, l\<lparr>ae_api := Evport s'\<rparr>), w') \<and> same_env w w' \<and> evport_fits s' (length (ae_events l)) \<and>
    evport_tracks s' ((mask_of (ae_events l))(fd := mask_of (ae_events l) fd OR m))"
proof -
  let ?t = "mask_of (ae_events l)"
  obtain fe where fe: "fe_at l fd = Ok fe" "fe_mask fe = ?t fd" using fe_at_mask [OF assms(2,3)] by blast
  have nz: "?t fd OR m \<noteq> 0" using mask_arith(8) [OF t(1), of m] assms(4) by auto
  have fd: "fd \<noteq> -1" using assms(2) by simp
  show ?thesis
  proof (cases rule: lookup_cases [OF assms(1), of fd])
    case (1 k)
    let ?s = "s\<lparr>ev_masks := (ev_masks s)[k := ?t fd OR m]\<rparr>"
    have "ev_masks s ! k = ?t fd" using evport_tracksD(2) [OF t(3) 1(2)] 1(3) fd by simp
    then have "ev_masks s ! k OR (m OR ?t fd) = ?t fd OR m" by (simp add: or.commute or.left_commute)
    then have "evportApiAddEvent s l fd m w = Ok ((0, l\<lparr>ae_api := Evport ?s\<rparr>), w)"
      using fe 1(1) by (simp add: evportApiAddEvent_def Let_def)
    then show ?thesis using tracks_pending [OF t(3) assms(1) 1(2,3) fd nz] assms(1) by fastforce
  next
    case 2
    obtain w' where a: "aeApiAssociate fd (?t fd OR m) s w = ((0, s\<lparr>ev_assoc := (ev_assoc s)(fd \<mapsto> ?t fd OR m)\<rparr>), w')" "same_env w w'"
      by (rule associate_ok [OF t(2)])
    then have "evportApiAddEvent s l fd m w = Ok ((0, l\<lparr>ae_api := Evport (s\<lparr>ev_assoc := (ev_assoc s)(fd \<mapsto> ?t fd OR m)\<rparr>)\<rparr>), w')"
      using fe 2(1) by (simp add: evportApiAddEvent_def Let_def or.commute)
    then show ?thesis
      using tracks_associate [OF t(3) 2(2) fd, of "?t fd OR m"] nz a(2) assms(1) by (fastforce simp: port_want_def)
  qed
qed

lemma evport_del_ok:
  assumes "evport_fits s (length (ae_events l))" "0 \<le> fd" "nat fd < length (ae_events l)" "t fd \<in> {1, 2, 3}"
    and t: "mask_of (ae_events l) = t(fd := t fd AND NOT m)" "no_fail w" "evport_tracks s t"
  shows "\<exists>s' w'. evportApiDelEvent s l fd m w = Ok (l\<lparr>ae_api := Evport s'\<rparr>, w') \<and> same_env w w' \<and> evport_fits s' (length (ae_events l)) \<and>
    evport_tracks s' (mask_of (ae_events l))"
proof -
  have fd: "fd \<noteq> -1" using assms(2) by simp
  let ?m = "t fd AND NOT m"
  obtain fe where fe: "fe_at l fd = Ok fe" "fe_mask fe = ?m" using fe_at_mask [OF assms(2,3)] t(1) by auto
  show ?thesis
  proof (cases rule: lookup_cases [OF assms(1), of fd])
    case (1 k)
    have k: "ev_masks s ! k = t fd" "k < length (ev_masks s)" using evport_tracksD(2) [OF t(3) 1(2)] 1(2,3) fd assms(1) by (auto simp: evport_fits_def)
    show ?thesis
    proof (cases "?m = 0")
      case True
      let ?s = "s\<lparr>ev_masks := (ev_masks s)[k := ?m], ev_fds := (ev_fds s)[k := -1]\<rparr>"
      have "evportApiDelEvent s l fd m w = Ok (l\<lparr>ae_api := Evport ?s\<rparr>, w)"
        using 1(1) True k by (simp add: evportApiDelEvent_def AE_NONE_def Let_def)
      then show ?thesis using tracks_unpend(1) [OF t(3) assms(1) 1(2,3) fd, of ?m] assms(1) True t(1) by fastforce
    next
      case False
      let ?s = "s\<lparr>ev_masks := (ev_masks s)[k := ?m]\<rparr>"
      have "evportApiDelEvent s l fd m w = Ok (l\<lparr>ae_api := Evport ?s\<rparr>, w)"
        using 1(1) False k by (simp add: evportApiDelEvent_def AE_NONE_def Let_def)
      then show ?thesis using tracks_pending [OF t(3) assms(1) 1(2,3) fd False] assms(1) t(1) by fastforce
    qed
  next
    case 2
    let ?s = "s\<lparr>ev_assoc := (ev_assoc s)(fd := port_want ?m)\<rparr>"
    have "ev_assoc s fd \<noteq> None" using evport_tracksD(4) [OF t(3) fd 2(2)] assms(4) by (auto simp: port_want_def)
    then obtain w' where "(if ?m = AE_NONE then port_dissociate fd s w else aeApiAssociate fd ?m s w) = ((0, ?s), w')" "same_env w w'"
      using dissociate_ok [OF t(2), of s fd] associate_ok [OF t(2), of fd ?m s]
      by (cases "?m = 0") (auto simp: AE_NONE_def port_want_def)
    moreover from this have "evportApiDelEvent s l fd m w = Ok (l\<lparr>ae_api := Evport ?s\<rparr>, w')"
      using fe 2(1) by (cases "?m = AE_NONE") (simp_all add: evportApiDelEvent_def Let_def)
    ultimately show ?thesis using tracks_associate [OF t(3) 2(2) fd, of ?m] assms(1) t(1) by fastforce
  qed
qed

lemma reassociate_ok:
  "evport_tracks s t \<Longrightarrow> evport_fits s m \<Longrightarrow> no_fail w \<Longrightarrow> i + n = ev_npending s \<Longrightarrow> \<forall>k<i. ev_fds s ! k = -1 \<Longrightarrow>
   \<exists>s' w'. reassociate i n s w = Ok (s', w') \<and> same_env w w' \<and> evport_fits s' m \<and> evport_tracks s' t \<and>
     ev_npending s' = ev_npending s \<and> (\<forall>k<ev_npending s'. ev_fds s' ! k = -1)"
proof (induction n arbitrary: i s w)
  case 0
  then show ?case by auto
next
  case (Suc n)
  have i: "i < length (ev_fds s)" "i < length (ev_masks s)" "i < ev_npending s" using Suc.prems(2,4) by (auto simp: evport_fits_def)
  show ?case
  proof (cases "ev_fds s ! i = -1")
    case True
    then have "\<forall>k<Suc i. ev_fds s ! k = -1" using Suc.prems(5) by (simp add: less_Suc_eq)
    then show ?thesis using Suc.IH [OF Suc.prems(1-3), of "Suc i"] Suc.prems(4) True i by simp
  next
    case False
    let ?fd = "ev_fds s ! i"
    let ?s = "s\<lparr>ev_assoc := (ev_assoc s)(?fd \<mapsto> t ?fd), ev_masks := (ev_masks s)[i := AE_NONE], ev_fds := (ev_fds s)[i := -1]\<rparr>"
    have m: "ev_masks s ! i = t ?fd" using evport_tracksD(2) [OF Suc.prems(1) i(3) False] by simp
    obtain w1 where a: "aeApiAssociate ?fd (t ?fd) s w = ((0, s\<lparr>ev_assoc := (ev_assoc s)(?fd \<mapsto> t ?fd)\<rparr>), w1)" "same_env w w1"
      by (rule associate_ok [OF Suc.prems(3)])
    have "reassociate i (Suc n) s w = reassociate (Suc i) n ?s w1" using i False m a(1) by simp
    moreover have "evport_tracks ?s t" using tracks_unpend(2) [OF Suc.prems(1,2) i(3) refl False] .
    moreover have "\<forall>k<Suc i. ev_fds ?s ! k = -1" using Suc.prems(5) i by (auto simp: less_Suc_eq nth_list_update)
    moreover have "evport_fits ?s m" "Suc i + n = ev_npending ?s" using Suc.prems(2,4) by simp_all
    ultimately show ?thesis
      using Suc.IH [of ?s w1 "Suc i"] no_fail_env [OF a(2) Suc.prems(3)] same_env_trans [OF a(2)] by fastforce
  qed
qed

lemma port_getn_ok:
  "port_getn n A es = (got, A') \<Longrightarrow> length got \<le> n \<and> distinct (map fst got) \<and> (\<forall>e\<in>set got. A (fst e) = Some (snd (snd e))) \<and>
     A' = (\<lambda>fd. if fd \<in> fst ` set got then None else A fd)"
proof (induction n A es arbitrary: got A' rule: port_getn.induct)
  case (2 n A fd ev es)
  show ?case
  proof (cases n)
    case (Suc k)
    show ?thesis
    proof (cases "A fd")
      case None
      then show ?thesis using 2 Suc by simp
    next
      case (Some m)
      obtain g B where g: "port_getn k (A(fd := None)) es = (g, B)" by fastforce
      have r: "got = (fd, ev, m) # g" "A' = B" using 2(3) Suc Some g by simp_all
      have "length g \<le> k" "distinct (map fst g)" "\<forall>e\<in>set g. (A(fd := None)) (fst e) = Some (snd (snd e))"
        "B = (\<lambda>x. if x \<in> fst ` set g then None else (A(fd := None)) x)"
        using 2(2) [OF refl Suc Some g] by simp_all
      moreover from this(3) have "fd \<notin> fst ` set g" by auto
      ultimately show ?thesis using r Some Suc by (auto simp: fun_eq_iff split: if_splits)
    qed
  qed (use 2 in simp)
qed simp

text \<open>What has been got becomes the pending descriptors.\<close>

lemma tracks_got:
  assumes A: "A (-1) = None" "\<And>fd. fd \<noteq> -1 \<Longrightarrow> A fd = port_want (t fd)" and g: "port_getn n A es = (got, A')"
    and len: "length got \<le> length (ev_fds s)" "length got \<le> length (ev_masks s)"
  shows "evport_tracks (s\<lparr>ev_assoc := A', ev_npending := length got, ev_fds := map fst got @ drop (length got) (ev_fds s),
    ev_masks := map (snd \<circ> snd) got @ drop (length got) (ev_masks s)\<rparr>) t"
proof (rule evport_tracksI, goal_cases)
  case 1
  then show ?case using A(1) port_getn_ok [OF g] by simp
next
  case (2 i)
  then have i: "i < length got" by simp
  have "A (fst (got ! i)) = Some (snd (snd (got ! i)))" using port_getn_ok [OF g] i by simp
  then show ?case using 2 i A(2) [of "fst (got ! i)"] port_getn_ok [OF g] by (auto simp: nth_append port_want_def split: if_splits)
next
  case (3 i j)
  then have "map fst got ! i = map fst got ! j" "i < length (map fst got)" "j < length (map fst got)" by (simp_all add: nth_append)
  then show ?case using port_getn_ok [OF g] nth_eq_iff_index_eq by blast
next
  case (4 fd)
  have "fd \<notin> fst ` set got"
  proof
    assume "fd \<in> fst ` set got"
    then obtain i where "i < length got" "fst (got ! i) = fd" by (auto simp: in_set_conv_nth)
    with 4(2) show False by (simp add: nth_append)
  qed
  then show ?case using 4(1) A(2) port_getn_ok [OF g] by simp
qed

lemma distinct_in_table:
  assumes "distinct fds" "\<forall>fd\<in>set fds. 0 \<le> fd \<and> fd < int n"
  shows "length fds \<le> n"
proof -
  have "card (set fds) \<le> card {0..<int n}" using assms(2) by (intro card_mono) auto
  then show ?thesis using distinct_card [OF assms(1)] by simp
qed

lemma evport_poll_ok:
  assumes "evport_fits s (length (ae_events l))" "length (ae_events l) = ae_setsize l" "length (ae_fired l) = ae_setsize l"
    "replies_ok (ae_setsize l) w" "no_fail w" "evport_tracks s (mask_of (ae_events l))"
  shows "\<exists>n s' l' w'. evportApiPoll s l w = Ok ((n, l'), w') \<and> same_env w w' \<and> polled l (Evport s') n l' \<and>
    evport_fits s' (length (ae_events l)) \<and> evport_tracks s' (mask_of (ae_events l))"
proof -
  let ?t = "mask_of (ae_events l)"
  obtain s1 w1 where 1: "reassociate 0 (ev_npending s) s w = Ok (s1, w1)" "same_env w w1" "evport_fits s1 (length (ae_events l))"
    "evport_tracks s1 ?t" "\<forall>k<ev_npending s1. ev_fds s1 ! k = -1"
    using reassociate_ok [OF assms(6,1,5), of 0 "ev_npending s"] by auto
  let ?s = "s1\<lparr>ev_npending := 0\<rparr>"
  have A: "ev_assoc s1 (-1) = None" "\<And>fd. fd \<noteq> -1 \<Longrightarrow> ev_assoc s1 fd = port_want (?t fd)"
    using evport_tracksD(1,4) [OF 1(4)] 1(5) by auto
  have s: "evport_fits ?s (length (ae_events l))" "evport_tracks ?s ?t" using 1(3) A by (simp_all add: evport_fits_def evport_tracks_def)
  obtain r w2 where r: "next_reply w1 = (r, w2)" by fastforce
  have e: "same_env w w2" using same_env_trans [OF 1(2) next_reply_env(1) [OF replies_env [OF 1(2) assms(4)] r]] .
  show ?thesis
  proof (cases r)
    case None
    then have "evportApiPoll s l w = Ok ((0, l\<lparr>ae_api := Evport ?s\<rparr>), w2)" using 1(1) r by (simp add: evportApiPoll_def Let_def)
    moreover have "polled l (Evport ?s) 0 (l\<lparr>ae_api := Evport ?s\<rparr>)"
      unfolding polled_def by (intro exI [of _ "ae_fired l"]) (cases l; simp)
    ultimately show ?thesis using e s by blast
  next
    case (Some evs)
    obtain got B where g: "port_getn MAX_EVENT_BATCHSZ (ev_assoc ?s) evs = (got, B)" by fastforce
    note k = port_getn_ok [OF g]
    have in_table: "0 \<le> fst e \<and> fst e < int (ae_setsize l)" if "e \<in> set got" for e
    proof -
      have a: "ev_assoc s1 (fst e) \<noteq> None" using k that by simp
      then have "fst e \<noteq> -1" using A(1) by auto
      then have "?t (fst e) \<noteq> 0" using a A(2) by (auto simp: port_want_def)
      then show ?thesis using mask_of_outside [of "ae_events l" "fst e"] assms(2) by simp
    qed
    have n: "length got \<le> ae_setsize l" using distinct_in_table [of "map fst got" "ae_setsize l"] k in_table by simp
    let ?es = "map (\<lambda>(fd, ev, user). (fd, port_mask ev)) got"
    let ?s2 = "?s\<lparr>ev_assoc := B, ev_npending := length got, ev_fds := map fst got @ drop (length got) (ev_fds ?s),
      ev_masks := map (snd \<circ> snd) got @ drop (length got) (ev_masks ?s)\<rparr>"
    let ?l = "l\<lparr>ae_fired := ?es @ drop (length got) (ae_fired l), ae_api := Evport ?s2\<rparr>"
    have "evportApiPoll s l w = Ok ((length got, ?l), w2)"
      using 1(1) r Some g n assms(3) by (simp add: evportApiPoll_def Let_def)
    moreover have "polled l (Evport ?s2) (length ?es) ?l"
      by (rule polled_fired) (use n assms(2,3) in_table in \<open>auto simp: split_beta\<close>)
    moreover have "evport_fits ?s2 (length (ae_events l))" using s(1) k by (auto simp: evport_fits_def)
    moreover have "evport_tracks ?s2 ?t"
    proof (rule tracks_got [OF _ _ g])
      show "length got \<le> length (ev_fds ?s)" "length got \<le> length (ev_masks ?s)" using k s(1) by (auto simp: evport_fits_def)
    qed (use A in simp_all)
    ultimately show ?thesis using e by (simp only: length_map) blast
  qed
qed

interpretation evport_layer: poll_layer Evport evportApiAddEvent evportApiDelEvent evportApiPoll evport_fits evport_tracks True
proof (unfold_locales, goal_cases)
  case (1 s l fd m w)
  then show ?case using evport_add_ok [OF 1(1-5)] by metis
next
  case (2 s l fd m t w)
  then show ?case using evport_del_ok [OF 2(1,2,3,5,6)] by metis
next
  case (3 l s w)
  then show ?case using evport_poll_ok [OF 3(2,3,4,6)] by metis
qed

end
