(* ===== verification/AeSpec.thy ===== *)
theory AeSpec
  imports AePorts
begin

text \<open>
  The invariant of the event loop of src/Clang/aio/ae/ae.c: its table of file events, the
  highest registered descriptor, what the polling layer has been asked to watch, and its time
  events; every call into the loop keeps it.
\<close>

section \<open>The invariant\<close>

definition fe_ok :: "file_event \<Rightarrow> bool" where
  "fe_ok fe \<longleftrightarrow> fe_mask fe \<in> {0, 1, 2, 3} \<and> (has_bits (fe_mask fe) AE_READABLE \<longrightarrow> fe_rproc fe \<noteq> 0) \<and>
     (has_bits (fe_mask fe) AE_WRITABLE \<longrightarrow> fe_wproc fe \<noteq> 0)"

definition ae_inv :: "ae_loop \<Rightarrow> bool" where
  "ae_inv l \<longleftrightarrow> length (ae_events l) = ae_setsize l \<and> length (ae_fired l) = ae_setsize l \<and> (\<forall>fe\<in>set (ae_events l). fe_ok fe) \<and>
     ae_maxfd l = lower_maxfd (ae_events l) (ae_setsize l) \<and>
     distinct (map te_id (ae_timers l)) \<and> (\<forall>t\<in>set (ae_timers l). 0 \<le> te_id t \<and> te_id t < ae_next_id l \<and> te_proc t \<noteq> 0) \<and>
     0 \<le> ae_next_id l"

text \<open>What the layer must watch, and what it needs.\<close>

definition watches :: "api \<Rightarrow> file_event list \<Rightarrow> bool" where
  "watches a evs = (case a of
       Epoll s \<Rightarrow> epoll_tracks s (mask_of evs)
     | Select s \<Rightarrow> select_tracks s (mask_of evs)
     | Kqueue s \<Rightarrow> kqueue_tracks s (mask_of evs)
     | Evport s \<Rightarrow> evport_tracks s (mask_of evs))"

definition fits_api :: "api \<Rightarrow> nat \<Rightarrow> bool" where
  "fits_api a n \<longleftrightarrow> (case a of Epoll _ \<Rightarrow> True | Select s \<Rightarrow> select_fits s n | Kqueue _ \<Rightarrow> True | Evport s \<Rightarrow> evport_fits s n)"

definition strict :: "api \<Rightarrow> bool" where
  "strict a \<longleftrightarrow> (case a of Evport _ \<Rightarrow> True | _ \<Rightarrow> False)"

text \<open>
  With \<open>c\<close>, and always for a strict layer, no system call fails, and the layer watches what is
  registered.
\<close>

definition good :: "bool \<Rightarrow> loop_state \<Rightarrow> bool" where
  "good c s = (case s of (l, w) \<Rightarrow> ae_inv l \<and> fits_api (ae_api l) (ae_setsize l) \<and> replies_ok (ae_setsize l) w \<and>
     (c \<or> strict (ae_api l) \<longrightarrow> no_fail w \<and> watches (ae_api l) (ae_events l)))"

fun cmd_ok :: "ae_cmd \<Rightarrow> bool" where
  "cmd_ok (Create_file fd m p data) \<longleftrightarrow> 0 \<le> fd \<and> m \<in> {1, 2, 3} \<and> p \<noteq> 0"
| "cmd_ok (Delete_file fd m) \<longleftrightarrow> 0 \<le> fd \<and> m \<in> {1, 2, 3}"
| "cmd_ok (Create_timer ms p data fin) \<longleftrightarrow> p \<noteq> 0"
| "cmd_ok _ \<longleftrightarrow> True"

section \<open>The highest descriptor\<close>

lemma lower_maxfd_bounds: "-1 \<le> lower_maxfd evs n" "lower_maxfd evs n < int n"
  by (induction n) auto

lemma lower_maxfd_update:
  "j < length evs \<Longrightarrow> n \<le> length evs \<Longrightarrow> fe_mask fe \<noteq> AE_NONE \<Longrightarrow> j < n \<Longrightarrow>
     lower_maxfd (evs[j := fe]) n = max (int j) (lower_maxfd evs n)"
proof (induction n)
  case (Suc n)
  show ?case
  proof (cases "n = j")
    case True
    then show ?thesis using Suc.prems lower_maxfd_bounds(2) [of evs n] by (auto simp: max_def)
  next
    case False
    then show ?thesis using Suc by (auto simp: max_def)
  qed
qed simp

lemma lower_maxfd_cong:
  "(\<And>i. i < n \<Longrightarrow> fe_mask (evs' ! i) = AE_NONE \<longleftrightarrow> fe_mask (evs ! i) = AE_NONE) \<Longrightarrow> lower_maxfd evs' n = lower_maxfd evs n"
  by (induction n) auto

lemma lower_maxfd_same:
  "fe_mask fe = AE_NONE \<longleftrightarrow> fe_mask (evs ! j) = AE_NONE \<Longrightarrow> n \<le> length evs \<Longrightarrow> lower_maxfd (evs[j := fe]) n = lower_maxfd evs n"
proof (rule lower_maxfd_cong)
  show "fe_mask (evs[j := fe] ! i) = AE_NONE \<longleftrightarrow> fe_mask (evs ! i) = AE_NONE"
    if "fe_mask fe = AE_NONE \<longleftrightarrow> fe_mask (evs ! j) = AE_NONE" "n \<le> length evs" "i < n" for i
    using that by (cases "i = j") simp_all
qed

lemma lower_maxfd_clear:
  "int j \<noteq> lower_maxfd evs n \<Longrightarrow> fe_mask fe = AE_NONE \<Longrightarrow> n \<le> length evs \<Longrightarrow> lower_maxfd (evs[j := fe]) n = lower_maxfd evs n"
proof (induction n)
  case (Suc n)
  then show ?case by (cases "n = j"; cases "fe_mask (evs ! n) = AE_NONE") auto
qed simp

lemma lower_maxfd_above: "lower_maxfd evs n = m \<Longrightarrow> m < int i \<Longrightarrow> i < n \<Longrightarrow> fe_mask (evs ! i) = AE_NONE"
  by (induction n) (auto simp: less_Suc_eq split: if_splits)

lemma lower_maxfd_skip:
  "j \<le> n \<Longrightarrow> (\<And>i. j \<le> i \<Longrightarrow> i < n \<Longrightarrow> fe_mask (evs ! i) = AE_NONE) \<Longrightarrow> lower_maxfd evs n = lower_maxfd evs j"
  by (induction n) (auto simp: le_Suc_eq)

lemma lower_maxfd_removed:
  assumes "int j = lower_maxfd evs n" "n \<le> length evs" "j < n" "fe_mask fe = AE_NONE"
  shows "lower_maxfd (evs[j := fe]) n = lower_maxfd (evs[j := fe]) j"
proof (rule lower_maxfd_skip)
  show "fe_mask (evs[j := fe] ! i) = AE_NONE" if "j \<le> i" "i < n" for i
    using lower_maxfd_above [OF assms(1) [symmetric], of i] that assms by (cases "i = j") auto
qed (use assms in simp)

section \<open>The layers\<close>

lemmas layer_simps = watches_def fits_api_def strict_def

lemma ex_layer2: "\<exists>s x. P (C s) x \<Longrightarrow> \<exists>a x. P a x"
  by blast

lemma ex_layer3: "\<exists>r s x. P r (C s) x \<Longrightarrow> \<exists>r a x. P r a x"
  by blast

lemma ex_layer4: "\<exists>n s l x. P n (C s) l x \<Longrightarrow> \<exists>n a l x. P n a l x"
  by blast

lemma layer_add:
  assumes "fits_api (ae_api l) (length (ae_events l))" "0 \<le> fd" "nat fd < length (ae_events l)" "m \<in> {1, 2, 3}"
    and "mask_of (ae_events l) fd \<in> {0, 1, 2, 3}" "strict (ae_api l) \<longrightarrow> no_fail w \<and> watches (ae_api l) (ae_events l)"
  shows "\<exists>r a w'. aeApiAddEvent l fd m w = Ok ((r, l\<lparr>ae_api := a\<rparr>), w') \<and> same_env w w' \<and> fits_api a (length (ae_events l)) \<and>
    strict a = strict (ae_api l) \<and>
    (r = -1 \<and> \<not> no_fail w \<or> r = 0 \<and> (\<forall>fe. watches (ae_api l) (ae_events l) \<longrightarrow> fe_mask fe = mask_of (ae_events l) fd OR m \<longrightarrow>
       watches a ((ae_events l)[nat fd := fe])))"
proof (cases "ae_api l")
  case (Epoll s)
  with assms(1,6) show ?thesis
    by (intro ex_layer3 [where C = Epoll]) (use epoll_layer.add_watched [where s = s and w = w, OF _ assms(2-5)] in \<open>simp add: layer_simps aeApiAddEvent_def\<close>)
next
  case (Select s)
  with assms(1,6) show ?thesis
    by (intro ex_layer3 [where C = Select]) (use select_layer.add_watched [where s = s and w = w, OF _ assms(2-5)] in \<open>simp add: layer_simps aeApiAddEvent_def\<close>)
next
  case (Kqueue s)
  with assms(1,6) show ?thesis
    by (intro ex_layer3 [where C = Kqueue]) (use kqueue_layer.add_watched [where s = s and w = w, OF _ assms(2-5)] in \<open>simp add: layer_simps aeApiAddEvent_def\<close>)
next
  case (Evport s)
  with assms(1,6) show ?thesis
    by (intro ex_layer3 [where C = Evport]) (use evport_layer.add_watched [where s = s and w = w, OF _ assms(2-5)] in \<open>simp add: layer_simps aeApiAddEvent_def\<close>)
qed

lemma layer_del:
  assumes "fits_api (ae_api l) (length (ae_events l))" "0 \<le> fd" "nat fd < length evs" "m \<in> {1, 2, 3}" "mask_of evs fd \<in> {1, 2, 3}"
    and "ae_events l = evs[nat fd := fe]" "fe_mask fe = mask_of evs fd AND NOT m" "strict (ae_api l) \<longrightarrow> no_fail w \<and> watches (ae_api l) evs"
  shows "\<exists>a w'. aeApiDelEvent l fd m w = Ok (l\<lparr>ae_api := a\<rparr>, w') \<and> same_env w w' \<and> fits_api a (length (ae_events l)) \<and>
    strict a = strict (ae_api l) \<and> (watches (ae_api l) evs \<longrightarrow> no_fail w \<longrightarrow> watches a (ae_events l))"
proof (cases "ae_api l")
  case (Epoll s)
  with assms(1,8) show ?thesis
    by (intro ex_layer2 [where C = Epoll]) (use epoll_layer.del_watched [where s = s and w = w, OF _ assms(2-7)] in \<open>simp add: layer_simps aeApiDelEvent_def\<close>)
next
  case (Select s)
  with assms(1,8) show ?thesis
    by (intro ex_layer2 [where C = Select]) (use select_layer.del_watched [where s = s and w = w, OF _ assms(2-7)] in \<open>simp add: layer_simps aeApiDelEvent_def\<close>)
next
  case (Kqueue s)
  with assms(1,8) show ?thesis
    by (intro ex_layer2 [where C = Kqueue]) (use kqueue_layer.del_watched [where s = s and w = w, OF _ assms(2-7)] in \<open>simp add: layer_simps aeApiDelEvent_def\<close>)
next
  case (Evport s)
  with assms(1,8) show ?thesis
    by (intro ex_layer2 [where C = Evport]) (use evport_layer.del_watched [where s = s and w = w, OF _ assms(2-7)] in \<open>simp add: layer_simps aeApiDelEvent_def\<close>)
qed

lemma layer_poll:
  assumes "fits_api (ae_api l) (length (ae_events l))" "length (ae_events l) = ae_setsize l" "length (ae_fired l) = ae_setsize l"
    and "ae_maxfd l < int (ae_setsize l)" "replies_ok (ae_setsize l) w" "strict (ae_api l) \<longrightarrow> no_fail w \<and> watches (ae_api l) (ae_events l)"
  shows "\<exists>n a l' w'. aeApiPoll l w = Ok ((n, l'), w') \<and> same_env w w' \<and> polled l a n l' \<and> fits_api a (length (ae_events l)) \<and>
    strict a = strict (ae_api l) \<and> (watches (ae_api l) (ae_events l) \<longrightarrow> watches a (ae_events l))"
proof (cases "ae_api l")
  case (Epoll s)
  with assms(1,6) show ?thesis
    by (intro ex_layer4 [where C = Epoll]) (use epoll_layer.poll_law [where s = s, OF _ _ assms(2-5)] in \<open>simp add: layer_simps aeApiPoll_def\<close>)
next
  case (Select s)
  with assms(1,6) show ?thesis
    by (intro ex_layer4 [where C = Select]) (use select_layer.poll_law [where s = s, OF _ _ assms(2-5)] in \<open>simp add: layer_simps aeApiPoll_def\<close>)
next
  case (Kqueue s)
  with assms(1,6) show ?thesis
    by (intro ex_layer4 [where C = Kqueue]) (use kqueue_layer.poll_law [where s = s, OF _ _ assms(2-5)] in \<open>simp add: layer_simps aeApiPoll_def\<close>)
next
  case (Evport s)
  with assms(1,6) show ?thesis
    by (intro ex_layer4 [where C = Evport]) (use evport_layer.poll_law [where s = s, OF _ _ assms(2-5)] in \<open>simp add: layer_simps aeApiPoll_def\<close>)
qed

section \<open>Calls into the loop\<close>

definition timer_calls :: "ae_loop \<Rightarrow> int list" where
  "timer_calls l = concat (map (\<lambda>c. case c of Called_time p i data \<Rightarrow> [i] | _ \<Rightarrow> []) (ae_log l))"

text \<open>What a call does to the time events: it may add new ones, and only deletes those in \<open>D\<close>.\<close>

definition timers_step :: "int set \<Rightarrow> ae_loop \<Rightarrow> ae_loop \<Rightarrow> bool" where
  "timers_step D l l' \<longleftrightarrow> ae_setsize l' = ae_setsize l \<and> ae_fired l' = ae_fired l \<and> ae_next_id l \<le> ae_next_id l' \<and>
     (\<forall>t\<in>set (ae_timers l'). t \<in> set (ae_timers l) \<or> ae_next_id l \<le> te_id t) \<and>
     (\<forall>t\<in>set (ae_timers l). te_id t \<notin> D \<longrightarrow> t \<in> set (ae_timers l')) \<and> timer_calls l' = timer_calls l"

lemma timers_step_refl [simp]: "timers_step D l l"
  by (simp add: timers_step_def)

lemma timers_step_trans: "timers_step D l l' \<Longrightarrow> timers_step D' l' l'' \<Longrightarrow> timers_step (D \<union> D') l l''"
  unfolding timers_step_def by (auto; meson order_trans)

lemma goodE:
  assumes "good c (l, w)"
  shows "ae_inv l" "fits_api (ae_api l) (ae_setsize l)" "replies_ok (ae_setsize l) w" "c \<or> strict (ae_api l) \<Longrightarrow> no_fail w"
    "c \<or> strict (ae_api l) \<Longrightarrow> watches (ae_api l) (ae_events l)" "length (ae_events l) = ae_setsize l" "length (ae_fired l) = ae_setsize l"
  using assms by (auto simp: good_def ae_inv_def)

lemma good_env:
  assumes "good c (l, w)" "same_env w w'" "ae_inv l'" "fits_api (ae_api l') (ae_setsize l)" "ae_setsize l' = ae_setsize l"
    and "strict (ae_api l') = strict (ae_api l)"
    and "c \<or> strict (ae_api l) \<Longrightarrow> no_fail w \<Longrightarrow> watches (ae_api l) (ae_events l) \<Longrightarrow> watches (ae_api l') (ae_events l')"
  shows "good c (l', w')"
  using assms(3-7) replies_env [OF assms(2) goodE(3) [OF assms(1)]] no_fail_env [OF assms(2)] goodE(4,5) [OF assms(1)]
  by (auto simp: good_def)

lemma good_same_api:
  assumes "good c (l, w)" "same_env w w'" "ae_inv l'" "ae_api l' = ae_api l" "ae_setsize l' = ae_setsize l" "ae_events l' = ae_events l"
  shows "good c (l', w')"
  by (rule good_env [OF assms(1-3)]) (use assms(4-6) goodE(2) [OF assms(1)] in simp_all)

lemma ae_inv_at:
  assumes "ae_inv l" "0 \<le> fd" "fd < int (ae_setsize l)"
  shows "nat fd < length (ae_events l)" "fe_at l fd = Ok (ae_events l ! nat fd)" "fe_ok (ae_events l ! nat fd)"
    "mask_of (ae_events l) fd = fe_mask (ae_events l ! nat fd)" "mask_of (ae_events l) fd \<in> {0, 1, 2, 3}"
proof -
  show n: "nat fd < length (ae_events l)" using assms by (simp add: ae_inv_def)
  show "fe_at l fd = Ok (ae_events l ! nat fd)" using n assms(2) by (simp add: fe_at_def)
  show ok: "fe_ok (ae_events l ! nat fd)" using n assms(1) by (simp add: ae_inv_def)
  show "mask_of (ae_events l) fd = fe_mask (ae_events l ! nat fd)" using n assms(2) by (simp add: mask_of_def)
  then show "mask_of (ae_events l) fd \<in> {0, 1, 2, 3}" using ok by (simp add: fe_ok_def)
qed

lemma aeCreateFileEvent_ok:
  assumes g: "good c (l, w)" and p: "0 \<le> fd" "m \<in> {1, 2, 3}" "p \<noteq> 0"
  shows "\<exists>r l' w'. aeCreateFileEvent l fd m p data w = Ok ((r, l'), w') \<and> good c (l', w') \<and> same_env w w' \<and> timers_step {} l l'"
proof (cases "int (ae_setsize l) \<le> fd")
  case True
  then show ?thesis using g by (simp add: aeCreateFileEvent_def)
next
  case False
  then have fd: "fd < int (ae_setsize l)" by simp
  note at = ae_inv_at [OF goodE(1) [OF g] p(1) fd]
  have len: "length (ae_events l) = ae_setsize l" by (rule goodE(6) [OF g])
  have "fits_api (ae_api l) (length (ae_events l))" "strict (ae_api l) \<longrightarrow> no_fail w \<and> watches (ae_api l) (ae_events l)"
    using goodE(2,4,5) [OF g] len by simp_all
  from layer_add [OF this(1) p(1) at(1) p(2) at(5) this(2)] obtain r a w' where
    a: "aeApiAddEvent l fd m w = Ok ((r, l\<lparr>ae_api := a\<rparr>), w')" "same_env w w'" "fits_api a (ae_setsize l)" "strict a = strict (ae_api l)"
    "r = -1 \<and> \<not> no_fail w \<or> r = 0 \<and> (\<forall>fe. watches (ae_api l) (ae_events l) \<longrightarrow> fe_mask fe = mask_of (ae_events l) fd OR m \<longrightarrow>
       watches a ((ae_events l)[nat fd := fe]))"
    unfolding len by blast
  show ?thesis
  proof (cases "r = -1")
    case True
    let ?l = "l\<lparr>ae_api := a\<rparr>"
    have nf: "\<not> (c \<or> strict (ae_api l))" using a(5) True goodE(4) [OF g] by auto
    have "good c (?l, w')"
      by (rule good_env [OF g a(2)]) (use goodE(1) [OF g] a(3,4) nf in \<open>auto simp: ae_inv_def\<close>)
    moreover have "aeCreateFileEvent l fd m p data w = Ok ((-1, ?l), w')"
      using a(1) True fd by (simp add: aeCreateFileEvent_def)
    ultimately show ?thesis using a(2)
      by (intro exI [of _ "-1"] exI [of _ ?l] exI [of _ w']) (simp add: timers_step_def timer_calls_def)
  next
    case False
    let ?old = "ae_events l ! nat fd"
    define fe where "fe = \<lparr>fe_mask = fe_mask ?old OR m, fe_rproc = (if has_bits m AE_READABLE then p else fe_rproc ?old),
      fe_wproc = (if has_bits m AE_WRITABLE then p else fe_wproc ?old), fe_data = data\<rparr>"
    let ?l = "l\<lparr>ae_api := a, ae_events := (ae_events l)[nat fd := fe], ae_maxfd := max fd (ae_maxfd l)\<rparr>"
    have "aeCreateFileEvent l fd m p data w = Ok ((0, ?l), w')"
      using a(1) False fd at(1) p(1) by (cases ?old) (simp add: aeCreateFileEvent_def fe_at_def set_fe_def fe_def Let_def max_def)
    moreover have "good c (?l, w')"
    proof (rule good_env [OF g a(2)])
      have m: "m \<in> {0, 1, 2, 3}" using p(2) by blast
      have mo: "fe_mask ?old \<in> {0, 1, 2, 3}" using at(4,5) by simp
      have ok: "fe_ok fe" using at(3) p(3) mask_arith(1,3,4) [OF mo m] by (auto simp: fe_ok_def fe_def)
      have nz: "fe_mask fe \<noteq> AE_NONE" using mask_arith(8) [OF mo m] p(2) by (auto simp: fe_def AE_NONE_def)
      have "lower_maxfd ((ae_events l)[nat fd := fe]) (ae_setsize l) = max fd (ae_maxfd l)"
        using lower_maxfd_update [of "nat fd" "ae_events l" "ae_setsize l" fe] at(1) nz len p(1) goodE(1) [OF g]
        by (simp add: ae_inv_def)
      then show "ae_inv ?l"
        using goodE(1) [OF g] ok set_update_subset_insert [of "ae_events l" "nat fd" fe] by (auto simp: ae_inv_def)
      show "watches (ae_api ?l) (ae_events ?l)" if "watches (ae_api l) (ae_events l)"
        using a(5) False that at(4) by (simp add: fe_def)
    qed (use a(3,4) in simp_all)
    ultimately show ?thesis using a(2)
      by (intro exI [of _ 0] exI [of _ ?l] exI [of _ w']) (simp add: timers_step_def timer_calls_def)
  qed
qed

lemma aeDeleteFileEvent_ok:
  assumes g: "good c (l, w)" and p: "0 \<le> fd" "m \<in> {1, 2, 3}"
  shows "\<exists>l' w'. aeDeleteFileEvent l fd m w = Ok (l', w') \<and> good c (l', w') \<and> same_env w w' \<and> timers_step {} l l'"
proof (cases "int (ae_setsize l) \<le> fd \<or> mask_of (ae_events l) fd = AE_NONE")
  case True
  then have "aeDeleteFileEvent l fd m w = Ok (l, w)"
    using ae_inv_at [OF goodE(1) [OF g] p(1)] by (cases "int (ae_setsize l) \<le> fd") (simp_all add: aeDeleteFileEvent_def)
  then show ?thesis using g by simp
next
  case False
  then have fd: "fd < int (ae_setsize l)" by simp
  note at = ae_inv_at [OF goodE(1) [OF g] p(1) fd]
  let ?old = "ae_events l ! nat fd"
  define fe where "fe = ?old\<lparr>fe_mask := fe_mask ?old AND NOT m\<rparr>"
  define mx where "mx = (if fd = ae_maxfd l \<and> fe_mask fe = AE_NONE then lower_maxfd ((ae_events l)[nat fd := fe]) (nat fd) else ae_maxfd l)"
  let ?l = "l\<lparr>ae_events := (ae_events l)[nat fd := fe], ae_maxfd := mx\<rparr>"
  have m: "m \<in> {0, 1, 2, 3}" using p(2) by blast
  have mo: "fe_mask ?old \<in> {0, 1, 2, 3}" using at(4,5) by simp
  have len: "length (ae_events l) = ae_setsize l" using goodE(1) [OF g] by (simp add: ae_inv_def)
  have l: "fits_api (ae_api ?l) (length (ae_events ?l))" "mask_of (ae_events l) fd \<in> {1, 2, 3}" "ae_events ?l = (ae_events l)[nat fd := fe]"
    "fe_mask fe = mask_of (ae_events l) fd AND NOT m" "strict (ae_api ?l) \<longrightarrow> no_fail w \<and> watches (ae_api ?l) (ae_events l)"
    using at(4,5) False goodE(2,4,5) [OF g] len by (auto simp: fe_def AE_NONE_def)
  from layer_del [OF l(1) p(1) at(1) p(2) l(2-5)] obtain a w' where
    a: "aeApiDelEvent ?l fd m w = Ok (?l\<lparr>ae_api := a\<rparr>, w')" "same_env w w'" "fits_api a (ae_setsize l)" "strict a = strict (ae_api l)"
    "watches (ae_api l) (ae_events l) \<longrightarrow> no_fail w \<longrightarrow> watches a ((ae_events l)[nat fd := fe])"
    using len by auto
  have "aeDeleteFileEvent l fd m w = aeApiDelEvent ?l fd m w"
  proof (cases "fd = ae_maxfd l \<and> fe_mask fe = AE_NONE")
    case True
    then show ?thesis using False fd at p(1) by (simp add: aeDeleteFileEvent_def set_fe_def Let_def mx_def fe_def)
  next
    case no: False
    then have "l\<lparr>ae_events := (ae_events l)[nat fd := fe]\<rparr> = ?l" by (cases l) (auto simp: mx_def)
    with no show ?thesis using False fd at p(1) by (auto simp: aeDeleteFileEvent_def set_fe_def Let_def fe_def)
  qed
  moreover have "good c (?l\<lparr>ae_api := a\<rparr>, w')"
  proof (rule good_env [OF g a(2)])
    have ok: "fe_ok fe" using at(3) mask_arith(2,5,6) [OF mo m] by (auto simp: fe_ok_def fe_def)
    have mx0: "ae_maxfd l = lower_maxfd (ae_events l) (ae_setsize l)" using goodE(1) [OF g] by (simp add: ae_inv_def)
    have "lower_maxfd ((ae_events l)[nat fd := fe]) (ae_setsize l) = mx"
    proof (cases "fe_mask fe = AE_NONE")
      case True
      then show ?thesis
        using lower_maxfd_removed [of "nat fd" "ae_events l" "ae_setsize l" fe] lower_maxfd_clear [of "nat fd" "ae_events l" "ae_setsize l" fe]
          mx0 p(1) fd len by (auto simp: mx_def)
    next
      case no: False
      then show ?thesis
        using lower_maxfd_same [of fe "ae_events l" "nat fd" "ae_setsize l"] mx0 len False at(4) by (simp add: mx_def)
    qed
    then show "ae_inv (?l\<lparr>ae_api := a\<rparr>)"
      using goodE(1) [OF g] ok set_update_subset_insert [of "ae_events l" "nat fd" fe] by (auto simp: ae_inv_def)
  qed (use a(3-5) in simp_all)
  ultimately show ?thesis using a(1,2)
    by (intro exI [of _ "?l\<lparr>ae_api := a\<rparr>"] exI [of _ w']) (simp add: timers_step_def timer_calls_def)
qed

lemma unlink_timer_Some:
  "unlink_timer i ts = Some (t, us) \<Longrightarrow> te_id t = i \<and> t \<in> set ts \<and> (\<forall>u\<in>set us. u \<in> set ts) \<and> (\<forall>u\<in>set ts. te_id u \<noteq> i \<longrightarrow> u \<in> set us) \<and>
     (distinct (map te_id ts) \<longrightarrow> distinct (map te_id us) \<and> i \<notin> te_id ` set us)"
  by (induction ts arbitrary: us) (auto simp: image_iff split: if_splits)

lemma unlink_timer_None: "unlink_timer i ts = None \<longleftrightarrow> i \<notin> te_id ` set ts"
  by (induction ts) auto

lemma aeDeleteTimeEvent_ok:
  assumes g: "good c (l, w)"
  shows "\<exists>r l' w'. aeDeleteTimeEvent l i w = ((r, l'), w') \<and> good c (l', w') \<and> same_env w w' \<and> timers_step {i} l l' \<and>
    i \<notin> te_id ` set (ae_timers l')"
proof (cases "unlink_timer i (ae_timers l)")
  case None
  moreover from None have "i \<notin> te_id ` set (ae_timers l)" by (simp add: unlink_timer_None)
  ultimately show ?thesis using g by (simp add: aeDeleteTimeEvent_def)
next
  case (Some tu)
  obtain t us where tu: "tu = (t, us)" by fastforce
  note u = unlink_timer_Some [OF Some [unfolded tu]]
  let ?lg = "if te_fin t \<noteq> 0 then ae_log l @ [Called_finalizer (te_fin t) (te_data t)] else ae_log l"
  let ?l = "l\<lparr>ae_timers := us, ae_log := ?lg\<rparr>"
  have "ae_inv ?l" using u goodE(1) [OF g] by (auto simp: ae_inv_def)
  then have "good c (?l, ae_zfree True w)"
    by (rule good_same_api [OF g same_env_zmalloc(2)]) simp_all
  moreover have "timers_step {i} l ?l" using u by (auto simp: timers_step_def timer_calls_def)
  moreover have "i \<notin> te_id ` set us" using u goodE(1) [OF g] by (simp add: ae_inv_def)
  ultimately show ?thesis using Some tu
    by (intro exI [of _ 0] exI [of _ ?l] exI [of _ "ae_zfree True w"]) (simp add: aeDeleteTimeEvent_def Let_def)
qed

lemma same_env_add: "same_env w (snd (aeAddMillisecondsToNow ms w))"
  by (auto simp: aeAddMillisecondsToNow_def aeGetTime_def same_env_def split_beta Let_def)

lemma aeCreateTimeEvent_ok:
  assumes g: "good c (l, w)" and p: "p \<noteq> 0"
  shows "\<exists>r l' w'. aeCreateTimeEvent l ms p data fin w = ((r, l'), w') \<and> good c (l', w') \<and> same_env w w' \<and> timers_step {} l l'"
proof -
  obtain ok w1 where m: "ae_zmalloc w = (ok, w1)" by fastforce
  have e1: "same_env w w1" using same_env_zmalloc(1) [of w] m by simp
  obtain s u w2 where t: "aeAddMillisecondsToNow ms w1 = ((s, u), w2)" by (metis prod.collapse)
  have e2: "same_env w w2" using same_env_add [of w1 ms] t same_env_trans [OF e1] by simp
  let ?i = "ae_next_id l"
  let ?l1 = "l\<lparr>ae_next_id := ?i + 1\<rparr>"
  let ?l2 = "?l1\<lparr>ae_timers := \<lparr>te_id = ?i, te_sec = s, te_ms = u, te_proc = p, te_fin = fin, te_data = data\<rparr> # ae_timers l\<rparr>"
  have i: "ae_inv ?l1" "ae_inv ?l2" using goodE(1) [OF g] p by (auto simp: ae_inv_def image_iff)
  have "good c (?l1, w1)" by (rule good_same_api [OF g e1 i(1)]) simp_all
  moreover have "good c (?l2, w2)" by (rule good_same_api [OF g e2 i(2)]) simp_all
  moreover have "timers_step {} l ?l1" "timers_step {} l ?l2" by (auto simp: timers_step_def timer_calls_def)
  ultimately show ?thesis using m t e1 e2
    by (cases ok) (auto simp: aeCreateTimeEvent_def Let_def)
qed

definition deletes :: "ae_cmd list \<Rightarrow> int set" where
  "deletes cs = {i. Delete_timer i \<in> set cs}"

lemma good_frame:
  "good c (l\<lparr>ae_log := lg\<rparr>, w) = good c (l, w)" "good c (l\<lparr>ae_stop := b\<rparr>, w) = good c (l, w)" "good c (l\<lparr>ae_before := p\<rparr>, w) = good c (l, w)"
  by (auto simp: good_def ae_inv_def)

lemma ae_exec_ok:
  assumes g: "good c s" and p: "cmd_ok cmd"
  shows "\<exists>s'. ae_exec cmd s = Ok s' \<and> good c s' \<and> same_env (snd s) (snd s') \<and> timers_step (deletes [cmd]) (fst s) (fst s')"
proof -
  obtain l w where s: "s = (l, w)" by fastforce
  show ?thesis
  proof (cases cmd)
    case (Create_file fd m q data)
    then show ?thesis using aeCreateFileEvent_ok [of c l w fd m q data] g p s by (fastforce simp: deletes_def)
  next
    case (Delete_file fd m)
    then show ?thesis using aeDeleteFileEvent_ok [of c l w fd m] g p s by (fastforce simp: deletes_def)
  next
    case (Create_timer ms q data fin)
    then show ?thesis using aeCreateTimeEvent_ok [of c l w q ms data fin] g p s by (fastforce simp: deletes_def)
  next
    case (Delete_timer i)
    then show ?thesis using aeDeleteTimeEvent_ok [of c l w i] g s by (fastforce simp: deletes_def)
  qed (use g s in \<open>simp_all add: good_frame aeStop_def aeSetBeforeSleepProc_def timers_step_def timer_calls_def\<close>)
qed

lemma ae_execs_ok:
  "good c s \<Longrightarrow> \<forall>cmd\<in>set cs. cmd_ok cmd \<Longrightarrow>
     \<exists>s'. ae_execs cs s = Ok s' \<and> good c s' \<and> same_env (snd s) (snd s') \<and> timers_step (deletes cs) (fst s) (fst s')"
proof (induction cs arbitrary: s)
  case Nil
  then show ?case by simp
next
  case (Cons cmd cs)
  obtain s1 where 1: "ae_exec cmd s = Ok s1" "good c s1" "same_env (snd s) (snd s1)" "timers_step (deletes [cmd]) (fst s) (fst s1)"
    using ae_exec_ok [OF Cons.prems(1), of cmd] Cons.prems(2) by auto
  obtain s2 where 2: "ae_execs cs s1 = Ok s2" "good c s2" "same_env (snd s1) (snd s2)" "timers_step (deletes cs) (fst s1) (fst s2)"
    using Cons.IH [OF 1(2)] Cons.prems(2) by auto
  have "deletes [cmd] \<union> deletes cs = deletes (cmd # cs)" by (auto simp: deletes_def)
  then show ?case using 1 2 timers_step_trans [OF 1(4) 2(4)] same_env_trans [OF 1(3) 2(3)] by auto
qed

end
