(* ===== verification/AeProps.thy ===== *)
theory AeProps
  imports AeSpec "HOL-Library.Product_Lexorder"
begin

text \<open>
  Properties of the event loop of src/Clang/aio/ae/ae.c: its reachable states, the processing
  of time events, and the time it waits.
\<close>

section \<open>Callbacks\<close>

text \<open>
  Callbacks register with a callback that is not NULL, a mask of the two events and a
  descriptor that is not negative. A time callback that asks to be called again has not deleted
  its own event.
\<close>

definition procs_ok :: "procs \<Rightarrow> bool" where
  "procs_ok pr \<longleftrightarrow> (\<forall>p l fd data m. \<forall>cmd\<in>set (pr_file pr p l fd data m). cmd_ok cmd) \<and>
     (\<forall>p l i data. \<forall>cmd\<in>set (fst (pr_time pr p l i data)). cmd_ok cmd) \<and>
     (\<forall>p l i data. snd (pr_time pr p l i data) = AE_NOMORE \<or> i \<notin> deletes (fst (pr_time pr p l i data))) \<and>
     (\<forall>p l. \<forall>cmd\<in>set (pr_before pr p l). cmd_ok cmd)"

lemma timer_calls_log: "timer_calls (l\<lparr>ae_log := ae_log l @ [c]\<rparr>) =
   timer_calls l @ (case c of Called_time p i data \<Rightarrow> [i] | _ \<Rightarrow> [])"
  by (simp add: timer_calls_def)

lemma call_file_ok:
  assumes g: "good c s" and p: "procs_ok pr" "q \<noteq> 0"
  shows "\<exists>s'. call_file pr q fd data m s = Ok s' \<and> good c s' \<and> same_env (snd s) (snd s') \<and>
    ae_fired (fst s') = ae_fired (fst s) \<and> ae_setsize (fst s') = ae_setsize (fst s)"
proof -
  obtain l w where s: "s = (l, w)" by fastforce
  let ?l = "log_call (Called_file q fd data m) l"
  have g1: "good c (?l, w)" using g s by (simp add: log_call_def good_frame)
  have c: "\<forall>cmd\<in>set (pr_file pr q ?l fd data m). cmd_ok cmd" using p by (simp add: procs_ok_def)
  from ae_execs_ok [OF g1 c] obtain s' where "ae_execs (pr_file pr q ?l fd data m) (?l, w) = Ok s'" "good c s'" "same_env w (snd s')"
    "timers_step (deletes (pr_file pr q ?l fd data m)) ?l (fst s')"
    by auto
  then show ?thesis using p(2) s by (auto simp: call_file_def Let_def timers_step_def log_call_def)
qed

text \<open>A time event that is called: what becomes of the list.\<close>

lemma fire_timer_ok:
  assumes g: "good c (l, w)" and p: "procs_ok pr" and t: "t \<in> set (ae_timers l)"
  shows "\<exists>l' w' w1 ll. fire_timer pr t (l, w) = Ok (l', w') \<and> good c (l', w') \<and> same_env w w' \<and> same_env w w1 \<and>
    ae_setsize l' = ae_setsize l \<and> ae_next_id l \<le> ae_next_id l' \<and> timer_calls l' = timer_calls l @ [te_id t] \<and>
    (\<forall>u\<in>set (ae_timers l'). te_id u \<noteq> te_id t \<longrightarrow> u \<in> set (ae_timers l) \<or> ae_next_id l \<le> te_id u) \<and>
    (\<forall>u\<in>set (ae_timers l'). te_id u = te_id t \<longrightarrow> snd (pr_time pr (te_proc t) ll (te_id t) (te_data t)) \<noteq> AE_NOMORE \<and>
       (te_sec u, te_ms u) = fst (aeAddMillisecondsToNow (snd (pr_time pr (te_proc t) ll (te_id t) (te_data t))) w1))"
proof -
  let ?i = "te_id t"
  let ?l = "log_call (Called_time (te_proc t) ?i (te_data t)) l"
  obtain cs r where pr: "pr_time pr (te_proc t) ?l ?i (te_data t) = (cs, r)" by fastforce
  have t0: "te_proc t \<noteq> 0" "?i < ae_next_id l" using goodE(1) [OF g] t by (auto simp: ae_inv_def)
  have c: "\<forall>cmd\<in>set cs. cmd_ok cmd" "r = AE_NOMORE \<or> ?i \<notin> deletes cs"
    using p pr unfolding procs_ok_def by (metis fst_conv, metis fst_conv snd_conv)
  have "good c (?l, w)" using g by (simp add: log_call_def good_frame)
  from ae_execs_ok [OF this c(1)] obtain l1 w1 where e: "ae_execs cs (?l, w) = Ok (l1, w1)" "good c (l1, w1)" "same_env w w1"
    "timers_step (deletes cs) ?l l1" by auto
  have call: "call_time pr (te_proc t) ?i (te_data t) (l, w) = Ok (r, (l1, w1))"
    using t0 pr e(1) by (simp add: call_time_def Let_def)
  have l1: "ae_setsize l1 = ae_setsize l" "ae_next_id l \<le> ae_next_id l1" "timer_calls l1 = timer_calls l @ [?i]"
    "\<forall>u\<in>set (ae_timers l1). u \<in> set (ae_timers l) \<or> ae_next_id l \<le> te_id u" "?i \<notin> deletes cs \<longrightarrow> t \<in> set (ae_timers l1)"
    using e(4) t by (auto simp: timers_step_def log_call_def timer_calls_log)
  show ?thesis
  proof (cases "r = AE_NOMORE")
    case True
    obtain rr l2 w2 where d: "aeDeleteTimeEvent l1 ?i w1 = ((rr, l2), w2)" "good c (l2, w2)" "same_env w1 w2"
      "timers_step {?i} l1 l2" "?i \<notin> te_id ` set (ae_timers l2)"
      using aeDeleteTimeEvent_ok [OF e(2), of ?i] by blast
    have "fire_timer pr t (l, w) = Ok (l2, w2)" using call True d(1) by (simp add: fire_timer_def Let_def)
    moreover have "\<forall>u\<in>set (ae_timers l2). te_id u \<noteq> ?i \<longrightarrow> u \<in> set (ae_timers l) \<or> ae_next_id l \<le> te_id u"
      using d(4) l1(2,4) by (auto simp: timers_step_def)
    moreover have "ae_setsize l2 = ae_setsize l" "ae_next_id l \<le> ae_next_id l2" "timer_calls l2 = timer_calls l @ [?i]"
      using d(4) l1 by (auto simp: timers_step_def)
    moreover have "\<forall>u\<in>set (ae_timers l2). te_id u \<noteq> ?i" using d(5) by (metis imageI)
    ultimately show ?thesis using d(2) same_env_trans [OF e(3) d(3)] by blast
  next
    case False
    obtain wh w2 where a: "aeAddMillisecondsToNow r w1 = (wh, w2)" by fastforce
    have e2: "same_env w1 w2" using same_env_add [of w1 r] a by simp
    let ?ts = "map (\<lambda>u. if te_id u = ?i then u\<lparr>te_sec := fst wh, te_ms := snd wh\<rparr> else u) (ae_timers l1)"
    have "?i \<in> te_id ` set (ae_timers l1)" using l1(5) c(2) False by blast
    then have "fire_timer pr t (l, w) = Ok (l1\<lparr>ae_timers := ?ts\<rparr>, w2)"
      using call False a by (simp add: fire_timer_def reschedule_def Let_def)
    moreover have "good c (l1\<lparr>ae_timers := ?ts\<rparr>, w2)"
    proof (rule good_env [OF e(2) e2])
      have "map te_id ?ts = map te_id (ae_timers l1)" by simp
      then show "ae_inv (l1\<lparr>ae_timers := ?ts\<rparr>)" using goodE(1) [OF e(2)] by (auto simp: ae_inv_def simp del: map_map)
    qed (use goodE(2) [OF e(2)] in simp_all)
    moreover have "\<forall>u\<in>set ?ts. te_id u \<noteq> ?i \<longrightarrow> u \<in> set (ae_timers l) \<or> ae_next_id l \<le> te_id u" using l1(4) by auto
    moreover have "\<forall>u\<in>set ?ts. te_id u = ?i \<longrightarrow> (te_sec u, te_ms u) = fst (aeAddMillisecondsToNow r w1)" using a by auto
    moreover have "timer_calls (l1\<lparr>ae_timers := ?ts\<rparr>) = timer_calls l @ [?i]" using l1(3) by (simp add: timer_calls_def)
    ultimately show ?thesis using False pr l1(1,2) e(3) same_env_trans [OF e(3) e2]
      by (intro exI [of _ "l1\<lparr>ae_timers := ?ts\<rparr>"] exI [of _ w2] exI [of _ w1] exI [of _ ?l]) simp
  qed
qed

section \<open>Processing is safe\<close>

lemma has_bits_and: "has_bits (a AND b) c \<Longrightarrow> has_bits a c"
proof -
  assume "has_bits (a AND b) c"
  moreover have "(a AND b) AND c = (a AND c) AND b" by (simp only: ac_simps)
  ultimately show ?thesis by (auto simp: has_bits_def)
qed

lemma good_tick: "good c (l, w) \<Longrightarrow> same_env w w' \<Longrightarrow> good c (l, w')"
  using good_same_api [of c l w w' l] goodE(1) [of c l w] by blast

lemma aeApiPoll_ok:
  assumes g: "good c (l, w)"
  shows "\<exists>n l' w'. aeApiPoll l w = Ok ((n, l'), w') \<and> good c (l', w') \<and> same_env w w' \<and> n \<le> length (ae_fired l') \<and>
    ae_setsize l' = ae_setsize l \<and> (\<forall>j<n. 0 \<le> fst (ae_fired l' ! j) \<and> fst (ae_fired l' ! j) < int (ae_setsize l))"
proof -
  note len = goodE(6,7) [OF g]
  have mx: "ae_maxfd l < int (ae_setsize l)"
    using goodE(1) [OF g] lower_maxfd_bounds(2) [of "ae_events l" "ae_setsize l"] by (simp add: ae_inv_def)
  have "fits_api (ae_api l) (length (ae_events l))" "strict (ae_api l) \<longrightarrow> no_fail w \<and> watches (ae_api l) (ae_events l)"
    using goodE(2,4,5) [OF g] len by simp_all
  from layer_poll [OF this(1) len mx goodE(3) [OF g] this(2)] obtain n a l' w' where
    r: "aeApiPoll l w = Ok ((n, l'), w')" "same_env w w'" "polled l a n l'" "fits_api a (ae_setsize l)" "strict a = strict (ae_api l)"
      "watches (ae_api l) (ae_events l) \<longrightarrow> watches a (ae_events l)"
    unfolding len by blast
  then obtain fs where l': "l' = l\<lparr>ae_fired := fs, ae_api := a\<rparr>" "length fs = length (ae_fired l)" "n \<le> length fs"
    "\<forall>j<n. 0 \<le> fst (fs ! j) \<and> fst (fs ! j) < int (length (ae_events l))"
    by (auto simp: polled_def)
  have "ae_inv l'" using goodE(1) [OF g] l'(1,2) len by (simp add: ae_inv_def)
  then have "good c (l', w')" by (rule good_env [OF g r(2)]) (use l'(1) r(4-6) in simp_all)
  then show ?thesis using r(1,2) l' len by auto
qed

lemma dispatch_ok:
  assumes g: "good c s" and p: "procs_ok pr" and fd: "0 \<le> fd" "fd < int (ae_setsize (fst s))"
  shows "\<exists>s'. dispatch pr (fd, m) s = Ok s' \<and> good c s' \<and> same_env (snd s) (snd s') \<and>
    ae_fired (fst s') = ae_fired (fst s) \<and> ae_setsize (fst s') = ae_setsize (fst s)"
proof -
  obtain l w where s: "s = (l, w)" by fastforce
  let ?fe = "ae_events l ! nat fd"
  have at: "fe_at l fd = Ok ?fe" "fe_ok ?fe" using ae_inv_at [of l fd] goodE(1) [of c l w] g fd s by simp_all
  let ?rd = "has_bits (fe_mask ?fe AND m) AE_READABLE"
  have "?rd \<Longrightarrow> fe_rproc ?fe \<noteq> 0" using at(2) has_bits_and by (auto simp: fe_ok_def)
  then obtain l1 w1 where 1: "(if ?rd then call_file pr (fe_rproc ?fe) fd (fe_data ?fe) m (l, w) else Ok (l, w)) = Ok (l1, w1)"
    "good c (l1, w1)" "same_env w w1" "ae_fired l1 = ae_fired l" "ae_setsize l1 = ae_setsize l"
    using call_file_ok [OF g p, of "fe_rproc ?fe" fd "fe_data ?fe" m] g s by (cases ?rd) auto
  let ?fe1 = "ae_events l1 ! nat fd"
  have at1: "fe_at l1 fd = Ok ?fe1" "fe_ok ?fe1" using ae_inv_at [OF goodE(1) [OF 1(2)], of fd] fd s 1(5) by simp_all
  let ?wr = "has_bits (fe_mask ?fe1 AND m) AE_WRITABLE \<and> (\<not> ?rd \<or> fe_wproc ?fe1 \<noteq> fe_rproc ?fe1)"
  have "?wr \<Longrightarrow> fe_wproc ?fe1 \<noteq> 0" using at1(2) has_bits_and [of "fe_mask ?fe1" m AE_WRITABLE] by (simp add: fe_ok_def)
  then obtain s2 where 2: "(if ?wr then call_file pr (fe_wproc ?fe1) fd (fe_data ?fe1) m (l1, w1) else Ok (l1, w1)) = Ok s2"
    "good c s2" "same_env w1 (snd s2)" "ae_fired (fst s2) = ae_fired l1" "ae_setsize (fst s2) = ae_setsize l1"
    using call_file_ok [OF 1(2) p, of "fe_wproc ?fe1" fd "fe_data ?fe1" m] 1(2) by (cases ?wr) auto
  have "dispatch pr (fd, m) s = Ok s2"
    using at(1) 1(1) at1(1) 2(1) s unfolding dispatch_def Let_def by simp
  then show ?thesis using 1 2 s same_env_trans by auto
qed

lemma dispatch_loop_ok:
  "good c s \<Longrightarrow> procs_ok pr \<Longrightarrow> j + n \<le> length (ae_fired (fst s)) \<Longrightarrow>
   (\<forall>i. j \<le> i \<and> i < j + n \<longrightarrow> 0 \<le> fst (ae_fired (fst s) ! i) \<and> fst (ae_fired (fst s) ! i) < int (ae_setsize (fst s))) \<Longrightarrow>
   \<exists>s'. dispatch_loop pr j n s = Ok s' \<and> good c s' \<and> same_env (snd s) (snd s') \<and> ae_setsize (fst s') = ae_setsize (fst s)"
proof (induction n arbitrary: j s)
  case 0
  then show ?case by (simp add: dispatch_loop.simps)
next
  case (Suc n)
  let ?e = "ae_fired (fst s) ! j"
  obtain s1 where 1: "dispatch pr ?e s = Ok s1" "good c s1" "same_env (snd s) (snd s1)"
    "ae_fired (fst s1) = ae_fired (fst s)" "ae_setsize (fst s1) = ae_setsize (fst s)"
    using dispatch_ok [OF Suc.prems(1,2), of "fst ?e" "snd ?e"] Suc.prems(4) by auto
  have "Suc j + n \<le> length (ae_fired (fst s1))"
    "\<forall>i. Suc j \<le> i \<and> i < Suc j + n \<longrightarrow> 0 \<le> fst (ae_fired (fst s1) ! i) \<and> fst (ae_fired (fst s1) ! i) < int (ae_setsize (fst s1))"
    using Suc.prems(3,4) 1(4,5) by auto
  from Suc.IH [OF 1(2) Suc.prems(2) this] obtain s2 where 2: "dispatch_loop pr (Suc j) n s1 = Ok s2" "good c s2"
    "same_env (snd s1) (snd s2)" "ae_setsize (fst s2) = ae_setsize (fst s1)" by blast
  have "j < length (ae_fired (fst s))" using Suc.prems(3) by simp
  then show ?case using 1 2 same_env_trans [OF 1(3) 2(3)] by (simp add: dispatch_loop.simps)
qed

lemma wait_time_env: "same_env w (snd (wait_time l flags w))"
  using same_env_time(1) [of w] by (auto simp: wait_time_def Let_def split_beta split: option.splits)

lemma processFileEvents_ok:
  assumes g: "good c s" and p: "procs_ok pr"
  shows "\<exists>k s'. processFileEvents pr flags s = Ok (k, s') \<and> good c s' \<and> same_env (snd s) (snd s')"
proof -
  obtain l w where s: "s = (l, w)" by fastforce
  obtain tvp w1 where w1: "wait_time l flags w = (tvp, w1)" by fastforce
  have e1: "same_env w w1" using wait_time_env [of w l flags] w1 by simp
  obtain n l2 w2 where 2: "aeApiPoll l w1 = Ok ((n, l2), w2)" "good c (l2, w2)" "same_env w1 w2" "n \<le> length (ae_fired l2)"
    "ae_setsize l2 = ae_setsize l" "\<forall>j<n. 0 \<le> fst (ae_fired l2 ! j) \<and> fst (ae_fired l2 ! j) < int (ae_setsize l)"
    using aeApiPoll_ok [OF good_tick [OF g [unfolded s] e1]] by blast
  obtain l3 w3 where 3: "dispatch_loop pr 0 n (l2, w2) = Ok (l3, w3)" "good c (l3, w3)" "same_env w2 w3"
    using dispatch_loop_ok [OF 2(2) p, of 0 n] 2(4,5,6) by auto
  show ?thesis
    using g s w1 2(1) 3 same_env_trans [OF e1 same_env_trans [OF 2(3) 3(3)]] by (auto simp: processFileEvents_def)
qed

text \<open>Processing that ends does so well.\<close>

definition fine :: "bool \<Rightarrow> ae_world \<Rightarrow> (nat \<times> loop_state) cres option \<Rightarrow> bool" where
  "fine c w r \<longleftrightarrow> (\<forall>x. r = Some x \<longrightarrow> (\<exists>k s'. x = Ok (k, s') \<and> good c s' \<and> same_env w (snd s')))"

lemma fine_env: "same_env w w' \<Longrightarrow> fine c w' r \<Longrightarrow> fine c w r"
  unfolding fine_def using same_env_trans by blast

lemma time_loop_ok:
  "good c s \<Longrightarrow> procs_ok pr \<Longrightarrow> set ts \<subseteq> set (ae_timers (fst s)) \<Longrightarrow> fine c (snd s) (time_loop fuel pr mx ts k s)"
proof (induction fuel arbitrary: ts k s)
  case 0
  then show ?case by (simp add: time_loop.simps fine_def)
next
  case (Suc fuel)
  obtain l w where s: "s = (l, w)" by fastforce
  show ?case
  proof (cases ts)
    case Nil
    then show ?thesis using Suc.prems(1) s by (simp add: time_loop.simps fine_def)
  next
    case (Cons t us)
    obtain now w1 where n: "aeGetTime w = (now, w1)" by fastforce
    have e1: "same_env w w1" using same_env_time(1) [of w] n by simp
    have g1: "good c (l, w1)" using good_tick [OF _ e1] Suc.prems(1) s by simp
    have t: "t \<in> set (ae_timers l)" "set us \<subseteq> set (ae_timers l)" using Suc.prems(3) Cons s by auto
    obtain l2 w2 where f: "fire_timer pr t (l, w1) = Ok (l2, w2)" "good c (l2, w2)" "same_env w1 w2"
      using fire_timer_ok [OF g1 Suc.prems(2) t(1)] by blast
    have "fine c w (time_loop fuel pr mx us k (l, w1))" "fine c w (time_loop fuel pr mx us k (l, w))"
      using Suc.IH [OF g1 Suc.prems(2), of us k] Suc.IH [OF Suc.prems(1,2), of us k] t(2) s fine_env [OF e1] by simp_all
    moreover have "fine c w (time_loop fuel pr mx (ae_timers l2) (k + 1) (l2, w2))"
      using Suc.IH [OF f(2) Suc.prems(2), of "ae_timers l2" "k + 1"] fine_env [OF same_env_trans [OF e1 f(3)]] by simp
    ultimately show ?thesis
      using Cons s n f(1) by (cases now) (simp add: time_loop.simps Let_def)
  qed
qed

lemma check_skew_good: "good c (l, w) \<Longrightarrow> good c (check_skew now l, w)"
proof -
  assume g: "good c (l, w)"
  have "(te_id :: time_event \<Rightarrow> int) \<circ> te_sec_update (\<lambda>_. 0) = te_id" by (simp add: fun_eq_iff)
  then have "ae_inv (check_skew now l)" using goodE(1) [OF g] by (auto simp: ae_inv_def check_skew_def Let_def)
  then show "good c (check_skew now l, w)"
    by (rule good_same_api [OF g same_env_refl]) (simp_all add: check_skew_def Let_def)
qed

lemma processTimeEvents_ok:
  assumes g: "good c s" and p: "procs_ok pr"
  shows "fine c (snd s) (processTimeEvents fuel pr s)"
proof -
  obtain l w where s: "s = (l, w)" by fastforce
  obtain now w1 where n: "time_now w = (now, w1)" by fastforce
  have e: "same_env w w1" using same_env_time(2) [of w] n by simp
  have "good c (check_skew now l, w1)" using check_skew_good good_tick [OF _ e] g s by blast
  from fine_env [OF e] time_loop_ok [OF this p, of "ae_timers (check_skew now l)" fuel _ 0] show ?thesis
    using s n by (simp add: processTimeEvents_def Let_def)
qed

lemma aeProcessEvents_ok:
  assumes g: "good c s" and p: "procs_ok pr"
  shows "fine c (snd s) (aeProcessEvents fuel pr flags s)"
proof -
  obtain k l' w' where f: "processFileEvents pr flags s = Ok (k, (l', w'))" "good c (l', w')" "same_env (snd s) w'"
    using processFileEvents_ok [OF g p, of flags] by (metis prod.collapse)
  have "fine c (snd s) (processTimeEvents fuel pr (l', w'))" using processTimeEvents_ok [OF f(2) p] fine_env [OF f(3)] by simp
  then have "fine c (snd s) (map_option (\<lambda>r. res_bind r (\<lambda>(j, s). Ok (k + j, s))) (processTimeEvents fuel pr (l', w')))"
    by (fastforce simp: fine_def)
  then show ?thesis using f g by (cases s) (auto simp: aeProcessEvents_def fine_def)
qed

section \<open>Reachable states\<close>

text \<open>
  The states of a program that creates a loop with a table of \<open>n\<close> descriptors, calls into it in
  any order, and processes events with any flags. \<open>x\<close> is the world it starts in.
\<close>

inductive ae_reach :: "backend \<Rightarrow> nat \<Rightarrow> procs \<Rightarrow> ae_world \<Rightarrow> loop_state \<Rightarrow> bool" for b n pr x where
  created: "aeCreateEventLoop b n x = (Some l, w) \<Longrightarrow> ae_reach b n pr x (l, w)"
| called: "ae_reach b n pr x s \<Longrightarrow> cmd_ok cmd \<Longrightarrow> ae_exec cmd s = Ok s' \<Longrightarrow> ae_reach b n pr x s'"
| processed: "ae_reach b n pr x s \<Longrightarrow> aeProcessEvents fuel pr flags s = Some (Ok (k, s')) \<Longrightarrow> ae_reach b n pr x s'"

lemma same_env_open: "open_poller w = (ok, w') \<Longrightarrow> same_env w w'"
  by (cases rule: ctl_fails_cases [of w]) (auto simp: open_poller_def)

text \<open>A poller is made by at most two allocations and a system call.\<close>

lemma same_env_create:
  "aeApiCreate b w = (r, w') \<Longrightarrow> same_env w w'"
proof -
  obtain k1 w1 where 1: "ae_zmalloc w = (k1, w1)" by fastforce
  obtain k2 w2 where 2: "ae_zmalloc w1 = (k2, w2)" by fastforce
  obtain k3 w3 where 3: "open_poller w2 = (k3, w3)" by fastforce
  obtain k4 w4 where 4: "open_poller w1 = (k4, w4)" by fastforce
  have e: "same_env w w1" "same_env w1 w2" "same_env w2 w3" "same_env w1 w4"
    using same_env_zmalloc(1) [of w] same_env_zmalloc(1) [of w1] 1 2 same_env_open [OF 3] same_env_open [OF 4] by simp_all
  have f: "same_env w (ae_zfree b u)" if "same_env w u" for b u using same_env_trans [OF that same_env_zmalloc(2)] .
  have "same_env w w2" "same_env w w3" "same_env w w4" using e same_env_trans by blast+
  then show "aeApiCreate b w = (r, w') \<Longrightarrow> same_env w w'"
    using 1 2 3 4 e(1) f
    by (cases b) (auto simp: aeApiCreate_def epollApiCreate_def selectApiCreate_def kqueueApiCreate_def evportApiCreate_def split: if_splits)
qed

lemma aeApiCreate_empty:
  assumes "aeApiCreate b w = (Some a, w')" "\<And>fd. mask_of evs fd = 0" "b = Use_select \<longrightarrow> n \<le> FD_SETSIZE"
  shows "fits_api a n" "watches a evs" "strict a \<longleftrightarrow> b = Use_evport"
  using assms
  by (cases b; auto simp: aeApiCreate_def epollApiCreate_def selectApiCreate_def kqueueApiCreate_def evportApiCreate_def layer_simps Let_def
      epoll_tracks_def select_tracks_def kqueue_tracks_def evport_tracks_def epoll_want_def port_want_def AE_NONE_def select_fits_def evport_fits_def
      split: if_splits prod.splits)+

lemma lower_maxfd_none: "(\<And>i. i < n \<Longrightarrow> fe_mask (evs ! i) = AE_NONE) \<Longrightarrow> lower_maxfd evs n = -1"
  by (induction n) auto

lemma create_good:
  assumes c: "aeCreateEventLoop b n x = (Some l, w)" and r: "replies_ok n x" and s: "b = Use_select \<longrightarrow> n \<le> FD_SETSIZE"
    and e: "b = Use_evport \<longrightarrow> no_fail x"
  shows "good (no_fail x) (l, w)"
proof -
  obtain k1 w1 where 1: "ae_zmalloc x = (k1, w1)" by fastforce
  obtain k2 w2 where 2: "ae_zmalloc w1 = (k2, w2)" by fastforce
  obtain k3 w3 where 3: "ae_zmalloc w2 = (k3, w3)" by fastforce
  obtain now w4 where 4: "time_now w3 = (now, w4)" by fastforce
  obtain a w5 where 5: "aeApiCreate b w4 = (a, w5)" by fastforce
  let ?evs = "replicate n \<lparr>fe_mask = AE_NONE, fe_rproc = 0, fe_wproc = 0, fe_data = 0\<rparr>"
  obtain a' where l: "a = Some a'" "w = w5" "l = \<lparr>ae_maxfd = -1, ae_setsize = n, ae_next_id = 0, ae_last = now,
     ae_events = ?evs, ae_fired = replicate n (0, 0), ae_timers = [], ae_stop = False, ae_api = a', ae_before = 0, ae_log = []\<rparr>"
    using c 1 2 3 4 5 by (auto simp: aeCreateEventLoop_def Let_def split: if_splits option.splits)
  have "same_env x w1" "same_env w1 w2" "same_env w2 w3" "same_env w3 w4"
    using same_env_zmalloc(1) [of x] same_env_zmalloc(1) [of w1] same_env_zmalloc(1) [of w2] same_env_time(2) [of w3] 1 2 3 4 by simp_all
  then have e': "same_env x w" using same_env_create [OF 5] l(2) same_env_trans by metis
  have m0: "mask_of ?evs fd = 0" for fd by (simp add: mask_of_def AE_NONE_def)
  have "ae_inv l" using l(3) lower_maxfd_none [of n ?evs] by (simp add: ae_inv_def fe_ok_def AE_NONE_def)
  then show "good (no_fail x) (l, w)"
    using aeApiCreate_empty [OF 5 [unfolded l(1)] m0 s] l(3) no_fail_env [OF e'] replies_env [OF e' r] e by (auto simp: good_def)
qed

lemma reach_good:
  assumes "ae_reach b n pr x s" "procs_ok pr" "replies_ok n x" "b = Use_select \<longrightarrow> n \<le> FD_SETSIZE" "b = Use_evport \<longrightarrow> no_fail x"
  shows "good (no_fail x) s"
  using assms
proof (induction rule: ae_reach.induct)
  case (created l w)
  then show ?case using create_good by blast
next
  case (called s cmd s')
  then show ?case using ae_exec_ok [of _ s cmd] by fastforce
next
  case (processed s fuel flags k s')
  then show ?case using aeProcessEvents_ok [of _ s pr fuel flags] by (fastforce simp: fine_def)
qed

section \<open>Time events\<close>









definition intervals_beyond :: "int \<Rightarrow> procs \<Rightarrow> bool" where
  "intervals_beyond d pr \<longleftrightarrow> (\<forall>p l i data. snd (pr_time pr p l i data) = AE_NOMORE \<or> d < snd (pr_time pr p l i data))"








section \<open>Properties\<close>

text \<open>
  C2. With each of the four polling layers, in every state a program can reach by creating a loop, registering and deleting
  file and time events and processing events, with callbacks that do the same, any replies of the system and any
  refused memory: no call into the loop faults and processing never faults; the table is in order, the
  highest descriptor is the highest one registered, and if no system call that registers fails the polling layer
  watches exactly what is registered. The calls and callbacks are those of \<open>cmd_ok\<close> and \<open>procs_ok\<close>: descriptors are not
  negative, callbacks not NULL, masks not empty, and no time callback deletes its own event and asks for an interval
  too; the lemmas \<open>negative_descriptor_faults\<close> and \<open>self_deleting_timer_faults\<close> below show that the code has undefined
  behaviour otherwise. A table for \<open>select\<close> has at most FD_SETSIZE entries. The layer of event ports aborts when a system
  call fails, so for it none may.
\<close>

theorem ae_reachable_safe:
  assumes "ae_reach b n pr x s" "procs_ok pr" "replies_ok n x" "b = Use_select \<longrightarrow> n \<le> FD_SETSIZE" "b = Use_evport \<longrightarrow> no_fail x"
  shows "ae_inv (fst s) \<and> (no_fail x \<longrightarrow> watches (ae_api (fst s)) (ae_events (fst s))) \<and>
    (\<forall>cmd. cmd_ok cmd \<longrightarrow> (\<exists>s'. ae_exec cmd s = Ok s')) \<and> (\<forall>fuel flags e. aeProcessEvents fuel pr flags s \<noteq> Some (Err e))"
proof -
  have g: "good (no_fail x) s" using reach_good [OF assms] .
  then have "ae_inv (fst s)" "no_fail x \<longrightarrow> watches (ae_api (fst s)) (ae_events (fst s))"
    by (auto simp: good_def split_beta)
  moreover have "aeProcessEvents fuel pr flags s \<noteq> Some (Err e)" for fuel flags e
    using aeProcessEvents_ok [OF g assms(2), of fuel flags] by (auto simp: fine_def)
  ultimately show ?thesis using ae_exec_ok [OF g] by blast
qed

definition silent_procs :: procs where
  "silent_procs = \<lparr>pr_file = (\<lambda>_ _ _ _ _. []), pr_time = (\<lambda>_ _ _ _. ([], 5)), pr_before = (\<lambda>_ _. [])\<rparr>"

definition calm_ae :: ae_world where
  "calm_ae = \<lparr>oom_script = [], junk = (\<lambda>_. NUL), aw_clock = (\<lambda>_. (100, 250)), aw_tick = 0, aw_live = 0, aw_ctl = [], aw_wait = [Some [(3, EPOLLIN)]]\<rparr>"

lemma silent_procs_ok: "procs_ok silent_procs" "d < 5 \<Longrightarrow> intervals_beyond d silent_procs"
  by (simp_all add: procs_ok_def silent_procs_def deletes_def intervals_beyond_def)

definition fresh_loop :: ae_loop where
  "fresh_loop = \<lparr>ae_maxfd = -1, ae_setsize = 8, ae_next_id = 0, ae_last = 100,
     ae_events = replicate 8 \<lparr>fe_mask = AE_NONE, fe_rproc = 0, fe_wproc = 0, fe_data = 0\<rparr>,
     ae_fired = replicate 8 (0, 0), ae_timers = [], ae_stop = False, ae_api = Epoll \<lparr>ep_interest = (\<lambda>_. None)\<rparr>, ae_before = 0, ae_log = []\<rparr>"

definition created_world :: ae_world where
  "created_world = calm_ae\<lparr>aw_live := 5, aw_tick := 1\<rparr>"

lemma fresh_loop_reached: "ae_reach Use_epoll 8 pr calm_ae (fresh_loop, created_world)"
  by (rule ae_reach.created)
    (simp add: aeCreateEventLoop_def aeApiCreate_def epollApiCreate_def open_poller_def ctl_fails_def ae_zmalloc_def malloc_def time_now_def
      calm_ae_def fresh_loop_def created_world_def Let_def)

lemma ae_reachable_safe_witness:
  "ae_inv fresh_loop \<and> watches (ae_api fresh_loop) (ae_events fresh_loop) \<and>
     (\<exists>s'. ae_exec (Create_file 3 AE_READABLE 1 0) (fresh_loop, created_world) = Ok s')"
proof -
  have "replies_ok 8 calm_ae" "no_fail calm_ae" by (simp_all add: replies_ok_def no_fail_def calm_ae_def)
  moreover have "cmd_ok (Create_file 3 AE_READABLE 1 0)" by (simp add: AE_READABLE_def)
  ultimately show ?thesis
    using ae_reachable_safe [OF fresh_loop_reached [of silent_procs] silent_procs_ok(1)] unfolding fst_conv by blast
qed

text \<open>Outside these conditions: a negative descriptor is an index before the table, and a callback that deletes its own
  event and asks for an interval makes the loop write to the freed event.\<close>

lemma negative_descriptor_faults:
  assumes "fd < 0"
  shows "aeDeleteFileEvent l fd m w = Err Fault" "aeGetFileEvents l fd = Err Fault"
    and "ae_api l = Epoll e \<Longrightarrow> aeCreateFileEvent l fd m p data w = Err Fault"
proof -
  have f: "fe_at l fd = Err Fault" "\<not> int (ae_setsize l) \<le> fd" using assms by (simp_all add: fe_at_def)
  then show "aeDeleteFileEvent l fd m w = Err Fault" "aeGetFileEvents l fd = Err Fault"
    by (simp_all add: aeDeleteFileEvent_def aeGetFileEvents_def)
  show "ae_api l = Epoll e \<Longrightarrow> aeCreateFileEvent l fd m p data w = Err Fault"
    using f by (simp add: aeCreateFileEvent_def aeApiAddEvent_def epollApiAddEvent_def)
qed

lemma self_deleting_timer_faults:
  assumes "good c (l, w)" "t \<in> set (ae_timers l)" "r \<noteq> AE_NOMORE"
    and "\<And>ll. pr_time pr (te_proc t) ll (te_id t) (te_data t) = ([Delete_timer (te_id t)], r)"
  shows "fire_timer pr t (l, w) = Err Fault"
proof -
  let ?l = "log_call (Called_time (te_proc t) (te_id t) (te_data t)) l"
  have "good c (?l, w)" using assms(1) by (simp add: log_call_def good_frame)
  then obtain rr l1 w1 where d: "aeDeleteTimeEvent ?l (te_id t) w = ((rr, l1), w1)" "te_id t \<notin> te_id ` set (ae_timers l1)"
    using aeDeleteTimeEvent_ok [of c ?l w "te_id t"] by blast
  have "te_proc t \<noteq> 0" using goodE(1) [OF assms(1)] assms(2) by (simp add: ae_inv_def)
  then have "call_time pr (te_proc t) (te_id t) (te_data t) (l, w) = Ok (r, (l1, w1))"
    using d(1) by (simp add: call_time_def assms(4) Let_def)
  then show ?thesis
    using assms(3) d(2) by (simp add: fire_timer_def reschedule_def Let_def split_beta)
qed


definition due_loop :: ae_loop where
  "due_loop = fresh_loop\<lparr>ae_next_id := 1,
     ae_timers := [\<lparr>te_id = 0, te_sec = 100, te_ms = 250, te_proc = 1, te_fin = 0, te_data = 0\<rparr>]\<rparr>"





text \<open>The nearest timer is a least one in the order of deadlines.\<close>

lemma earlier_less: "earlier a b \<longleftrightarrow> (te_sec a, te_ms a) < (te_sec b, te_ms b)"
  by (auto simp: earlier_def less_prod_def)

lemma nearest_loop_least:
  "nearest_loop ts (Some n) = Some t \<Longrightarrow> t \<in> insert n (set ts) \<and> (\<forall>u\<in>insert n (set ts). (te_sec t, te_ms t) \<le> (te_sec u, te_ms u))"
proof (induction ts arbitrary: n)
  case (Cons a ts)
  define m where "m = (if earlier a n then a else n)"
  have t: "t \<in> insert m (set ts)" "\<forall>u\<in>insert m (set ts). (te_sec t, te_ms t) \<le> (te_sec u, te_ms u)"
    using Cons by (auto simp: m_def split: if_splits)
  have m: "(te_sec m, te_ms m) \<le> (te_sec a, te_ms a)" "(te_sec m, te_ms m) \<le> (te_sec n, te_ms n)"
    by (auto simp: m_def earlier_def less_eq_prod_def)
  have "t \<in> insert n (set (a # ts))" using t(1) by (auto simp: m_def split: if_splits)
  moreover have "(te_sec t, te_ms t) \<le> (te_sec u, te_ms u)" if "u \<in> insert n (set (a # ts))" for u
    using that t(2) order_trans [OF bspec [OF t(2) insertI1] m(1)] order_trans [OF bspec [OF t(2) insertI1] m(2)] by fastforce
  ultimately show ?case by blast
qed simp

lemma nearest_loop_Some: "\<exists>t. nearest_loop ts (Some n) = Some t"
  by (induction ts arbitrary: n) auto

lemma aeSearchNearestTimer_least:
  assumes "ae_timers l \<noteq> []"
  obtains t where "aeSearchNearestTimer l = Some t" "t \<in> set (ae_timers l)"
    "\<forall>u\<in>set (ae_timers l). (te_sec t, te_ms t) \<le> (te_sec u, te_ms u)"
proof -
  obtain n ts where n: "ae_timers l = n # ts" using assms by (cases "ae_timers l") auto
  obtain t where t: "nearest_loop ts (Some n) = Some t" using nearest_loop_Some by blast
  from nearest_loop_least [OF t] t n show thesis by (intro that [of t]) (simp_all add: aeSearchNearestTimer_def)
qed

text \<open>
  C38. The loop waits for a timer that no other one precedes. If it is not overdue and less than 2^31 milliseconds
  away, the timeout \<open>epoll_wait\<close> is given is exactly the time that is left, in milliseconds; beyond, what is left is
  truncated to an int, and from 2^31 up to 2^32 milliseconds it is negative, which waits for ever. If it is overdue, the
  timeout is not zero but what is left of a second: a timer that is one millisecond late waits for 999 more.
\<close>

theorem ae_wait_time_exact:
  assumes "ae_timers l \<noteq> []" "has_bits flags AE_TIME_EVENTS" "\<not> has_bits flags AE_DONT_WAIT"
    and "aw_clock w (aw_tick w) = (ns, nm)" "0 \<le> nm" "nm < 1000" "\<forall>t\<in>set (ae_timers l). 0 \<le> te_ms t \<and> te_ms t < 1000"
  shows "\<exists>t\<in>set (ae_timers l). (\<forall>u\<in>set (ae_timers l). (te_sec t, te_ms t) \<le> (te_sec u, te_ms u)) \<and>
    (let left = (te_sec t * 1000 + te_ms t) - (ns * 1000 + nm); timeout = epoll_timeout (fst (wait_time l flags w)) in
     if (te_sec t, te_ms t) < (ns, nm) then timeout = (te_ms t - nm) mod 1000
     else timeout = to_s32 left \<and> (left < 2 ^ 31 \<longrightarrow> timeout = left) \<and> (2 ^ 31 \<le> left \<and> left < 2 ^ 32 \<longrightarrow> timeout < 0))"
proof -
  obtain t where t: "aeSearchNearestTimer l = Some t" "t \<in> set (ae_timers l)"
    "\<forall>u\<in>set (ae_timers l). (te_sec t, te_ms t) \<le> (te_sec u, te_ms u)"
    using aeSearchNearestTimer_least [OF assms(1)] by metis
  have m: "0 \<le> te_ms t" "te_ms t < 1000" using assms(7) t(2) by simp_all
  define left where "left = (te_sec t * 1000 + te_ms t) - (ns * 1000 + nm)"
  have w: "fst (wait_time l flags w) = Some (timer_timeout t (ns, nm))"
    using t(1) assms(2-4) by (simp add: wait_time_def aeGetTime_def)
  have late: "epoll_timeout (Some (timer_timeout t (ns, nm))) = (te_ms t - nm) mod 1000" if "(te_sec t, te_ms t) < (ns, nm)"
  proof (cases "te_ms t < nm")
    case True
    have "(te_ms t - nm) mod 1000 = (te_ms t - nm + 1000) mod 1000" by simp
    also have "\<dots> = te_ms t - nm + 1000" using True m assms(5,6) by (intro mod_pos_pos_trivial) auto
    finally show ?thesis using True m assms(5,6) that
      by (auto simp: epoll_timeout_def timer_timeout_def cdiv_def less_prod_def to_s32_id)
  next
    case False
    have "(te_ms t - nm) mod 1000 = te_ms t - nm" using False m assms(5,6) by (intro mod_pos_pos_trivial) auto
    then show ?thesis using False m assms(5,6) that
      by (auto simp: epoll_timeout_def timer_timeout_def cdiv_def less_prod_def to_s32_id)
  qed
  have early: "epoll_timeout (Some (timer_timeout t (ns, nm))) = to_s32 left \<and> 0 \<le> left" if "\<not> (te_sec t, te_ms t) < (ns, nm)"
  proof (cases "te_ms t < nm")
    case True
    then have "ns < te_sec t" using that by (auto simp: less_prod_def)
    then have tt: "timer_timeout t (ns, nm) = (te_sec t - ns - 1, (te_ms t + 1000 - nm) * 1000)"
      using True m assms(5,6) by (simp add: timer_timeout_def)
    have "cdiv ((te_ms t + 1000 - nm) * 1000) 1000 = te_ms t + 1000 - nm" using m assms(5,6) by (simp add: cdiv_def)
    then have "epoll_timeout (Some (timer_timeout t (ns, nm))) = to_s32 ((te_sec t - ns - 1) * 1000 + (te_ms t + 1000 - nm))"
      by (simp add: epoll_timeout_def tt)
    also have "(te_sec t - ns - 1) * 1000 + (te_ms t + 1000 - nm) = left" by (simp add: left_def algebra_simps)
    finally show ?thesis using \<open>ns < te_sec t\<close> m assms(5,6) by (simp add: left_def)
  next
    case False
    then have "ns \<le> te_sec t" using that by (auto simp: less_prod_def)
    then have tt: "timer_timeout t (ns, nm) = (te_sec t - ns, (te_ms t - nm) * 1000)"
      using False m assms(5,6) by (simp add: timer_timeout_def)
    have "cdiv ((te_ms t - nm) * 1000) 1000 = te_ms t - nm" using False by (simp add: cdiv_def)
    then have "epoll_timeout (Some (timer_timeout t (ns, nm))) = to_s32 ((te_sec t - ns) * 1000 + (te_ms t - nm))"
      by (simp add: epoll_timeout_def tt)
    also have "(te_sec t - ns) * 1000 + (te_ms t - nm) = left" by (simp add: left_def algebra_simps)
    finally show ?thesis using \<open>ns \<le> te_sec t\<close> False by (simp add: left_def)
  qed
  have trunc: "left < 2 ^ 31 \<longrightarrow> to_s32 left = left" "2 ^ 31 \<le> left \<and> left < 2 ^ 32 \<longrightarrow> to_s32 left < 0" if "0 \<le> left"
  proof -
    show "left < 2 ^ 31 \<longrightarrow> to_s32 left = left" using that by (simp add: to_s32_id)
    have "(left + 2147483648) mod 4294967296 = left - 2147483648" if "2147483648 \<le> left" "left < 4294967296"
    proof -
      have "left + 2147483648 = (left - 2147483648) + 1 * 4294967296" by simp
      then have "(left + 2147483648) mod 4294967296 = (left - 2147483648) mod 4294967296" by (metis mod_mult_self1)
      then show ?thesis using that by simp
    qed
    then show "2 ^ 31 \<le> left \<and> left < 2 ^ 32 \<longrightarrow> to_s32 left < 0" by (auto simp: to_s32_def)
  qed
  have "if (te_sec t, te_ms t) < (ns, nm) then epoll_timeout (fst (wait_time l flags w)) = (te_ms t - nm) mod 1000
     else epoll_timeout (fst (wait_time l flags w)) = to_s32 left \<and> (left < 2 ^ 31 \<longrightarrow> epoll_timeout (fst (wait_time l flags w)) = left) \<and>
       (2 ^ 31 \<le> left \<and> left < 2 ^ 32 \<longrightarrow> epoll_timeout (fst (wait_time l flags w)) < 0)"
  proof (cases "(te_sec t, te_ms t) < (ns, nm)")
    case True
    then show ?thesis using late by (simp add: w)
  next
    case False
    show ?thesis unfolding w conjunct1 [OF early [OF False]] if_not_P [OF False] using trunc [OF conjunct2 [OF early [OF False]]] by blast
  qed
  with t(3) show ?thesis unfolding left_def by (intro bexI [OF _ t(2)]) (simp only: Let_def simp_thms)
qed

text \<open>A timer that is a millisecond late, and one that is 25 days away.\<close>

definition far_loop :: ae_loop where
  "far_loop = due_loop\<lparr>ae_timers := [\<lparr>te_id = 0, te_sec = 2160100, te_ms = 250, te_proc = 1, te_fin = 0, te_data = 0\<rparr>]\<rparr>"

lemma ae_wait_time_exact_witness:
  "epoll_timeout (fst (wait_time due_loop AE_ALL_EVENTS (calm_ae\<lparr>aw_clock := (\<lambda>_. (100, 251))\<rparr>))) = 999 \<and>
   epoll_timeout (fst (wait_time far_loop AE_ALL_EVENTS calm_ae)) < 0"
proof
  have flags: "has_bits AE_ALL_EVENTS AE_TIME_EVENTS" "\<not> has_bits AE_ALL_EVENTS AE_DONT_WAIT"
    by (simp_all add: has_bits_def AE_ALL_EVENTS_def AE_FILE_EVENTS_def AE_TIME_EVENTS_def AE_DONT_WAIT_def)
  show "epoll_timeout (fst (wait_time due_loop AE_ALL_EVENTS (calm_ae\<lparr>aw_clock := (\<lambda>_. (100, 251))\<rparr>))) = 999"
    using ae_wait_time_exact [OF _ flags, of due_loop "calm_ae\<lparr>aw_clock := (\<lambda>_. (100, 251))\<rparr>" 100 251]
    by (simp add: due_loop_def Let_def)
  show "epoll_timeout (fst (wait_time far_loop AE_ALL_EVENTS calm_ae)) < 0"
    using ae_wait_time_exact [OF _ flags, of far_loop calm_ae 100 250]
    by (simp add: far_loop_def calm_ae_def Let_def)
qed

end
