(* ===== verification/Rtp.thy ===== *)
theory Rtp
  imports CMem "HOL-Library.Word" "HOL-Library.Signed_Division"
begin

unbundle bit_operations_syntax

text \<open>
  H.264 over RTP, src/Clang/media/h264_to_rtp: the sender of send_h264file_rtp.c, which cuts a
  file into NAL units and makes packets of them, and the receiver of test_decode_rtp2h264.c.
  Each call of \<open>deal_func\<close> is logged with the \<open>len_sendbuf\<close> bytes of the send buffer that have
  been prepared for it. A file is the list of the bytes that are left of it.
\<close>

type_synonym uint8 = "8 word"

definition RTP_PAYLOAD_MAX_SIZE :: nat where "RTP_PAYLOAD_MAX_SIZE = 1400"
definition SEND_BUF_SIZE :: nat where "SEND_BUF_SIZE = 1500"
definition NAL_BUF_SIZE :: nat where "NAL_BUF_SIZE = 1500 * 100"
definition SSRC_NUM :: "32 word" where "SSRC_NUM = 10"
definition H264 :: uint8 where "H264 = 96"

section \<open>Headers\<close>

record rtp_header =
  csrc_len :: uint8
  extension :: uint8
  padding :: uint8
  version :: uint8
  payload_type :: uint8
  marker :: uint8
  seq_no :: "16 word"
  timestamp :: "32 word"
  ssrc :: "32 word"

text \<open>\<open>htons\<close> and \<open>htonl\<close> put the most significant byte first.\<close>

definition htons_bytes :: "16 word \<Rightarrow> uint8 list" where
  "htons_bytes x = [ucast (drop_bit 8 x), ucast x]"

definition htonl_bytes :: "32 word \<Rightarrow> uint8 list" where
  "htonl_bytes x = [ucast (drop_bit 24 x), ucast (drop_bit 16 x), ucast (drop_bit 8 x), ucast x]"

definition rtp_header_bytes :: "rtp_header \<Rightarrow> uint8 list" where
  "rtp_header_bytes h =
     [csrc_len h OR push_bit 4 (extension h) OR push_bit 5 (padding h) OR push_bit 6 (version h),
      payload_type h OR push_bit 7 (marker h)]
     @ htons_bytes (seq_no h) @ htonl_bytes (timestamp h) @ htonl_bytes (ssrc h)"

record nalu_header =
  nh_type :: uint8
  nh_nri :: uint8
  nh_f :: uint8

definition nalu_header_byte :: "nalu_header \<Rightarrow> uint8" where
  "nalu_header_byte h = nh_type h OR push_bit 5 (nh_nri h) OR push_bit 7 (nh_f h)"

definition get_nalu_header :: "uint8 \<Rightarrow> nalu_header" where
  "get_nalu_header b = \<lparr>nh_type = b AND 0x1f, nh_nri = drop_bit 5 b AND 3, nh_f = drop_bit 7 b AND 1\<rparr>"

record fu_header =
  fh_type :: uint8
  fh_r :: uint8
  fh_e :: uint8
  fh_s :: uint8

definition fu_header_byte :: "fu_header \<Rightarrow> uint8" where
  "fu_header_byte h = fh_type h OR push_bit 5 (fh_r h) OR push_bit 6 (fh_e h) OR push_bit 7 (fh_s h)"

definition get_fu_header :: "uint8 \<Rightarrow> fu_header" where
  "get_fu_header b = \<lparr>fh_type = b AND 0x1f, fh_r = drop_bit 5 b AND 1, fh_e = drop_bit 6 b AND 1, fh_s = drop_bit 7 b AND 1\<rparr>"

section \<open>Sending a NAL unit\<close>

record sender =
  ts_current :: "32 word"
  seq_num :: "16 word"
  SENDBUFFER :: "uint8 list"
  dealt :: "uint8 list list"

definition deal_func :: "nat \<Rightarrow> sender \<Rightarrow> sender" where
  "deal_func len s = s\<lparr>dealt := dealt s @ [take len (SENDBUFFER s)]\<rparr>"

text \<open>The buffer is cleared and the RTP header written. \<open>UINT16_MAX\<close> is 65535.\<close>

definition set_rtp_header :: "uint8 \<Rightarrow> sender \<Rightarrow> sender cres" where
  "set_rtp_header mark s =
     res_bind (memset (SENDBUFFER s) 0 0 SEND_BUF_SIZE) (\<lambda>b.
     let seq = seq_num s + 1;
         h = \<lparr>csrc_len = 0, extension = 0, padding = 0, version = 2, payload_type = H264, marker = mark,
              seq_no = word_of_int (uint seq mod 65535), timestamp = ts_current s, ssrc = SSRC_NUM\<rparr> in
     res_bind (memcpy b 0 (rtp_header_bytes h) 12) (\<lambda>b. Ok (s\<lparr>seq_num := seq, SENDBUFFER := b\<rparr>)))"

text \<open>A NAL unit that fits a packet; the marker is left at 0.\<close>

definition send_single :: "uint8 list \<Rightarrow> nat \<Rightarrow> sender \<Rightarrow> sender cres" where
  "send_single nalu_buf nalu_len s =
     res_bind (set_rtp_header 0 s) (\<lambda>s.
     res_bind (load nalu_buf 0) (\<lambda>n.
     let hdr = \<lparr>nh_type = n AND 0x1f, nh_nri = drop_bit 5 (n AND 0x60), nh_f = drop_bit 7 (n AND 0x80)\<rparr> in
     res_bind (store (SENDBUFFER s) 12 (nalu_header_byte hdr)) (\<lambda>b.
     res_bind (memcpy b 13 (drop 1 nalu_buf) (nalu_len - 1)) (\<lambda>b.
     Ok (deal_func (12 + nalu_len) (s\<lparr>SENDBUFFER := b\<rparr>))))))"

text \<open>A fragment: its marker and bits, and \<open>n\<close> bytes of the unit from \<open>off\<close>.\<close>

definition put_fu :: "uint8 \<Rightarrow> uint8 \<Rightarrow> uint8 \<Rightarrow> uint8 list \<Rightarrow> nat \<Rightarrow> nat \<Rightarrow> sender \<Rightarrow> sender cres" where
  "put_fu mark sbit ebit nalu_buf off n s =
     res_bind (set_rtp_header mark s) (\<lambda>s.
     res_bind (load nalu_buf 0) (\<lambda>c.
     let ind = \<lparr>nh_type = 28, nh_nri = drop_bit 5 (c AND 0x60), nh_f = drop_bit 7 (c AND 0x80)\<rparr>;
         hdr = \<lparr>fh_type = c AND 0x1f, fh_r = 0, fh_e = ebit, fh_s = sbit\<rparr> in
     res_bind (store (SENDBUFFER s) 12 (nalu_header_byte ind)) (\<lambda>b.
     res_bind (store b 13 (fu_header_byte hdr)) (\<lambda>b.
     res_bind (memcpy b 14 (drop off nalu_buf) n) (\<lambda>b.
     Ok (deal_func (12 + 2 + n) (s\<lparr>SENDBUFFER := b\<rparr>)))))))"

definition send_fu :: "uint8 list \<Rightarrow> nat \<Rightarrow> nat \<Rightarrow> nat \<Rightarrow> sender \<Rightarrow> sender cres" where
  "send_fu nalu_buf fu_pack_num last_fu_pack_size fu_seq s =
     (if fu_seq = 0 then put_fu 0 1 0 nalu_buf 1 (RTP_PAYLOAD_MAX_SIZE - 1) s
      else if fu_seq < fu_pack_num - 1 then put_fu 0 0 0 nalu_buf (RTP_PAYLOAD_MAX_SIZE * fu_seq) RTP_PAYLOAD_MAX_SIZE s
      else put_fu 1 0 1 nalu_buf (RTP_PAYLOAD_MAX_SIZE * fu_seq) last_fu_pack_size s)"

fun fu_loop :: "uint8 list \<Rightarrow> nat \<Rightarrow> nat \<Rightarrow> nat \<Rightarrow> nat \<Rightarrow> sender \<Rightarrow> sender cres" where
  "fu_loop nalu_buf num last_size fu_seq 0 s = Ok s"
| "fu_loop nalu_buf num last_size fu_seq (Suc n) s =
     res_bind (send_fu nalu_buf num last_size fu_seq s) (fu_loop nalu_buf num last_size (Suc fu_seq) n)"

definition fu_pack_num :: "nat \<Rightarrow> nat" where
  "fu_pack_num len = (if len mod RTP_PAYLOAD_MAX_SIZE \<noteq> 0 then len div RTP_PAYLOAD_MAX_SIZE + 1 else len div RTP_PAYLOAD_MAX_SIZE)"

definition last_fu_pack_size :: "nat \<Rightarrow> nat" where
  "last_fu_pack_size len = (if len mod RTP_PAYLOAD_MAX_SIZE \<noteq> 0 then len mod RTP_PAYLOAD_MAX_SIZE else RTP_PAYLOAD_MAX_SIZE)"

definition h264naltortp_send :: "int \<Rightarrow> uint8 list \<Rightarrow> int \<Rightarrow> sender \<Rightarrow> (int \<times> sender) cres" where
  "h264naltortp_send framerate nalu_buf nalu_len s =
     (if framerate = 0 then Err Fault
      else let s = s\<lparr>ts_current := ts_current s + word_of_int (90000 sdiv framerate)\<rparr> in
      if nalu_len < 1 then Ok (-1, s)
      else res_bind (if nalu_len \<le> int RTP_PAYLOAD_MAX_SIZE then send_single nalu_buf (nat nalu_len) s
                     else fu_loop nalu_buf (fu_pack_num (nat nalu_len)) (last_fu_pack_size (nat nalu_len)) 0 (fu_pack_num (nat nalu_len)) s)
             (\<lambda>s. Ok (0, s)))"

section \<open>Cutting a file into NAL units\<close>

definition push :: "uint8 list \<Rightarrow> uint8 list \<Rightarrow> uint8 list cres" where
  "push buf xs = (if length buf + length xs \<le> NAL_BUF_SIZE then Ok (buf @ xs) else Err Fault)"

text \<open>The loop over the file; \<open>flag\<close> counts the zero bytes just read. \<open>None\<close> is the end of the file.\<close>

fun nal_loop :: "uint8 list \<Rightarrow> nat \<Rightarrow> uint8 list \<Rightarrow> (uint8 list option \<times> uint8 list) cres" where
  "nal_loop [] flag buf = Ok (None, [])"
| "nal_loop (c # cs) flag buf =
     (if flag = 0 then
        if c \<noteq> 0 then res_bind (push buf [c]) (nal_loop cs 0) else nal_loop cs 1 buf
      else if flag = 1 then
        if c = 0 then nal_loop cs 2 buf else res_bind (push buf [0, c]) (nal_loop cs 0)
      else if flag = 2 then
        if c = 0 then nal_loop cs 3 buf
        else if c = 1 then Ok (Some buf, cs)
        else res_bind (push buf [0, 0, c]) (nal_loop cs 0)
      else if c = 1 then Ok (Some buf, cs) else nal_loop cs 0 buf)"

definition copy_nal_from_file :: "uint8 list \<Rightarrow> (uint8 list option \<times> uint8 list) cres" where
  "copy_nal_from_file fp = nal_loop fp 0 []"

lemma nal_loop_shorter: "nal_loop fs flag buf = Ok (Some n, rest) \<Longrightarrow> length rest < length fs"
proof (induction fs flag buf arbitrary: n rest rule: nal_loop.induct)
  case (2 c cs flag buf)
  then show ?case
    by (auto simp: push_def less_Suc_eq split: if_splits)
qed simp

text \<open>The loop of \<open>main\<close>.\<close>

function send_file :: "uint8 list \<Rightarrow> sender \<Rightarrow> sender cres" where
  "send_file fp s =
     (case copy_nal_from_file fp of
        Err e \<Rightarrow> Err e
      | Ok (None, _) \<Rightarrow> Ok s
      | Ok (Some nal_buf, fp) \<Rightarrow>
          (case h264naltortp_send 25 nal_buf (int (length nal_buf)) s of
             Err e \<Rightarrow> Err e
           | Ok (_, s) \<Rightarrow> send_file fp s))"
  by pat_completeness auto
termination
  by (relation "measure (length \<circ> fst)") (auto simp: copy_nal_from_file_def dest: nal_loop_shorter)

section \<open>Receiving\<close>

text \<open>\<open>fwrite\<close> of \<open>n\<close> bytes of a buffer; a negative \<open>n\<close> is a huge size.\<close>

definition fwrite_bytes :: "uint8 list \<Rightarrow> nat \<Rightarrow> int \<Rightarrow> uint8 list cres" where
  "fwrite_bytes buf off n = (if 0 \<le> n \<and> off + nat n \<le> length buf then Ok (take (nat n) (drop off buf)) else Err Fault)"

text \<open>What is written to the file for a packet of \<open>len\<close> bytes.\<close>

definition decode_rtp2h264 :: "uint8 list \<Rightarrow> int \<Rightarrow> uint8 list cres" where
  "decode_rtp2h264 rtp_buf len =
     res_bind (load rtp_buf 12) (\<lambda>b.
     let nalu_header = get_nalu_header b in
     if nh_type nalu_header = 28 then
       res_bind (load rtp_buf 13) (\<lambda>c.
       let fu_header = get_fu_header c in
       if fh_e fu_header = 1 then fwrite_bytes rtp_buf 14 (len - 14)
       else if fh_s fu_header = 1 then
         let h264_nal_header = (fh_type fu_header AND 0x1f) OR push_bit 5 (nh_nri nalu_header) OR push_bit 7 (nh_f nalu_header) in
         res_bind (fwrite_bytes rtp_buf 14 (len - 14)) (\<lambda>x. Ok ([0, 0, 0, 1] @ [h264_nal_header] @ x))
       else fwrite_bytes rtp_buf 14 (len - 14))
     else
       let h264_nal_header = (nh_type nalu_header AND 0x1f) OR push_bit 5 (nh_nri nalu_header) OR push_bit 7 (nh_f nalu_header) in
       res_bind (fwrite_bytes rtp_buf 13 (len - 13)) (\<lambda>x. Ok ([0, 0, 0, 1] @ [h264_nal_header] @ x)))"

text \<open>
  The loop of \<open>main\<close>, for the replies of \<open>recv\<close>: a datagram, cut to the buffer, or a failure,
  which is skipped. The buffer is the same for all of them.
\<close>

fun recv_loop :: "uint8 list \<Rightarrow> uint8 list option list \<Rightarrow> uint8 list cres" where
  "recv_loop buf [] = Ok []"
| "recv_loop buf (None # rs) = recv_loop buf rs"
| "recv_loop buf (Some p # rs) =
     (let p = take (length buf) p; buf = overwrite buf 0 p in
      res_bind (decode_rtp2h264 buf (int (length p))) (\<lambda>x.
      res_bind (recv_loop buf rs) (\<lambda>y. Ok (x @ y))))"

declare send_file.simps [simp del] fu_loop.simps [simp del]

end
