(* ===== verification/RtpProps.thy ===== *)
theory RtpProps
  imports Rtp
begin

unbundle bit_operations_syntax

text \<open>
  Properties of the RTP sender and receiver of src/Clang/media/h264_to_rtp: the packets of a
  NAL unit, what the receiver writes for them, and a file sent and received.
\<close>

section \<open>Header bytes\<close>

lemma word8_eqI: "(\<And>n. n < 8 \<Longrightarrow> bit a n = bit b n) \<Longrightarrow> a = (b :: uint8)"
  by (rule bit_word_eqI) simp

lemma less_8: "n < (8::nat) \<longleftrightarrow> n \<in> {0, 1, 2, 3, 4, 5, 6, 7}"
  by auto

lemma nalu_header_byte_same [simp]:
  "nalu_header_byte \<lparr>nh_type = c AND 31, nh_nri = drop_bit 5 c AND 3, nh_f = drop_bit 7 c AND 1\<rparr> = c"
  by (rule word8_eqI) (auto simp: nalu_header_byte_def less_8 bit_simps)

lemma nal_byte_again: "(c AND 0x1f) OR push_bit 5 (drop_bit 5 c AND 3) OR push_bit 7 (drop_bit 7 c AND 1) = (c :: uint8)"
  by (rule word8_eqI) (auto simp: less_8 bit_simps)

text \<open>The indicator of a fragment keeps \<open>f\<close> and \<open>nri\<close>, its header has the type.\<close>

definition fu_indicator :: "uint8 \<Rightarrow> uint8" where
  "fu_indicator c = nalu_header_byte \<lparr>nh_type = 28, nh_nri = drop_bit 5 (c AND 0x60), nh_f = drop_bit 7 (c AND 0x80)\<rparr>"

definition fu_byte :: "uint8 \<Rightarrow> uint8 \<Rightarrow> uint8 \<Rightarrow> uint8" where
  "fu_byte sb eb c = fu_header_byte \<lparr>fh_type = c AND 0x1f, fh_r = 0, fh_e = eb, fh_s = sb\<rparr>"

lemma fu_indicator_fields:
  "nh_type (get_nalu_header (fu_indicator c)) = 28"
  "(c AND 0x1f) OR push_bit 5 (nh_nri (get_nalu_header (fu_indicator c))) OR push_bit 7 (nh_f (get_nalu_header (fu_indicator c))) = c"
  by (rule word8_eqI; auto simp: fu_indicator_def nalu_header_byte_def get_nalu_header_def less_8 bit_simps)+

lemma fu_byte_fields:
  assumes "sb \<in> {0, 1}" "eb \<in> {0, 1}"
  shows "fh_e (get_fu_header (fu_byte sb eb c)) = eb" "fh_s (get_fu_header (fu_byte sb eb c)) = sb"
    "fh_type (get_fu_header (fu_byte sb eb c)) AND 0x1f = c AND 0x1f"
proof -
  have c: "sb = 0 \<or> sb = 1" "eb = 0 \<or> eb = 1" using assms by auto
  show "fh_e (get_fu_header (fu_byte sb eb c)) = eb"
    by (rule word8_eqI, rule disjE [OF c(1)]; rule disjE [OF c(2)])
      (auto simp: fu_byte_def fu_header_byte_def get_fu_header_def less_8 bit_simps)
  show "fh_s (get_fu_header (fu_byte sb eb c)) = sb"
    by (rule word8_eqI, rule disjE [OF c(1)]; rule disjE [OF c(2)])
      (auto simp: fu_byte_def fu_header_byte_def get_fu_header_def less_8 bit_simps)
  show "fh_type (get_fu_header (fu_byte sb eb c)) AND 0x1f = c AND 0x1f"
    by (rule word8_eqI, rule disjE [OF c(1)]; rule disjE [OF c(2)])
      (auto simp: fu_byte_def fu_header_byte_def get_fu_header_def less_8 bit_simps)
qed

section \<open>Packets\<close>

definition rtp_bytes :: "16 word \<Rightarrow> 32 word \<Rightarrow> uint8 \<Rightarrow> uint8 list" where
  "rtp_bytes seq ts mark = rtp_header_bytes \<lparr>csrc_len = 0, extension = 0, padding = 0, version = 2, payload_type = H264, marker = mark,
     seq_no = word_of_int (uint seq mod 65535), timestamp = ts, ssrc = SSRC_NUM\<rparr>"

lemma length_rtp_bytes [simp]: "length (rtp_bytes seq ts mark) = 12"
  by (simp add: rtp_bytes_def rtp_header_bytes_def htons_bytes_def htonl_bytes_def)

definition buf_ok :: "sender \<Rightarrow> bool" where
  "buf_ok s \<longleftrightarrow> length (SENDBUFFER s) = SEND_BUF_SIZE"

lemma set_rtp_header_ok:
  assumes "buf_ok s"
  shows "set_rtp_header mark s = Ok (s\<lparr>seq_num := seq_num s + 1,
    SENDBUFFER := overwrite (replicate SEND_BUF_SIZE 0) 0 (rtp_bytes (seq_num s + 1) (ts_current s) mark)\<rparr>)"
  using assms by (simp add: set_rtp_header_def memset_def memcpy_def buf_ok_def overwrite_def rtp_bytes_def rtp_header_bytes_def
      htons_bytes_def htonl_bytes_def SEND_BUF_SIZE_def Let_def)

lemma packet_single:
  assumes "length hd12 = 12" "length b = SEND_BUF_SIZE" "length xs \<le> RTP_PAYLOAD_MAX_SIZE"
  shows "take (13 + length xs) (overwrite ((overwrite b 0 hd12)[12 := x]) 13 xs) = hd12 @ x # xs"
proof -
  let ?b = "(overwrite b 0 hd12)[12 := x]"
  have len: "length ?b = SEND_BUF_SIZE" using assms by (simp add: SEND_BUF_SIZE_def)
  have "take 13 ?b = hd12 @ [x]"
    using len assms(1,2) take_Suc_conv_app_nth [of 12 ?b] by (simp add: SEND_BUF_SIZE_def overwrite_def take_update_cancel)
  then show ?thesis using take_overwrite_end [of 13 ?b "13 + length xs" xs] len by (simp add: SEND_BUF_SIZE_def)
qed

lemma packet_fu:
  assumes "length hd12 = 12" "length b = SEND_BUF_SIZE" "length xs \<le> RTP_PAYLOAD_MAX_SIZE"
  shows "take (14 + length xs) (overwrite ((overwrite b 0 hd12)[12 := x, 13 := y]) 14 xs) = hd12 @ x # y # xs"
proof -
  let ?b = "(overwrite b 0 hd12)[12 := x]"
  have len: "length ?b = SEND_BUF_SIZE" using assms by (simp add: SEND_BUF_SIZE_def)
  have "take 13 ?b = hd12 @ [x]"
    using len assms(1,2) take_Suc_conv_app_nth [of 12 ?b] by (simp add: SEND_BUF_SIZE_def overwrite_def take_update_cancel)
  then have "take 14 (?b[13 := y]) = hd12 @ [x, y]"
    using len take_Suc_conv_app_nth [of 13 "?b[13 := y]"] by (simp add: SEND_BUF_SIZE_def take_update_cancel)
  then show ?thesis using take_overwrite_end [of 14 "?b[13 := y]" "14 + length xs" xs] len by (simp add: SEND_BUF_SIZE_def)
qed

text \<open>What a step does to the sender: one packet more.\<close>

definition sent1 :: "sender \<Rightarrow> uint8 list \<Rightarrow> sender \<Rightarrow> bool" where
  "sent1 s p s' \<longleftrightarrow> buf_ok s' \<and> seq_num s' = seq_num s + 1 \<and> ts_current s' = ts_current s \<and> dealt s' = dealt s @ [p]"

lemma send_single_ok:
  assumes "buf_ok s" "nal \<noteq> []" "length nal \<le> RTP_PAYLOAD_MAX_SIZE"
  shows "\<exists>s'. send_single nal (length nal) s = Ok s' \<and> sent1 s (rtp_bytes (seq_num s + 1) (ts_current s) 0 @ nal) s'"
proof -
  obtain c xs where n: "nal = c # xs" using assms(2) by (cases nal) auto
  let ?h = "rtp_bytes (seq_num s + 1) (ts_current s) 0"
  let ?b = "overwrite ((overwrite (replicate SEND_BUF_SIZE 0) 0 ?h)[12 := c]) 13 xs"
  have l: "length ?b = SEND_BUF_SIZE" using assms(3) n by (simp add: SEND_BUF_SIZE_def RTP_PAYLOAD_MAX_SIZE_def)
  have "send_single nal (length nal) s = Ok (deal_func (12 + length nal) (s\<lparr>seq_num := seq_num s + 1, SENDBUFFER := ?b\<rparr>))"
    using assms n set_rtp_header_ok [OF assms(1), of 0]
    by (simp add: send_single_def load_def store_def memcpy_def SEND_BUF_SIZE_def RTP_PAYLOAD_MAX_SIZE_def Let_def)
  moreover have "take (13 + length xs) ?b = ?h @ c # xs"
    by (rule packet_single) (use assms(3) n in simp_all)
  ultimately show ?thesis using l n by (simp add: sent1_def deal_func_def buf_ok_def)
qed

lemma put_fu_ok:
  assumes "buf_ok s" "nal \<noteq> []" "n \<le> RTP_PAYLOAD_MAX_SIZE" "off + n \<le> length nal"
  shows "\<exists>s'. put_fu mark sb eb nal off n s = Ok s' \<and>
    sent1 s (rtp_bytes (seq_num s + 1) (ts_current s) mark @ fu_indicator (hd nal) # fu_byte sb eb (hd nal) # take n (drop off nal)) s'"
proof -
  let ?h = "rtp_bytes (seq_num s + 1) (ts_current s) mark"
  let ?xs = "take n (drop off nal)"
  let ?b = "overwrite ((overwrite (replicate SEND_BUF_SIZE 0) 0 ?h)[12 := fu_indicator (hd nal), 13 := fu_byte sb eb (hd nal)]) 14 ?xs"
  have n: "length ?xs = n" using assms(4) by simp
  have l: "length ?b = SEND_BUF_SIZE" using assms(3) n by (simp add: SEND_BUF_SIZE_def RTP_PAYLOAD_MAX_SIZE_def)
  have "load nal 0 = Ok (hd nal)" using assms(2) by (simp add: load_def hd_conv_nth)
  then have "put_fu mark sb eb nal off n s = Ok (deal_func (12 + 2 + n) (s\<lparr>seq_num := seq_num s + 1, SENDBUFFER := ?b\<rparr>))"
    using assms set_rtp_header_ok [OF assms(1), of mark]
    by (simp add: put_fu_def store_def memcpy_def SEND_BUF_SIZE_def RTP_PAYLOAD_MAX_SIZE_def fu_indicator_def fu_byte_def Let_def)
  moreover have "take (14 + length ?xs) ?b = ?h @ fu_indicator (hd nal) # fu_byte sb eb (hd nal) # ?xs"
    by (rule packet_fu) (use assms(3) n in simp_all)
  ultimately show ?thesis using l n by (simp add: sent1_def deal_func_def buf_ok_def)
qed

section \<open>The packets of a NAL unit\<close>

text \<open>The specification: the packets of a unit, from the sequence number before it and its time stamp.\<close>

definition fu_start :: "nat \<Rightarrow> nat" where
  "fu_start i = (if i = 0 then 1 else RTP_PAYLOAD_MAX_SIZE * i)"

definition fu_packet :: "uint8 list \<Rightarrow> 16 word \<Rightarrow> 32 word \<Rightarrow> nat \<Rightarrow> nat \<Rightarrow> uint8 list" where
  "fu_packet nal seq ts num i =
     rtp_bytes (seq + word_of_nat i + 1) ts (if i = num - 1 then 1 else 0)
     @ [fu_indicator (hd nal), fu_byte (if i = 0 then 1 else 0) (if i = num - 1 then 1 else 0) (hd nal)]
     @ drop (fu_start i) (take (RTP_PAYLOAD_MAX_SIZE * (i + 1)) nal)"

definition nal_packets :: "uint8 list \<Rightarrow> 16 word \<Rightarrow> 32 word \<Rightarrow> uint8 list list" where
  "nal_packets nal seq ts =
     (if length nal \<le> RTP_PAYLOAD_MAX_SIZE then [rtp_bytes (seq + 1) ts 0 @ nal]
      else map (fu_packet nal seq ts (fu_pack_num (length nal))) [0..<fu_pack_num (length nal)])"

lemma fu_pack_num_bounds:
  assumes "RTP_PAYLOAD_MAX_SIZE < len"
  shows "2 \<le> fu_pack_num len" "RTP_PAYLOAD_MAX_SIZE * (fu_pack_num len - 1) + last_fu_pack_size len = len"
    "0 < last_fu_pack_size len" "last_fu_pack_size len \<le> RTP_PAYLOAD_MAX_SIZE"
proof -
  have d: "len = len div RTP_PAYLOAD_MAX_SIZE * RTP_PAYLOAD_MAX_SIZE + len mod RTP_PAYLOAD_MAX_SIZE" "0 < RTP_PAYLOAD_MAX_SIZE"
    by (simp_all add: RTP_PAYLOAD_MAX_SIZE_def)
  have q: "1 \<le> len div RTP_PAYLOAD_MAX_SIZE" using assms d(2) by (simp add: div_greater_zero_iff Suc_le_eq)
  show "0 < last_fu_pack_size len" "last_fu_pack_size len \<le> RTP_PAYLOAD_MAX_SIZE"
    using d(2) by (simp_all add: last_fu_pack_size_def less_imp_le)
  show "2 \<le> fu_pack_num len"
  proof (cases "len mod RTP_PAYLOAD_MAX_SIZE = 0")
    case True
    then have "1 < len div RTP_PAYLOAD_MAX_SIZE" using assms d by (cases "len div RTP_PAYLOAD_MAX_SIZE = 1") (use q in auto)
    then show ?thesis using True by (simp add: fu_pack_num_def)
  qed (use q in \<open>simp add: fu_pack_num_def\<close>)
  show "RTP_PAYLOAD_MAX_SIZE * (fu_pack_num len - 1) + last_fu_pack_size len = len"
  proof (cases "len mod RTP_PAYLOAD_MAX_SIZE = 0")
    case True
    then have "len = RTP_PAYLOAD_MAX_SIZE * (len div RTP_PAYLOAD_MAX_SIZE - 1) + RTP_PAYLOAD_MAX_SIZE"
      using d q by (cases "len div RTP_PAYLOAD_MAX_SIZE") (auto simp: algebra_simps)
    then show ?thesis using True by (simp add: fu_pack_num_def last_fu_pack_size_def)
  next
    case False
    then show ?thesis using d by (simp add: fu_pack_num_def last_fu_pack_size_def mult.commute)
  qed
qed

lemma send_fu_ok:
  assumes "buf_ok s" "RTP_PAYLOAD_MAX_SIZE < length nal" "i < fu_pack_num (length nal)" "seq_num s = seq + word_of_nat i" "ts_current s = ts"
  shows "\<exists>s'. send_fu nal (fu_pack_num (length nal)) (last_fu_pack_size (length nal)) i s = Ok s' \<and>
    sent1 s (fu_packet nal seq ts (fu_pack_num (length nal)) i) s'"
proof -
  let ?num = "fu_pack_num (length nal)" and ?last = "last_fu_pack_size (length nal)"
  note b = fu_pack_num_bounds [OF assms(2)]
  have ne: "nal \<noteq> []" using assms(2) by auto
  consider (first) "i = 0" | (middle) "0 < i" "i < ?num - 1" | (final) "0 < i" "i = ?num - 1" using assms(3) by linarith
  then show ?thesis
  proof cases
    case first
    have "take (RTP_PAYLOAD_MAX_SIZE - 1) (drop 1 nal) = drop 1 (take RTP_PAYLOAD_MAX_SIZE nal)" by (simp add: drop_take)
    then show ?thesis
      using put_fu_ok [of s nal "RTP_PAYLOAD_MAX_SIZE - 1" 1 0 1 0] assms ne b(1) first
      by (auto simp: send_fu_def fu_packet_def fu_start_def)
  next
    case middle
    have "RTP_PAYLOAD_MAX_SIZE * (i + 1) \<le> RTP_PAYLOAD_MAX_SIZE * (?num - 1)" using middle(2) by (intro mult_le_mono) simp_all
    also have "\<dots> \<le> length nal" using b(2) by linarith
    finally have "RTP_PAYLOAD_MAX_SIZE * i + RTP_PAYLOAD_MAX_SIZE \<le> length nal" by simp
    moreover have "take RTP_PAYLOAD_MAX_SIZE (drop (RTP_PAYLOAD_MAX_SIZE * i) nal) = drop (RTP_PAYLOAD_MAX_SIZE * i) (take (RTP_PAYLOAD_MAX_SIZE * (i + 1)) nal)"
      by (simp add: drop_take)
    ultimately show ?thesis
      using put_fu_ok [of s nal RTP_PAYLOAD_MAX_SIZE "RTP_PAYLOAD_MAX_SIZE * i" 0 0 0] assms ne middle
      by (auto simp: send_fu_def fu_packet_def fu_start_def)
  next
    case final
    have "length nal = RTP_PAYLOAD_MAX_SIZE * i + ?last" using b(2) final(2) by simp
    moreover have "length nal \<le> RTP_PAYLOAD_MAX_SIZE * (i + 1)" using b(4) \<open>length nal = _\<close> by simp
    ultimately show ?thesis
      using put_fu_ok [of s nal ?last "RTP_PAYLOAD_MAX_SIZE * i" 1 0 1] assms ne final b(4)
      by (auto simp: send_fu_def fu_packet_def fu_start_def)
  qed
qed

lemma fu_loop_ok:
  assumes "RTP_PAYLOAD_MAX_SIZE < length nal"
  shows "buf_ok s \<Longrightarrow> i + n = fu_pack_num (length nal) \<Longrightarrow> seq_num s = seq + word_of_nat i \<Longrightarrow> ts_current s = ts \<Longrightarrow>
    \<exists>s'. fu_loop nal (fu_pack_num (length nal)) (last_fu_pack_size (length nal)) i n s = Ok s' \<and> buf_ok s' \<and> ts_current s' = ts \<and>
      seq_num s' = seq_num s + word_of_nat n \<and>
      dealt s' = dealt s @ map (fu_packet nal seq ts (fu_pack_num (length nal))) [i..<fu_pack_num (length nal)]"
proof (induction n arbitrary: i s)
  case 0
  then show ?case by (simp add: fu_loop.simps)
next
  case (Suc n)
  let ?num = "fu_pack_num (length nal)"
  have i: "i < ?num" "[i..<?num] = i # [Suc i..<?num]" using Suc.prems(2) by (auto simp: upt_conv_Cons)
  obtain s1 where s1: "send_fu nal ?num (last_fu_pack_size (length nal)) i s = Ok s1" "sent1 s (fu_packet nal seq ts ?num i) s1"
    using send_fu_ok [OF Suc.prems(1) assms i(1) Suc.prems(3,4)] by blast
  have "buf_ok s1" "Suc i + n = ?num" "seq_num s1 = seq + word_of_nat (Suc i)" "ts_current s1 = ts"
    using s1(2) Suc.prems by (simp_all add: sent1_def)
  from Suc.IH [OF this] obtain s' where "fu_loop nal ?num (last_fu_pack_size (length nal)) (Suc i) n s1 = Ok s'" "buf_ok s'" "ts_current s' = ts"
    "seq_num s' = seq_num s1 + word_of_nat n" "dealt s' = dealt s1 @ map (fu_packet nal seq ts ?num) [Suc i..<?num]" by blast
  then show ?case using s1 i(2) by (simp add: fu_loop.simps sent1_def)
qed

lemma h264naltortp_send_ok:
  assumes "buf_ok s" "nal \<noteq> []" "framerate \<noteq> 0"
  shows "\<exists>s'. h264naltortp_send framerate nal (int (length nal)) s = Ok (0, s') \<and> buf_ok s' \<and>
    ts_current s' = ts_current s + word_of_int (90000 sdiv framerate) \<and>
    seq_num s' = seq_num s + word_of_nat (length (nal_packets nal (seq_num s) (ts_current s'))) \<and>
    dealt s' = dealt s @ nal_packets nal (seq_num s) (ts_current s')"
proof -
  let ?s = "s\<lparr>ts_current := ts_current s + word_of_int (90000 sdiv framerate)\<rparr>"
  have b: "buf_ok ?s" using assms(1) by (simp add: buf_ok_def)
  have l: "\<not> int (length nal) < 1" using assms(2) by (cases nal) auto
  show ?thesis
  proof (cases "length nal \<le> RTP_PAYLOAD_MAX_SIZE")
    case True
    obtain s' where "send_single nal (length nal) ?s = Ok s'" "sent1 ?s (rtp_bytes (seq_num ?s + 1) (ts_current ?s) 0 @ nal) s'"
      using send_single_ok [OF b assms(2) True] by blast
    then show ?thesis using True l assms(3) by (simp add: h264naltortp_send_def nal_packets_def sent1_def Let_def)
  next
    case False
    then have "RTP_PAYLOAD_MAX_SIZE < length nal" by simp
    from fu_loop_ok [OF this b, of 0 "fu_pack_num (length nal)" "seq_num s" "ts_current ?s"] False l assms(3)
    show ?thesis by (auto simp: h264naltortp_send_def nal_packets_def Let_def)
  qed
qed

section \<open>Receiving packets\<close>

definition nal_type :: "uint8 list \<Rightarrow> uint8" where
  "nal_type nal = hd nal AND 0x1f"

lemma fwrite_bytes_ok: "length hs = off \<Longrightarrow> n = int (length xs) \<Longrightarrow> fwrite_bytes (hs @ xs @ ys) off n = Ok xs"
  by (simp add: fwrite_bytes_def)

lemma decode_single:
  assumes "length hd12 = 12" "c AND 0x1f \<noteq> 28"
  shows "decode_rtp2h264 (hd12 @ c # xs @ ys) (13 + int (length xs)) = Ok ([0, 0, 0, 1] @ c # xs)"
proof -
  have "fwrite_bytes ((hd12 @ [c]) @ xs @ ys) 13 (13 + int (length xs) - 13) = Ok xs"
    by (rule fwrite_bytes_ok) (use assms in simp_all)
  moreover have "(hd12 @ c # xs @ ys) ! 12 = c" using assms(1) nth_append_length [of hd12 c "xs @ ys"] by simp
  ultimately show ?thesis
    using assms nal_byte_again [of c]
    by (simp add: decode_rtp2h264_def load_def get_nalu_header_def and.assoc Let_def)
qed

lemma decode_fragment:
  assumes "load buf 12 = Ok i" "load buf 13 = Ok h" "nh_type (get_nalu_header i) = 28" "fwrite_bytes buf 14 (len - 14) = Ok xs"
    and "(fh_type (get_fu_header h) AND 0x1f) OR push_bit 5 (nh_nri (get_nalu_header i)) OR push_bit 7 (nh_f (get_nalu_header i)) = c"
    and "fh_e (get_fu_header h) \<in> {0, 1}"
  shows "decode_rtp2h264 buf len = Ok ((if fh_e (get_fu_header h) = 0 \<and> fh_s (get_fu_header h) = 1 then [0, 0, 0, 1, c] else []) @ xs)"
proof (cases "fh_e (get_fu_header h) = 1")
  case True
  then show ?thesis using assms(1-4) by (simp add: decode_rtp2h264_def Let_def)
next
  case False
  then have "fh_e (get_fu_header h) = 0" using assms(6) by simp
  then show ?thesis using assms(1-5) by (cases "fh_s (get_fu_header h) = 1") (simp_all add: decode_rtp2h264_def Let_def)
qed

lemma decode_fu:
  assumes "length hd12 = 12" "sb \<in> {0, 1}" "eb \<in> {0, 1}"
  shows "decode_rtp2h264 (hd12 @ fu_indicator c # fu_byte sb eb c # xs @ ys) (14 + int (length xs)) =
    Ok ((if eb = 0 \<and> sb = 1 then [0, 0, 0, 1, c] else []) @ xs)"
proof -
  let ?b = "hd12 @ fu_indicator c # fu_byte sb eb c # xs @ ys"
  have w: "fwrite_bytes ((hd12 @ [fu_indicator c, fu_byte sb eb c]) @ xs @ ys) 14 (14 + int (length xs) - 14) = Ok xs"
    by (rule fwrite_bytes_ok) (use assms in simp_all)
  have "?b ! 12 = fu_indicator c" "?b ! 13 = fu_byte sb eb c"
    using assms(1) nth_append_length [of hd12 "fu_indicator c"] nth_append_length [of "hd12 @ [fu_indicator c]" "fu_byte sb eb c"] by simp_all
  then have l: "load ?b 12 = Ok (fu_indicator c)" "load ?b 13 = Ok (fu_byte sb eb c)" using assms(1) by (simp_all add: load_def)
  note f = fu_indicator_fields [of c] fu_byte_fields [OF assms(2,3), of c]
  have "fh_type (get_fu_header (fu_byte sb eb c)) AND 0x1f OR push_bit 5 (nh_nri (get_nalu_header (fu_indicator c))) OR
     push_bit 7 (nh_f (get_nalu_header (fu_indicator c))) = c"
    unfolding f(5) by (rule f(2))
  moreover have "fwrite_bytes ?b 14 (14 + int (length xs) - 14) = Ok xs" using w by simp
  ultimately show ?thesis using decode_fragment [OF l f(1)] f(3,4) assms(3) by simp
qed

text \<open>What a list of packets makes the receiver write, whatever its buffer held before.\<close>

definition received :: "uint8 list list \<Rightarrow> uint8 list \<Rightarrow> bool" where
  "received ps out \<longleftrightarrow> (\<forall>buf rs. length buf = SEND_BUF_SIZE \<longrightarrow>
     (\<exists>buf'. length buf' = SEND_BUF_SIZE \<and> recv_loop buf (map Some ps @ rs) = res_bind (recv_loop buf' rs) (\<lambda>y. Ok (out @ y))))"

lemma received_Nil [simp]: "received [] []"
proof -
  have "res_bind r Ok = r" for r :: "uint8 list cres" by (cases r) simp_all
  then show ?thesis by (auto simp: received_def)
qed

lemma received_append:
  assumes "received ps x" "received qs y"
  shows "received (ps @ qs) (x @ y)"
  unfolding received_def
proof (intro allI impI)
  fix buf rs assume "length (buf :: uint8 list) = SEND_BUF_SIZE"
  then obtain b1 where 1: "length b1 = SEND_BUF_SIZE"
    "recv_loop buf (map Some ps @ map Some qs @ rs) = res_bind (recv_loop b1 (map Some qs @ rs)) (\<lambda>z. Ok (x @ z))"
    using assms(1) unfolding received_def by blast
  then obtain b2 where 2: "length b2 = SEND_BUF_SIZE" "recv_loop b1 (map Some qs @ rs) = res_bind (recv_loop b2 rs) (\<lambda>z. Ok (y @ z))"
    using assms(2) unfolding received_def by blast
  then have "recv_loop buf (map Some (ps @ qs) @ rs) = res_bind (recv_loop b2 rs) (\<lambda>z. Ok ((x @ y) @ z))"
    using 1(2) by (simp add: res_bind_assoc)
  with 2(1) show "\<exists>buf'. length buf' = SEND_BUF_SIZE \<and>
    recv_loop buf (map Some (ps @ qs) @ rs) = res_bind (recv_loop buf' rs) (\<lambda>z. Ok ((x @ y) @ z))" by blast
qed

lemma received_one:
  assumes "length p \<le> SEND_BUF_SIZE" "\<And>ys. decode_rtp2h264 (p @ ys) (int (length p)) = Ok x"
  shows "received [p] x"
  unfolding received_def
proof (intro allI impI)
  fix buf rs assume "length (buf :: uint8 list) = SEND_BUF_SIZE"
  then show "\<exists>buf'. length buf' = SEND_BUF_SIZE \<and> recv_loop buf (map Some [p] @ rs) = res_bind (recv_loop buf' rs) (\<lambda>y. Ok (x @ y))"
    using assms by (intro exI [of _ "overwrite buf 0 p"]) (simp add: overwrite_def Let_def)
qed

lemma received_fragments:
  assumes "RTP_PAYLOAD_MAX_SIZE < length nal" "1 \<le> i" "i \<le> fu_pack_num (length nal)"
  shows "received (map (fu_packet nal seq ts (fu_pack_num (length nal))) [0..<i]) ([0, 0, 0, 1] @ take (RTP_PAYLOAD_MAX_SIZE * i) nal)"
  using assms(2,3)
proof (induction i rule: nat_induct_at_least)
  case base
  let ?num = "fu_pack_num (length nal)"
  obtain c xs where n: "nal = c # xs" using assms(1) by (cases nal) auto
  let ?xs = "drop 1 (take RTP_PAYLOAD_MAX_SIZE nal)"
  have num: "?num - 1 \<noteq> 0" using fu_pack_num_bounds(1) [OF assms(1)] by simp
  have "take RTP_PAYLOAD_MAX_SIZE nal = c # ?xs" using n by (simp add: RTP_PAYLOAD_MAX_SIZE_def take_Cons')
  then have "received [fu_packet nal seq ts ?num 0] ([0, 0, 0, 1] @ take RTP_PAYLOAD_MAX_SIZE nal)"
    using decode_fu [of "rtp_bytes (seq + 1) ts 0" 1 0 c ?xs] num n assms(1)
    by (intro received_one) (simp_all add: fu_packet_def fu_start_def RTP_PAYLOAD_MAX_SIZE_def SEND_BUF_SIZE_def)
  then show ?case by simp
next
  case (Suc i)
  let ?num = "fu_pack_num (length nal)" and ?eb = "if i = fu_pack_num (length nal) - 1 then 1 else 0 :: uint8"
  let ?xs = "drop (RTP_PAYLOAD_MAX_SIZE * i) (take (RTP_PAYLOAD_MAX_SIZE * (i + 1)) nal)"
  have "length ?xs \<le> RTP_PAYLOAD_MAX_SIZE" by simp
  then have "received [fu_packet nal seq ts ?num i] ?xs"
    using decode_fu [of "rtp_bytes (seq + word_of_nat i + 1) ts ?eb" 0 ?eb "hd nal" ?xs] \<open>1 \<le> i\<close>
    by (intro received_one) (auto simp: fu_packet_def fu_start_def RTP_PAYLOAD_MAX_SIZE_def SEND_BUF_SIZE_def)
  moreover have "received (map (fu_packet nal seq ts ?num) [0..<i]) ([0, 0, 0, 1] @ take (RTP_PAYLOAD_MAX_SIZE * i) nal)"
    using Suc by simp
  moreover have "take (RTP_PAYLOAD_MAX_SIZE * i) nal @ ?xs = take (RTP_PAYLOAD_MAX_SIZE * Suc i) nal"
  proof -
    have "?xs = take RTP_PAYLOAD_MAX_SIZE (drop (RTP_PAYLOAD_MAX_SIZE * i) nal)" by (simp add: drop_take)
    moreover have "RTP_PAYLOAD_MAX_SIZE * Suc i = RTP_PAYLOAD_MAX_SIZE * i + RTP_PAYLOAD_MAX_SIZE" by simp
    ultimately show ?thesis by (simp only: take_add)
  qed
  ultimately show ?case
    using received_append [of "map (fu_packet nal seq ts ?num) [0..<i]" "[0, 0, 0, 1] @ take (RTP_PAYLOAD_MAX_SIZE * i) nal"
        "[fu_packet nal seq ts ?num i]" ?xs] by simp
qed

lemma received_nal:
  assumes "nal \<noteq> []" "nal_type nal \<noteq> 28"
  shows "received (nal_packets nal seq ts) ([0, 0, 0, 1] @ nal)"
proof (cases "length nal \<le> RTP_PAYLOAD_MAX_SIZE")
  case True
  obtain c xs where n: "nal = c # xs" using assms(1) by (cases nal) auto
  then have "c AND 0x1f \<noteq> 28" using assms(2) by (simp add: nal_type_def)
  from decode_single [OF _ this, of "rtp_bytes (seq + 1) ts 0" xs] show ?thesis
    using True n by (auto simp: nal_packets_def SEND_BUF_SIZE_def RTP_PAYLOAD_MAX_SIZE_def intro!: received_one)
next
  case False
  then have l: "RTP_PAYLOAD_MAX_SIZE < length nal" by simp
  note b = fu_pack_num_bounds [OF l]
  have "RTP_PAYLOAD_MAX_SIZE * fu_pack_num (length nal) = RTP_PAYLOAD_MAX_SIZE * (fu_pack_num (length nal) - 1) + RTP_PAYLOAD_MAX_SIZE"
    using b(1) by (cases "fu_pack_num (length nal)") simp_all
  then have "length nal \<le> RTP_PAYLOAD_MAX_SIZE * fu_pack_num (length nal)" using b(2,4) by linarith
  then show ?thesis using received_fragments [OF l _ order_refl, of seq ts] b(1) False by (simp add: nal_packets_def)
qed

section \<open>Cutting a file\<close>

text \<open>No start code and no three zero bytes inside, as the byte stream format demands.\<close>

fun no_start :: "uint8 list \<Rightarrow> bool" where
  "no_start (a # b # c # xs) \<longleftrightarrow> \<not> (a = 0 \<and> b = 0 \<and> (c = 0 \<or> c = 1)) \<and> no_start (b # c # xs)"
| "no_start xs \<longleftrightarrow> True"

definition conforming :: "uint8 list \<Rightarrow> bool" where
  "conforming nal \<longleftrightarrow> nal \<noteq> [] \<and> last nal \<noteq> 0 \<and> no_start nal \<and> length nal \<le> NAL_BUF_SIZE"

definition annexb :: "(uint8 list \<times> uint8 list) list \<Rightarrow> uint8 list" where
  "annexb ns = concat (map (\<lambda>(sc, n). sc @ n) ns)"

definition start_codes :: "uint8 list set" where
  "start_codes = {[0, 0, 0, 1], [0, 0, 1]}"

lemma no_start_tl: "no_start (c # xs) \<Longrightarrow> no_start xs"
  by (cases xs rule: no_start.cases) simp_all

lemma no_start_append: "no_start (xs @ ys) \<Longrightarrow> no_start ys"
  by (induction xs) (auto dest: no_start_tl)

lemma nal_loop_scan:
  "no_start (replicate k 0 @ xs) \<Longrightarrow> xs = [] \<and> k = 0 \<or> xs \<noteq> [] \<and> last xs \<noteq> 0 \<Longrightarrow> k \<le> 2 \<Longrightarrow> length buf + k + length xs \<le> NAL_BUF_SIZE \<Longrightarrow>
     nal_loop (xs @ rest) k buf = nal_loop rest 0 (buf @ replicate k 0 @ xs)"
proof (induction xs arbitrary: k buf)
  case Nil
  then show ?case by simp
next
  case (Cons c xs)
  have k: "k = 0 \<or> k = 1 \<or> k = 2" using Cons.prems(3) by auto
  have tail: "no_start xs" using no_start_tl [OF no_start_append [OF Cons.prems(1)]] .
  show ?case
  proof (cases "c = 0")
    case True
    then have "xs \<noteq> []" "last xs \<noteq> 0" using Cons.prems(2) by (auto split: if_splits)
    have "k \<noteq> 2" using Cons.prems(1) True by (auto simp: numeral_2_eq_2)
    then have s: "nal_loop ((c # xs) @ rest) k buf = nal_loop (xs @ rest) (Suc k) buf" using k True by (auto simp: numeral_2_eq_2)
    have "replicate k 0 @ c # xs = replicate (Suc k) 0 @ xs" using True replicate_app_Cons_same [of k 0 xs] by simp
    then show ?thesis
      unfolding s using Cons.IH [of "Suc k" buf] Cons.prems(1,4) k \<open>k \<noteq> 2\<close> \<open>xs \<noteq> []\<close> \<open>last xs \<noteq> 0\<close> by auto
  next
    case False
    have "\<not> (k = 2 \<and> c = 1)" using Cons.prems(1) by (auto simp: numeral_2_eq_2)
    then have "nal_loop ((c # xs) @ rest) k buf = nal_loop (xs @ rest) 0 (buf @ replicate k 0 @ [c])"
      using k False Cons.prems(4) by (auto simp: push_def numeral_2_eq_2)
    then show ?thesis
      using Cons.IH [of 0 "buf @ replicate k 0 @ [c]"] tail Cons.prems(2,4) by (cases "xs = []") simp_all
  qed
qed

lemma copy_nal:
  assumes "conforming nal \<or> nal = []"
  shows "copy_nal_from_file nal = Ok (None, [])" "sc \<in> start_codes \<Longrightarrow> copy_nal_from_file (nal @ sc @ rest) = Ok (Some nal, rest)"
proof -
  have s: "nal_loop (nal @ r) 0 [] = nal_loop r 0 nal" for r
    using nal_loop_scan [of 0 nal "[]" r] assms by (auto simp: conforming_def)
  show "copy_nal_from_file nal = Ok (None, [])" using s [of "[]"] by (simp add: copy_nal_from_file_def)
  show "sc \<in> start_codes \<Longrightarrow> copy_nal_from_file (nal @ sc @ rest) = Ok (Some nal, rest)"
    using s [of "sc @ rest"] by (auto simp: copy_nal_from_file_def start_codes_def)
qed

section \<open>A file sent and received\<close>

text \<open>What the receiver writes: each unit after a start code of four bytes.\<close>

definition received_file :: "uint8 list list \<Rightarrow> uint8 list" where
  "received_file ns = concat (map (\<lambda>n. [0, 0, 0, 1] @ n) ns)"

definition unit_ok :: "uint8 list \<times> uint8 list \<Rightarrow> bool" where
  "unit_ok u \<longleftrightarrow> fst u \<in> start_codes \<and> conforming (snd u) \<and> nal_type (snd u) \<noteq> 28"

lemma send_units:
  "conforming nal \<Longrightarrow> nal_type nal \<noteq> 28 \<Longrightarrow> \<forall>u\<in>set us. unit_ok u \<Longrightarrow> buf_ok s \<Longrightarrow>
   \<exists>s' ps. send_file (nal @ annexb us) s = Ok s' \<and> dealt s' = dealt s @ ps \<and> received ps (received_file (butlast (nal # map snd us)))"
proof (induction us arbitrary: nal s)
  case Nil
  then have "send_file (nal @ annexb []) s = Ok s"
    using copy_nal(1) [of nal] by (simp add: send_file.simps annexb_def)
  then show ?case by (intro exI [of _ s] exI [of _ "[]"]) (simp add: received_file_def)
next
  case (Cons u us)
  obtain sc n where u: "u = (sc, n)" by fastforce
  have ok: "sc \<in> start_codes" "conforming n" "nal_type n \<noteq> 28" "\<forall>u\<in>set us. unit_ok u" using Cons.prems(3) u by (auto simp: unit_ok_def)
  have ne: "nal \<noteq> []" using Cons.prems(1) by (simp add: conforming_def)
  have read: "copy_nal_from_file (nal @ annexb (u # us)) = Ok (Some nal, n @ annexb us)"
    using copy_nal(2) [of nal sc "n @ annexb us"] Cons.prems(1) ok(1) u by (simp add: annexb_def)
  obtain s1 where s1: "h264naltortp_send 25 nal (int (length nal)) s = Ok (0, s1)" "buf_ok s1"
    "dealt s1 = dealt s @ nal_packets nal (seq_num s) (ts_current s1)"
    using h264naltortp_send_ok [OF Cons.prems(4) ne, of 25] by auto
  obtain s' ps where s': "send_file (n @ annexb us) s1 = Ok s'" "dealt s' = dealt s1 @ ps" "received ps (received_file (butlast (n # map snd us)))"
    using Cons.IH [OF ok(2,3,4) s1(2)] by blast
  have "send_file (nal @ annexb (u # us)) s = Ok s'" using read s1(1) s'(1) by (simp add: send_file.simps)
  moreover have "received (nal_packets nal (seq_num s) (ts_current s1) @ ps) (received_file (butlast (nal # map snd (u # us))))"
    using received_append [OF received_nal [OF ne Cons.prems(2)] s'(3)] u by (simp add: received_file_def)
  ultimately show ?case using s1(3) s'(2) by auto
qed

section \<open>Payloads\<close>

lemma drop_fu_packet: "drop 14 (fu_packet nal seq ts num i) = drop (fu_start i) (take (RTP_PAYLOAD_MAX_SIZE * (i + 1)) nal)"
  by (simp add: fu_packet_def)

lemma fragment_payloads:
  assumes "1 \<le> i"
  shows "concat (map (drop 14) (map (fu_packet nal seq ts num) [0..<i])) = drop 1 (take (RTP_PAYLOAD_MAX_SIZE * i) nal)"
  using assms
proof (induction i rule: nat_induct_at_least)
  case base
  then show ?case by (simp add: drop_fu_packet fu_start_def del: drop_drop)
next
  case (Suc i)
  let ?k = "RTP_PAYLOAD_MAX_SIZE * i"
  have "take (?k + RTP_PAYLOAD_MAX_SIZE) nal = take ?k nal @ take RTP_PAYLOAD_MAX_SIZE (drop ?k nal)" by (rule take_add)
  moreover have "1 \<le> length (take ?k nal) \<or> drop ?k nal = []" using Suc.hyps by (cases nal) (auto simp: RTP_PAYLOAD_MAX_SIZE_def)
  ultimately have "drop 1 (take (?k + RTP_PAYLOAD_MAX_SIZE) nal) = drop 1 (take ?k nal) @ take RTP_PAYLOAD_MAX_SIZE (drop ?k nal)"
    by auto
  moreover have "drop ?k (take (?k + RTP_PAYLOAD_MAX_SIZE) nal) = take RTP_PAYLOAD_MAX_SIZE (drop ?k nal)" by (simp add: drop_take)
  ultimately show ?case using Suc by (simp add: drop_fu_packet fu_start_def add.commute)
qed

lemma packet_sizes:
  assumes "nal \<noteq> []" "p \<in> set (nal_packets nal seq ts)"
  shows "13 \<le> length p" "length p \<le> 14 + RTP_PAYLOAD_MAX_SIZE"
proof -
  obtain c xs where "nal = c # xs" using assms(1) by (cases nal) auto
  then show "13 \<le> length p" using assms(2) by (auto simp: nal_packets_def fu_packet_def split: if_splits)
  show "length p \<le> 14 + RTP_PAYLOAD_MAX_SIZE"
    using assms(2) by (auto simp: nal_packets_def fu_packet_def fu_start_def RTP_PAYLOAD_MAX_SIZE_def split: if_splits)
qed

lemma ceiling_div: "0 < k \<Longrightarrow> (n + (k - 1)) div k = (if n mod k \<noteq> 0 then n div k + 1 else n div k)" for n k :: nat
proof -
  assume k: "0 < k"
  have "n + (k - 1) = n mod k + (k - 1) + n div k * k" using div_mult_mod_eq [of n k] by linarith
  then have "(n + (k - 1)) div k = (n mod k + (k - 1) + n div k * k) div k" by (rule arg_cong)
  also have "\<dots> = n div k + (n mod k + (k - 1)) div k" using k by (intro div_mult_self1) simp
  also have "(n mod k + (k - 1)) div k = (if n mod k \<noteq> 0 then 1 else 0)"
    using k mod_less_divisor [OF k, of n] by (auto intro!: div_nat_eqI)
  finally show ?thesis by simp
qed

lemma nal_packets_count:
  assumes "nal \<noteq> []"
  shows "length (nal_packets nal seq ts) = (length nal + (RTP_PAYLOAD_MAX_SIZE - 1)) div RTP_PAYLOAD_MAX_SIZE"
proof (cases "length nal \<le> RTP_PAYLOAD_MAX_SIZE")
  case True
  moreover obtain c xs where "nal = c # xs" using assms by (cases nal) auto
  ultimately have "(length nal + 1399) div 1400 = 1" by (intro div_nat_eqI) (simp_all add: RTP_PAYLOAD_MAX_SIZE_def)
  then show ?thesis using True by (simp add: nal_packets_def RTP_PAYLOAD_MAX_SIZE_def)
next
  case False
  have "0 < RTP_PAYLOAD_MAX_SIZE" by (simp add: RTP_PAYLOAD_MAX_SIZE_def)
  then show ?thesis using False ceiling_div [of RTP_PAYLOAD_MAX_SIZE "length nal"] by (simp add: nal_packets_def fu_pack_num_def)
qed

lemma nal_packet_header:
  assumes "i < length (nal_packets nal seq ts)"
  shows "take 12 (nal_packets nal seq ts ! i) =
    rtp_bytes (seq + word_of_nat i + 1) ts (if RTP_PAYLOAD_MAX_SIZE < length nal \<and> i = length (nal_packets nal seq ts) - 1 then 1 else 0)"
  using assms by (auto simp: nal_packets_def fu_packet_def split: if_splits)

section \<open>Properties\<close>

text \<open>
  C3. A file of NAL units, each after a start code of three or four bytes, without start codes or
  three zero bytes inside and without zero bytes at the end, is cut into its units; over a
  channel that neither loses nor reorders datagrams the receiver writes every unit byte for byte
  after a start code of four bytes, whole or in fragments. The last unit of the file is never
  sent, because only the start code after a unit ends it.
\<close>

theorem rtp_file_roundtrip:
  assumes "\<forall>u\<in>set us. unit_ok u" "length (SENDBUFFER s) = SEND_BUF_SIZE" "length buf = SEND_BUF_SIZE"
  shows "\<exists>s' ps. send_file (annexb us) s = Ok s' \<and> dealt s' = dealt s @ ps \<and>
    recv_loop buf (map Some ps) = Ok (received_file (butlast (map snd us)))"
proof (cases us)
  case Nil
  then show ?thesis using copy_nal(1) [of "[]"] by (simp add: send_file.simps annexb_def received_file_def)
next
  case (Cons u vs)
  obtain sc n where u: "u = (sc, n)" by fastforce
  have ok: "sc \<in> start_codes" "conforming n" "nal_type n \<noteq> 28" "\<forall>u\<in>set vs. unit_ok u" using assms(1) Cons u by (auto simp: unit_ok_def)
  let ?s = "s\<lparr>ts_current := ts_current s + word_of_int (90000 sdiv 25)\<rparr>"
  have "buf_ok ?s" using assms(2) by (simp add: buf_ok_def)
  from send_units [OF ok(2-4) this] obtain s' ps where
    r: "send_file (n @ annexb vs) ?s = Ok s'" "dealt s' = dealt s @ ps" "received ps (received_file (butlast (n # map snd vs)))" by auto
  have "copy_nal_from_file (annexb us) = Ok (Some [], n @ annexb vs)"
    using copy_nal(2) [of "[]" sc "n @ annexb vs"] ok(1) Cons u by (simp add: annexb_def)
  moreover have "h264naltortp_send 25 [] (int (length [])) s = Ok (-1, ?s)" by (simp add: h264naltortp_send_def Let_def)
  ultimately have "send_file (annexb us) s = Ok s'" using r(1) by (simp add: send_file.simps)
  moreover obtain b where "recv_loop buf (map Some ps @ []) = res_bind (recv_loop b []) (\<lambda>y. Ok (received_file (butlast (n # map snd vs)) @ y))"
    using r(3) assms(3) unfolding received_def by blast
  ultimately show ?thesis using r(2) Cons u by (intro exI [of _ s'] exI [of _ ps]) simp
qed

definition fresh_sender :: sender where
  "fresh_sender = \<lparr>ts_current = 0, seq_num = 0, SENDBUFFER = replicate SEND_BUF_SIZE 0, dealt = []\<rparr>"

lemma rtp_file_roundtrip_witness:
  "\<exists>s' ps. send_file (annexb [([0, 0, 0, 1], [0x67, 0, 0, 3]), ([0, 0, 1], [0x65, 7]), ([0, 0, 1], [0x41])]) fresh_sender = Ok s' \<and>
    dealt s' = dealt fresh_sender @ ps \<and>
    recv_loop (replicate SEND_BUF_SIZE 0) (map Some ps) =
      Ok (received_file (butlast (map snd [([0, 0, 0, 1 :: uint8], [0x67, 0, 0, 3]), ([0, 0, 1], [0x65, 7]), ([0, 0, 1], [0x41])])))"
  by (rule rtp_file_roundtrip)
    (simp_all add: unit_ok_def start_codes_def conforming_def nal_type_def NAL_BUF_SIZE_def fresh_sender_def)

text \<open>
  C16. A NAL unit becomes as many packets as its size needs at 1400 bytes each, none larger than
  1414 bytes. Every packet starts with the twelve bytes of an RTP header of version 2, payload
  type 96, the time stamp of the unit and consecutive sequence numbers modulo 65535; the marker is set on
  the last fragment only. The payloads put together are the unit, without its first byte when it
  is fragmented.
\<close>

theorem h264naltortp_send_packets:
  assumes "nal \<noteq> []" "framerate \<noteq> 0" "length (SENDBUFFER s) = SEND_BUF_SIZE"
  shows "\<exists>s' ps. h264naltortp_send framerate nal (int (length nal)) s = Ok (0, s') \<and> dealt s' = dealt s @ ps \<and>
    length ps = (length nal + 1399) div 1400 \<and> (\<forall>p\<in>set ps. length p \<le> 1414) \<and>
    (\<forall>i<length ps. take 12 (ps ! i) =
       [0x80, 0x60 OR (if 1400 < length nal \<and> i = length ps - 1 then 0x80 else 0)]
       @ htons_bytes (word_of_int (uint (seq_num s + word_of_nat i + 1) mod 65535))
       @ htonl_bytes (ts_current s + word_of_int (90000 sdiv framerate)) @ [0, 0, 0, 10]) \<and>
    (if length nal \<le> 1400 then concat (map (drop 12) ps) = nal else concat (map (drop 14) ps) = tl nal)"
proof -
  obtain s' where s': "h264naltortp_send framerate nal (int (length nal)) s = Ok (0, s')"
    "ts_current s' = ts_current s + word_of_int (90000 sdiv framerate)" "dealt s' = dealt s @ nal_packets nal (seq_num s) (ts_current s')"
    using h264naltortp_send_ok [OF _ assms(1,2), of s] assms(3) by (auto simp: buf_ok_def)
  let ?ps = "nal_packets nal (seq_num s) (ts_current s')"
  have h: "rtp_bytes seq ts mark = [0x80, 0x60 OR push_bit 7 mark] @ htons_bytes (word_of_int (uint seq mod 65535)) @ htonl_bytes ts @ [0, 0, 0, 10]"
    for seq ts mark by (simp add: rtp_bytes_def rtp_header_bytes_def H264_def SSRC_NUM_def htonl_bytes_def)
  have "length ?ps = (length nal + 1399) div 1400" using nal_packets_count [OF assms(1)] by (simp add: RTP_PAYLOAD_MAX_SIZE_def)
  moreover have "\<forall>p\<in>set ?ps. length p \<le> 1414" using packet_sizes [OF assms(1)] by (fastforce simp: RTP_PAYLOAD_MAX_SIZE_def)
  moreover have "take 12 (?ps ! i) = [0x80, 0x60 OR (if 1400 < length nal \<and> i = length ?ps - 1 then 0x80 else 0)]
       @ htons_bytes (word_of_int (uint (seq_num s + word_of_nat i + 1) mod 65535))
       @ htonl_bytes (ts_current s + word_of_int (90000 sdiv framerate)) @ [0, 0, 0, 10]" if "i < length ?ps" for i
    using nal_packet_header [OF that] s'(2) unfolding h by (auto simp: RTP_PAYLOAD_MAX_SIZE_def)
  moreover have "if length nal \<le> 1400 then concat (map (drop 12) ?ps) = nal else concat (map (drop 14) ?ps) = tl nal"
  proof (cases "length nal \<le> 1400")
    case True
    then show ?thesis by (simp add: nal_packets_def RTP_PAYLOAD_MAX_SIZE_def)
  next
    case False
    then have l: "RTP_PAYLOAD_MAX_SIZE < length nal" by (simp add: RTP_PAYLOAD_MAX_SIZE_def)
    have "length nal \<le> RTP_PAYLOAD_MAX_SIZE * fu_pack_num (length nal)"
      using fu_pack_num_bounds [OF l] by (cases "fu_pack_num (length nal)") auto
    then show ?thesis
      using fragment_payloads [of "fu_pack_num (length nal)" nal "seq_num s" "ts_current s'" "fu_pack_num (length nal)"] fu_pack_num_bounds(1) [OF l] False
      by (simp add: nal_packets_def RTP_PAYLOAD_MAX_SIZE_def drop_Suc)
  qed
  ultimately show ?thesis using s'(1,3) by blast
qed

lemma h264naltortp_send_packets_witness:
  "\<exists>s' ps. h264naltortp_send 25 [0x65, 7] (int (length [0x65, 7 :: uint8])) fresh_sender = Ok (0, s') \<and> dealt s' = dealt fresh_sender @ ps \<and>
    length ps = (length [0x65, 7 :: uint8] + 1399) div 1400"
  using h264naltortp_send_packets [of "[0x65, 7]" 25 fresh_sender] by (force simp: fresh_sender_def)

text \<open>
  Sequence numbers are taken modulo 65535, so 65535 is never sent and around the wrap two
  packets in a row carry the sequence number 0: a receiver that follows RTP takes the second for
  a duplicate.
\<close>

theorem rtp_sequence_repeats:
  assumes "nal \<noteq> []" "length nal \<le> 1400" "length (SENDBUFFER s) = SEND_BUF_SIZE" "seq_num s = 65534"
  shows "\<exists>s1 s2 p q. h264naltortp_send 25 nal (int (length nal)) s = Ok (0, s1) \<and> h264naltortp_send 25 nal (int (length nal)) s1 = Ok (0, s2) \<and>
    dealt s2 = dealt s @ [p, q] \<and> take 2 (drop 2 p) = [0, 0] \<and> take 2 (drop 2 q) = [0, 0]"
proof -
  have b: "buf_ok s" using assms(3) by (simp add: buf_ok_def)
  have l: "length nal \<le> RTP_PAYLOAD_MAX_SIZE" using assms(2) by (simp add: RTP_PAYLOAD_MAX_SIZE_def)
  have one: "nal_packets nal seq ts = [rtp_bytes (seq + 1) ts 0 @ nal]" for seq ts using l by (simp add: nal_packets_def)
  obtain s1 where 1: "h264naltortp_send 25 nal (int (length nal)) s = Ok (0, s1)" "buf_ok s1" "seq_num s1 = 65535"
    "dealt s1 = dealt s @ [rtp_bytes 65535 (ts_current s1) 0 @ nal]"
    using h264naltortp_send_ok [OF b assms(1), of 25] assms(4) unfolding one by auto
  have wrap: "(65536 :: 16 word) = 0" by (simp add: word_uint_eq_iff)
  obtain s2 where 2: "h264naltortp_send 25 nal (int (length nal)) s1 = Ok (0, s2)" "dealt s2 = dealt s1 @ [rtp_bytes 0 (ts_current s2) 0 @ nal]"
    using h264naltortp_send_ok [OF 1(2) assms(1), of 25] 1(3) wrap unfolding one by auto
  have "take 2 (drop 2 (rtp_bytes 65535 ts 0 @ nal)) = [0, 0]" "take 2 (drop 2 (rtp_bytes 0 ts 0 @ nal)) = [0, 0]" for ts
    by (simp_all add: rtp_bytes_def rtp_header_bytes_def htons_bytes_def)
  then show ?thesis using 1(1,4) 2 by auto
qed

lemma rtp_sequence_repeats_witness:
  "\<exists>s1 s2 p q. h264naltortp_send 25 [0x65] (int (length [0x65 :: uint8])) (fresh_sender\<lparr>seq_num := 65534\<rparr>) = Ok (0, s1) \<and>
    h264naltortp_send 25 [0x65] (int (length [0x65 :: uint8])) s1 = Ok (0, s2) \<and>
    dealt s2 = dealt (fresh_sender\<lparr>seq_num := 65534\<rparr>) @ [p, q] \<and> take 2 (drop 2 p) = [0, 0] \<and> take 2 (drop 2 q) = [0, 0]"
  by (rule rtp_sequence_repeats) (simp_all add: fresh_sender_def)

text \<open>
  Whatever the buffer of the receiver holds, a datagram of fewer than 13 bytes, even an empty
  one, makes \<open>decode_rtp2h264\<close> write a huge amount of memory to the file: the size is negative.
\<close>

theorem decode_short_faults:
  assumes "length buf = SEND_BUF_SIZE" "0 \<le> len" "len < 13"
  shows "decode_rtp2h264 buf len = Err Fault"
  using assms by (auto simp: decode_rtp2h264_def load_def fwrite_bytes_def SEND_BUF_SIZE_def Let_def)

lemma decode_short_faults_witness: "decode_rtp2h264 (replicate SEND_BUF_SIZE 0) 0 = Err Fault"
  by (rule decode_short_faults) simp_all

end
