(* ===== verification/Llist.thy ===== *)
theory Llist
  imports PtrHeap CMem
begin

text \<open>
  The list of clients of src/Clang/media/h264_to_rtp/llist.c, with a header node, and what
  send_h264file_rtp.c does with it: adding a client and sending to all of them. Nodes live in a
  heap, \<open>malloc\<close> gives an address that was not given before, \<open>free\<close> takes the node away. A loop
  along the list is given one step for every address that was given out; a list that is longer
  is a cycle, and the loop that does not end is a \<open>Fault\<close>. C strings are texts without NUL.
  Sockets answer from scripts, and what is sent and closed is logged.
\<close>

section \<open>State\<close>

record client =
  ipaddr :: string
  socket_c :: int
  send_fail_n :: int
  nxt :: ptr

datatype net_event = Sent int string | Closed int

record lworld = world +
  cheap :: "client heap"
  brk :: ptr
  blank :: client
  sockets :: "int list"
  setopt_fails :: "bool list"
  connect_fails :: "bool list"
  send_fails :: "bool list"
  net_log :: "net_event list"

definition MAX_SEND_FAIL_N :: int where "MAX_SEND_FAIL_N = 29"

text \<open>A new node, whose fields nobody has set.\<close>

definition new_node :: "lworld \<Rightarrow> ptr \<times> lworld" where
  "new_node w =
     (let (ok, w) = malloc w in
      if ok then (brk w, w\<lparr>cheap := (cheap w)(brk w \<mapsto> blank w), brk := brk w + 1\<rparr>) else (0, w))"

definition free_node :: "client heap \<Rightarrow> ptr \<Rightarrow> client heap cres" where
  "free_node hp p = (if p = 0 then Ok hp else res_bind (deref hp p) (\<lambda>_. Ok (hp(p := None))))"

definition set_next :: "client heap \<Rightarrow> ptr \<Rightarrow> ptr \<Rightarrow> client heap cres" where
  "set_next hp p q = res_bind (deref hp p) (\<lambda>n. assign hp p (n\<lparr>nxt := q\<rparr>))"

section \<open>Operations of the list\<close>

definition create_null_list_link :: "lworld \<Rightarrow> (ptr \<times> lworld) cres" where
  "create_null_list_link w =
     (let (llist, w) = new_node w in
      if llist \<noteq> 0 then res_bind (set_next (cheap w) llist 0) (\<lambda>hp. Ok (llist, w\<lparr>cheap := hp\<rparr>)) else Ok (0, w))"

definition is_nulllist_link :: "client heap \<Rightarrow> ptr \<Rightarrow> bool cres" where
  "is_nulllist_link hp llist = res_bind (deref hp llist) (\<lambda>n. Ok (nxt n = 0))"

text \<open>\<open>strcpy\<close> has room for 16 bytes.\<close>

definition insert_link :: "ptr \<Rightarrow> string \<Rightarrow> lworld \<Rightarrow> (ptr \<times> lworld) cres" where
  "insert_link llist ip w =
     (let (q, w) = new_node w in
      if q = 0 then Ok (llist, w)
      else res_bind (no_ub (length ip < 16)) (\<lambda>_.
        res_bind (deref (cheap w) q) (\<lambda>nq.
        res_bind (deref (cheap w) llist) (\<lambda>nl.
        res_bind (assign (cheap w) q (nq\<lparr>ipaddr := ip, nxt := nxt nl\<rparr>)) (\<lambda>hp.
        res_bind (set_next hp llist q) (\<lambda>hp. Ok (llist, w\<lparr>cheap := hp\<rparr>)))))))"

text \<open>The loop of both deletions, with the condition they test: the heap and where \<open>p\<close> stops.\<close>

fun delete_loop :: "nat \<Rightarrow> (ptr \<Rightarrow> client \<Rightarrow> bool) \<Rightarrow> client heap \<Rightarrow> ptr \<Rightarrow> ptr \<Rightarrow> (client heap \<times> ptr) cres" where
  "delete_loop 0 test hp p q = Err Fault"
| "delete_loop (Suc n) test hp p q =
     res_bind (deref hp q) (\<lambda>nq.
     if test q nq then
       res_bind (set_next hp p (nxt nq)) (\<lambda>hp. res_bind (free_node hp q) (\<lambda>hp. Ok (hp, p)))
     else if nxt nq = 0 then Ok (hp, q) else delete_loop n test hp q (nxt nq))"

definition delete_node :: "ptr \<Rightarrow> string \<Rightarrow> lworld \<Rightarrow> (ptr \<times> lworld) cres" where
  "delete_node llist ip w =
     res_bind (deref (cheap w) llist) (\<lambda>nl.
     if nxt nl = 0 then Ok (llist, w)
     else res_bind (delete_loop (brk w) (\<lambda>_ n. ipaddr n = ip) (cheap w) llist (nxt nl)) (\<lambda>(hp, _). Ok (llist, w\<lparr>cheap := hp\<rparr>)))"

definition delete_this_node :: "ptr \<Rightarrow> ptr \<Rightarrow> lworld \<Rightarrow> (ptr \<times> lworld) cres" where
  "delete_this_node llist this_pnode w =
     res_bind (deref (cheap w) llist) (\<lambda>nl.
     if nxt nl = 0 then Ok (llist, w)
     else res_bind (delete_loop (brk w) (\<lambda>q _. q = this_pnode) (cheap w) llist (nxt nl)) (\<lambda>(hp, p). Ok (p, w\<lparr>cheap := hp\<rparr>)))"

fun search_loop :: "nat \<Rightarrow> string \<Rightarrow> client heap \<Rightarrow> ptr \<Rightarrow> ptr cres" where
  "search_loop 0 ip hp q = Err Fault"
| "search_loop (Suc n) ip hp q =
     res_bind (deref hp q) (\<lambda>nq.
     if ipaddr nq = ip then Ok q else if nxt nq = 0 then Ok 0 else search_loop n ip hp (nxt nq))"

definition search_node :: "ptr \<Rightarrow> string \<Rightarrow> lworld \<Rightarrow> ptr cres" where
  "search_node llist ip w =
     res_bind (deref (cheap w) llist) (\<lambda>nl.
     res_bind (is_nulllist_link (cheap w) llist) (\<lambda>b.
     if b then Ok 0 else search_loop (brk w) ip (cheap w) (nxt nl)))"

fun count_loop :: "nat \<Rightarrow> int \<Rightarrow> client heap \<Rightarrow> ptr \<Rightarrow> int cres" where
  "count_loop 0 k hp p = Err Fault"
| "count_loop (Suc n) k hp p = res_bind (deref hp p) (\<lambda>np. if nxt np \<noteq> 0 then count_loop n (k + 1) hp (nxt np) else Ok k)"

definition num_node :: "ptr \<Rightarrow> lworld \<Rightarrow> int cres" where
  "num_node llist w = count_loop (brk w) 0 (cheap w) llist"

definition insert_nodulp_node :: "ptr \<Rightarrow> string \<Rightarrow> lworld \<Rightarrow> (int \<times> lworld) cres" where
  "insert_nodulp_node llist ip w =
     res_bind (search_node llist ip w) (\<lambda>p.
     if p = 0 then res_bind (insert_link llist ip w) (\<lambda>(_, w). Ok (1, w)) else Ok (0, w))"

fun free_loop :: "nat \<Rightarrow> client heap \<Rightarrow> ptr \<Rightarrow> ptr \<Rightarrow> client heap cres" where
  "free_loop 0 hp llist q = Err Fault"
| "free_loop (Suc n) hp llist q =
     res_bind (deref hp llist) (\<lambda>nl.
     res_bind (free_node hp (nxt nl)) (\<lambda>hp.
     res_bind (set_next hp llist q) (\<lambda>hp.
     res_bind (deref hp q) (\<lambda>nq.
     if nxt nq \<noteq> 0 then free_loop n hp llist (nxt nq) else Ok hp))))"

definition free_linklist :: "ptr \<Rightarrow> lworld \<Rightarrow> (int \<times> lworld) cres" where
  "free_linklist llist w =
     res_bind (deref (cheap w) llist) (\<lambda>nl.
     if nxt nl = 0 then Ok (0, w)
     else res_bind (deref (cheap w) (nxt nl)) (\<lambda>n1.
       res_bind (free_loop (brk w) (cheap w) llist (nxt n1)) (\<lambda>hp. Ok (1, w\<lparr>cheap := hp\<rparr>))))"

section \<open>Clients\<close>

text \<open>\<open>g\<close> is \<open>CLIENT_IP_LIST\<close>. A failing \<open>setsockopt\<close> or \<open>connect\<close> ends the program.\<close>

definition add_client_to_list :: "ptr \<Rightarrow> ptr \<Rightarrow> string \<Rightarrow> lworld \<Rightarrow> lworld cres" where
  "add_client_to_list g client_ip_list ip w =
     res_bind (insert_nodulp_node client_ip_list ip w) (\<lambda>(_, w).
     res_bind (search_node g ip w) (\<lambda>p.
     res_bind (deref (cheap w) p) (\<lambda>n.
     let s = (case sockets w of [] \<Rightarrow> -1 | s # _ \<Rightarrow> s); opt_fails = (setopt_fails w \<noteq> [] \<and> hd (setopt_fails w)) in
     res_bind (assign (cheap w) p (n\<lparr>send_fail_n := 0, socket_c := s\<rparr>)) (\<lambda>hp.
     let w = w\<lparr>cheap := hp, sockets := tl (sockets w), setopt_fails := tl (setopt_fails w)\<rparr> in
     if opt_fails then Err Abort
     else if connect_fails w \<noteq> [] \<and> hd (connect_fails w) then Err Abort
     else Ok (w\<lparr>connect_fails := tl (connect_fails w)\<rparr>)))))"

text \<open>One \<open>send\<close> for every client. \<open>errno\<close> is positive after a failure.\<close>

definition send_client :: "string \<Rightarrow> ptr \<Rightarrow> lworld \<Rightarrow> lworld cres" where
  "send_client buf p w =
     res_bind (deref (cheap w) p) (\<lambda>n.
     let fails = (send_fails w \<noteq> [] \<and> hd (send_fails w));
         w = w\<lparr>send_fails := tl (send_fails w), net_log := net_log w @ [Sent (socket_c n) buf]\<rparr> in
     if fails then
       let n = n\<lparr>send_fail_n := send_fail_n n + 1\<rparr> in
       res_bind (assign (cheap w) p n) (\<lambda>hp.
       let w = w\<lparr>cheap := hp\<rparr> in
       Ok (if send_fail_n n > MAX_SEND_FAIL_N then w\<lparr>net_log := net_log w @ [Closed (socket_c n)]\<rparr> else w))
     else Ok w)"

fun send_loop :: "nat \<Rightarrow> string \<Rightarrow> ptr \<Rightarrow> lworld \<Rightarrow> lworld cres" where
  "send_loop n buf p w =
     (if p = 0 then Ok w
      else case n of 0 \<Rightarrow> Err Fault
      | Suc n \<Rightarrow> res_bind (send_client buf p w) (\<lambda>w. res_bind (deref (cheap w) p) (\<lambda>nd. send_loop n buf (nxt nd) w)))"

definition send_data_to_client_list :: "string \<Rightarrow> ptr \<Rightarrow> lworld \<Rightarrow> lworld cres" where
  "send_data_to_client_list buf client_ip_list w =
     res_bind (deref (cheap w) client_ip_list) (\<lambda>nl. send_loop (brk w) buf (nxt nl) w)"

declare send_loop.simps [simp del]

end
