(* ===== verification/LlistProps.thy ===== *)
theory LlistProps
  imports Llist
begin

text \<open>
  Properties of the client list of src/Clang/media/h264_to_rtp: programs of operations against
  lists of addresses, sending to every client, and what freeing the list leaves.
\<close>

section \<open>Lists of clients in memory\<close>

text \<open>\<open>ps\<close> are the nodes after the header \<open>l\<close>; nothing else is allocated.\<close>

definition llist_at :: "lworld \<Rightarrow> ptr \<Rightarrow> ptr list \<Rightarrow> bool" where
  "llist_at w l ps \<longleftrightarrow> chain nxt (cheap w) l (l # ps) 0 \<and> distinct (l # ps) \<and> dom (cheap w) = set (l # ps) \<and>
     (\<forall>p\<in>set (l # ps). p < brk w)"

definition ip_at :: "client heap \<Rightarrow> ptr \<Rightarrow> string" where
  "ip_at hp p = (case hp p of Some n \<Rightarrow> ipaddr n | None \<Rightarrow> [])"

definition ips :: "lworld \<Rightarrow> ptr list \<Rightarrow> string list" where
  "ips w ps = map (ip_at (cheap w)) ps"

lemma distinct_bounded: "distinct ps \<Longrightarrow> \<forall>p\<in>set ps. p < n \<Longrightarrow> length ps \<le> (n :: nat)"
  using card_mono [of "{..<n}" "set ps"] distinct_card [of ps] by auto

lemma llist_atD:
  assumes "llist_at w l ps"
  shows "\<exists>n. cheap w l = Some n \<and> chain nxt (cheap w) (nxt n) ps 0" "l \<noteq> 0" "l \<notin> set ps" "distinct ps" "length ps < brk w"
    "brk w \<noteq> 0" "cheap w (brk w) = None" "dom (cheap w) = insert l (set ps)" "\<And>p. p \<in> set ps \<Longrightarrow> p \<noteq> 0 \<and> p < brk w" "l < brk w"
proof -
  have c: "chain nxt (cheap w) l (l # ps) 0" using assms by (simp add: llist_at_def)
  then show "\<exists>n. cheap w l = Some n \<and> chain nxt (cheap w) (nxt n) ps 0" "l \<noteq> 0" by (auto split: option.splits)
  show "l \<notin> set ps" "distinct ps" "dom (cheap w) = insert l (set ps)" "l < brk w" using assms by (simp_all add: llist_at_def)
  show "p \<noteq> 0 \<and> p < brk w" if "p \<in> set ps" for p using chain_node [OF c, of p] assms that by (auto simp: llist_at_def)
  have "length (l # ps) \<le> brk w" using assms distinct_bounded [of "l # ps" "brk w"] by (simp add: llist_at_def)
  then show "length ps < brk w" "brk w \<noteq> 0" by auto
  have "brk w \<notin> set (l # ps)" using assms by (auto simp: llist_at_def)
  then show "cheap w (brk w) = None" using assms by (auto simp: llist_at_def dom_def)
qed

lemma chain_Cons_iff: "chain nxt hp q (p # ps) 0 \<longleftrightarrow> q = p \<and> p \<noteq> 0 \<and> (\<exists>n. hp p = Some n \<and> chain nxt hp (nxt n) ps 0)"
  by (auto split: option.splits)

section \<open>Loops\<close>

lemma search_loop_ok:
  "chain nxt hp q ps 0 \<Longrightarrow> ps \<noteq> [] \<Longrightarrow> length ps \<le> n \<Longrightarrow>
     search_loop n ip hp q = Ok (case filter (\<lambda>p. ip_at hp p = ip) ps of [] \<Rightarrow> 0 | p # _ \<Rightarrow> p)"
proof (induction ps arbitrary: q n)
  case (Cons p ps)
  obtain k where n: "n = Suc k" "length ps \<le> k" using Cons.prems(3) by (cases n) auto
  obtain nd where nd: "q = p" "p \<noteq> 0" "hp p = Some nd" "chain nxt hp (nxt nd) ps 0" using Cons.prems(1) unfolding chain_Cons_iff by blast
  show ?case
  proof (cases "ps = []")
    case True
    then show ?thesis using n nd by (auto simp: ip_at_def)
  next
    case False
    then have "nxt nd \<noteq> 0" using chain_start [OF nd(4)] by simp
    then show ?thesis using n nd Cons.IH [OF nd(4) False n(2)] by (auto simp: ip_at_def)
  qed
qed simp

lemma search_node_ok:
  assumes "llist_at w l ps"
  shows "search_node l ip w = Ok (case filter (\<lambda>p. ip_at (cheap w) p = ip) ps of [] \<Rightarrow> 0 | p # _ \<Rightarrow> p)"
proof -
  note a = llist_atD [OF assms]
  obtain n where n: "cheap w l = Some n" "chain nxt (cheap w) (nxt n) ps 0" using a(1) by blast
  show ?thesis
    using n a(2,5) chain_start [OF n(2)] search_loop_ok [OF n(2), of "brk w" ip]
    by (cases "ps = []") (simp_all add: search_node_def is_nulllist_link_def)
qed

lemma count_loop_ok:
  "chain nxt hp q ps 0 \<Longrightarrow> ps \<noteq> [] \<Longrightarrow> length ps \<le> n \<Longrightarrow> count_loop n k hp q = Ok (k + int (length ps) - 1)"
proof (induction ps arbitrary: q n k)
  case (Cons p ps)
  obtain m where n: "n = Suc m" "length ps \<le> m" using Cons.prems(3) by (cases n) auto
  obtain nd where nd: "q = p" "p \<noteq> 0" "hp p = Some nd" "chain nxt hp (nxt nd) ps 0" using Cons.prems(1) unfolding chain_Cons_iff by blast
  show ?case
    using n nd chain_start [OF nd(4)] Cons.IH [OF nd(4) _ n(2), of "k + 1"] by (cases "ps = []") simp_all
qed simp

lemma num_node_ok: "llist_at w l ps \<Longrightarrow> num_node l w = Ok (int (length ps))"
  using count_loop_ok [of "cheap w" l "l # ps" "brk w" 0] llist_atD(5) [of w l ps] by (simp add: num_node_def llist_at_def)

text \<open>The loop of the deletions: it stops at the first node that passes the test.\<close>

definition hit :: "(ptr \<Rightarrow> client \<Rightarrow> bool) \<Rightarrow> client heap \<Rightarrow> ptr \<Rightarrow> bool" where
  "hit test hp q \<longleftrightarrow> (case hp q of Some n \<Rightarrow> test q n | None \<Rightarrow> False)"

lemma delete_loop_none:
  "chain nxt hp q ps 0 \<Longrightarrow> ps \<noteq> [] \<Longrightarrow> length ps \<le> n \<Longrightarrow> \<forall>a\<in>set ps. \<not> hit test hp a \<Longrightarrow> delete_loop n test hp p q = Ok (hp, last ps)"
proof (induction ps arbitrary: p q n)
  case (Cons a ps)
  obtain m where n: "n = Suc m" "length ps \<le> m" using Cons.prems(3) by (cases n) auto
  obtain nd where nd: "q = a" "a \<noteq> 0" "hp a = Some nd" "chain nxt hp (nxt nd) ps 0" using Cons.prems(1) unfolding chain_Cons_iff by blast
  have "\<not> test a nd" using Cons.prems(4) nd(3) by (simp add: hit_def)
  then show ?case
    using n nd chain_start [OF nd(4)] Cons.IH [OF nd(4) _ n(2), of q] Cons.prems(4) by (cases "ps = []") simp_all
qed simp

lemma delete_loop_hit:
  "chain nxt hp p (p # as @ b # bs) 0 \<Longrightarrow> distinct (p # as @ b # bs) \<Longrightarrow> length as < n \<Longrightarrow> \<forall>a\<in>set as. \<not> hit test hp a \<Longrightarrow> hit test hp b \<Longrightarrow>
   hp p = Some np \<Longrightarrow>
     \<exists>x nx nb. delete_loop n test hp p (nxt np) = Ok ((hp(x \<mapsto> nx\<lparr>nxt := nxt nb\<rparr>))(b := None), x) \<and> x = last (p # as) \<and> hp x = Some nx \<and> hp b = Some nb"
proof (induction as arbitrary: p np n)
  case Nil
  obtain m where n: "n = Suc m" using Nil.prems(3) by (cases n) auto
  obtain nb where b: "hp b = Some nb" "test b nb" "b \<noteq> 0" "nxt np = b" "p \<noteq> 0" "b \<noteq> p"
    using Nil.prems by (auto simp: hit_def split: option.splits)
  then have "delete_loop n test hp p (nxt np) = Ok ((hp(p \<mapsto> np\<lparr>nxt := nxt nb\<rparr>))(b := None), p)"
    using n Nil.prems(6) by (simp add: set_next_def free_node_def)
  then show ?case using Nil.prems(6) b(1) by auto
next
  case (Cons a as)
  obtain m where n: "n = Suc m" "length as < m" using Cons.prems(3) by (cases n) auto
  obtain na where a: "hp a = Some na" "nxt np = a" "a \<noteq> 0" using Cons.prems(1,6) by (auto split: option.splits)
  have c: "chain nxt hp a (a # as @ b # bs) 0" using Cons.prems(1,6) a(2) by simp
  have "as @ b # bs \<noteq> []" by simp
  then have "nxt na \<noteq> 0" using c a(1) chain_start by auto
  moreover have "\<not> test a na" using Cons.prems(4) a(1) by (simp add: hit_def)
  ultimately have "delete_loop n test hp p (nxt np) = delete_loop m test hp a (nxt na)" using n(1) a by simp
  then show ?case using Cons.IH [OF c _ n(2) _ Cons.prems(5) a(1)] Cons.prems(2,4) by fastforce
qed

section \<open>Changes of the list\<close>

lemma unlink_at:
  assumes "llist_at w l (as @ b # bs)" "x = last (l # as)" "cheap w x = Some nx" "cheap w b = Some nb"
    and w': "w' = w\<lparr>cheap := ((cheap w)(x \<mapsto> nx\<lparr>nxt := nxt nb\<rparr>))(b := None)\<rparr>"
  shows "llist_at w' l (as @ bs)" "ips w' (as @ bs) = ips w (as @ bs)"
proof -
  let ?hp = "(cheap w)(x \<mapsto> nx\<lparr>nxt := nxt nb\<rparr>)"
  define xs where "xs = butlast (l # as)"
  have l: "l # as = xs @ [x]" using assms(2) append_butlast_last_id [of "l # as"] by (simp add: xs_def del: butlast.simps last.simps)
  have full: "l # as @ r = xs @ x # r" for r using l by (metis append.assoc append_Cons append_Nil)
  have d: "distinct (xs @ x # b # bs)" and c: "chain nxt (cheap w) l (xs @ x # b # bs) 0" and dm: "dom (cheap w) = set (xs @ x # b # bs)"
    using assms(1) unfolding llist_at_def full by blast+
  have "chain nxt (cheap w) l ((xs @ [x]) @ b # bs) 0" using c by simp
  then obtain nb' where c1: "chain nxt (cheap w) l (xs @ [x]) b" "cheap w b = Some nb'" "chain nxt (cheap w) (nxt nb') bs 0"
    by (rule chain_split)
  have "chain nxt ?hp l (xs @ x # bs) 0"
    by (rule chain_relink [OF c1(1), of _ "nxt nb"]) (use c1 assms(4) d in auto)
  moreover have "b \<notin> set (xs @ x # bs)" using d by auto
  ultimately have "chain nxt (?hp(b := None)) l (xs @ x # bs) 0" by simp
  moreover have "dom (?hp(b := None)) = set (xs @ x # bs)" using d dm by auto
  ultimately show "llist_at w' l (as @ bs)" using assms(1) d unfolding llist_at_def full w' by simp
  have "b \<notin> set (as @ bs)" using assms(1) by (auto simp: llist_at_def)
  then show "ips w' (as @ bs) = ips w (as @ bs)"
    using assms(3) w' by (auto simp: ips_def ip_at_def)
qed

lemma delete_ok:
  assumes "llist_at w l ps" "cheap w l = Some nl" "ps \<noteq> []"
  shows "(\<forall>p\<in>set ps. \<not> hit test (cheap w) p) \<Longrightarrow> delete_loop (brk w) test (cheap w) l (nxt nl) = Ok (cheap w, last ps)"
    "ps = as @ b # bs \<Longrightarrow> \<forall>a\<in>set as. \<not> hit test (cheap w) a \<Longrightarrow> hit test (cheap w) b \<Longrightarrow>
     \<exists>hp. delete_loop (brk w) test (cheap w) l (nxt nl) = Ok (hp, last (l # as)) \<and> llist_at (w\<lparr>cheap := hp\<rparr>) l (as @ bs) \<and>
       ips (w\<lparr>cheap := hp\<rparr>) (as @ bs) = ips w (as @ bs)"
proof -
  note a = llist_atD [OF assms(1)]
  have c: "chain nxt (cheap w) (nxt nl) ps 0" using a(1) assms(2) by auto
  show "(\<forall>p\<in>set ps. \<not> hit test (cheap w) p) \<Longrightarrow> delete_loop (brk w) test (cheap w) l (nxt nl) = Ok (cheap w, last ps)"
    using delete_loop_none [OF c assms(3), of "brk w" test l] a(5) by simp
  show "\<exists>hp. delete_loop (brk w) test (cheap w) l (nxt nl) = Ok (hp, last (l # as)) \<and> llist_at (w\<lparr>cheap := hp\<rparr>) l (as @ bs) \<and>
       ips (w\<lparr>cheap := hp\<rparr>) (as @ bs) = ips w (as @ bs)"
    if ps: "ps = as @ b # bs" and h: "\<forall>a\<in>set as. \<not> hit test (cheap w) a" "hit test (cheap w) b"
  proof -
    have "chain nxt (cheap w) l (l # as @ b # bs) 0" "distinct (l # as @ b # bs)" "length as < brk w"
      using assms(1) a(5) ps by (auto simp: llist_at_def)
    from delete_loop_hit [OF this h assms(2)] obtain x nx nb where
      r: "delete_loop (brk w) test (cheap w) l (nxt nl) = Ok (((cheap w)(x \<mapsto> nx\<lparr>nxt := nxt nb\<rparr>))(b := None), x)" "x = last (l # as)"
        "cheap w x = Some nx" "cheap w b = Some nb" by blast
    from unlink_at [OF assms(1) [unfolded ps] r(2-4) refl] r(1,2) show ?thesis by auto
  qed
qed

section \<open>Freeing\<close>

lemma free_loop_ok:
  "hp l = Some nl \<Longrightarrow> nxt nl = p \<Longrightarrow> chain nxt hp p (p # q # rs) 0 \<Longrightarrow> distinct (l # p # q # rs) \<Longrightarrow> l \<noteq> 0 \<Longrightarrow> length rs < n \<Longrightarrow>
     free_loop n hp l q = Ok ((hp |` (- set (butlast (p # q # rs))))(l \<mapsto> nl\<lparr>nxt := last (q # rs)\<rparr>))"
proof (induction rs arbitrary: hp nl p q n)
  case Nil
  obtain m where n: "n = Suc m" using Nil.prems(6) by (cases n) auto
  obtain nq where q: "hp q = Some nq" "q \<noteq> 0" "nxt nq = 0" "p \<noteq> 0" "hp p \<noteq> None" using Nil.prems(3) by (auto split: option.splits)
  have "free_loop n hp l q = Ok ((hp(p := None))(l \<mapsto> nl\<lparr>nxt := q\<rparr>))"
    using n q Nil.prems(1,2,4,5) by (auto simp: free_node_def set_next_def)
  moreover have "(hp(p := None))(l \<mapsto> nl\<lparr>nxt := q\<rparr>) = (hp |` (- {p}))(l \<mapsto> nl\<lparr>nxt := q\<rparr>)" by (auto simp: fun_eq_iff restrict_map_def)
  ultimately show ?case by (simp add: fun_eq_iff)
next
  case (Cons r rs)
  obtain m where n: "n = Suc m" "length rs < m" using Cons.prems(6) by (cases n) auto
  obtain np nq where q: "hp p = Some np" "p \<noteq> 0" "hp q = Some nq" "q \<noteq> 0" "nxt nq = r" "r \<noteq> 0" "chain nxt hp q (q # r # rs) 0"
    using Cons.prems(3) by (auto split: option.splits)
  let ?hp = "(hp(p := None))(l \<mapsto> nl\<lparr>nxt := q\<rparr>)"
  have "free_loop n hp l q = free_loop m ?hp l r"
    using n(1) q(1-6) Cons.prems(1,2,4,5) by (auto simp: free_node_def set_next_def)
  also have "\<dots> = Ok ((?hp |` (- set (butlast (q # r # rs))))(l \<mapsto> (nl\<lparr>nxt := q\<rparr>)\<lparr>nxt := last (r # rs)\<rparr>))"
  proof (rule Cons.IH [OF _ _ _ _ Cons.prems(5) n(2)])
    have "l \<notin> set (q # r # rs)" "p \<notin> set (q # r # rs)" using Cons.prems(4) by auto
    then show "chain nxt ?hp q (q # r # rs) 0" using q(7) chain_upd by metis
  qed (use Cons.prems(4) in auto)
  also have "(?hp |` (- set (butlast (q # r # rs))))(l \<mapsto> (nl\<lparr>nxt := q\<rparr>)\<lparr>nxt := last (r # rs)\<rparr>) =
    (hp |` (- set (butlast (p # q # r # rs))))(l \<mapsto> nl\<lparr>nxt := last (q # r # rs)\<rparr>)"
    by (auto simp: fun_eq_iff restrict_map_def)
  finally show ?case .
qed

text \<open>
  \<open>free_linklist\<close> dereferences NULL on a list of one client, and on a longer one it reports
  success but frees all clients except the last, which stays in the list.
\<close>

lemma free_linklist_keeps_last:
  assumes "llist_at w l ps" "ps \<noteq> []"
  shows "if length ps = 1 then free_linklist l w = Err Fault
    else \<exists>w'. free_linklist l w = Ok (1, w') \<and> oom_script w' = oom_script w \<and> brk w' = brk w \<and> llist_at w' l [last ps] \<and> ip_at (cheap w') (last ps) = ip_at (cheap w) (last ps)"
proof -
  note a = llist_atD [OF assms(1)]
  obtain n where n: "cheap w l = Some n" "chain nxt (cheap w) (nxt n) ps 0" using a(1) by blast
  obtain p qs where ps: "ps = p # qs" using assms(2) by (cases ps) auto
  obtain np where p: "nxt n = p" "p \<noteq> 0" "cheap w p = Some np" "chain nxt (cheap w) (nxt np) qs 0"
    using n(2) ps unfolding ps chain_Cons_iff by blast
  obtain k where k: "brk w = Suc k" using a(6) by (cases "brk w") auto
  show ?thesis
  proof (cases qs)
    case Nil
    then have "nxt np = 0" "p \<noteq> l" using p(4) a(3) ps by auto
    then show ?thesis using Nil ps n(1) a(2) p(1-3) k by (simp add: free_linklist_def free_node_def set_next_def)
  next
    case (Cons q rs)
    have q: "nxt np = q" using p(4) Cons by simp
    let ?hp = "((cheap w) |` (- set (butlast (p # q # rs))))(l \<mapsto> n\<lparr>nxt := last (q # rs)\<rparr>)"
    have "free_loop (brk w) (cheap w) l q = Ok ?hp"
      by (rule free_loop_ok [where p = p and rs = rs]) (use n(1) p(1) n(2) a(2-5) ps Cons p(1) in auto)
    then have run: "free_linklist l w = Ok (1, w\<lparr>cheap := ?hp\<rparr>)" using n(1) a(2) p q by (simp add: free_linklist_def)
    let ?z = "last (q # rs)"
    have z: "?z \<in> set ps" "?z \<notin> set (butlast (p # q # rs))" "set ps = insert ?z (set (butlast (p # q # rs)))"
    proof -
      have eq: "p # q # rs = butlast (p # q # rs) @ [?z]" using append_butlast_last_id [of "p # q # rs"] by simp
      then have "distinct (butlast (p # q # rs) @ [?z])" using a(4) ps Cons by metis
      then show "?z \<notin> set (butlast (p # q # rs))" by simp
      have "set ps = set (butlast (p # q # rs) @ [?z])" using eq ps Cons by metis
      then show "?z \<in> set ps" "set ps = insert ?z (set (butlast (p # q # rs)))" by auto
    qed
    obtain m nz where nz: "cheap w ?z = Some nz" "nxt nz = 0"
    proof -
      have "chain nxt (cheap w) p (butlast (p # q # rs) @ [?z]) 0"
        using n(2) ps Cons p(1) append_butlast_last_id [of "p # q # rs"] by (metis last.simps list.distinct(1))
      then show thesis using that by (auto simp: chain_append split: option.splits)
    qed
    have "l \<noteq> ?z" "?z \<noteq> 0" "?z < brk w" using z(1) a(3,9) by auto
    moreover have "dom ?hp = {l, ?z}" using a(3,8) z by (auto simp: dom_def restrict_map_def)
    ultimately have "llist_at (w\<lparr>cheap := ?hp\<rparr>) l [?z]"
      using nz z(2) a(2,10) by (simp add: llist_at_def)
    moreover have "ip_at ?hp ?z = ip_at (cheap w) ?z"
      using \<open>l \<noteq> ?z\<close> z(2) unfolding ip_at_def restrict_map_def by (simp del: butlast.simps last.simps)
    moreover have "last ps = ?z" using ps Cons by simp
    ultimately show ?thesis using run ps Cons by (intro if_not_P [THEN iffD2] exI [of _ "w\<lparr>cheap := ?hp\<rparr>"]) simp_all
  qed
qed

section \<open>Programs of operations\<close>

text \<open>Every operation on an existing list; the pointer of \<open>delete_this_node\<close> is any pointer.\<close>

datatype lop = Op_insert string | Op_insert_once string | Op_delete string | Op_delete_this ptr | Op_count | Op_empty
  | Op_search string | Op_free

definition llist_op :: "ptr \<Rightarrow> lop \<Rightarrow> lworld \<Rightarrow> (int \<times> lworld) cres" where
  "llist_op l c w =
     (case c of
        Op_insert ip \<Rightarrow> res_bind (insert_link l ip w) (\<lambda>(p, w). Ok (int p, w))
      | Op_insert_once ip \<Rightarrow> insert_nodulp_node l ip w
      | Op_delete ip \<Rightarrow> res_bind (delete_node l ip w) (\<lambda>(p, w). Ok (int p, w))
      | Op_delete_this p \<Rightarrow> res_bind (delete_this_node l p w) (\<lambda>(p, w). Ok (int p, w))
      | Op_count \<Rightarrow> res_bind (num_node l w) (\<lambda>n. Ok (n, w))
      | Op_empty \<Rightarrow> res_bind (is_nulllist_link (cheap w) l) (\<lambda>b. Ok (if b then 1 else 0, w))
      | Op_search ip \<Rightarrow> res_bind (search_node l ip w) (\<lambda>p. Ok (int p, w))
      | Op_free \<Rightarrow> free_linklist l w)"

fun llist_ops :: "ptr \<Rightarrow> lop list \<Rightarrow> lworld \<Rightarrow> (int list \<times> lworld) cres" where
  "llist_ops l [] w = Ok ([], w)"
| "llist_ops l (c # cs) w = res_bind (llist_op l c w) (\<lambda>(r, w). res_bind (llist_ops l cs w) (\<lambda>(rs, w). Ok (r # rs, w)))"

text \<open>The specification: which requests for memory will be refused, the next address, and the clients in order, each with
  its address in memory and its network address. \<open>None\<close> is undefined behaviour.\<close>

type_synonym clients = "(ptr \<times> string) list"
type_synonym lspec = "bool list \<times> ptr \<times> clients"

definition refused :: "bool list \<Rightarrow> bool" where
  "refused bs \<longleftrightarrow> bs \<noteq> [] \<and> hd bs"

definition add_client :: "string \<Rightarrow> lspec \<Rightarrow> lspec option" where
  "add_client ip = (\<lambda>(bs, k, xs).
     if refused bs then Some (tl bs, k, xs) else if length ip < 16 then Some (tl bs, k + 1, (k, ip) # xs) else None)"

text \<open>The clients without the first one that passes a test.\<close>

definition without :: "(ptr \<times> string \<Rightarrow> bool) \<Rightarrow> clients \<Rightarrow> clients" where
  "without P xs = takeWhile (\<lambda>x. \<not> P x) xs @ tl (dropWhile (\<lambda>x. \<not> P x) xs)"

fun list_op :: "ptr \<Rightarrow> lop \<Rightarrow> lspec \<Rightarrow> (int \<times> lspec) option" where
  "list_op l (Op_insert ip) s = map_option (\<lambda>s. (int l, s)) (add_client ip s)"
| "list_op l (Op_insert_once ip) (bs, k, xs) =
     (if ip \<in> snd ` set xs then Some (0, bs, k, xs) else map_option (\<lambda>s. (1, s)) (add_client ip (bs, k, xs)))"
| "list_op l (Op_delete ip) (bs, k, xs) = Some (int l, bs, k, without (\<lambda>x. snd x = ip) xs)"
| "list_op l (Op_delete_this p) (bs, k, xs) =
     Some (int (last (l # map fst (takeWhile (\<lambda>x. fst x \<noteq> p) xs))), bs, k, without (\<lambda>x. fst x = p) xs)"
| "list_op l Op_count (bs, k, xs) = Some (int (length xs), bs, k, xs)"
| "list_op l Op_empty (bs, k, xs) = Some (if xs = [] then 1 else 0, bs, k, xs)"
| "list_op l (Op_search ip) (bs, k, xs) = Some (case filter (\<lambda>x. snd x = ip) xs of [] \<Rightarrow> 0 | x # _ \<Rightarrow> int (fst x), bs, k, xs)"
| "list_op l Op_free (bs, k, xs) = (case xs of [] \<Rightarrow> Some (0, bs, k, xs) | [x] \<Rightarrow> None | _ \<Rightarrow> Some (1, bs, k, [last xs]))"

fun list_ops :: "ptr \<Rightarrow> lop list \<Rightarrow> lspec \<Rightarrow> (int list \<times> lspec) option" where
  "list_ops l [] s = Some ([], s)"
| "list_ops l (c # cs) s = Option.bind (list_op l c s) (\<lambda>(r, s). map_option (\<lambda>(rs, s). (r # rs, s)) (list_ops l cs s))"

text \<open>The memory holds the clients and the header, and nothing else.\<close>

definition holds_clients :: "ptr \<Rightarrow> lspec \<Rightarrow> lworld \<Rightarrow> bool" where
  "holds_clients l = (\<lambda>(bs, k, xs) w.
     oom_script w = bs \<and> brk w = k \<and> llist_at w l (map fst xs) \<and> ips w (map fst xs) = map snd xs)"

lemma malloc_refused: "malloc w = (\<not> refused (oom_script w), w\<lparr>oom_script := tl (oom_script w)\<rparr>)"
  by (cases "oom_script w") (simp_all add: malloc_def refused_def)

lemma ips_nth: "ips w (map fst xs) = map snd xs \<Longrightarrow> x \<in> set xs \<Longrightarrow> ip_at (cheap w) (fst x) = snd x"
  by (auto simp: ips_def)

text \<open>What an operation leaves, against what the specification says.\<close>

definition answers :: "ptr \<Rightarrow> (int \<times> lworld) cres \<Rightarrow> (int \<times> lspec) option \<Rightarrow> bool" where
  "answers l r s \<longleftrightarrow> (case s of None \<Rightarrow> r = Err Fault | Some (a, s') \<Rightarrow> \<exists>w'. r = Ok (a, w') \<and> holds_clients l s' w')"

lemma insert_link_ok:
  assumes "holds_clients l s w"
  shows "answers l (res_bind (insert_link l ip w) (\<lambda>(p, w). Ok (f p, w))) (map_option (\<lambda>s. (f l, s)) (add_client ip s))"
proof -
  obtain bs k xs where s: "s = (bs, k, xs)" by (cases s) auto
  have h: "oom_script w = bs" "brk w = k" "llist_at w l (map fst xs)" "ips w (map fst xs) = map snd xs"
    using assms by (simp_all add: s holds_clients_def)
  note b = llist_atD [OF h(3)]
  obtain n where n: "cheap w l = Some n" "chain nxt (cheap w) (nxt n) (map fst xs) 0" using b(1) by blast
  let ?h = "(cheap w)(k \<mapsto> (blank w)\<lparr>ipaddr := ip, nxt := nxt n\<rparr>)"
  let ?w = "w\<lparr>oom_script := tl bs, cheap := ?h(l \<mapsto> n\<lparr>nxt := k\<rparr>), brk := k + 1\<rparr>"
  have ne: "l \<noteq> k" "k \<notin> set (map fst xs)" "k \<noteq> 0" using b(6,7,8) n(1) h(2) by auto
  show ?thesis
  proof (cases "refused bs \<or> \<not> length ip < 16")
    case True
    have "llist_at (w\<lparr>oom_script := tl bs\<rparr>) l ps = llist_at w l ps" "ips (w\<lparr>oom_script := tl bs\<rparr>) ps = ips w ps" for ps
      by (simp_all add: llist_at_def ips_def)
    with True show ?thesis
      using h b(6) by (auto simp: answers_def s add_client_def insert_link_def new_node_def malloc_refused Let_def no_ub_def holds_clients_def)
  next
    case False
    then have "insert_link l ip w = Ok (l, ?w)"
      using n(1) b(2) h ne by (simp add: insert_link_def new_node_def malloc_refused set_next_def Let_def)
    moreover have "ips ?w (k # map fst xs) = ip # map snd xs" using ne b(3) h(4) by (auto simp: ips_def ip_at_def)
    moreover have below: "\<And>x. x \<in> set xs \<Longrightarrow> fst x < k + 1" using b(9) h(2) by (force intro: less_SucI)
    have "chain nxt (cheap ?w) l (l # k # map fst xs) 0" using n(2) ne b(2,3) by simp
    then have "llist_at ?w l (k # map fst xs)"
      using b(2,3,4,8,10) ne h(2) below unfolding llist_at_def by (auto simp del: chain.simps)
    ultimately show ?thesis using False by (simp add: answers_def s add_client_def holds_clients_def)
  qed
qed

text \<open>Both deletions.\<close>

lemma delete_with_ok:
  assumes "holds_clients l (bs, k, xs) w" "cheap w l = Some n" "xs \<noteq> []"
    and test: "\<And>x. x \<in> set xs \<Longrightarrow> hit test (cheap w) (fst x) = P x"
  shows "\<exists>hp. delete_loop (brk w) test (cheap w) l (nxt n) = Ok (hp, last (l # map fst (takeWhile (\<lambda>x. \<not> P x) xs))) \<and>
    holds_clients l (bs, k, without P xs) (w\<lparr>cheap := hp\<rparr>)"
proof (cases "\<exists>x\<in>set xs. P x")
  case False
  then have "\<forall>p\<in>set (map fst xs). \<not> hit test (cheap w) p" using test by auto
  then have d: "delete_loop (brk w) test (cheap w) l (nxt n) = Ok (cheap w, last (map fst xs))"
    using delete_ok(1) [of w l "map fst xs" n] assms by (simp add: holds_clients_def)
  have t: "takeWhile (\<lambda>x. \<not> P x) xs = xs" using False by (simp add: takeWhile_eq_all_conv)
  have "without P xs = xs" using False unfolding without_def t by (simp add: dropWhile_eq_Nil_conv [THEN iffD2])
  then show ?thesis unfolding t using d assms(1,3) by simp
next
  case True
  from split_list_first_prop [OF this] obtain as b cs where xs: "xs = as @ b # cs" "P b" "\<forall>a\<in>set as. \<not> P a" by blast
  have t: "takeWhile (\<lambda>x. \<not> P x) xs = as" "without P xs = as @ cs"
    using xs by (simp_all add: without_def takeWhile_append dropWhile_append)
  have h: "llist_at w l (map fst xs)" "ips w (map fst xs) = map snd xs" "oom_script w = bs" "brk w = k"
    using assms(1) by (simp_all add: holds_clients_def)
  have "\<forall>a\<in>set (map fst as). \<not> hit test (cheap w) a" "hit test (cheap w) (fst b)" using test xs by auto
  from delete_ok(2) [OF h(1) assms(2) _ _ this, of "map fst cs"] xs(1) obtain hp where
    "delete_loop (brk w) test (cheap w) l (nxt n) = Ok (hp, last (l # map fst as))"
    "llist_at (w\<lparr>cheap := hp\<rparr>) l (map fst (as @ cs))" "ips (w\<lparr>cheap := hp\<rparr>) (map fst (as @ cs)) = ips w (map fst (as @ cs))"
    by auto
  then show ?thesis using h(2-4) by (intro exI [of _ hp]) (simp add: t holds_clients_def, simp add: ips_def xs)
qed

lemma hit_ip: "llist_at w l (map fst xs) \<Longrightarrow> ips w (map fst xs) = map snd xs \<Longrightarrow> x \<in> set xs \<Longrightarrow>
    hit (\<lambda>_ n. ipaddr n = ip) (cheap w) (fst x) \<longleftrightarrow> snd x = ip"
  and hit_ptr: "llist_at w l (map fst xs) \<Longrightarrow> x \<in> set xs \<Longrightarrow> hit (\<lambda>q _. q = p) (cheap w) (fst x) \<longleftrightarrow> fst x = p"
proof -
  have "fst x \<in> dom (cheap w)" if "llist_at w l (map fst xs)" "x \<in> set xs" using that llist_atD(8) [of w l "map fst xs"] by auto
  then show "llist_at w l (map fst xs) \<Longrightarrow> ips w (map fst xs) = map snd xs \<Longrightarrow> x \<in> set xs \<Longrightarrow>
      hit (\<lambda>_ n. ipaddr n = ip) (cheap w) (fst x) \<longleftrightarrow> snd x = ip"
    "llist_at w l (map fst xs) \<Longrightarrow> x \<in> set xs \<Longrightarrow> hit (\<lambda>q _. q = p) (cheap w) (fst x) \<longleftrightarrow> fst x = p"
    using ips_nth [of w xs x] by (auto simp: hit_def ip_at_def)
qed

lemma llist_op_ok:
  assumes "holds_clients l s w"
  shows "answers l (llist_op l c w) (list_op l c s)"
proof -
  obtain bs k xs where s: "s = (bs, k, xs)" by (cases s) auto
  have h: "llist_at w l (map fst xs)" "ips w (map fst xs) = map snd xs" using assms by (simp_all add: s holds_clients_def)
  note b = llist_atD [OF h(1)]
  obtain n where n: "cheap w l = Some n" "chain nxt (cheap w) (nxt n) (map fst xs) 0" using b(1) by blast
  have nil: "nxt n = 0 \<longleftrightarrow> xs = []" using chain_start [OF n(2)] n(2) by (cases xs) auto
  have found: "search_node l ip w = Ok (case filter (\<lambda>x. snd x = ip) xs of [] \<Rightarrow> 0 | x # _ \<Rightarrow> fst x)" for ip
  proof -
    have "filter (\<lambda>p. ip_at (cheap w) p = ip) (map fst xs) = map fst (filter (\<lambda>x. snd x = ip) xs)"
      unfolding filter_map o_def using ips_nth [OF h(2)] by (intro arg_cong [of _ _ "map fst"] filter_cong) simp_all
    then show ?thesis unfolding search_node_ok [OF h(1)] by (simp split: list.split)
  qed
  have zero: "(case filter (\<lambda>x. snd x = ip) xs of [] \<Rightarrow> 0 | x # _ \<Rightarrow> fst x) = 0 \<longleftrightarrow> ip \<notin> snd ` set xs" for ip
  proof (cases "filter (\<lambda>x. snd x = ip) xs")
    case (Cons x ys)
    then have "x \<in> set (filter (\<lambda>x. snd x = ip) xs)" by (simp only: list.set_intros)
    then have "x \<in> set xs \<and> snd x = ip" by simp
    then show ?thesis using Cons b(9) [of "fst x"] by auto
  qed (auto simp: filter_empty_conv)
  show ?thesis
  proof (cases c)
    case (Op_insert ip)
    then show ?thesis using insert_link_ok [OF assms, of ip int] by (simp add: llist_op_def)
  next
    case (Op_insert_once ip)
    then show ?thesis
      using insert_link_ok [OF assms, of ip "\<lambda>_. 1"] zero [of ip] assms
      by (cases "ip \<in> snd ` set xs") (simp_all add: s llist_op_def insert_nodulp_node_def found answers_def del: image_iff)
  next
    case (Op_delete ip)
    then show ?thesis
      using delete_with_ok [OF assms [unfolded s] n(1), of "\<lambda>_ n. ipaddr n = ip" "\<lambda>x. snd x = ip"] hit_ip [OF h] n(1) b(2) nil assms s
      by (cases "xs = []") (fastforce simp: answers_def llist_op_def delete_node_def without_def)+
  next
    case (Op_delete_this p)
    then show ?thesis
      using delete_with_ok [OF assms [unfolded s] n(1), of "\<lambda>q _. q = p" "\<lambda>x. fst x = p"] hit_ptr [OF h(1)] n(1) b(2) nil assms s
      by (cases "xs = []") (fastforce simp: answers_def llist_op_def delete_this_node_def without_def)+
  next
    case Op_count
    then show ?thesis using num_node_ok [OF h(1)] assms s by (simp add: answers_def llist_op_def)
  next
    case Op_empty
    then show ?thesis using n(1) b(2) nil assms s by (simp add: answers_def llist_op_def is_nulllist_link_def)
  next
    case (Op_search ip)
    then show ?thesis using found [of ip] assms s by (simp add: answers_def llist_op_def split: list.split)
  next
    case Op_free
    show ?thesis
    proof (cases "xs = []")
      case True
      then show ?thesis using n(1) b(2) nil assms s by (simp add: Op_free answers_def llist_op_def free_linklist_def)
    next
      case False
      then show ?thesis
        using free_linklist_keeps_last [OF h(1)] ips_nth [OF h(2), of "last xs"] last_in_set [OF False] assms
        by (cases xs; cases "tl xs") (auto simp: Op_free s answers_def llist_op_def holds_clients_def ips_def last_map)
    qed
  qed
qed

lemma llist_ops_ok:
  "holds_clients l s w \<Longrightarrow>
   (case list_ops l cs s of None \<Rightarrow> llist_ops l cs w = Err Fault
    | Some (rs, s') \<Rightarrow> \<exists>w'. llist_ops l cs w = Ok (rs, w') \<and> holds_clients l s' w')"
proof (induction cs arbitrary: s w)
  case (Cons c cs)
  note 1 = llist_op_ok [OF Cons.prems, of c, unfolded answers_def]
  show ?case
  proof (cases "list_op l c s")
    case (Some x)
    obtain r s1 where x: "x = (r, s1)" by (cases x)
    then obtain w1 where w1: "llist_op l c w = Ok (r, w1)" "holds_clients l s1 w1" using 1 Some by auto
    then show ?thesis using Cons.IH [OF w1(2)] by (cases "list_ops l cs s1") (auto simp: Some x)
  qed (use 1 in simp)
qed simp

section \<open>Sending\<close>

definition sock_at :: "lworld \<Rightarrow> ptr \<Rightarrow> int" where
  "sock_at w p = (case cheap w p of Some n \<Rightarrow> socket_c n | None \<Rightarrow> 0)"

definition fails_at :: "lworld \<Rightarrow> ptr \<Rightarrow> int" where
  "fails_at w p = (case cheap w p of Some n \<Rightarrow> send_fail_n n | None \<Rightarrow> 0)"

text \<open>Whether the \<open>i\<close>th call of \<open>send\<close> fails.\<close>

definition fails_nth :: "lworld \<Rightarrow> nat \<Rightarrow> bool" where
  "fails_nth w i \<longleftrightarrow> i < length (send_fails w) \<and> send_fails w ! i"

definition send_events :: "string \<Rightarrow> int \<Rightarrow> int \<Rightarrow> bool \<Rightarrow> net_event list" where
  "send_events buf s k fails = Sent s buf # (if fails \<and> k + 1 > MAX_SEND_FAIL_N then [Closed s] else [])"

lemma fails_nth_tl: "send_fails w' = tl (send_fails w) \<Longrightarrow> fails_nth w' i = fails_nth w (Suc i)"
  by (cases "send_fails w") (auto simp: fails_nth_def)

lemma send_client_ok:
  assumes "cheap w p = Some n" "p \<noteq> 0"
  shows "\<exists>w'. send_client buf p w = Ok w' \<and> cheap w' = (cheap w)(p \<mapsto> n\<lparr>send_fail_n := send_fail_n n + (if fails_nth w 0 then 1 else 0)\<rparr>) \<and>
    net_log w' = net_log w @ send_events buf (socket_c n) (send_fail_n n) (fails_nth w 0) \<and> send_fails w' = tl (send_fails w) \<and> brk w' = brk w"
proof -
  have hd: "(send_fails w \<noteq> [] \<and> hd (send_fails w)) = fails_nth w 0" by (cases "send_fails w") (auto simp: fails_nth_def)
  show ?thesis
  proof (cases "fails_nth w 0")
    case True
    then show ?thesis using assms unfolding send_client_def hd by (simp add: send_events_def Let_def)
  next
    case False
    then show ?thesis using assms fun_upd_triv [of "cheap w" p] unfolding send_client_def hd by (simp add: send_events_def Let_def)
  qed
qed

lemma send_loop_ok:
  "chain nxt (cheap w) p ps 0 \<Longrightarrow> distinct ps \<Longrightarrow> length ps \<le> m \<Longrightarrow>
   \<exists>w'. send_loop m buf p w = Ok w' \<and> brk w' = brk w \<and> dom (cheap w') = dom (cheap w) \<and>
     net_log w' = net_log w @ concat (map (\<lambda>i. send_events buf (sock_at w (ps ! i)) (fails_at w (ps ! i)) (fails_nth w i)) [0..<length ps]) \<and>
     (\<forall>a n. cheap w a = Some n \<longrightarrow> (\<exists>k. cheap w' a = Some (n\<lparr>send_fail_n := k\<rparr>) \<and> (a \<notin> set ps \<longrightarrow> k = send_fail_n n))) \<and>
     (\<forall>i<length ps. fails_at w' (ps ! i) = fails_at w (ps ! i) + (if fails_nth w i then 1 else 0))"
proof (induction ps arbitrary: p w m)
  case Nil
  then show ?case by (simp add: send_loop.simps)
next
  case (Cons a ps)
  obtain j where m: "m = Suc j" "length ps \<le> j" using Cons.prems(3) by (cases m) auto
  obtain n where n: "p = a" "a \<noteq> 0" "cheap w a = Some n" "chain nxt (cheap w) (nxt n) ps 0" using Cons.prems(1) unfolding chain_Cons_iff by blast
  let ?k = "send_fail_n n + (if fails_nth w 0 then 1 else 0)"
  obtain w1 where 1: "send_client buf a w = Ok w1" "cheap w1 = (cheap w)(a \<mapsto> n\<lparr>send_fail_n := ?k\<rparr>)"
    "net_log w1 = net_log w @ send_events buf (socket_c n) (send_fail_n n) (fails_nth w 0)" "send_fails w1 = tl (send_fails w)" "brk w1 = brk w"
    using send_client_ok [OF n(3,2)] by blast
  have nin: "a \<notin> set ps" and dp: "distinct ps" using Cons.prems(2) by auto
  have c1: "chain nxt (cheap w1) (nxt n) ps 0" using n(4) nin 1(2) by simp
  obtain w2 where 2: "send_loop j buf (nxt n) w1 = Ok w2" "brk w2 = brk w1" "dom (cheap w2) = dom (cheap w1)"
    "net_log w2 = net_log w1 @ concat (map (\<lambda>i. send_events buf (sock_at w1 (ps ! i)) (fails_at w1 (ps ! i)) (fails_nth w1 i)) [0..<length ps])"
    "\<forall>b nb. cheap w1 b = Some nb \<longrightarrow> (\<exists>k. cheap w2 b = Some (nb\<lparr>send_fail_n := k\<rparr>) \<and> (b \<notin> set ps \<longrightarrow> k = send_fail_n nb))"
    "\<forall>i<length ps. fails_at w2 (ps ! i) = fails_at w1 (ps ! i) + (if fails_nth w1 i then 1 else 0)"
    using Cons.IH [OF c1 dp m(2)] by blast
  have same: "sock_at w1 b = sock_at w b" "fails_at w1 b = fails_at w b" if "b \<in> set ps" for b
    using that nin 1(2) by (auto simp: sock_at_def fails_at_def)
  have nth: "fails_nth w1 i = fails_nth w (Suc i)" for i using fails_nth_tl [OF 1(4)] .
  have run: "send_loop m buf p w = Ok w2"
    using m(1) n(1,2) 1(1,2) 2(1) by (subst send_loop.simps) simp
  have "map (\<lambda>i. send_events buf (sock_at w1 (ps ! i)) (fails_at w1 (ps ! i)) (fails_nth w1 i)) [0..<length ps] =
     map (\<lambda>i. send_events buf (sock_at w ((a # ps) ! i)) (fails_at w ((a # ps) ! i)) (fails_nth w i)) [1..<Suc (length ps)]"
    using same nth by (simp add: map_Suc_upt [symmetric] del: upt_Suc)
  moreover have "send_events buf (socket_c n) (send_fail_n n) (fails_nth w 0) = send_events buf (sock_at w a) (fails_at w a) (fails_nth w 0)"
    using n(3) by (simp add: sock_at_def fails_at_def)
  moreover have "[0..<length (a # ps)] = 0 # [1..<Suc (length ps)]" by (simp add: upt_conv_Cons del: upt_Suc)
  ultimately have log: "net_log w2 = net_log w @ concat (map (\<lambda>i. send_events buf (sock_at w ((a # ps) ! i)) (fails_at w ((a # ps) ! i)) (fails_nth w i)) [0..<length (a # ps)])"
    using 2(4) 1(3) by (simp del: upt_Suc)
  obtain k where k: "cheap w2 a = Some (n\<lparr>send_fail_n := k\<rparr>)" "k = ?k"
    using 2(5) [rule_format, of a "n\<lparr>send_fail_n := ?k\<rparr>"] 1(2) nin by auto
  have keep: "\<exists>k. cheap w2 b = Some (nb\<lparr>send_fail_n := k\<rparr>) \<and> (b \<notin> set (a # ps) \<longrightarrow> k = send_fail_n nb)" if "cheap w b = Some nb" for b nb
  proof (cases "b = a")
    case True
    then show ?thesis using k(1) n(3) that by auto
  next
    case False
    then show ?thesis using 2(5) [rule_format, of b nb] 1(2) that by auto
  qed
  have cnt: "fails_at w2 ((a # ps) ! i) = fails_at w ((a # ps) ! i) + (if fails_nth w i then 1 else 0)" if "i < length (a # ps)" for i
    using that k n(3) 2(6) same nth by (cases i) (auto simp: fails_at_def)
  have "dom (cheap w2) = dom (cheap w)" using 2(3) 1(2) n(3) by auto
  then show ?case using run log keep cnt 2(2) 1(5) by auto
qed

section \<open>Properties\<close>

lemma create_ok:
  assumes "cheap w = Map.empty" "0 < brk w"
  shows "if refused (oom_script w) then \<exists>w1. create_null_list_link w = Ok (0, w1)
    else \<exists>w1. create_null_list_link w = Ok (brk w, w1) \<and> holds_clients (brk w) (tl (oom_script w), brk w + 1, []) w1"
  using assms by (auto simp: create_null_list_link_def new_node_def malloc_refused set_next_def Let_def holds_clients_def llist_at_def ips_def)

text \<open>
  C9. A new client list, or NULL when the first request for memory is refused, and then any program of all the
  operations of llist.h, with any later requests refused. The program has undefined behaviour exactly when its specification on
  the list of clients has: when it stores an address of 16 characters or more, and when \<open>free_linklist\<close>
  meets a list of one client. Otherwise all answers, pointers included, are those of the specification, and the nodes in memory are
  the header and the nodes of the clients that are left, in order: no other node stays allocated. Two answers of the
  specification are surprising: \<open>insert_nodulp_node\<close> answers 1 although its node was refused,
  and \<open>free_linklist\<close> answers 1 and leaves the last client in the list.
\<close>

theorem llist_program_refines:
  assumes "cheap w = Map.empty" "0 < brk w"
  shows "if refused (oom_script w) then \<exists>w1. create_null_list_link w = Ok (0, w1)
    else \<exists>w1. create_null_list_link w = Ok (brk w, w1) \<and>
      (case list_ops (brk w) cs (tl (oom_script w), brk w + 1, []) of None \<Rightarrow> llist_ops (brk w) cs w1 = Err Fault
       | Some (rs, s) \<Rightarrow> \<exists>w2. llist_ops (brk w) cs w1 = Ok (rs, w2) \<and> holds_clients (brk w) s w2)"
  using create_ok [OF assms] llist_ops_ok by (fastforce split: if_splits)

definition empty_world :: lworld where
  "empty_world = \<lparr>oom_script = [], junk = (\<lambda>_. NUL), cheap = Map.empty, brk = 1,
     blank = \<lparr>ipaddr = [], socket_c = 0, send_fail_n = 0, nxt = 0\<rparr>,
     sockets = [], setopt_fails = [], connect_fails = [], send_fails = [True], net_log = []\<rparr>"

text \<open>The second request for a client is refused, and the second client is deleted by its pointer.\<close>

lemma llist_program_refines_witness:
  "\<exists>w1 w2. create_null_list_link (empty_world\<lparr>oom_script := [False, False, True]\<rparr>) = Ok (1, w1) \<and>
    llist_ops 1 [Op_insert_once ''10.0.0.1'', Op_insert_once ''10.0.0.2'', Op_insert_once ''10.0.0.2'', Op_insert ''10.0.0.3'',
        Op_search ''10.0.0.2'', Op_delete_this 3, Op_delete ''10.0.0.9'', Op_count, Op_free, Op_count] w1 =
      Ok ([1, 1, 1, 1, 3, 4, 1, 2, 1, 1], w2) \<and> holds_clients 1 ([], 5, [(2, ''10.0.0.1'')]) w2"
  using llist_program_refines [of "empty_world\<lparr>oom_script := [False, False, True]\<rparr>"
    "[Op_insert_once ''10.0.0.1'', Op_insert_once ''10.0.0.2'', Op_insert_once ''10.0.0.2'', Op_insert ''10.0.0.3'',
        Op_search ''10.0.0.2'', Op_delete_this 3, Op_delete ''10.0.0.9'', Op_count, Op_free, Op_count]"]
  by (simp add: empty_world_def refused_def add_client_def without_def eval_nat_numeral del: llist_ops.simps)

definition one_client :: lworld where
  "one_client = empty_world\<lparr>brk := 3, cheap := [1 \<mapsto> \<lparr>ipaddr = [], socket_c = 0, send_fail_n = 0, nxt = 2\<rparr>,
     2 \<mapsto> \<lparr>ipaddr = ''10.0.0.1'', socket_c = 5, send_fail_n = 29, nxt = 0\<rparr>]\<rparr>"

lemma one_client_at: "llist_at one_client 1 [2]"
  by (auto simp: llist_at_def one_client_def empty_world_def)

text \<open>
  C17. A packet is sent exactly once to every client, in order; each failure is counted at its
  client. A client whose sends have failed more than 29 times has its socket closed, again after
  every later failure, but it is never removed, and the next packet goes to the closed socket.
\<close>

theorem send_data_reaches_all:
  assumes "llist_at w l ps"
  shows "\<exists>w'. send_data_to_client_list buf l w = Ok w' \<and> llist_at w' l ps \<and> ips w' ps = ips w ps \<and>
    net_log w' = net_log w @ concat (map (\<lambda>i. send_events buf (sock_at w (ps ! i)) (fails_at w (ps ! i)) (fails_nth w i)) [0..<length ps]) \<and>
    (\<forall>i<length ps. fails_at w' (ps ! i) = fails_at w (ps ! i) + (if fails_nth w i then 1 else 0))"
proof -
  note a = llist_atD [OF assms]
  obtain n where n: "cheap w l = Some n" "chain nxt (cheap w) (nxt n) ps 0" using a(1) by blast
  obtain w' where w': "send_loop (brk w) buf (nxt n) w = Ok w'" "brk w' = brk w" "dom (cheap w') = dom (cheap w)"
    "net_log w' = net_log w @ concat (map (\<lambda>i. send_events buf (sock_at w (ps ! i)) (fails_at w (ps ! i)) (fails_nth w i)) [0..<length ps])"
    "\<forall>a n. cheap w a = Some n \<longrightarrow> (\<exists>k. cheap w' a = Some (n\<lparr>send_fail_n := k\<rparr>) \<and> (a \<notin> set ps \<longrightarrow> k = send_fail_n n))"
    "\<forall>i<length ps. fails_at w' (ps ! i) = fails_at w (ps ! i) + (if fails_nth w i then 1 else 0)"
    using send_loop_ok [OF n(2) a(4), of "brk w" buf] a(5) by auto
  have nx: "chain nxt (cheap w') p xs 0" if "chain nxt (cheap w) p xs 0" for p xs
    using that w'(5) by (induction xs arbitrary: p) (fastforce split: option.splits)+
  have "ip_at (cheap w') p = ip_at (cheap w) p" if "p \<in> set ps" for p
  proof -
    have "p \<in> dom (cheap w)" using a(8) that by simp
    then show ?thesis using w'(5) by (fastforce simp: ip_at_def)
  qed
  then have "ips w' ps = ips w ps" by (simp add: ips_def)
  moreover have "llist_at w' l ps" using assms nx w'(2,3) unfolding llist_at_def by metis
  moreover have "send_data_to_client_list buf l w = Ok w'" using n(1) a(2) w'(1) by (simp add: send_data_to_client_list_def)
  ultimately show ?thesis using w'(4,6) by blast
qed

lemma send_data_reaches_all_witness:
  "\<exists>w'. send_data_to_client_list ''x'' 1 one_client = Ok w' \<and> llist_at w' 1 [2] \<and> net_log w' = [Sent 5 ''x'', Closed 5]"
  using send_data_reaches_all [OF one_client_at, of "''x''"]
  by (auto simp: one_client_def empty_world_def send_events_def sock_at_def fails_at_def fails_nth_def MAX_SEND_FAIL_N_def)

end
