(* ===== verification/Anet.thy ===== *)
theory Anet
  imports Decimal
begin

text \<open>
  The socket helpers of src/Clang/aio/ae/anet.c. The kernel is a table of open sockets with their
  flags, options and what has become of them. Each system call that can fail takes its outcome
  from a script, \<open>None\<close> for success and \<open>Some\<close> an error number otherwise, and fails with EBADF on a
  descriptor that is not open. \<open>getaddrinfo\<close> is a function of host, port and hints, its lists are
  counted while they are allocated. The names of errors and the texts of addresses are parameters.
  Strings that only go to the kernel are their values. The last error text is kept in the
  world; \<open>err\<close> says whether the caller gave a buffer for it. Descriptors are given in order.
\<close>

section \<open>The kernel\<close>

datatype sockopt = SO_KEEPALIVE | TCP_KEEPIDLE | TCP_KEEPINTVL | TCP_KEEPCNT | TCP_NODELAY | SO_SNDBUF | SO_SNDTIMEO | SO_REUSEADDR | IPV6_V6ONLY

datatype conn = Unconnected | Connecting string | Connected string

record sock =
  so_family :: int
  so_type :: int
  so_protocol :: int
  so_flags :: int
  so_opts :: "(sockopt \<times> int list) list"
  so_bound :: "string option"
  so_conn :: conn
  so_backlog :: "int option"

record addrinfo =
  ai_family :: int
  ai_socktype :: int
  ai_protocol :: int
  ai_addr :: string

record hints =
  h_flags :: int
  h_family :: int
  h_socktype :: int

text \<open>The port is in the byte order of the network.\<close>

record sockaddr =
  sa_family :: int
  sin_addr :: string
  sin6_addr :: string
  sin_port :: u16

record kernel = world +
  socks :: "int \<Rightarrow> sock option"
  next_fd :: int
  outcomes :: "int option list"
  errno :: int
  resolve :: "string option \<Rightarrow> string option \<Rightarrow> hints \<Rightarrow> int + addrinfo list"
  infos :: int
  strerror :: "int \<Rightarrow> string"
  gai_strerror :: "int \<Rightarrow> string"
  ntop :: "int \<Rightarrow> string \<Rightarrow> string"
  incoming :: "(int + sockaddr) list"
  peer_of :: "int \<Rightarrow> int + sockaddr"
  name_of :: "int \<Rightarrow> int + sockaddr"
  streams :: "int \<Rightarrow> (int + string) list"
  rooms :: "int \<Rightarrow> (int + nat) list"
  sent :: "int \<Rightarrow> string"
  modes :: "(string \<times> nat) list"
  err_buf :: string

definition ANET_OK :: int where "ANET_OK = 0"
definition ANET_ERR :: int where "ANET_ERR = -1"
definition ANET_ERR_LEN :: nat where "ANET_ERR_LEN = 256"
definition ANET_NONE :: int where "ANET_NONE = 0"
definition ANET_IP_ONLY :: int where "ANET_IP_ONLY = 1"
definition ANET_CONNECT_NONE :: int where "ANET_CONNECT_NONE = 0"
definition ANET_CONNECT_NONBLOCK :: int where "ANET_CONNECT_NONBLOCK = 1"

text \<open>Constants of the system.\<close>

definition O_NONBLOCK :: int where "O_NONBLOCK = 2048"
definition EINTR :: int where "EINTR = 4"
definition EBADF :: int where "EBADF = 9"
definition EAGAIN :: int where "EAGAIN = 11"
definition EINPROGRESS :: int where "EINPROGRESS = 115"
definition AF_UNSPEC :: int where "AF_UNSPEC = 0"
definition SOCK_STREAM :: int where "SOCK_STREAM = 1"
definition AF_UNIX :: int where "AF_UNIX = 1"
definition AF_INET :: int where "AF_INET = 2"
definition AF_INET6 :: int where "AF_INET6 = 10"
definition AI_PASSIVE :: int where "AI_PASSIVE = 1"
definition AI_NUMERICHOST :: int where "AI_NUMERICHOST = 4"
definition SUN_PATH_LEN :: nat where "SUN_PATH_LEN = 108"
definition INET6_ADDRSTRLEN :: nat where "INET6_ADDRSTRLEN = 46"

text \<open>A call on a descriptor: it fails as the script says or does \<open>f\<close> to the socket.\<close>

definition outcome :: "kernel \<Rightarrow> bool \<times> kernel" where
  "outcome w = (case outcomes w of [] \<Rightarrow> (True, w)
     | None # os \<Rightarrow> (True, w\<lparr>outcomes := os\<rparr>) | Some e # os \<Rightarrow> (False, w\<lparr>outcomes := os, errno := e\<rparr>))"

definition on_sock :: "int \<Rightarrow> (sock \<Rightarrow> sock) \<Rightarrow> kernel \<Rightarrow> int \<times> kernel" where
  "on_sock fd f w =
     (let (ok, w) = outcome w in
      if \<not> ok then (-1, w)
      else case socks w fd of None \<Rightarrow> (-1, w\<lparr>errno := EBADF\<rparr>) | Some s \<Rightarrow> (0, w\<lparr>socks := (socks w)(fd \<mapsto> f s)\<rparr>))"

definition k_socket :: "int \<Rightarrow> int \<Rightarrow> int \<Rightarrow> kernel \<Rightarrow> int \<times> kernel" where
  "k_socket family type protocol w =
     (let (ok, w) = outcome w in
      if \<not> ok then (-1, w)
      else (next_fd w, w\<lparr>socks := (socks w)(next_fd w \<mapsto> \<lparr>so_family = family, so_type = type, so_protocol = protocol,
              so_flags = 0, so_opts = [], so_bound = None, so_conn = Unconnected, so_backlog = None\<rparr>), next_fd := next_fd w + 1\<rparr>))"

definition k_close :: "int \<Rightarrow> kernel \<Rightarrow> kernel" where
  "k_close fd w = w\<lparr>socks := (socks w)(fd := None)\<rparr>"

definition k_setsockopt :: "int \<Rightarrow> sockopt \<Rightarrow> int list \<Rightarrow> kernel \<Rightarrow> int \<times> kernel" where
  "k_setsockopt fd opt val w = on_sock fd (\<lambda>s. s\<lparr>so_opts := so_opts s @ [(opt, val)]\<rparr>) w"

definition k_getfl :: "int \<Rightarrow> kernel \<Rightarrow> int \<times> kernel" where
  "k_getfl fd w =
     (let (r, w) = on_sock fd id w in
      if r = -1 then (-1, w) else (case socks w fd of Some s \<Rightarrow> so_flags s | None \<Rightarrow> 0, w))"

definition k_setfl :: "int \<Rightarrow> int \<Rightarrow> kernel \<Rightarrow> int \<times> kernel" where
  "k_setfl fd flags w = on_sock fd (\<lambda>s. s\<lparr>so_flags := flags\<rparr>) w"

definition k_bind :: "int \<Rightarrow> string \<Rightarrow> kernel \<Rightarrow> int \<times> kernel" where
  "k_bind fd addr w = on_sock fd (\<lambda>s. s\<lparr>so_bound := Some addr\<rparr>) w"

definition k_listen :: "int \<Rightarrow> int \<Rightarrow> kernel \<Rightarrow> int \<times> kernel" where
  "k_listen fd backlog w = on_sock fd (\<lambda>s. s\<lparr>so_backlog := Some backlog\<rparr>) w"

text \<open>A connection may go on in the background.\<close>

definition k_connect :: "int \<Rightarrow> string \<Rightarrow> kernel \<Rightarrow> int \<times> kernel" where
  "k_connect fd addr w =
     (let (r, w) = on_sock fd (\<lambda>s. s\<lparr>so_conn := Connected addr\<rparr>) w in
      if r = -1 \<and> errno w = EINPROGRESS
      then (-1, w\<lparr>socks := (socks w)(fd := map_option (\<lambda>s. s\<lparr>so_conn := Connecting addr\<rparr>) (socks w fd))\<rparr>) else (r, w))"

definition k_getaddrinfo :: "string option \<Rightarrow> string option \<Rightarrow> hints \<Rightarrow> kernel \<Rightarrow> (int + addrinfo list) \<times> kernel" where
  "k_getaddrinfo host port hint w =
     (case resolve w host port hint of Inl e \<Rightarrow> (Inl e, w) | Inr l \<Rightarrow> (Inr l, w\<lparr>infos := infos w + 1\<rparr>))"

definition k_freeaddrinfo :: "kernel \<Rightarrow> kernel" where
  "k_freeaddrinfo w = w\<lparr>infos := infos w - 1\<rparr>"

definition has_flag :: "int \<Rightarrow> int \<Rightarrow> bool" where
  "has_flag m b \<longleftrightarrow> m AND b \<noteq> 0"

section \<open>Errors and options\<close>

definition anetSetError :: "bool \<Rightarrow> string \<Rightarrow> kernel \<Rightarrow> kernel" where
  "anetSetError err text w = (if err then w\<lparr>err_buf := take (ANET_ERR_LEN - 1) text\<rparr> else w)"

definition set_errno_text :: "bool \<Rightarrow> string \<Rightarrow> kernel \<Rightarrow> kernel" where
  "set_errno_text err what w = anetSetError err (what @ strerror w (errno w)) w"

definition newline :: byte where "newline = CHR 0x0A"

definition anetSetBlock :: "bool \<Rightarrow> int \<Rightarrow> int \<Rightarrow> kernel \<Rightarrow> int \<times> kernel" where
  "anetSetBlock err fd non_block w =
     (let (flags, w) = k_getfl fd w in
      if flags = -1 then (ANET_ERR, set_errno_text err ''fcntl(F_GETFL): '' w)
      else
        let flags = (if non_block \<noteq> 0 then flags OR O_NONBLOCK else flags AND NOT O_NONBLOCK); (r, w) = k_setfl fd flags w in
        if r = -1 then (ANET_ERR, set_errno_text err ''fcntl(F_SETFL,O_NONBLOCK): '' w) else (ANET_OK, w))"

definition anetNonBlock :: "bool \<Rightarrow> int \<Rightarrow> kernel \<Rightarrow> int \<times> kernel" where
  "anetNonBlock err fd w = anetSetBlock err fd 1 w"

definition anetBlock :: "bool \<Rightarrow> int \<Rightarrow> kernel \<Rightarrow> int \<times> kernel" where
  "anetBlock err fd w = anetSetBlock err fd 0 w"

text \<open>An option that is set, with the text for its failure before and after the name of the error.\<close>

definition set_option :: "bool \<Rightarrow> int \<Rightarrow> sockopt \<Rightarrow> int list \<Rightarrow> string \<Rightarrow> string \<Rightarrow> kernel \<Rightarrow> int \<times> kernel" where
  "set_option err fd opt val what eol w =
     (let (r, w) = k_setsockopt fd opt val w in if r = -1 then (ANET_ERR, anetSetError err (what @ strerror w (errno w) @ eol) w) else (ANET_OK, w))"

definition anetKeepAlive :: "bool \<Rightarrow> int \<Rightarrow> int \<Rightarrow> kernel \<Rightarrow> int \<times> kernel" where
  "anetKeepAlive err fd interval w =
     (let (r, w) = set_option err fd SO_KEEPALIVE [1] ''setsockopt SO_KEEPALIVE: '' [] w in
      if r = ANET_ERR then (r, w) else
      let (r, w) = set_option err fd TCP_KEEPIDLE [interval] ''setsockopt TCP_KEEPIDLE: '' [newline] w in
      if r = ANET_ERR then (r, w) else
      let val = cdiv interval 3; val = (if val = 0 then 1 else val);
          (r, w) = set_option err fd TCP_KEEPINTVL [val] ''setsockopt TCP_KEEPINTVL: '' [newline] w in
      if r = ANET_ERR then (r, w) else
      set_option err fd TCP_KEEPCNT [3] ''setsockopt TCP_KEEPCNT: '' [newline] w)"

definition anetSetTcpNoDelay :: "bool \<Rightarrow> int \<Rightarrow> int \<Rightarrow> kernel \<Rightarrow> int \<times> kernel" where
  "anetSetTcpNoDelay err fd val w = set_option err fd TCP_NODELAY [val] ''setsockopt TCP_NODELAY: '' [] w"

definition anetEnableTcpNoDelay :: "bool \<Rightarrow> int \<Rightarrow> kernel \<Rightarrow> int \<times> kernel" where
  "anetEnableTcpNoDelay err fd w = anetSetTcpNoDelay err fd 1 w"

definition anetDisableTcpNoDelay :: "bool \<Rightarrow> int \<Rightarrow> kernel \<Rightarrow> int \<times> kernel" where
  "anetDisableTcpNoDelay err fd w = anetSetTcpNoDelay err fd 0 w"

definition anetSetSendBuffer :: "bool \<Rightarrow> int \<Rightarrow> int \<Rightarrow> kernel \<Rightarrow> int \<times> kernel" where
  "anetSetSendBuffer err fd buffsize w = set_option err fd SO_SNDBUF [buffsize] ''setsockopt SO_SNDBUF: '' [] w"

definition anetTcpKeepAlive :: "bool \<Rightarrow> int \<Rightarrow> kernel \<Rightarrow> int \<times> kernel" where
  "anetTcpKeepAlive err fd w = set_option err fd SO_KEEPALIVE [1] ''setsockopt SO_KEEPALIVE: '' [] w"

definition anetSendTimeout :: "bool \<Rightarrow> int \<Rightarrow> int \<Rightarrow> kernel \<Rightarrow> int \<times> kernel" where
  "anetSendTimeout err fd ms w = set_option err fd SO_SNDTIMEO [cdiv ms 1000, cmod ms 1000 * 1000] ''setsockopt SO_SNDTIMEO: '' [] w"

definition anetSetReuseAddr :: "bool \<Rightarrow> int \<Rightarrow> kernel \<Rightarrow> int \<times> kernel" where
  "anetSetReuseAddr err fd w = set_option err fd SO_REUSEADDR [1] ''setsockopt SO_REUSEADDR: '' [] w"

definition anetV6Only :: "bool \<Rightarrow> int \<Rightarrow> kernel \<Rightarrow> int \<times> kernel" where
  "anetV6Only err s w =
     (let (r, w) = k_setsockopt s IPV6_V6ONLY [1] w in
      if r = -1 then (ANET_ERR, k_close s (set_errno_text err ''setsockopt: '' w)) else (ANET_OK, w))"

section \<open>Resolving\<close>

text \<open>\<open>inet_ntop\<close> writes the text and a NUL when they fit, and nothing otherwise.\<close>

definition inet_ntop :: "kernel \<Rightarrow> int \<Rightarrow> string \<Rightarrow> string \<Rightarrow> nat \<Rightarrow> string cres" where
  "inet_ntop w af addr buf len =
     (let text = ntop w af addr @ [NUL] in if length text \<le> len then memcpy buf 0 text (length text) else Ok buf)"

definition anetGenericResolve :: "bool \<Rightarrow> string \<Rightarrow> string \<Rightarrow> nat \<Rightarrow> int \<Rightarrow> kernel \<Rightarrow> ((int \<times> string) \<times> kernel) cres" where
  "anetGenericResolve err host ipbuf ipbuf_len flags w =
     (let hints = \<lparr>h_flags = if has_flag flags ANET_IP_ONLY then AI_NUMERICHOST else 0, h_family = AF_UNSPEC,
            h_socktype = SOCK_STREAM\<rparr>;
          (r, w) = k_getaddrinfo (Some host) None hints w in
      case r of
        Inl rv \<Rightarrow> Ok ((ANET_ERR, ipbuf), anetSetError err (gai_strerror w rv) w)
      | Inr [] \<Rightarrow> Err Fault
      | Inr (info # _) \<Rightarrow>
          res_bind (if ai_family info = AF_INET then inet_ntop w AF_INET (ai_addr info) ipbuf ipbuf_len
                    else inet_ntop w AF_INET6 (ai_addr info) ipbuf ipbuf_len)
            (\<lambda>b. Ok ((ANET_OK, b), k_freeaddrinfo w)))"

definition anetResolve :: "bool \<Rightarrow> string \<Rightarrow> string \<Rightarrow> nat \<Rightarrow> kernel \<Rightarrow> ((int \<times> string) \<times> kernel) cres" where
  "anetResolve err host ipbuf ipbuf_len w = anetGenericResolve err host ipbuf ipbuf_len ANET_NONE w"

definition anetResolveIP :: "bool \<Rightarrow> string \<Rightarrow> string \<Rightarrow> nat \<Rightarrow> kernel \<Rightarrow> ((int \<times> string) \<times> kernel) cres" where
  "anetResolveIP err host ipbuf ipbuf_len w = anetGenericResolve err host ipbuf ipbuf_len ANET_IP_ONLY w"

end
