(* ===== verification/AnetConn.thy ===== *)
theory AnetConn
  imports Anet
begin

text \<open>
  Connecting, listening, accepting, and reading and writing in full, of src/Clang/aio/ae/anet.c.
  A \<open>for\<close> loop over a list of \<open>getaddrinfo\<close> is a recursion on the list and each \<open>goto\<close> a result of it.
\<close>

section \<open>Connections\<close>

definition anetCreateSocket :: "bool \<Rightarrow> int \<Rightarrow> kernel \<Rightarrow> int \<times> kernel" where
  "anetCreateSocket err domain w =
     (let (s, w) = k_socket domain SOCK_STREAM 0 w in
      if s = -1 then (ANET_ERR, set_errno_text err ''creating socket: '' w)
      else
        let (r, w) = anetSetReuseAddr err s w in
        if r = ANET_ERR then (ANET_ERR, k_close s w) else (s, w))"

text \<open>The loop over the source addresses, and the block around it; \<open>False\<close> is \<open>goto end\<close>.\<close>

fun bind_any :: "int \<Rightarrow> addrinfo list \<Rightarrow> kernel \<Rightarrow> bool \<times> kernel" where
  "bind_any s [] w = (False, w)"
| "bind_any s (b # bs) w = (let (r, w) = k_bind s (ai_addr b) w in if r \<noteq> -1 then (True, w) else bind_any s bs w)"

definition bind_source :: "bool \<Rightarrow> int \<Rightarrow> string \<Rightarrow> hints \<Rightarrow> kernel \<Rightarrow> bool \<times> kernel" where
  "bind_source err s source_addr hints w =
     (let (rv, w) = k_getaddrinfo (Some source_addr) None hints w in
      case rv of
        Inl rv \<Rightarrow> (False, anetSetError err (gai_strerror w rv) w)
      | Inr bservinfo \<Rightarrow>
          let (bound, w) = bind_any s bservinfo w; w = k_freeaddrinfo w in
          if \<not> bound then (False, set_errno_text err ''bind: '' w) else (True, w))"

text \<open>The body for one address: go on with the next one, or end with this value of \<open>s\<close>.\<close>

datatype step = Continue | Return int

definition tcp_connect_step :: "bool \<Rightarrow> string option \<Rightarrow> int \<Rightarrow> hints \<Rightarrow> addrinfo \<Rightarrow> kernel \<Rightarrow> step \<times> kernel" where
  "tcp_connect_step err source_addr flags hints p w =
     (let (s, w) = k_socket (ai_family p) (ai_socktype p) (ai_protocol p) w in
      if s = -1 then (Continue, w) else
      let (r, w) = anetSetReuseAddr err s w in
      if r = ANET_ERR then (Return ANET_ERR, k_close s w) else
      let (r, w) = (if has_flag flags ANET_CONNECT_NONBLOCK then anetNonBlock err s w else (ANET_OK, w)) in
      if r \<noteq> ANET_OK then (Return ANET_ERR, k_close s w) else
      let (go, w) = (case source_addr of None \<Rightarrow> (True, w) | Some a \<Rightarrow> bind_source err s a hints w) in
      if \<not> go then (Return s, w) else
      let (r, w) = k_connect s (ai_addr p) w in
      if r = -1 then
        if errno w = EINPROGRESS \<and> has_flag flags ANET_CONNECT_NONBLOCK then (Return s, w) else (Continue, k_close s w)
      else (Return s, w))"

fun tcp_connect_loop :: "bool \<Rightarrow> string option \<Rightarrow> int \<Rightarrow> hints \<Rightarrow> addrinfo list \<Rightarrow> kernel \<Rightarrow> int \<times> kernel" where
  "tcp_connect_loop err source_addr flags hints [] w = (ANET_ERR, set_errno_text err ''creating socket: '' w)"
| "tcp_connect_loop err source_addr flags hints (p # ps) w =
     (case tcp_connect_step err source_addr flags hints p w of
        (Return s, w) \<Rightarrow> (s, w)
      | (Continue, w) \<Rightarrow> tcp_connect_loop err source_addr flags hints ps w)"

definition PORTSTR_LEN :: nat where "PORTSTR_LEN = 6"

definition portstr :: "int \<Rightarrow> string" where
  "portstr port = take (PORTSTR_LEN - 1) (show_int port)"

definition anetTcpGenericConnect :: "bool \<Rightarrow> string \<Rightarrow> int \<Rightarrow> string option \<Rightarrow> int \<Rightarrow> kernel \<Rightarrow> int \<times> kernel" where
  "anetTcpGenericConnect err addr port source_addr flags w =
     (let hints = \<lparr>h_flags = 0, h_family = AF_UNSPEC, h_socktype = SOCK_STREAM\<rparr>;
          (rv, w) = k_getaddrinfo (Some addr) (Some (portstr port)) hints w in
      case rv of
        Inl rv \<Rightarrow> (ANET_ERR, anetSetError err (gai_strerror w rv) w)
      | Inr servinfo \<Rightarrow>
          let (s, w) = tcp_connect_loop err source_addr flags hints servinfo w in (s, k_freeaddrinfo w))"

definition anetTcpConnect :: "bool \<Rightarrow> string \<Rightarrow> int \<Rightarrow> kernel \<Rightarrow> int \<times> kernel" where
  "anetTcpConnect err addr port w = anetTcpGenericConnect err addr port None ANET_CONNECT_NONE w"

definition anetTcpNonBlockConnect :: "bool \<Rightarrow> string \<Rightarrow> int \<Rightarrow> kernel \<Rightarrow> int \<times> kernel" where
  "anetTcpNonBlockConnect err addr port w = anetTcpGenericConnect err addr port None ANET_CONNECT_NONBLOCK w"

definition anetTcpNonBlockBindConnect :: "bool \<Rightarrow> string \<Rightarrow> int \<Rightarrow> string \<Rightarrow> kernel \<Rightarrow> int \<times> kernel" where
  "anetTcpNonBlockBindConnect err addr port source_addr w =
     anetTcpGenericConnect err addr port (Some source_addr) ANET_CONNECT_NONBLOCK w"

text \<open>
  \<open>strncpy\<close> into the front of a block: the source up to its NUL or \<open>n\<close> bytes, then zeros up to \<open>n\<close>.
  The path is the memory readable from its pointer.
\<close>

definition strncpy :: "string \<Rightarrow> string \<Rightarrow> nat \<Rightarrow> string cres" where
  "strncpy dst src n =
     (if NUL \<in> set (take n src) \<or> n \<le> length src
      then let t = take n (cstring src) in memcpy dst 0 (t @ replicate (n - length t) NUL) n else Err Fault)"

definition anetUnixGenericConnect :: "bool \<Rightarrow> string \<Rightarrow> int \<Rightarrow> kernel \<Rightarrow> (int \<times> kernel) cres" where
  "anetUnixGenericConnect err path flags w =
     (let (s, w) = anetCreateSocket err AF_UNIX w in
      if s = ANET_ERR then Ok (ANET_ERR, w) else
      res_bind (strncpy (fresh w SUN_PATH_LEN) path (SUN_PATH_LEN - 1)) (\<lambda>sun_path.
      let (r, w) = (if has_flag flags ANET_CONNECT_NONBLOCK then anetNonBlock err s w else (ANET_OK, w)) in
      if r \<noteq> ANET_OK then Ok (ANET_ERR, w) else
      let (r, w) = k_connect s sun_path w in
      if r = -1 then
        if errno w = EINPROGRESS \<and> has_flag flags ANET_CONNECT_NONBLOCK then Ok (s, w)
        else Ok (ANET_ERR, k_close s (set_errno_text err ''connect: '' w))
      else Ok (s, w)))"

definition anetUnixConnect :: "bool \<Rightarrow> string \<Rightarrow> kernel \<Rightarrow> (int \<times> kernel) cres" where
  "anetUnixConnect err path w = anetUnixGenericConnect err path ANET_CONNECT_NONE w"

definition anetUnixNonBlockConnect :: "bool \<Rightarrow> string \<Rightarrow> kernel \<Rightarrow> (int \<times> kernel) cres" where
  "anetUnixNonBlockConnect err path w = anetUnixGenericConnect err path ANET_CONNECT_NONBLOCK w"

section \<open>Servers\<close>

definition anetListen :: "bool \<Rightarrow> int \<Rightarrow> string \<Rightarrow> int \<Rightarrow> kernel \<Rightarrow> int \<times> kernel" where
  "anetListen err s sa backlog w =
     (let (r, w) = k_bind s sa w in
      if r = -1 then (ANET_ERR, k_close s (set_errno_text err ''bind: '' w)) else
      let (r, w) = k_listen s backlog w in
      if r = -1 then (ANET_ERR, k_close s (set_errno_text err ''listen: '' w)) else (ANET_OK, w))"

definition tcp_server_step :: "bool \<Rightarrow> int \<Rightarrow> int \<Rightarrow> addrinfo \<Rightarrow> kernel \<Rightarrow> step \<times> kernel" where
  "tcp_server_step err af backlog p w =
     (let (s, w) = k_socket (ai_family p) (ai_socktype p) (ai_protocol p) w in
      if s = -1 then (Continue, w) else
      let (r, w) = (if af = AF_INET6 then anetV6Only err s w else (ANET_OK, w)) in
      if r = ANET_ERR then (Return ANET_ERR, w) else
      let (r, w) = anetSetReuseAddr err s w in
      if r = ANET_ERR then (Return ANET_ERR, w) else
      let (r, w) = anetListen err s (ai_addr p) backlog w in
      if r = ANET_ERR then (Return ANET_ERR, w) else (Return s, w))"

fun tcp_server_loop :: "bool \<Rightarrow> int \<Rightarrow> int \<Rightarrow> addrinfo list \<Rightarrow> kernel \<Rightarrow> int \<times> kernel" where
  "tcp_server_loop err af backlog [] w = (ANET_ERR, anetSetError err ''unable to bind socket'' w)"
| "tcp_server_loop err af backlog (p # ps) w =
     (case tcp_server_step err af backlog p w of
        (Return s, w) \<Rightarrow> (s, w)
      | (Continue, w) \<Rightarrow> tcp_server_loop err af backlog ps w)"

text \<open>The C name starts with an underscore.\<close>

definition anetTcpServer_af :: "bool \<Rightarrow> int \<Rightarrow> string option \<Rightarrow> int \<Rightarrow> int \<Rightarrow> kernel \<Rightarrow> int \<times> kernel" where
  "anetTcpServer_af err port bindaddr af backlog w =
     (let hints = \<lparr>h_flags = AI_PASSIVE, h_family = af, h_socktype = SOCK_STREAM\<rparr>;
          (rv, w) = k_getaddrinfo bindaddr (Some (portstr port)) hints w in
      case rv of
        Inl rv \<Rightarrow> (ANET_ERR, anetSetError err (gai_strerror w rv) w)
      | Inr servinfo \<Rightarrow> let (s, w) = tcp_server_loop err af backlog servinfo w in (s, k_freeaddrinfo w))"

definition anetTcpServer :: "bool \<Rightarrow> int \<Rightarrow> string option \<Rightarrow> int \<Rightarrow> kernel \<Rightarrow> int \<times> kernel" where
  "anetTcpServer err port bindaddr backlog w = anetTcpServer_af err port bindaddr AF_INET backlog w"

definition anetTcp6Server :: "bool \<Rightarrow> int \<Rightarrow> string option \<Rightarrow> int \<Rightarrow> kernel \<Rightarrow> int \<times> kernel" where
  "anetTcp6Server err port bindaddr backlog w = anetTcpServer_af err port bindaddr AF_INET6 backlog w"

text \<open>\<open>chmod\<close> is recorded with the path it is given.\<close>

definition anetUnixServer :: "bool \<Rightarrow> string \<Rightarrow> nat \<Rightarrow> int \<Rightarrow> kernel \<Rightarrow> (int \<times> kernel) cres" where
  "anetUnixServer err path perm backlog w =
     (let (s, w) = anetCreateSocket err AF_UNIX w in
      if s = ANET_ERR then Ok (ANET_ERR, w) else
      res_bind (strncpy (zeroed SUN_PATH_LEN) path (SUN_PATH_LEN - 1)) (\<lambda>sun_path.
      let (r, w) = anetListen err s sun_path backlog w in
      if r = ANET_ERR then Ok (ANET_ERR, w) else
      let w = (if perm \<noteq> 0 then w\<lparr>modes := modes w @ [(cstring sun_path, perm)]\<rparr> else w) in Ok (s, w)))"

section \<open>Accepting\<close>

text \<open>A queue that is empty is EAGAIN, as on a socket that does not block.\<close>

definition k_accept :: "int \<Rightarrow> kernel \<Rightarrow> (int + int \<times> sockaddr) \<times> kernel" where
  "k_accept s w =
     (if socks w s = None then (Inl (-1), w\<lparr>errno := EBADF\<rparr>) else
      case incoming w of
        [] \<Rightarrow> (Inl (-1), w\<lparr>errno := EAGAIN\<rparr>)
      | Inl e # q \<Rightarrow> (Inl (-1), w\<lparr>incoming := q, errno := e\<rparr>)
      | Inr sa # q \<Rightarrow>
          (Inr (next_fd w, sa), w\<lparr>incoming := q,
             socks := (socks w)(next_fd w \<mapsto> \<lparr>so_family = sa_family sa, so_type = SOCK_STREAM, so_protocol = 0,
               so_flags = 0, so_opts = [], so_bound = None, so_conn = Connected (sin_addr sa), so_backlog = None\<rparr>),
             next_fd := next_fd w + 1\<rparr>))"

function anetGenericAccept :: "bool \<Rightarrow> int \<Rightarrow> kernel \<Rightarrow> (int + int \<times> sockaddr) \<times> kernel" where
  "anetGenericAccept err s w =
     (let (r, w') = k_accept s w in
      case r of
        Inr a \<Rightarrow> (Inr a, w')
      | Inl _ \<Rightarrow> if errno w' = EINTR then anetGenericAccept err s w'
                 else (Inl ANET_ERR, set_errno_text err ''accept: '' w'))"
  by pat_completeness auto
termination
  by (relation "measure (\<lambda>(err, s, w). length (incoming w))")
    (auto simp: k_accept_def EAGAIN_def EBADF_def EINTR_def split: if_splits list.splits sum.splits)

declare anetGenericAccept.simps [simp del]

text \<open>A pointer that may be null is an option; an address or a port it points to is the value.\<close>

definition put_addr :: "kernel \<Rightarrow> int \<Rightarrow> string \<Rightarrow> string option \<Rightarrow> nat \<Rightarrow> string option cres" where
  "put_addr w af addr ip ip_len =
     (case ip of None \<Rightarrow> Ok None | Some b \<Rightarrow> res_bind (inet_ntop w af addr b ip_len) (\<lambda>b. Ok (Some b)))"

definition ntohs :: "u16 \<Rightarrow> int" where
  "ntohs p = uint (push_bit 8 p OR drop_bit 8 p)"

definition put_port :: "int \<Rightarrow> int option \<Rightarrow> int option" where
  "put_port p port = map_option (\<lambda>_. p) port"

definition anetTcpAccept :: "bool \<Rightarrow> int \<Rightarrow> string option \<Rightarrow> nat \<Rightarrow> int option \<Rightarrow> kernel
    \<Rightarrow> ((int \<times> string option \<times> int option) \<times> kernel) cres" where
  "anetTcpAccept err s ip ip_len port w =
     (let (r, w) = anetGenericAccept err s w in
      case r of
        Inl _ \<Rightarrow> Ok ((ANET_ERR, ip, port), w)
      | Inr (fd, sa) \<Rightarrow>
          res_bind (if sa_family sa = AF_INET then put_addr w AF_INET (sin_addr sa) ip ip_len
                    else put_addr w AF_INET6 (sin6_addr sa) ip ip_len)
            (\<lambda>ip. Ok ((fd, ip, put_port (ntohs (sin_port sa)) port), w)))"

definition anetUnixAccept :: "bool \<Rightarrow> int \<Rightarrow> kernel \<Rightarrow> int \<times> kernel" where
  "anetUnixAccept err s w =
     (let (r, w) = anetGenericAccept err s w in case r of Inl _ \<Rightarrow> (ANET_ERR, w) | Inr (fd, _) \<Rightarrow> (fd, w))"

end
