(* ===== verification/AnetIo.thy ===== *)
theory AnetIo
  imports AnetConn
begin

text \<open>
  Reading and writing in full, and the texts of the addresses of a socket, of
  src/Clang/aio/ae/anet.c. What a descriptor has to read is a list of chunks and errors, an empty chunk is
  the end of the file; what it can take is a list of sizes and errors, and everything after the list.
\<close>

section \<open>Reading and writing in full\<close>

definition k_read :: "int \<Rightarrow> nat \<Rightarrow> kernel \<Rightarrow> (int + string) \<times> kernel" where
  "k_read fd n w =
     (if socks w fd = None then (Inl (-1), w\<lparr>errno := EBADF\<rparr>) else
      case streams w fd of
        [] \<Rightarrow> (Inr [], w)
      | Inl e # q \<Rightarrow> (Inl (-1), w\<lparr>streams := (streams w)(fd := q), errno := e\<rparr>)
      | Inr c # q \<Rightarrow>
          (Inr (take n c), w\<lparr>streams := (streams w)(fd := if length c \<le> n then q else Inr (drop n c) # q)\<rparr>))"

function read_loop :: "int \<Rightarrow> int \<Rightarrow> nat \<Rightarrow> string \<Rightarrow> kernel \<Rightarrow> ((int \<times> string) \<times> kernel) cres" where
  "read_loop fd count totlen buf w =
     (if int totlen = count then Ok ((to_s32 (int totlen), buf), w) else
      let (r, w') = k_read fd (to_u64 (count - int totlen)) w in
      case r of
        Inl _ \<Rightarrow> Ok ((-1, buf), w')
      | Inr c \<Rightarrow>
          if c = [] then Ok ((to_s32 (int totlen), buf), w')
          else res_bind (memcpy buf totlen c (length c)) (\<lambda>b. read_loop fd count (totlen + length c) b w'))"
  by pat_completeness auto
termination
  by (relation "measure (\<lambda>(fd, count, totlen, buf, w). length buf - totlen)")
    (auto simp: memcpy_def overwrite_def neq_Nil_conv split: if_splits)

declare read_loop.simps [simp del]

definition anetRead :: "int \<Rightarrow> string \<Rightarrow> int \<Rightarrow> kernel \<Rightarrow> ((int \<times> string) \<times> kernel) cres" where
  "anetRead fd buf count w = read_loop fd count 0 buf w"

text \<open>\<open>write\<close> takes some of the \<open>n\<close> bytes that are readable at its pointer.\<close>

definition k_write :: "int \<Rightarrow> string \<Rightarrow> nat \<Rightarrow> kernel \<Rightarrow> ((int + nat) \<times> kernel) cres" where
  "k_write fd buf n w =
     (if socks w fd = None then Ok (Inl (-1), w\<lparr>errno := EBADF\<rparr>) else
      case rooms w fd of
        Inl e # q \<Rightarrow> Ok (Inl (-1), w\<lparr>rooms := (rooms w)(fd := q), errno := e\<rparr>)
      | q \<Rightarrow>
          let k = (case q of Inr k # _ \<Rightarrow> min k n | _ \<Rightarrow> n) in
          if length buf < k then Err Fault
          else Ok (Inr k, w\<lparr>rooms := (rooms w)(fd := tl q), sent := (sent w)(fd := sent w fd @ take k buf)\<rparr>))"

lemma k_write_fits: "k_write fd b n w = Ok (Inr k, w') \<Longrightarrow> k \<le> length b"
  by (auto simp: k_write_def Let_def split: if_splits list.splits sum.splits)

function write_loop :: "int \<Rightarrow> int \<Rightarrow> nat \<Rightarrow> string \<Rightarrow> kernel \<Rightarrow> (int \<times> kernel) cres" where
  "write_loop fd count totlen buf w =
     (if int totlen = count then Ok (to_s32 (int totlen), w) else
      res_bind (k_write fd (drop totlen buf) (to_u64 (count - int totlen)) w) (\<lambda>(r, w').
      case r of
        Inl _ \<Rightarrow> Ok (-1, w')
      | Inr k \<Rightarrow> if k = 0 then Ok (to_s32 (int totlen), w') else write_loop fd count (totlen + k) buf w'))"
  by pat_completeness auto
termination
  by (relation "measure (\<lambda>(fd, count, totlen, buf, w). length buf - totlen)") (auto dest!: k_write_fits)

declare write_loop.simps [simp del]

definition anetWrite :: "int \<Rightarrow> string \<Rightarrow> int \<Rightarrow> kernel \<Rightarrow> (int \<times> kernel) cres" where
  "anetWrite fd buf count w = write_loop fd count 0 buf w"

section \<open>Names of sockets\<close>

definition k_name :: "int + sockaddr \<Rightarrow> int \<Rightarrow> kernel \<Rightarrow> sockaddr option \<times> kernel" where
  "k_name r fd w =
     (if socks w fd = None then (None, w\<lparr>errno := EBADF\<rparr>)
      else case r of Inl e \<Rightarrow> (None, w\<lparr>errno := e\<rparr>) | Inr sa \<Rightarrow> (Some sa, w))"

definition on_ptr :: "string option \<Rightarrow> (string \<Rightarrow> string cres) \<Rightarrow> string option cres" where
  "on_ptr ip f = (case ip of None \<Rightarrow> Ok None | Some b \<Rightarrow> res_bind (f b) (\<lambda>b. Ok (Some b)))"

definition question :: byte where "question = CHR ''?''"

definition peer_error :: "string option \<Rightarrow> nat \<Rightarrow> string option cres" where
  "peer_error ip ip_len =
     on_ptr ip (\<lambda>b. if 2 \<le> ip_len then res_bind (store b 0 question) (\<lambda>b. store b 1 NUL)
                   else if ip_len = 1 then store b 0 NUL else Ok b)"

definition anetPeerToString :: "int \<Rightarrow> string option \<Rightarrow> nat \<Rightarrow> int option \<Rightarrow> kernel
    \<Rightarrow> ((int \<times> string option \<times> int option) \<times> kernel) cres" where
  "anetPeerToString fd ip ip_len port w =
     (let (name, w) = k_name (peer_of w fd) fd w;
          error = res_bind (peer_error ip ip_len) (\<lambda>ip. Ok ((-1, ip, put_port 0 port), w)) in
      case name of
        None \<Rightarrow> error
      | Some sa \<Rightarrow>
          if ip_len = 0 then error
          else if sa_family sa = AF_INET then
            res_bind (put_addr w AF_INET (sin_addr sa) ip ip_len)
              (\<lambda>ip. Ok ((0, ip, put_port (ntohs (sin_port sa)) port), w))
          else if sa_family sa = AF_INET6 then
            res_bind (put_addr w AF_INET6 (sin6_addr sa) ip ip_len)
              (\<lambda>ip. Ok ((0, ip, put_port (ntohs (sin_port sa)) port), w))
          else if sa_family sa = AF_UNIX then
            res_bind (on_ptr ip (\<lambda>b. strncpy b (''/unixsocket'' @ [NUL]) ip_len))
              (\<lambda>ip. Ok ((0, ip, put_port 0 port), w))
          else error)"

text \<open>The text that is written, and the number of its bytes.\<close>

definition anetFormatAddr :: "string \<Rightarrow> nat \<Rightarrow> string \<Rightarrow> int \<Rightarrow> (int \<times> string) cres" where
  "anetFormatAddr buf buf_len ip port =
     res_bind (strchr ip (CHR '':'')) (\<lambda>colon.
     let out = (if colon then ''['' @ cstring ip @ '']:'' @ show_int port else cstring ip @ '':'' @ show_int port) in
     res_bind (vsnprintf buf 0 buf_len out) (\<lambda>b. Ok (int (length out), b)))"

definition anetFormatPeer :: "int \<Rightarrow> string \<Rightarrow> nat \<Rightarrow> kernel \<Rightarrow> ((int \<times> string) \<times> kernel) cres" where
  "anetFormatPeer fd buf buf_len w =
     res_bind (anetPeerToString fd (Some (fresh w INET6_ADDRSTRLEN)) INET6_ADDRSTRLEN (Some 0) w) (\<lambda>((r, ip, port), w).
     res_bind (anetFormatAddr buf buf_len (the ip) (the port)) (\<lambda>b. Ok (b, w)))"

definition anetSockName :: "int \<Rightarrow> string option \<Rightarrow> nat \<Rightarrow> int option \<Rightarrow> kernel
    \<Rightarrow> ((int \<times> string option \<times> int option) \<times> kernel) cres" where
  "anetSockName fd ip ip_len port w =
     (let (name, w) = k_name (name_of w fd) fd w in
      case name of
        None \<Rightarrow>
          (case ip of
             None \<Rightarrow> Err Fault
           | Some b \<Rightarrow> res_bind (store b 0 question) (\<lambda>b. res_bind (store b 1 NUL) (\<lambda>b.
               Ok ((-1, Some b, put_port 0 port), w))))
      | Some sa \<Rightarrow>
          if sa_family sa = AF_INET then
            res_bind (put_addr w AF_INET (sin_addr sa) ip ip_len)
              (\<lambda>ip. Ok ((0, ip, put_port (ntohs (sin_port sa)) port), w))
          else
            res_bind (put_addr w AF_INET6 (sin6_addr sa) ip ip_len)
              (\<lambda>ip. Ok ((0, ip, put_port (ntohs (sin_port sa)) port), w)))"

definition anetFormatSock :: "int \<Rightarrow> string \<Rightarrow> nat \<Rightarrow> kernel \<Rightarrow> ((int \<times> string) \<times> kernel) cres" where
  "anetFormatSock fd fmt fmt_len w =
     res_bind (anetSockName fd (Some (fresh w INET6_ADDRSTRLEN)) INET6_ADDRSTRLEN (Some 0) w) (\<lambda>((r, ip, port), w).
     res_bind (anetFormatAddr fmt fmt_len (the ip) (the port)) (\<lambda>b. Ok (b, w)))"

end
