(* ===== verification/AnetSpec.thy ===== *)
theory AnetSpec
  imports AnetIo
begin

text \<open>
  What the helpers of src/Clang/aio/ae/anet.c keep: they act on their own socket and on no other,
  and give back what they took, except where a lemma says otherwise.
\<close>

named_theorems acts_intros \<open>calls that act on one socket only\<close>

section \<open>Acting on one socket\<close>

text \<open>Descriptors from \<open>next_fd\<close> on are free.\<close>

definition fresh_fds :: "kernel \<Rightarrow> bool" where
  "fresh_fds w \<longleftrightarrow> 0 \<le> next_fd w \<and> (\<forall>fd \<ge> next_fd w. socks w fd = None)"

definition nonblocking :: "sock \<Rightarrow> bool" where
  "nonblocking k \<longleftrightarrow> has_flag (so_flags k) O_NONBLOCK"

definition keeps :: "sock \<Rightarrow> sock \<Rightarrow> bool" where
  "keeps k k' \<longleftrightarrow> so_conn k' = so_conn k \<and> so_backlog k' = so_backlog k \<and> (nonblocking k \<longrightarrow> nonblocking k')"

definition acts_on :: "int \<Rightarrow> kernel \<Rightarrow> kernel \<Rightarrow> bool" where
  "acts_on s w w' \<longleftrightarrow> next_fd w' = next_fd w \<and> infos w' = infos w \<and>
     (\<forall>k. socks w s = Some k \<longrightarrow> (\<exists>k'. socks w' = (socks w)(s \<mapsto> k') \<and> keeps k k'))"

lemma keeps_refl [simp]: "keeps k k"
  by (simp add: keeps_def)

lemma acts_on_refl: "socks w' = socks w \<Longrightarrow> next_fd w' = next_fd w \<Longrightarrow> infos w' = infos w \<Longrightarrow> acts_on s w w'"
  by (auto simp: acts_on_def) (metis keeps_refl map_upd_triv)

lemma acts_on_trans: "acts_on s w w' \<Longrightarrow> acts_on s w' w'' \<Longrightarrow> acts_on s w w''"
  unfolding acts_on_def keeps_def by fastforce

lemma acts_onE:
  assumes "acts_on s w w'" "socks w s = Some k"
  obtains k' where "socks w' = (socks w)(s \<mapsto> k')" "keeps k k'" "next_fd w' = next_fd w" "infos w' = infos w"
  using assms by (auto simp: acts_on_def)

lemma anetSetError_simps [simp]:
  "socks (anetSetError err t w) = socks w" "next_fd (anetSetError err t w) = next_fd w"
  "infos (anetSetError err t w) = infos w" "errno (anetSetError err t w) = errno w"
  "socks (set_errno_text err t w) = socks w" "next_fd (set_errno_text err t w) = next_fd w"
  "infos (set_errno_text err t w) = infos w" "errno (set_errno_text err t w) = errno w"
  by (simp_all add: anetSetError_def set_errno_text_def)

lemma acts_on_error [simp]:
  "acts_on s w (anetSetError err t w') \<longleftrightarrow> acts_on s w w'"
  "acts_on s w (set_errno_text err t w') \<longleftrightarrow> acts_on s w w'"
  by (simp_all add: acts_on_def)

lemma outcome_keeps:
  assumes "outcome w = (ok, w')"
  shows "socks w' = socks w" "next_fd w' = next_fd w" "infos w' = infos w" "incoming w' = incoming w"
  using assms by (auto simp: outcome_def split: list.splits option.splits)

lemma on_sock_cases:
  assumes "on_sock fd f w = (r, w')"
  shows "next_fd w' = next_fd w \<and> infos w' = infos w \<and>
    (r = -1 \<and> socks w' = socks w \<or> r = 0 \<and> (\<exists>k. socks w fd = Some k \<and> socks w' = (socks w)(fd \<mapsto> f k)))"
proof -
  obtain ok w1 where o1: "outcome w = (ok, w1)" by fastforce
  show ?thesis
    using assms outcome_keeps [OF o1] o1
    by (cases ok; cases "socks w fd") (auto simp: on_sock_def)
qed

lemma on_sock_acts: "on_sock fd f w = (r, w') \<Longrightarrow> (\<And>k. keeps k (f k)) \<Longrightarrow> acts_on fd w w'"
  using on_sock_cases [of fd f w r w'] by (auto intro: acts_on_refl) (auto simp: acts_on_def)

lemma k_setsockopt_acts [acts_intros]: "k_setsockopt fd opt val w = (r, w') \<Longrightarrow> acts_on fd w w'"
  unfolding k_setsockopt_def by (rule on_sock_acts) (auto simp: keeps_def nonblocking_def)

lemma k_bind_acts [acts_intros]: "k_bind fd a w = (r, w') \<Longrightarrow> acts_on fd w w'"
  unfolding k_bind_def by (rule on_sock_acts) (auto simp: keeps_def nonblocking_def)

lemma set_option_acts [acts_intros]: "set_option err fd opt val t eol w = (r, w') \<Longrightarrow> acts_on fd w w'"
  using k_setsockopt_acts [of fd opt val w]
  by (auto simp: set_option_def split: prod.splits if_splits)

lemma anetSetReuseAddr_acts [acts_intros]: "anetSetReuseAddr err fd w = (r, w') \<Longrightarrow> acts_on fd w w'"
  unfolding anetSetReuseAddr_def by (rule set_option_acts)

lemma or_has_flag: "b \<noteq> 0 \<Longrightarrow> has_flag (a OR b) b"
proof -
  assume b: "b \<noteq> 0"
  have "(a OR b) AND b = b" by (rule bit_eqI) (auto simp: bit_simps)
  with b show ?thesis by (simp add: has_flag_def)
qed

lemma anetNonBlock_acts:
  assumes "anetNonBlock err fd w = (r, w')"
  shows "acts_on fd w w'" "r = ANET_OK \<Longrightarrow> \<exists>k. socks w' fd = Some k \<and> nonblocking k" "r = ANET_OK \<or> r = ANET_ERR"
proof -
  obtain r1 w1 where g: "on_sock fd id w = (r1, w1)" by fastforce
  have a1: "acts_on fd w w1" by (rule on_sock_acts [OF g]) simp
  define fl where "fl = fst (k_getfl fd w)"
  have f: "k_getfl fd w = (fl, w1)" using g by (simp add: k_getfl_def fl_def)
  obtain r2 w2 where s: "k_setfl fd (fl OR O_NONBLOCK) w1 = (r2, w2)" by fastforce
  have nb: "nonblocking (k\<lparr>so_flags := fl OR O_NONBLOCK\<rparr>)" for k
    by (simp add: nonblocking_def or_has_flag O_NONBLOCK_def)
  have a2: "acts_on fd w1 w2"
    by (rule on_sock_acts [OF s [unfolded k_setfl_def]]) (auto simp: keeps_def nb)
  have n: "r2 \<noteq> -1 \<Longrightarrow> \<exists>k. socks w2 fd = Some k \<and> nonblocking k"
    using on_sock_cases [OF s [unfolded k_setfl_def]] nb by auto
  have a: "acts_on fd w w2" by (rule acts_on_trans [OF a1 a2])
  have e: "anetNonBlock err fd w = (if fl = -1 then (ANET_ERR, set_errno_text err ''fcntl(F_GETFL): '' w1)
      else if r2 = -1 then (ANET_ERR, set_errno_text err ''fcntl(F_SETFL,O_NONBLOCK): '' w2) else (ANET_OK, w2))"
    by (simp add: anetNonBlock_def anetSetBlock_def f s)
  show "acts_on fd w w'" "r = ANET_OK \<or> r = ANET_ERR" using assms e a a1 by (auto split: if_splits)
  show "r = ANET_OK \<Longrightarrow> \<exists>k. socks w' fd = Some k \<and> nonblocking k"
    using assms e n by (auto simp: ANET_OK_def ANET_ERR_def split: if_splits)
qed

lemma bind_any_acts [acts_intros]: "bind_any s bs w = (r, w') \<Longrightarrow> acts_on s w w'"
proof (induction s bs w rule: bind_any.induct)
  case (1 s w)
  then show ?case by (simp add: acts_on_refl)
next
  case (2 s b bs w)
  obtain r1 w1 where k: "k_bind s (ai_addr b) w = (r1, w1)" by fastforce
  show ?case
  proof (cases "r1 = -1")
    case True
    have "acts_on s w1 w'" using 2 k True by simp
    then show ?thesis by (rule acts_on_trans [OF k_bind_acts [OF k]])
  next
    case False
    then show ?thesis using 2(2) k_bind_acts [OF k] k by simp
  qed
qed

lemma bind_source_acts:
  assumes "bind_source err s a h w = (go, w')"
  shows "acts_on s w w'"
proof (cases "resolve w (Some a) None h")
  case (Inl e)
  then show ?thesis using assms by (auto simp: bind_source_def k_getaddrinfo_def acts_on_refl)
next
  case (Inr l)
  obtain b w1 where k: "bind_any s l (w\<lparr>infos := infos w + 1\<rparr>) = (b, w1)" by fastforce
  have "acts_on s w (k_freeaddrinfo w1)"
    using bind_any_acts [OF k] by (auto simp: acts_on_def k_freeaddrinfo_def)
  then show ?thesis using assms Inr k by (auto simp: bind_source_def k_getaddrinfo_def Let_def split: if_splits)
qed

section \<open>A concrete kernel\<close>

text \<open>Every name resolves to these addresses, the calls end as the list says, descriptor 3 is open.\<close>

definition kernel0 :: "int option list \<Rightarrow> addrinfo list \<Rightarrow> kernel" where
  "kernel0 os as =
     \<lparr>oom_script = [], junk = \<lambda>_. CHR ''x'',
      socks = [3 \<mapsto> \<lparr>so_family = AF_INET, so_type = SOCK_STREAM, so_protocol = 0, so_flags = 0, so_opts = [],
          so_bound = None, so_conn = Unconnected, so_backlog = Some 5\<rparr>],
      next_fd = 4, outcomes = os, errno = 0, resolve = \<lambda>h p f. Inr as, infos = 0, strerror = \<lambda>e. ''error'',
      gai_strerror = \<lambda>e. ''name'', ntop = \<lambda>af a. ''10.0.0.1'', incoming = [],
      peer_of = \<lambda>fd. Inr \<lparr>sa_family = AF_INET, sin_addr = ''a'', sin6_addr = [], sin_port = 0x5000\<rparr>,
      name_of = \<lambda>fd. Inl 107, streams = \<lambda>fd. [Inr ''ab'', Inr ''cd''], rooms = \<lambda>fd. [Inr 1, Inr 2],
      sent = \<lambda>fd. [], modes = [], err_buf = []\<rparr>"

definition inet_addr :: "string \<Rightarrow> addrinfo" where
  "inet_addr a = \<lparr>ai_family = AF_INET, ai_socktype = SOCK_STREAM, ai_protocol = 0, ai_addr = a\<rparr>"

lemma fresh_kernel0 [simp]: "fresh_fds (kernel0 os as)"
  by (simp add: fresh_fds_def kernel0_def)

end
