(* ===== verification/AnetProps.thy ===== *)
theory AnetProps
  imports AnetSpec
begin

text \<open>
  Properties of src/Clang/aio/ae/anet.c: who owns a descriptor after a connection or a server was
  asked for, that reading and writing in full move whole streams, and that addresses read back.
\<close>

section \<open>Connections\<close>

lemma k_socket_cases:
  assumes "k_socket f t p w = (s, w')" "fresh_fds w"
  shows "infos w' = infos w \<and> fresh_fds w' \<and>
    (s = -1 \<and> socks w' = socks w \<or>
     s = next_fd w \<and> next_fd w' = s + 1 \<and> (\<exists>k. socks w' = (socks w)(s \<mapsto> k) \<and> so_conn k = Unconnected \<and> so_backlog k = None))"
proof -
  obtain ok w1 where o1: "outcome w = (ok, w1)" by fastforce
  show ?thesis
    using assms outcome_keeps [OF o1] o1 by (cases ok) (auto simp: k_socket_def fresh_fds_def)
qed

lemma k_connect_cases:
  assumes "k_connect s a w = (r, w')" "socks w s = Some k"
  shows "next_fd w' = next_fd w \<and> infos w' = infos w \<and>
    (r = 0 \<and> socks w' = (socks w)(s \<mapsto> k\<lparr>so_conn := Connected a\<rparr>) \<or>
     r = -1 \<and> errno w' = EINPROGRESS \<and> socks w' = (socks w)(s \<mapsto> k\<lparr>so_conn := Connecting a\<rparr>) \<or>
     r = -1 \<and> errno w' \<noteq> EINPROGRESS \<and> socks w' = socks w)"
proof -
  obtain r1 w1 where o1: "on_sock s (\<lambda>s. s\<lparr>so_conn := Connected a\<rparr>) w = (r1, w1)" by fastforce
  show ?thesis
    using assms on_sock_cases [OF o1] o1 by (auto simp: k_connect_def Let_def split: if_splits)
qed

text \<open>Nothing is open but what was, or one socket more that is ready for its caller.\<close>

definition owns :: "(sock \<Rightarrow> bool) \<Rightarrow> kernel \<Rightarrow> int \<Rightarrow> kernel \<Rightarrow> bool" where
  "owns P w s w' \<longleftrightarrow> infos w' = infos w \<and> fresh_fds w' \<and>
     (s = ANET_ERR \<and> socks w' = socks w \<or>
      0 \<le> s \<and> socks w s = None \<and> (\<exists>k. socks w' = (socks w)(s \<mapsto> k) \<and> P k))"

definition has_sock :: "kernel \<Rightarrow> int \<Rightarrow> sock \<Rightarrow> kernel \<Rightarrow> bool" where
  "has_sock w s k w' \<longleftrightarrow> infos w' = infos w \<and> fresh_fds w' \<and>
     0 \<le> s \<and> s < next_fd w' \<and> socks w s = None \<and> socks w' = (socks w)(s \<mapsto> k)"

definition reached :: "string option \<Rightarrow> int \<Rightarrow> string set \<Rightarrow> sock \<Rightarrow> bool" where
  "reached source_addr flags as k \<longleftrightarrow>
     (case so_conn k of
        Connected a \<Rightarrow> a \<in> as
      | Connecting a \<Rightarrow> a \<in> as \<and> has_flag flags ANET_CONNECT_NONBLOCK \<and> nonblocking k
      | Unconnected \<Rightarrow> source_addr \<noteq> None)"

lemma has_sock_open: "has_sock w s k w' \<Longrightarrow> socks w' s = Some k"
  by (simp add: has_sock_def)

lemma has_sock_acts:
  assumes "has_sock w s k w1" "acts_on s w1 w2"
  obtains k' where "has_sock w s k' w2" "keeps k k'"
proof -
  obtain k' where "socks w2 = (socks w1)(s \<mapsto> k')" "keeps k k'" "next_fd w2 = next_fd w1" "infos w2 = infos w1"
    using assms has_sock_open by (blast elim: acts_onE)
  then show thesis using assms that [of k'] by (auto simp: has_sock_def fresh_fds_def)
qed

lemma has_sock_owns: "has_sock w s k w' \<Longrightarrow> P k \<Longrightarrow> owns P w s w'"
  by (auto simp: has_sock_def owns_def)

lemma has_sock_close: "has_sock w s k w' \<Longrightarrow> owns P w ANET_ERR (k_close s w')"
  by (auto simp: has_sock_def owns_def k_close_def fresh_fds_def fun_upd_idem)

lemma has_sock_socket:
  assumes "k_socket f t p w = (s, w')" "fresh_fds w"
  shows "s = -1 \<and> socks w' = socks w \<and> infos w' = infos w \<and> fresh_fds w' \<or>
    (\<exists>k. has_sock w s k w' \<and> so_conn k = Unconnected \<and> so_backlog k = None)"
  using k_socket_cases [OF assms] assms(2) by (auto simp: has_sock_def fresh_fds_def)

lemma has_sock_error [simp]:
  "has_sock w s k (anetSetError err t w') \<longleftrightarrow> has_sock w s k w'"
  "has_sock w s k (set_errno_text err t w') \<longleftrightarrow> has_sock w s k w'"
  by (simp_all add: has_sock_def fresh_fds_def)

lemma owns_error [simp]:
  "owns P w s (anetSetError err t w') \<longleftrightarrow> owns P w s w'"
  "owns P w s (set_errno_text err t w') \<longleftrightarrow> owns P w s w'"
  by (simp_all add: owns_def fresh_fds_def)

lemma owns_trans: "socks w' = socks w \<Longrightarrow> infos w' = infos w \<Longrightarrow> owns P w' s w'' \<Longrightarrow> owns P w s w''"
  by (simp add: owns_def)

lemma tcp_connect_step_owns:
  assumes fresh: "fresh_fds w" and step: "tcp_connect_step err src flags h p w = (act, w')"
  shows "case act of
      Continue \<Rightarrow> socks w' = socks w \<and> infos w' = infos w \<and> fresh_fds w'
    | Return s \<Rightarrow> owns (reached src flags {ai_addr p}) w s w'"
proof -
  obtain s w1 where w1: "k_socket (ai_family p) (ai_socktype p) (ai_protocol p) w = (s, w1)" by fastforce
  note step = step [unfolded tcp_connect_step_def w1 Let_def split]
  consider "s = -1" "socks w1 = socks w" "infos w1 = infos w" "fresh_fds w1"
    | k where "has_sock w s k w1" "so_conn k = Unconnected"
    using has_sock_socket [OF w1 fresh] by blast
  then show ?thesis
  proof cases
    case 1
    then show ?thesis using step by auto
  next
    case (2 k)
    then have s: "s \<noteq> -1" by (auto simp: has_sock_def)
    obtain r2 w2 where w2: "anetSetReuseAddr err s w1 = (r2, w2)" by fastforce
    obtain k2 where k2: "has_sock w s k2 w2" "keeps k k2"
      using has_sock_acts [OF 2(1) anetSetReuseAddr_acts [OF w2]] by blast
    define nb where "nb = has_flag flags ANET_CONNECT_NONBLOCK"
    obtain r3 w3 where w3: "(if nb then anetNonBlock err s w2 else (ANET_OK, w2)) = (r3, w3)" by fastforce
    have a3: "acts_on s w2 w3" "nb \<and> r3 = ANET_OK \<Longrightarrow> \<exists>k. socks w3 s = Some k \<and> nonblocking k"
      using w3 anetNonBlock_acts [of err s w2 r3 w3] by (auto simp: acts_on_refl split: if_splits)
    obtain k3 where k3: "has_sock w s k3 w3" "keeps k2 k3" using has_sock_acts [OF k2(1) a3(1)] by blast
    obtain go w4 where w4: "(case src of None \<Rightarrow> (True, w3) | Some a \<Rightarrow> bind_source err s a h w3) = (go, w4)" by fastforce
    have a4: "acts_on s w3 w4" and go: "\<not> go \<Longrightarrow> src \<noteq> None"
      using w4 bind_source_acts by (auto simp: acts_on_refl split: option.splits)
    obtain k4 where k4: "has_sock w s k4 w4" "keeps k3 k4" using has_sock_acts [OF k3(1) a4] by blast
    have conn: "so_conn k4 = Unconnected"
      using 2(2) k2(2) k3(2) k4(2) by (simp add: keeps_def)
    have nonb: "nb \<and> r3 = ANET_OK \<Longrightarrow> nonblocking k4"
      using a3(2) has_sock_open [OF k3(1)] k4(2) by (auto simp: keeps_def)
    obtain r5 w5 where w5: "k_connect s (ai_addr p) w4 = (r5, w5)" by fastforce
    note c5 = k_connect_cases [OF w5 has_sock_open [OF k4(1)]]
    have h5: "r5 = 0 \<Longrightarrow> has_sock w s (k4\<lparr>so_conn := Connected (ai_addr p)\<rparr>) w5"
      "r5 = -1 \<Longrightarrow> errno w5 = EINPROGRESS \<Longrightarrow> has_sock w s (k4\<lparr>so_conn := Connecting (ai_addr p)\<rparr>) w5"
      "r5 = -1 \<Longrightarrow> \<exists>k. has_sock w s k w5"
      using c5 k4(1) by (auto simp: has_sock_def fresh_fds_def)
    have cl: "\<And>k w'. has_sock w s k w' \<Longrightarrow>
        socks (k_close s w') = socks w \<and> infos (k_close s w') = infos w \<and> fresh_fds (k_close s w')"
      using has_sock_close [of w s _ _ "\<lambda>_. False"] by (auto simp: owns_def)
    have r5: "r5 = 0 \<or> r5 = -1" using c5 by blast
    have eq: "(act, w') = (if r2 = ANET_ERR then (Return ANET_ERR, k_close s w2)
        else if r3 \<noteq> ANET_OK then (Return ANET_ERR, k_close s w3)
        else if \<not> go then (Return s, w4)
        else if r5 = -1 then if errno w5 = EINPROGRESS \<and> nb then (Return s, w5) else (Continue, k_close s w5)
        else (Return s, w5))"
      using step [unfolded w2 split nb_def [symmetric] w3 w4 w5] s by simp
    consider (reuse) "act = Return ANET_ERR" "w' = k_close s w2"
      | (nonblock) "act = Return ANET_ERR" "w' = k_close s w3"
      | (bind) "act = Return s" "w' = w4" "src \<noteq> None"
      | (progress) "act = Return s" "w' = w5" "r5 = -1" "errno w5 = EINPROGRESS" "nb" "r3 = ANET_OK"
      | (refused) "act = Continue" "w' = k_close s w5" "r5 = -1"
      | (connected) "act = Return s" "w' = w5" "r5 = 0"
      using eq r5 go by (auto split: if_splits)
    then show ?thesis
    proof cases
      case reuse
      then show ?thesis using has_sock_close [OF k2(1)] by simp
    next
      case nonblock
      then show ?thesis using has_sock_close [OF k3(1)] by simp
    next
      case bind
      then show ?thesis using has_sock_owns [OF k4(1), of "reached src flags {ai_addr p}"] conn
        by (simp add: reached_def)
    next
      case progress
      have "nonblocking (k4\<lparr>so_conn := Connecting (ai_addr p)\<rparr>)"
        using nonb progress by (simp add: nonblocking_def)
      then show ?thesis
        using has_sock_owns [OF h5(2), of "reached src flags {ai_addr p}"] progress
        by (simp add: reached_def nb_def)
    next
      case refused
      then show ?thesis using h5(3) cl by auto
    next
      case connected
      then show ?thesis using has_sock_owns [OF h5(1), of "reached src flags {ai_addr p}"]
        by (simp add: reached_def)
    qed
  qed
qed

lemma owns_mono: "owns P w s w' \<Longrightarrow> (\<And>k. P k \<Longrightarrow> Q k) \<Longrightarrow> owns Q w s w'"
  by (auto simp: owns_def)

lemma reached_mono: "reached src flags as k \<Longrightarrow> as \<subseteq> bs \<Longrightarrow> reached src flags bs k"
  by (auto simp: reached_def split: conn.splits)

lemma tcp_connect_loop_owns:
  "fresh_fds w \<Longrightarrow> tcp_connect_loop err src flags h ps w = (s, w') \<Longrightarrow>
   owns (reached src flags (ai_addr ` set ps)) w s w'"
proof (induction ps arbitrary: w)
  case Nil
  then show ?case by (auto simp: owns_def fresh_fds_def)
next
  case (Cons p ps)
  obtain act w1 where w1: "tcp_connect_step err src flags h p w = (act, w1)" by fastforce
  note own = tcp_connect_step_owns [OF Cons.prems(1) w1]
  show ?case
  proof (cases act)
    case Continue
    then have "tcp_connect_loop err src flags h ps w1 = (s, w')" "fresh_fds w1"
      using Cons.prems(2) own by (simp_all add: w1)
    then have "owns (reached src flags (ai_addr ` set ps)) w1 s w'" by (intro Cons.IH)
    then have "owns (reached src flags (ai_addr ` set (p # ps))) w1 s w'"
      by (rule owns_mono) (auto elim: reached_mono)
    then show ?thesis using own Continue by (auto intro: owns_trans)
  next
    case (Return s')
    then show ?thesis using Cons.prems(2) own by (auto simp: w1 elim!: owns_mono reached_mono)
  qed
qed

lemma owns_with_info:
  assumes "owns P (w\<lparr>infos := infos w + 1\<rparr>) s w1"
  shows "owns P w s (k_freeaddrinfo w1)"
  using assms by (auto simp: owns_def k_freeaddrinfo_def fresh_fds_def)

text \<open>C18. A connection over TCP gives back everything it took but the socket it returns: every candidate
  that failed is closed and every list of \<open>getaddrinfo\<close> is freed, on every path. The socket it
  returns is new and connected to an address of the host, or still connecting to one when it was asked not to block
  and is then in non-blocking mode, or not connected at all, which happens only with a source address.\<close>

theorem anetTcpGenericConnect_owns:
  assumes "fresh_fds w" "anetTcpGenericConnect err addr port source_addr flags w = (s, w')"
  shows "owns (reached source_addr flags
      (case resolve w (Some addr) (Some (portstr port)) \<lparr>h_flags = 0, h_family = AF_UNSPEC, h_socktype = SOCK_STREAM\<rparr> of
         Inl _ \<Rightarrow> {} | Inr l \<Rightarrow> ai_addr ` set l)) w s w'"
proof (cases "resolve w (Some addr) (Some (portstr port)) \<lparr>h_flags = 0, h_family = AF_UNSPEC, h_socktype = SOCK_STREAM\<rparr>")
  case (Inl e)
  then show ?thesis using assms by (auto simp: anetTcpGenericConnect_def k_getaddrinfo_def owns_def fresh_fds_def)
next
  case (Inr l)
  let ?w = "w\<lparr>infos := infos w + 1\<rparr>"
  obtain s1 w1 where w1: "tcp_connect_loop err source_addr flags \<lparr>h_flags = 0, h_family = AF_UNSPEC, h_socktype = SOCK_STREAM\<rparr> l ?w = (s1, w1)"
    by fastforce
  then have "owns (reached source_addr flags (ai_addr ` set l)) ?w s1 w1"
    using assms(1) by (intro tcp_connect_loop_owns) (simp_all add: fresh_fds_def)
  then show ?thesis
    using assms(2) w1 Inr by (auto simp: anetTcpGenericConnect_def k_getaddrinfo_def owns_with_info)
qed

lemmas anet_eval = kernel0_def inet_addr_def anetTcpGenericConnect_def anetTcpServer_af_def tcp_connect_step_def tcp_server_step_def
  k_getaddrinfo_def k_freeaddrinfo_def k_socket_def k_connect_def k_setsockopt_def k_getfl_def k_setfl_def k_bind_def
  k_listen_def k_close_def on_sock_def outcome_def set_option_def anetSetReuseAddr_def anetListen_def anetV6Only_def
  anetNonBlock_def anetSetBlock_def set_errno_text_def anetSetError_def ANET_OK_def ANET_ERR_def ANET_ERR_LEN_def
  ANET_CONNECT_NONE_def ANET_CONNECT_NONBLOCK_def has_flag_def bind_source_def EINPROGRESS_def EBADF_def
  AF_INET_def AF_INET6_def SOCK_STREAM_def Let_def

text \<open>The first address refuses and the second one accepts.\<close>

theorem anetTcpGenericConnect_owns_witness:
  "\<exists>w'. anetTcpGenericConnect True ''h'' 80 None ANET_CONNECT_NONE
      (kernel0 [None, None, Some 111] [inet_addr ''a'', inet_addr ''b'']) = (5, w') \<and>
    owns (reached None ANET_CONNECT_NONE {''a'', ''b''})
      (kernel0 [None, None, Some 111] [inet_addr ''a'', inet_addr ''b'']) 5 w'"
proof -
  let ?w = "kernel0 [None, None, Some 111] [inet_addr ''a'', inet_addr ''b'']"
  obtain s w' where r: "anetTcpGenericConnect True ''h'' 80 None ANET_CONNECT_NONE ?w = (s, w')" by fastforce
  have "resolve ?w = (\<lambda>h p f. Inr [inet_addr ''a'', inet_addr ''b''])" by (simp add: kernel0_def)
  then have "owns (reached None ANET_CONNECT_NONE {''a'', ''b''}) ?w s w'"
    using anetTcpGenericConnect_owns [OF fresh_kernel0 r] by (simp add: inet_addr_def)
  moreover have "s = 5" using r by (simp add: anet_eval)
  ultimately show ?thesis using r by blast
qed

text \<open>A source address that cannot be bound: the call returns a socket, which is connected to nothing.\<close>

lemma anetTcpNonBlockBindConnect_unconnected:
  "let (s, w) = anetTcpNonBlockBindConnect True ''h'' 80 ''src'' (kernel0 [None, None, None, None, Some 99] [inet_addr ''a''])
   in s = 4 \<and> map_option so_conn (socks w 4) = Some Unconnected \<and> err_buf w = ''bind: error''"
  by (simp add: anetTcpNonBlockBindConnect_def anet_eval)

section \<open>Servers\<close>

definition listening :: "int \<Rightarrow> string set \<Rightarrow> sock \<Rightarrow> bool" where
  "listening backlog as k \<longleftrightarrow> so_backlog k = Some backlog \<and> (\<exists>a \<in> as. so_bound k = Some a)"

lemma anetListen_owns:
  assumes "has_sock w s k w1" "anetListen err s a backlog w1 = (r, w2)"
  shows "r = ANET_OK \<and> owns (listening backlog {a}) w s w2 \<or> r = ANET_ERR \<and> (\<forall>P. owns P w ANET_ERR w2)"
proof -
  obtain r3 w3 where w3: "k_bind s a w1 = (r3, w3)" by fastforce
  obtain r4 w4 where w4: "k_listen s backlog w3 = (r4, w4)" by fastforce
  have k3: "r3 = -1 \<and> has_sock w s k w3 \<or> r3 = 0 \<and> has_sock w s (k\<lparr>so_bound := Some a\<rparr>) w3"
    using on_sock_cases [OF w3 [unfolded k_bind_def]] assms(1) by (auto simp: has_sock_def fresh_fds_def)
  have k4: "r3 = 0 \<Longrightarrow> r4 = -1 \<and> has_sock w s (k\<lparr>so_bound := Some a\<rparr>) w4
      \<or> r4 = 0 \<and> has_sock w s (k\<lparr>so_bound := Some a, so_backlog := Some backlog\<rparr>) w4"
    using on_sock_cases [OF w4 [unfolded k_listen_def]] k3 by (auto simp: has_sock_def fresh_fds_def)
  have e: "(r, w2) = (if r3 = -1 then (ANET_ERR, k_close s (set_errno_text err ''bind: '' w3))
      else if r4 = -1 then (ANET_ERR, k_close s (set_errno_text err ''listen: '' w4)) else (ANET_OK, w4))"
    using assms(2) by (simp add: anetListen_def w3 w4 cong: if_cong)
  then consider "r3 = -1" "r = ANET_ERR" "w2 = k_close s (set_errno_text err ''bind: '' w3)"
    | "r3 = 0" "r4 = -1" "r = ANET_ERR" "w2 = k_close s (set_errno_text err ''listen: '' w4)"
    | "r3 = 0" "r4 = 0" "r = ANET_OK" "w2 = w4"
    using k3 k4 by (auto split: if_splits)
  then show ?thesis
  proof cases
    case 1
    then show ?thesis using k3 has_sock_close [of w s k "set_errno_text err ''bind: '' w3"] by simp
  next
    case 2
    then show ?thesis
      using k4 has_sock_close [of w s "k\<lparr>so_bound := Some a\<rparr>" "set_errno_text err ''listen: '' w4"] by simp
  next
    case 3
    then show ?thesis using k4 by (auto simp: listening_def intro!: has_sock_owns)
  qed
qed

text \<open>A socket that nobody holds: the call has failed and left it open.\<close>

definition leaks :: "kernel \<Rightarrow> int \<Rightarrow> kernel \<Rightarrow> bool" where
  "leaks w s w' \<longleftrightarrow> s = ANET_ERR \<and> (\<exists>fd k. has_sock w fd k w' \<and> so_conn k = Unconnected \<and> so_backlog k = None)"

lemma set_option_ret: "set_option err fd opt val t eol w = (r, w') \<Longrightarrow> r = ANET_OK \<or> r = ANET_ERR"
  by (auto simp: set_option_def split: prod.splits if_splits)

lemma anetV6Only_owns:
  assumes "has_sock w s k w1" "anetV6Only err s w1 = (r, w2)"
  shows "r = ANET_OK \<and> (\<exists>k'. has_sock w s k' w2 \<and> keeps k k') \<or> r = ANET_ERR \<and> (\<forall>P. owns P w ANET_ERR w2)"
proof -
  obtain r3 w3 where w3: "k_setsockopt s IPV6_V6ONLY [1] w1 = (r3, w3)" by fastforce
  obtain k3 where k3: "has_sock w s k3 w3" "keeps k k3"
    using has_sock_acts [OF assms(1) k_setsockopt_acts [OF w3]] by blast
  then show ?thesis
    using assms(2) has_sock_close [of w s k3 "set_errno_text err ''setsockopt: '' w3"]
    by (auto simp: anetV6Only_def w3 split: if_splits)
qed

text \<open>What the answers of the system calls make of a server: each call takes the next one.\<close>

definition refuses :: "int option list \<Rightarrow> bool" where
  "refuses os \<longleftrightarrow> os \<noteq> [] \<and> hd os \<noteq> None"

datatype server_end = Listening string | Nothing_open | Socket_left

fun server_outcome :: "int \<Rightarrow> addrinfo list \<Rightarrow> int option list \<Rightarrow> server_end" where
  "server_outcome af [] os = Nothing_open"
| "server_outcome af (p # ps) os =
     (if refuses os then server_outcome af ps (tl os)
      else let os = tl os; v6 = (af = AF_INET6) in
      if v6 \<and> refuses os then Nothing_open
      else let os = (if v6 then tl os else os) in
      if refuses os then Socket_left
      else if refuses (tl os) \<or> refuses (tl (tl os)) then Nothing_open
      else Listening (ai_addr p))"

definition server_ends :: "int \<Rightarrow> kernel \<Rightarrow> int \<Rightarrow> kernel \<Rightarrow> server_end \<Rightarrow> bool" where
  "server_ends backlog w s w' e \<longleftrightarrow> (case e of
     Listening a \<Rightarrow> s \<noteq> ANET_ERR \<and> owns (listening backlog {a}) w s w'
   | Nothing_open \<Rightarrow> s = ANET_ERR \<and> owns (\<lambda>_. False) w s w'
   | Socket_left \<Rightarrow> leaks w s w')"

lemma outcome_refuses: "outcome w = (ok, w') \<Longrightarrow> ok = (\<not> refuses (outcomes w)) \<and> outcomes w' = tl (outcomes w) \<and> socks w' = socks w \<and> next_fd w' = next_fd w"
  by (auto simp: outcome_def refuses_def split: list.splits option.splits)

lemma on_sock_refuses:
  assumes "on_sock s f w = (r, w')" "socks w s = Some k"
  shows "(r = -1 \<longleftrightarrow> refuses (outcomes w)) \<and> outcomes w' = tl (outcomes w)"
proof -
  obtain ok w1 where o: "outcome w = (ok, w1)" by force
  from outcome_refuses [OF o] show ?thesis using assms by (auto simp: on_sock_def o split: if_splits)
qed

lemma set_error_outcomes [simp]: "outcomes (anetSetError err t w) = outcomes w" "outcomes (set_errno_text err t w) = outcomes w"
  by (simp_all add: anetSetError_def set_errno_text_def)

lemma k_socket_refuses: "k_socket f t p w = (s, w') \<Longrightarrow> fresh_fds w \<Longrightarrow> (s = -1 \<longleftrightarrow> refuses (outcomes w)) \<and> outcomes w' = tl (outcomes w)"
  using outcome_refuses [of w] by (auto simp: k_socket_def fresh_fds_def split: prod.splits if_splits)

lemma anetV6Only_refuses:
  assumes "has_sock w0 s k w" "anetV6Only err s w = (r, w')"
  shows "(r = ANET_ERR \<longleftrightarrow> refuses (outcomes w)) \<and> outcomes w' = tl (outcomes w)"
proof -
  obtain r3 w3 where w3: "k_setsockopt s IPV6_V6ONLY [1] w = (r3, w3)" by fastforce
  from on_sock_refuses [OF w3 [unfolded k_setsockopt_def] has_sock_open [OF assms(1)]] show ?thesis
    using assms(2) by (auto simp: anetV6Only_def w3 k_close_def ANET_OK_def ANET_ERR_def split: if_splits)
qed

lemma anetSetReuseAddr_refuses:
  assumes "has_sock w0 s k w" "anetSetReuseAddr err s w = (r, w')"
  shows "(r = ANET_ERR \<longleftrightarrow> refuses (outcomes w)) \<and> outcomes w' = tl (outcomes w)"
proof -
  obtain r3 w3 where w3: "k_setsockopt s SO_REUSEADDR [1] w = (r3, w3)" by fastforce
  from on_sock_refuses [OF w3 [unfolded k_setsockopt_def] has_sock_open [OF assms(1)]] show ?thesis
    using assms(2) by (auto simp: anetSetReuseAddr_def set_option_def w3 ANET_OK_def ANET_ERR_def split: if_splits)
qed

lemma anetListen_refuses:
  assumes "has_sock w0 s k w" "anetListen err s a backlog w = (r, w')"
  shows "r = ANET_ERR \<longleftrightarrow> refuses (outcomes w) \<or> refuses (tl (outcomes w))"
proof -
  obtain r3 w3 where w3: "k_bind s a w = (r3, w3)" by fastforce
  obtain r4 w4 where w4: "k_listen s backlog w3 = (r4, w4)" by fastforce
  note b = on_sock_refuses [OF w3 [unfolded k_bind_def] has_sock_open [OF assms(1)]]
  have "socks w3 s \<noteq> None" using on_sock_cases [OF w3 [unfolded k_bind_def]] has_sock_open [OF assms(1)] by auto
  then obtain k3 where "socks w3 s = Some k3" by blast
  note l = on_sock_refuses [OF w4 [unfolded k_listen_def] this]
  show ?thesis
    using assms(2) b l by (auto simp: anetListen_def w3 w4 ANET_OK_def ANET_ERR_def split: if_splits)
qed

lemma tcp_server_step_ends:
  assumes fresh: "fresh_fds w" and step: "tcp_server_step err af backlog p w = (act, w')"
  shows "case act of
      Continue \<Rightarrow> socks w' = socks w \<and> infos w' = infos w \<and> fresh_fds w' \<and> refuses (outcomes w) \<and> outcomes w' = tl (outcomes w)
    | Return s \<Rightarrow> \<not> refuses (outcomes w) \<and> server_ends backlog w s w' (server_outcome af [p] (outcomes w))"
proof -
  obtain s w1 where w1: "k_socket (ai_family p) (ai_socktype p) (ai_protocol p) w = (s, w1)" by fastforce
  note o1 = k_socket_refuses [OF w1 fresh]
  consider "s = -1" "socks w1 = socks w" "infos w1 = infos w" "fresh_fds w1"
    | k where "has_sock w s k w1" "so_conn k = Unconnected" "so_backlog k = None"
    using has_sock_socket [OF w1 fresh] by blast
  then show ?thesis
  proof cases
    case 1
    then show ?thesis using step o1 by (auto simp: tcp_server_step_def w1)
  next
    case (2 k)
    then have s: "s \<noteq> -1" by (auto simp: has_sock_def)
    then have r1: "\<not> refuses (outcomes w)" "outcomes w1 = tl (outcomes w)" using o1 by simp_all
    obtain r2 w2 where w2: "(if af = AF_INET6 then anetV6Only err s w1 else (ANET_OK, w1)) = (r2, w2)" by fastforce
    have o2: "r2 = ANET_ERR \<longleftrightarrow> af = AF_INET6 \<and> refuses (outcomes w1)"
        "outcomes w2 = (if af = AF_INET6 then tl (outcomes w1) else outcomes w1)"
      using w2 anetV6Only_refuses [OF 2(1)] by (auto simp: ANET_OK_def ANET_ERR_def split: if_splits)
    have c2: "r2 = ANET_OK \<and> (\<exists>k'. has_sock w s k' w2 \<and> keeps k k') \<or> r2 = ANET_ERR \<and> (\<forall>P. owns P w ANET_ERR w2)"
      using w2 anetV6Only_owns [OF 2(1)] 2(1) keeps_refl by (metis prod.inject)
    obtain r3 w3 where w3: "anetSetReuseAddr err s w2 = (r3, w3)" by fastforce
    obtain r4 w4 where w4: "anetListen err s (ai_addr p) backlog w3 = (r4, w4)" by fastforce
    have eq: "(act, w') = (if r2 = ANET_ERR then (Return ANET_ERR, w2)
        else if r3 = ANET_ERR then (Return ANET_ERR, w3) else if r4 = ANET_ERR then (Return ANET_ERR, w4) else (Return s, w4))"
      using step [unfolded tcp_server_step_def w1 Let_def split w2 w3 w4] s by simp
    show ?thesis
    proof (cases "r2 = ANET_ERR")
      case True
      then show ?thesis using c2 eq o2(1) r1 by (auto simp: server_ends_def ANET_OK_def ANET_ERR_def)
    next
      case False
      then obtain k2 where k2: "has_sock w s k2 w2" "keeps k k2" using c2 by auto
      note o3 = anetSetReuseAddr_refuses [OF k2(1) w3]
      obtain k3 where k3: "has_sock w s k3 w3" "keeps k2 k3"
        using has_sock_acts [OF k2(1) anetSetReuseAddr_acts [OF w3]] by blast
      note o4 = anetListen_refuses [OF k3(1) w4]
      have "server_outcome af [p] (outcomes w) =
          (if r3 = ANET_ERR then Socket_left else if r4 = ANET_ERR then Nothing_open else Listening (ai_addr p))"
        using False o2 o3 o4 r1 by (auto simp: Let_def)
      moreover have "leaks w ANET_ERR w3" using 2(2,3) k2(2) k3 by (auto simp: leaks_def keeps_def)
      moreover have "r4 = ANET_OK \<and> owns (listening backlog {ai_addr p}) w s w4 \<or> r4 = ANET_ERR \<and> (\<forall>P. owns P w ANET_ERR w4)"
        by (rule anetListen_owns [OF k3(1) w4])
      ultimately show ?thesis using eq False r1(1) s by (auto simp: server_ends_def ANET_OK_def ANET_ERR_def split: if_splits)
    qed
  qed
qed

lemma tcp_server_loop_ends:
  "fresh_fds w \<Longrightarrow> tcp_server_loop err af backlog ps w = (s, w') \<Longrightarrow> server_ends backlog w s w' (server_outcome af ps (outcomes w))"
proof (induction ps arbitrary: w)
  case Nil
  then show ?case by (auto simp: server_ends_def owns_def fresh_fds_def)
next
  case (Cons p ps)
  obtain act w1 where w1: "tcp_server_step err af backlog p w = (act, w1)" by fastforce
  note own = tcp_server_step_ends [OF Cons.prems(1) w1]
  show ?case
  proof (cases act)
    case Continue
    then have "server_ends backlog w1 s w' (server_outcome af ps (outcomes w1))"
      using Cons.prems(2) own by (intro Cons.IH) (simp_all add: w1)
    then show ?thesis using own Continue
      by (auto simp: server_ends_def leaks_def has_sock_def split: server_end.splits intro: owns_trans)
  next
    case (Return s')
    then show ?thesis using Cons.prems(2) own by (auto simp: w1)
  qed
qed

definition server_hints :: "int \<Rightarrow> hints" where
  "server_hints af = \<lparr>h_flags = AI_PASSIVE, h_family = af, h_socktype = SOCK_STREAM\<rparr>"

text \<open>C29. What a TCP server ends with, by the answers of the system calls. The first address for which there is a socket
  decides. If all calls for it succeed, the result is a new socket that is bound to that address and listens with the
  backlog. If there is no such address, or setting IPV6_V6ONLY, binding or listening fails, the result is an
  error and no socket is left open. If setting SO_REUSEADDR fails, and only then, the result is an error and one socket that
  does not listen stays open, which is a leak. The list of addresses is freed in all cases.\<close>

theorem anetTcpServer_listens_or_leaks:
  assumes "fresh_fds w" "anetTcpServer_af err port bindaddr af backlog w = (s, w')"
  shows "server_ends backlog w s w'
    (case resolve w bindaddr (Some (portstr port)) (server_hints af) of
       Inl _ \<Rightarrow> Nothing_open | Inr l \<Rightarrow> server_outcome af l (outcomes w))"
proof (cases "resolve w bindaddr (Some (portstr port)) (server_hints af)")
  case (Inl e)
  then show ?thesis
    using assms by (auto simp: anetTcpServer_af_def server_hints_def k_getaddrinfo_def server_ends_def owns_def fresh_fds_def)
next
  case (Inr l)
  let ?w = "w\<lparr>infos := infos w + 1\<rparr>"
  obtain s1 w1 where w1: "tcp_server_loop err af backlog l ?w = (s1, w1)" by fastforce
  then have "server_ends backlog ?w s1 w1 (server_outcome af l (outcomes ?w))"
    using assms(1) by (intro tcp_server_loop_ends) (simp_all add: fresh_fds_def)
  moreover have "leaks ?w s1 w1 \<Longrightarrow> leaks w s1 (k_freeaddrinfo w1)"
    by (auto simp: leaks_def has_sock_def k_freeaddrinfo_def fresh_fds_def)
  ultimately show ?thesis
    using assms(2) w1 Inr
    by (auto simp: anetTcpServer_af_def server_hints_def k_getaddrinfo_def server_ends_def split: server_end.splits dest: owns_with_info)
qed

text \<open>The second of two addresses gets a socket and listens; setting SO_REUSEADDR fails.\<close>

theorem anetTcpServer_listens_or_leaks_witness:
  "(\<exists>w'. anetTcpServer_af True 80 None AF_INET 511 (kernel0 [Some 97] [inet_addr ''a'', inet_addr ''b'']) = (4, w') \<and>
     server_ends 511 (kernel0 [Some 97] [inet_addr ''a'', inet_addr ''b'']) 4 w' (Listening ''b'')) \<and>
   (\<exists>w'. anetTcpServer_af True 80 None AF_INET 511 (kernel0 [None, Some 12] [inet_addr ''a'']) = (ANET_ERR, w') \<and>
     server_ends 511 (kernel0 [None, Some 12] [inet_addr ''a'']) ANET_ERR w' Socket_left)"
proof
  let ?w = "kernel0 [Some 97] [inet_addr ''a'', inet_addr ''b'']" and ?v = "kernel0 [None, Some 12] [inet_addr ''a'']"
  obtain s w' where r: "anetTcpServer_af True 80 None AF_INET 511 ?w = (s, w')" by fastforce
  have "resolve ?w = (\<lambda>h p f. Inr [inet_addr ''a'', inet_addr ''b''])" "outcomes ?w = [Some 97]" by (simp_all add: kernel0_def)
  with anetTcpServer_listens_or_leaks [OF fresh_kernel0 r] have "server_ends 511 ?w s w' (Listening ''b'')"
    by (simp add: inet_addr_def refuses_def AF_INET_def AF_INET6_def)
  moreover have "s = 4" using r by (simp add: anet_eval)
  ultimately show "\<exists>w'. anetTcpServer_af True 80 None AF_INET 511 ?w = (4, w') \<and> server_ends 511 ?w 4 w' (Listening ''b'')"
    using r by blast
  obtain t v' where q: "anetTcpServer_af True 80 None AF_INET 511 ?v = (t, v')" by fastforce
  have "resolve ?v = (\<lambda>h p f. Inr [inet_addr ''a''])" "outcomes ?v = [None, Some 12]" by (simp_all add: kernel0_def)
  with anetTcpServer_listens_or_leaks [OF fresh_kernel0 q] have "server_ends 511 ?v t v' Socket_left"
    by (simp add: inet_addr_def refuses_def AF_INET_def AF_INET6_def)
  moreover from this have "t = ANET_ERR" by (simp add: server_ends_def leaks_def)
  ultimately show "\<exists>w'. anetTcpServer_af True 80 None AF_INET 511 ?v = (ANET_ERR, w') \<and> server_ends 511 ?v ANET_ERR w' Socket_left"
    using q by blast
qed

text \<open>When SO_REUSEADDR fails the server returns an error and socket 4 stays open.\<close>

lemma anetTcpServer_leaks:
  "let (s, w) = anetTcpServer True 80 None 511 (kernel0 [None, Some 12] [inet_addr ''a'']) in s = ANET_ERR \<and> socks w 4 \<noteq> None"
  by (simp add: anetTcpServer_def anet_eval)

end
