(* ===== verification/AnetIoProps.thy ===== *)
theory AnetIoProps
  imports AnetProps
begin

text \<open>
  Reading and writing in full, accepting, and the texts of addresses, of src/Clang/aio/ae/anet.c.
\<close>

section \<open>Reading\<close>

text \<open>What can be read before the end of the file or an error, and whether it is an error.\<close>

fun available :: "(int + string) list \<Rightarrow> string" where
  "available (Inr c # q) = (if c = [] then [] else c @ available q)"
| "available _ = []"

fun broken :: "(int + string) list \<Rightarrow> bool" where
  "broken (Inr c # q) = (c \<noteq> [] \<and> broken q)"
| "broken (Inl e # q) = True"
| "broken [] = False"

lemma overwrite_overwrite_next:
  "d + length xs + length ys \<le> length b \<Longrightarrow>
   overwrite (overwrite b d xs) (d + length xs) ys = overwrite b d (xs @ ys)"
  by (simp add: overwrite_def add.commute add.left_commute)

lemma read_loop_eq:
  assumes "socks w fd \<noteq> None" "t \<le> n" "n \<le> length buf" "n < 2 ^ 31"
  shows "let a = available (streams w fd) in \<exists>w'.
    read_loop fd (int n) t buf w =
      Ok ((if n - t \<le> length a then int n else if broken (streams w fd) then -1 else int (t + length a),
           overwrite buf t (take (n - t) a)), w')"
  using assms
proof (induction fd "int n" t buf w rule: read_loop.induct)
  case (1 fd t buf w)
  have s32: "k \<le> n \<Longrightarrow> to_s32 (int k) = int k" for k
    using 1(5) by (simp add: to_s32_id)
  show ?case
  proof (cases "t = n")
    case True
    then show ?thesis using s32 [of n] by (simp add: read_loop.simps Let_def)
  next
    case False
    have u64: "to_u64 (int n - int t) = n - t" using 1(3,5) False by (simp add: to_u64_id)
    note simps = read_loop.simps [of fd "int n" t buf w] k_read_def u64
    consider "streams w fd = [] \<or> (\<exists>q. streams w fd = Inr [] # q)" | e q where "streams w fd = Inl e # q"
      | c q where "streams w fd = Inr c # q" "c \<noteq> []"
      by (metis neq_Nil_conv old.sum.exhaust)
    then show ?thesis
    proof cases
      case 1
      then show ?thesis using False \<open>t \<le> n\<close> \<open>socks w fd \<noteq> None\<close> s32 [of t] by (auto simp: simps Let_def)
    next
      case 2
      then show ?thesis using False \<open>t \<le> n\<close> \<open>socks w fd \<noteq> None\<close> by (auto simp: simps Let_def)
    next
      case (3 c q)
      let ?c = "take (n - t) c"
      let ?w = "w\<lparr>streams := (streams w)(fd := if length c \<le> n - t then q else Inr (drop (n - t) c) # q)\<rparr>"
      let ?b = "overwrite buf t ?c"
      have c: "?c \<noteq> []" using 3(2) False \<open>t \<le> n\<close> by simp
      have k: "k_read fd (to_u64 (int n - int t)) w = (Inr ?c, ?w)"
        using 3 \<open>socks w fd \<noteq> None\<close> by (simp add: k_read_def u64)
      have b: "memcpy buf t ?c (length ?c) = Ok ?b"
        using 1(3,4) by (intro memcpy_whole) simp
      have unfold: "read_loop fd (int n) t buf w = read_loop fd (int n) (t + length ?c) ?b ?w"
        using False c k b by (simp add: read_loop.simps [of fd "int n" t buf w])
      have rest: "let a = available (streams ?w fd) in \<exists>w'.
          read_loop fd (int n) (t + length ?c) ?b ?w =
          Ok ((if n - (t + length ?c) \<le> length a then int n else if broken (streams ?w fd) then -1
                else int (t + length ?c + length a),
               overwrite ?b (t + length ?c) (take (n - (t + length ?c)) a)), w')"
        using 1(1) [OF _ refl k [symmetric] refl c b] False 1(2-5) by auto
      show ?thesis
      proof (cases "length c \<le> n - t")
        case True
        then show ?thesis
          using unfold rest 3 1(3,4)
          by (auto simp: Let_def overwrite_overwrite_next)
      next
        case False
        then show ?thesis
          using unfold rest 3 1(3,4)
          by (auto simp: Let_def)
      qed
    qed
  qed
qed

text \<open>C27. Reading in full is one read of the whole stream: however it is cut into chunks, the buffer gets
  the first \<open>n\<close> bytes of what is available and keeps its rest, and the result is \<open>n\<close>, or the number of bytes
  before the end of the file, or -1 when an error comes before byte \<open>n\<close>. No byte outside the buffer is touched.\<close>

theorem anetRead_whole:
  assumes "socks w fd \<noteq> None" "n \<le> length buf" "n < 2 ^ 31"
  shows "\<exists>w'. anetRead fd buf (int n) w =
    Ok ((if n \<le> length (available (streams w fd)) then int n
         else if broken (streams w fd) then -1 else int (length (available (streams w fd))),
         overwrite buf 0 (take n (available (streams w fd)))), w')"
  using read_loop_eq [OF assms(1) _ assms(2,3), of 0] by (simp only: anetRead_def Let_def diff_zero add_0 le0)

section \<open>Writing\<close>

lemma write_loop_eq:
  assumes "t \<le> n" "n \<le> length buf" "n < 2 ^ 31"
  shows "\<exists>r m w'. write_loop fd (int n) t buf w = Ok (r, w') \<and> t \<le> m \<and> m \<le> n \<and>
    sent w' = (sent w)(fd := sent w fd @ take (m - t) (drop t buf)) \<and> (r = int m \<or> r = -1) \<and>
    (socks w fd \<noteq> None \<longrightarrow> (\<forall>x \<in> set (rooms w fd). \<exists>k>0. x = Inr k) \<longrightarrow> r = int n)"
  using assms
proof (induction fd "int n" t buf w rule: write_loop.induct)
  case (1 fd t buf w)
  have s32: "to_s32 (int t) = int t" using 1(2,4) by (simp add: to_s32_id)
  show ?case
  proof (cases "t = n")
    case True
    then show ?thesis using s32 by (simp add: write_loop.simps fun_upd_idem)
  next
    case False
    have u64: "to_u64 (int n - int t) = n - t" using 1(2,4) False by (simp add: to_u64_id)
    note loop = write_loop.simps [of fd "int n" t buf w] u64
    consider (error) w1 where "k_write fd (drop t buf) (n - t) w = Ok (Inl (-1), w1)" "sent w1 = sent w"
        "socks w fd = None \<or> (\<exists>e q. rooms w fd = Inl e # q)"
      | (wrote) k w1 where "k_write fd (drop t buf) (n - t) w = Ok (Inr k, w1)" "k \<le> n - t"
        "sent w1 = (sent w)(fd := sent w fd @ take k (drop t buf))" "rooms w1 fd = tl (rooms w fd)"
        "socks w1 = socks w" "k = 0 \<Longrightarrow> \<exists>q. rooms w fd = Inr 0 # q"
    proof (cases "socks w fd = None \<or> (\<exists>e q. rooms w fd = Inl e # q)")
      case True
      then have "\<exists>w1. k_write fd (drop t buf) (n - t) w = Ok (Inl (-1), w1) \<and> sent w1 = sent w"
        by (auto simp: k_write_def)
      then show ?thesis using error True by blast
    next
      case no: False
      define k where "k = (case rooms w fd of Inr k # _ \<Rightarrow> min k (n - t) | _ \<Rightarrow> n - t)"
      define w1 where "w1 = w\<lparr>rooms := (rooms w)(fd := tl (rooms w fd)), sent := (sent w)(fd := sent w fd @ take k (drop t buf))\<rparr>"
      have k: "k \<le> n - t" by (auto simp: k_def split: list.splits sum.splits)
      then have "k \<le> length buf - t" using 1(3) by linarith
      then have "k_write fd (drop t buf) (n - t) w = Ok (Inr k, w1)"
        using no by (auto simp: k_write_def k_def w1_def Let_def split: list.splits sum.splits)
      moreover have "k = 0 \<Longrightarrow> \<exists>q. rooms w fd = Inr 0 # q"
        using no False \<open>t \<le> n\<close> by (auto simp: k_def min_def split: list.splits sum.splits if_splits)
      ultimately show ?thesis using k by (intro wrote [of k w1]) (simp_all add: w1_def)
    qed
    then show ?thesis
    proof cases
      case error
      then show ?thesis using False \<open>t \<le> n\<close> by (auto simp: loop fun_upd_idem)
    next
      case (wrote k w1)
      show ?thesis
      proof (cases "k = 0")
        case True
        then show ?thesis using wrote False \<open>t \<le> n\<close> s32 by (fastforce simp: loop fun_upd_idem)
      next
        case k: False
        have eq: "write_loop fd (int n) t buf w = write_loop fd (int n) (t + k) buf w1"
          using False k wrote(1) by (simp add: loop)
        have w: "k_write fd (drop t buf) (to_u64 (int n - int t)) w = Ok (Inr k, w1)"
          using wrote(1) u64 by simp
        have rec: "\<exists>r m w'. write_loop fd (int n) (t + k) buf w1 = Ok (r, w') \<and> t + k \<le> m \<and> m \<le> n \<and>
            sent w' = (sent w1)(fd := sent w1 fd @ take (m - (t + k)) (drop (t + k) buf)) \<and> (r = int m \<or> r = -1) \<and>
            (socks w1 fd \<noteq> None \<longrightarrow> (\<forall>x \<in> set (rooms w1 fd). \<exists>k>0. x = Inr k) \<longrightarrow> r = int n)"
          using 1(1) [OF _ w refl refl k] False wrote(2) 1(2-4) by auto
        then obtain r m w' where m: "write_loop fd (int n) (t + k) buf w1 = Ok (r, w')" "t + k \<le> m" "m \<le> n"
            "sent w' = (sent w1)(fd := sent w1 fd @ take (m - (t + k)) (drop (t + k) buf))" "r = int m \<or> r = -1"
            "socks w1 fd \<noteq> None \<longrightarrow> (\<forall>x \<in> set (rooms w1 fd). \<exists>k>0. x = Inr k) \<longrightarrow> r = int n"
          by blast
        have "take k (drop t buf) @ take (m - (t + k)) (drop (t + k) buf) = take (m - t) (drop t buf)"
          using m(2) take_add [of k "m - (t + k)" "drop t buf"] by (simp add: add.commute)
        then have "sent w' = (sent w)(fd := sent w fd @ take (m - t) (drop t buf))"
          using m(4) wrote(3) by simp
        moreover have "set (rooms w1 fd) \<subseteq> set (rooms w fd)"
          using wrote(4) by (auto dest: list.set_sel(2) [rotated]) (metis list.sel(2) list.set_sel(2))
        ultimately show ?thesis
          using eq m wrote(5) by (intro exI [of _ r] exI [of _ m] exI [of _ w']) auto
      qed
    qed
  qed
qed

text \<open>C30. Writing in full sends a prefix of the buffer, once and in order, whatever sizes the kernel takes;
  a result that is not -1 is the length of that prefix, and on an open descriptor that takes something each
  time it is the whole count.\<close>

theorem anetWrite_prefix:
  assumes "n \<le> length buf" "n < 2 ^ 31"
  shows "\<exists>r m w'. anetWrite fd buf (int n) w = Ok (r, w') \<and> m \<le> n \<and>
    sent w' = (sent w)(fd := sent w fd @ take m buf) \<and> (r = int m \<or> r = -1) \<and>
    (socks w fd \<noteq> None \<and> (\<forall>x \<in> set (rooms w fd). \<exists>k>0. x = Inr k) \<longrightarrow> r = int n)"
  using write_loop_eq [of 0 n buf fd w, OF _ assms] unfolding anetWrite_def by auto

section \<open>Accepting\<close>

lemma accept_retries:
  "socks w s \<noteq> None \<Longrightarrow> incoming w = replicate k (Inl EINTR) @ q \<Longrightarrow>
   \<exists>w'. anetGenericAccept err s w = anetGenericAccept err s w' \<and> incoming w' = q \<and>
     socks w' = socks w \<and> next_fd w' = next_fd w \<and> ntop w' = ntop w"
proof (induction k arbitrary: w)
  case (Suc k)
  let ?w = "w\<lparr>incoming := replicate k (Inl EINTR) @ q, errno := EINTR\<rparr>"
  have "anetGenericAccept err s w = anetGenericAccept err s ?w"
    using Suc.prems by (subst anetGenericAccept.simps) (auto simp: k_accept_def)
  with Suc.IH [of ?w] Suc.prems(1) show ?case by auto
qed auto

text \<open>However often \<open>accept\<close> is interrupted, the next connection is accepted, exactly once: its
  descriptor is new and connected, its address is written as text and its port in host order.\<close>

theorem anetTcpAccept_interrupted:
  assumes "socks w s \<noteq> None" "incoming w = replicate k (Inl EINTR) @ Inr sa # q" "sa_family sa = AF_INET"
    and "length (ntop w AF_INET (sin_addr sa)) < ip_len" "ip_len \<le> length b"
  shows "\<exists>w' b'. anetTcpAccept err s (Some b) ip_len (Some v) w =
      Ok ((next_fd w, Some b', Some (ntohs (sin_port sa))), w') \<and>
    b' = overwrite b 0 (ntop w AF_INET (sin_addr sa) @ [NUL]) \<and> incoming w' = q \<and>
    (\<exists>c. socks w' = (socks w)(next_fd w \<mapsto> c) \<and> so_conn c = Connected (sin_addr sa))"
proof -
  obtain w1 where w1: "anetGenericAccept err s w = anetGenericAccept err s w1" "incoming w1 = Inr sa # q"
      "socks w1 = socks w" "next_fd w1 = next_fd w" "ntop w1 = ntop w"
    using accept_retries [OF assms(1,2)] by blast
  show ?thesis
    using w1 assms(1,3-5)
    by (auto simp: anetTcpAccept_def w1(1) anetGenericAccept.simps [of err s w1] k_accept_def put_addr_def
        inet_ntop_def put_port_def Let_def memcpy_def)
qed

section \<open>The text of an address\<close>

definition addr_text :: "string \<Rightarrow> int \<Rightarrow> string" where
  "addr_text ip port =
     (if CHR '':'' \<in> set ip then ''['' @ ip @ '']:'' @ show_int port else ip @ '':'' @ show_int port)"

lemma digit_chars_dec: "c \<in> set (dec n) \<Longrightarrow> \<exists>d<10. c = digit_char d"
proof (induction n rule: dec.induct)
  case (1 n)
  have "c \<in> set (if n < 10 then [digit_char n] else dec (n div 10) @ [digit_char (n mod 10)])"
    using 1(2) by (subst (asm) dec.simps)
  then consider "n < 10" "c = digit_char n" | "\<not> n < 10" "c \<in> set (dec (n div 10))" | "c = digit_char (n mod 10)"
    by (auto split: if_splits)
  then show ?case using 1(1) by cases (auto intro: exI [of _ "n mod 10"])
qed

lemma dec_eq_iff [simp]: "dec m = dec n \<longleftrightarrow> m = n"
  by (metis read_dec_dec)

lemma digit_not_special: "d < 10 \<Longrightarrow> digit_char d \<noteq> CHR '':'' \<and> digit_char d \<noteq> CHR ''-'' \<and> digit_char d \<noteq> NUL"
  by (auto simp flip: byte_val_inj) (simp_all add: byte_val_def)

lemma show_int_chars: "CHR '':'' \<notin> set (show_int i)" "NUL \<notin> set (show_int i)"
  by (auto simp: show_int_def dest!: digit_chars_dec) (metis digit_not_special)+

lemma show_int_inj: "show_int i = show_int j \<Longrightarrow> i = j"
proof -
  have d: "dec m \<noteq> CHR ''-'' # xs" for m xs
    using digit_chars_dec [of "CHR ''-''" m] digit_not_special by fastforce
  assume "show_int i = show_int j"
  then show "i = j"
    using d d [THEN not_sym] by (auto simp: show_int_def split: if_splits)
qed

lemma last_colon:
  assumes "xs @ CHR '':'' # s = ys @ CHR '':'' # t" "CHR '':'' \<notin> set s" "CHR '':'' \<notin> set t"
  shows "xs = ys \<and> s = t"
  using assms by (auto simp: append_eq_append_conv2 Cons_eq_append_conv append_eq_Cons_conv)

lemma addr_text_inj:
  assumes "addr_text ip port = addr_text ip' port'"
  shows "ip = ip' \<and> port = port'"
proof -
  define wrap where "wrap x = (if CHR '':'' \<in> set x then ''['' @ x @ '']'' else x)" for x :: string
  have e: "addr_text x p = wrap x @ CHR '':'' # show_int p" for x p
    by (simp add: addr_text_def wrap_def)
  have "wrap ip = wrap ip'" "show_int port = show_int port'"
    using last_colon [of "wrap ip" "show_int port" "wrap ip'" "show_int port'"] assms
    by (auto simp: e show_int_chars)
  moreover from this(1) have "ip = ip'" by (auto simp: wrap_def split: if_splits)
  ultimately show ?thesis using show_int_inj by auto
qed

lemma addr_text_NUL: "NUL \<notin> set ip \<Longrightarrow> NUL \<notin> set (addr_text ip port)"
  by (auto simp: addr_text_def show_int_chars)

lemma anetFormatAddr_eq:
  assumes "NUL \<in> set m" "0 < n" "n \<le> length b"
  shows "anetFormatAddr b n m port =
    Ok (int (length (addr_text (cstring m) port)), overwrite b 0 (take (n - 1) (addr_text (cstring m) port) @ [NUL]))"
  using assms by (simp add: anetFormatAddr_def strchr_def addr_text_def vsnprintf_eq Let_def)

text \<open>C28. The text of an address and a port tells them apart, whatever characters the address has, as long as the
  result says that it was not cut: two calls that write the same text had the same address and port.\<close>

theorem anetFormatAddr_injective:
  assumes "NUL \<in> set m" "NUL \<in> set m'" "n \<le> length b" "n' \<le> length b'"
    and "anetFormatAddr b n m port = Ok (r, t)" "r < int n"
    and "anetFormatAddr b' n' m' port' = Ok (r', t')" "r' < int n'"
    and "cstring t = cstring t'"
  shows "cstring m = cstring m' \<and> port = port'"
proof -
  have txt_eq: "cstring t = addr_text (cstring m) port"
    if "NUL \<in> set m" "n \<le> length b" "anetFormatAddr b n m port = Ok (r, t)" "r < int n" for b t m :: string and n r port
  proof -
    have "0 < n"
      using that(1,3,4) by (cases n) (auto simp: anetFormatAddr_def vsnprintf_def Let_def strchr_def)
    then show ?thesis
      using that addr_text_NUL [of "cstring m" port] by (auto simp: anetFormatAddr_eq overwrite_def)
  qed
  show ?thesis
    using txt_eq [OF assms(1,3,5,6)] txt_eq [OF assms(2,4,7,8)] assms(9)
    by (intro addr_text_inj) simp
qed

section \<open>Paths\<close>

lemma strncpy_path:
  assumes "NUL \<in> set path" "length (cstring path) < n" "n \<le> length b"
  shows "\<exists>a. strncpy b path n = Ok a \<and> cstring a = cstring path"
proof -
  have "take n (cstring path) = cstring path" using assms(2) by simp
  moreover have "n \<le> length path \<or> NUL \<in> set (take n path)" using assms(1) by (cases "n \<le> length path") simp_all
  moreover have "cstring path @ replicate (n - length (cstring path)) NUL
      = cstring path @ NUL # replicate (n - length (cstring path) - 1) NUL"
    using assms(2) by (cases "n - length (cstring path)") simp_all
  ultimately show ?thesis
    using assms(2,3)
    by (auto simp: strncpy_def memcpy_def overwrite_def Let_def)
qed

text \<open>A path shorter than the address allows is the path that is connected to; the socket is returned
  only when it is connected, or connecting without blocking.\<close>

theorem anetUnixGenericConnect_path:
  assumes "fresh_fds w" "NUL \<in> set path" "length (cstring path) < SUN_PATH_LEN - 1"
  shows "\<exists>s w'. anetUnixGenericConnect err path flags w = Ok (s, w') \<and>
    (s = ANET_ERR \<or> (\<exists>k a. socks w' = (socks w)(s \<mapsto> k) \<and> cstring a = cstring path \<and>
       (so_conn k = Connected a \<or> so_conn k = Connecting a \<and> nonblocking k)))"
proof -
  obtain s w1 where w1: "anetCreateSocket err AF_UNIX w = (s, w1)" by fastforce
  obtain a where a: "strncpy (fresh w1 SUN_PATH_LEN) path (SUN_PATH_LEN - 1) = Ok a" "cstring a = cstring path"
    using strncpy_path [OF assms(2,3), of "fresh w1 SUN_PATH_LEN"] by auto
  show ?thesis
  proof (cases "s = ANET_ERR")
    case True
    then show ?thesis by (simp add: anetUnixGenericConnect_def w1)
  next
    case False
    have "\<exists>k. has_sock w s k w1 \<and> so_conn k = Unconnected"
    proof -
      obtain s2 w2 where w2: "k_socket AF_UNIX SOCK_STREAM 0 w = (s2, w2)" by fastforce
      obtain r3 w3 where w3: "anetSetReuseAddr err s2 w2 = (r3, w3)" by fastforce
      have "s2 \<noteq> -1" "s2 = s" "w1 = w3"
        using w1 False by (auto simp: anetCreateSocket_def w2 w3 split: if_splits)
      then show ?thesis
        using has_sock_socket [OF w2 assms(1)] has_sock_acts [OF _ anetSetReuseAddr_acts [OF w3]]
        by (metis keeps_def)
    qed
    then obtain k where k: "has_sock w s k w1" by blast
    obtain r2 w2 where w2: "(if has_flag flags ANET_CONNECT_NONBLOCK then anetNonBlock err s w1 else (ANET_OK, w1)) = (r2, w2)"
      by fastforce
    have a2: "acts_on s w1 w2" "has_flag flags ANET_CONNECT_NONBLOCK \<and> r2 = ANET_OK \<Longrightarrow> \<exists>k. socks w2 s = Some k \<and> nonblocking k"
      using w2 anetNonBlock_acts [of err s w1 r2 w2] by (auto simp: acts_on_refl split: if_splits)
    obtain k2 where k2: "has_sock w s k2 w2" using has_sock_acts [OF k a2(1)] by blast
    obtain r3 w3 where w3: "k_connect s a w2 = (r3, w3)" by fastforce
    note c = k_connect_cases [OF w3 has_sock_open [OF k2]]
    define nb where "nb = has_flag flags ANET_CONNECT_NONBLOCK"
    have eq: "anetUnixGenericConnect err path flags w = Ok (if r2 \<noteq> ANET_OK then (ANET_ERR, w2)
        else if r3 = -1 then
          if errno w3 = EINPROGRESS \<and> nb then (s, w3) else (ANET_ERR, k_close s (set_errno_text err ''connect: '' w3))
        else (s, w3))"
      unfolding anetUnixGenericConnect_def w1 Let_def split a(1) res_bind.simps w2 w3
      using False by (simp add: nb_def)
    consider (failed) w4 where "anetUnixGenericConnect err path flags w = Ok (ANET_ERR, w4)"
      | (progress) "anetUnixGenericConnect err path flags w = Ok (s, w3)" "r3 = -1" "errno w3 = EINPROGRESS" "nb" "r2 = ANET_OK"
      | (connected) "anetUnixGenericConnect err path flags w = Ok (s, w3)" "r3 \<noteq> -1"
      using eq by (auto split: if_splits)
    then show ?thesis
    proof cases
      case failed
      then show ?thesis by blast
    next
      case progress
      have "nonblocking (k2\<lparr>so_conn := Connecting a\<rparr>)"
        using a2(2) k2 progress by (auto simp: nb_def has_sock_def nonblocking_def)
      moreover have "socks w3 = (socks w)(s \<mapsto> k2\<lparr>so_conn := Connecting a\<rparr>)"
        using c k2 progress by (auto simp: has_sock_def)
      ultimately show ?thesis using progress(1) a(2)
        by (intro exI [of _ s] exI [of _ w3]) (auto intro!: exI [of _ "k2\<lparr>so_conn := Connecting a\<rparr>"] exI [of _ a])
    next
      case connected
      then have "socks w3 = (socks w)(s \<mapsto> k2\<lparr>so_conn := Connected a\<rparr>)" using c k2 by (auto simp: has_sock_def)
      then show ?thesis using connected(1) a(2)
        by (intro exI [of _ s] exI [of _ w3]) (auto intro!: exI [of _ "k2\<lparr>so_conn := Connected a\<rparr>"] exI [of _ a])
    qed
  qed
qed

text \<open>When the socket cannot be made non-blocking it stays open; and a longer path takes in the byte behind it.\<close>

lemma anetUnixNonBlockConnect_leaks:
  "anetUnixNonBlockConnect True (''p'' @ [NUL]) (kernel0 [None, None, Some 9] []) = Ok (r, w) \<Longrightarrow>
   r = ANET_ERR \<and> socks w 4 \<noteq> None"
  by (auto simp: anetUnixNonBlockConnect_def anetUnixGenericConnect_def anetCreateSocket_def anet_eval strncpy_def
      memcpy_def SUN_PATH_LEN_def cstring_eval split: if_splits)

lemma strncpy_unterminated:
  assumes "NUL \<in> set path" "n \<le> length (cstring path)" "junk w n \<noteq> NUL"
  shows "\<exists>a. strncpy (fresh w (Suc n)) path n = Ok a \<and> NUL \<notin> set a"
proof -
  define t where "t = take n (cstring path)"
  have t: "length t = n" "NUL \<notin> set t"
    using assms(2) NUL_notin_cstring [of path] by (auto simp: t_def dest: in_set_takeD)
  have "n \<le> length path" using assms(2) length_cstring_le [of path] by linarith
  then have "strncpy (fresh w (Suc n)) path n = Ok (t @ [junk w n])"
    using t(1) by (simp add: strncpy_def Let_def t_def [symmetric] memcpy_def overwrite_def fresh_def)
  with t(2) assms(3) show ?thesis by simp
qed

lemma sun_path_unterminated:
  "NUL \<in> set path \<Longrightarrow> SUN_PATH_LEN - 1 \<le> length (cstring path) \<Longrightarrow> junk w (SUN_PATH_LEN - 1) \<noteq> NUL \<Longrightarrow>
   \<exists>a. strncpy (fresh w SUN_PATH_LEN) path (SUN_PATH_LEN - 1) = Ok a \<and> NUL \<notin> set a"
  using strncpy_unterminated [of path "SUN_PATH_LEN - 1" w] by (simp add: SUN_PATH_LEN_def)

section \<open>Witnesses\<close>

theorem anetRead_whole_witness:
  "\<exists>w'. anetRead 3 ''.....'' 3 (kernel0 [] []) = Ok ((3, ''abc..''), w')"
  using anetRead_whole [of "kernel0 [] []" 3 3 "''.....''"] by (simp add: kernel0_def overwrite_def)

theorem anetWrite_prefix_witness:
  "\<exists>w'. anetWrite 3 ''abcd'' 4 (kernel0 [] []) = Ok (4, w') \<and> sent w' 3 = ''abcd''"
  using anetWrite_prefix [of 4 "''abcd''" 3 "kernel0 [] []"] by (auto simp: kernel0_def)

theorem anetTcpAccept_interrupted_witness:
  "\<exists>w' b'. anetTcpAccept True 3 (Some (zeroed 46)) 46 (Some 0)
      ((kernel0 [] [])\<lparr>incoming := [Inl EINTR, Inl EINTR, Inr \<lparr>sa_family = AF_INET, sin_addr = ''a'', sin6_addr = [], sin_port = 0x5000\<rparr>]\<rparr>)
    = Ok ((4, Some b', Some 80), w') \<and> incoming w' = []"
proof -
  let ?sa = "\<lparr>sa_family = AF_INET, sin_addr = ''a'', sin6_addr = [], sin_port = 0x5000\<rparr>"
  let ?w = "(kernel0 [] [])\<lparr>incoming := [Inl EINTR, Inl EINTR, Inr ?sa]\<rparr>"
  have p: "ntohs 0x5000 = 80" by (simp add: ntohs_def)
  have n: "next_fd ?w = 4" by (simp add: kernel0_def)
  show ?thesis
    using anetTcpAccept_interrupted [of ?w 3 2 ?sa "[]" 46 "zeroed 46" True 0] p n
    by (auto simp: kernel0_def numeral_2_eq_2)
qed

theorem anetFormatAddr_injective_witness:
  "cstring (''::1'' @ [NUL]) = cstring (''::1'' @ [NUL]) \<and> (6379 :: int) = 6379 \<and>
   anetFormatAddr (zeroed 20) 20 (''::1'' @ [NUL]) 6379 = Ok (10, ''[::1]:6379'' @ zeroed 10)"
proof -
  have d: "show_int 6379 = ''6379'' "
    by (simp add: show_int_def dec.simps digit_char_def char_of_eq_iff)
  have e: "anetFormatAddr (zeroed 20) 20 (''::1'' @ [NUL]) 6379 = Ok (10, ''[::1]:6379'' @ zeroed 10)"
    by (simp add: anetFormatAddr_eq addr_text_def d overwrite_def cstring_eval zeroed_def) (simp add: eval_nat_numeral)
  show ?thesis
    using anetFormatAddr_injective [of "''::1'' @ [NUL]" "''::1'' @ [NUL]" 20 "zeroed 20" 20 "zeroed 20" 6379 10 _ 6379 10, OF _ _ _ _ e _ e] e
    by simp
qed

theorem anetUnixGenericConnect_path_witness:
  "\<exists>s w'. anetUnixGenericConnect True (''/tmp/s'' @ [NUL]) ANET_CONNECT_NONE (kernel0 [] []) = Ok (s, w') \<and>
    (s = ANET_ERR \<or> (\<exists>k a. socks w' = (socks (kernel0 [] []))(s \<mapsto> k) \<and> cstring a = ''/tmp/s'' \<and>
       (so_conn k = Connected a \<or> so_conn k = Connecting a \<and> nonblocking k)))"
  using anetUnixGenericConnect_path [of "kernel0 [] []" "''/tmp/s'' @ [NUL]" True ANET_CONNECT_NONE]
  by (simp add: cstring_eval SUN_PATH_LEN_def)

end
