(* ===== verification/Daemon.thy ===== *)
theory Daemon
  imports DynString AnetIo
begin

text \<open>
  The daemon support of src/Clang/daemon-unix.c, taken from Open vSwitch. One process is followed: what
  \<open>fork\<close> gives it, 0 for the child, comes from a script, as do pipes, the ends of children with the time until
  each, how long a sleep lasts, and how long a read of the pipe takes. The clock goes on in waits, reads and sleeps,
  and never back. Descriptors are those of the kernel of Anet, the text of a status is built with the dynamic
  strings of DynString. The process can return, exit, wait for ever, or be stuck. Functions the file
  only declares or calls from elsewhere (\<open>signal_name\<close>, \<open>make_pidfile\<close>, \<open>forbid_forking\<close>,
  \<open>subprogram_name_set\<close>) are parameters or entries of the log.
\<close>

section \<open>Processes\<close>

datatype devent = Forked int int | Closed int | Dup2 int int | Said string | Slept int | Setsid | Named string
  | No_core | Forbid_forking string | Make_pidfile string

record dworld =
  mem :: world
  kern :: kernel
  pipes :: "(int \<times> int) option list"
  forks :: "(int + int) list"
  waits :: "(nat \<times> (int + int \<times> int)) list"
  zombies :: "(int \<times> int) list"
  lags :: "nat list"
  opens :: "(int + int) list"
  now :: int
  naps :: "int list"
  signal_name :: "int \<Rightarrow> string"
  stale :: int
  dlog :: "devent list"
  save_fds :: "bool list"
  detach :: bool
  daemonize_fd :: int
  monitor :: bool
  pidfile :: "string option"
  must_not_fork :: "string option"
  null_fd :: int

datatype 'a proc = Ret 'a dworld | Exited int dworld | Waiting dworld | Stuck cerr

fun pbind :: "'a proc \<Rightarrow> ('a \<Rightarrow> dworld \<Rightarrow> 'b proc) \<Rightarrow> 'b proc" where
  "pbind (Ret x w) f = f x w"
| "pbind (Exited n w) f = Exited n w"
| "pbind (Waiting w) f = Waiting w"
| "pbind (Stuck e) f = Stuck e"

definition logged :: "devent \<Rightarrow> dworld \<Rightarrow> dworld" where
  "logged e w = w\<lparr>dlog := dlog w @ [e]\<rparr>"

definition say :: "string \<Rightarrow> dworld \<Rightarrow> dworld" where
  "say text w = logged (Said text) w"

definition derrno :: "dworld \<Rightarrow> int" where
  "derrno w = errno (kern w)"

definition set_errno :: "int \<Rightarrow> dworld \<Rightarrow> dworld" where
  "set_errno e w = w\<lparr>kern := kern w\<lparr>errno := e\<rparr>\<rparr>"

definition d_close :: "int \<Rightarrow> dworld \<Rightarrow> dworld" where
  "d_close fd w = logged (Closed fd) (w\<lparr>kern := k_close fd (kern w)\<rparr>)"

text \<open>A pipe is two new descriptors, the read end first; a pipe that fails leaves the array as it is.\<close>

definition d_open :: "int \<Rightarrow> dworld \<Rightarrow> dworld" where
  "d_open fd w = w\<lparr>kern := kern w\<lparr>socks := (socks (kern w))(fd \<mapsto> \<lparr>so_family = 0, so_type = 0, so_protocol = 0,
     so_flags = 0, so_opts = [], so_bound = None, so_conn = Unconnected, so_backlog = None\<rparr>)\<rparr>\<rparr>"

definition d_pipe :: "dworld \<Rightarrow> int \<times> (int \<times> int) \<times> dworld" where
  "d_pipe w =
     (case pipes w of
        [] \<Rightarrow> (-1, (stale w, stale w), set_errno 24 w)
      | None # ps \<Rightarrow> (-1, (stale w, stale w), set_errno 24 (w\<lparr>pipes := ps\<rparr>))
      | Some (r, t) # ps \<Rightarrow> (0, (r, t), d_open t (d_open r (w\<lparr>pipes := ps\<rparr>))))"

definition d_fork :: "dworld \<Rightarrow> int \<times> dworld" where
  "d_fork w =
     (case forks w of
        [] \<Rightarrow> (-1, set_errno EAGAIN w)
      | Inl e # fs \<Rightarrow> (-1, set_errno e (w\<lparr>forks := fs\<rparr>))
      | Inr pid # fs \<Rightarrow> (pid, logged (Forked (now w) pid) (w\<lparr>forks := fs\<rparr>)))"

text \<open>
  The script of \<open>waitpid\<close>: after so many seconds a signal or an error comes, or a child ends with a status. A child
  that is not waited for, as the process asked for is another, stays a zombie until it is asked for. The
  process asked for is any when the number is not positive.
\<close>

definition waits_for :: "int \<Rightarrow> int \<Rightarrow> bool" where
  "waits_for pid p \<longleftrightarrow> pid \<le> 0 \<or> p = pid"

definition passed :: "nat \<Rightarrow> dworld \<Rightarrow> dworld" where
  "passed d w = w\<lparr>now := now w + int d\<rparr>"

fun wait_loop :: "int \<Rightarrow> (nat \<times> (int + int \<times> int)) list \<Rightarrow> dworld \<Rightarrow> (int \<times> int) proc" where
  "wait_loop pid [] w = Waiting (w\<lparr>waits := []\<rparr>)"
| "wait_loop pid ((d, Inl e) # q) w =
     (let w = set_errno e (passed d w) in if e = EINTR then wait_loop pid q w else Ret (-1, stale w) (w\<lparr>waits := q\<rparr>))"
| "wait_loop pid ((d, Inr (p, status)) # q) w =
     (let w = passed d w in
      if waits_for pid p then Ret (p, status) (w\<lparr>waits := q\<rparr>)
      else wait_loop pid q (w\<lparr>zombies := zombies w @ [(p, status)]\<rparr>))"

definition wait_retry :: "int \<Rightarrow> dworld \<Rightarrow> (int \<times> int) proc" where
  "wait_retry pid w =
     (case find (\<lambda>(p, _). waits_for pid p) (zombies w) of
        Some z \<Rightarrow> Ret z (w\<lparr>zombies := remove1 z (zombies w)\<rparr>)
      | None \<Rightarrow> wait_loop pid (waits w) w)"

text \<open>The macros of a status.\<close>

definition WTERMSIG :: "int \<Rightarrow> int" where "WTERMSIG s = s AND 0x7f"
definition WIFEXITED :: "int \<Rightarrow> bool" where "WIFEXITED s \<longleftrightarrow> WTERMSIG s = 0"
definition WEXITSTATUS :: "int \<Rightarrow> int" where "WEXITSTATUS s = drop_bit 8 (s AND 0xff00)"
definition WIFSIGNALED :: "int \<Rightarrow> bool" where "WIFSIGNALED s \<longleftrightarrow> 0 < WTERMSIG s \<and> WTERMSIG s < 0x7f"
definition WIFSTOPPED :: "int \<Rightarrow> bool" where "WIFSTOPPED s \<longleftrightarrow> s AND 0xff = 0x7f"
definition WSTOPSIG :: "int \<Rightarrow> int" where "WSTOPSIG s = WEXITSTATUS s"
definition WCOREDUMP :: "int \<Rightarrow> bool" where "WCOREDUMP s \<longleftrightarrow> s AND 0x80 \<noteq> 0"

section \<open>Small helpers\<close>

definition xmemdup0 :: "'a world_scheme \<Rightarrow> string \<Rightarrow> nat \<Rightarrow> string cres" where
  "xmemdup0 w src len =
     res_bind (memcpy (fresh w (len + 1)) 0 src len) (\<lambda>p. store p len NUL)"

definition xstrdup :: "'a world_scheme \<Rightarrow> string \<Rightarrow> string cres" where
  "xstrdup w s = res_bind (strlen s) (\<lambda>n. xmemdup0 w s n)"

definition xpipe :: "dworld \<Rightarrow> (int \<times> int) \<times> dworld" where
  "xpipe w =
     (let (r, fds, w) = d_pipe w in
      if r \<noteq> 0 then (fds, say (''failed to create pipe ('' @ show_int (derrno w) @ '')'') w) else (fds, w))"

definition xfork_at :: "string \<Rightarrow> dworld \<Rightarrow> int \<times> dworld" where
  "xfork_at place w =
     (let w = (case must_not_fork w of None \<Rightarrow> w
         | Some reason \<Rightarrow> say (place @ '': attempted to fork but forking not allowed ('' @ reason @ '')'') w);
          (pid, w) = d_fork w in
      if pid < 0 then (pid, say (place @ '': fork failed ('' @ show_int (derrno w) @ '')'') w) else (pid, w))"

text \<open>The functions it calls after the fork have no statements left in this file.\<close>

definition fork_and_clean_up :: "dworld \<Rightarrow> int \<times> dworld" where
  "fork_and_clean_up w = xfork_at ''daemon-unix.c:173'' w"

text \<open>A sleep takes its time, or less when it is interrupted, but a second at least.\<close>

definition xsleep :: "int \<Rightarrow> dworld \<Rightarrow> dworld" where
  "xsleep seconds w =
     (let n = int (to_u32 seconds) in
      logged (Slept n) (w\<lparr>now := now w + max 1 (case naps w of [] \<Rightarrow> n | k # _ \<Rightarrow> min k n), naps := tl (naps w)\<rparr>))"

section \<open>Reading and writing in full\<close>

definition EOF :: int where "EOF = -1"
definition EPROTO :: int where "EPROTO = 71"

text \<open>\<open>n\<close> counts the bytes so far, the pointer is that far into the buffer.\<close>

function read_fully_loop :: "int \<Rightarrow> string \<Rightarrow> nat \<Rightarrow> nat \<Rightarrow> kernel \<Rightarrow> ((int \<times> string \<times> nat) \<times> kernel) cres" where
  "read_fully_loop fd p sz n w =
     (if 0 < sz then
        let (retval, w') = k_read fd sz w in
        case retval of
          Inr c \<Rightarrow>
            if c \<noteq> [] then res_bind (memcpy p n c (length c)) (\<lambda>p. read_fully_loop fd p (sz - length c) (n + length c) w')
            else Ok ((EOF, p, n), w')
        | Inl _ \<Rightarrow> if errno w' \<noteq> EINTR then Ok ((errno w', p, n), w') else read_fully_loop fd p sz n w'
      else Ok ((0, p, n), w))"
  by pat_completeness auto

lemma k_read_eintr: "k_read fd n w = (Inl e, w') \<Longrightarrow> errno w' = EINTR \<Longrightarrow> length (streams w' fd) < length (streams w fd)"
  by (auto simp: k_read_def EBADF_def EINTR_def split: if_splits list.splits sum.splits)

termination read_fully_loop
  by (relation "measures [\<lambda>(fd, p, sz, n, w). sz, \<lambda>(fd, p, sz, n, w). length (streams w fd)]")
    (auto dest: k_read_eintr [OF sym] simp: neq_Nil_conv)

declare read_fully_loop.simps [simp del]

definition read_fully :: "int \<Rightarrow> string \<Rightarrow> nat \<Rightarrow> kernel \<Rightarrow> ((int \<times> string \<times> nat) \<times> kernel) cres" where
  "read_fully fd p sz w = read_fully_loop fd p sz 0 w"

function write_fully_loop :: "int \<Rightarrow> string \<Rightarrow> nat \<Rightarrow> nat \<Rightarrow> dworld \<Rightarrow> (int \<times> nat) proc" where
  "write_fully_loop fd p sz n w =
     (if 0 < sz then
        case k_write fd (drop n p) sz (kern w) of
          Err e \<Rightarrow> Stuck e
        | Ok (retval, k) \<Rightarrow>
            case retval of
              Inr c \<Rightarrow>
                if 0 < c then write_fully_loop fd p (sz - c) (n + c) (w\<lparr>kern := k\<rparr>)
                else Ret (EPROTO, n) (say ''write returned 0'' (w\<lparr>kern := k\<rparr>))
            | Inl _ \<Rightarrow> if errno k \<noteq> EINTR then Ret (errno k, n) (w\<lparr>kern := k\<rparr>) else write_fully_loop fd p sz n (w\<lparr>kern := k\<rparr>)
      else Ret (0, n) w)"
  by pat_completeness auto

lemma k_write_eintr:
  "k_write fd b n w = Ok (Inl e, w') \<Longrightarrow> errno w' = EINTR \<Longrightarrow> length (rooms w' fd) < length (rooms w fd)"
  by (auto simp: k_write_def EBADF_def EINTR_def Let_def split: if_splits list.splits sum.splits)

termination write_fully_loop
  by (relation "measures [\<lambda>(fd, p, sz, n, w). sz, \<lambda>(fd, p, sz, n, w). length (rooms (kern w) fd)]")
    (auto dest: k_write_eintr)

declare write_fully_loop.simps [simp del]

definition write_fully :: "int \<Rightarrow> string \<Rightarrow> nat \<Rightarrow> dworld \<Rightarrow> (int \<times> nat) proc" where
  "write_fully fd p sz w = write_fully_loop fd p sz 0 w"

section \<open>Starting a process and waiting for it\<close>

definition process_status_msg :: "(int \<Rightarrow> string) \<Rightarrow> int \<Rightarrow> world \<Rightarrow> (string \<times> world) cres" where
  "process_status_msg name status w =
     res_bind (if WIFEXITED status then ds_put_format ds_init (''exit status '' @ show_int (WEXITSTATUS status)) w
        else if WIFSIGNALED status then ds_put_format ds_init (''killed ('' @ name (WTERMSIG status) @ '')'') w
        else if WIFSTOPPED status then ds_put_format ds_init (''stopped ('' @ name (WSTOPSIG status) @ '')'') w
        else ds_put_format ds_init (''terminated abnormally ('' @ show_hex (to_u32 status) @ '')'') w) (\<lambda>(d, w).
     res_bind (if WCOREDUMP status then ds_put_cstr d ('', core dumped'' @ [NUL]) w else Ok (d, w)) (\<lambda>(d, w).
     res_bind (ds_cstr d w) (\<lambda>(d, w). case ds_string d of None \<Rightarrow> Err Fault | Some b \<Rightarrow> Ok (cstring b, w))))"

definition status_text :: "int \<Rightarrow> dworld \<Rightarrow> string proc" where
  "status_text status w =
     (case process_status_msg (signal_name w) status (mem w) of
        Err e \<Rightarrow> Stuck e | Ok (t, m) \<Rightarrow> Ret t (w\<lparr>mem := m\<rparr>))"

text \<open>What the parent does when no byte comes: the result of the function, unless it exits.\<close>

definition startup_failed :: "int \<Rightarrow> dworld \<Rightarrow> int proc" where
  "startup_failed pid w =
     pbind (wait_retry pid w) (\<lambda>(retval, status) w.
       if retval = pid then
         if WIFEXITED status \<and> WEXITSTATUS status \<noteq> 0 then Exited (WEXITSTATUS status) w
         else pbind (status_text status w) (\<lambda>t w.
           Ret (-1) (say (''fork child died before signaling startup ('' @ t @ '')'') w))
       else if retval < 0 then Ret 0 (say (''waitpid failed ('' @ show_int (derrno w) @ '')'') w)
       else Stuck Abort)"

text \<open>The read of the pipe takes its time.\<close>

definition lagged :: "dworld \<Rightarrow> dworld" where
  "lagged w = passed (case lags w of [] \<Rightarrow> 0 | d # _ \<Rightarrow> d) (w\<lparr>lags := tl (lags w)\<rparr>)"

text \<open>The result and the process id; the descriptor goes to \<open>daemonize_fd\<close>, for which both callers use it.\<close>

definition fork_and_wait_for_startup :: "dworld \<Rightarrow> (int \<times> int) proc" where
  "fork_and_wait_for_startup w =
     (let (fds, w) = xpipe w; (pid, w) = fork_and_clean_up w in
      if 0 < pid then
        let w = d_close (snd fds) w in
        case read_fully (fst fds) (fresh (mem w) 1) 1 (kern w) of
          Err e \<Rightarrow> Stuck e
        | Ok ((r, _, _), k) \<Rightarrow>
            let w = lagged (w\<lparr>kern := k\<rparr>) in
            pbind (if r \<noteq> 0 then startup_failed pid w else Ret 0 w) (\<lambda>ret w.
            Ret (ret, pid) ((d_close (fst fds) w)\<lparr>daemonize_fd := -1\<rparr>))
      else if pid = 0 then Ret (0, pid) ((d_close (fst fds) w)\<lparr>daemonize_fd := snd fds\<rparr>)
      else Ret (0, pid) w)"

definition fork_notify_startup :: "int \<Rightarrow> dworld \<Rightarrow> unit proc" where
  "fork_notify_startup fd w =
     (if fd \<noteq> -1 then
        pbind (write_fully fd [NUL] 1 w) (\<lambda>(error, bytes_written) w.
          let w = (if error \<noteq> 0 then say (''pipe write failed ('' @ show_int error @ '')'') w else w) in
          Ret () (d_close fd w))
      else Ret () w)"

section \<open>Standard descriptors\<close>

definition get_null_fd :: "dworld \<Rightarrow> int \<times> dworld" where
  "get_null_fd w =
     (if null_fd w = 0 then
        case opens w of
          [] \<Rightarrow> (- 2, (say ''could not open /dev/null: 2'' (set_errno 2 w))\<lparr>null_fd := - 2\<rparr>)
        | Inl error # q \<Rightarrow>
            (- error, (say (''could not open /dev/null: '' @ show_int error) (set_errno error (w\<lparr>opens := q\<rparr>)))\<lparr>null_fd := - error\<rparr>)
        | Inr fd # q \<Rightarrow> (fd, w\<lparr>opens := q, null_fd := fd\<rparr>)
      else (null_fd w, w))"

fun dup_loop :: "int \<Rightarrow> bool list \<Rightarrow> int \<Rightarrow> dworld \<Rightarrow> dworld" where
  "dup_loop null [] fd w = w"
| "dup_loop null (saved # ss) fd w = dup_loop null ss (fd + 1) (if \<not> saved then logged (Dup2 null fd) w else w)"

definition close_standard_fds :: "dworld \<Rightarrow> dworld" where
  "close_standard_fds w =
     (let (null, w) = get_null_fd w in if 0 \<le> null then dup_loop null (take 3 (save_fds w)) 0 w else w)"

definition set_subprogram_name :: "string \<Rightarrow> dworld \<Rightarrow> dworld" where
  "set_subprogram_name name w = logged (Named name) w"

end
