(* ===== verification/DaemonMonitor.thy ===== *)
theory DaemonMonitor
  imports Daemon
begin

text \<open>
  The monitor of src/Clang/daemon-unix.c, which restarts a daemon that dies of an error signal, and
  \<open>daemonize_start\<close>. One pass of the endless loop is a step on the local variables.
\<close>

section \<open>The monitor\<close>

definition error_signals :: "int list" where
  "error_signals = [6, 14, 7, 8, 4, 13, 11, 24, 25]"

definition should_restart :: "int \<Rightarrow> bool" where
  "should_restart status \<longleftrightarrow> WIFSIGNALED status \<and> WTERMSIG status \<in> set error_signals"

text \<open>The bounds of a signed type with \<open>bits\<close> value bits.\<close>

definition TYPE_MAXIMUM :: "nat \<Rightarrow> int" where
  "TYPE_MAXIMUM bits = (push_bit (bits - 1) 1 - 1) * 2 + 1"

definition TYPE_MINIMUM :: "nat \<Rightarrow> int" where
  "TYPE_MINIMUM bits = - TYPE_MAXIMUM bits - 1"

definition TIME_MIN :: int where
  "TIME_MIN = TYPE_MINIMUM 63"

record monitor_state =
  m_pid :: int
  m_last_restart :: int
  m_status_msg :: string
  m_crashes :: int
  m_child_ready :: bool

text \<open>The loop that waits until ten seconds after the last restart.\<close>

function throttle :: "int \<Rightarrow> dworld \<Rightarrow> dworld" where
  "throttle last_restart w =
     (let wakeup = last_restart + 10 in
      if wakeup \<le> now w then w else throttle last_restart (xsleep (wakeup - now w) w))"
  by pat_completeness auto
termination
  by (relation "measure (\<lambda>(last, w). nat (last + 10 - now w))") (auto simp: xsleep_def logged_def Let_def split: list.splits)

declare throttle.simps [simp del]

definition crash_msg :: "monitor_state \<Rightarrow> string \<Rightarrow> string" where
  "crash_msg m s =
     show_int (m_crashes m + 1) @ '' crashes: pid '' @ show_int (int (to_u64 (m_pid m))) @ '' died, '' @ s"

definition before_restart :: "int \<Rightarrow> int \<Rightarrow> string \<Rightarrow> dworld \<Rightarrow> dworld" where
  "before_restart last_restart status msg w =
     (let w = (if WCOREDUMP status then logged No_core w else w) in
      if now w < last_restart + 10
      then throttle last_restart (say (msg @ '', waiting until 10 seconds since last restart'') w) else w)"

definition crashed :: "monitor_state \<Rightarrow> int \<Rightarrow> string \<Rightarrow> dworld \<Rightarrow> monitor_state option proc" where
  "crashed m status s w =
     (let msg = crash_msg m s;
          w = before_restart (m_last_restart m) status msg w;
          last_restart = now w in
      pbind (fork_and_wait_for_startup (say (msg @ '', restarting'') w)) (\<lambda>(ret, pid) w.
      let m = \<lparr>m_pid = pid, m_last_restart = last_restart, m_status_msg = msg, m_crashes = m_crashes m + 1,
               m_child_ready = ret = 0\<rparr> in
      Ret (if m_child_ready m \<and> pid = 0 then None else Some m) w))"

definition monitor_wait :: "monitor_state \<Rightarrow> dworld \<Rightarrow> (int \<times> int) proc" where
  "monitor_wait m w =
     (if m_child_ready m then
        pbind (wait_retry (m_pid m) w) (\<lambda>(retval, status) w.
        Ret (retval, status) (if retval = -1 then say (''waitpid failed ('' @ show_int (derrno w) @ '')'') w else w))
      else Ret (stale w, stale w) w)"

definition monitor_step :: "monitor_state \<Rightarrow> dworld \<Rightarrow> monitor_state option proc" where
  "monitor_step m w =
     pbind (monitor_wait m w) (\<lambda>(retval, status) w.
       if \<not> m_child_ready m \<or> retval = m_pid m then
         pbind (status_text status w) (\<lambda>s w.
           if should_restart status then crashed m status s w
           else Exited 0 (say (''pid '' @ show_int (int (to_u64 (m_pid m))) @ '' died, '' @ s @ '', exiting'') w))
       else Ret (Some m) w)"

subsection \<open>The loop ends: each pass uses up the end of a child\<close>

definition waits_left :: "dworld \<Rightarrow> nat" where
  "waits_left w = length (waits w) + length (zombies w)"

lemma logged_simps [simp]:
  "waits (logged e w) = waits w" "now (logged e w) = now w" "kern (logged e w) = kern w" "mem (logged e w) = mem w"
  "waits (say t w) = waits w" "now (say t w) = now w" "kern (say t w) = kern w" "mem (say t w) = mem w"
  "waits (set_errno er w) = waits w" "now (set_errno er w) = now w"
  "waits (d_close fd w) = waits w" "now (d_close fd w) = now w"
  "waits (xsleep n w) = waits w"
  "zombies (logged e w) = zombies w" "zombies (say t w) = zombies w" "zombies (set_errno er w) = zombies w"
  "zombies (d_close fd w) = zombies w" "zombies (xsleep n w) = zombies w"
  "waits (passed d w) = waits w" "zombies (passed d w) = zombies w" "now (passed d w) = now w + int d"
  "mem (passed d w) = mem w" "kern (passed d w) = kern w" "waits (lagged w) = waits w" "zombies (lagged w) = zombies w"
  "mem (lagged w) = mem w" "kern (lagged w) = kern w"
  by (simp_all add: logged_def say_def set_errno_def d_close_def xsleep_def passed_def lagged_def Let_def)

lemma waits_throttle [simp]: "waits (throttle l w) = waits w \<and> zombies (throttle l w) = zombies w"
  by (induction l w rule: throttle.induct) (subst (1 2) throttle.simps, simp add: Let_def)

lemma waits_before_restart [simp]: "waits (before_restart l st msg w) = waits w \<and> zombies (before_restart l st msg w) = zombies w"
  by (simp add: before_restart_def Let_def)

lemma xpipe_keeps: "xpipe w = (fds, w') \<Longrightarrow> waits w' = waits w \<and> zombies w' = zombies w \<and> now w' = now w"
  by (auto simp: xpipe_def d_pipe_def d_open_def split: list.splits option.splits)

lemma fork_keeps: "fork_and_clean_up w = (pid, w') \<Longrightarrow> waits w' = waits w \<and> zombies w' = zombies w \<and> now w' = now w"
  by (auto simp: fork_and_clean_up_def xfork_at_def d_fork_def Let_def split: list.splits sum.splits option.splits if_splits)

lemma wait_loop_uses: "wait_loop pid q w = Ret r w' \<Longrightarrow> waits_left w' < length q + length (zombies w)"
  by (induction pid q w rule: wait_loop.induct) (auto simp: Let_def waits_left_def split: if_splits)

lemma wait_retry_uses:
  assumes "wait_retry pid w = Ret r w'"
  shows "waits_left w' < waits_left w"
proof (cases "find (\<lambda>(p, _). waits_for pid p) (zombies w)")
  case None
  then show ?thesis using assms wait_loop_uses by (fastforce simp: wait_retry_def waits_left_def)
next
  case (Some z)
  then have "z \<in> set (zombies w)" unfolding find_Some_iff by (metis nth_mem)
  then have "length (remove1 z (zombies w)) < length (zombies w)" by (auto simp: length_remove1 dest: length_pos_if_in_set)
  then show ?thesis using assms Some by (auto simp: wait_retry_def waits_left_def)
qed

lemma pbind_Ret_iff: "pbind p f = Ret x w \<longleftrightarrow> (\<exists>y v. p = Ret y v \<and> f y v = Ret x w)"
  by (cases p) auto

lemma status_text_keeps: "status_text s w = Ret t w' \<Longrightarrow> waits w' = waits w \<and> zombies w' = zombies w \<and> now w' = now w"
  by (auto simp: status_text_def split: cres.splits)

lemma startup_failed_uses: "startup_failed pid w = Ret r w' \<Longrightarrow> waits_left w' < waits_left w"
  by (auto simp: startup_failed_def pbind_Ret_iff waits_left_def split: if_splits
      dest!: wait_retry_uses status_text_keeps)

lemma fork_and_wait_uses:
  assumes "fork_and_wait_for_startup w = Ret (ret, pid) w'"
  shows "waits_left w' \<le> waits_left w \<and> (ret \<noteq> 0 \<longrightarrow> waits_left w' < waits_left w)"
proof -
  obtain fds w1 where w1: "xpipe w = (fds, w1)" by fastforce
  obtain p w2 where w2: "fork_and_clean_up w1 = (p, w2)" by fastforce
  have "waits_left w2 = waits_left w" using xpipe_keeps [OF w1] fork_keeps [OF w2] by (simp add: waits_left_def)
  then show ?thesis
    using assms w1 w2
    by (auto simp: fork_and_wait_for_startup_def pbind_Ret_iff waits_left_def Let_def split: if_splits cres.splits
        dest!: startup_failed_uses)
qed

definition monitor_measure :: "monitor_state \<Rightarrow> dworld \<Rightarrow> nat" where
  "monitor_measure m w = 2 * waits_left w + (if m_child_ready m then 0 else 1)"

lemma crashed_Ret:
  assumes "crashed m status s w = Ret r w'"
  obtains ret pid w1 where "w1 = before_restart (m_last_restart m) status (crash_msg m s) w"
    "fork_and_wait_for_startup (say (crash_msg m s @ '', restarting'') w1) = Ret (ret, pid) w'"
    "r = (if ret = 0 \<and> pid = 0 then None else Some \<lparr>m_pid = pid, m_last_restart = now w1,
        m_status_msg = crash_msg m s, m_crashes = m_crashes m + 1, m_child_ready = ret = 0\<rparr>)"
  using assms by (auto simp: crashed_def Let_def pbind_Ret_iff)

lemma monitor_step_uses:
  assumes "monitor_step m w = Ret (Some m') w'"
  shows "monitor_measure m' w' < monitor_measure m w"
proof -
  obtain retval status w1 where w1: "monitor_wait m w = Ret (retval, status) w1"
    using assms by (auto simp: monitor_step_def pbind_Ret_iff)
  have u1: "waits_left w1 + (if m_child_ready m then 1 else 0) \<le> waits_left w"
    using w1 by (auto simp: monitor_wait_def pbind_Ret_iff waits_left_def split: if_splits
        dest!: wait_retry_uses)
  show ?thesis
  proof (cases "\<not> m_child_ready m \<or> retval = m_pid m")
    case False
    then show ?thesis using assms w1 u1 by (auto simp: monitor_step_def monitor_measure_def)
  next
    case True
    then obtain s w2 where w2: "status_text status w1 = Ret s w2" "crashed m status s w2 = Ret (Some m') w'"
      using assms w1 by (auto simp: monitor_step_def pbind_Ret_iff split: if_splits)
    from w2(2) obtain ret pid w3 where
        w3: "w3 = before_restart (m_last_restart m) status (crash_msg m s) w2"
        "fork_and_wait_for_startup (say (crash_msg m s @ '', restarting'') w3) = Ret (ret, pid) w'"
        "Some m' = (if ret = 0 \<and> pid = 0 then None else Some \<lparr>m_pid = pid, m_last_restart = now w3,
          m_status_msg = crash_msg m s, m_crashes = m_crashes m + 1, m_child_ready = ret = 0\<rparr>)"
      by (rule crashed_Ret)
    then have "waits w3 = waits w1" "zombies w3 = zombies w1" "m_child_ready m' = (ret = 0)"
      using status_text_keeps [OF w2(1)] by (auto split: if_splits)
    then show ?thesis
      using fork_and_wait_uses [OF w3(2)] u1 by (auto simp: monitor_measure_def waits_left_def)
  qed
qed

function monitor_loop :: "monitor_state \<Rightarrow> dworld \<Rightarrow> unit proc" where
  "monitor_loop m w =
     (case monitor_step m w of
        Ret None w' \<Rightarrow> Ret () w'
      | Ret (Some m') w' \<Rightarrow> monitor_loop m' w'
      | Exited n w' \<Rightarrow> Exited n w' | Waiting w' \<Rightarrow> Waiting w' | Stuck e \<Rightarrow> Stuck e)"
  by pat_completeness auto
termination
  by (relation "measure (\<lambda>(m, w). monitor_measure m w)") (auto dest: monitor_step_uses)

declare monitor_loop.simps [simp del]

definition monitor_daemon :: "int \<Rightarrow> dworld \<Rightarrow> unit proc" where
  "monitor_daemon pid w =
     pbind (monitor_loop \<lparr>m_pid = pid, m_last_restart = TIME_MIN, m_status_msg = ''healthy'', m_crashes = 0, m_child_ready = True\<rparr>
        (set_subprogram_name ''monitor'' w)) (\<lambda>_ w. Ret () (set_subprogram_name [] w))"

section \<open>Starting as a daemon\<close>

definition daemonize_detach :: "dworld \<Rightarrow> unit proc" where
  "daemonize_detach w =
     pbind (fork_and_wait_for_startup w) (\<lambda>(_, pid) w.
       if 0 < pid then Exited 0 w else Ret () (logged Setsid w))"

definition daemonize_monitor :: "dworld \<Rightarrow> unit proc" where
  "daemonize_monitor w =
     (let saved_daemonize_fd = daemonize_fd w in
      pbind (fork_and_wait_for_startup w) (\<lambda>(ret, daemon_pid) w.
      let w = (if ret \<noteq> 0 then say ''could not initiate process monitoring'' w else w) in
      if 0 < daemon_pid then
        pbind (fork_notify_startup saved_daemonize_fd w) (\<lambda>_ w.
        monitor_daemon daemon_pid (close_standard_fds w))
      else Ret () w))"

definition daemonize_start :: "dworld \<Rightarrow> unit proc" where
  "daemonize_start w =
     (let w = w\<lparr>daemonize_fd := -1\<rparr> in
      pbind (if detach w then daemonize_detach w else Ret () w) (\<lambda>_ w.
      pbind (if monitor w then daemonize_monitor w else Ret () w) (\<lambda>_ w.
      let w = logged (Forbid_forking ''running in daemon process'') w in
      Ret () (case pidfile w of None \<Rightarrow> w | Some f \<Rightarrow> logged (Make_pidfile f) w))))"

end
