(* ===== verification/DaemonProps.thy ===== *)
theory DaemonProps
  imports DaemonMonitor DynStringSpec AnetIoProps
begin

text \<open>
  Properties of src/Clang/daemon-unix.c: the monitor restarts a daemon for every crash and at most once
  in ten seconds, a parent learns how the start of its child went, and bytes are read and written in full
  across interruptions.
\<close>

section \<open>Restarts are ten seconds apart\<close>

fun fork_times :: "devent list \<Rightarrow> int list" where
  "fork_times [] = []"
| "fork_times (Forked t _ # es) = t # fork_times es"
| "fork_times (_ # es) = fork_times es"

lemma fork_times_append [simp]: "fork_times (es @ fs) = fork_times es @ fork_times fs"
  by (induction es rule: fork_times.induct) auto

text \<open>The state a process ends in, whichever way, satisfies \<open>Q\<close>.\<close>

fun ends :: "'a proc \<Rightarrow> (dworld \<Rightarrow> bool) \<Rightarrow> bool" where
  "ends (Ret _ w) Q = Q w"
| "ends (Exited _ w) Q = Q w"
| "ends (Waiting w) Q = Q w"
| "ends (Stuck _) Q = True"

text \<open>\<open>w'\<close> comes later than \<open>w\<close>, with forks at the times \<open>ts\<close> in between.\<close>

definition later :: "int list \<Rightarrow> dworld \<Rightarrow> dworld \<Rightarrow> bool" where
  "later ts w w' \<longleftrightarrow> now w \<le> now w' \<and> fork_times (dlog w') = fork_times (dlog w) @ ts"

lemma later_refl [simp]: "later [] w w"
  by (simp add: later_def)

lemma later_trans: "later ts w w' \<Longrightarrow> later us w' w'' \<Longrightarrow> later (ts @ us) w w''"
  by (simp add: later_def)

lemma ends_mono: "ends p P \<Longrightarrow> (\<And>w. P w \<Longrightarrow> Q w) \<Longrightarrow> ends p Q"
  by (cases p) auto

lemma ends_pbind: "ends p Q \<Longrightarrow> (\<And>x w. Q w \<Longrightarrow> ends (f x w) Q) \<Longrightarrow> ends (pbind p f) Q"
  by (cases p) auto

lemma later_events [simp]:
  "later [] w0 (say t w) \<longleftrightarrow> later [] w0 w" "later [] w0 (set_errno e w) \<longleftrightarrow> later [] w0 w"
  "later [] w0 (d_close fd w) \<longleftrightarrow> later [] w0 w" "later [] w0 (logged No_core w) \<longleftrightarrow> later [] w0 w"
  "later [] w0 (w\<lparr>mem := m\<rparr>) \<longleftrightarrow> later [] w0 w" "later [] w0 (w\<lparr>kern := k\<rparr>) \<longleftrightarrow> later [] w0 w"
  "later [] w0 (w\<lparr>waits := q\<rparr>) \<longleftrightarrow> later [] w0 w" "later [] w0 (w\<lparr>daemonize_fd := i\<rparr>) \<longleftrightarrow> later [] w0 w"
  "later [] w0 (logged (Named n) w) \<longleftrightarrow> later [] w0 w" "later [] w0 (w\<lparr>zombies := z\<rparr>) \<longleftrightarrow> later [] w0 w"
  by (auto simp: later_def say_def logged_def set_errno_def d_close_def)

lemma later_passed: "later [] w0 w \<Longrightarrow> later [] w0 (passed d w)" "later [] w0 w \<Longrightarrow> later [] w0 (lagged w)"
  by (auto simp: later_def passed_def lagged_def)

lemma wait_loop_ends: "later [] w0 w \<Longrightarrow> ends (wait_loop pid q w) (later [] w0)"
  by (induction pid q w rule: wait_loop.induct) (auto simp: Let_def later_passed)

lemma wait_retry_ends: "later [] w0 w \<Longrightarrow> ends (wait_retry pid w) (later [] w0)"
  by (auto simp: wait_retry_def wait_loop_ends split: option.splits)

lemma status_text_ends: "later [] w0 w \<Longrightarrow> ends (status_text s w) (later [] w0)"
  by (auto simp: status_text_def split: cres.splits)

lemma startup_failed_ends:
  assumes "later [] w0 w"
  shows "ends (startup_failed pid w) (later [] w0)"
  unfolding startup_failed_def
proof (rule ends_pbind [OF wait_retry_ends [OF assms]], clarify)
  fix retval status v
  assume v: "later [] w0 v"
  then show "ends (if retval = pid then if WIFEXITED status \<and> WEXITSTATUS status \<noteq> 0 then Exited (WEXITSTATUS status) v
        else pbind (status_text status v) (\<lambda>t w. Ret (-1) (say (''fork child died before signaling startup ('' @ t @ '')'') w))
      else if retval < 0 then Ret 0 (say (''waitpid failed ('' @ show_int (derrno v) @ '')'') v) else Stuck Abort) (later [] w0)"
    by (auto intro!: ends_pbind status_text_ends)
qed

lemma xsleep_later: "later [] w (xsleep n w)"
  by (simp add: later_def xsleep_def logged_def Let_def)

lemma throttle_later: "later [] w (throttle l w) \<and> l + 10 \<le> now (throttle l w)"
proof (induction l w rule: throttle.induct)
  case (1 l w)
  then show ?case
    using later_trans [OF xsleep_later [of w], of "[]"]
    by (subst (1 2) throttle.simps) (auto simp: Let_def)
qed

lemma before_restart_later:
  "later [] w (before_restart l st msg w) \<and> l + 10 \<le> now (before_restart l st msg w)"
proof -
  define w1 where "w1 = (if WCOREDUMP st then logged No_core w else w)"
  have w1: "later [] w w1" "now w1 = now w" by (simp_all add: w1_def)
  have "later [] w (throttle l (say t w1)) \<and> l + 10 \<le> now (throttle l (say t w1))" for t
    using throttle_later [of "say t w1" l] w1 by (auto simp: later_def say_def logged_def)
  with w1 show ?thesis by (simp add: before_restart_def w1_def [symmetric] Let_def)
qed

lemma fork_and_wait_ends:
  "ends (fork_and_wait_for_startup w) (\<lambda>w'. later [] w w' \<or> later [now w] w w')"
proof -
  obtain fds w1 where w1: "xpipe w = (fds, w1)" by fastforce
  obtain pid w2 where w2: "fork_and_clean_up w1 = (pid, w2)" by fastforce
  have l1: "later [] w w1" "now w1 = now w"
    using w1 by (auto simp: xpipe_def d_pipe_def d_open_def later_def say_def logged_def set_errno_def split: list.splits option.splits)
  have l2: "later [] w1 w2 \<or> later [now w] w1 w2"
    using w2 l1(2)
    by (auto simp: fork_and_clean_up_def xfork_at_def d_fork_def later_def say_def logged_def set_errno_def Let_def
        split: list.splits sum.splits option.splits if_splits)
  have l: "later [] w w2 \<or> later [now w] w w2"
    using l2 later_trans [OF l1(1)] by fastforce
  have tail: "later [] w2 v \<Longrightarrow> later [] w v \<or> later [now w] w v" for v
    using l later_trans [of _ w w2 "[]" v] by auto
  have "ends (fork_and_wait_for_startup w) (later [] w2)"
    using w1 w2
    by (auto simp: fork_and_wait_for_startup_def Let_def split: cres.splits if_splits
        intro!: ends_pbind startup_failed_ends later_passed)
  then show ?thesis by (rule ends_mono) (rule tail)
qed

definition one_fork :: "int \<Rightarrow> dworld \<Rightarrow> dworld \<Rightarrow> bool" where
  "one_fork l w w' \<longleftrightarrow> later [] w w' \<or> (\<exists>t. l + 10 \<le> t \<and> later [t] w w')"

definition throttled :: "int \<Rightarrow> dworld \<Rightarrow> dworld \<Rightarrow> bool" where
  "throttled l w w' \<longleftrightarrow>
     (\<exists>ts. later ts w w' \<and> sorted_wrt (\<lambda>a b. a + 10 \<le> b) ts \<and> (\<forall>t \<in> set ts. l + 10 \<le> t))"

lemma ends_Ret: "ends p Q \<Longrightarrow> p = Ret x w \<Longrightarrow> Q w"
  by simp

lemma crashed_fork:
  assumes "later [] w0 w"
  shows "ends (crashed m st s w) (\<lambda>w'. later [] w0 w' \<or> (\<exists>t. m_last_restart m + 10 \<le> t \<and> later [t] w0 w' \<and>
      (\<forall>m'. crashed m st s w = Ret (Some m') w' \<longrightarrow> t \<le> m_last_restart m')))"
    and "crashed m st s w = Ret (Some m') w' \<Longrightarrow> m_last_restart m + 10 \<le> m_last_restart m'"
proof -
  define w1 where "w1 = before_restart (m_last_restart m) st (crash_msg m s) w"
  define v where "v = say (crash_msg m s @ '', restarting'') w1"
  have w1: "later [] w w1" "m_last_restart m + 10 \<le> now w1"
    using before_restart_later by (simp_all add: w1_def)
  have v: "later [] w0 v" "now v = now w1"
    using later_trans [OF assms w1(1)] by (simp_all add: v_def)
  have e: "crashed m st s w = pbind (fork_and_wait_for_startup v) (\<lambda>(ret, pid) w.
      Ret (if ret = 0 \<and> pid = 0 then None else Some \<lparr>m_pid = pid, m_last_restart = now w1,
        m_status_msg = crash_msg m s, m_crashes = m_crashes m + 1, m_child_ready = ret = 0\<rparr>) w)"
    unfolding v_def w1_def by (simp add: crashed_def Let_def)
  have f: "ends (fork_and_wait_for_startup v) (\<lambda>w'. later [] w0 w' \<or> later [now w1] w0 w')"
    by (rule ends_mono [OF fork_and_wait_ends [of v, unfolded v(2)]]) (auto dest: later_trans [OF v(1)])
  show l: "crashed m st s w = Ret (Some m') w' \<Longrightarrow> m_last_restart m + 10 \<le> m_last_restart m'" for m' w'
    using w1(2) by (auto simp: e pbind_Ret_iff split: if_splits)
  have r: "crashed m st s w = Ret (Some m') w' \<Longrightarrow> now w1 \<le> m_last_restart m'" for m' w'
    by (auto simp: e pbind_Ret_iff split: if_splits)
  have "ends (crashed m st s w) (\<lambda>w'. later [] w0 w' \<or> later [now w1] w0 w')"
    unfolding e by (rule ends_pbind [OF f]) (auto split: prod.splits)
  then show "ends (crashed m st s w) (\<lambda>w'. later [] w0 w' \<or> (\<exists>t. m_last_restart m + 10 \<le> t \<and> later [t] w0 w' \<and>
      (\<forall>m'. crashed m st s w = Ret (Some m') w' \<longrightarrow> t \<le> m_last_restart m')))"
    by (rule ends_mono) (use w1(2) r in blast)
qed

lemma monitor_step_fork:
  "ends (monitor_step m w) (\<lambda>w'. later [] w w' \<or> (\<exists>t. m_last_restart m + 10 \<le> t \<and> later [t] w w' \<and>
      (\<forall>m'. monitor_step m w = Ret (Some m') w' \<longrightarrow> t \<le> m_last_restart m')))"
  "monitor_step m w = Ret (Some m') w' \<Longrightarrow> m_last_restart m \<le> m_last_restart m'"
proof -
  have wt: "ends (monitor_wait m w) (later [] w)"
    by (auto simp: monitor_wait_def intro!: ends_pbind wait_retry_ends)
  show "ends (monitor_step m w) (\<lambda>w'. later [] w w' \<or> (\<exists>t. m_last_restart m + 10 \<le> t \<and> later [t] w w' \<and>
      (\<forall>m'. monitor_step m w = Ret (Some m') w' \<longrightarrow> t \<le> m_last_restart m')))" (is "ends _ ?Q")
  proof (cases "monitor_wait m w")
    case (Ret r w1)
    obtain retval status where r: "r = (retval, status)" by fastforce
    have w1: "later [] w w1" using wt Ret by simp
    note st = status_text_ends [OF w1, of status]
    show ?thesis
    proof (cases "status_text status w1")
      case t: (Ret s w2)
      have w2: "later [] w w2" using st t by simp
      have "monitor_step m w = (if \<not> m_child_ready m \<or> retval = m_pid m then
          if should_restart status then crashed m status s w2
          else Exited 0 (say (''pid '' @ show_int (int (to_u64 (m_pid m))) @ '' died, '' @ s @ '', exiting'') w2)
        else Ret (Some m) w1)"
        by (simp add: monitor_step_def Ret r t)
      then consider "monitor_step m w = Ret (Some m) w1" | t where "monitor_step m w = Exited 0 (say t w2)"
        | "monitor_step m w = crashed m status s w2"
        by metis
      then show ?thesis
      proof cases
        case 3
        then show ?thesis using crashed_fork(1) [OF w2, of m status s] by simp
      qed (use w1 w2 in simp_all)
    qed (use Ret r st w1 in \<open>auto simp: monitor_step_def\<close>)
  qed (use wt in \<open>simp_all add: monitor_step_def\<close>)
  show "monitor_step m w = Ret (Some m') w' \<Longrightarrow> m_last_restart m \<le> m_last_restart m'"
    using crashed_fork(2) [OF later_refl, of m _ _ _ m' w']
    by (fastforce simp: monitor_step_def pbind_Ret_iff split: if_splits)
qed

lemma monitor_loop_throttled: "ends (monitor_loop m w) (throttled (m_last_restart m) w)"
proof (induction m w rule: monitor_loop.induct)
  case (1 m w)
  note step = monitor_step_fork(1) [of m w]
  have thr: "later [] w w' \<or> (\<exists>t. m_last_restart m + 10 \<le> t \<and> later [t] w w') \<Longrightarrow> throttled (m_last_restart m) w w'" for w'
    unfolding throttled_def by (metis list.set(1,2) empty_iff insert_iff sorted_wrt1 sorted_wrt.simps(1))
  show ?case
  proof (cases "monitor_step m w")
    case (Ret r w1)
    show ?thesis
    proof (cases r)
      case None
      then show ?thesis using Ret step by (subst monitor_loop.simps) (auto intro: thr)
    next
      case (Some m1)
      have l1: "m_last_restart m \<le> m_last_restart m1" using Ret Some by (intro monitor_step_fork(2)) simp
      obtain ts where ts: "later ts w w1" "ts = [] \<or> (\<exists>t. ts = [t] \<and> m_last_restart m + 10 \<le> t \<and> t \<le> m_last_restart m1)"
        using step Ret Some by fastforce
      have "throttled (m_last_restart m1) w1 v \<Longrightarrow> throttled (m_last_restart m) w v" for v
      proof -
        assume "throttled (m_last_restart m1) w1 v"
        then obtain us where us: "later us w1 v" "sorted_wrt (\<lambda>a b. a + 10 \<le> b) us" "\<forall>t \<in> set us. m_last_restart m1 + 10 \<le> t"
          by (auto simp: throttled_def)
        have "sorted_wrt (\<lambda>a b. a + 10 \<le> b) (ts @ us)" "\<forall>t \<in> set (ts @ us). m_last_restart m + 10 \<le> t"
          using ts(2) us(2,3) l1 by fastforce+
        then show ?thesis using later_trans [OF ts(1) us(1)] by (auto simp: throttled_def)
      qed
      then show ?thesis
        using 1 [OF Ret Some] Ret Some by (subst monitor_loop.simps) (auto elim: ends_mono)
    qed
  next
    case (Exited n v)
    then show ?thesis using step by (subst monitor_loop.simps) (auto intro: thr)
  next
    case (Waiting v)
    then show ?thesis using step by (subst monitor_loop.simps) (auto intro: thr)
  next
    case (Stuck e)
    then show ?thesis by (subst monitor_loop.simps) simp
  qed
qed

text \<open>C23. On a clock that does not go back, whatever children, signals, sleeps, slow starts and failed forks do, the monitor ends
  or waits, and in any state it ends in the forks it made are at least ten seconds apart. Children may die after any
  number of seconds.\<close>

theorem monitor_daemon_throttled:
  "ends (monitor_daemon pid w) (\<lambda>w'. \<exists>ts. fork_times (dlog w') = fork_times (dlog w) @ ts \<and>
     sorted_wrt (\<lambda>a b. a + 10 \<le> b) ts)"
proof -
  have n: "later [] w (set_subprogram_name t w)" for t and w :: dworld
    by (simp add: set_subprogram_name_def)
  have "ends (monitor_daemon pid w) (\<lambda>w'. \<exists>l. throttled l (set_subprogram_name ''monitor'' w) w')"
    unfolding monitor_daemon_def
  proof (rule ends_pbind)
    show "ends (monitor_loop \<lparr>m_pid = pid, m_last_restart = TIME_MIN, m_status_msg = ''healthy'', m_crashes = 0, m_child_ready = True\<rparr>
        (set_subprogram_name ''monitor'' w)) (\<lambda>w'. \<exists>l. throttled l (set_subprogram_name ''monitor'' w) w')"
      by (rule ends_mono [OF monitor_loop_throttled]) blast
  next
    fix x and v :: dworld
    assume "\<exists>l. throttled l (set_subprogram_name ''monitor'' w) v"
    then show "ends (Ret () (set_subprogram_name [] v)) (\<lambda>w'. \<exists>l. throttled l (set_subprogram_name ''monitor'' w) w')"
      using later_trans [OF _ n [where t = "[]"]] by (fastforce simp: throttled_def)
  qed
  then show ?thesis
    by (rule ends_mono) (auto simp: throttled_def later_def set_subprogram_name_def logged_def)
qed

section \<open>Forks and messages of the monitor\<close>

fun fork_pids :: "devent list \<Rightarrow> int list" where
  "fork_pids [] = []"
| "fork_pids (Forked _ p # es) = p # fork_pids es"
| "fork_pids (_ # es) = fork_pids es"

lemma fork_pids_append [simp]: "fork_pids (es @ fs) = fork_pids es @ fork_pids fs"
  by (induction es rule: fork_pids.induct) auto

lemma status_text_Ret:
  assumes "\<not> may_oom (mem w)" "\<forall>n. length (signal_name w n) < 2 ^ 30"
  shows "\<exists>t m. status_text s w = Ret t (w\<lparr>mem := m\<rparr>) \<and> \<not> may_oom m"
proof -
  define out where "out = (if WIFEXITED s then ''exit status '' @ show_int (WEXITSTATUS s)
      else if WIFSIGNALED s then ''killed ('' @ signal_name w (WTERMSIG s) @ '')''
      else if WIFSTOPPED s then ''stopped ('' @ signal_name w (WSTOPSIG s) @ '')''
      else ''terminated abnormally ('' @ show_hex (to_u32 s) @ '')'')"
  have out: "length out < 2 ^ 31 - 20"
  proof -
    have dec: "length (show_int (WEXITSTATUS s)) \<le> 21"
    proof -
      define x where "x = s AND 0xff00"
      have "x \<le> 0xff00" "0 \<le> x" by (simp_all add: x_def AND_upper2)
      then have "0 \<le> x div 256" "x div 256 \<le> 255" by linarith+
      then have "0 \<le> WEXITSTATUS s" "WEXITSTATUS s \<le> 255"
        by (simp_all add: WEXITSTATUS_def drop_bit_eq_div x_def)
      then show ?thesis using length_dec_le [of 21 "nat (WEXITSTATUS s)"] by (simp add: show_int_def nat_less_iff)
    qed
    have hex: "length (show_hex n) \<le> k" if "0 < k" "n < 16 ^ k" for n k
      using that
    proof (induction k arbitrary: n)
      case (Suc k)
      show ?case
      proof (cases "n < 16")
        case False
        then have "k \<noteq> 0" using Suc.prems by (cases k) auto
        moreover have "n div 16 < 16 ^ k" using Suc.prems by (simp add: div_less_iff_less_mult mult.commute)
        ultimately have "length (show_hex (n div 16)) \<le> k" using Suc.IH by simp
        with False show ?thesis by (subst show_hex.simps) simp
      qed (subst show_hex.simps, simp)
    qed simp
    have "to_u32 s < 16 ^ 8" by (simp add: to_u32_def nat_less_iff)
    then have "length (show_hex (to_u32 s)) \<le> 8" by (intro hex) simp_all
    moreover have "length (signal_name w n) < 2 ^ 30" for n using assms(2) by blast
    note this [of "WTERMSIG s"] this [of "WSTOPSIG s"]
    ultimately show ?thesis using dec by (simp add: out_def)
  qed
  have eq: "process_status_msg (signal_name w) s (mem w) =
      res_bind (ds_put_format ds_init out (mem w)) (\<lambda>(d, w).
      res_bind (if WCOREDUMP s then ds_put_cstr d ('', core dumped'' @ [NUL]) w else Ok (d, w)) (\<lambda>(d, w).
      res_bind (ds_cstr d w) (\<lambda>(d, w). case ds_string d of None \<Rightarrow> Err Fault | Some b \<Rightarrow> Ok (cstring b, w))))"
    by (simp add: process_status_msg_def out_def)
  have "ds_spec (mem w) (process_status_msg (signal_name w) s (mem w)) (\<lambda>_. True)"
    unfolding eq
  proof (rule ds_spec_bind [OF ds_put_format_spec [OF ds_init_ok]], goal_cases)
    case 1
    then show ?case using out by simp
  next
    case (2 d m)
    then show ?case unfolding prod.case
    proof (rule_tac ds_spec_bind [where P = "\<lambda>d. \<exists>v. ds_ok d v"], goal_cases)
      case 1
      have "cstring ('', core dumped'' @ [NUL]) = '', core dumped''" by (simp add: cstring_eval)
      then show ?case
        using 2(2) out ds_put_cstr_spec [of d out "'', core dumped'' @ [NUL]" m]
        by (auto elim: ds_spec_weaken)
    next
      case (2 d m)
      then obtain v where v: "ds_ok d v" by blast
      show ?case unfolding prod.case
        by (rule ds_spec_bind [OF ds_cstr_spec [OF v]]) auto
    qed
  qed
  then obtain t m where "process_status_msg (signal_name w) s (mem w) = Ok (t, m)" "\<not> may_oom m"
    using assms(1) by (cases "process_status_msg (signal_name w) s (mem w)") (auto simp: ds_spec_def)
  then show ?thesis by (intro exI [of _ t] exI [of _ m]) (simp add: status_text_def)
qed

text \<open>What goes on without a fork.\<close>

definition calm :: "dworld \<Rightarrow> dworld \<Rightarrow> bool" where
  "calm w w' \<longleftrightarrow> forks w' = forks w \<and> pipes w' = pipes w \<and> streams (kern w') = streams (kern w) \<and>
     mem w' = mem w \<and> signal_name w' = signal_name w \<and> fork_pids (dlog w') = fork_pids (dlog w)"

lemma calm_refl [simp]: "calm w w"
  by (simp add: calm_def)

lemma calm_trans: "calm w w' \<Longrightarrow> calm w' w'' \<Longrightarrow> calm w w''"
  by (simp add: calm_def)

lemma calm_events [simp]: "calm w (say t v) = calm w v" "calm w (logged No_core v) = calm w v" "calm w (logged (Named n) v) = calm w v"
  "calm w (set_errno e v) = calm w v" "calm w (passed d v) = calm w v" "calm w (v\<lparr>zombies := z\<rparr>) = calm w v"
  "calm w (v\<lparr>waits := q\<rparr>) = calm w v" "calm w (lagged v) = calm w v"
  by (simp_all add: calm_def say_def logged_def set_errno_def passed_def lagged_def)



text \<open>What comes before the end of the child that is waited for: interruptions, and the ends of others.\<close>

definition noise :: "int \<Rightarrow> nat \<times> (int + int \<times> int) \<Rightarrow> bool" where
  "noise pid x \<longleftrightarrow> (case snd x of Inl e \<Rightarrow> e = EINTR | Inr (p, _) \<Rightarrow> \<not> waits_for pid p)"

lemma wait_loop_noise:
  "\<forall>x \<in> set pre. noise pid x \<Longrightarrow> \<exists>w'. wait_loop pid (pre @ q) w = wait_loop pid q w' \<and> calm w w' \<and>
     ((\<forall>x \<in> set pre. snd x = Inl EINTR) \<longrightarrow> zombies w' = zombies w)"
proof (induction pre arbitrary: w)
  case Nil
  show ?case by (rule exI [of _ w]) simp
next
  case (Cons x pre)
  obtain d y where x: "x = (d, y)" by fastforce
  define v where "v = (case y of Inl e \<Rightarrow> set_errno e (passed d w)
      | Inr z \<Rightarrow> (passed d w)\<lparr>zombies := zombies (passed d w) @ [z]\<rparr>)"
  have v: "wait_loop pid ((x # pre) @ q) w = wait_loop pid (pre @ q) v" "calm w v" "y = Inl EINTR \<longrightarrow> zombies v = zombies w"
    using Cons.prems by (auto simp: v_def x noise_def Let_def split: sum.splits)
  obtain w' where "wait_loop pid (pre @ q) v = wait_loop pid q w'" "calm v w'"
      "(\<forall>x \<in> set pre. snd x = Inl EINTR) \<longrightarrow> zombies w' = zombies v"
    using Cons.IH [of v] Cons.prems by auto
  then show ?case using v calm_trans [OF v(2)] by (intro exI [of _ w']) (simp add: x)
qed

lemma wait_retry_finds:
  assumes "waits w = pre @ (d, Inr (pid, st)) # q" "\<forall>x \<in> set pre. noise pid x" "pid \<notin> fst ` set (zombies w)" "0 < pid"
  shows "\<exists>w'. wait_retry pid w = Ret (pid, st) w' \<and> calm w w' \<and> waits w' = q \<and>
    ((\<forall>x \<in> set pre. snd x = Inl EINTR) \<longrightarrow> zombies w' = zombies w)"
proof -
  have f: "find (\<lambda>(p, _). waits_for pid p) (zombies w) = None"
    using assms(3,4) by (force simp: find_None_iff waits_for_def)
  obtain w' where w': "wait_loop pid (waits w) w = wait_loop pid ((d, Inr (pid, st)) # q) w'" "calm w w'"
      "(\<forall>x \<in> set pre. snd x = Inl EINTR) \<longrightarrow> zombies w' = zombies w"
    using wait_loop_noise [OF assms(2), of "(d, Inr (pid, st)) # q" w] assms(1) by auto
  then show ?thesis
    using f by (intro exI [of _ "(passed d w')\<lparr>waits := q\<rparr>"]) (simp add: wait_retry_def waits_for_def Let_def)
qed

lemma fork_parent:
  assumes "forks w = Inr pid # fs" "0 < pid"
  shows "\<exists>w'. fork_and_clean_up w = (pid, w') \<and> waits w' = waits w \<and> zombies w' = zombies w \<and> mem w' = mem w \<and> signal_name w' = signal_name w \<and>
    kern w' = kern w \<and> pipes w' = pipes w \<and> forks w' = fs \<and> fork_pids (dlog w') = fork_pids (dlog w) @ [pid]"
proof -
  define v where "v = (case must_not_fork w of None \<Rightarrow> w
      | Some reason \<Rightarrow> say (''daemon-unix.c:173'' @ '': attempted to fork but forking not allowed ('' @ reason @ '')'') w)"
  have v: "forks v = Inr pid # fs" "calm w v"
    using assms(1) by (auto simp: v_def say_def logged_def split: option.splits) (simp_all add: calm_def)
  have v': "waits v = waits w" "zombies v = zombies w" "kern v = kern w" by (simp_all add: v_def split: option.splits)
  define w2 where "w2 = logged (Forked (now v) pid) (v\<lparr>forks := fs\<rparr>)"
  have "fork_and_clean_up w = (pid, w2)"
    using v(1) assms(2) by (simp add: fork_and_clean_up_def xfork_at_def v_def [symmetric] d_fork_def w2_def Let_def)
  then show ?thesis using v(2) v' by (intro exI [of _ w2]) (simp add: w2_def logged_def calm_def)
qed


section \<open>Reading across interruptions\<close>

definition uninterrupted :: "(int + 'a) list \<Rightarrow> (int + 'a) list" where
  "uninterrupted q = filter (\<lambda>x. x \<noteq> Inl EINTR) q"

text \<open>The code for what stops a read: the end of the file or the error.\<close>

fun stop_code :: "(int + string) list \<Rightarrow> int" where
  "stop_code (Inr c # q) = (if c = [] then EOF else stop_code q)"
| "stop_code (Inl e # q) = e"
| "stop_code [] = EOF"

lemma read_fully_loop_eq:
  assumes "socks w fd \<noteq> None" "n + sz \<le> length p"
  shows "let q = uninterrupted (streams w fd); a = available q in
    \<exists>w'. read_fully_loop fd p sz n w =
      Ok ((if sz \<le> length a then 0 else stop_code q, overwrite p n (take sz a), n + min sz (length a)), w')"
  using assms
proof (induction fd p sz n w rule: read_fully_loop.induct)
  case (1 fd p sz n w)
  note prems = 1(3,4)
  note loop = read_fully_loop.simps [of fd p sz n w]
  show ?case
  proof (cases "sz = 0")
    case True
    then show ?thesis by (simp add: read_fully_loop.simps)
  next
    case False
    consider (stop) "streams w fd = [] \<or> (\<exists>q. streams w fd = Inr [] # q)" | (error) e q where "streams w fd = Inl e # q" "e \<noteq> EINTR"
      | (eintr) q where "streams w fd = Inl EINTR # q" | (data) c q where "streams w fd = Inr c # q" "c \<noteq> []"
      by (metis neq_Nil_conv old.sum.exhaust)
    then show ?thesis
    proof cases
      case stop
      then show ?thesis using False prems(1) by (auto simp: loop k_read_def uninterrupted_def Let_def)
    next
      case error
      then show ?thesis using False prems(1) by (auto simp: loop k_read_def uninterrupted_def Let_def)
    next
      case (eintr q)
      let ?w = "w\<lparr>streams := (streams w)(fd := q), errno := EINTR\<rparr>"
      have k: "k_read fd sz w = (Inl (-1), ?w)" using eintr prems(1) by (auto simp: k_read_def)
      have "read_fully_loop fd p sz n w = read_fully_loop fd p sz n ?w" using False k by (simp add: loop)
      then show ?thesis
        using 1(1) [OF _ refl k [symmetric] refl] False prems eintr by (simp add: uninterrupted_def Let_def)
    next
      case (data c q)
      let ?c = "take sz c"
      let ?w = "w\<lparr>streams := (streams w)(fd := if length c \<le> sz then q else Inr (drop sz c) # q)\<rparr>"
      let ?p = "overwrite p n ?c"
      have c: "?c \<noteq> []" using data(2) False by simp
      have k: "k_read fd sz w = (Inr ?c, ?w)" using data prems(1) by (auto simp: k_read_def)
      have m: "memcpy p n ?c (length ?c) = Ok ?p" using prems(2) by (intro memcpy_whole) simp
      have eq: "read_fully_loop fd p sz n w = read_fully_loop fd ?p (sz - length ?c) (n + length ?c) ?w"
        using False c k m by (simp add: loop)
      have rest: "let q = uninterrupted (streams ?w fd); a = available q in
          \<exists>w'. read_fully_loop fd ?p (sz - length ?c) (n + length ?c) ?w =
          Ok ((if sz - length ?c \<le> length a then 0 else stop_code q,
               overwrite ?p (n + length ?c) (take (sz - length ?c) a), n + length ?c + min (sz - length ?c) (length a)), w')"
        using 1(2) [OF _ refl k [symmetric] refl c m] False prems by simp
      show ?thesis
      proof (cases "length c \<le> sz")
        case True
        then show ?thesis
          using eq rest data prems(2) by (auto simp: Let_def uninterrupted_def overwrite_overwrite_next)
      next
        case False
        then show ?thesis using eq rest data prems(2) by (auto simp: Let_def uninterrupted_def read_fully_loop.simps)
      qed
    qed
  qed
qed

lemma read_fully_eq:
  assumes "socks w fd \<noteq> None" "n \<le> length p"
  shows "let q = uninterrupted (streams w fd); a = available q in
    \<exists>w'. read_fully fd p n w =
      Ok ((if n \<le> length a then 0 else stop_code q, overwrite p 0 (take n a), min n (length a)), w')"
  using read_fully_loop_eq [of w fd 0 n p] assms by (simp add: read_fully_def)

section \<open>How a start is reported\<close>

lemma fork_and_wait_parent:
  assumes "pipes w = Some (r, t) # ps" "forks w = Inr pid # fs" "0 < pid" "r \<noteq> t"
  defines "q \<equiv> uninterrupted (streams (kern w) r)"
  shows "\<exists>v. fork_and_wait_for_startup w =
      pbind (if available q = [] \<and> stop_code q \<noteq> 0 then startup_failed pid v else Ret 0 v) (\<lambda>ret w.
        Ret (ret, pid) ((d_close r w)\<lparr>daemonize_fd := -1\<rparr>)) \<and>
    waits v = waits w \<and> zombies v = zombies w \<and> mem v = mem w \<and> signal_name v = signal_name w \<and>
    fork_pids (dlog v) = fork_pids (dlog w) @ [pid]"
proof -
  obtain w1 where w1: "xpipe w = ((r, t), w1)" "w1 = d_open t (d_open r (w\<lparr>pipes := ps\<rparr>))"
    using assms(1) by (simp add: xpipe_def d_pipe_def)
  obtain w2 where w2: "fork_and_clean_up w1 = (pid, w2)" "waits w2 = waits w1" "zombies w2 = zombies w1" "mem w2 = mem w1"
      "signal_name w2 = signal_name w1" "kern w2 = kern w1" "fork_pids (dlog w2) = fork_pids (dlog w1) @ [pid]"
    using fork_parent [of w1 pid fs] assms(2,3) by (auto simp: w1(2) d_open_def)
  define w3 where "w3 = d_close t w2"
  have k3: "socks (kern w3) r \<noteq> None" "streams (kern w3) r = streams (kern w) r"
    using w2 assms(4) by (auto simp: w3_def d_close_def k_close_def logged_def w1 d_open_def)
  obtain k4 where k4: "read_fully r (fresh (mem w3) 1) 1 (kern w3) =
      Ok ((if 1 \<le> length (available q) then 0 else stop_code q, overwrite (fresh (mem w3) 1) 0 (take 1 (available q)),
           min 1 (length (available q))), k4)"
    using read_fully_eq [OF k3(1), of 1 "fresh (mem w3) 1"] k3(2) by (auto simp: Let_def q_def)
  define w4 where "w4 = lagged (w3\<lparr>kern := k4\<rparr>)"
  have "fork_and_wait_for_startup w =
      pbind (if available q = [] \<and> stop_code q \<noteq> 0 then startup_failed pid w4 else Ret 0 w4) (\<lambda>ret w.
        Ret (ret, pid) ((d_close r w)\<lparr>daemonize_fd := -1\<rparr>))"
    using assms(3) k4
    by (auto simp: fork_and_wait_for_startup_def w1(1) w2(1) w3_def [symmetric] w4_def Let_def Suc_le_eq)
  then show ?thesis
    using w2 by (intro exI [of _ w4]) (auto simp: w4_def w3_def d_close_def logged_def lagged_def passed_def w1 d_open_def)
qed

lemma startup_failed_waits:
  assumes "waits w = pre @ (d, Inr (pid, st)) # q" "\<forall>x \<in> set pre. noise pid x" "pid \<notin> fst ` set (zombies w)" "0 < pid"
    and "\<not> may_oom (mem w)" "\<forall>n. length (signal_name w n) < 2 ^ 30"
  shows "\<exists>w'. startup_failed pid w = (if WIFEXITED st \<and> WEXITSTATUS st \<noteq> 0 then Exited (WEXITSTATUS st) w' else Ret (-1) w') \<and>
    fork_pids (dlog w') = fork_pids (dlog w)"
proof -
  obtain v where v: "wait_retry pid w = Ret (pid, st) v" "calm w v"
    using wait_retry_finds [OF assms(1-4)] by blast
  have "\<not> may_oom (mem v)" "\<forall>n. length (signal_name v n) < 2 ^ 30" using v(2) assms(5,6) by (simp_all add: calm_def)
  then obtain x m where x: "status_text st v = Ret x (v\<lparr>mem := m\<rparr>)"
    using status_text_Ret [of v st] by blast
  then show ?thesis
    using v by (cases "WIFEXITED st \<and> WEXITSTATUS st \<noteq> 0") (auto simp: startup_failed_def calm_def say_def logged_def)
qed

text \<open>C26. A parent that starts a process hears how it went, across interruptions and the ends of other children:
  0 when a byte comes through the pipe before its end or an error; otherwise, once the child has ended, the parent
  exits with the child's code when that is an error, and returns -1 when the child was killed or ended with 0.\<close>

theorem fork_and_wait_reports:
  assumes "pipes w = Some (r, t) # ps" "forks w = Inr pid # fs" "0 < pid" "r \<noteq> t"
    and "waits w = pre @ (d, Inr (pid, st)) # q" "\<forall>x \<in> set pre. noise pid x" "pid \<notin> fst ` set (zombies w)"
    and "\<not> may_oom (mem w)" "\<forall>n. length (signal_name w n) < 2 ^ 30"
  shows "\<exists>w'. fork_and_wait_for_startup w =
    (if available (uninterrupted (streams (kern w) r)) \<noteq> [] then Ret (0, pid) w'
     else if stop_code (uninterrupted (streams (kern w) r)) = 0 then Ret (0, pid) w'
     else if WIFEXITED st \<and> WEXITSTATUS st \<noteq> 0 then Exited (WEXITSTATUS st) w' else Ret (-1, pid) w')"
proof -
  let ?q = "uninterrupted (streams (kern w) r)"
  obtain v where v: "fork_and_wait_for_startup w =
      pbind (if available ?q = [] \<and> stop_code ?q \<noteq> 0 then startup_failed pid v else Ret 0 v) (\<lambda>ret w.
        Ret (ret, pid) ((d_close r w)\<lparr>daemonize_fd := -1\<rparr>))"
      "waits v = waits w" "zombies v = zombies w" "mem v = mem w" "signal_name v = signal_name w"
    using fork_and_wait_parent [OF assms(1-4)] by blast
  obtain u where "startup_failed pid v =
      (if WIFEXITED st \<and> WEXITSTATUS st \<noteq> 0 then Exited (WEXITSTATUS st) u else Ret (-1) u)"
    using startup_failed_waits [of v pre d pid st q] assms(3,5-) v(2-) by auto
  then show ?thesis using v(1) by auto
qed

text \<open>A pipe whose errors are never 0, as of a kernel that gives error numbers, stops with a code that is not 0.\<close>

lemma stop_code_nonzero: "Inl 0 \<notin> set q \<Longrightarrow> stop_code q \<noteq> 0"
  by (induction q rule: stop_code.induct) (auto simp: EOF_def)

section \<open>Every crash is followed by a restart\<close>















section \<open>A concrete world\<close>

text \<open>Sleeps are not interrupted, \<open>/dev/null\<close> cannot be opened, and descriptors 10 and 12 have a byte to read.\<close>

definition dworld0 :: "(int \<times> int) option list \<Rightarrow> (int + int) list \<Rightarrow> (nat \<times> (int + int \<times> int)) list \<Rightarrow> dworld" where
  "dworld0 ps fs ws =
     \<lparr>mem = quiet,
      kern = (kernel0 [] [])\<lparr>streams := (\<lambda>fd. if fd = 10 \<or> fd = 12 then [Inl EINTR, Inr [NUL]] else []),
        rooms := \<lambda>fd. []\<rparr>,
      pipes = ps, forks = fs, waits = ws, zombies = [], lags = [], opens = [], now = 0, naps = [], signal_name = \<lambda>n. ''SIG'', stale = 0, dlog = [],
      save_fds = [False, False, False], detach = True, daemonize_fd = -1, monitor = False, pidfile = None,
      must_not_fork = None, null_fd = 0\<rparr>"

theorem fork_and_wait_reports_witness:
  "\<exists>w'. fork_and_wait_for_startup (dworld0 [Some (20, 21)] [Inr 77] [(1, Inl EINTR), (2, Inr (76, 0)), (3, Inr (77, 0x300))]) = Exited 3 w'"
proof -
  have "WEXITSTATUS 0x300 = 3" "WIFEXITED 0x300"
    by (simp_all add: WEXITSTATUS_def WIFEXITED_def WTERMSIG_def)
  then show ?thesis
    using fork_and_wait_reports [where w = "dworld0 [Some (20, 21)] [Inr 77] [(1, Inl EINTR), (2, Inr (76, 0)), (3, Inr (77, 0x300))]"
        and r = 20 and t = 21 and ps = "[]" and pid = 77 and fs = "[]" and pre = "[(1, Inl EINTR), (2, Inr (76, 0))]" and d = 3
        and st = "0x300" and q = "[]"]
    by (simp add: dworld0_def uninterrupted_def EOF_def noise_def waits_for_def)
qed


text \<open>A fork that fails is taken for the child: the process that was started becomes a session of its own and goes on.\<close>

lemma daemonize_start_fork_fails:
  "\<exists>w'. daemonize_start (dworld0 [Some (10, 11)] [Inl 11] []) = Ret () w' \<and> Setsid \<in> set (dlog w')"
  by (simp add: daemonize_start_def daemonize_detach_def fork_and_wait_for_startup_def dworld0_def xpipe_def d_pipe_def d_open_def
      fork_and_clean_up_def xfork_at_def d_fork_def say_def logged_def set_errno_def Let_def)

end
