(* ===== verification/AtomicCell.thy ===== *)
theory AtomicCell
  imports Prelude
begin

text \<open>
  An atomic object that several threads use, for the headers of src/Clang/atomic/ovs. One thread is
  followed. The others act between its instructions: \<open>others\<close> is what they do to the object before each of its
  next accesses, and nothing when the list is used up: it is finite, so that the loops here always end, which is
  no claim about the code; endless interference is in the runs of Refcount. \<open>issued\<close> is the instructions of the thread that
  matter for the order of memory accesses.
\<close>

section \<open>Orders and instructions\<close>

datatype memory_order = memory_order_relaxed | memory_order_consume | memory_order_acquire
  | memory_order_release | memory_order_acq_rel | memory_order_seq_cst

fun order_rank :: "memory_order \<Rightarrow> nat" where
  "order_rank memory_order_relaxed = 0"
| "order_rank memory_order_consume = 1"
| "order_rank memory_order_acquire = 2"
| "order_rank memory_order_release = 3"
| "order_rank memory_order_acq_rel = 4"
| "order_rank memory_order_seq_cst = 5"

lemma order_rank_inject: "order_rank a = order_rank b \<longleftrightarrow> a = b"
  by (cases a; cases b) simp_all

instantiation memory_order :: linorder
begin

definition less_eq_memory_order :: "memory_order \<Rightarrow> memory_order \<Rightarrow> bool" where
  "less_eq_memory_order a b \<longleftrightarrow> order_rank a \<le> order_rank b"

definition less_memory_order :: "memory_order \<Rightarrow> memory_order \<Rightarrow> bool" where
  "less_memory_order a b \<longleftrightarrow> order_rank a < order_rank b"

instance
  by standard (auto simp: less_eq_memory_order_def less_memory_order_def order_rank_inject)

end

lemma memory_order_less: "a < b \<longleftrightarrow> order_rank a < order_rank b"
  by (rule less_memory_order_def)

lemma memory_order_consts [simp]:
  "\<not> memory_order_consume < memory_order_relaxed" "\<not> memory_order_consume < memory_order_consume"
  "memory_order_consume < memory_order_acquire" "memory_order_consume < memory_order_release"
  "memory_order_consume < memory_order_acq_rel" "memory_order_consume < memory_order_seq_cst"
  by (simp_all add: memory_order_less)

text \<open>
  A locked instruction tells whether its asm statement clobbers memory, so that the compiler keeps the other
  accesses on their side of it; a fence whether it is one for the processor too.
\<close>

datatype instr = Load | Store | Locked bool | Fence bool

fun is_access :: "instr \<Rightarrow> bool" where
  "is_access (Fence b) = False"
| "is_access i = True"

fun orders :: "instr \<Rightarrow> bool" where
  "orders (Locked m) = m"
| "orders (Fence b) = True"
| "orders i = False"

text \<open>What keeps later accesses after the last access of a sequence, and earlier ones before it.\<close>

definition acquires :: "instr list \<Rightarrow> bool" where
  "acquires is \<longleftrightarrow> (let r = rev is; n = length (takeWhile (\<lambda>i. \<not> is_access i) r) in list_ex orders (take (Suc n) r))"

definition releases :: "instr list \<Rightarrow> bool" where
  "releases is \<longleftrightarrow> list_ex orders (dropWhile (\<lambda>i. \<not> is_access i) (rev is))"

definition acquire_order :: "memory_order \<Rightarrow> bool" where
  "acquire_order m \<longleftrightarrow> m = memory_order_acquire \<or> m = memory_order_acq_rel \<or> m = memory_order_seq_cst"

definition release_order :: "memory_order \<Rightarrow> bool" where
  "release_order m \<longleftrightarrow> m = memory_order_release \<or> m = memory_order_acq_rel \<or> m = memory_order_seq_cst"

lemma strong_orders: "acquire_order m \<or> release_order m \<longleftrightarrow> memory_order_consume < m"
  by (cases m) (simp_all add: acquire_order_def release_order_def)

lemma UNIV_memory_order: "(UNIV :: memory_order set) = {memory_order_relaxed, memory_order_consume,
    memory_order_acquire, memory_order_release, memory_order_acq_rel, memory_order_seq_cst}"
  using memory_order.exhaust by auto

lemma acquires_snoc_access [simp]: "is_access i \<Longrightarrow> acquires (is @ [i]) \<longleftrightarrow> orders i"
  by (simp add: acquires_def)

lemma releases_snoc_access [simp]: "is_access i \<Longrightarrow> orders i \<Longrightarrow> releases (is @ [i])"
  by (simp add: releases_def)

lemma fence_keeps [simp]: "acquires (is @ [Fence b])" "releases (is @ [Fence b]) \<longleftrightarrow> releases is"
  by (simp_all add: acquires_def releases_def)

section \<open>The object\<close>

record 'v cell =
  obj :: 'v
  others :: "('v \<Rightarrow> 'v) list"
  issued :: "instr list"

definition issue :: "instr \<Rightarrow> 'v cell \<Rightarrow> 'v cell" where
  "issue i c = c\<lparr>issued := issued c @ [i]\<rparr>"

definition interfere :: "'v cell \<Rightarrow> 'v cell" where
  "interfere c = (case others c of [] \<Rightarrow> c | f # fs \<Rightarrow> c\<lparr>obj := f (obj c), others := fs\<rparr>)"

text \<open>The object after \<open>k\<close> actions of the other threads.\<close>

definition after :: "nat \<Rightarrow> 'v cell \<Rightarrow> 'v" where
  "after k c = foldl (\<lambda>v f. f v) (obj c) (take k (others c))"

text \<open>The accesses of the x86 processors.\<close>

definition mov_load :: "'v cell \<Rightarrow> 'v \<times> 'v cell" where
  "mov_load c = (let c = interfere c in (obj c, issue Load c))"

definition mov_store :: "'v \<Rightarrow> 'v cell \<Rightarrow> 'v cell" where
  "mov_store v c = issue Store ((interfere c)\<lparr>obj := v\<rparr>)"

definition xchg :: "bool \<Rightarrow> 'v \<Rightarrow> 'v cell \<Rightarrow> 'v \<times> 'v cell" where
  "xchg mem v c = (let c = interfere c in (obj c, issue (Locked mem) (c\<lparr>obj := v\<rparr>)))"

definition xadd :: "bool \<Rightarrow> 'a::len word \<Rightarrow> 'a word cell \<Rightarrow> 'a word \<times> 'a word cell" where
  "xadd mem v c = (let c = interfere c in (obj c, issue (Locked mem) (c\<lparr>obj := obj c + v\<rparr>)))"

text \<open>The flag, what the accumulator holds afterwards, and the object.\<close>

definition cmpxchg :: "bool \<Rightarrow> 'v \<Rightarrow> 'v \<Rightarrow> 'v cell \<Rightarrow> bool \<times> 'v \<times> 'v cell" where
  "cmpxchg mem acc v c =
     (let c = interfere c in
      if obj c = acc then (True, acc, issue (Locked mem) (c\<lparr>obj := v\<rparr>))
      else (False, obj c, issue (Locked mem) c))"

lemma issue_simps [simp]:
  "obj (issue i c) = obj c" "others (issue i c) = others c" "issued (issue i c) = issued c @ [i]"
  by (simp_all add: issue_def)

lemma interfere_simps [simp]:
  "issued (interfere c) = issued c" "others (interfere c) = tl (others c)"
  "obj (interfere c) = (case others c of [] \<Rightarrow> obj c | f # fs \<Rightarrow> f (obj c))"
  by (simp_all add: interfere_def split: list.split)

lemma interfere_none [simp]: "others c = [] \<Longrightarrow> interfere c = c"
  by (simp add: interfere_def)

lemma after_0 [simp]: "after 0 c = obj c"
  by (simp add: after_def)

lemma after_none [simp]: "others c = [] \<Longrightarrow> after k c = obj c"
  by (simp add: after_def)

section \<open>One atomic step\<close>

text \<open>
  \<open>at_once f c v c'\<close>: after some actions of the other threads the object held \<open>v\<close>, the thread put \<open>f v\<close> in its
  place in one step, and the rest of the actions is still to come.
\<close>

definition at_once :: "('v \<Rightarrow> 'v) \<Rightarrow> 'v cell \<Rightarrow> 'v \<Rightarrow> 'v cell \<Rightarrow> bool" where
  "at_once f c v c' \<longleftrightarrow> (\<exists>k \<le> length (others c). v = after k c \<and> obj c' = f v \<and> others c' = drop k (others c))"

lemma at_onceI: "k \<le> length (others c) \<Longrightarrow> v = after k c \<Longrightarrow> obj c' = f v \<Longrightarrow> others c' = drop k (others c) \<Longrightarrow> at_once f c v c'"
  by (auto simp: at_once_def)

lemma at_once_next:
  assumes "v = obj (interfere c)" "obj c' = f v" "others c' = tl (others c)"
  shows "at_once f c v c'"
  using assms by (intro at_onceI [of "min 1 (length (others c))"]) (auto simp: after_def drop_Suc split: list.splits)

lemma at_once_alone: "at_once f c v c' \<Longrightarrow> others c = [] \<Longrightarrow> v = obj c \<and> obj c' = f (obj c) \<and> others c' = []"
  by (auto simp: at_once_def)

lemma after_interfere: "after (Suc k) c = after k (interfere c)"
  by (cases "others c") (simp_all add: after_def)

text \<open>What was done after a first access is done after the whole.\<close>

lemma at_once_later:
  assumes "at_once f c1 v c'" "obj c1 = obj (interfere c)" "others c1 = tl (others c)"
  shows "at_once f c v c'"
proof -
  obtain k where k: "k \<le> length (others c1)" "v = after k c1" "obj c' = f v" "others c' = drop k (others c1)"
    using assms(1) by (auto simp: at_once_def)
  show ?thesis
  proof (cases "others c")
    case Nil
    then show ?thesis using k assms(2,3) by (intro at_onceI [of 0]) (simp_all add: after_def)
  next
    case (Cons f fs)
    then show ?thesis using k assms(2,3)
      by (intro at_onceI [of "Suc k"]) (simp_all add: after_def)
  qed
qed

lemma at_once_trans:
  assumes "at_once (\<lambda>v. v) c u c1" "at_once f c1 v c'"
  shows "at_once f c v c'"
proof -
  obtain k where k: "k \<le> length (others c)" "u = after k c" "obj c1 = u" "others c1 = drop k (others c)"
    using assms(1) by (auto simp: at_once_def)
  obtain j where j: "j \<le> length (others c1)" "v = after j c1" "obj c' = f v" "others c' = drop j (others c1)"
    using assms(2) by (auto simp: at_once_def)
  show ?thesis
  proof (rule at_onceI [of "k + j"])
    show "v = after (k + j) c" using k j by (simp add: after_def take_add)
  qed (use k j in \<open>auto simp: add.commute\<close>)
qed

lemma at_once_cong: "at_once f c v c' \<Longrightarrow> obj c2 = obj c' \<Longrightarrow> others c2 = others c' \<Longrightarrow> at_once f c v c2"
  by (simp add: at_once_def)

section \<open>The loop around a compare and exchange\<close>

text \<open>
  The loop that tries to replace what was read by a function of it until nobody else came between. Every
  failure uses up an action of the others or reads what is there, so the loop ends when they pause.
\<close>

function cas_loop :: "bool \<Rightarrow> ('v \<Rightarrow> 'v) \<Rightarrow> 'v \<Rightarrow> 'v cell \<Rightarrow> 'v \<times> 'v cell" where
  "cas_loop mem f v c =
     (case cmpxchg mem v (f v) c of (done, v', c') \<Rightarrow>
      if done then (v', c') else cas_loop mem f v' c')"
  by pat_completeness auto
termination
  by (relation "measure (\<lambda>(mem, f, v, c). 2 * length (others c) + (if obj c = v then 0 else 1))")
    (auto simp: cmpxchg_def Let_def split: if_splits list.splits)

declare cas_loop.simps [simp del]

lemma cas_loop_at_once: "case cas_loop mem f v c of (w, c') \<Rightarrow> at_once f c w c' \<and> (\<exists>is. issued c' = issued c @ is @ [Locked mem])"
proof (induction mem f v c rule: cas_loop.induct)
  case (1 mem f v c)
  show ?case
  proof (cases "obj (interfere c) = v")
    case True
    then show ?thesis
      by (subst cas_loop.simps) (auto simp: cmpxchg_def Let_def intro!: at_once_next)
  next
    case False
    let ?c = "issue (Locked mem) (interfere c)"
    have x: "cmpxchg mem v (f v) c = (False, obj (interfere c), ?c)"
      using False by (simp add: cmpxchg_def Let_def del: interfere_simps)
    have "case cas_loop mem f (obj (interfere c)) ?c of (w, c') \<Rightarrow>
        at_once f ?c w c' \<and> (\<exists>is. issued c' = issued ?c @ is @ [Locked mem])"
      by (rule 1 [OF x [symmetric] refl]) simp
    then show ?thesis
      by (subst cas_loop.simps) (auto simp: x intro: at_once_later split: prod.splits)
  qed
qed

lemma cas_loop_alone: "others c = [] \<Longrightarrow> cas_loop mem f (obj c) c = (obj c, issue (Locked mem) (c\<lparr>obj := f (obj c)\<rparr>))"
  by (subst cas_loop.simps) (simp add: cmpxchg_def Let_def)

section \<open>Arguments of C\<close>

text \<open>
  The operand of an arithmetic operation is an expression of its own type: signed or not, its bits, its value.
\<close>

datatype c_int = CInt (c_signed: bool) (c_bits: nat) (c_val: int)

definition c_int_ok :: "c_int \<Rightarrow> bool" where
  "c_int_ok a \<longleftrightarrow> 0 < c_bits a \<and> (if c_signed a then - (2 ^ (c_bits a - 1)) \<le> c_val a \<and> c_val a < 2 ^ (c_bits a - 1)
     else 0 \<le> c_val a \<and> c_val a < 2 ^ c_bits a)"

definition c_promote :: "c_int \<Rightarrow> c_int" where
  "c_promote a = (if c_bits a < 32 then CInt True 32 (c_val a) else a)"

text \<open>The minus of C: it overflows for the least signed value, and wraps in the width of an unsigned type.\<close>

definition c_minus :: "c_int \<Rightarrow> c_int cres" where
  "c_minus a =
     (case c_promote a of CInt s n v \<Rightarrow>
      if s then res_bind (no_ub (v \<noteq> - (2 ^ (n - 1)))) (\<lambda>_. Ok (CInt s n (- v)))
      else Ok (CInt s n ((- v) mod 2 ^ n)))"

definition c_to_word :: "c_int \<Rightarrow> 'a::len word" where
  "c_to_word a = of_int (c_val a)"

definition c_lit :: "int \<Rightarrow> c_int" where
  "c_lit v = CInt True 32 v"

lemma c_minus_lit [simp]: "v \<noteq> - 2147483648 \<Longrightarrow> c_minus (c_lit v) = Ok (c_lit (- v))"
  by (simp add: c_minus_def c_lit_def c_promote_def)

lemma c_to_word_lit [simp]: "c_to_word (c_lit v) = of_int v"
  by (simp add: c_to_word_def c_lit_def)

end
