(* ===== verification/AtomicApi.thy ===== *)
theory AtomicApi
  imports AtomicCell
begin

text \<open>
  What the rest of ovs-atomic.h uses of the header that it includes, and the laws that it relies on. The client
  (src/Clang/atomic/ovs/ovs-atomic.h, main.c) is written once for all of them.
\<close>

record 'v atomics =
  at_store :: "'v \<Rightarrow> memory_order \<Rightarrow> 'v cell \<Rightarrow> 'v cell"
  at_read :: "memory_order \<Rightarrow> 'v cell \<Rightarrow> 'v \<times> 'v cell"
  at_cas :: "'v \<Rightarrow> 'v \<Rightarrow> memory_order \<Rightarrow> memory_order \<Rightarrow> 'v cell \<Rightarrow> bool \<times> 'v \<times> 'v cell"
  at_add :: "c_int \<Rightarrow> memory_order \<Rightarrow> 'v cell \<Rightarrow> 'v \<times> 'v cell"
  at_sub :: "c_int \<Rightarrow> memory_order \<Rightarrow> 'v cell \<Rightarrow> ('v \<times> 'v cell) cres"
  at_or :: "c_int \<Rightarrow> memory_order \<Rightarrow> 'v cell \<Rightarrow> 'v \<times> 'v cell"
  at_xor :: "c_int \<Rightarrow> memory_order \<Rightarrow> 'v cell \<Rightarrow> 'v \<times> 'v cell"
  at_and :: "c_int \<Rightarrow> memory_order \<Rightarrow> 'v cell \<Rightarrow> 'v \<times> 'v cell"
  at_fence :: "memory_order \<Rightarrow> 'v cell \<Rightarrow> 'v cell"

text \<open>The instructions that an operation added to a sequence.\<close>

definition added :: "'v cell \<Rightarrow> 'v cell \<Rightarrow> instr list" where
  "added c c' = drop (length (issued c)) (issued c')"

lemma added_append [simp]: "issued c' = issued c @ is \<Longrightarrow> added c c' = is"
  by (simp add: added_def)

section \<open>Each operation is one step\<close>

locale atomic_values =
  fixes A :: "'a::len word atomics"
  assumes store: "\<exists>w. at_once (\<lambda>_. v) c w (at_store A v m c)"
    and read: "at_read A m c = (w, c') \<Longrightarrow> at_once (\<lambda>v. v) c w c'"
    and cas: "at_cas A e v m m' c = (ok, w, c') \<Longrightarrow>
      w = obj (interfere c) \<and> (ok \<longleftrightarrow> w = e) \<and> obj c' = (if ok then v else w) \<and> others c' = tl (others c)"
    and add: "at_add A arg m c = (w, c') \<Longrightarrow> at_once (\<lambda>v. v + c_to_word arg) c w c'"
    and sub: "- 2147483648 < i \<Longrightarrow> i < 2147483648 \<Longrightarrow>
      \<exists>w c'. at_sub A (c_lit i) m c = Ok (w, c') \<and> at_once (\<lambda>v. v - of_int i) c w c'"
    and bit_or: "at_or A arg m c = (w, c') \<Longrightarrow> at_once (\<lambda>v. v OR c_to_word arg) c w c'"
    and bit_xor: "at_xor A arg m c = (w, c') \<Longrightarrow> at_once (\<lambda>v. v XOR c_to_word arg) c w c'"
    and bit_and: "at_and A arg m c = (w, c') \<Longrightarrow> at_once (\<lambda>v. v AND c_to_word arg) c w c'"
    and fence: "obj (at_fence A m c) = obj c" "others (at_fence A m c) = others c"
begin

lemma alone:
  assumes "others c = []"
  shows "obj (at_store A v m c) = v" "others (at_store A v m c) = []"
    and "\<exists>c'. at_read A m c = (obj c, c') \<and> obj c' = obj c \<and> others c' = []"
    and "\<exists>c'. at_add A (c_lit i) m c = (obj c, c') \<and> obj c' = obj c + of_int i \<and> others c' = []"
    and "\<exists>c'. at_or A (c_lit i) m c = (obj c, c') \<and> obj c' = obj c OR of_int i \<and> others c' = []"
    and "\<exists>c'. at_xor A (c_lit i) m c = (obj c, c') \<and> obj c' = obj c XOR of_int i \<and> others c' = []"
    and "\<exists>c'. at_and A (c_lit i) m c = (obj c, c') \<and> obj c' = obj c AND of_int i \<and> others c' = []"
proof -
  show "obj (at_store A v m c) = v" "others (at_store A v m c) = []"
    using store [of v c m] assms by (auto dest: at_once_alone)
  show "\<exists>c'. at_read A m c = (obj c, c') \<and> obj c' = obj c \<and> others c' = []"
    by (cases "at_read A m c") (use read [of m c] assms in \<open>auto dest: at_once_alone\<close>)
  show "\<exists>c'. at_add A (c_lit i) m c = (obj c, c') \<and> obj c' = obj c + of_int i \<and> others c' = []"
    by (cases "at_add A (c_lit i) m c") (use add [of "c_lit i" m c] assms in \<open>auto dest: at_once_alone\<close>)
  show "\<exists>c'. at_or A (c_lit i) m c = (obj c, c') \<and> obj c' = obj c OR of_int i \<and> others c' = []"
    by (cases "at_or A (c_lit i) m c") (use bit_or [of "c_lit i" m c] assms in \<open>auto dest: at_once_alone\<close>)
  show "\<exists>c'. at_xor A (c_lit i) m c = (obj c, c') \<and> obj c' = obj c XOR of_int i \<and> others c' = []"
    by (cases "at_xor A (c_lit i) m c") (use bit_xor [of "c_lit i" m c] assms in \<open>auto dest: at_once_alone\<close>)
  show "\<exists>c'. at_and A (c_lit i) m c = (obj c, c') \<and> obj c' = obj c AND of_int i \<and> others c' = []"
    by (cases "at_and A (c_lit i) m c") (use bit_and [of "c_lit i" m c] assms in \<open>auto dest: at_once_alone\<close>)
qed

lemma sub_alone:
  assumes "others c = []" "- 2147483648 < i" "i < 2147483648"
  shows "\<exists>c'. at_sub A (c_lit i) m c = Ok (obj c, c') \<and> obj c' = obj c - of_int i \<and> others c' = []"
  using sub [OF assms(2,3), of m c] assms(1) by (auto dest: at_once_alone)

end

section \<open>Each operation keeps the order that it was given\<close>

locale atomic_header = atomic_values +
  assumes store_order: "release_order m \<Longrightarrow> releases (added c (at_store A v m c))"
    and read_order: "acquire_order m \<Longrightarrow> at_read A m c = (w, c') \<Longrightarrow> acquires (added c c')"
    and cas_order: "at_cas A e v m m' c = (ok, w, c') \<Longrightarrow>
      (acquire_order m \<longrightarrow> acquires (added c c')) \<and> (release_order m \<longrightarrow> releases (added c c'))"
    and add_order: "at_add A arg m c = (w, c') \<Longrightarrow>
      (acquire_order m \<longrightarrow> acquires (added c c')) \<and> (release_order m \<longrightarrow> releases (added c c'))"
    and sub_order: "at_sub A arg m c = Ok (w, c') \<Longrightarrow>
      (acquire_order m \<longrightarrow> acquires (added c c')) \<and> (release_order m \<longrightarrow> releases (added c c'))"
    and sub_issued: "at_sub A arg m c = Ok (w, c') \<Longrightarrow> \<exists>is. issued c' = issued c @ is"
    and fence_order: "acquire_order m \<Longrightarrow> \<exists>b. issued (at_fence A m c) = issued c @ [Fence b]"

end
