(* ===== verification/AtomicX64.thy ===== *)
theory AtomicX64
  imports AtomicApi
begin

text \<open>
  The primitives of src/Clang/atomic/ovs/ovs-atomic-x86_64.h on objects of an unsigned type of any width. An
  object of a smaller type than an operand takes the low bits of it, as the conversions of C give them.
\<close>

section \<open>Barriers\<close>

definition compiler_barrier :: "'v cell \<Rightarrow> 'v cell" where
  "compiler_barrier = issue (Fence False)"

definition cpu_barrier :: "'v cell \<Rightarrow> 'v cell" where
  "cpu_barrier = issue (Fence True)"

definition atomic_compiler_barrier :: "memory_order \<Rightarrow> 'v cell \<Rightarrow> 'v cell" where
  "atomic_compiler_barrier order c = (if order > memory_order_consume then compiler_barrier c else c)"

definition atomic_thread_fence :: "memory_order \<Rightarrow> 'v cell \<Rightarrow> 'v cell" where
  "atomic_thread_fence order c = (if order = memory_order_seq_cst then cpu_barrier c else atomic_compiler_barrier order c)"

definition atomic_signal_fence :: "memory_order \<Rightarrow> 'v cell \<Rightarrow> 'v cell" where
  "atomic_signal_fence order c = atomic_compiler_barrier order c"

section \<open>Stores, reads and exchanges\<close>

definition atomic_init :: "'v \<Rightarrow> 'v cell \<Rightarrow> 'v cell" where
  "atomic_init v c = c\<lparr>obj := v\<rparr>"

definition atomic_exchange :: "'v \<Rightarrow> memory_order \<Rightarrow> 'v cell \<Rightarrow> 'v \<times> 'v cell" where
  "atomic_exchange src order c =
     (if order > memory_order_consume then xchg True src c else xchg False src c)"

definition atomic_store_explicit :: "'v \<Rightarrow> memory_order \<Rightarrow> 'v cell \<Rightarrow> 'v cell" where
  "atomic_store_explicit src order c =
     (if order \<noteq> memory_order_seq_cst then mov_store src (atomic_compiler_barrier order c)
      else snd (atomic_exchange src order c))"

definition atomic_store :: "'v \<Rightarrow> 'v cell \<Rightarrow> 'v cell" where
  "atomic_store src c = atomic_store_explicit src memory_order_seq_cst c"

definition atomic_read_explicit :: "memory_order \<Rightarrow> 'v cell \<Rightarrow> 'v \<times> 'v cell" where
  "atomic_read_explicit order c = (case mov_load c of (v, c) \<Rightarrow> (v, atomic_compiler_barrier order c))"

definition atomic_read :: "'v cell \<Rightarrow> 'v \<times> 'v cell" where
  "atomic_read c = atomic_read_explicit memory_order_seq_cst c"

text \<open>The result, what \<open>*EXP\<close> holds afterwards, and the object.\<close>

definition atomic_compare_exchange_strong_explicit ::
    "'v \<Rightarrow> 'v \<Rightarrow> memory_order \<Rightarrow> memory_order \<Rightarrow> 'v cell \<Rightarrow> bool \<times> 'v \<times> 'v cell" where
  "atomic_compare_exchange_strong_explicit expd src order ord_fail c =
     (case (if order > memory_order_consume then cmpxchg True expd src c else cmpxchg False expd src c) of
        (res, acc, c) \<Rightarrow> (res, if \<not> res then acc else expd, c))"

definition atomic_compare_exchange_strong :: "'v \<Rightarrow> 'v \<Rightarrow> 'v cell \<Rightarrow> bool \<times> 'v \<times> 'v cell" where
  "atomic_compare_exchange_strong expd src c =
     atomic_compare_exchange_strong_explicit expd src memory_order_seq_cst memory_order_seq_cst c"

definition atomic_compare_exchange_weak_explicit ::
    "'v \<Rightarrow> 'v \<Rightarrow> memory_order \<Rightarrow> memory_order \<Rightarrow> 'v cell \<Rightarrow> bool \<times> 'v \<times> 'v cell" where
  "atomic_compare_exchange_weak_explicit = atomic_compare_exchange_strong_explicit"

lemma cas_eq: "atomic_compare_exchange_weak_explicit v w order fail c = cmpxchg (memory_order_consume < order) v w c"
  by (simp add: atomic_compare_exchange_weak_explicit_def atomic_compare_exchange_strong_explicit_def cmpxchg_def Let_def)

section \<open>Read, modify, write\<close>

definition atomic_add_explicit :: "c_int \<Rightarrow> memory_order \<Rightarrow> 'a::len word cell \<Rightarrow> 'a word \<times> 'a word cell" where
  "atomic_add_explicit arg order c =
     (if order > memory_order_consume then xadd True (c_to_word arg) c else xadd False (c_to_word arg) c)"

definition atomic_add :: "c_int \<Rightarrow> 'a::len word cell \<Rightarrow> 'a word \<times> 'a word cell" where
  "atomic_add arg c = atomic_add_explicit arg memory_order_seq_cst c"

definition atomic_sub_explicit :: "c_int \<Rightarrow> memory_order \<Rightarrow> 'a::len word cell \<Rightarrow> ('a word \<times> 'a word cell) cres" where
  "atomic_sub_explicit arg order c = res_bind (c_minus arg) (\<lambda>m. Ok (atomic_add_explicit m order c))"

definition atomic_sub :: "c_int \<Rightarrow> 'a::len word cell \<Rightarrow> ('a word \<times> 'a word cell) cres" where
  "atomic_sub arg c = atomic_sub_explicit arg memory_order_seq_cst c"

text \<open>The loop of \<open>atomic_op__\<close>: \<open>val__\<close> is what the last comparison left in it.\<close>

function atomic_op_loop :: "('v \<Rightarrow> 'v) \<Rightarrow> memory_order \<Rightarrow> 'v \<Rightarrow> 'v cell \<Rightarrow> 'v \<times> 'v cell" where
  "atomic_op_loop f order val c =
     (case atomic_compare_exchange_weak_explicit val (f val) order memory_order_relaxed c of (done, val', c') \<Rightarrow>
      if done then (val', c') else atomic_op_loop f order val' c')"
  by pat_completeness auto
termination
  by (relation "measure (\<lambda>(f, order, v, c). 2 * length (others c) + (if obj c = v then 0 else 1))")
    (auto simp: cas_eq cmpxchg_def Let_def split: if_splits list.splits)

declare atomic_op_loop.simps [simp del]

definition atomic_op :: "('v \<Rightarrow> 'v) \<Rightarrow> memory_order \<Rightarrow> 'v cell \<Rightarrow> 'v \<times> 'v cell" where
  "atomic_op f order c = (case atomic_read_explicit memory_order_relaxed c of (val, c) \<Rightarrow> atomic_op_loop f order val c)"

definition atomic_or_explicit :: "c_int \<Rightarrow> memory_order \<Rightarrow> 'a::len word cell \<Rightarrow> 'a word \<times> 'a word cell" where
  "atomic_or_explicit arg order c = atomic_op (\<lambda>v. v OR c_to_word arg) order c"

definition atomic_or :: "c_int \<Rightarrow> 'a::len word cell \<Rightarrow> 'a word \<times> 'a word cell" where
  "atomic_or arg c = atomic_or_explicit arg memory_order_seq_cst c"

definition atomic_xor_explicit :: "c_int \<Rightarrow> memory_order \<Rightarrow> 'a::len word cell \<Rightarrow> 'a word \<times> 'a word cell" where
  "atomic_xor_explicit arg order c = atomic_op (\<lambda>v. v XOR c_to_word arg) order c"

definition atomic_xor :: "c_int \<Rightarrow> 'a::len word cell \<Rightarrow> 'a word \<times> 'a word cell" where
  "atomic_xor arg c = atomic_xor_explicit arg memory_order_seq_cst c"

definition atomic_and_explicit :: "c_int \<Rightarrow> memory_order \<Rightarrow> 'a::len word cell \<Rightarrow> 'a word \<times> 'a word cell" where
  "atomic_and_explicit arg order c = atomic_op (\<lambda>v. v AND c_to_word arg) order c"

definition atomic_and :: "c_int \<Rightarrow> 'a::len word cell \<Rightarrow> 'a word \<times> 'a word cell" where
  "atomic_and arg c = atomic_and_explicit arg memory_order_seq_cst c"

section \<open>The flag\<close>

definition ATOMIC_FLAG_INIT :: "u32" where "ATOMIC_FLAG_INIT = 0"

definition atomic_flag_test_and_set_explicit :: "memory_order \<Rightarrow> u32 cell \<Rightarrow> bool \<times> u32 cell" where
  "atomic_flag_test_and_set_explicit order flag = (case atomic_exchange 1 order flag of (old, flag) \<Rightarrow> (old \<noteq> 0, flag))"

definition atomic_flag_test_and_set :: "u32 cell \<Rightarrow> bool \<times> u32 cell" where
  "atomic_flag_test_and_set flag = atomic_flag_test_and_set_explicit memory_order_seq_cst flag"

definition atomic_flag_clear_explicit :: "memory_order \<Rightarrow> u32 cell \<Rightarrow> u32 cell" where
  "atomic_flag_clear_explicit order flag = atomic_store_explicit 0 order flag"

definition atomic_flag_clear :: "u32 cell \<Rightarrow> u32 cell" where
  "atomic_flag_clear flag = atomic_flag_clear_explicit memory_order_seq_cst flag"

section \<open>The relaxed operations of ovs-atomic.h\<close>

definition atomic_store_relaxed :: "'v \<Rightarrow> 'v cell \<Rightarrow> 'v cell" where
  "atomic_store_relaxed v c = atomic_store_explicit v memory_order_relaxed c"

definition atomic_read_relaxed :: "'v cell \<Rightarrow> 'v \<times> 'v cell" where
  "atomic_read_relaxed c = atomic_read_explicit memory_order_relaxed c"

definition atomic_add_relaxed :: "c_int \<Rightarrow> 'a::len word cell \<Rightarrow> 'a word \<times> 'a word cell" where
  "atomic_add_relaxed arg c = atomic_add_explicit arg memory_order_relaxed c"

definition atomic_sub_relaxed :: "c_int \<Rightarrow> 'a::len word cell \<Rightarrow> ('a word \<times> 'a word cell) cres" where
  "atomic_sub_relaxed arg c = atomic_sub_explicit arg memory_order_relaxed c"

section \<open>Each is one step\<close>

lemma atomic_exchange_at_once:
  "case atomic_exchange v order c of (w, c') \<Rightarrow> at_once (\<lambda>_. v) c w c' \<and> issued c' = issued c @ [Locked (memory_order_consume < order)]"
  by (auto simp: atomic_exchange_def xchg_def Let_def intro!: at_once_next)

lemma atomic_read_at_once:
  "case atomic_read_explicit order c of (w, c') \<Rightarrow> at_once (\<lambda>v. v) c w c' \<and>
     issued c' = issued c @ [Load] @ (if memory_order_consume < order then [Fence False] else [])"
  by (auto simp: atomic_read_explicit_def mov_load_def atomic_compiler_barrier_def compiler_barrier_def Let_def intro!: at_once_next)

lemma atomic_store_at_once:
  "\<exists>w. at_once (\<lambda>_. v) c w (atomic_store_explicit v order c)"
  by (rule exI [of _ "obj (interfere c)"], rule at_once_next)
    (auto simp: atomic_store_explicit_def atomic_exchange_def xchg_def mov_store_def atomic_compiler_barrier_def
      compiler_barrier_def Let_def)

lemma atomic_store_issued:
  "issued (atomic_store_explicit v order c) = issued c @
     (if order = memory_order_seq_cst then [Locked True]
      else (if memory_order_consume < order then [Fence False] else []) @ [Store])"
  by (simp add: atomic_store_explicit_def atomic_exchange_def xchg_def mov_store_def atomic_compiler_barrier_def
      compiler_barrier_def Let_def)

lemma atomic_add_at_once:
  "case atomic_add_explicit arg order c of (w, c') \<Rightarrow> at_once (\<lambda>v. v + c_to_word arg) c w c' \<and>
     issued c' = issued c @ [Locked (memory_order_consume < order)]"
  by (auto simp: atomic_add_explicit_def xadd_def Let_def intro!: at_once_next)

lemma atomic_op_loop_eq: "atomic_op_loop f order v c = cas_loop (memory_order_consume < order) f v c"
proof (induction f order v c rule: atomic_op_loop.induct)
  case (1 f order v c)
  show ?case
    using 1 [unfolded cas_eq]
    by (subst atomic_op_loop.simps, subst cas_loop.simps) (auto simp: cas_eq split: prod.splits)
qed

lemma atomic_op_at_once:
  "case atomic_op f order c of (w, c') \<Rightarrow> at_once f c w c' \<and> (\<exists>is. issued c' = issued c @ is @ [Locked (memory_order_consume < order)])"
proof -
  obtain v c1 where r: "atomic_read_explicit memory_order_relaxed c = (v, c1)" by fastforce
  then have c1: "obj c1 = obj (interfere c)" "others c1 = tl (others c)" "issued c1 = issued c @ [Load]"
    by (auto simp: atomic_read_explicit_def mov_load_def atomic_compiler_barrier_def Let_def)
  show ?thesis
    using cas_loop_at_once [where mem = "memory_order_consume < order" and f = f and v = v and c = c1] c1
    by (auto simp: atomic_op_def r atomic_op_loop_eq intro: at_once_later split: prod.splits)
qed

section \<open>The header\<close>

definition x86_64 :: "'a::len word atomics" where
  "x86_64 = \<lparr>at_store = atomic_store_explicit, at_read = atomic_read_explicit, at_cas = atomic_compare_exchange_weak_explicit,
     at_add = atomic_add_explicit, at_sub = atomic_sub_explicit, at_or = atomic_or_explicit, at_xor = atomic_xor_explicit,
     at_and = atomic_and_explicit, at_fence = atomic_thread_fence\<rparr>"

lemma x86_64_simps [simp]:
  "at_store x86_64 = atomic_store_explicit" "at_read x86_64 = atomic_read_explicit"
  "at_cas x86_64 = atomic_compare_exchange_weak_explicit" "at_add x86_64 = atomic_add_explicit"
  "at_sub x86_64 = atomic_sub_explicit" "at_or x86_64 = atomic_or_explicit" "at_xor x86_64 = atomic_xor_explicit"
  "at_and x86_64 = atomic_and_explicit" "at_fence x86_64 = atomic_thread_fence"
  by (simp_all add: x86_64_def)

lemma cmpxchg_step:
  assumes "cmpxchg mem e v c = (ok, w, c')"
  shows "w = obj (interfere c) \<and> (ok \<longleftrightarrow> w = e) \<and> obj c' = (if ok then v else w) \<and> others c' = tl (others c) \<and>
    issued c' = issued c @ [Locked mem]"
  using assms by (auto simp: cmpxchg_def Let_def split: if_splits)

lemma locked_order:
  "issued c' = issued c @ is @ [Locked (memory_order_consume < m)] \<Longrightarrow>
   (acquire_order m \<longrightarrow> acquires (added c c')) \<and> (release_order m \<longrightarrow> releases (added c c'))"
  using strong_orders [of m] by (auto simp: added_def)

text \<open>A subtraction adds the negated operand, so it is right when the minus is not taken in a narrower unsigned type.\<close>

lemma atomic_sub_at_once:
  assumes "c_minus arg = Ok n" "c_to_word n = (- c_to_word arg :: 'a::len word)"
  shows "\<exists>w c'. atomic_sub_explicit arg m (c :: 'a word cell) = Ok (w, c') \<and> at_once (\<lambda>v. v - c_to_word arg) c w c'"
  using atomic_add_at_once [where arg = n and order = m and c = c] assms by (auto simp: atomic_sub_explicit_def split: prod.splits)

interpretation x64: atomic_values x86_64
proof (unfold_locales, goal_cases)
  case (1 v c m)
  then show ?case using atomic_store_at_once by simp
next
  case (2 m c w c')
  then show ?case using atomic_read_at_once [where order = m and c = c] by simp
next
  case (3 e v m m' c ok w c')
  then show ?case using cmpxchg_step [of "memory_order_consume < m" e v c ok w c'] by (simp add: cas_eq)
next
  case (4 arg m c w c')
  then show ?case using atomic_add_at_once [where arg = arg and order = m and c = c] by simp
next
  case (5 i m c)
  then show ?case using atomic_sub_at_once [of "c_lit i" "c_lit (- i)" m c] by simp
next
  case (6 arg m c w c')
  then show ?case using atomic_op_at_once [where f = "\<lambda>v. v OR c_to_word arg" and order = m and c = c] by (simp add: atomic_or_explicit_def)
next
  case (7 arg m c w c')
  then show ?case using atomic_op_at_once [where f = "\<lambda>v. v XOR c_to_word arg" and order = m and c = c] by (simp add: atomic_xor_explicit_def)
next
  case (8 arg m c w c')
  then show ?case using atomic_op_at_once [where f = "\<lambda>v. v AND c_to_word arg" and order = m and c = c] by (simp add: atomic_and_explicit_def)
qed (simp_all add: atomic_thread_fence_def atomic_compiler_barrier_def cpu_barrier_def compiler_barrier_def)

lemma store_order_x86_64: "release_order m \<Longrightarrow> releases (added c (atomic_store_explicit v m c))"
  unfolding added_append [OF atomic_store_issued]
  by (cases m) (simp_all add: release_order_def releases_def)

lemma read_order_x86_64: "acquire_order m \<Longrightarrow> atomic_read_explicit m c = (w, c') \<Longrightarrow> acquires (added c c')"
  using atomic_read_at_once [where order = m and c = c] strong_orders [of m] by (auto simp: acquires_def)

interpretation x64: atomic_header x86_64
proof (unfold_locales, goal_cases)
  case (1 m c v)
  then show ?case by (simp add: store_order_x86_64)
next
  case (2 m c w c')
  then show ?case by (simp add: read_order_x86_64)
next
  case (3 e v m m' c ok w c')
  then show ?case using cmpxchg_step [of "memory_order_consume < m" e v c] locked_order [of c' c "[]"] by (simp add: cas_eq)
next
  case (4 arg m c w c')
  then show ?case using atomic_add_at_once [where arg = arg and order = m and c = c] locked_order [of c' c "[]"] by simp
next
  case (5 arg m c w c')
  then obtain n where "atomic_add_explicit n m c = (w, c')"
    by (auto simp: atomic_sub_explicit_def res_bind_Ok_iff)
  then show ?case using atomic_add_at_once [where arg = n and order = m and c = c] locked_order [of c' c "[]"] by simp
next
  case (6 arg m c w c')
  then obtain n where "atomic_add_explicit n m c = (w, c')"
    by (auto simp: atomic_sub_explicit_def res_bind_Ok_iff)
  then show ?case using atomic_add_at_once [where arg = n and order = m and c = c] by simp
next
  case (7 m c)
  then show ?case by (cases m) (auto simp: acquire_order_def atomic_thread_fence_def atomic_compiler_barrier_def
      cpu_barrier_def compiler_barrier_def)
qed

end
