(* ===== verification/AtomicI586.thy ===== *)
theory AtomicI586
  imports AtomicX64
begin

text \<open>
  The primitives of src/Clang/atomic/ovs/ovs-atomic-i586.h, for 32-bit processors, where objects of eight bytes need
  the locked \<open>cmpxchg8b\<close> or the registers of SSE. \<open>sse\<close> says whether the build has SSE, \<open>junk\<close> what the two registers
  hold that \<open>atomic_read_8__\<close> compares with. The variants for position-independent code save a register
  around the same instructions. Barriers and fences are as for x86-64; the fence of the processor is a
  locked addition.
\<close>

definition sizeof :: "'a::len word cell \<Rightarrow> nat" where
  "sizeof c = LENGTH('a) div 8"

section \<open>Eight bytes\<close>

text \<open>
  The exchange compares with the new value itself: the first comparison mostly fails and leaves what is there.
\<close>

function exchange_8_loop :: "bool \<Rightarrow> 'v \<Rightarrow> 'v \<Rightarrow> 'v cell \<Rightarrow> 'v \<times> 'v cell" where
  "exchange_8_loop mem acc src c =
     (case cmpxchg mem acc src c of (zf, acc', c') \<Rightarrow>
      if zf then (acc', c') else exchange_8_loop mem acc' src c')"
  by pat_completeness auto
termination
  by (relation "measure (\<lambda>(mem, v, src, c). 2 * length (others c) + (if obj c = v then 0 else 1))")
    (auto simp: cmpxchg_def Let_def split: if_splits list.splits)

declare exchange_8_loop.simps [simp del]

definition atomic_exchange_8 :: "bool \<Rightarrow> 'v \<Rightarrow> 'v cell \<Rightarrow> 'v \<times> 'v cell" where
  "atomic_exchange_8 mem src c = exchange_8_loop mem src src c"

definition atomic_store_8 :: "bool \<Rightarrow> 'v \<Rightarrow> 'v cell \<Rightarrow> 'v cell" where
  "atomic_store_8 sse src c = (if sse then mov_store src c else snd (atomic_exchange_8 False src c))"

definition atomic_read_8 :: "bool \<Rightarrow> 'v \<Rightarrow> 'v cell \<Rightarrow> 'v \<times> 'v cell" where
  "atomic_read_8 sse junk c =
     (if sse then mov_load c else (case cmpxchg False junk junk c of (zf, res, c) \<Rightarrow> (res, c)))"

definition atomic_compare_exchange_8 :: "bool \<Rightarrow> 'v \<Rightarrow> 'v \<Rightarrow> 'v cell \<Rightarrow> bool \<times> 'v \<times> 'v cell" where
  "atomic_compare_exchange_8 mem expd src c = cmpxchg mem expd src c"

section \<open>Every size\<close>

definition atomic_exchange_i586 :: "'a::len word \<Rightarrow> memory_order \<Rightarrow> 'a word cell \<Rightarrow> 'a word \<times> 'a word cell" where
  "atomic_exchange_i586 src order c =
     (if order > memory_order_consume then
        if sizeof c = 8 then atomic_exchange_8 True src c else xchg True src c
      else
        if sizeof c = 8 then atomic_exchange_8 False src c else xchg False src c)"

definition atomic_store_i586 :: "bool \<Rightarrow> 'a::len word \<Rightarrow> memory_order \<Rightarrow> 'a word cell \<Rightarrow> 'a word cell" where
  "atomic_store_i586 sse src order c =
     (if order \<noteq> memory_order_seq_cst then
        let c = atomic_compiler_barrier order c in
        if sizeof c = 8 then atomic_store_8 sse src c else mov_store src c
      else snd (atomic_exchange_i586 src order c))"

definition atomic_read_i586 :: "bool \<Rightarrow> 'a word \<Rightarrow> memory_order \<Rightarrow> 'a::len word cell \<Rightarrow> 'a word \<times> 'a word cell" where
  "atomic_read_i586 sse junk order c =
     (case (if sizeof c \<le> 4 then mov_load c else atomic_read_8 sse junk c) of (v, c) \<Rightarrow>
      (v, atomic_compiler_barrier order c))"

definition atomic_cas_i586 ::
    "'a::len word \<Rightarrow> 'a word \<Rightarrow> memory_order \<Rightarrow> memory_order \<Rightarrow> 'a word cell \<Rightarrow> bool \<times> 'a word \<times> 'a word cell" where
  "atomic_cas_i586 expd src order ord_fail c =
     (case (if order > memory_order_consume then
              if sizeof c \<le> 4 then cmpxchg True expd src c else atomic_compare_exchange_8 True expd src c
            else
              if sizeof c \<le> 4 then cmpxchg False expd src c else atomic_compare_exchange_8 False expd src c) of
        (res, acc, c) \<Rightarrow> (res, if \<not> res then acc else expd, c))"

lemma cas_i586_eq: "atomic_cas_i586 v w order fail c = cmpxchg (memory_order_consume < order) v w c"
  by (simp add: atomic_cas_i586_def atomic_compare_exchange_8_def cmpxchg_def Let_def)

definition atomic_add_32 :: "c_int \<Rightarrow> memory_order \<Rightarrow> 'a::len word cell \<Rightarrow> 'a word \<times> 'a word cell" where
  "atomic_add_32 arg order c =
     (if order > memory_order_consume then xadd True (c_to_word arg) c else xadd False (c_to_word arg) c)"

function op_loop_i586 :: "('a::len word \<Rightarrow> 'a word) \<Rightarrow> memory_order \<Rightarrow> 'a word \<Rightarrow> 'a word cell \<Rightarrow> 'a word \<times> 'a word cell" where
  "op_loop_i586 f order val c =
     (case atomic_cas_i586 val (f val) order memory_order_relaxed c of (done, val', c') \<Rightarrow>
      if done then (val', c') else op_loop_i586 f order val' c')"
  by pat_completeness auto
termination
  by (relation "measure (\<lambda>(f, order, v, c). 2 * length (others c) + (if obj c = v then 0 else 1))")
    (auto simp: cas_i586_eq cmpxchg_def Let_def split: if_splits list.splits)

declare op_loop_i586.simps [simp del]

definition atomic_op_i586 ::
    "bool \<Rightarrow> 'a word \<Rightarrow> ('a::len word \<Rightarrow> 'a word) \<Rightarrow> memory_order \<Rightarrow> 'a word cell \<Rightarrow> 'a word \<times> 'a word cell" where
  "atomic_op_i586 sse junk f order c =
     (case atomic_read_i586 sse junk memory_order_relaxed c of (val, c) \<Rightarrow> op_loop_i586 f order val c)"

definition atomic_add_i586 :: "bool \<Rightarrow> 'a word \<Rightarrow> c_int \<Rightarrow> memory_order \<Rightarrow> 'a::len word cell \<Rightarrow> 'a word \<times> 'a word cell" where
  "atomic_add_i586 sse junk arg order c =
     (if sizeof c \<le> 4 then atomic_add_32 arg order c else atomic_op_i586 sse junk (\<lambda>v. v + c_to_word arg) order c)"

definition atomic_sub_i586 ::
    "bool \<Rightarrow> 'a word \<Rightarrow> c_int \<Rightarrow> memory_order \<Rightarrow> 'a::len word cell \<Rightarrow> ('a word \<times> 'a word cell) cres" where
  "atomic_sub_i586 sse junk arg order c =
     (if sizeof c \<le> 4 then res_bind (c_minus arg) (\<lambda>m. Ok (atomic_add_32 m order c))
      else Ok (atomic_op_i586 sse junk (\<lambda>v. v - c_to_word arg) order c))"

definition atomic_or_i586 :: "bool \<Rightarrow> 'a word \<Rightarrow> c_int \<Rightarrow> memory_order \<Rightarrow> 'a::len word cell \<Rightarrow> 'a word \<times> 'a word cell" where
  "atomic_or_i586 sse junk arg order c = atomic_op_i586 sse junk (\<lambda>v. v OR c_to_word arg) order c"

definition atomic_xor_i586 :: "bool \<Rightarrow> 'a word \<Rightarrow> c_int \<Rightarrow> memory_order \<Rightarrow> 'a::len word cell \<Rightarrow> 'a word \<times> 'a word cell" where
  "atomic_xor_i586 sse junk arg order c = atomic_op_i586 sse junk (\<lambda>v. v XOR c_to_word arg) order c"

definition atomic_and_i586 :: "bool \<Rightarrow> 'a word \<Rightarrow> c_int \<Rightarrow> memory_order \<Rightarrow> 'a::len word cell \<Rightarrow> 'a word \<times> 'a word cell" where
  "atomic_and_i586 sse junk arg order c = atomic_op_i586 sse junk (\<lambda>v. v AND c_to_word arg) order c"

definition i586 :: "bool \<Rightarrow> 'a word \<Rightarrow> 'a::len word atomics" where
  "i586 sse junk = \<lparr>at_store = atomic_store_i586 sse, at_read = atomic_read_i586 sse junk, at_cas = atomic_cas_i586,
     at_add = atomic_add_i586 sse junk, at_sub = atomic_sub_i586 sse junk, at_or = atomic_or_i586 sse junk,
     at_xor = atomic_xor_i586 sse junk, at_and = atomic_and_i586 sse junk, at_fence = atomic_thread_fence\<rparr>"

lemma i586_simps [simp]:
  "at_store (i586 sse junk) = atomic_store_i586 sse" "at_read (i586 sse junk) = atomic_read_i586 sse junk"
  "at_cas (i586 sse junk) = atomic_cas_i586" "at_add (i586 sse junk) = atomic_add_i586 sse junk"
  "at_sub (i586 sse junk) = atomic_sub_i586 sse junk" "at_or (i586 sse junk) = atomic_or_i586 sse junk"
  "at_xor (i586 sse junk) = atomic_xor_i586 sse junk" "at_and (i586 sse junk) = atomic_and_i586 sse junk"
  "at_fence (i586 sse junk) = atomic_thread_fence"
  by (simp_all add: i586_def)

section \<open>Each is one step\<close>

lemma exchange_8_loop_eq: "exchange_8_loop mem v src c = cas_loop mem (\<lambda>_. src) v c"
proof (induction mem v src c rule: exchange_8_loop.induct)
  case (1 mem v src c)
  then show ?case
    by (subst exchange_8_loop.simps, subst cas_loop.simps) (auto split: prod.splits)
qed

lemma atomic_exchange_8_at_once:
  "case atomic_exchange_8 mem v c of (w, c') \<Rightarrow> at_once (\<lambda>_. v) c w c' \<and> (\<exists>is. issued c' = issued c @ is @ [Locked mem])"
  unfolding atomic_exchange_8_def exchange_8_loop_eq by (rule cas_loop_at_once)

lemma exchange_i586_at_once:
  "case atomic_exchange_i586 v order c of (w, c') \<Rightarrow> at_once (\<lambda>_. v) c w c' \<and>
     (\<exists>is. issued c' = issued c @ is @ [Locked (memory_order_consume < order)])"
proof (cases "sizeof c = 8")
  case True
  then show ?thesis
    using atomic_exchange_8_at_once [where mem = "memory_order_consume < order" and v = v and c = c]
    by (auto simp: atomic_exchange_i586_def split: if_splits)
next
  case False
  then show ?thesis by (auto simp: atomic_exchange_i586_def xchg_def Let_def intro!: at_once_next)
qed

text \<open>The read of eight bytes may write, but what it writes is what it found.\<close>

lemma read_8_step:
  "case atomic_read_8 sse junk c of (v, c') \<Rightarrow> v = obj (interfere c) \<and> obj c' = v \<and> others c' = tl (others c) \<and>
     (\<exists>i. issued c' = issued c @ [i] \<and> is_access i)"
  by (auto simp: atomic_read_8_def mov_load_def cmpxchg_def Let_def)

lemma read_i586_step:
  assumes "atomic_read_i586 sse junk order c = (v, c')"
  shows "v = obj (interfere c) \<and> obj c' = v \<and> others c' = tl (others c) \<and>
    (\<exists>i. issued c' = issued c @ [i] @ (if memory_order_consume < order then [Fence False] else []) \<and> is_access i)"
proof -
  obtain w c1 where r: "(if sizeof c \<le> 4 then mov_load c else atomic_read_8 sse junk c) = (w, c1)" by fastforce
  then have "w = obj (interfere c) \<and> obj c1 = w \<and> others c1 = tl (others c) \<and> (\<exists>i. issued c1 = issued c @ [i] \<and> is_access i)"
    using read_8_step [where sse = sse and junk = junk and c = c] by (auto simp: mov_load_def Let_def split: if_splits)
  then show ?thesis
    using assms by (auto simp: atomic_read_i586_def r atomic_compiler_barrier_def compiler_barrier_def)
qed

lemma store_i586_at_once: "\<exists>w. at_once (\<lambda>_. v) c w (atomic_store_i586 sse v order c)"
proof -
  obtain w c' where x: "atomic_exchange_i586 v order c = (w, c')" by fastforce
  let ?b = "atomic_compiler_barrier order c"
  obtain w8 c8 where x8: "atomic_exchange_8 False v ?b = (w8, c8)" by fastforce
  have b: "obj ?b = obj c" "others ?b = others c"
    by (simp_all add: atomic_compiler_barrier_def compiler_barrier_def)
  have "at_once (\<lambda>_. v) ?b w8 c8"
    using atomic_exchange_8_at_once [where mem = False and v = v and c = ?b] by (simp add: x8)
  then have e8: "at_once (\<lambda>_. v) c w8 c8" by (simp add: at_once_def after_def b)
  have m: "at_once (\<lambda>_. v) c (obj (interfere c)) (mov_store v ?b)"
    by (rule at_once_next) (simp_all add: mov_store_def b)
  have "at_once (\<lambda>_. v) c w c'"
    using exchange_i586_at_once [where v = v and order = order and c = c] by (simp add: x)
  then show ?thesis
    using e8 m unfolding atomic_store_i586_def atomic_store_8_def Let_def x8 x by (cases "order = memory_order_seq_cst") auto
qed

lemma store_i586_issued:
  assumes "release_order order"
  shows "releases (added c (atomic_store_i586 sse v order c))"
proof (cases "order = memory_order_seq_cst")
  case True
  then show ?thesis
    using exchange_i586_at_once [where v = v and order = order and c = c]
    by (auto simp: atomic_store_i586_def added_def split: prod.splits)
next
  case False
  then have o: "memory_order_consume < order" using assms strong_orders by blast
  obtain w8 c8 where x8: "atomic_exchange_8 False v (compiler_barrier c) = (w8, c8)" by fastforce
  have "\<exists>is. issued c8 = issued (compiler_barrier c) @ is @ [Locked False]"
    using atomic_exchange_8_at_once [where mem = False and v = v and c = "compiler_barrier c"] by (simp add: x8)
  then obtain js where js: "issued c8 = issued c @ Fence False # js @ [Locked False]" by (auto simp: compiler_barrier_def)
  have "\<exists>is i. issued (atomic_store_i586 sse v order c) = issued c @ Fence False # is @ [i] \<and> is_access i"
  proof (cases "sizeof c = 8 \<and> \<not> sse")
    case True
    then have "atomic_store_i586 sse v order c = c8"
      using False o by (simp add: atomic_store_i586_def atomic_store_8_def atomic_compiler_barrier_def sizeof_def x8)
    then show ?thesis using js by (intro exI [of _ js] exI [of _ "Locked False"]) simp
  next
    case no: False
    then have "atomic_store_i586 sse v order c = mov_store v (compiler_barrier c)"
      using False o by (auto simp: atomic_store_i586_def atomic_store_8_def atomic_compiler_barrier_def sizeof_def Let_def)
    then show ?thesis
      by (intro exI [of _ "[]"] exI [of _ Store]) (simp add: mov_store_def compiler_barrier_def)
  qed
  then obtain js i where "added c (atomic_store_i586 sse v order c) = Fence False # js @ [i]" "is_access i"
    by (auto simp: added_def)
  then show ?thesis by (simp add: releases_def)
qed

lemma add_32_at_once:
  "atomic_add_32 arg order c = (w, c') \<Longrightarrow> at_once (\<lambda>v. v + c_to_word arg) c w c' \<and>
     (\<exists>is. issued c' = issued c @ is @ [Locked (memory_order_consume < order)])"
  by (auto simp: atomic_add_32_def xadd_def Let_def intro!: at_once_next split: if_splits)

lemma op_loop_i586_eq: "op_loop_i586 f order v c = cas_loop (memory_order_consume < order) f v c"
proof (induction f order v c rule: op_loop_i586.induct)
  case (1 f order v c)
  show ?case
    using 1 [unfolded cas_i586_eq]
    by (subst op_loop_i586.simps, subst cas_loop.simps) (auto simp: cas_i586_eq split: prod.splits)
qed

lemma op_i586_at_once:
  assumes "atomic_op_i586 sse junk f order c = (w, c')"
  shows "at_once f c w c' \<and> (\<exists>is. issued c' = issued c @ is @ [Locked (memory_order_consume < order)])"
proof -
  obtain v c1 where r: "atomic_read_i586 sse junk memory_order_relaxed c = (v, c1)" by fastforce
  then have c1: "obj c1 = obj (interfere c)" "others c1 = tl (others c)" "\<exists>i. issued c1 = issued c @ [i]"
    using read_i586_step [OF r] by auto
  show ?thesis
    using cas_loop_at_once [where mem = "memory_order_consume < order" and f = f and v = v and c = c1] c1 assms
    by (auto simp: atomic_op_i586_def r op_loop_i586_eq intro: at_once_later)
qed

section \<open>The header\<close>

lemma add_i586_at_once:
  "atomic_add_i586 sse junk arg order c = (w, c') \<Longrightarrow> at_once (\<lambda>v. v + c_to_word arg) c w c' \<and>
     (\<exists>is. issued c' = issued c @ is @ [Locked (memory_order_consume < order)])"
  unfolding atomic_add_i586_def by (auto dest: add_32_at_once op_i586_at_once split: if_splits)

lemma sub_i586_at_once:
  assumes "sizeof c \<le> 4 \<longrightarrow> c_minus arg = Ok n \<and> c_to_word n = (- c_to_word arg :: 'a::len word)"
  shows "\<exists>w c'. atomic_sub_i586 sse junk arg order (c :: 'a word cell) = Ok (w, c') \<and> at_once (\<lambda>v. v - c_to_word arg) c w c'"
proof (cases "sizeof c \<le> 4")
  case True
  obtain w c' where "atomic_add_32 n order c = (w, c')" by fastforce
  then show ?thesis using True assms add_32_at_once by (fastforce simp: atomic_sub_i586_def)
next
  case False
  obtain w c' where "atomic_op_i586 sse junk (\<lambda>v. v - c_to_word arg) order c = (w, c')" by fastforce
  then show ?thesis using False op_i586_at_once by (fastforce simp: atomic_sub_i586_def)
qed

lemma sub_i586_issued:
  assumes "atomic_sub_i586 sse junk arg order c = Ok (w, c')"
  shows "\<exists>is. issued c' = issued c @ is @ [Locked (memory_order_consume < order)]"
  using assms by (auto simp: atomic_sub_i586_def res_bind_Ok_iff dest: add_32_at_once op_i586_at_once split: if_splits)

interpretation i586: atomic_values "i586 sse junk" for sse junk
proof (unfold_locales, goal_cases)
  case (1 v c m)
  then show ?case using store_i586_at_once by simp
next
  case (2 m c w c')
  then show ?case using read_i586_step [of sse junk m c w c'] by (auto intro!: at_once_next)
next
  case (3 e v m m' c ok w c')
  then show ?case using cmpxchg_step [of "memory_order_consume < m" e v c ok w c'] by (simp add: cas_i586_eq)
next
  case (4 arg m c w c')
  then show ?case by (auto dest: add_i586_at_once)
next
  case (5 i m c)
  then show ?case using sub_i586_at_once [where arg = "c_lit i" and n = "c_lit (- i)" and order = m and c = c] by simp
qed (auto simp: atomic_or_i586_def atomic_xor_i586_def atomic_and_i586_def atomic_thread_fence_def atomic_compiler_barrier_def
    cpu_barrier_def compiler_barrier_def dest: op_i586_at_once)

interpretation i586: atomic_header "i586 sse junk" for sse junk
proof (unfold_locales, goal_cases)
  case (1 m c v)
  then show ?case by (simp add: store_i586_issued)
next
  case (2 m c w c')
  then show ?case using read_i586_step [of sse junk m c w c'] strong_orders [of m]
    by (auto simp: acquires_def added_def)
next
  case (3 e v m m' c ok w c')
  then show ?case using cmpxchg_step [of "memory_order_consume < m" e v c] locked_order [of c' c "[]"] by (simp add: cas_i586_eq)
next
  case (4 arg m c w c')
  then obtain js where "issued c' = issued c @ js @ [Locked (memory_order_consume < m)]" using add_i586_at_once by fastforce
  then show ?case by (rule locked_order)
next
  case (5 arg m c w c')
  then obtain js where "issued c' = issued c @ js @ [Locked (memory_order_consume < m)]" using sub_i586_issued by fastforce
  then show ?case by (rule locked_order)
next
  case (6 arg m c w c')
  then show ?case using sub_i586_issued by fastforce
next
  case (7 m c)
  then show ?case using x64.fence_order by simp
qed

section \<open>Subtraction\<close>

text \<open>The minus of an operand, in the object's width: in an unsigned type it is too large by that type's modulus.\<close>

definition minus_excess :: "c_int \<Rightarrow> 'a::len word" where
  "minus_excess arg = (if \<not> c_signed (c_promote arg) \<and> c_val arg \<noteq> 0 then 2 ^ c_bits arg else 0)"

lemma minus_excess_0: "c_signed (c_promote arg) \<or> LENGTH('a) \<le> c_bits arg \<Longrightarrow> minus_excess arg = (0 :: 'a::len word)"
  by (auto simp: minus_excess_def exp_eq_zero_iff possible_bit_word)

lemma c_to_word_minus:
  assumes "c_int_ok arg" "c_minus arg = Ok n"
  shows "c_to_word n = (- c_to_word arg + minus_excess arg :: 'a::len word)"
proof (cases "c_signed (c_promote arg)")
  case True
  then show ?thesis
    using assms(2) by (auto simp: c_minus_def c_to_word_def c_promote_def minus_excess_def res_bind_Ok_iff no_ub_def
      split: c_int.splits if_splits)
next
  case False
  then have "n = CInt False (c_bits arg) ((- c_val arg) mod 2 ^ c_bits arg)"
    using assms(2) by (cases arg) (auto simp: c_minus_def c_promote_def split: if_splits)
  moreover have "(- c_val arg) mod 2 ^ c_bits arg = (if c_val arg = 0 then 0 else 2 ^ c_bits arg - c_val arg)"
    using False assms(1) by (auto simp: zmod_zminus1_eq_if c_int_ok_def c_promote_def split: if_splits)
  ultimately show ?thesis using False by (simp add: c_to_word_def minus_excess_def)
qed

text \<open>C40. On x86-64 the subtraction is one atomic step that takes the operand away, but for an operand of an unsigned
  type narrower than the object it puts the modulus of that type back: the minus is taken in the operand's type.\<close>

theorem atomic_sub_explicit_operand:
  assumes "c_int_ok arg" "atomic_sub_explicit arg m c = Ok (w, c')"
  shows "at_once (\<lambda>v. v - c_to_word arg + minus_excess arg) c w c'"
proof -
  obtain n where n: "c_minus arg = Ok n" "atomic_add_explicit n m c = (w, c')"
    using assms(2) by (auto simp: atomic_sub_explicit_def res_bind_Ok_iff)
  then have "at_once (\<lambda>v. v + c_to_word n) c w c'"
    using atomic_add_at_once [where arg = n and order = m and c = c] by simp
  then show ?thesis by (simp add: c_to_word_minus [OF assms(1) n(1)] add_diff_eq diff_add_eq)
qed

theorem atomic_sub_explicit_operand_witness:
  "\<exists>w c'. atomic_sub_explicit (CInt False 32 1) memory_order_relaxed \<lparr>obj = 5 :: u64, others = [], issued = []\<rparr> = Ok (w, c') \<and>
     obj c' = 4294967300"
proof -
  have ok: "c_int_ok (CInt False 32 1)" by (simp add: c_int_ok_def)
  obtain w c' where x: "atomic_sub_explicit (CInt False 32 1) memory_order_relaxed \<lparr>obj = 5 :: u64, others = [], issued = []\<rparr> = Ok (w, c')"
    by (simp add: atomic_sub_explicit_def c_minus_def c_promote_def atomic_add_explicit_def xadd_def Let_def)
  show ?thesis
    using atomic_sub_explicit_operand [OF ok x] x
    by (auto simp: at_once_def minus_excess_def c_promote_def c_to_word_def)
qed

text \<open>The loop of i586 subtracts in the width of eight bytes, so that it is right for every operand.\<close>

lemma atomic_sub_i586_operand:
  assumes "c_int_ok arg" "atomic_sub_i586 sse junk arg m (c :: 'a::len word cell) = Ok (w, c')" "LENGTH('a) \<in> {8, 16, 32, 64}"
  shows "at_once (\<lambda>v. v - c_to_word arg) c w c'"
proof -
  have "c_to_word n = (- c_to_word arg :: 'a word)" if "sizeof c \<le> 4" "c_minus arg = Ok n" for n
    using c_to_word_minus [where 'a = 'a, OF assms(1) that(2)] minus_excess_0 [where 'a = 'a and arg = arg] that(1) assms(3)
    by (cases "c_bits arg < 32") (auto simp: sizeof_def c_promote_def)
  moreover have "\<exists>n. c_minus arg = Ok n" if "sizeof c \<le> 4"
    using assms(2) that by (auto simp: atomic_sub_i586_def res_bind_Ok_iff)
  ultimately obtain n where "sizeof c \<le> 4 \<longrightarrow> c_minus arg = Ok n \<and> c_to_word n = (- c_to_word arg :: 'a word)"
    by blast
  from sub_i586_at_once [OF this, of sse junk m] assms(2) show ?thesis by auto
qed

end
