(* ===== verification/AtomicGcc.thy ===== *)
theory AtomicGcc
  imports AtomicI586
begin

text \<open>
  The primitives of src/Clang/atomic/ovs/ovs-atomic-gcc4+.h, on the \<open>__sync\<close> functions of the compiler, which are
  full barriers, with \<open>__sync_lock_test_and_set\<close> an acquiring and \<open>__sync_lock_release\<close> a releasing one. \<open>ptr\<close> is the
  size of a pointer. Larger objects go to functions of ovs-atomic-locked.h, which is not in the repository:
  they are the argument \<open>L\<close>.
\<close>

record 'v locked =
  lk_store :: "'v \<Rightarrow> 'v cell \<Rightarrow> 'v cell"
  lk_read :: "'v cell \<Rightarrow> 'v \<times> 'v cell"
  lk_op :: "('v \<Rightarrow> 'v) \<Rightarrow> 'v cell \<Rightarrow> 'v \<times> 'v cell"

section \<open>The compiler's functions\<close>

definition sync_synchronize :: "'v cell \<Rightarrow> 'v cell" where
  "sync_synchronize = issue (Fence True)"

definition sync_val_compare_and_swap :: "'v \<Rightarrow> 'v \<Rightarrow> 'v cell \<Rightarrow> 'v \<times> 'v cell" where
  "sync_val_compare_and_swap e v c =
     (let c = interfere c in (obj c, issue (Locked True) (if obj c = e then c\<lparr>obj := v\<rparr> else c)))"

definition sync_fetch_and :: "('v \<Rightarrow> 'v) \<Rightarrow> 'v cell \<Rightarrow> 'v \<times> 'v cell" where
  "sync_fetch_and f c = (let c = interfere c in (obj c, issue (Locked True) (c\<lparr>obj := f (obj c)\<rparr>)))"

definition sync_lock_test_and_set :: "'v \<Rightarrow> 'v cell \<Rightarrow> 'v \<times> 'v cell" where
  "sync_lock_test_and_set v c =
     (let c = interfere c in (obj c, issue (Fence False) (issue (Locked False) (c\<lparr>obj := v\<rparr>))))"

definition sync_lock_release :: "'v::zero cell \<Rightarrow> 'v cell" where
  "sync_lock_release c = mov_store 0 (issue (Fence False) c)"

section \<open>The header\<close>

definition IS_LOCKLESS_ATOMIC :: "nat \<Rightarrow> 'a::len word cell \<Rightarrow> bool" where
  "IS_LOCKLESS_ATOMIC ptr c \<longleftrightarrow> sizeof c \<le> ptr"

definition atomic_thread_fence_gcc :: "memory_order \<Rightarrow> 'v cell \<Rightarrow> 'v cell" where
  "atomic_thread_fence_gcc order c = (if order \<noteq> memory_order_relaxed then sync_synchronize c else c)"

definition atomic_thread_fence_if_seq_cst :: "memory_order \<Rightarrow> 'v cell \<Rightarrow> 'v cell" where
  "atomic_thread_fence_if_seq_cst order c = (if order = memory_order_seq_cst then sync_synchronize c else c)"

definition atomic_signal_fence_gcc :: "memory_order \<Rightarrow> 'v cell \<Rightarrow> 'v cell" where
  "atomic_signal_fence_gcc order c = (if order \<noteq> memory_order_relaxed then issue (Fence False) c else c)"

definition atomic_store_gcc :: "nat \<Rightarrow> 'a word locked \<Rightarrow> 'a::len word \<Rightarrow> memory_order \<Rightarrow> 'a word cell \<Rightarrow> 'a word cell" where
  "atomic_store_gcc ptr L src order c =
     (if IS_LOCKLESS_ATOMIC ptr c then
        atomic_thread_fence_if_seq_cst order (mov_store src (atomic_thread_fence_gcc order c))
      else lk_store L src c)"

definition atomic_read_gcc :: "nat \<Rightarrow> 'a word locked \<Rightarrow> memory_order \<Rightarrow> 'a::len word cell \<Rightarrow> 'a word \<times> 'a word cell" where
  "atomic_read_gcc ptr L order c =
     (if IS_LOCKLESS_ATOMIC ptr c then mov_load (atomic_thread_fence_if_seq_cst order c) else lk_read L c)"

definition atomic_cas_gcc :: "'v \<Rightarrow> 'v \<Rightarrow> memory_order \<Rightarrow> memory_order \<Rightarrow> 'v cell \<Rightarrow> bool \<times> 'v \<times> 'v cell" where
  "atomic_cas_gcc expd src ord1 ord2 c =
     (case sync_val_compare_and_swap expd src c of (ret, c) \<Rightarrow> (ret = expd, if ret \<noteq> expd then ret else expd, c))"

definition atomic_op_gcc :: "nat \<Rightarrow> 'a word locked \<Rightarrow> ('a::len word \<Rightarrow> 'a word) \<Rightarrow> 'a word cell \<Rightarrow> 'a word \<times> 'a word cell" where
  "atomic_op_gcc ptr L f c = (if IS_LOCKLESS_ATOMIC ptr c then sync_fetch_and f c else lk_op L f c)"

definition gcc4p :: "nat \<Rightarrow> 'a word locked \<Rightarrow> 'a::len word atomics" where
  "gcc4p ptr L = \<lparr>at_store = atomic_store_gcc ptr L, at_read = atomic_read_gcc ptr L, at_cas = atomic_cas_gcc,
     at_add = (\<lambda>arg order. atomic_op_gcc ptr L (\<lambda>v. v + c_to_word arg)),
     at_sub = (\<lambda>arg order c. Ok (atomic_op_gcc ptr L (\<lambda>v. v - c_to_word arg) c)),
     at_or = (\<lambda>arg order. atomic_op_gcc ptr L (\<lambda>v. v OR c_to_word arg)),
     at_xor = (\<lambda>arg order. atomic_op_gcc ptr L (\<lambda>v. v XOR c_to_word arg)),
     at_and = (\<lambda>arg order. atomic_op_gcc ptr L (\<lambda>v. v AND c_to_word arg)),
     at_fence = atomic_thread_fence_gcc\<rparr>"

definition atomic_flag_test_and_set_gcc :: "memory_order \<Rightarrow> u32 cell \<Rightarrow> bool \<times> u32 cell" where
  "atomic_flag_test_and_set_gcc order object =
     (let object = (if order > memory_order_acquire then atomic_thread_fence_gcc order object else object) in
      case sync_lock_test_and_set 1 object of (old, object) \<Rightarrow>
      (old \<noteq> 0, atomic_thread_fence_if_seq_cst order object))"

definition atomic_flag_clear_gcc :: "memory_order \<Rightarrow> u32 cell \<Rightarrow> u32 cell" where
  "atomic_flag_clear_gcc order object =
     (let object = (if order \<noteq> memory_order_release then atomic_thread_fence_gcc order object else object) in
      atomic_thread_fence_if_seq_cst order (sync_lock_release object))"

section \<open>Each is one step\<close>

lemma fence_gcc_simps [simp]:
  "obj (atomic_thread_fence_gcc m c) = obj c" "others (atomic_thread_fence_gcc m c) = others c"
  "obj (atomic_thread_fence_if_seq_cst m c) = obj c" "others (atomic_thread_fence_if_seq_cst m c) = others c"
  by (simp_all add: atomic_thread_fence_gcc_def atomic_thread_fence_if_seq_cst_def sync_synchronize_def)

lemma op_gcc_at_once: "IS_LOCKLESS_ATOMIC ptr c \<Longrightarrow> atomic_op_gcc ptr L f c = (w, c') \<Longrightarrow> at_once f c w c'"
  by (auto simp: atomic_op_gcc_def sync_fetch_and_def Let_def intro!: at_once_next)

lemma lockless_u32 [simp]: "IS_LOCKLESS_ATOMIC 8 (c :: u32 cell)"
  by (simp add: IS_LOCKLESS_ATOMIC_def sizeof_def)

interpretation gcc4: atomic_values "gcc4p 8 L :: u32 atomics" for L
proof (unfold_locales, goal_cases)
  case (1 v c m)
  show ?case
    by (rule exI [of _ "obj (interfere c)"], rule at_once_next)
      (simp_all add: gcc4p_def atomic_store_gcc_def mov_store_def)
next
  case (2 m c w c')
  then show ?case by (auto simp: gcc4p_def atomic_read_gcc_def mov_load_def Let_def intro!: at_once_next split: list.splits)
next
  case (3 e v m m' c ok w c')
  then show ?case by (auto simp: gcc4p_def atomic_cas_gcc_def sync_val_compare_and_swap_def Let_def)
next
  case (5 i m c)
  obtain w c' where "atomic_op_gcc 8 L (\<lambda>v. v - of_int i) c = (w, c')" by fastforce
  then show ?case by (auto simp: gcc4p_def dest: op_gcc_at_once [OF lockless_u32])
qed (auto simp: gcc4p_def dest: op_gcc_at_once [OF lockless_u32])

text \<open>
  With the functions of the compiler a read in the order acquire is a bare load that keeps nothing behind it.
\<close>

theorem atomic_read_gcc_not_acquiring:
  assumes "IS_LOCKLESS_ATOMIC ptr c" "m \<noteq> memory_order_seq_cst"
  shows "\<not> acquires (added c (snd (atomic_read_gcc ptr L m c)))"
  using assms by (simp add: atomic_read_gcc_def mov_load_def atomic_thread_fence_if_seq_cst_def Let_def added_def acquires_def)

theorem atomic_read_gcc_not_acquiring_witness:
  "\<not> acquires (added \<lparr>obj = 7 :: u32, others = [], issued = []\<rparr>
     (snd (atomic_read_gcc 8 \<lparr>lk_store = (\<lambda>v c. c), lk_read = mov_load, lk_op = sync_fetch_and\<rparr> memory_order_acquire
       \<lparr>obj = 7, others = [], issued = []\<rparr>)))"
  using atomic_read_gcc_not_acquiring [of 8 "\<lparr>obj = 7 :: u32, others = [], issued = []\<rparr>" memory_order_acquire
      "\<lparr>lk_store = (\<lambda>v c. c), lk_read = mov_load, lk_op = sync_fetch_and\<rparr>"] by simp

end
