(* ===== verification/Refcount.thy ===== *)
theory Refcount
  imports AtomicGcc
begin

text \<open>
  The counters and reference counts of src/Clang/atomic/ovs/ovs-atomic.h, on any of its headers. \<open>ovs_assert\<close> is
  a macro that evaluates its condition and does nothing with it: the checks after an operation are no steps.
\<close>

section \<open>Counters\<close>

definition atomic_count_init :: "u32 \<Rightarrow> u32 cell \<Rightarrow> u32 cell" where
  "atomic_count_init v count = atomic_init v count"

definition atomic_count_inc :: "u32 atomics \<Rightarrow> u32 cell \<Rightarrow> u32 \<times> u32 cell" where
  "atomic_count_inc A count = at_add A (c_lit 1) memory_order_relaxed count"

definition atomic_count_dec :: "u32 atomics \<Rightarrow> u32 cell \<Rightarrow> (u32 \<times> u32 cell) cres" where
  "atomic_count_dec A count = at_sub A (c_lit 1) memory_order_relaxed count"

definition atomic_count_get :: "u32 atomics \<Rightarrow> u32 cell \<Rightarrow> u32 \<times> u32 cell" where
  "atomic_count_get A count = at_read A memory_order_relaxed count"

definition atomic_count_set :: "u32 atomics \<Rightarrow> u32 \<Rightarrow> u32 cell \<Rightarrow> u32 cell" where
  "atomic_count_set A v count = at_store A v memory_order_relaxed count"

section \<open>Reference counts\<close>

definition ovs_refcount_init :: "u32 cell \<Rightarrow> u32 cell" where
  "ovs_refcount_init refcount = atomic_init 1 refcount"

definition ovs_refcount_ref :: "u32 atomics \<Rightarrow> u32 cell \<Rightarrow> u32 cell" where
  "ovs_refcount_ref A refcount = (case at_add A (c_lit 1) memory_order_relaxed refcount of (old, refcount) \<Rightarrow> refcount)"

definition ovs_refcount_unref :: "u32 atomics \<Rightarrow> u32 cell \<Rightarrow> (u32 \<times> u32 cell) cres" where
  "ovs_refcount_unref A refcount =
     res_bind (at_sub A (c_lit 1) memory_order_release refcount) (\<lambda>(old, refcount).
     Ok (old, if old = 1 then at_fence A memory_order_acquire refcount else refcount))"

definition ovs_refcount_unref_relaxed :: "u32 atomics \<Rightarrow> u32 cell \<Rightarrow> (u32 \<times> u32 cell) cres" where
  "ovs_refcount_unref_relaxed A refcount = at_sub A (c_lit 1) memory_order_relaxed refcount"

definition ovs_refcount_read :: "u32 atomics \<Rightarrow> u32 cell \<Rightarrow> u32 \<times> u32 cell" where
  "ovs_refcount_read A refcount = at_read A memory_order_relaxed refcount"

text \<open>One turn of the loop of \<open>ovs_refcount_try_ref_rcu\<close>: the test, and the compare and exchange.\<close>

definition try_ref_fails :: "u32 \<Rightarrow> bool" where
  "try_ref_fails count \<longleftrightarrow> count = 0"

definition try_ref_cas :: "u32 atomics \<Rightarrow> u32 \<Rightarrow> u32 cell \<Rightarrow> bool \<times> u32 \<times> u32 cell" where
  "try_ref_cas A count refcount = at_cas A count (count + 1) memory_order_relaxed memory_order_relaxed refcount"

partial_function (option) try_ref_loop :: "u32 atomics \<Rightarrow> u32 \<Rightarrow> u32 cell \<Rightarrow> (bool \<times> u32 cell) option" where
  "try_ref_loop A count refcount =
     (if try_ref_fails count then Some (False, refcount)
      else case try_ref_cas A count refcount of (done, count', refcount') \<Rightarrow>
        if done then Some (True, refcount') else try_ref_loop A count' refcount')"

definition ovs_refcount_try_ref_rcu :: "u32 atomics \<Rightarrow> u32 cell \<Rightarrow> (bool \<times> u32 cell) option" where
  "ovs_refcount_try_ref_rcu A refcount =
     (case at_read A memory_order_relaxed refcount of (count, refcount) \<Rightarrow> try_ref_loop A count refcount)"

section \<open>Threads\<close>

text \<open>
  Threads that share one reference count, in the interleaving of their accesses. A thread is idle or inside the
  loop of \<open>ovs_refcount_try_ref_rcu\<close> with the count that it saw. \<open>held\<close> is the references that each
  thread owns, \<open>freed\<close> how often an unref returned 1, which is when the caller destroys the object. As the
  comments require, a thread takes and drops references only through one that it owns, except in the loop.
\<close>

datatype pc = Idle | Looping u32

record refsys =
  rc :: "u32 cell"
  pcs :: "pc list"
  held :: "nat list"
  freed :: nat

definition refs :: "refsys \<Rightarrow> nat" where
  "refs s = sum_list (held s)"

definition next_pc :: "u32 \<Rightarrow> pc" where
  "next_pc count = (if try_ref_fails count then Idle else Looping count)"

definition refsys_start :: "nat \<Rightarrow> u32 \<Rightarrow> refsys" where
  "refsys_start n v = \<lparr>rc = ovs_refcount_init \<lparr>obj = v, others = [], issued = []\<rparr>, pcs = replicate (Suc n) Idle,
     held = 1 # replicate n 0, freed = 0\<rparr>"

inductive refsys_step :: "u32 atomics \<Rightarrow> refsys \<Rightarrow> refsys \<Rightarrow> bool" for A where
  ref: "i < length (pcs s) \<Longrightarrow> pcs s ! i = Idle \<Longrightarrow> 0 < held s ! i \<Longrightarrow>
    refsys_step A s (s\<lparr>rc := ovs_refcount_ref A (rc s), held := (held s)[i := Suc (held s ! i)]\<rparr>)"
| unref: "i < length (pcs s) \<Longrightarrow> pcs s ! i = Idle \<Longrightarrow> 0 < held s ! i \<Longrightarrow>
    ovs_refcount_unref A (rc s) = Ok (old, c) \<or> ovs_refcount_unref_relaxed A (rc s) = Ok (old, c) \<Longrightarrow>
    refsys_step A s (s\<lparr>rc := c, held := (held s)[i := held s ! i - 1], freed := freed s + (if old = 1 then 1 else 0)\<rparr>)"
| read: "ovs_refcount_read A (rc s) = (v, c) \<Longrightarrow> refsys_step A s (s\<lparr>rc := c\<rparr>)"
| try_read: "i < length (pcs s) \<Longrightarrow> pcs s ! i = Idle \<Longrightarrow> at_read A memory_order_relaxed (rc s) = (count, c) \<Longrightarrow>
    refsys_step A s (s\<lparr>rc := c, pcs := (pcs s)[i := next_pc count]\<rparr>)"
| try_fail: "i < length (pcs s) \<Longrightarrow> pcs s ! i = Looping count \<Longrightarrow> try_ref_cas A count (rc s) = (False, count', c) \<Longrightarrow>
    refsys_step A s (s\<lparr>rc := c, pcs := (pcs s)[i := next_pc count']\<rparr>)"
| try_done: "i < length (pcs s) \<Longrightarrow> pcs s ! i = Looping count \<Longrightarrow> try_ref_cas A count (rc s) = (True, count', c) \<Longrightarrow>
    refsys_step A s (s\<lparr>rc := c, pcs := (pcs s)[i := Idle], held := (held s)[i := Suc (held s ! i)]\<rparr>)"
| give: "i < length (pcs s) \<Longrightarrow> j < length (pcs s) \<Longrightarrow> i \<noteq> j \<Longrightarrow> 0 < held s ! i \<Longrightarrow>
    refsys_step A s (s\<lparr>held := (held s)[i := held s ! i - 1, j := Suc (held s ! j)]\<rparr>)"

text \<open>A turn of thread \<open>i\<close> in its loop: the steps \<open>try_fail\<close> and \<open>try_done\<close>.\<close>

definition try_turn :: "u32 atomics \<Rightarrow> nat \<Rightarrow> refsys \<Rightarrow> refsys \<Rightarrow> bool" where
  "try_turn A i s s' \<longleftrightarrow> (\<exists>count ok count' c. i < length (pcs s) \<and> pcs s ! i = Looping count \<and>
     try_ref_cas A count (rc s) = (ok, count', c) \<and>
     s' = s\<lparr>rc := c, pcs := (pcs s)[i := if ok then Idle else next_pc count'],
            held := if ok then (held s)[i := Suc (held s ! i)] else held s\<rparr>)"

text \<open>The states in which the references fit into the count, reached through such states.\<close>

inductive refsys_reach :: "u32 atomics \<Rightarrow> refsys \<Rightarrow> bool" for A where
  start: "refsys_reach A (refsys_start n v)"
| step: "refsys_reach A s \<Longrightarrow> refsys_step A s s' \<Longrightarrow> refs s' < 2 ^ 32 \<Longrightarrow> refsys_reach A s'"

text \<open>What a state must satisfy.\<close>

definition refsys_inv :: "refsys \<Rightarrow> bool" where
  "refsys_inv s \<longleftrightarrow> others (rc s) = [] \<and> length (held s) = length (pcs s) \<and> refs s < 2 ^ 32 \<and>
     unat (obj (rc s)) = refs s \<and> freed s = (if refs s = 0 then 1 else 0) \<and>
     (\<forall>p \<in> set (pcs s). p \<noteq> Looping 0)"

text \<open>A state without references.\<close>

definition dead :: "refsys \<Rightarrow> bool" where
  "dead s \<longleftrightarrow> others (rc s) = [] \<and> obj (rc s) = 0 \<and> refs s = 0 \<and> length (held s) = length (pcs s) \<and> Looping 0 \<notin> set (pcs s)"

lemma refsys_invD:
  assumes "refsys_inv s"
  shows "others (rc s) = []" "length (held s) = length (pcs s)" "refs s < 4294967296" "unat (obj (rc s)) = refs s"
    "freed s = (if refs s = 0 then 1 else 0)" "Looping 0 \<notin> set (pcs s)"
  using assms by (auto simp: refsys_inv_def)

lemma next_pc_not_0 [simp]: "next_pc v \<noteq> Looping 0"
  by (auto simp: next_pc_def try_ref_fails_def)

lemma set_update_not: "Looping 0 \<notin> set ps \<Longrightarrow> p \<noteq> Looping 0 \<Longrightarrow> Looping 0 \<notin> set (ps[i := p])"
  using set_update_subset_insert [of ps i p] by auto

lemma sum_list_inc: "i < length xs \<Longrightarrow> sum_list (xs[i := Suc (xs ! i)]) = Suc (sum_list xs)"
  by (simp add: sum_list_update)

lemma sum_list_dec: "i < length xs \<Longrightarrow> 0 < (xs ! i :: nat) \<Longrightarrow> sum_list (xs[i := xs ! i - 1]) = sum_list xs - 1 \<and> 0 < sum_list xs"
  by (simp add: sum_list_update) (metis elem_le_sum_list less_le_trans nat_less_le)

lemma unat_1_iff: "v = (1 :: u32) \<longleftrightarrow> unat v = 1"
  by (auto simp: word_unat_eq_iff)

lemma unat_inc: "Suc (unat v) < 4294967296 \<Longrightarrow> unat (v + 1 :: u32) = Suc (unat v)"
  by (simp add: unat_word_ariths)

lemma unat_dec: "0 < unat v \<Longrightarrow> unat (v - 1 :: u32) = unat v - 1"
  by (simp add: unat_sub word_le_nat_alt)

end
