(* ===== verification/RefcountProps.thy ===== *)
theory RefcountProps
  imports Refcount
begin

text \<open>
  What reference counts promise: proved once from the laws of the atomics in the locales \<open>refcounting\<close> and
  \<open>ordered_refcounting\<close>, which each header satisfies.
\<close>

locale refcounting = atomic_values A for A :: "u32 atomics"
begin

lemma ref_alone:
  assumes "others c = []"
  shows "obj (ovs_refcount_ref A c) = obj c + 1" "others (ovs_refcount_ref A c) = []"
  using alone(4) [OF assms, of 1 memory_order_relaxed] by (auto simp: ovs_refcount_ref_def)

lemma unref_alone:
  assumes "others c = []" "ovs_refcount_unref A c = Ok (old, c') \<or> ovs_refcount_unref_relaxed A c = Ok (old, c')"
  shows "old = obj c" "obj c' = obj c - 1" "others c' = []"
  using sub_alone [OF assms(1), of 1 memory_order_release] sub_alone [OF assms(1), of 1 memory_order_relaxed] assms(2)
  by (auto simp: ovs_refcount_unref_def ovs_refcount_unref_relaxed_def fence split: if_splits)

lemma unref_returns:
  assumes "others c = []"
  shows "\<exists>c'. ovs_refcount_unref A c = Ok (obj c, c') \<and> obj c' = obj c - 1 \<and> others c' = []"
  using sub_alone [OF assms, of 1 memory_order_release] by (auto simp: ovs_refcount_unref_def fence)

lemma read_alone:
  assumes "others c = []" "at_read A m c = (v, c')"
  shows "v = obj c" "obj c' = obj c" "others c' = []"
  using alone(3) [OF assms(1), of m] assms(2) by auto

lemma try_ref_cas_alone:
  assumes "others c = []" "try_ref_cas A count c = (ok, count', c')"
  shows "count' = obj c" "ok \<longleftrightarrow> obj c = count" "obj c' = (if ok then obj c + 1 else obj c)" "others c' = []"
  using cas [of count "count + 1" memory_order_relaxed memory_order_relaxed c ok count' c'] assms
  by (auto simp: try_ref_cas_def)

section \<open>The count is the number of references\<close>

lemma step_inv:
  assumes "refsys_step A s s'" "refsys_inv s" "refs s' < 2 ^ 32"
  shows "refsys_inv s'"
  using assms(1)
proof cases
  case (ref i)
  have i: "i < length (held s)" using ref(2) refsys_invD(2) [OF assms(2)] by simp
  have "refs s' = Suc (refs s)" using sum_list_inc [OF i] by (simp add: ref(1) refs_def)
  moreover have "unat (obj (rc s) + 1) = Suc (refs s)"
    using unat_inc [of "obj (rc s)"] refsys_invD(4) [OF assms(2)] assms(3) calculation by simp
  moreover have "0 < refs s" using sum_list_dec [OF i ref(4)] by (simp add: refs_def)
  ultimately show ?thesis
    using assms(2,3) ref_alone [OF refsys_invD(1) [OF assms(2)]] by (simp add: ref(1) refsys_inv_def)
next
  case (unref i old c)
  note inv = refsys_invD [OF assms(2)]
  have i: "i < length (held s)" using unref(2) inv(2) by simp
  have r: "refs s' = refs s - 1" "0 < refs s"
    using sum_list_dec [OF i unref(4)] by (simp_all add: unref(1) refs_def)
  note u = unref_alone [OF inv(1) unref(5)]
  have "unat (obj c) = refs s'" using unat_dec [of "obj (rc s)"] inv(4) r u(2) by simp
  moreover have "freed s' = (if refs s' = 0 then 1 else 0)"
  proof -
    have "old = 1 \<longleftrightarrow> refs s = 1" using u(1) inv(4) unat_1_iff [of old] by simp
    then show ?thesis using inv(5) r by (auto simp: unref(1))
  qed
  ultimately show ?thesis
    using assms(2,3) u(3) by (simp add: unref(1) refsys_inv_def refs_def)
next
  case (read v c)
  then show ?thesis
    using assms(2) read_alone [OF refsys_invD(1) [OF assms(2)], of memory_order_relaxed v c]
    by (simp add: ovs_refcount_read_def refsys_inv_def refs_def)
next
  case (try_read i count c)
  then show ?thesis
    using assms(2) read_alone [OF refsys_invD(1) [OF assms(2)] try_read(4)] set_update_not [of "pcs s" "next_pc count" i]
    by (auto simp: refsys_inv_def refs_def)
next
  case (try_fail i count count' c)
  then show ?thesis
    using assms(2) try_ref_cas_alone [OF refsys_invD(1) [OF assms(2)] try_fail(4)] set_update_not [of "pcs s" "next_pc count'" i]
    by (auto simp: refsys_inv_def refs_def)
next
  case (try_done i count count' c)
  note inv = refsys_invD [OF assms(2)]
  have i: "i < length (held s)" using try_done(2) inv(2) by simp
  note t = try_ref_cas_alone [OF inv(1) try_done(4)]
  have "Looping count \<in> set (pcs s)" using try_done(2,3) nth_mem by metis
  then have "count \<noteq> 0" using inv(6) by metis
  then have pos: "0 < refs s" using t(2) inv(4) by (metis unat_eq_zero gr0I)
  have r: "refs s' = Suc (refs s)" using sum_list_inc [OF i] by (simp add: try_done(1) refs_def)
  have "unat (obj (rc s) + 1) = Suc (refs s)"
    using unat_inc [of "obj (rc s)"] inv(4) assms(3) r by simp
  then show ?thesis
    using assms(2,3) t pos r set_update_not [of "pcs s" Idle i] by (auto simp: try_done(1) refsys_inv_def)
next
  case (give i j)
  note inv = refsys_invD [OF assms(2)]
  have "sum_list ((held s)[i := held s ! i - 1, j := Suc (held s ! j)]) = sum_list (held s)"
    using sum_list_dec [of i "held s"] sum_list_inc [of j "(held s)[i := held s ! i - 1]"] give(2-5) inv(2) by simp
  then show ?thesis using assms(2) by (simp add: give(1) refsys_inv_def refs_def)
qed

lemma start_inv: "refsys_inv (refsys_start n v)"
  by (auto simp: refsys_inv_def refsys_start_def ovs_refcount_init_def atomic_init_def refs_def sum_list_replicate)

lemma reach_inv: "refsys_reach A s \<Longrightarrow> refsys_inv s"
  by (induction rule: refsys_reach.induct) (auto intro: start_inv step_inv)

section \<open>A count of zero stays\<close>

lemma step_dead:
  assumes "refsys_step A s s'" "dead s"
  shows "dead s'"
proof -
  have d: "others (rc s) = []" "obj (rc s) = 0" "length (held s) = length (pcs s)" "Looping 0 \<notin> set (pcs s)"
    using assms(2) by (simp_all add: dead_def)
  have no: "held s ! i = 0" if "i < length (pcs s)" for i
    using assms(2) that by (simp add: dead_def refs_def sum_list_eq_0_iff)
  show ?thesis using assms(1)
  proof cases
    case (read v c)
    then show ?thesis
      using assms(2) read_alone [OF d(1), of memory_order_relaxed v c] by (simp add: ovs_refcount_read_def dead_def refs_def)
  next
    case (try_read i count c)
    then show ?thesis
      using assms(2) read_alone [OF d(1) try_read(4)] set_update_not [of "pcs s" "next_pc count" i] by (simp add: dead_def refs_def)
  next
    case (try_fail i count count' c)
    then show ?thesis
      using assms(2) try_ref_cas_alone [OF d(1) try_fail(4)] set_update_not [of "pcs s" "next_pc count'" i]
      by (simp add: dead_def refs_def)
  next
    case (try_done i count count' c)
    then have "count = 0" using try_ref_cas_alone(2) [OF d(1) try_done(4)] d(2) by simp
    then show ?thesis using try_done(2,3) d(4) nth_mem by metis
  qed (use no in auto)
qed

lemma steps_dead: "(refsys_step A)\<^sup>*\<^sup>* s s' \<Longrightarrow> dead s \<Longrightarrow> dead s'"
  by (induction rule: rtranclp_induct) (auto intro: step_dead)

lemma reach_dead: "refsys_reach A s \<Longrightarrow> obj (rc s) = 0 \<Longrightarrow> dead s"
  using reach_inv [of s] refsys_invD [of s] by (auto simp: dead_def)

section \<open>The loop\<close>

lemma try_ref_loop_at_once:
  "\<exists>b c'. try_ref_loop A count c = Some (b, c') \<and>
     (if b then \<exists>v. v \<noteq> 0 \<and> at_once (\<lambda>v. v + 1) c v c' else count = 0 \<and> c' = c \<or> at_once (\<lambda>v. v) c 0 c')"
proof (induction "2 * length (others c) + (if obj c = count then 0 else 1)" arbitrary: count c rule: less_induct)
  case less
  obtain ok count' c1 where x: "try_ref_cas A count c = (ok, count', c1)" by (cases "try_ref_cas A count c")
  note c1 = cas [of count "count + 1" memory_order_relaxed memory_order_relaxed c ok count' c1, folded try_ref_cas_def, OF x]
  show ?case
  proof (cases "count = 0")
    case True
    then show ?thesis by (subst try_ref_loop.simps) (auto simp: try_ref_fails_def)
  next
    case nz: False
    show ?thesis
    proof (cases ok)
      case True
      then have "at_once (\<lambda>v. v + 1) c count c1" using c1 by (intro at_once_next) auto
      then show ?thesis
        using nz True by (subst try_ref_loop.simps) (auto simp: try_ref_fails_def x)
    next
      case False
      have "2 * length (others c1) + (if obj c1 = count' then 0 else 1)
          < 2 * length (others c) + (if obj c = count then 0 else 1)"
        using c1 False by (cases "others c") auto
      from less [OF this] obtain b c' where l: "try_ref_loop A count' c1 = Some (b, c')"
          "if b then \<exists>v. v \<noteq> 0 \<and> at_once (\<lambda>v. v + 1) c1 v c' else count' = 0 \<and> c' = c1 \<or> at_once (\<lambda>v. v) c1 0 c'"
        by blast
      have o: "obj c1 = obj (interfere c)" "others c1 = tl (others c)" using c1 False by auto
      have "at_once (\<lambda>v. v) c 0 c1" if "count' = 0" using c1 False that by (intro at_once_next) auto
      then have "if b then \<exists>v. v \<noteq> 0 \<and> at_once (\<lambda>v. v + 1) c v c' else at_once (\<lambda>v. v) c 0 c'"
        using l(2) at_once_later [OF _ o] by (auto split: if_splits)
      then show ?thesis
        using nz False l(1) by (subst try_ref_loop.simps) (auto simp: try_ref_fails_def x)
    qed
  qed
qed

lemma try_ref_at_once:
  "\<exists>b c'. ovs_refcount_try_ref_rcu A c = Some (b, c') \<and>
     (if b then \<exists>v. v \<noteq> 0 \<and> at_once (\<lambda>v. v + 1) c v c' else at_once (\<lambda>v. v) c 0 c')"
proof -
  obtain count c1 where r: "at_read A memory_order_relaxed c = (count, c1)" by fastforce
  note a = read [OF r]
  then have c1: "obj c1 = count" by (auto simp: at_once_def)
  obtain b c' where l: "try_ref_loop A count c1 = Some (b, c')"
      "if b then \<exists>v. v \<noteq> 0 \<and> at_once (\<lambda>v. v + 1) c1 v c' else count = 0 \<and> c' = c1 \<or> at_once (\<lambda>v. v) c1 0 c'"
    using try_ref_loop_at_once by blast
  then have "if b then \<exists>v. v \<noteq> 0 \<and> at_once (\<lambda>v. v + 1) c v c' else at_once (\<lambda>v. v) c 0 c'"
    using a at_once_trans [OF a] by (auto split: if_splits)
  then show ?thesis using l(1) by (simp add: ovs_refcount_try_ref_rcu_def r)
qed

section \<open>The loop ends when the count rests\<close>

lemma step_alone: "refsys_step A s s' \<Longrightarrow> others (rc s) = [] \<Longrightarrow> others (rc s') = []"
proof (induction rule: refsys_step.cases)
  case (ref i s)
  then show ?case by (simp add: ref_alone)
next
  case (unref i s old c)
  then show ?case using unref_alone(3) by simp
next
  case (read s v c)
  then show ?case using read_alone(3) by (simp add: ovs_refcount_read_def)
next
  case (try_read i s count c)
  then show ?case using read_alone(3) by simp
next
  case (try_fail i s count count' c)
  then show ?case using try_ref_cas_alone(4) by simp
next
  case (try_done i s count count' c)
  then show ?case using try_ref_cas_alone(4) by simp
qed simp

lemma step_loop:
  assumes "refsys_step A s s'" "pcs s ! i = Looping count" "i < length (pcs s)"
  shows "length (pcs s') = length (pcs s) \<and> (pcs s' ! i = Looping count \<or> try_turn A i s s')"
  using assms(1)
proof cases
  case (try_read j v c)
  then show ?thesis using assms(2) by (cases "j = i") auto
next
  case (try_fail j v v' c)
  then show ?thesis using assms(2,3) by (cases "j = i") (auto simp: try_turn_def)
next
  case (try_done j v v' c)
  then show ?thesis using assms(2,3) by (cases "j = i") (auto simp: try_turn_def)
qed (use assms in auto)

text \<open>A turn fails only when the count is not what the thread saw last.\<close>

lemma turn_alone:
  assumes "try_turn A i s s'" "others (rc s) = []" "pcs s ! i = Looping count"
  shows "pcs s' ! i = (if obj (rc s) = count then Idle else next_pc (obj (rc s)))"
    and "pcs s' ! i = Idle \<Longrightarrow> held s' = (held s)[i := Suc (held s ! i)] \<or> obj (rc s) = 0 \<and> held s' = held s"
    and "i < length (pcs s)" "length (pcs s') = length (pcs s)"
proof -
  obtain c ok v d where t: "i < length (pcs s)" "pcs s ! i = Looping c" "try_ref_cas A c (rc s) = (ok, v, d)"
      "s' = s\<lparr>rc := d, pcs := (pcs s)[i := if ok then Idle else next_pc v],
          held := if ok then (held s)[i := Suc (held s ! i)] else held s\<rparr>"
    using assms(1) unfolding try_turn_def by blast
  note a = try_ref_cas_alone(1,2) [OF assms(2) t(3)]
  have c: "c = count" using t(2) assms(3) by simp
  show "pcs s' ! i = (if obj (rc s) = count then Idle else next_pc (obj (rc s)))"
    using t(1,4) a c by simp
  show "i < length (pcs s)" "length (pcs s') = length (pcs s)" using t(1,4) by simp_all
  assume "pcs s' ! i = Idle"
  then show "held s' = (held s)[i := Suc (held s ! i)] \<or> obj (rc s) = 0 \<and> held s' = held s"
    using t(1,4) a(1) by (cases ok) (simp_all add: next_pc_def try_ref_fails_def split: if_splits)
qed

lemma try_ref_lock_free:
  assumes run: "\<forall>k. refsys_step A (r k) (r (Suc k))" "others (rc (r 0)) = []"
    and loop: "i < length (pcs (r 0))" "pcs (r 0) ! i = Looping count"
    and rests: "\<forall>k \<ge> n. obj (rc (r k)) = v"
    and turns: "\<forall>k. pcs (r k) ! i \<noteq> Idle \<longrightarrow> (\<exists>l \<ge> k. try_turn A i (r l) (r (Suc l)))"
  shows "\<exists>k. try_turn A i (r k) (r (Suc k)) \<and> pcs (r (Suc k)) ! i = Idle \<and>
    (held (r (Suc k)) = (held (r k))[i := Suc (held (r k) ! i)] \<or> obj (rc (r k)) = 0 \<and> held (r (Suc k)) = held (r k))"
proof (rule ccontr)
  assume no: "\<not> ?thesis"
  have alone: "others (rc (r k)) = []" for k
    by (induction k) (use run step_alone in auto)
  have stays: "pcs (r (Suc k)) ! i \<noteq> Idle" if "try_turn A i (r k) (r (Suc k))" "pcs (r k) ! i = Looping c" for k c
    using no turn_alone(2) [OF that(1) alone that(2)] that(1) by blast
  have looping: "i < length (pcs (r k)) \<and> (\<exists>c. pcs (r k) ! i = Looping c)" for k
  proof (induction k)
    case (Suc k)
    then obtain c where c: "i < length (pcs (r k))" "pcs (r k) ! i = Looping c" by blast
    then show ?case
      using step_loop [OF run(1) [rule_format, of k] c(2,1)] stays [of k c] by (metis pc.exhaust)
  qed (use loop in blast)
  obtain l where l: "n \<le> l" "try_turn A i (r l) (r (Suc l))"
    using turns looping [of n] by (metis pc.distinct(1))
  have at: "pcs (r (Suc l + k)) ! i = Looping v" for k
  proof (induction k)
    case 0
    obtain c where c: "pcs (r l) ! i = Looping c" using looping by blast
    have "obj (rc (r l)) = v" using rests l(1) by simp
    then show ?case using turn_alone(1) [OF l(2) alone c] stays [OF l(2) c] by (auto simp: next_pc_def split: if_splits)
  next
    case (Suc k)
    have "obj (rc (r (Suc l + k))) = v" using rests l(1) by simp
    then have "\<not> try_turn A i (r (Suc l + k)) (r (Suc (Suc l + k)))"
      using turn_alone(1) [OF _ alone Suc] stays [OF _ Suc] by auto
    then show ?case using step_loop [OF run(1) [rule_format, of "Suc l + k"] Suc] looping by auto
  qed
  obtain m where m: "Suc l \<le> m" "try_turn A i (r m) (r (Suc m))"
    using turns at [of 0] by (metis add_0_right pc.distinct(1))
  then have c: "pcs (r m) ! i = Looping v" using at [of "m - Suc l"] by simp
  have "obj (rc (r m)) = v" using rests l(1) m(1) by simp
  then show False using turn_alone(1) [OF m(2) alone c] stays [OF m(2) c] by simp
qed

end

section \<open>The orders of an unref\<close>

locale ordered_refcounting = atomic_header A for A :: "u32 atomics"
begin

lemma unref_orders:
  assumes "ovs_refcount_unref A c = Ok (old, c')"
  shows "releases (added c c')" "old = 1 \<Longrightarrow> acquires (added c c')"
proof -
  obtain c1 where s: "at_sub A (c_lit 1) memory_order_release c = Ok (old, c1)"
      "c' = (if old = 1 then at_fence A memory_order_acquire c1 else c1)"
    using assms by (auto simp: ovs_refcount_unref_def res_bind_Ok_iff)
  have r: "releases (added c c1)" using sub_order [OF s(1)] by (simp add: release_order_def)
  obtain js where p: "issued c1 = issued c @ js" using sub_issued [OF s(1)] by blast
  obtain b where f: "issued (at_fence A memory_order_acquire c1) = issued c1 @ [Fence b]"
    using fence_order [of memory_order_acquire c1] by (auto simp: acquire_order_def)
  have "added c c' = js @ (if old = 1 then [Fence b] else [])" using p f s(2) by (auto simp: added_def)
  then show "releases (added c c')" "old = 1 \<Longrightarrow> acquires (added c c')" using r p by (auto simp: added_def)
qed

end

interpretation x64: refcounting x86_64 ..
interpretation i586: refcounting "i586 sse junk" for sse junk ..
interpretation gcc4: refcounting "gcc4p 8 L" for L ..
interpretation x64: ordered_refcounting x86_64 ..
interpretation i586: ordered_refcounting "i586 sse junk" for sse junk ..

section \<open>On every header\<close>

text \<open>The headers that are modelled, with what they depend on.\<close>

datatype ovs_header = X86_64 | I586 bool u32 | Gcc4p "u32 locked"

fun atomics_of :: "ovs_header \<Rightarrow> u32 atomics" where
  "atomics_of X86_64 = x86_64"
| "atomics_of (I586 sse junk) = i586 sse junk"
| "atomics_of (Gcc4p L) = gcc4p 8 L"

lemma refcounting_header: "refcounting (atomics_of h)"
  by (cases h) (simp_all add: x64.refcounting_axioms i586.refcounting_axioms gcc4.refcounting_axioms)

text \<open>
  C19. However the accesses of the threads interleave, the count is the number of references that they hold, as long
  as these fit into it, and exactly one unref has returned 1 once there are none left, and no one before.
\<close>

theorem refcount_counts_references:
  assumes "refsys_reach (atomics_of h) s"
  shows "unat (obj (rc s)) = refs s \<and> freed s = (if refs s = 0 then 1 else 0)"
  using refcounting.reach_inv [OF refcounting_header assms] by (simp add: refsys_inv_def)

text \<open>
  C20. Once the count has reached zero no sequence of steps makes it anything else, and no one gets a reference:
  not even a thread that was inside the loop of \<open>ovs_refcount_try_ref_rcu\<close> with an older count.
\<close>

theorem refcount_not_revived:
  assumes "refsys_reach (atomics_of h) s" "obj (rc s) = 0" "(refsys_step (atomics_of h))\<^sup>*\<^sup>* s s'"
  shows "obj (rc s') = 0 \<and> refs s' = 0"
  using refcounting.steps_dead [OF refcounting_header assms(3) refcounting.reach_dead [OF refcounting_header assms(1,2)]]
  by (simp add: dead_def)

text \<open>
  C24. The loop of \<open>ovs_refcount_try_ref_rcu\<close> is lock-free, not more: in an endless run of the threads, a thread in
  the loop that keeps getting turns leaves it if the count changes only finitely often, no matter how
  the others go on. It has then one reference more, or the count was zero and it has none.
\<close>

theorem ovs_refcount_try_ref_rcu_lock_free:
  assumes "refsys_reach (atomics_of h) (r 0)" "\<forall>k. refsys_step (atomics_of h) (r k) (r (Suc k))"
    and "i < length (pcs (r 0))" "pcs (r 0) ! i = Looping count" "\<forall>k \<ge> n. obj (rc (r k)) = v"
    and "\<forall>k. pcs (r k) ! i \<noteq> Idle \<longrightarrow> (\<exists>l \<ge> k. try_turn (atomics_of h) i (r l) (r (Suc l)))"
  shows "\<exists>k. try_turn (atomics_of h) i (r k) (r (Suc k)) \<and> pcs (r (Suc k)) ! i = Idle \<and>
    (held (r (Suc k)) = (held (r k))[i := Suc (held (r k) ! i)] \<or> obj (rc (r k)) = 0 \<and> held (r (Suc k)) = held (r k))"
  using refcounting.try_ref_lock_free [OF refcounting_header assms(2)]
    refsys_invD(1) [OF refcounting.reach_inv [OF refcounting_header assms(1)]] assms(3-6) by blast

text \<open>
  When the others pause, as a finite list of their actions has it, \<open>ovs_refcount_try_ref_rcu\<close> returns, and it did in
  one step what it says: it counted one up from a value that was not zero, or it saw zero and changed nothing.
\<close>

lemma ovs_refcount_try_ref_rcu_at_once:
  "\<exists>b c'. ovs_refcount_try_ref_rcu (atomics_of h) c = Some (b, c') \<and>
     (if b then \<exists>v. v \<noteq> 0 \<and> at_once (\<lambda>v. v + 1) c v c' else at_once (\<lambda>v. v) c 0 c')"
  by (rule refcounting.try_ref_at_once [OF refcounting_header])

text \<open>
  C25. An unref releases what the thread did before it, and the one that takes the last reference acquires what the
  others did before theirs, on the processors with locked instructions.
\<close>

theorem ovs_refcount_unref_orders:
  assumes "ovs_refcount_unref A c = Ok (old, c')" "A = x86_64 \<or> A = i586 sse junk"
  shows "releases (added c c') \<and> (old = 1 \<longrightarrow> acquires (added c c'))"
  using assms x64.unref_orders i586.unref_orders by blast

text \<open>
  An unref without a reference is not noticed, as \<open>ovs_assert\<close> does nothing: it returns 0 and leaves the largest
  count, from which \<open>ovs_refcount_try_ref_rcu\<close> gives out a reference and counts around to 0.
\<close>

theorem ovs_refcount_unref_unchecked:
  assumes "obj c = 0" "others c = []"
  shows "\<exists>c1 c2. ovs_refcount_unref (atomics_of h) c = Ok (0, c1) \<and> obj c1 = 4294967295 \<and>
    ovs_refcount_try_ref_rcu (atomics_of h) c1 = Some (True, c2) \<and> obj c2 = 0"
proof -
  note R = refcounting_header [of h]
  obtain c1 where u: "ovs_refcount_unref (atomics_of h) c = Ok (0, c1)" "obj c1 = - 1" "others c1 = []"
    using refcounting.unref_returns [OF R assms(2)] assms(1) by auto
  obtain b c2 where t: "ovs_refcount_try_ref_rcu (atomics_of h) c1 = Some (b, c2)"
      "if b then \<exists>v. v \<noteq> 0 \<and> at_once (\<lambda>v. v + 1) c1 v c2 else at_once (\<lambda>v. v) c1 0 c2"
    using refcounting.try_ref_at_once [OF R] by blast
  have "b" using t(2) u(2,3) by (auto dest: at_once_alone split: if_splits)
  then show ?thesis using t u by (auto dest: at_once_alone)
qed

section \<open>Witnesses\<close>

text \<open>Two threads: the second reads the count, the first drops the only reference, the second fails.\<close>

definition trace_cell :: "u32 \<Rightarrow> instr list \<Rightarrow> u32 cell" where
  "trace_cell v is = \<lparr>obj = v, others = [], issued = is\<rparr>"

definition two_read :: refsys where
  "two_read = \<lparr>rc = trace_cell 1 [Load], pcs = [Idle, Looping 1], held = [1, 0], freed = 0\<rparr>"

definition two_dropped :: refsys where
  "two_dropped = \<lparr>rc = trace_cell 0 [Load, Locked True, Fence False], pcs = [Idle, Looping 1], held = [0, 0], freed = 1\<rparr>"

definition two_failed :: refsys where
  "two_failed = \<lparr>rc = trace_cell 0 [Load, Locked True, Fence False, Locked False], pcs = [Idle, Idle], held = [0, 0], freed = 1\<rparr>"

lemmas x64_run = trace_cell_def refsys_start_def ovs_refcount_init_def atomic_init_def next_pc_def try_ref_fails_def
  atomic_read_explicit_def mov_load_def atomic_compiler_barrier_def issue_def Let_def ovs_refcount_unref_def
  atomic_sub_explicit_def atomic_add_explicit_def xadd_def atomic_thread_fence_def compiler_barrier_def try_ref_cas_def
  cas_eq cmpxchg_def ovs_refcount_ref_def refs_def

lemma two_read_step: "refsys_step x86_64 (refsys_start 1 0) two_read"
  using try_read [of 1 "refsys_start 1 0" x86_64 1 "trace_cell 1 [Load]"]
  by (simp add: two_read_def x64_run)

lemma two_dropped_step: "refsys_step x86_64 two_read two_dropped"
  using unref [of 0 two_read x86_64 1 "trace_cell 0 [Load, Locked True, Fence False]"]
  by (simp add: two_read_def two_dropped_def x64_run)

lemma two_failed_step: "refsys_step x86_64 two_dropped two_failed"
  using try_fail [of 1 two_dropped 1 x86_64 0 "trace_cell 0 [Load, Locked True, Fence False, Locked False]"]
  by (simp add: two_dropped_def two_failed_def x64_run)

lemma two_dropped_reach: "refsys_reach x86_64 two_dropped"
proof -
  have "refsys_reach x86_64 two_read"
    by (rule step [OF start two_read_step]) (simp add: two_read_def refs_def)
  then show ?thesis
    by (rule step [OF _ two_dropped_step]) (simp add: two_dropped_def refs_def)
qed

theorem refcount_counts_references_witness:
  "unat (obj (rc two_dropped)) = refs two_dropped \<and> refs two_dropped = 0 \<and> freed two_dropped = 1"
  using refcount_counts_references [of X86_64 two_dropped] two_dropped_reach by (simp add: two_dropped_def refs_def)

theorem refcount_not_revived_witness:
  "obj (rc two_failed) = 0 \<and> refs two_failed = 0"
  using refcount_not_revived [of X86_64 two_dropped two_failed] two_dropped_reach two_failed_step
  by (simp add: two_dropped_def trace_cell_def r_into_rtranclp)

text \<open>The same run, which goes on with reads of the count.\<close>

definition two_run :: "nat \<Rightarrow> refsys" where
  "two_run k = (if k = 0 then two_read else if k = 1 then two_dropped
     else two_failed\<lparr>rc := trace_cell 0 ([Load, Locked True, Fence False, Locked False] @ replicate (k - 2) Load)\<rparr>)"

lemma two_run_step: "refsys_step x86_64 (two_run k) (two_run (Suc k))"
proof -
  consider "k = 0" | "k = 1" | j where "k = Suc (Suc j)" by (metis One_nat_def not0_implies_Suc)
  then show ?thesis
  proof cases
    case 1
    then show ?thesis using two_dropped_step by (simp add: two_run_def)
  next
    case 2
    then show ?thesis using two_failed_step by (simp add: two_run_def two_failed_def)
  next
    case (3 j)
    have "ovs_refcount_read x86_64 (rc (two_run k)) = (0, rc (two_run (Suc k)))"
      by (simp add: two_run_def 3 ovs_refcount_read_def x64_run replicate_append_same)
    from refsys_step.read [where s = "two_run k", OF this] show ?thesis by (simp add: two_run_def 3)
  qed
qed

lemma two_read_reach: "refsys_reach x86_64 two_read"
  by (rule step [OF start two_read_step]) (simp add: two_read_def refs_def)

lemma two_dropped_turn: "try_turn x86_64 1 two_dropped two_failed"
  unfolding try_turn_def
  by (rule exI [of _ 1], rule exI [of _ False], rule exI [of _ 0], rule exI [of _ "rc two_failed"])
    (simp add: two_dropped_def two_failed_def x64_run)

theorem ovs_refcount_try_ref_rcu_lock_free_witness:
  "\<exists>k. try_turn x86_64 1 (two_run k) (two_run (Suc k)) \<and> pcs (two_run (Suc k)) ! 1 = Idle \<and>
    (held (two_run (Suc k)) = (held (two_run k))[1 := Suc (held (two_run k) ! 1)] \<or>
     obj (rc (two_run k)) = 0 \<and> held (two_run (Suc k)) = held (two_run k))"
proof -
  have t: "try_turn x86_64 1 (two_run 1) (two_run (Suc 1))"
    using two_dropped_turn by (simp add: two_run_def two_failed_def)
  have "\<exists>l \<ge> k. try_turn x86_64 1 (two_run l) (two_run (Suc l))" if "pcs (two_run k) ! 1 \<noteq> Idle" for k
  proof -
    have "k \<le> 1" using that by (auto simp: two_run_def two_failed_def split: if_splits)
    then show ?thesis using t by blast
  qed
  moreover have "\<forall>k \<ge> 2. obj (rc (two_run k)) = 0" by (simp add: two_run_def trace_cell_def)
  moreover have "1 < length (pcs (two_run 0))" "pcs (two_run 0) ! 1 = Looping 1" "refsys_reach (atomics_of X86_64) (two_run 0)"
    using two_read_reach by (simp_all add: two_run_def two_read_def)
  ultimately show ?thesis
    using ovs_refcount_try_ref_rcu_lock_free [of X86_64 two_run 1 1 2 0] two_run_step by simp
qed

theorem ovs_refcount_unref_orders_witness:
  "releases (added (trace_cell 1 []) (trace_cell 0 [Locked True, Fence False])) \<and>
   acquires (added (trace_cell 1 []) (trace_cell 0 [Locked True, Fence False]))"
  using ovs_refcount_unref_orders [of x86_64 "trace_cell 1 []" 1 "trace_cell 0 [Locked True, Fence False]" True 0]
  by (simp add: x64_run)

theorem ovs_refcount_unref_unchecked_witness:
  "\<exists>c1 c2. ovs_refcount_unref x86_64 (trace_cell 0 []) = Ok (0, c1) \<and> obj c1 = 4294967295 \<and>
    ovs_refcount_try_ref_rcu x86_64 c1 = Some (True, c2) \<and> obj c2 = 0"
  using ovs_refcount_unref_unchecked [of "trace_cell 0 []" X86_64] by (simp add: trace_cell_def)

end
