(* ===== verification/AtomicTest.thy ===== *)
theory AtomicTest
  imports RefcountProps
begin

text \<open>
  The choice of a header in ovs-atomic.h, the flag, and the test program src/Clang/atomic/ovs/main.c, whose checks
  are collected as the list of their conditions: its \<open>ovs_assert\<close> does nothing with them.
\<close>

section \<open>The choice of a header\<close>

record build =
  checker :: bool
  c_atomic :: bool
  have_stdatomic :: bool
  gnuc :: nat
  gnuc_minor :: nat
  is_x86_64 :: bool
  is_i386 :: bool
  gcc4_atomics :: bool
  msc_ver :: bool
  m_ix86 :: nat

datatype impl = Pthreads_impl | Clang_impl | C11_impl | Gcc47_impl | X86_64_impl | I586_impl | Gcc4_impl | Msvc_impl

definition ovs_atomic_impl :: "build \<Rightarrow> impl" where
  "ovs_atomic_impl b =
     (if checker b then Pthreads_impl
      else if c_atomic b then Clang_impl
      else if have_stdatomic b then C11_impl
      else if gnuc b \<ge> 4 \<and> gnuc_minor b \<ge> 7 then Gcc47_impl
      else if gnuc b \<noteq> 0 \<and> is_x86_64 b then X86_64_impl
      else if gnuc b \<noteq> 0 \<and> is_i386 b then I586_impl
      else if gcc4_atomics b then Gcc4_impl
      else if msc_ver b \<and> m_ix86 b \<ge> 500 then Msvc_impl
      else Pthreads_impl)"

text \<open>Of the versions from 4.7 on, those with a minor number below 7, like 5.4, do not get their header.\<close>

lemma gcc47_not_later:
  assumes "\<not> checker b" "\<not> c_atomic b" "\<not> have_stdatomic b" "4 < gnuc b" "gnuc_minor b < 7" "is_x86_64 b"
  shows "ovs_atomic_impl b = X86_64_impl"
  using assms by (simp add: ovs_atomic_impl_def)

section \<open>The flag\<close>

definition test_atomic_flag :: "bool list" where
  "test_atomic_flag =
     (let flag = \<lparr>obj = ATOMIC_FLAG_INIT, others = [], issued = []\<rparr>;
          (a, flag) = atomic_flag_test_and_set flag;
          (b, flag) = atomic_flag_test_and_set flag;
          flag = atomic_flag_clear flag;
          (c, flag) = atomic_flag_test_and_set flag
      in [a = False, b = True, c = False])"

lemma test_atomic_flag_passes: "test_atomic_flag = [True, True, True]"
  by (simp add: test_atomic_flag_def atomic_flag_test_and_set_def atomic_flag_test_and_set_explicit_def atomic_exchange_def
      xchg_def atomic_flag_clear_def atomic_flag_clear_explicit_def atomic_store_explicit_def ATOMIC_FLAG_INIT_def Let_def)

text \<open>
  Of two threads whose calls of test-and-set have no clear between them only the first sees the flag clear, whatever
  calls of test-and-set the others make in between.
\<close>

lemma atomic_flag_excludes:
  assumes "\<forall>f \<in> set (others c). \<forall>v. v \<noteq> 0 \<longrightarrow> f v \<noteq> 0" "atomic_flag_test_and_set_explicit m c = (a, c1)"
    and "atomic_flag_test_and_set_explicit m' c1 = (b, c2)"
  shows "b"
proof -
  have "obj c1 = 1" "others c1 = tl (others c)"
    using assms(2) by (auto simp: atomic_flag_test_and_set_explicit_def atomic_exchange_def xchg_def Let_def split: if_splits)
  moreover have "b \<longleftrightarrow> obj (interfere c1) \<noteq> 0"
    using assms(3) by (auto simp: atomic_flag_test_and_set_explicit_def atomic_exchange_def xchg_def Let_def split: if_splits)
  moreover have "\<forall>f \<in> set (tl (others c)). \<forall>v. v \<noteq> 0 \<longrightarrow> f v \<noteq> 0"
    using assms(1) by (metis list.set_sel(2) tl_Nil)
  ultimately show ?thesis by (auto split: list.splits)
qed

section \<open>The test of a type\<close>

text \<open>\<open>TEST_ATOMIC_TYPE\<close> is the case of the strongest orders, as the macros without an order are.\<close>

definition test_atomic_type_explicit ::
    "'a::len word atomics \<Rightarrow> memory_order \<Rightarrow> memory_order \<Rightarrow> memory_order \<Rightarrow> bool list cres" where
  "test_atomic_type_explicit A order_read order_store order_rmw =
     (let x = \<lparr>obj = 1, others = [], issued = []\<rparr>;
          (value1, x) = at_read A order_read x;
          x = at_store A 2 order_store x;
          (value2, x) = at_read A order_read x;
          x = atomic_init 3 x;
          (value3, x) = at_read A order_read x;
          (orig3, x) = at_add A (c_lit 1) order_rmw x;
          (value4, x) = at_read A order_read x
      in res_bind (at_sub A (c_lit 2) order_rmw x) (\<lambda>(orig4, x).
      let (value5, x) = at_read A order_read x;
          (orig5, x) = at_or A (c_lit 6) order_rmw x;
          (value6, x) = at_read A order_read x;
          (orig6, x) = at_and A (c_lit 10) order_rmw x;
          (value7, x) = at_read A order_read x;
          (orig7, x) = at_xor A (c_lit 10) order_rmw x;
          (value8, x) = at_read A order_read x
      in Ok [value1 = 1, value2 = 2, value3 = 3, orig3 = 3, value4 = 4, orig4 = 4, value5 = 2, orig5 = 2, value6 = 6,
             orig6 = 6, value7 = 2, orig7 = 2, value8 = 8]))"

definition test_atomic_type :: "'a::len word atomics \<Rightarrow> bool list cres" where
  "test_atomic_type A = test_atomic_type_explicit A memory_order_seq_cst memory_order_seq_cst memory_order_seq_cst"

context atomic_values
begin

lemma test_passes: "test_atomic_type_explicit A r s m = Ok (replicate 13 True)"
proof -
  let ?x0 = "\<lparr>obj = 1, others = [], issued = []\<rparr> :: 'a word cell"
  note al = alone sub_alone
  obtain x1 where 1: "at_read A r ?x0 = (1, x1)" "others x1 = []" using alone(3) [of ?x0 r] by auto
  let ?x2 = "at_store A 2 s x1"
  obtain x3 where 3: "at_read A r ?x2 = (2, x3)" "others x3 = []"
    using alone(1,2) [OF 1(2), of 2 s] alone(3) [of ?x2 r] by auto
  let ?x4 = "atomic_init 3 x3"
  have 4: "obj ?x4 = 3" "others ?x4 = []" using 3 by (simp_all add: atomic_init_def)
  obtain x5 where 5: "at_read A r ?x4 = (3, x5)" "obj x5 = 3" "others x5 = []"
    using alone(3) [OF 4(2), of r] 4(1) by auto
  obtain x6 where 6: "at_add A (c_lit 1) m x5 = (3, x6)" "obj x6 = 4" "others x6 = []"
    using alone(4) [OF 5(3), of 1 m] 5(2) by auto
  obtain x7 where 7: "at_read A r x6 = (4, x7)" "obj x7 = 4" "others x7 = []"
    using alone(3) [OF 6(3), of r] 6(2) by auto
  obtain x8 where 8: "at_sub A (c_lit 2) m x7 = Ok (4, x8)" "obj x8 = 2" "others x8 = []"
    using sub_alone [OF 7(3), of 2 m] 7(2) by auto
  obtain x9 where 9: "at_read A r x8 = (2, x9)" "obj x9 = 2" "others x9 = []"
    using alone(3) [OF 8(3), of r] 8(2) by auto
  have or: "2 OR word_of_int 6 = (6 :: 'a word)" by (rule bit_word_eqI) (simp add: bit_simps)
  obtain x10 where 10: "at_or A (c_lit 6) m x9 = (2, x10)" "obj x10 = 6" "others x10 = []"
    using alone(5) [OF 9(3), of 6 m] 9(2) by auto
  obtain x11 where 11: "at_read A r x10 = (6, x11)" "obj x11 = 6" "others x11 = []"
    using alone(3) [OF 10(3), of r] 10(2) by auto
  obtain x12 where 12: "at_and A (c_lit 10) m x11 = (6, x12)" "obj x12 = 2" "others x12 = []"
    using alone(7) [OF 11(3), of 10 m] 11(2) by auto
  obtain x13 where 13: "at_read A r x12 = (2, x13)" "obj x13 = 2" "others x13 = []"
    using alone(3) [OF 12(3), of r] 12(2) by auto
  obtain x14 where 14: "at_xor A (c_lit 10) m x13 = (2, x14)" "obj x14 = 8" "others x14 = []"
    using alone(6) [OF 13(3), of 10 m] 13(2) by auto
  obtain x15 where 15: "at_read A r x14 = (8, x15)" using alone(3) [OF 14(3), of r] 14(2) by auto
  show ?thesis
    by (simp only: test_atomic_type_explicit_def Let_def 1 3 5 6 7 8 9 10 11 12 13 14 15 prod.case res_bind.simps)
      (simp add: eval_nat_numeral)
qed

end

text \<open>
  The checks of the test program hold for every type and every order on each header; that they run says nothing
  of this, as they are not evaluated.
\<close>

theorem test_atomic_type_passes:
  "test_atomic_type_explicit (x86_64 :: 'a::len word atomics) r s m = Ok (replicate 13 True) \<and>
   test_atomic_type_explicit (i586 sse junk :: 'a word atomics) r s m = Ok (replicate 13 True) \<and>
   test_atomic_type_explicit (gcc4p 8 L :: u32 atomics) r s m = Ok (replicate 13 True)"
  by (intro conjI x64.test_passes i586.test_passes gcc4.test_passes)

end
